(* ===== verification/Prelude.thy ===== *)
theory Prelude
  imports Main "HOL-Library.Word"
begin

text \<open>
  Shared types and lemmas of the development: bytes and Go's fixed-width integers as
  words, Go's two ways of failing (an \<open>error\<close> value and a panic) as one sum type with
  its bind, \<open>io.Reader\<close> as the list of bytes that are still to be read, and the
  little-endian assembly of integers that every wire format of the program uses.

  The collections \<open>res_simps\<close> (computing with results), \<open>reader_simps\<close> (running a
  reader on a known prefix) and \<open>le_simps\<close> (integers and their bytes) carry the proofs
  of the component theories.
\<close>

unbundle bit_operations_syntax

named_theorems res_simps
named_theorems reader_simps
named_theorems le_simps

subsection \<open>Bytes, integers, strings\<close>

type_synonym byte = "8 word"
type_synonym bytes = "byte list"
type_synonym int32 = "32 word"
type_synonym int64 = "64 word"
type_synonym uint32 = "32 word"

text \<open>
  A Go \<open>string\<close> is a sequence of bytes; it is a \<open>string\<close> here, whose characters are the
  256 byte values. \<open>str\<close> is the conversion \<open>string(b)\<close> and \<open>raw\<close> is \<open>[]byte(s)\<close>.
\<close>

definition str :: "bytes \<Rightarrow> string" where
  "str b = map (\<lambda>x. char_of (unat x)) b"

definition raw :: "string \<Rightarrow> bytes" where
  "raw s = map (\<lambda>c. word_of_nat (of_char c)) s"

lemma length_str [simp]: "length (str b) = length b"
  by (simp add: str_def)

lemma length_raw [simp]: "length (raw s) = length s"
  by (simp add: raw_def)

lemma str_raw [simp]: "str (raw s) = s"
proof -
  have "unat (word_of_nat (of_char c) :: byte) = of_char c" for c :: char
    by (simp add: unat_of_nat)
  then show ?thesis by (simp add: str_def raw_def o_def)
qed

lemma raw_str [simp]: "raw (str b) = b"
proof -
  have "unat x < 256" for x :: byte
    using unsigned_less [of x, where ?'a = nat] by simp
  then have "(word_of_nat (of_char (char_of (unat x) :: char)) :: byte) = x" for x :: byte
    by (simp add: of_char_of)
  then show ?thesis by (simp add: str_def raw_def o_def)
qed

lemma str_Nil [simp]: "str [] = []"
  by (simp add: str_def)

lemma str_eq_iff [simp]: "str a = str b \<longleftrightarrow> a = b"
  by (metis raw_str)

subsection \<open>Errors, panics and results\<close>

text \<open>
  The error values the program tells apart, and \<open>Errorf\<close> for \<open>fmt.Errorf\<close> and
  \<open>errors.New\<close>: the format string and its integer arguments, not rendered.
\<close>

datatype err =
    EOF
  | UnexpectedEOF
  | InvalidSize
  | Errorf string "int list"

text \<open>
  A \<open>fault\<close> is an error value, a panic (nil dereference, index out of range or an explicit
  \<open>panic\<close>), or a loop that never ends.
\<close>

datatype fault = Error err | Panic string | Hang

type_synonym 'a res = "fault + 'a"

definition rbind :: "'a res \<Rightarrow> ('a \<Rightarrow> 'b res) \<Rightarrow> 'b res" where
  "rbind r f = (case r of Inl e \<Rightarrow> Inl e | Inr x \<Rightarrow> f x)"

lemma rbind_Inl [simp, res_simps]: "rbind (Inl e) f = Inl e"
  by (simp add: rbind_def)

lemma rbind_Inr [simp, res_simps]: "rbind (Inr x) f = f x"
  by (simp add: rbind_def)

lemma rbind_eq_Inr [res_simps]: "rbind r f = Inr y \<longleftrightarrow> (\<exists>x. r = Inr x \<and> f x = Inr y)"
  by (cases r) auto

lemma rbind_eq_Inl [res_simps]:
  "rbind r f = Inl e \<longleftrightarrow> r = Inl e \<or> (\<exists>x. r = Inr x \<and> f x = Inl e)"
  by (cases r) auto

lemma rbind_cong [fundef_cong]:
  "r = r' \<Longrightarrow> (\<And>x. r' = Inr x \<Longrightarrow> f x = g x) \<Longrightarrow> rbind r f = rbind r' g"
  by (cases r') auto

lemma rbind_assoc: "rbind (rbind r f) g = rbind r (\<lambda>x. rbind (f x) g)"
  by (cases r) auto

lemma rbind_split:
  "P (rbind r f) \<longleftrightarrow> (\<forall>e. r = Inl e \<longrightarrow> P (Inl e)) \<and> (\<forall>x. r = Inr x \<longrightarrow> P (f x))"
  by (cases r) auto

text \<open>No panic: the result is a value or an ordinary error (and there is one).\<close>

definition no_panic :: "'a res \<Rightarrow> bool" where
  "no_panic r = (case r of Inl (Error _) \<Rightarrow> True | Inl _ \<Rightarrow> False | Inr _ \<Rightarrow> True)"

lemma no_panic_Inr [simp, intro]: "no_panic (Inr x)"
  by (simp add: no_panic_def)

lemma no_panic_Error [simp, intro]: "no_panic (Inl (Error e))"
  by (simp add: no_panic_def)

lemma no_panic_Panic [simp]: "\<not> no_panic (Inl (Panic s))"
  by (simp add: no_panic_def)

lemma no_panic_Hang [simp]: "\<not> no_panic (Inl Hang)"
  by (simp add: no_panic_def)

lemma no_panic_rbind [intro]:
  "no_panic r \<Longrightarrow> (\<And>x. r = Inr x \<Longrightarrow> no_panic (f x)) \<Longrightarrow> no_panic (rbind r f)"
  by (cases r) (auto simp: no_panic_def split: fault.splits)

subsection \<open>Readers\<close>

text \<open>
  An \<open>io.Reader\<close> over bytes in memory (\<open>bytes.Reader\<close>, a file) is the list of bytes left.
  \<open>readFull n\<close> is \<open>io.ReadFull\<close> on a buffer of \<open>n\<close> bytes: \<open>EOF\<close> when nothing is left,
  \<open>ErrUnexpectedEOF\<close> when fewer than \<open>n\<close> bytes are (they are consumed).
\<close>

definition readFull_raw :: "nat \<Rightarrow> bytes \<Rightarrow> (bytes \<times> err option) \<times> bytes" where
  "readFull_raw n r =
     (if n \<le> length r then ((take n r, None), drop n r)
      else if r = [] then (([], Some EOF), [])
      else ((r, Some UnexpectedEOF), []))"

type_synonym 'a reader = "bytes \<Rightarrow> ('a \<times> bytes) res"

definition readFull :: "nat \<Rightarrow> bytes reader" where
  "readFull n r =
     (case readFull_raw n r of
        ((d, None), r') \<Rightarrow> Inr (d, r')
      | ((d, Some e), r') \<Rightarrow> Inl (Error e))"

definition rdbind :: "'a reader \<Rightarrow> ('a \<Rightarrow> 'b reader) \<Rightarrow> 'b reader" where
  "rdbind p f r = rbind (p r) (\<lambda>(x, r'). f x r')"

definition rdret :: "'a \<Rightarrow> 'a reader" where
  "rdret x r = Inr (x, r)"

definition rdfail :: "fault \<Rightarrow> 'a reader" where
  "rdfail e r = Inl e"

definition rdlift :: "'a res \<Rightarrow> 'a reader" where
  "rdlift x r = rbind x (\<lambda>y. Inr (y, r))"

lemma readFull_eq:
  "readFull n r =
     (if n \<le> length r then Inr (take n r, drop n r)
      else if r = [] then Inl (Error EOF) else Inl (Error UnexpectedEOF))"
  by (simp add: readFull_def readFull_raw_def)

lemma readFull_append [simp, reader_simps]:
  "length d = n \<Longrightarrow> readFull n (d @ r) = Inr (d, r)"
  by (simp add: readFull_eq)

lemma readFull_exact [simp, reader_simps]:
  "length d = n \<Longrightarrow> readFull n d = Inr (d, [])"
  by (simp add: readFull_eq)

lemma readFull_Inr_iff [reader_simps]:
  "readFull n r = Inr (d, r') \<longleftrightarrow> r = d @ r' \<and> length d = n"
  by (auto simp: readFull_eq)

lemma rdbind_Inr [reader_simps]:
  "p r = Inr (x, r') \<Longrightarrow> rdbind p f r = f x r'"
  by (simp add: rdbind_def)

lemma rdret_app [simp, reader_simps]: "rdret x r = Inr (x, r)"
  by (simp add: rdret_def)

lemma rdfail_app [simp, reader_simps]: "rdfail e r = Inl e"
  by (simp add: rdfail_def)

lemma rdlift_Inr [simp, reader_simps]: "rdlift (Inr x) r = Inr (x, r)"
  by (simp add: rdlift_def)

lemma rdlift_Inl [simp, reader_simps]: "rdlift (Inl e) r = Inl e"
  by (simp add: rdlift_def)

lemma no_panic_readFull [simp, intro]: "no_panic (readFull n r)"
  by (simp add: readFull_eq)

lemma no_panic_rdbind [intro]:
  "no_panic (p r) \<Longrightarrow> (\<And>x r'. p r = Inr (x, r') \<Longrightarrow> no_panic (f x r')) \<Longrightarrow> no_panic (rdbind p f r)"
  by (auto simp: rdbind_def)

subsection \<open>Slices\<close>

text \<open>Go's \<open>copy(dst[pos:], src)\<close>: as many bytes as fit.\<close>

definition copy_at :: "'a list \<Rightarrow> nat \<Rightarrow> 'a list \<Rightarrow> 'a list" where
  "copy_at dst pos src =
     take pos dst @ take (length dst - pos) src @ drop (pos + length src) dst"

lemma length_copy_at [simp]: "pos \<le> length dst \<Longrightarrow> length (copy_at dst pos src) = length dst"
  by (simp add: copy_at_def)

lemma copy_at_fits:
  "pos + length src \<le> length dst \<Longrightarrow>
     copy_at dst pos src = take pos dst @ src @ drop (pos + length src) dst"
  by (simp add: copy_at_def)

subsection \<open>Little-endian integers\<close>

text \<open>\<open>byte(i >> n)\<close> of a signed integer, and the integer put together from its bytes.\<close>

definition byte_of32 :: "nat \<Rightarrow> int32 \<Rightarrow> byte" where
  "byte_of32 n i = ucast (signed_drop_bit n i)"

definition byte_of64 :: "nat \<Rightarrow> int64 \<Rightarrow> byte" where
  "byte_of64 n i = ucast (signed_drop_bit n i)"

definition le32 :: "byte \<Rightarrow> byte \<Rightarrow> byte \<Rightarrow> byte \<Rightarrow> int32" where
  "le32 b0 b1 b2 b3 =
     ucast b0 OR push_bit 8 (ucast b1) OR push_bit 16 (ucast b2) OR push_bit 24 (ucast b3)"

definition le64 ::
  "byte \<Rightarrow> byte \<Rightarrow> byte \<Rightarrow> byte \<Rightarrow> byte \<Rightarrow> byte \<Rightarrow> byte \<Rightarrow> byte \<Rightarrow> int64" where
  "le64 b0 b1 b2 b3 b4 b5 b6 b7 =
     ucast b0 OR push_bit 8 (ucast b1) OR push_bit 16 (ucast b2) OR push_bit 24 (ucast b3) OR
     push_bit 32 (ucast b4) OR push_bit 40 (ucast b5) OR push_bit 48 (ucast b6) OR
     push_bit 56 (ucast b7)"

definition enc32 :: "int32 \<Rightarrow> bytes" where
  "enc32 i = [byte_of32 0 i, byte_of32 8 i, byte_of32 16 i, byte_of32 24 i]"

definition enc64 :: "int64 \<Rightarrow> bytes" where
  "enc64 i = [byte_of64 0 i, byte_of64 8 i, byte_of64 16 i, byte_of64 24 i,
              byte_of64 32 i, byte_of64 40 i, byte_of64 48 i, byte_of64 56 i]"

lemma length_enc32 [simp, le_simps]: "length (enc32 i) = 4"
  by (simp add: enc32_def)

lemma length_enc64 [simp, le_simps]: "length (enc64 i) = 8"
  by (simp add: enc64_def)

lemma bit_byte_of32 [le_simps]: "k \<le> 24 \<Longrightarrow> bit (byte_of32 k i) n \<longleftrightarrow> n < 8 \<and> bit i (k + n)"
  by (auto simp: byte_of32_def bit_simps)

lemma bit_byte_of64 [le_simps]: "k \<le> 56 \<Longrightarrow> bit (byte_of64 k i) n \<longleftrightarrow> n < 8 \<and> bit i (k + n)"
  by (auto simp: byte_of64_def bit_simps)

lemma le32_enc [le_simps]:
  "le32 (byte_of32 0 i) (byte_of32 8 i) (byte_of32 16 i) (byte_of32 24 i) = i"
proof (rule bit_word_eqI)
  fix n assume n: "n < LENGTH(32)"
  show "bit (le32 (byte_of32 0 i) (byte_of32 8 i) (byte_of32 16 i) (byte_of32 24 i)) n = bit i n"
  proof (cases "bit i n")
    case True
    then show ?thesis using n
      by (simp add: le32_def bit_byte_of32 bit_or_iff bit_push_bit_iff bit_ucast_iff cong: conj_cong) linarith
  next
    case False
    then show ?thesis
      by (simp add: le32_def bit_byte_of32 bit_or_iff bit_push_bit_iff bit_ucast_iff cong: conj_cong)
  qed
qed

lemma le64_enc [le_simps]:
  "le64 (byte_of64 0 i) (byte_of64 8 i) (byte_of64 16 i) (byte_of64 24 i)
        (byte_of64 32 i) (byte_of64 40 i) (byte_of64 48 i) (byte_of64 56 i) = i" (is "?l = i")
proof (rule bit_word_eqI)
  fix n assume n: "n < LENGTH(64)"
  then have "n < 8 \<or> (8 \<le> n \<and> n < 16) \<or> (16 \<le> n \<and> n < 24) \<or> (24 \<le> n \<and> n < 32) \<or>
      (32 \<le> n \<and> n < 40) \<or> (40 \<le> n \<and> n < 48) \<or> (48 \<le> n \<and> n < 56) \<or> (56 \<le> n \<and> n < 64)"
    by simp linarith
  then show "bit ?l n = bit i n"
    by (elim disjE)
       (simp_all add: le64_def bit_byte_of64 bit_or_iff bit_push_bit_iff bit_ucast_iff less_diff_conv2)
qed

lemma not_bit_byte: "8 \<le> n \<Longrightarrow> \<not> bit (b :: byte) n"
  by (auto dest: bit_imp_le_length)

lemma byte_of32_le32:
  "byte_of32 0 (le32 b0 b1 b2 b3) = b0"
  "byte_of32 8 (le32 b0 b1 b2 b3) = b1"
  "byte_of32 16 (le32 b0 b1 b2 b3) = b2"
  "byte_of32 24 (le32 b0 b1 b2 b3) = b3"
  by (rule bit_word_eqI;
      simp add: le32_def bit_byte_of32 bit_or_iff bit_push_bit_iff bit_ucast_iff not_bit_byte)+

lemma byte_of64_le64:
  "byte_of64 0 (le64 b0 b1 b2 b3 b4 b5 b6 b7) = b0"
  "byte_of64 8 (le64 b0 b1 b2 b3 b4 b5 b6 b7) = b1"
  "byte_of64 16 (le64 b0 b1 b2 b3 b4 b5 b6 b7) = b2"
  "byte_of64 24 (le64 b0 b1 b2 b3 b4 b5 b6 b7) = b3"
  "byte_of64 32 (le64 b0 b1 b2 b3 b4 b5 b6 b7) = b4"
  "byte_of64 40 (le64 b0 b1 b2 b3 b4 b5 b6 b7) = b5"
  "byte_of64 48 (le64 b0 b1 b2 b3 b4 b5 b6 b7) = b6"
  "byte_of64 56 (le64 b0 b1 b2 b3 b4 b5 b6 b7) = b7"
  by (rule bit_word_eqI;
      simp add: le64_def bit_byte_of64 bit_or_iff bit_push_bit_iff bit_ucast_iff not_bit_byte)+

lemma enc32_le32 [le_simps]: "enc32 (le32 b0 b1 b2 b3) = [b0, b1, b2, b3]"
  by (simp add: enc32_def byte_of32_le32)

lemma enc64_le64 [le_simps]: "enc64 (le64 b0 b1 b2 b3 b4 b5 b6 b7) = [b0, b1, b2, b3, b4, b5, b6, b7]"
  by (simp add: enc64_def byte_of64_le64)

subsection \<open>Go's integer division\<close>

text \<open>\<open>/\<close> and \<open>%\<close> truncate towards zero.\<close>

definition go_div :: "int \<Rightarrow> int \<Rightarrow> int" where
  "go_div a b = sgn a * sgn b * (\<bar>a\<bar> div \<bar>b\<bar>)"

definition go_rem :: "int \<Rightarrow> int \<Rightarrow> int" where
  "go_rem a b = a - b * go_div a b"

lemma go_div_nonneg: "0 \<le> a \<Longrightarrow> 0 < b \<Longrightarrow> go_div a b = a div b"
  by (cases "a = 0") (simp_all add: go_div_def)

lemma go_rem_nonneg: "0 \<le> a \<Longrightarrow> 0 < b \<Longrightarrow> go_rem a b = a mod b"
  by (simp add: go_rem_def go_div_nonneg minus_mult_div_eq_mod)

subsection \<open>Decimal rendering\<close>

text \<open>\<open>strconv.Itoa\<close> and the verb \<open>%d\<close>.\<close>

fun nat_digits :: "nat \<Rightarrow> string" where
  "nat_digits n =
     (if n < 10 then [char_of (48 + n)] else nat_digits (n div 10) @ [char_of (48 + n mod 10)])"

declare nat_digits.simps [simp del]

definition itoa :: "int \<Rightarrow> string" where
  "itoa i = (if i < 0 then ''-'' @ nat_digits (nat (- i)) else nat_digits (nat i))"

subsection \<open>Time\<close>

text \<open>
  A \<open>time.Time\<close> (in UTC) is the number of nanoseconds since the first of January of the
  year 1, so that the zero \<open>Time\<close> is 0; a \<open>time.Duration\<close> is a number of nanoseconds.
  \<open>Time.Sub\<close> saturates at the bounds of an \<open>int64\<close>, as the library's does.
\<close>

type_synonym gotime = int
type_synonym duration = int

definition maxDuration :: duration where
  "maxDuration = 2 ^ 63 - 1"

definition minDuration :: duration where
  "minDuration = - (2 ^ 63)"

definition timeSub :: "gotime \<Rightarrow> gotime \<Rightarrow> duration" where
  "timeSub t u = max minDuration (min maxDuration (t - u))"

subsection \<open>Integers that fit\<close>

lemma sint_int32: "- (2 ^ 31) \<le> n \<Longrightarrow> n < 2 ^ 31 \<Longrightarrow> sint (word_of_int n :: int32) = n"
  by (simp add: signed_of_int signed_take_bit_int_eq_self)

lemma sint_int64: "- (2 ^ 63) \<le> n \<Longrightarrow> n < 2 ^ 63 \<Longrightarrow> sint (word_of_int n :: int64) = n"
  by (simp add: signed_of_int signed_take_bit_int_eq_self)

lemma sint_word_of_nat: "n < 2 ^ 31 \<Longrightarrow> sint (word_of_nat n :: int32) = int n"
  using sint_int32 [of "int n"] by simp

end
