(* ===== verification/Wire.thy ===== *)
theory Wire
  imports Prelude
begin

text \<open>
  The MongoDB wire format at the level of bytes: the operation codes (\<open>opcode.go\<close>), the
  16-byte message header (\<open>message.go\<close>), reading integers, strings and whole documents
  from a reader (\<open>util.go\<close>), and the helpers with which the driver appends them to an
  output buffer (\<open>internal/llmgo/socket.go\<close>).
\<close>

subsection \<open>Operation codes\<close>

type_synonym OpCode = int32

definition OpCodeReply :: OpCode where "OpCodeReply = 1"
definition OpCodeUpdate :: OpCode where "OpCodeUpdate = 2001"
definition OpCodeInsert :: OpCode where "OpCodeInsert = 2002"
definition OpCodeReserved :: OpCode where "OpCodeReserved = 2003"
definition OpCodeQuery :: OpCode where "OpCodeQuery = 2004"
definition OpCodeGetMore :: OpCode where "OpCodeGetMore = 2005"
definition OpCodeDelete :: OpCode where "OpCodeDelete = 2006"
definition OpCodeKillCursors :: OpCode where "OpCodeKillCursors = 2007"
definition OpCodeCommand :: OpCode where "OpCodeCommand = 2010"
definition OpCodeCommandReply :: OpCode where "OpCodeCommandReply = 2011"
definition OpCodeCompressed :: OpCode where "OpCodeCompressed = 2012"
definition OpCodeMessage :: OpCode where "OpCodeMessage = 2013"

lemmas opcode_defs = OpCodeReply_def OpCodeUpdate_def OpCodeInsert_def OpCodeReserved_def
  OpCodeQuery_def OpCodeGetMore_def OpCodeDelete_def OpCodeKillCursors_def OpCodeCommand_def
  OpCodeCommandReply_def OpCodeCompressed_def OpCodeMessage_def

text \<open>\<open>OpCode.String\<close>: it has no name for the compressed op, which prints as unknown.\<close>

definition OpCode_String :: "OpCode \<Rightarrow> string" where
  "OpCode_String c =
     (if c = OpCodeReply then ''reply''
      else if c = OpCodeMessage then ''message''
      else if c = OpCodeUpdate then ''update''
      else if c = OpCodeInsert then ''insert''
      else if c = OpCodeReserved then ''reserved''
      else if c = OpCodeQuery then ''query''
      else if c = OpCodeGetMore then ''get_more''
      else if c = OpCodeDelete then ''delete''
      else if c = OpCodeKillCursors then ''kill_cursors''
      else if c = OpCodeCommand then ''command''
      else if c = OpCodeCommandReply then ''command_reply''
      else ''UNKNOWN('' @ itoa (sint c) @ '')'')"

text \<open>The table \<open>goodOpCode\<close>: a missing key reads as \<open>false\<close>.\<close>

definition goodOpCode :: "int32 \<Rightarrow> bool" where
  "goodOpCode c \<longleftrightarrow>
     c \<in> set [1, 2001, 2002, 2003, 2004, 2005, 2006, 2007, 2010, 2011, 2012, 2013]"

subsection \<open>Integers in byte slices\<close>

text \<open>
  An index outside the slice is Go's run-time panic. The last byte is the largest index, so
  it decides.
\<close>

abbreviation index_panic :: fault where
  "index_panic \<equiv> Panic ''runtime error: index out of range''"

definition getInt32 :: "bytes \<Rightarrow> nat \<Rightarrow> int32 res" where
  "getInt32 b pos =
     (if pos + 3 < length b
      then Inr (le32 (b ! (pos + 0)) (b ! (pos + 1)) (b ! (pos + 2)) (b ! (pos + 3)))
      else Inl index_panic)"

definition getInt64 :: "bytes \<Rightarrow> nat \<Rightarrow> int64 res" where
  "getInt64 b pos =
     (if pos + 7 < length b
      then Inr (le64 (b ! (pos + 0)) (b ! (pos + 1)) (b ! (pos + 2)) (b ! (pos + 3))
                     (b ! (pos + 4)) (b ! (pos + 5)) (b ! (pos + 6)) (b ! (pos + 7)))
      else Inl index_panic)"

definition SetInt32 :: "bytes \<Rightarrow> nat \<Rightarrow> int32 \<Rightarrow> bytes res" where
  "SetInt32 b pos i =
     (if pos + 3 < length b
      then Inr (b[pos := byte_of32 0 i, pos + 1 := byte_of32 8 i,
                  pos + 2 := byte_of32 16 i, pos + 3 := byte_of32 24 i])
      else Inl index_panic)"

definition SetInt64 :: "bytes \<Rightarrow> nat \<Rightarrow> int64 \<Rightarrow> bytes res" where
  "SetInt64 b pos i =
     (if pos + 7 < length b
      then Inr (b[pos := byte_of64 0 i, pos + 1 := byte_of64 8 i,
                  pos + 2 := byte_of64 16 i, pos + 3 := byte_of64 24 i,
                  pos + 4 := byte_of64 32 i, pos + 5 := byte_of64 40 i,
                  pos + 6 := byte_of64 48 i, pos + 7 := byte_of64 56 i])
      else Inl index_panic)"

lemma getInt32_append:
  "length a = pos \<Longrightarrow> getInt32 (a @ enc32 i @ c) pos = Inr i"
  by (simp add: getInt32_def enc32_def nth_append le32_enc)

lemma getInt64_append:
  "length a = pos \<Longrightarrow> getInt64 (a @ enc64 i @ c) pos = Inr i"
  by (simp add: getInt64_def enc64_def nth_append le64_enc)

lemma SetInt32_append:
  "length a = pos \<Longrightarrow> length d = 4 \<Longrightarrow> SetInt32 (a @ d @ c) pos i = Inr (a @ enc32 i @ c)"
  by (auto simp: SetInt32_def enc32_def length_Suc_conv numeral_eq_Suc list_update_append)

lemma SetInt64_append:
  "length a = pos \<Longrightarrow> length d = 8 \<Longrightarrow> SetInt64 (a @ d @ c) pos i = Inr (a @ enc64 i @ c)"
  by (auto simp: SetInt64_def enc64_def length_Suc_conv numeral_eq_Suc list_update_append)

lemma getInt32_enc32 [simp, le_simps]: "getInt32 (enc32 i) 0 = Inr i"
  using getInt32_append [of "[]" 0 i "[]"] by simp

lemma getInt64_enc64 [simp, le_simps]: "getInt64 (enc64 i) 0 = Inr i"
  using getInt64_append [of "[]" 0 i "[]"] by simp

lemma getInt32_Inr_iff: "(\<exists>i. getInt32 b pos = Inr i) \<longleftrightarrow> pos + 4 \<le> length b"
  by (auto simp: getInt32_def)

lemma list4_exhaust: "length b = 4 \<Longrightarrow> \<exists>b0 b1 b2 b3. b = [b0, b1, b2, b3]"
  by (auto simp: length_Suc_conv numeral_eq_Suc)

lemma list8_exhaust:
  "length b = 8 \<Longrightarrow> \<exists>b0 b1 b2 b3 b4 b5 b6 b7. b = [b0, b1, b2, b3, b4, b5, b6, b7]"
  by (auto simp: length_Suc_conv numeral_eq_Suc)

lemma enc32_getInt32: "length b = 4 \<Longrightarrow> getInt32 b 0 = Inr i \<Longrightarrow> enc32 i = b"
  by (auto dest!: list4_exhaust simp: getInt32_def enc32_le32)

lemma enc64_getInt64: "length b = 8 \<Longrightarrow> getInt64 b 0 = Inr i \<Longrightarrow> enc64 i = b"
  by (auto dest!: list8_exhaust simp: getInt64_def enc64_le64)

subsection \<open>The message header\<close>

definition MsgHeaderLen :: int where "MsgHeaderLen = 16"
definition MaxMessageSize :: int where "MaxMessageSize = 48 * 1000 * 1000"

record MsgHeader =
  MessageLength :: int32
  RequestID :: int32
  ResponseTo :: int32
  hOpCode :: OpCode

definition zeroHeader :: MsgHeader where
  "zeroHeader = \<lparr>MessageLength = 0, RequestID = 0, ResponseTo = 0, hOpCode = 0\<rparr>"

definition ToWire :: "MsgHeader \<Rightarrow> bytes res" where
  "ToWire m =
     (let b = replicate (nat MsgHeaderLen) 0 in
      rbind (SetInt32 b 0 (MessageLength m)) (\<lambda>b.
      rbind (SetInt32 b 4 (RequestID m)) (\<lambda>b.
      rbind (SetInt32 b 8 (ResponseTo m)) (\<lambda>b.
      SetInt32 b 12 (hOpCode m)))))"

definition FromWire :: "bytes \<Rightarrow> MsgHeader res" where
  "FromWire b =
     rbind (getInt32 b 0) (\<lambda>l.
     rbind (getInt32 b 4) (\<lambda>q.
     rbind (getInt32 b 8) (\<lambda>t.
     rbind (getInt32 b 12) (\<lambda>c.
       Inr \<lparr>MessageLength = l, RequestID = q, ResponseTo = t, hOpCode = c\<rparr>))))"

definition ReadHeader :: "MsgHeader reader" where
  "ReadHeader = rdbind (readFull (nat MsgHeaderLen)) (\<lambda>b. rdlift (FromWire b))"

text \<open>
  \<open>WriteTo\<close> with the writer as a function of the bytes handed to it: how many it took and
  its error. The count is returned with the error.
\<close>

definition WriteTo :: "MsgHeader \<Rightarrow> (bytes \<Rightarrow> int \<times> err option) \<Rightarrow> (int \<times> err option) res" where
  "WriteTo m write =
     rbind (ToWire m) (\<lambda>b.
       (case write b of
          (n, Some e) \<Rightarrow> Inr (n, Some e)
        | (n, None) \<Rightarrow>
            if n \<noteq> int (length b)
            then Inr (n, Some (Errorf ''attempted to write %d but wrote %d'' [int (length b), n]))
            else Inr (n, None)))"

definition LooksReal :: "MsgHeader \<Rightarrow> bool" where
  "LooksReal m =
     (if sint (MessageLength m) > MaxMessageSize \<or> sint (MessageLength m) < 24 then False
      else if sint (RequestID m) < 0 then False
      else if sint (ResponseTo m) < 0 then False
      else goodOpCode (hOpCode m))"

text \<open>The sixteen bytes of a header, for the statements.\<close>

definition header_bytes :: "MsgHeader \<Rightarrow> bytes" where
  "header_bytes m = enc32 (MessageLength m) @ enc32 (RequestID m) @ enc32 (ResponseTo m) @ enc32 (hOpCode m)"

lemma length_header_bytes [simp]: "length (header_bytes m) = 16"
  by (simp add: header_bytes_def)

lemma ToWire_eq [simp]: "ToWire m = Inr (header_bytes m)"
proof -
  have "replicate (nat MsgHeaderLen) (0::byte) =
      replicate 4 0 @ replicate 4 0 @ replicate 4 0 @ replicate 4 0"
    by (simp add: MsgHeaderLen_def numeral_eq_Suc)
  then show ?thesis
    using SetInt32_append [of "[]" 0 "replicate 4 0"]
      SetInt32_append [of "enc32 (MessageLength m)" 4 "replicate 4 0"]
      SetInt32_append [of "enc32 (MessageLength m) @ enc32 (RequestID m)" 8 "replicate 4 0"]
      SetInt32_append [of "enc32 (MessageLength m) @ enc32 (RequestID m) @ enc32 (ResponseTo m)"
        12 "replicate 4 0" "[]"]
    by (simp add: ToWire_def header_bytes_def)
qed

lemma FromWire_header_bytes [simp]: "FromWire (header_bytes m @ r) = Inr m"
  using getInt32_append [of "[]" 0]
    getInt32_append [of "enc32 (MessageLength m)" 4]
    getInt32_append [of "enc32 (MessageLength m) @ enc32 (RequestID m)" 8]
    getInt32_append [of "enc32 (MessageLength m) @ enc32 (RequestID m) @ enc32 (ResponseTo m)" 12]
  by (simp add: FromWire_def header_bytes_def)

lemma header_bytes_exhaust:
  assumes "16 \<le> length b"
  obtains m where "b = header_bytes m @ drop 16 b"
proof -
  obtain a c d e r where b: "b = a @ c @ d @ e @ r"
    and l: "length a = 4" "length c = 4" "length d = 4" "length e = 4"
  proof
    have "take 4 (drop 4 b) @ drop 8 b = drop 4 b" "take 4 (drop 8 b) @ drop 12 b = drop 8 b"
      "take 4 (drop 12 b) @ drop 16 b = drop 12 b"
      using append_take_drop_id [of 4 "drop 4 b"] append_take_drop_id [of 4 "drop 8 b"]
        append_take_drop_id [of 4 "drop 12 b"] by simp_all
    then show "b = take 4 b @ take 4 (drop 4 b) @ take 4 (drop 8 b) @ take 4 (drop 12 b) @ drop 16 b"
      by simp
  qed (use assms in auto)
  then obtain i j k h where "a = enc32 i" "c = enc32 j" "d = enc32 k" "e = enc32 h"
    by (metis enc32_getInt32 getInt32_Inr_iff add.left_neutral order_refl)
  with b l have "b = header_bytes \<lparr>MessageLength = i, RequestID = j, ResponseTo = k, hOpCode = h\<rparr> @ drop 16 b"
    by (simp add: header_bytes_def)
  then show thesis by (rule that)
qed

lemma FromWire_short: "length b < 16 \<Longrightarrow> FromWire b = Inl index_panic"
  by (auto simp: FromWire_def getInt32_def)

lemma FromWire_total: "16 \<le> length b \<Longrightarrow> \<exists>m. FromWire b = Inr m \<and> header_bytes m = take 16 b"
  by (metis header_bytes_exhaust FromWire_header_bytes append_eq_conv_conj length_header_bytes)

subsection \<open>Strings terminated by a null byte\<close>

fun readCString_loop :: "bytes \<Rightarrow> bytes reader" where
  "readCString_loop b [] = Inl (Error EOF)"
| "readCString_loop b (n # r) = (if n = 0 then Inr (b, r) else readCString_loop (b @ [n]) r)"

definition readCStringFromReader :: "bytes reader" where
  "readCStringFromReader r = readCString_loop [] r"

fun readCString :: "bytes \<Rightarrow> string" where
  "readCString b =
     (case dropWhile (\<lambda>x. x \<noteq> 0) b of
        [] \<Rightarrow> []
      | _ \<Rightarrow> str (takeWhile (\<lambda>x. x \<noteq> 0) b))"

declare readCString.simps [simp del]

lemma readCString_loop_append:
  "0 \<notin> set s \<Longrightarrow> readCString_loop b (s @ 0 # r) = Inr (b @ s, r)"
  by (induction s arbitrary: b) auto

lemma readCStringFromReader_append [simp, reader_simps]:
  "0 \<notin> set s \<Longrightarrow> readCStringFromReader (s @ 0 # r) = Inr (s, r)"
  by (simp add: readCStringFromReader_def readCString_loop_append)

lemma readCString_loop_Inr:
  "readCString_loop b r = Inr (s, r') \<Longrightarrow> \<exists>t. s = b @ t \<and> 0 \<notin> set t \<and> r = t @ 0 # r'"
proof (induction b r rule: readCString_loop.induct)
  case (2 b n r)
  show ?case
  proof (cases "n = 0")
    case True
    with "2.prems" show ?thesis by simp
  next
    case False
    with "2.prems" "2.IH" obtain t where "s = (b @ [n]) @ t" "0 \<notin> set t" "r = t @ 0 # r'"
      by auto
    with False show ?thesis by (intro exI [of _ "n # t"]) auto
  qed
qed simp

lemma readCStringFromReader_Inr:
  "readCStringFromReader r = Inr (s, r') \<Longrightarrow> 0 \<notin> set s \<and> r = s @ 0 # r'"
  using readCString_loop_Inr [of "[]" r s r'] by (auto simp: readCStringFromReader_def)

lemma readCString_loop_no_panic: "no_panic (readCString_loop b r)"
  by (induction b r rule: readCString_loop.induct) auto

lemma readCStringFromReader_no_panic [simp, intro]: "no_panic (readCStringFromReader r)"
  by (simp add: readCStringFromReader_def readCString_loop_no_panic)

lemma readCString_append: "0 \<notin> set s \<Longrightarrow> readCString (s @ 0 # r) = str s"
proof -
  assume "0 \<notin> set s"
  then have "\<forall>x\<in>set s. x \<noteq> 0" by auto
  then show ?thesis by (simp add: readCString.simps takeWhile_append dropWhile_append)
qed

subsection \<open>Whole BSON documents\<close>

definition maximumDocumentSize :: int where
  "maximumDocumentSize = 49 * 1024 * 1024"

text \<open>
  \<open>ReadDocument\<close> returns a document and an error, as the Go function does: when the body is
  cut short both are set, and the missing bytes of the document are zero. The monadic
  \<open>ReadDoc\<close> is the use most callers make of it (\<open>if err != nil { return err }\<close>).
\<close>

definition ReadDocument :: "bytes \<Rightarrow> ((bytes \<times> err option) \<times> bytes) res" where
  "ReadDocument r =
     (case readFull_raw 4 r of
        ((_, Some e), r1) \<Rightarrow> Inr (([], Some e), r1)
      | ((sizeRaw, None), r1) \<Rightarrow>
          rbind (getInt32 sizeRaw 0) (\<lambda>size.
            if sint size < 5 \<or> sint size > maximumDocumentSize
            then Inr (([], Some InvalidSize), r1)
            else
              let doc = replicate (nat (sint size)) 0;
                  doc = copy_at doc 0 sizeRaw
              in (case readFull_raw (nat (sint size) - 4) r1 of
                    ((d, e), r2) \<Rightarrow> Inr ((copy_at doc 4 d, e), r2))))"

definition ReadDoc :: "bytes reader" where
  "ReadDoc r =
     rbind (ReadDocument r) (\<lambda>((doc, e), r').
       case e of None \<Rightarrow> Inr (doc, r') | Some e \<Rightarrow> Inl (Error e))"

text \<open>A byte string that is one document as far as its length is concerned.\<close>

definition sized_doc :: "bytes \<Rightarrow> bool" where
  "sized_doc d \<longleftrightarrow>
     5 \<le> length d \<and> int (length d) \<le> maximumDocumentSize \<and>
     getInt32 d 0 = Inr (word_of_nat (length d))"

lemma sint_word_of_nat_doc:
  "int n \<le> maximumDocumentSize \<Longrightarrow> sint (word_of_nat n :: int32) = int n"
  by (subst of_int_of_nat_eq [symmetric], subst signed_of_int)
     (simp add: signed_take_bit_int_eq_self maximumDocumentSize_def)

lemma sized_doc_split:
  assumes "sized_doc d"
  shows "d = enc32 (word_of_nat (length d)) @ drop 4 d"
proof -
  have "getInt32 (take 4 d) 0 = Inr (word_of_nat (length d))"
    using assms by (simp add: sized_doc_def getInt32_def split: if_splits)
  then have "enc32 (word_of_nat (length d)) = take 4 d"
    using assms by (intro enc32_getInt32) (auto simp: sized_doc_def)
  then show ?thesis by simp
qed

lemma ReadDocument_sized:
  assumes "sized_doc d"
  shows "ReadDocument (d @ r) = Inr ((d, None), r)"
proof -
  let ?n = "length d"
  have l: "5 \<le> ?n" "int ?n \<le> maximumDocumentSize" using assms by (auto simp: sized_doc_def)
  have d: "d = enc32 (word_of_nat ?n) @ drop 4 d" by (rule sized_doc_split [OF assms])
  have t: "take 4 d = enc32 (word_of_nat ?n)"
    by (subst d) simp
  have "readFull_raw 4 (d @ r) = ((enc32 (word_of_nat ?n), None), drop 4 d @ r)"
    using l by (simp add: readFull_raw_def t)
  moreover have "readFull_raw (?n - 4) (drop 4 d @ r) = ((drop 4 d, None), r)"
    using l by (auto simp: readFull_raw_def)
  moreover have "copy_at (copy_at (replicate ?n 0) 0 (enc32 (word_of_nat ?n))) 4 (drop 4 d) = d"
  proof -
    have "copy_at (copy_at (replicate ?n 0) 0 (enc32 (word_of_nat ?n))) 4 (drop 4 d) =
        enc32 (word_of_nat ?n) @ drop 4 d"
      using l by (simp add: copy_at_def)
    with d show ?thesis by simp
  qed
  ultimately show ?thesis
    using l by (simp add: ReadDocument_def sint_word_of_nat_doc Let_def)
qed

lemma ReadDoc_sized [simp, reader_simps]: "sized_doc d \<Longrightarrow> ReadDoc (d @ r) = Inr (d, r)"
  by (simp add: ReadDoc_def ReadDocument_sized)

lemma ReadDocument_total: "\<exists>d e r'. ReadDocument r = Inr ((d, e), r')"
  by (auto simp: ReadDocument_def readFull_raw_def getInt32_def Let_def split: prod.splits option.splits)

lemma ReadDoc_no_panic [simp, intro]: "no_panic (ReadDoc r)"
  using ReadDocument_total [of r] by (auto simp: ReadDoc_def split: option.splits)

lemma readFull_raw_None:
  "readFull_raw n r = ((d, None), r') \<longleftrightarrow> n \<le> length r \<and> d = take n r \<and> r' = drop n r"
  by (auto simp: readFull_raw_def)

lemma ReadDocument_Inr_None:
  assumes "ReadDocument r = Inr ((d, None), r')"
  shows "sized_doc d \<and> r = d @ r'"
proof -
  from assms obtain size where r4: "4 \<le> length r" and g: "getInt32 (take 4 r) 0 = Inr size"
    and s: "5 \<le> sint size" "sint size \<le> maximumDocumentSize"
    and len: "nat (sint size) - 4 \<le> length (drop 4 r)"
    and d: "d = copy_at (copy_at (replicate (nat (sint size)) 0) 0 (take 4 r)) 4
              (take (nat (sint size) - 4) (drop 4 r))"
    and r': "r' = drop (nat (sint size) - 4) (drop 4 r)"
    by (auto simp: ReadDocument_def readFull_raw_None Let_def rbind_eq_Inr
        split: prod.splits option.splits if_splits)
  have "d = take 4 r @ take (nat (sint size) - 4) (drop 4 r)"
    using r4 s len by (simp add: d copy_at_def)
  then have dd: "d = take (nat (sint size)) r"
    using take_add [of 4 "nat (sint size) - 4" r] s by simp
  have ld: "length d = nat (sint size)"
    using dd r4 len s by simp
  have "getInt32 d 0 = Inr size"
    using g r4 s len by (simp add: getInt32_def dd split: if_splits)
  moreover have "word_of_nat (length d) = size"
    using ld s by simp
  ultimately have "sized_doc d"
    using ld s by (simp add: sized_doc_def)
  moreover have "r = d @ r'"
    using r' dd s by (simp add: drop_drop)
  ultimately show ?thesis by simp
qed

lemma ReadDoc_Inr: "ReadDoc r = Inr (d, r') \<Longrightarrow> sized_doc d \<and> r = d @ r'"
  using ReadDocument_total [of r]
  by (auto simp: ReadDoc_def dest: ReadDocument_Inr_None split: option.splits)

subsection \<open>Copying a whole message\<close>

text \<open>\<open>io.CopyN\<close> from memory to a buffer: the bytes copied and the error.\<close>

definition copyN :: "int \<Rightarrow> bytes \<Rightarrow> (bytes \<times> err option) \<times> bytes" where
  "copyN n r =
     (if n \<le> 0 then (([], None), r)
      else if nat n \<le> length r then ((take (nat n) r, None), drop (nat n) r)
      else ((r, Some EOF), []))"

definition CopyMessage :: "bytes \<Rightarrow> ((bytes \<times> err option) \<times> bytes) res" where
  "CopyMessage r =
     (case readFull_raw (nat MsgHeaderLen) r of
        ((_, Some e), r1) \<Rightarrow> Inr (([], Some e), r1)
      | ((b, None), r1) \<Rightarrow>
          rbind (FromWire b) (\<lambda>h.
          rbind (ToWire h) (\<lambda>w.
            (case copyN (sint (MessageLength h - 16)) r1 of
               ((d, e), r2) \<Rightarrow> Inr ((w @ d, e), r2)))))"

subsection \<open>Appending to an output buffer\<close>

text \<open>
  The helpers of \<open>internal/llmgo/socket.go\<close>. \<open>addHeader\<close> takes the code as a Go \<open>int\<close> and
  writes its two low bytes only ("enough for current opcodes").
\<close>

definition addHeader :: "bytes \<Rightarrow> int \<Rightarrow> bytes" where
  "addHeader b opcode =
     (let i = length b;
          b = b @ replicate 16 0
      in b[i + 12 := word_of_int opcode, i + 13 := word_of_int (opcode div 256)])"

definition addInt32 :: "bytes \<Rightarrow> int32 \<Rightarrow> bytes" where
  "addInt32 b i = b @ [byte_of32 0 i, byte_of32 8 i, byte_of32 16 i, byte_of32 24 i]"

definition addInt64 :: "bytes \<Rightarrow> int64 \<Rightarrow> bytes" where
  "addInt64 b i = b @ [byte_of64 0 i, byte_of64 8 i, byte_of64 16 i, byte_of64 24 i,
                       byte_of64 32 i, byte_of64 40 i, byte_of64 48 i, byte_of64 56 i]"

definition addCString :: "bytes \<Rightarrow> string \<Rightarrow> bytes" where
  "addCString b s = b @ raw s @ [0]"

lemma addInt32_eq [simp]: "addInt32 b i = b @ enc32 i"
  by (simp add: addInt32_def enc32_def)

lemma addInt64_eq [simp]: "addInt64 b i = b @ enc64 i"
  by (simp add: addInt64_def enc64_def)

lemma enc32_zero: "enc32 0 = replicate 4 0"
  by (simp add: enc32_def byte_of32_def numeral_eq_Suc)

lemma enc32_small:
  assumes "0 \<le> c" "c < 65536"
  shows "enc32 (word_of_int c) = [word_of_int c, word_of_int (c div 256), 0, 0]"
proof -
  have b: "\<not> bit c n" if "16 \<le> n" for n
  proof -
    have "(2 :: int) ^ 16 \<le> 2 ^ n" by (rule power_increasing) (use that in simp_all)
    then have "c div 2 ^ n = 0" using assms by (intro div_pos_pos_trivial) auto
    then show ?thesis by (simp add: bit_iff_odd)
  qed
  have d: "c div 256 = drop_bit 8 c" by (simp add: drop_bit_eq_div)
  show ?thesis
    unfolding enc32_def d by simp (intro conjI; rule bit_word_eqI; simp add: bit_byte_of32 bit_simps b)
qed

lemma addHeader_eq:
  assumes "0 \<le> c" "c < 65536"
  shows "addHeader b c = b @ header_bytes (zeroHeader\<lparr>hOpCode := word_of_int c\<rparr>)"
  using assms
  by (simp add: addHeader_def header_bytes_def zeroHeader_def enc32_zero enc32_small
      list_update_append numeral_eq_Suc)

subsection \<open>Abbreviating long values\<close>

text \<open>
  \<open>AbbreviateBytes\<close> and \<open>Abbreviate\<close>. The window is \<open>(maxLen - 3) / 2\<close>; a negative one makes
  the slice expression panic.
\<close>

definition AbbreviateBytes :: "bytes \<Rightarrow> int \<Rightarrow> bytes res" where
  "AbbreviateBytes data maxLen =
     (if int (length data) \<le> maxLen then Inr data
      else
        let windowLen = go_div (maxLen - 3) 2
        in if windowLen < 0 then Inl (Panic ''slice bounds out of range'')
           else Inr (take (nat windowLen) data @ raw ''...'' @
                     drop (nat (int (length data) - windowLen)) data))"

definition Abbreviate :: "string \<Rightarrow> int \<Rightarrow> string res" where
  "Abbreviate data maxLen =
     (if int (length data) \<le> maxLen then Inr data
      else
        let windowLen = go_div (maxLen - 3) 2
        in if windowLen < 0 then Inl (Panic ''slice bounds out of range'')
           else Inr (take (nat windowLen) data @ ''...'' @
                     drop (nat (int (length data) - windowLen)) data))"

subsection \<open>What the wire layer promises\<close>

lemma ReadHeader_eq: "ReadHeader r = rbind (readFull 16 r) (\<lambda>(b, r'). rbind (FromWire b) (\<lambda>m. Inr (m, r')))"
  by (simp add: ReadHeader_def rdbind_def rdlift_def MsgHeaderLen_def)

lemma ReadHeader_header_bytes [simp, reader_simps]: "ReadHeader (header_bytes m @ r) = Inr (m, r)"
  using FromWire_header_bytes [of m "[]"] by (simp add: ReadHeader_eq)

lemma ReadHeader_no_panic: "no_panic (ReadHeader r)"
proof -
  have "no_panic (FromWire b)" if "readFull 16 r = Inr (b, r')" for b r'
    using FromWire_total [of b] that by (auto simp: readFull_Inr_iff)
  then show ?thesis by (auto simp: ReadHeader_eq intro!: no_panic_rbind)
qed

lemma sint_minus16:
  fixes a :: int32
  assumes "16 \<le> sint a" "sint a < 2 ^ 31"
  shows "sint (a - 16) = sint a - 16"
proof -
  have "a - 16 = word_of_int (sint a - 16)" by simp
  then have "sint (a - 16) = signed_take_bit 31 (sint a - 16)" by (simp only: signed_of_int) simp
  also have "\<dots> = sint a - 16" using assms by (intro signed_take_bit_int_eq_self) auto
  finally show ?thesis .
qed

text \<open>
  The header codec is a bijection between headers and 16-byte prefixes: \<open>ReadHeader\<close>
  returns a header and the rest of the input exactly when the input is what \<open>ToWire\<close> writes
  for that header, followed by the rest. Both round trips are instances, and no byte pattern
  is refused or read as two headers.
\<close>

theorem ReadHeader_iff_ToWire:
  "ReadHeader r = Inr (m, r') \<longleftrightarrow> (\<exists>b. ToWire m = Inr b \<and> r = b @ r')"
proof
  assume *: "ReadHeader r = Inr (m, r')"
  then obtain b where b: "readFull 16 r = Inr (b, r')" "FromWire b = Inr m"
    by (auto simp: ReadHeader_eq rbind_eq_Inr)
  then have "header_bytes m = b"
    using FromWire_total [of b] by (auto simp: readFull_Inr_iff)
  with b show "\<exists>b. ToWire m = Inr b \<and> r = b @ r'"
    by (auto simp: readFull_Inr_iff)
qed auto

text \<open>
  \<open>ReadDocument\<close> reads without error exactly the byte strings whose own length field is
  their length and is between 5 and the maximum document size, and it consumes nothing
  beyond them; every other input gives an error value (with the sizes outside the bounds
  told apart) and none gives a panic.
\<close>

theorem ReadDocument_exact:
  "(ReadDocument r = Inr ((d, None), r') \<longleftrightarrow> sized_doc d \<and> r = d @ r') \<and> no_panic (ReadDocument r)"
  using ReadDocument_total [of r] by (auto dest: ReadDocument_Inr_None simp: ReadDocument_sized)

text \<open>
  \<open>CopyMessage\<close> copies a whole message, header included, and leaves what follows it; on
  an input that ends inside the body it hands on what there is and reports the end of file.
\<close>

theorem CopyMessage_whole:
  assumes "16 \<le> sint (MessageLength m)"
  shows "CopyMessage (header_bytes m @ body) =
    (let n = nat (sint (MessageLength m)) - 16 in
       if n \<le> length body then Inr ((header_bytes m @ take n body, None), drop n body)
       else Inr ((header_bytes m @ body, Some EOF), []))"
proof -
  have s: "sint (MessageLength m - 16) = sint (MessageLength m) - 16"
    using assms sint_lt [of "MessageLength m"] by (simp add: sint_minus16)
  show ?thesis
    using assms FromWire_header_bytes [of m "[]"]
    by (auto simp: CopyMessage_def readFull_raw_def MsgHeaderLen_def s copyN_def Let_def nat_diff_distrib)
qed

theorem CopyMessage_whole_witness:
  "CopyMessage (header_bytes (zeroHeader\<lparr>MessageLength := 18\<rparr>) @ [7, 8, 9]) =
     Inr ((header_bytes (zeroHeader\<lparr>MessageLength := 18\<rparr>) @ [7, 8], None), [9])"
  using CopyMessage_whole [of "zeroHeader\<lparr>MessageLength := 18\<rparr>" "[7, 8, 9]"]
  by (simp add: zeroHeader_def Let_def numeral_eq_Suc)

end
