(* ===== verification/Queue.thy ===== *)
theory Queue
  imports Prelude
begin

text \<open>
  The ring buffer in which a driver session queues the documents of a reply
  (\<open>internal/llmgo/queue.go\<close>): a slice of cells that grows, with the indices of the next
  cell to pop and to push. The interface of a first-in first-out queue is the locale
  \<open>fifo\<close>; its law for whole sequences of operations is interpreted on the ring buffer.
\<close>

subsection \<open>The code\<close>

text \<open>An \<open>interface{}\<close> cell is an option: \<open>None\<close> is \<open>nil\<close>.\<close>

record 'a queue =
  elems :: "'a option list"
  nelems :: nat
  popi :: nat
  pushi :: nat

definition empty_queue :: "'a queue" where
  "empty_queue = \<lparr>elems = [], nelems = 0, popi = 0, pushi = 0\<rparr>"

definition Len :: "'a queue \<Rightarrow> nat" where
  "Len q = nelems q"

definition expand :: "'a queue \<Rightarrow> 'a queue" where
  "expand q =
     (let curcap = length (elems q);
          newcap = (if curcap = 0 then 8
                    else if curcap < 1024 then curcap * 2
                    else curcap + curcap div 4);
          es = replicate newcap None
      in if popi q = 0
         then q\<lparr>elems := copy_at es 0 (elems q), pushi := curcap\<rparr>
         else
           let newpopi = newcap - (curcap - popi q);
               es = copy_at es 0 (take (popi q) (elems q));
               es = copy_at es newpopi (drop (popi q) (elems q))
           in q\<lparr>elems := es, popi := newpopi\<rparr>)"

definition Push :: "'a option \<Rightarrow> 'a queue \<Rightarrow> 'a queue res" where
  "Push e q =
     (let q = (if nelems q = length (elems q) then expand q else q) in
      if pushi q < length (elems q)
      then Inr (q\<lparr>elems := (elems q)[pushi q := e], nelems := nelems q + 1,
                  pushi := (pushi q + 1) mod length (elems q)\<rparr>)
      else Inl (Panic ''runtime error: index out of range''))"

definition Pop :: "'a queue \<Rightarrow> ('a option \<times> 'a queue) res" where
  "Pop q =
     (if nelems q = 0 then Inr (None, q)
      else if popi q < length (elems q)
      then Inr (elems q ! popi q,
                q\<lparr>elems := (elems q)[popi q := None], nelems := nelems q - 1,
                  popi := (popi q + 1) mod length (elems q)\<rparr>)
      else Inl (Panic ''runtime error: index out of range''))"

subsection \<open>The interface\<close>

text \<open>The operations a client of a queue performs, and what it sees of them.\<close>

datatype 'e qop = QPush 'e | QPop | QLen
datatype 'e qout = Popped 'e | Length nat

fun qrun ::
  "('e \<Rightarrow> 'q \<Rightarrow> 'q res) \<Rightarrow> ('q \<Rightarrow> ('e \<times> 'q) res) \<Rightarrow> ('q \<Rightarrow> nat) \<Rightarrow> 'e qop list \<Rightarrow> 'q \<Rightarrow>
     ('e qout list \<times> 'q) res" where
  "qrun push pop len [] q = Inr ([], q)"
| "qrun push pop len (QPush e # ops) q = rbind (push e q) (\<lambda>q. qrun push pop len ops q)"
| "qrun push pop len (QPop # ops) q =
     rbind (pop q) (\<lambda>(e, q). rbind (qrun push pop len ops q) (\<lambda>(outs, q). Inr (Popped e # outs, q)))"
| "qrun push pop len (QLen # ops) q =
     rbind (qrun push pop len ops q) (\<lambda>(outs, q'). Inr (Length (len q) # outs, q'))"

text \<open>The queue as the list of its elements; popping an empty one gives \<open>nil\<close>.\<close>

fun fifo_run :: "'e \<Rightarrow> 'e qop list \<Rightarrow> 'e list \<Rightarrow> 'e qout list \<times> 'e list" where
  "fifo_run nil [] xs = ([], xs)"
| "fifo_run nil (QPush e # ops) xs = fifo_run nil ops (xs @ [e])"
| "fifo_run nil (QPop # ops) xs =
     (case xs of
        [] \<Rightarrow> (case fifo_run nil ops [] of (outs, ys) \<Rightarrow> (Popped nil # outs, ys))
      | x # xs \<Rightarrow> (case fifo_run nil ops xs of (outs, ys) \<Rightarrow> (Popped x # outs, ys)))"
| "fifo_run nil (QLen # ops) xs =
     (case fifo_run nil ops xs of (outs, ys) \<Rightarrow> (Length (length xs) # outs, ys))"

locale fifo =
  fixes nil :: 'e
    and push :: "'e \<Rightarrow> 'q \<Rightarrow> 'q res"
    and pop :: "'q \<Rightarrow> ('e \<times> 'q) res"
    and len :: "'q \<Rightarrow> nat"
    and inv :: "'q \<Rightarrow> bool"
    and elements :: "'q \<Rightarrow> 'e list"
  assumes push_law: "inv q \<Longrightarrow> \<exists>q'. push e q = Inr q' \<and> inv q' \<and> elements q' = elements q @ [e]"
    and pop_empty_law: "inv q \<Longrightarrow> elements q = [] \<Longrightarrow> pop q = Inr (nil, q)"
    and pop_law: "inv q \<Longrightarrow> elements q = x # xs \<Longrightarrow>
      \<exists>q'. pop q = Inr (x, q') \<and> inv q' \<and> elements q' = xs"
    and len_law: "inv q \<Longrightarrow> len q = length (elements q)"
begin

lemma run_refines:
  "inv q \<Longrightarrow> \<exists>q'. qrun push pop len ops q = Inr (fst (fifo_run nil ops (elements q)), q') \<and>
     inv q' \<and> elements q' = snd (fifo_run nil ops (elements q))"
proof (induction ops arbitrary: q)
  case (Cons op ops)
  show ?case
  proof (cases op)
    case (QPush e)
    with Cons push_law [of q e] show ?thesis by force
  next
    case QPop
    show ?thesis
    proof (cases "elements q")
      case Nil
      with Cons QPop pop_empty_law [of q] show ?thesis
        by (fastforce split: prod.splits)
    next
      case (Cons x xs)
      then obtain q' where q': "pop q = Inr (x, q')" "inv q'" "elements q' = xs"
        using pop_law Cons.prems by blast
      from Cons.IH [OF q'(2)] q' QPop Cons show ?thesis
        by (fastforce split: prod.splits)
    qed
  next
    case QLen
    with Cons len_law [of q] show ?thesis by (fastforce split: prod.splits)
  qed
qed simp

end

subsection \<open>The ring buffer is a queue\<close>

definition queue_inv :: "'a queue \<Rightarrow> bool" where
  "queue_inv q \<longleftrightarrow>
     nelems q \<le> length (elems q) \<and>
     (if elems q = [] then popi q = 0 \<and> pushi q = 0
      else popi q < length (elems q) \<and> pushi q = (popi q + nelems q) mod length (elems q))"

definition queue_list :: "'a queue \<Rightarrow> 'a option list" where
  "queue_list q = map (\<lambda>i. elems q ! ((popi q + i) mod length (elems q))) [0..<nelems q]"

lemma queue_inv_empty [simp]: "queue_inv empty_queue"
  by (simp add: queue_inv_def empty_queue_def)

lemma queue_list_empty [simp]: "queue_list empty_queue = []"
  by (simp add: queue_list_def empty_queue_def)

lemma length_queue_list [simp]: "length (queue_list q) = nelems q"
  by (simp add: queue_list_def)

lemma mod_wrap: "i < (n::nat) \<Longrightarrow> j \<le> n \<Longrightarrow> (i + j) mod n = (if i + j < n then i + j else i + j - n)"
  by (auto simp: mod_if)

lemma newcap_grows: "(if c = 0 then 8 else if c < 1024 then c * 2 else c + c div 4) > (c::nat)"
  by auto

lemma expand_spec:
  assumes "queue_inv q" "nelems q = length (elems q)"
  shows "queue_inv (expand q)" "queue_list (expand q) = queue_list q"
    "nelems (expand q) < length (elems (expand q))"
proof -
  let ?c = "length (elems q)"
  obtain n where n: "n = (if ?c = 0 then 8 else if ?c < 1024 then ?c * 2 else ?c + ?c div 4)" by blast
  with newcap_grows [of ?c] have gt: "?c < n" by simp
  have ex: "expand q =
     (if popi q = 0 then q\<lparr>elems := copy_at (replicate n None) 0 (elems q), pushi := ?c\<rparr>
      else q\<lparr>elems := copy_at (copy_at (replicate n None) 0 (take (popi q) (elems q)))
                (n - (?c - popi q)) (drop (popi q) (elems q)), popi := n - (?c - popi q)\<rparr>)"
    by (simp only: expand_def Let_def n)
  have "queue_inv (expand q) \<and> queue_list (expand q) = queue_list q \<and>
    nelems (expand q) < length (elems (expand q))"
  proof (cases "popi q = 0")
    case True
    then have e: "expand q = q\<lparr>elems := elems q @ replicate (n - ?c) None, pushi := ?c\<rparr>"
      using gt by (simp add: ex copy_at_def)
    show ?thesis
      using assms gt True
      by (auto simp: e queue_inv_def queue_list_def nth_append split: if_splits)
  next
    case False
    let ?p = "popi q"
    let ?np = "n - (?c - ?p)"
    have p: "?p < ?c" "pushi q = ?p" using assms False by (auto simp: queue_inv_def split: if_splits)
    have e: "expand q = q\<lparr>elems := take ?p (elems q) @ replicate (n - ?c) None @ drop ?p (elems q),
        popi := ?np\<rparr>"
      using gt p False by (simp add: ex copy_at_def min_def not_less)
    have "(take ?p (elems q) @ replicate (n - ?c) None @ drop ?p (elems q)) ! ((?np + i) mod n) =
        elems q ! ((?p + i) mod ?c)" if "i < ?c" for i
    proof -
      have "(?np + i) mod n = (if ?np + i < n then ?np + i else ?np + i - n)"
        using gt that p by (intro mod_wrap) auto
      moreover have "(?p + i) mod ?c = (if ?p + i < ?c then ?p + i else ?p + i - ?c)"
        using that p by (intro mod_wrap) auto
      moreover have "?np + i < n \<longleftrightarrow> ?p + i < ?c" "?np + i - n = ?p + i - ?c"
        using gt p by auto
      ultimately show ?thesis using gt p that by (auto simp: nth_append intro!: arg_cong2 [of _ _ _ _ nth])
    qed
    moreover have "(?np + ?c) mod n = ?p" using gt p by (subst mod_wrap) auto
    ultimately show ?thesis
      using assms gt p by (auto simp: e queue_inv_def queue_list_def)
  qed
  then show "queue_inv (expand q)" "queue_list (expand q) = queue_list q"
    "nelems (expand q) < length (elems (expand q))" by auto
qed

lemma push_room:
  fixes e :: "'a option"
  assumes "queue_inv q" "nelems q < length (elems q)"
    and q': "q' = q\<lparr>elems := (elems q)[pushi q := e], nelems := nelems q + 1,
                  pushi := (pushi q + 1) mod length (elems q)\<rparr>"
  shows "pushi q < length (elems q)" "queue_inv q'" "queue_list q' = queue_list q @ [e]"
proof -
  let ?c = "length (elems q)"
  have c: "elems q \<noteq> []" "popi q < ?c" "pushi q = (popi q + nelems q) mod ?c"
    using assms by (auto simp: queue_inv_def split: if_splits)
  then show p: "pushi q < ?c" by simp
  show "queue_inv q'"
    using assms c by (auto simp: queue_inv_def mod_Suc_eq)
  have "pushi q \<noteq> (popi q + i) mod ?c" if "i < nelems q" for i
  proof -
    have "(popi q + i) mod ?c = (if popi q + i < ?c then popi q + i else popi q + i - ?c)"
      using that c assms by (intro mod_wrap) auto
    moreover have "(popi q + nelems q) mod ?c =
        (if popi q + nelems q < ?c then popi q + nelems q else popi q + nelems q - ?c)"
      using c assms by (intro mod_wrap) auto
    ultimately show ?thesis using c that assms by auto
  qed
  then show "queue_list q' = queue_list q @ [e]"
    using p by (auto simp: queue_list_def q' simp flip: c(3))
qed

lemma Push_spec:
  "queue_inv q \<Longrightarrow> \<exists>q'. Push e q = Inr q' \<and> queue_inv q' \<and> queue_list q' = queue_list q @ [e]"
proof (cases "nelems q = length (elems q)")
  case True
  assume "queue_inv q"
  with True expand_spec [of q] push_room [of "expand q" _ e] show ?thesis
    by (simp add: Push_def Let_def)
next
  case False
  assume "queue_inv q"
  with False push_room [of q _ e] show ?thesis
    by (auto simp: Push_def Let_def queue_inv_def)
qed

lemma Pop_spec:
  assumes "queue_inv q" "queue_list q = x # xs"
  shows "\<exists>q'. Pop q = Inr (x, q') \<and> queue_inv q' \<and> queue_list q' = xs"
proof -
  let ?c = "length (elems q)"
  from assms(2) obtain m where m: "nelems q = Suc m" by (cases "nelems q") (auto simp: queue_list_def)
  then have c: "elems q \<noteq> []" "popi q < ?c" "pushi q = (popi q + Suc m) mod ?c" "Suc m \<le> ?c"
    using assms(1) by (auto simp: queue_inv_def split: if_splits)
  have l: "queue_list q = elems q ! popi q # map (\<lambda>i. elems q ! ((popi q + Suc i) mod ?c)) [0..<m]"
    using c by (simp add: queue_list_def m upt_conv_Cons map_Suc_upt [symmetric] del: upt_Suc)
  let ?q' = "q\<lparr>elems := (elems q)[popi q := None], nelems := m, popi := (popi q + 1) mod ?c\<rparr>"
  have "(Suc (popi q) mod ?c + i) mod ?c = (popi q + Suc i) mod ?c" for i
    by (simp add: mod_simps)
  moreover have "popi q \<noteq> (popi q + Suc i) mod ?c" if "i < m" for i
  proof -
    have "(popi q + Suc i) mod ?c = (if popi q + Suc i < ?c then popi q + Suc i else popi q + Suc i - ?c)"
      using that c by (intro mod_wrap) auto
    then show ?thesis using that c by auto
  qed
  ultimately have "queue_list ?q' = map (\<lambda>i. elems q ! ((popi q + Suc i) mod ?c)) [0..<m]"
    by (auto simp: queue_list_def)
  moreover have "queue_inv ?q'"
    using c by (auto simp: queue_inv_def mod_simps)
  ultimately show ?thesis
    using c l assms(2) m by (auto simp: Pop_def)
qed

lemma Pop_empty: "queue_list q = [] \<Longrightarrow> Pop q = Inr (None, q)"
  by (simp add: Pop_def queue_list_def)

interpretation ring: fifo None Push Pop Len queue_inv queue_list
  by unfold_locales (use Push_spec Pop_spec Pop_empty in \<open>auto simp: Len_def\<close>)

text \<open>
  C18. Any sequence of \<open>Push\<close>, \<open>Pop\<close> and \<open>Len\<close> calls on a new ring buffer, however often it
  wraps around and grows, shows its client what the same calls on a plain list show: first
  in, first out, \<open>nil\<close> from an empty queue, the right length, and never an index out of
  range.
\<close>

theorem queue_refines_list:
  "\<exists>q. qrun Push Pop Len ops empty_queue = Inr (fst (fifo_run None ops []), q) \<and>
       queue_list q = snd (fifo_run None ops [])"
  using ring.run_refines [of empty_queue ops] by auto

end
