(* ===== verification/Assembly.thy ===== *)
theory Assembly
  imports Prelude
begin

text \<open>
  TCP reassembly (\<open>assembly.go\<close>): sequence numbers with wrap-around, the cache of pages for
  data that arrives out of order, the pool of connections, and the assembler, which turns
  the packets of all connections into calls on one stream object per connection.

  Objects: a connection is known by its address (the index of its slot in the pool's
  storage), and the functions take the address and the contents of the connection they work
  on; the caller writes the contents back. A page belongs to one owner at a time, the free
  list or one connection, so that pages are values; the doubly linked list
  \<open>first .. last\<close> of a connection is the list \<open>queue\<close>. The calls on the \<open>Stream\<close> objects and
  their factory are recorded in order in \<open>log\<close>; the n-th stream that the factory makes is
  the number \<open>n\<close>. Logging of messages and the locks are left out: the program runs one
  assembler in one goroutine.
\<close>

subsection \<open>Sequence numbers\<close>

type_synonym Sequence = int

definition invalidSequence :: Sequence where "invalidSequence = -1"
definition uint32Max :: int where "uint32Max = 0xFFFFFFFF"

definition Difference :: "Sequence \<Rightarrow> Sequence \<Rightarrow> int" where
  "Difference s t =
     (if s > uint32Max - uint32Max div 4 \<and> t < uint32Max div 4
      then (t + uint32Max) - s
      else if t > uint32Max - uint32Max div 4 \<and> s < uint32Max div 4
      then t - (s + uint32Max)
      else t - s)"

definition Add :: "Sequence \<Rightarrow> int \<Rightarrow> Sequence" where
  "Add s t = (s + t) AND uint32Max"

subsection \<open>Reassemblies, pages, the page cache\<close>

record Reassembly =
  Bytes :: bytes
  Skip :: int
  Start :: bool
  End :: bool
  Seen :: gotime

definition zeroReassembly :: Reassembly where
  "zeroReassembly = \<lparr>Bytes = [], Skip = 0, Start = False, End = False, Seen = 0\<rparr>"

definition pageBytes :: nat where "pageBytes = 1900"

record page =
  rea :: Reassembly
  seq :: Sequence

definition zeroPage :: page where
  "zeroPage = \<lparr>rea = zeroReassembly, seq = 0\<rparr>"

record pageCache =
  pc_free :: "page list"
  pcSize :: nat
  pc_size :: nat
  used :: int

definition initialAllocSize :: nat where "initialAllocSize = 1024"

definition pc_grow :: "pageCache \<Rightarrow> pageCache" where
  "pc_grow c = c\<lparr>pc_size := pc_size c + pcSize c,
                 pc_free := pc_free c @ replicate (pcSize c) zeroPage,
                 pcSize := pcSize c * 2\<rparr>"

definition newPageCache :: pageCache where
  "newPageCache = pc_grow \<lparr>pc_free = [], pcSize = initialAllocSize, pc_size = 0, used = 0\<rparr>"

text \<open>
  \<open>next\<close> takes the page freed last. It resets the time and the bytes of the page, but not its
  \<open>Skip\<close>, \<open>Start\<close> and \<open>End\<close>, which are still those of the page's previous use.
\<close>

definition pc_next :: "gotime \<Rightarrow> pageCache \<Rightarrow> page \<times> pageCache" where
  "pc_next ts c =
     (let c = (if pc_free c = [] then pc_grow c else c);
          p = last (pc_free c)
      in (p\<lparr>rea := (rea p)\<lparr>Seen := ts, Bytes := []\<rparr>\<rparr>,
          c\<lparr>pc_free := butlast (pc_free c), used := used c + 1\<rparr>))"

definition pc_replace :: "page \<Rightarrow> pageCache \<Rightarrow> pageCache" where
  "pc_replace p c = c\<lparr>used := used c - 1, pc_free := pc_free c @ [p]\<rparr>"

subsection \<open>Connections, the pool, the assembler\<close>

record 'k connection =
  ckey :: "'k option"
  pages :: int
  queue :: "page list"
  nextSeq :: Sequence
  created :: gotime
  lastSeen :: gotime
  stream :: "nat option"
  closed :: bool

definition zeroConnection :: "'k connection" where
  "zeroConnection = \<lparr>ckey = None, pages = 0, queue = [], nextSeq = 0, created = 0, lastSeen = 0,
     stream = None, closed = False\<rparr>"

definition reset :: "'k \<Rightarrow> nat \<Rightarrow> gotime \<Rightarrow> 'k connection \<Rightarrow> 'k connection" where
  "reset k s ts conn = conn\<lparr>ckey := Some k, pages := 0, queue := [], nextSeq := invalidSequence,
     created := ts, stream := Some s, closed := False\<rparr>"

text \<open>
  \<open>store\<close> is the contents of the slots of \<open>all\<close>, of which the first \<open>allocated\<close> exist.
\<close>

record 'k StreamPool =
  conns :: "'k \<rightharpoonup> nat"
  p_free :: "nat list"
  nextAlloc :: nat
  allocated :: nat
  store :: "nat \<Rightarrow> 'k connection"

definition NewStreamPool :: "'k StreamPool" where
  "NewStreamPool = \<lparr>conns = Map.empty, p_free = [], nextAlloc = initialAllocSize, allocated = 0,
     store = (\<lambda>_. zeroConnection)\<rparr>"

definition pool_grow :: "'k StreamPool \<Rightarrow> 'k StreamPool" where
  "pool_grow p = p\<lparr>p_free := p_free p @ [allocated p..<allocated p + nextAlloc p],
     allocated := allocated p + nextAlloc p, nextAlloc := nextAlloc p * 2\<rparr>"

definition put :: "nat \<Rightarrow> 'k connection \<Rightarrow> 'k StreamPool \<Rightarrow> 'k StreamPool" where
  "put c conn p = p\<lparr>store := (store p)(c := conn)\<rparr>"

definition newConnection :: "'k \<Rightarrow> nat \<Rightarrow> gotime \<Rightarrow> 'k StreamPool \<Rightarrow> nat \<times> 'k StreamPool" where
  "newConnection k s ts p =
     (let p = (if p_free p = [] then pool_grow p else p);
          c = last (p_free p);
          p = p\<lparr>p_free := butlast (p_free p)\<rparr>
      in (c, put c (reset k s ts (store p c)) p))"

definition pool_remove :: "nat \<Rightarrow> 'k connection \<Rightarrow> 'k StreamPool \<Rightarrow> 'k StreamPool" where
  "pool_remove c conn p =
     p\<lparr>conns := (case ckey conn of Some k \<Rightarrow> (conns p)(k := None) | None \<Rightarrow> conns p),
       p_free := p_free p @ [c]\<rparr>"

text \<open>The calls on the factory and on the streams.\<close>

datatype 'k call =
    New 'k nat
  | Reassembled nat "Reassembly list"
  | ReassemblyComplete nat

record 'k Assembler =
  MaxBufferedPagesPerConnection :: int
  MaxBufferedPagesTotal :: int
  ret :: "Reassembly list"
  pc :: pageCache
  connPool :: "'k StreamPool"
  streams :: nat
  log :: "'k call list"

definition NewAssembler :: "int \<Rightarrow> int \<Rightarrow> 'k Assembler" where
  "NewAssembler perConn maxTotal =
     \<lparr>MaxBufferedPagesPerConnection = perConn, MaxBufferedPagesTotal = maxTotal, ret = [],
      pc = newPageCache, connPool = NewStreamPool, streams = 0, log = []\<rparr>"

subsection \<open>Looking up a connection\<close>

definition getConnection ::
  "'k \<Rightarrow> bool \<Rightarrow> gotime \<Rightarrow> 'k Assembler \<Rightarrow> nat option \<times> 'k Assembler" where
  "getConnection k ended ts a =
     (let conn = conns (connPool a) k in
      if ended \<or> conn \<noteq> None then (conn, a)
      else
        let s = streams a;
            a = a\<lparr>streams := s + 1, log := log a @ [New k s]\<rparr>;
            (c, p) = newConnection k s ts (connPool a)
        in (case conns p k of
              Some c2 \<Rightarrow> (Some c2, a\<lparr>connPool := p\<rparr>)
            | None \<Rightarrow> (Some c, a\<lparr>connPool := p\<lparr>conns := (conns p)(k \<mapsto> c)\<rparr>\<rparr>)))"

text \<open>
  The loop of \<open>AssembleWithTimestamp\<close> that looks the connection up again while the one it
  gets is closed; \<open>None\<close> when it never gets another.
\<close>

partial_function (option) openConnection ::
  "'k \<Rightarrow> bool \<Rightarrow> gotime \<Rightarrow> 'k Assembler \<Rightarrow> (nat option \<times> 'k Assembler) option" where
  "openConnection k ended ts a =
     (case getConnection k ended ts a of
        (None, a) \<Rightarrow> Some (None, a)
      | (Some c, a) \<Rightarrow>
          if \<not> closed (store (connPool a) c) then Some (Some c, a)
          else openConnection k ended ts a)"

declare openConnection.simps [code]

subsection \<open>Pages of a packet and their place in the connection\<close>

record TCP =
  SYN :: bool
  FIN :: bool
  RST :: bool
  Seq :: Sequence
  Payload :: bytes

definition byteSpan :: "Sequence \<Rightarrow> Sequence \<Rightarrow> bytes \<Rightarrow> bytes \<times> Sequence" where
  "byteSpan expected received bs =
     (if expected = invalidSequence then (bs, Add received (int (length bs)))
      else
        let span = Difference received expected in
        if span \<le> 0 then (bs, Add received (int (length bs)))
        else if int (length bs) < span then ([], expected)
        else (drop (nat span) bs, Add expected (int (length bs) - span)))"

function pages_loop :: "bool \<Rightarrow> gotime \<Rightarrow> page \<Rightarrow> Sequence \<Rightarrow> bytes \<Rightarrow> pageCache \<Rightarrow> page list \<times> pageCache" where
  "pages_loop fin ts current s bs c =
     (let n = min (length bs) pageBytes;
          current = current\<lparr>rea := (rea current)\<lparr>Bytes := take n bs\<rparr>, seq := s\<rparr>;
          bs = drop n bs
      in if bs = [] then ([current\<lparr>rea := (rea current)\<lparr>End := fin\<rparr>\<rparr>], c)
         else
           let s = Add s (int n);
               (p, c) = pc_next ts c;
               (ps, c) = pages_loop fin ts p s bs c
           in (current # ps, c))"
  by pat_completeness auto
termination
  by (relation "measure (\<lambda>(_, _, _, _, bs, _). length bs)") (auto simp: pageBytes_def)

declare pages_loop.simps [simp del]

text \<open>The pages in order, their number is the third result of the Go function.\<close>

definition pagesFromTCP :: "TCP \<Rightarrow> gotime \<Rightarrow> pageCache \<Rightarrow> page list \<times> pageCache" where
  "pagesFromTCP t ts c =
     (let (p, c) = pc_next ts c in pages_loop (RST t \<or> FIN t) ts p (Seq t) (Payload t) c)"

text \<open>
  \<open>traverseConn\<close> walks from the last page backwards. The result is the list of the pages
  before the place, from the nearest one back, and the list of those after it.
\<close>

fun traverse :: "page list \<Rightarrow> Sequence \<Rightarrow> page list \<Rightarrow> page list \<times> page list" where
  "traverse [] s current = ([], current)"
| "traverse (p # ps) s current =
     (if Difference (seq p) s < 0 then traverse ps s (p # current) else (p # ps, current))"

definition traverseConn :: "'k connection \<Rightarrow> Sequence \<Rightarrow> page list \<times> page list" where
  "traverseConn conn s = traverse (rev (queue conn)) s []"

definition pushBetween :: "page list \<Rightarrow> page list \<Rightarrow> page list \<Rightarrow> 'k connection \<Rightarrow> 'k connection" where
  "pushBetween prevs nexts new conn = conn\<lparr>queue := rev prevs @ new @ nexts\<rparr>"

subsection \<open>Delivering\<close>

abbreviation nil_panic :: fault where
  "nil_panic \<equiv> Panic ''invalid memory address or nil pointer dereference''"

text \<open>Pop the first page and append it to \<open>ret\<close>, cut to what follows \<open>nextSeq\<close>.\<close>

definition addNextFromConn ::
  "'k Assembler \<Rightarrow> 'k connection \<Rightarrow> ('k Assembler \<times> 'k connection) res" where
  "addNextFromConn a conn =
     (case queue conn of
        [] \<Rightarrow> Inl nil_panic
      | p # ps \<Rightarrow>
          let r = rea p;
              diff = Difference (nextSeq conn) (seq p);
              r = (if nextSeq conn = invalidSequence then r\<lparr>Skip := -1\<rparr>
                   else if diff > 0 then r\<lparr>Skip := diff\<rparr>
                   else r);
              (bs, nxt) = byteSpan (nextSeq conn) (seq p) (Bytes r);
              r = r\<lparr>Bytes := bs\<rparr>
          in Inr (a\<lparr>ret := ret a @ [r], pc := pc_replace (p\<lparr>rea := r\<rparr>) (pc a)\<rparr>,
                  conn\<lparr>nextSeq := nxt, queue := ps, pages := pages conn - 1\<rparr>))"

lemma addNextFromConn_queue:
  "addNextFromConn a conn = Inr (a', conn') \<Longrightarrow> queue conn \<noteq> [] \<and> queue conn' = tl (queue conn)"
  by (auto simp: addNextFromConn_def Let_def split: list.splits prod.splits if_splits)

function addContiguous ::
  "'k Assembler \<Rightarrow> 'k connection \<Rightarrow> ('k Assembler \<times> 'k connection) res" where
  "addContiguous a conn =
     (if queue conn \<noteq> [] \<and> Difference (nextSeq conn) (seq (hd (queue conn))) \<le> 0
      then rbind (addNextFromConn a conn) (\<lambda>(a, conn). addContiguous a conn)
      else Inr (a, conn))"
  by pat_completeness auto
termination
  by (relation "measure (\<lambda>(_, conn). length (queue conn))") (auto dest: addNextFromConn_queue)

declare addContiguous.simps [simp del]

definition insertIntoConn ::
  "TCP \<Rightarrow> gotime \<Rightarrow> 'k Assembler \<Rightarrow> 'k connection \<Rightarrow> ('k Assembler \<times> 'k connection) res" where
  "insertIntoConn t ts a conn =
     (if queue conn \<noteq> [] \<and> seq (hd (queue conn)) = nextSeq conn then Inl (Panic ''wtf'')
      else
        let (ps, c) = pagesFromTCP t ts (pc a);
            a = a\<lparr>pc := c\<rparr>;
            (prevs, nexts) = traverseConn conn (Seq t);
            conn = pushBetween prevs nexts ps conn;
            conn = conn\<lparr>pages := pages conn + int (length ps)\<rparr>
        in if (MaxBufferedPagesPerConnection a > 0 \<and> pages conn \<ge> MaxBufferedPagesPerConnection a) \<or>
              (MaxBufferedPagesTotal a > 0 \<and> used (pc a) \<ge> MaxBufferedPagesTotal a)
           then addNextFromConn a conn
           else Inr (a, conn))"

definition closeConnection ::
  "nat \<Rightarrow> 'k Assembler \<Rightarrow> 'k connection \<Rightarrow> ('k Assembler \<times> 'k connection) res" where
  "closeConnection c a conn =
     (case stream conn of
        None \<Rightarrow> Inl nil_panic
      | Some s \<Rightarrow>
          let a = a\<lparr>log := log a @ [ReassemblyComplete s]\<rparr>;
              conn = conn\<lparr>closed := True\<rparr>;
              a = a\<lparr>connPool := pool_remove c conn (connPool a)\<rparr>;
              a = a\<lparr>pc := fold pc_replace (queue conn) (pc a)\<rparr>
          in Inr (a, conn))"

definition sendToConnection ::
  "nat \<Rightarrow> 'k Assembler \<Rightarrow> 'k connection \<Rightarrow> ('k Assembler \<times> 'k connection) res" where
  "sendToConnection c a conn =
     rbind (addContiguous a conn) (\<lambda>(a, conn).
       (case stream conn of
          None \<Rightarrow> Inl (Panic ''why?'')
        | Some s \<Rightarrow>
            let a = a\<lparr>log := log a @ [Reassembled s (ret a)]\<rparr> in
            if ret a = [] then Inl (Panic ''runtime error: index out of range'')
            else if End (last (ret a)) then closeConnection c a conn
            else Inr (a, conn)))"

definition skipFlush ::
  "nat \<Rightarrow> 'k Assembler \<Rightarrow> 'k connection \<Rightarrow> ('k Assembler \<times> 'k connection) res" where
  "skipFlush c a conn =
     (if queue conn = [] then closeConnection c a conn
      else
        let a = a\<lparr>ret := []\<rparr> in
        rbind (addNextFromConn a conn) (\<lambda>(a, conn).
        rbind (addContiguous a conn) (\<lambda>(a, conn).
        sendToConnection c a conn)))"

subsection \<open>The operations of the assembler\<close>

text \<open>What \<open>AssembleWithTimestamp\<close> does with the connection once it is locked.\<close>

definition assembleConn ::
  "TCP \<Rightarrow> gotime \<Rightarrow> nat \<Rightarrow> 'k Assembler \<Rightarrow> 'k connection \<Rightarrow> ('k Assembler \<times> 'k connection) res" where
  "assembleConn t ts c a conn =
     (let conn = (if lastSeen conn < ts then conn\<lparr>lastSeen := ts\<rparr> else conn);
          bs = Payload t
      in rbind
          (if nextSeq conn = invalidSequence
           then
             let (nxt, skip) = (if \<not> SYN t then (Add (Seq t) (int (length bs)), -1)
                                else (Add (Seq t) (int (length bs) + 1), 0));
                 conn = conn\<lparr>nextSeq := nxt\<rparr>;
                 r = \<lparr>Bytes = bs, Skip = skip, Start = SYN t, End = False, Seen = ts\<rparr>;
                 a = a\<lparr>ret := ret a @ [r]\<rparr>
             in insertIntoConn t ts a conn
           else if Difference (nextSeq conn) (Seq t) > 0
           then insertIntoConn t ts a conn
           else
             let (bs, nxt) = byteSpan (nextSeq conn) (Seq t) bs;
                 conn = conn\<lparr>nextSeq := nxt\<rparr>;
                 r = \<lparr>Bytes = bs, Skip = 0, Start = False, End = RST t \<or> FIN t, Seen = ts\<rparr>
             in Inr (a\<lparr>ret := ret a @ [r]\<rparr>, conn))
          (\<lambda>(a, conn). if ret a \<noteq> [] then sendToConnection c a conn else Inr (a, conn)))"

definition AssembleWithTimestamp ::
  "'k \<Rightarrow> TCP \<Rightarrow> gotime \<Rightarrow> 'k Assembler \<Rightarrow> 'k Assembler res" where
  "AssembleWithTimestamp k t ts a =
     (if \<not> SYN t \<and> \<not> FIN t \<and> \<not> RST t \<and> Payload t = [] then Inr a
      else
        let a = a\<lparr>ret := []\<rparr> in
        (case openConnection k (\<not> SYN t \<and> Payload t = []) ts a of
           None \<Rightarrow> Inl Hang
         | Some (None, a) \<Rightarrow> Inr a
         | Some (Some c, a) \<Rightarrow>
             rbind (assembleConn t ts c a (store (connPool a) c)) (\<lambda>(a, conn).
               Inr (a\<lparr>connPool := put c conn (connPool a)\<rparr>))))"

lemma addContiguous_queue:
  "addContiguous a conn = Inr (a', conn') \<Longrightarrow> length (queue conn') \<le> length (queue conn)"
proof (induction a conn arbitrary: a' conn' rule: addContiguous.induct)
  case (1 a conn)
  show ?case
  proof (cases "queue conn \<noteq> [] \<and> Difference (nextSeq conn) (seq (hd (queue conn))) \<le> 0")
    case True
    with "1.prems" obtain a1 conn1 where s: "addNextFromConn a conn = Inr (a1, conn1)"
      "addContiguous a1 conn1 = Inr (a', conn')"
      by (subst (asm) addContiguous.simps) (auto simp: rbind_eq_Inr)
    from "1.IH" [OF True s(1) refl s(2)] addNextFromConn_queue [OF s(1)] show ?thesis by auto
  next
    case False
    with "1.prems" show ?thesis by (simp add: addContiguous.simps)
  qed
qed

lemma sendToConnection_queue:
  "sendToConnection c a conn = Inr (a', conn') \<Longrightarrow> length (queue conn') \<le> length (queue conn)"
  by (auto simp: sendToConnection_def closeConnection_def rbind_eq_Inr Let_def
      dest!: addContiguous_queue split: option.splits if_splits)

lemma skipFlush_queue:
  "skipFlush c a conn = Inr (a', conn') \<Longrightarrow> \<not> closed conn' \<Longrightarrow> length (queue conn') < length (queue conn)"
  by (cases "queue conn")
    (auto simp: skipFlush_def closeConnection_def rbind_eq_Inr Let_def
      dest!: addNextFromConn_queue addContiguous_queue sendToConnection_queue split: option.splits if_splits)

text \<open>
  The two loops of the flushes over one connection; the results of the first are whether it
  flushed and how many connections it closed.
\<close>

function flushOlder_loop ::
  "nat \<Rightarrow> gotime \<Rightarrow> bool \<Rightarrow> 'k Assembler \<Rightarrow> 'k connection \<Rightarrow>
     ('k Assembler \<times> 'k connection \<times> bool \<times> nat) res" where
  "flushOlder_loop c t flushed a conn =
     (if queue conn \<noteq> [] \<and> Seen (rea (hd (queue conn))) < t
      then rbind (skipFlush c a conn) (\<lambda>(a, conn).
             if closed conn then Inr (a, conn, True, 1)
             else flushOlder_loop c t True a conn)
      else Inr (a, conn, flushed, 0))"
  by pat_completeness auto
termination
  by (relation "measure (\<lambda>(_, _, _, _, conn). length (queue conn))") (auto dest: skipFlush_queue)

function flushAll_loop ::
  "nat \<Rightarrow> 'k Assembler \<Rightarrow> 'k connection \<Rightarrow> ('k Assembler \<times> 'k connection) res" where
  "flushAll_loop c a conn =
     (if \<not> closed conn
      then rbind (skipFlush c a conn) (\<lambda>(a, conn). flushAll_loop c a conn)
      else Inr (a, conn))"
  by pat_completeness auto
termination
  by (relation "measure (\<lambda>(_, _, conn). if closed conn then 0 else Suc (length (queue conn)))")
    (auto dest: skipFlush_queue)

declare flushOlder_loop.simps [simp del] flushAll_loop.simps [simp del]

definition flushOlderConn ::
  "nat \<Rightarrow> gotime \<Rightarrow> 'k Assembler \<Rightarrow> 'k connection \<Rightarrow> ('k Assembler \<times> 'k connection \<times> bool \<times> nat) res" where
  "flushOlderConn c t a conn =
     (if closed conn then Inr (a, conn, False, 0)
      else
        rbind (flushOlder_loop c t False a conn) (\<lambda>(a, conn, flushed, closes).
          if \<not> closed conn \<and> queue conn = [] \<and> lastSeen conn < t
          then rbind (closeConnection c a conn) (\<lambda>(a, conn). Inr (a, conn, True, closes + 1))
          else Inr (a, conn, flushed, closes)))"

text \<open>
  The connections come in the order in which Go happens to walk the map: the list \<open>cs\<close> of
  their addresses.
\<close>

fun FlushOlderThan :: "nat list \<Rightarrow> gotime \<Rightarrow> 'k Assembler \<Rightarrow> (nat \<times> nat \<times> 'k Assembler) res" where
  "FlushOlderThan [] t a = Inr (0, 0, a)"
| "FlushOlderThan (c # cs) t a =
     rbind (flushOlderConn c t a (store (connPool a) c)) (\<lambda>(a, conn, flushed, closes).
     rbind (FlushOlderThan cs t (a\<lparr>connPool := put c conn (connPool a)\<rparr>)) (\<lambda>(fs, cls, a).
       Inr ((if flushed then 1 else 0) + fs, closes + cls, a)))"

fun FlushAll :: "nat list \<Rightarrow> 'k Assembler \<Rightarrow> (nat \<times> 'k Assembler) res" where
  "FlushAll [] a = Inr (0, a)"
| "FlushAll (c # cs) a =
     rbind (flushAll_loop c a (store (connPool a) c)) (\<lambda>(a, conn).
     rbind (FlushAll cs (a\<lparr>connPool := put c conn (connPool a)\<rparr>)) (\<lambda>(n, a). Inr (1 + n, a)))"

end
