(* ===== verification/Assembly_Correct.thy ===== *)
theory Assembly_Correct
  imports Assembly
begin

text \<open>
  Correctness of TCP reassembly. First what one operation does to one connection
  (\<open>effect\<close>), then the invariant of the assembler and its connections over every sequence of
  packets and flushes: no panic and no endless loop, the protocol of calls that each stream
  object sees, and, for traffic whose sequence numbers do not wrap, that the bytes delivered
  are the right ones in order.
\<close>

subsection \<open>Sequence arithmetic\<close>

lemma Difference_self [simp]: "Difference s s = 0"
  by (simp add: Difference_def uint32Max_def)

lemma Add_mod: "Add s t = (s + t) mod 2 ^ 32"
proof -
  have m: "uint32Max = mask 32" by (simp add: uint32Max_def mask_eq_exp_minus_1)
  show ?thesis unfolding Add_def m take_bit_eq_mask [symmetric] take_bit_eq_mod by (rule refl)
qed

lemma Add_nonneg [simp]: "0 \<le> Add s t"
  by (simp add: Add_mod)

lemma Add_valid [simp]: "Add s t \<noteq> invalidSequence"
  using Add_nonneg [of s t] unfolding invalidSequence_def by linarith

text \<open>Below three quarters of the space nothing wraps.\<close>

definition seq_limit :: int where "seq_limit = 0xC0000000"

lemma Difference_plain: "s < seq_limit \<Longrightarrow> t < seq_limit \<Longrightarrow> Difference s t = t - s"
  by (simp add: Difference_def uint32Max_def seq_limit_def)

lemma Add_plain: "0 \<le> s + t \<Longrightarrow> s + t < seq_limit \<Longrightarrow> Add s t = s + t"
  by (simp add: Add_mod seq_limit_def)

lemma byteSpan_valid [simp]: "snd (byteSpan e r b) \<noteq> invalidSequence"
  by (simp add: byteSpan_def Let_def)

subsection \<open>What a stream should be told\<close>

text \<open>
  \<open>reads src p bs\<close>: the bytes \<open>bs\<close> are those of the sender's stream \<open>src\<close> from the sequence
  number \<open>p\<close> on. \<open>in_order src p rs p'\<close>: the reassemblies \<open>rs\<close> are consecutive pieces of
  the stream from \<open>p\<close> to \<open>p'\<close>, where a piece that does not start where the one before it
  ends says by its \<open>Skip\<close> how many bytes are missing.
\<close>

definition reads :: "(int \<Rightarrow> byte) \<Rightarrow> int \<Rightarrow> bytes \<Rightarrow> bool" where
  "reads src p bs \<longleftrightarrow> (\<forall>i<length bs. bs ! i = src (p + int i))"

fun in_order :: "(int \<Rightarrow> byte) \<Rightarrow> int \<Rightarrow> Reassembly list \<Rightarrow> int \<Rightarrow> bool" where
  "in_order src p [] p' \<longleftrightarrow> p = p'"
| "in_order src p (r # rs) p' \<longleftrightarrow>
     (reads src p (Bytes r) \<and> in_order src (p + int (length (Bytes r))) rs p') \<or>
     (Skip r > 0 \<and> reads src (p + Skip r) (Bytes r) \<and>
      in_order src (p + Skip r + int (length (Bytes r))) rs p')"

lemma reads_Nil [simp]: "reads src p []"
  by (simp add: reads_def)

lemma reads_drop: "reads src p bs \<Longrightarrow> n \<le> length bs \<Longrightarrow> reads src (p + int n) (drop n bs)"
  by (auto simp: reads_def algebra_simps)

lemma reads_take: "reads src p bs \<Longrightarrow> reads src p (take n bs)"
  by (auto simp: reads_def)

lemma in_order_append:
  "in_order src p (xs @ ys) r \<longleftrightarrow> (\<exists>q. in_order src p xs q \<and> in_order src q ys r)"
  by (induction xs arbitrary: p) auto

lemma in_order_le: "in_order src p rs p' \<Longrightarrow> p \<le> p'"
  by (induction rs arbitrary: p) force+

subsection \<open>One connection\<close>

definition page_ok :: "(int \<Rightarrow> byte) \<Rightarrow> page \<Rightarrow> bool" where
  "page_ok src p \<longleftrightarrow>
     0 \<le> seq p \<and> seq p + int (length (Bytes (rea p))) < seq_limit \<and> reads src (seq p) (Bytes (rea p))"

definition conn_ok :: "(int \<Rightarrow> byte) \<Rightarrow> 'k connection \<Rightarrow> bool" where
  "conn_ok src conn \<longleftrightarrow>
     0 \<le> nextSeq conn \<and> nextSeq conn < seq_limit \<and> (\<forall>p\<in>set (queue conn). page_ok src p)"

text \<open>What \<open>byteSpan\<close> keeps of bytes that overlap what was delivered, or come after a gap.\<close>

lemma byteSpan_reads:
  assumes n: "0 \<le> n" "n < seq_limit" and l: "0 \<le> s" "s + int (length b) < seq_limit"
    and r: "reads src s b" and e: "byteSpan n s b = (bs, nxt)"
  shows "reads src (max n s) bs \<and> nxt = max n s + int (length bs) \<and> nxt < seq_limit"
proof -
  have d: "Difference s n = n - s" using n l by (intro Difference_plain) auto
  have valid: "n \<noteq> invalidSequence" using n by (auto simp: invalidSequence_def)
  consider "n \<le> s" | "n > s" "int (length b) < n - s" | "n > s" "n - s \<le> int (length b)" by linarith
  then show ?thesis
  proof cases
    case 1
    then have "bs = b \<and> nxt = s + int (length b)"
      using e valid d l by (auto simp: byteSpan_def Let_def intro!: Add_plain)
    with 1 r l show ?thesis by (simp add: max_def)
  next
    case 2
    then have "bs = [] \<and> nxt = n" using e valid d by (auto simp: byteSpan_def Let_def)
    with 2 n show ?thesis by simp
  next
    case 3
    then have bs: "bs = drop (nat (n - s)) b" and nxt: "nxt = Add n (int (length b) - (n - s))"
      using e valid d by (auto simp: byteSpan_def Let_def)
    have "nxt = s + int (length b)"
      unfolding nxt using 3 l n by (subst Add_plain) auto
    moreover have "reads src (s + int (nat (n - s))) bs"
      unfolding bs using r 3 by (intro reads_drop) auto
    moreover have "int (length bs) = int (length b) - (n - s)"
      unfolding bs using 3 by (simp add: of_nat_diff)
    ultimately show ?thesis using 3 l by simp
  qed
qed

text \<open>Between operations a connection waits for data before its first page.\<close>

definition ready :: "'k connection \<Rightarrow> bool" where
  "ready conn \<longleftrightarrow> queue conn = [] \<or>
     nextSeq conn \<noteq> invalidSequence \<and> Difference (nextSeq conn) (seq (hd (queue conn))) > 0"

definition frame :: "'k connection \<Rightarrow> 'k connection \<Rightarrow> bool" where
  "frame conn conn' \<longleftrightarrow> ckey conn' = ckey conn \<and> stream conn' = stream conn"

definition progress :: "'k connection \<Rightarrow> Reassembly list \<Rightarrow> 'k connection \<Rightarrow> bool" where
  "progress conn rs conn' \<longleftrightarrow>
     (\<forall>src. conn_ok src conn \<longrightarrow> conn_ok src conn' \<and> in_order src (nextSeq conn) rs (nextSeq conn'))"

lemma frame_refl [simp]: "frame conn conn"
  by (simp add: frame_def)

lemma progress_Nil [simp]: "progress conn [] conn"
  by (simp add: progress_def)

lemma progress_append:
  "progress conn rs conn' \<Longrightarrow> progress conn' rs' conn'' \<Longrightarrow> progress conn (rs @ rs') conn''"
  by (auto simp: progress_def in_order_append)

text \<open>
  \<open>extends rs a conn a' conn'\<close>: \<open>rs\<close> was appended to \<open>ret\<close>; beside that only the page cache
  and the pages of the connection changed.
\<close>

definition extends ::
  "Reassembly list \<Rightarrow> 'k Assembler \<Rightarrow> 'k connection \<Rightarrow> 'k Assembler \<Rightarrow> 'k connection \<Rightarrow> bool" where
  "extends rs a conn a' conn' \<longleftrightarrow>
     ret a' = ret a @ rs \<and> connPool a' = connPool a \<and> streams a' = streams a \<and> log a' = log a \<and>
     frame conn conn' \<and> closed conn' = closed conn \<and>
     progress conn rs conn'"

lemma extends_refl [simp]: "extends [] a conn a conn"
  by (simp add: extends_def)

lemma extends_trans:
  "extends rs a conn a1 conn1 \<Longrightarrow> extends rs' a1 conn1 a2 conn2 \<Longrightarrow> extends (rs @ rs') a conn a2 conn2"
  unfolding extends_def by (auto simp: frame_def intro: progress_append)

lemma addNextFromConn_extends:
  assumes "queue conn \<noteq> []"
  shows "\<exists>r a' conn'. addNextFromConn a conn = Inr (a', conn') \<and> extends [r] a conn a' conn' \<and>
    nextSeq conn' \<noteq> invalidSequence \<and> queue conn' = tl (queue conn)"
proof -
  obtain p ps where q: "queue conn = p # ps" using assms by (cases "queue conn") auto
  let ?n = "nextSeq conn" and ?b = "Bytes (rea p)"
  let ?d = "Difference ?n (seq p)"
  let ?r = "if ?n = invalidSequence then (rea p)\<lparr>Skip := -1\<rparr>
            else if ?d > 0 then (rea p)\<lparr>Skip := ?d\<rparr> else rea p"
  have B: "Bytes ?r = ?b" by simp
  obtain bs nxt where s: "byteSpan ?n (seq p) ?b = (bs, nxt)" by (cases "byteSpan ?n (seq p) ?b")
  let ?r' = "?r\<lparr>Bytes := bs\<rparr>"
  let ?conn = "conn\<lparr>nextSeq := nxt, queue := ps, pages := pages conn - 1\<rparr>"
  have eq: "addNextFromConn a conn =
      Inr (a\<lparr>ret := ret a @ [?r'], pc := pc_replace (p\<lparr>rea := ?r'\<rparr>) (pc a)\<rparr>, ?conn)"
    unfolding addNextFromConn_def q list.case Let_def B s prod.case ..
  have "progress conn [?r'] ?conn"
    unfolding progress_def
  proof (intro allI impI)
    fix src assume ok: "conn_ok src conn"
    then have pk: "page_ok src p" and n: "0 \<le> ?n" "?n < seq_limit"
      by (auto simp: conn_ok_def q)
    then have d: "?d = seq p - ?n" "Difference (seq p) ?n = ?n - seq p"
      by (auto simp: page_ok_def intro!: Difference_plain)
    have valid: "?n \<noteq> invalidSequence" using n by (auto simp: invalidSequence_def)
    have rp: "reads src (seq p) ?b" and lp: "0 \<le> seq p" "seq p + int (length ?b) < seq_limit"
      using pk by (auto simp: page_ok_def)
    from byteSpan_reads [OF n lp rp s] have
      "reads src (max ?n (seq p)) bs" "nxt = max ?n (seq p) + int (length bs)" "0 \<le> nxt" "nxt < seq_limit"
      using n by auto
    then have "0 \<le> nxt \<and> nxt < seq_limit \<and> in_order src ?n [?r'] nxt"
      using valid d by (cases "?n < seq p") (auto simp: max_def)
    then show "conn_ok src ?conn \<and> in_order src ?n [?r'] (nextSeq ?conn)"
      using ok by (auto simp: conn_ok_def q)
  qed
  moreover have "nxt \<noteq> invalidSequence" using byteSpan_valid [of ?n "seq p" ?b] s by simp
  ultimately show ?thesis
    unfolding eq by (auto simp: extends_def frame_def q)
qed

lemma addContiguous_extends:
  assumes "queue conn = [] \<or> nextSeq conn \<noteq> invalidSequence"
  shows "\<exists>rs a' conn'. addContiguous a conn = Inr (a', conn') \<and> extends rs a conn a' conn' \<and> ready conn' \<and>
    (nextSeq conn \<noteq> invalidSequence \<longrightarrow> nextSeq conn' \<noteq> invalidSequence)"
  using assms
proof (induction a conn rule: addContiguous.induct)
  case (1 a conn)
  show ?case
  proof (cases "queue conn \<noteq> [] \<and> Difference (nextSeq conn) (seq (hd (queue conn))) \<le> 0")
    case True
    then obtain r a1 conn1 where s: "addNextFromConn a conn = Inr (a1, conn1)"
      and e: "extends [r] a conn a1 conn1" "nextSeq conn1 \<noteq> invalidSequence"
      using addNextFromConn_extends [of conn a] by blast
    from "1.IH" [OF True s refl] e(2) obtain rs a2 conn2 where
      "addContiguous a1 conn1 = Inr (a2, conn2)" "extends rs a1 conn1 a2 conn2" "ready conn2"
      "nextSeq conn2 \<noteq> invalidSequence" by blast
    with s True e show ?thesis
      by (subst addContiguous.simps) (auto intro: extends_trans)
  next
    case False
    then have "addContiguous a conn = Inr (a, conn)"
      by (cases "queue conn = []") (simp_all add: addContiguous.simps)
    then show ?thesis
      using False "1.prems" by (intro exI [of _ "[]"] exI [of _ a] exI [of _ conn]) (auto simp: ready_def)
  qed
qed

subsection \<open>Inserting the pages of a packet\<close>

text \<open>
  A packet of the stream \<open>src\<close>: its payload is what \<open>src\<close> has at its sequence number, a
  \<open>SYN\<close> carries none, and the numbers stay below the limit.
\<close>

definition packet_ok :: "(int \<Rightarrow> byte) \<Rightarrow> TCP \<Rightarrow> bool" where
  "packet_ok src t \<longleftrightarrow>
     0 \<le> Seq t \<and> Seq t + int (length (Payload t)) + 1 < seq_limit \<and>
     reads src (Seq t) (Payload t) \<and> (SYN t \<longrightarrow> Payload t = [])"

lemma pages_loop_ne: "fst (pages_loop fin ts p s bs c) \<noteq> []"
  by (subst pages_loop.simps) (simp add: Let_def case_prod_beta)

lemma pages_loop_hd: "seq (hd (fst (pages_loop fin ts p s bs c))) = s"
  by (subst pages_loop.simps) (simp add: Let_def case_prod_beta)

lemma pages_loop_ok:
  "0 \<le> s \<Longrightarrow> s + int (length bs) < seq_limit \<Longrightarrow> reads src s bs \<Longrightarrow>
     \<forall>p\<in>set (fst (pages_loop fin ts p s bs c)). page_ok src p"
proof (induction fin ts p s bs c rule: pages_loop.induct)
  case (1 fin ts p s bs c)
  let ?n = "min (length bs) pageBytes"
  have first: "page_ok src (p'\<lparr>rea := r\<lparr>Bytes := take ?n bs\<rparr>, seq := s\<rparr>)" for p' r
    using "1.prems" by (auto simp: page_ok_def intro: reads_take)
  have final: "page_ok src (p'\<lparr>seq := s, rea := r\<lparr>Bytes := take ?n bs, End := fin\<rparr>\<rparr>)" for p' r
    using "1.prems" by (auto simp: page_ok_def intro: reads_take)
  show ?case
  proof (cases "drop ?n bs = []")
    case True
    then show ?thesis
      using final [where p' = p and r = "rea p"] by (subst pages_loop.simps) (simp add: Let_def)
  next
    case False
    have a: "Add s (int pageBytes) = s + int pageBytes"
      using "1.prems" False by (intro Add_plain) auto
    obtain p' c' where n: "pc_next ts c = (p', c')" by (cases "pc_next ts c")
    have "\<forall>p\<in>set (fst (pages_loop fin ts p' (Add s (int ?n)) (drop ?n bs) c')). page_ok src p"
      using False "1.prems" n
      by (intro "1.IH" [OF refl refl refl _ refl n [symmetric] refl])
        (auto simp: a of_nat_diff intro: reads_drop)
    then show ?thesis
      using False first [where p' = p and r = "rea p"] n
      by (subst pages_loop.simps) (simp add: Let_def case_prod_beta)
  qed
qed

lemma pagesFromTCP_props:
  assumes "pagesFromTCP t ts c = (ps, c')"
  shows "ps \<noteq> []" "seq (hd ps) = Seq t" "packet_ok src t \<Longrightarrow> \<forall>p\<in>set ps. page_ok src p"
proof -
  obtain p0 c0 where "pages_loop (RST t \<or> FIN t) ts p0 (Seq t) (Payload t) c0 = (ps, c')"
    using assms by (cases "pc_next ts c") (auto simp: pagesFromTCP_def)
  then have ps: "ps = fst (pages_loop (RST t \<or> FIN t) ts p0 (Seq t) (Payload t) c0)" by simp
  show "ps \<noteq> []" "seq (hd ps) = Seq t"
    unfolding ps by (rule pages_loop_ne pages_loop_hd)+
  show "\<forall>p\<in>set ps. page_ok src p" if "packet_ok src t"
    unfolding ps using that by (intro pages_loop_ok) (auto simp: packet_ok_def)
qed

lemma traverse_split: "traverse rps s cur = (prevs, nexts) \<Longrightarrow> rev prevs @ nexts = rev rps @ cur"
  by (induction rps s cur arbitrary: prevs nexts rule: traverse.induct) (auto split: if_splits)

lemma traverseConn_split: "traverseConn conn s = (prevs, nexts) \<Longrightarrow> rev prevs @ nexts = queue conn"
  using traverse_split [of "rev (queue conn)" s "[]"] by (simp add: traverseConn_def)

text \<open>
  Inserting either only stores the pages or, over a limit, also pops the first page. The
  connection \<open>mid\<close> is the one with the pages stored.
\<close>

lemma insertIntoConn_cases [consumes 1, case_names stored popped]:
  assumes "ready conn"
  obtains (stored) mid a' where "insertIntoConn t ts a conn = Inr (a', mid)"
      "extends [] a mid a' mid" "frame conn mid" "closed mid = closed conn" "queue mid \<noteq> []"
      "nextSeq mid = nextSeq conn"
      "queue conn = [] \<or> seq (hd (queue mid)) \<in> {seq (hd (queue conn)), Seq t}"
      "queue conn = [] \<Longrightarrow> seq (hd (queue mid)) = Seq t"
      "\<And>src. conn_ok src conn \<Longrightarrow> packet_ok src t \<Longrightarrow> conn_ok src mid"
    | (popped) mid a' conn' r where "insertIntoConn t ts a conn = Inr (a', conn')"
      "extends [r] a mid a' conn'" "frame conn mid" "closed mid = closed conn"
      "nextSeq mid = nextSeq conn" "nextSeq conn' \<noteq> invalidSequence"
      "\<And>src. conn_ok src conn \<Longrightarrow> packet_ok src t \<Longrightarrow> conn_ok src mid"
proof -
  obtain ps c where ps: "pagesFromTCP t ts (pc a) = (ps, c)" by (cases "pagesFromTCP t ts (pc a)")
  obtain prevs nexts where tr: "traverseConn conn (Seq t) = (prevs, nexts)"
    by (cases "traverseConn conn (Seq t)")
  let ?mid = "pushBetween prevs nexts ps conn\<lparr>pages := pages conn + int (length ps)\<rparr>"
  let ?a = "a\<lparr>pc := c\<rparr>"
  have pp: "pages (pushBetween prevs nexts ps conn) = pages conn" by (simp add: pushBetween_def)
  have q: "queue ?mid = rev prevs @ ps @ nexts" and qc: "queue conn = rev prevs @ nexts"
    using traverseConn_split [OF tr] by (simp_all add: pushBetween_def)
  have guard: "\<not> (queue conn \<noteq> [] \<and> seq (hd (queue conn)) = nextSeq conn)"
    using assms by (auto simp: ready_def)
  note props = pagesFromTCP_props [OF ps]
  have ok: "conn_ok src conn \<Longrightarrow> packet_ok src t \<Longrightarrow> conn_ok src ?mid" for src
    using props(3) [of src] by (auto simp: conn_ok_def pushBetween_def qc)
  have fr: "frame conn ?mid" "closed ?mid = closed conn" "nextSeq ?mid = nextSeq conn"
    by (simp_all add: frame_def pushBetween_def)
  have hds: "queue conn = [] \<or> seq (hd (queue ?mid)) \<in> {seq (hd (queue conn)), Seq t}"
    "queue conn = [] \<Longrightarrow> seq (hd (queue ?mid)) = Seq t" "queue ?mid \<noteq> []"
    using props(1,2) by (auto simp: pushBetween_def qc hd_append)
  have ext: "extends [] a conn1 ?a conn1" "extends rs ?a conn1 a2 conn2 \<Longrightarrow> extends rs a conn1 a2 conn2"
    for conn1 conn2 :: "'a connection" and rs a2
    by (simp_all add: extends_def)
  let ?full = "(MaxBufferedPagesPerConnection a > 0 \<and> pages ?mid \<ge> MaxBufferedPagesPerConnection a) \<or>
              (MaxBufferedPagesTotal a > 0 \<and> used c \<ge> MaxBufferedPagesTotal a)"
  have eq: "insertIntoConn t ts a conn = (if ?full then addNextFromConn ?a ?mid else Inr (?a, ?mid))"
    unfolding insertIntoConn_def if_not_P [OF guard] by (simp add: ps tr Let_def pp)
  show thesis
  proof (cases ?full)
    case True
    obtain r a' conn' where "addNextFromConn ?a ?mid = Inr (a', conn')" "extends [r] ?a ?mid a' conn'"
      "nextSeq conn' \<noteq> invalidSequence"
      using addNextFromConn_extends [OF hds(3), of ?a] by blast
    with True eq fr ok ext(2) popped show thesis by (metis (no_types, lifting))
  next
    case False
    with eq fr ok hds ext(1) stored show thesis by (metis (no_types, lifting))
  qed
qed

subsection \<open>The effect of an operation on one connection\<close>

text \<open>
  \<open>effect c s a conn a' conn' rss fin\<close>: the stream \<open>s\<close> of the connection was handed the groups
  of reassemblies \<open>rss\<close>, none empty, and then, if \<open>fin\<close>, told that it is complete, in which
  case the connection is closed and given back to the pool; else it is ready again.
\<close>

definition effect ::
  "nat \<Rightarrow> nat \<Rightarrow> 'k Assembler \<Rightarrow> 'k connection \<Rightarrow> 'k Assembler \<Rightarrow> 'k connection \<Rightarrow>
     Reassembly list list \<Rightarrow> bool \<Rightarrow> bool" where
  "effect c s a conn a' conn' rss fin \<longleftrightarrow>
     stream conn = Some s \<and> frame conn conn' \<and> [] \<notin> set rss \<and> closed conn' = fin \<and>
     (\<not> fin \<longrightarrow> ready conn') \<and> streams a' = streams a \<and>
     log a' = log a @ map (Reassembled s) rss @ (if fin then [ReassemblyComplete s] else []) \<and>
     connPool a' = (if fin then pool_remove c conn (connPool a) else connPool a)"

text \<open>
  \<open>tracks src conn ds\<close>: what was delivered so far, \<open>ds\<close>, is in order up to \<open>nextSeq\<close>, and the
  pages waiting hold bytes of \<open>src\<close>. \<open>carries\<close>: an operation that delivers \<open>rss\<close> keeps this.
\<close>

definition tracks :: "(int \<Rightarrow> byte) \<Rightarrow> 'k connection \<Rightarrow> Reassembly list \<Rightarrow> bool" where
  "tracks src conn ds \<longleftrightarrow>
     (if nextSeq conn = invalidSequence then ds = [] \<and> queue conn = []
      else conn_ok src conn \<and> (\<exists>p. in_order src p ds (nextSeq conn)))"

definition carries ::
  "((int \<Rightarrow> byte) \<Rightarrow> bool) \<Rightarrow> 'k connection \<Rightarrow> Reassembly list \<Rightarrow> 'k connection \<Rightarrow> bool" where
  "carries P conn rs conn' \<longleftrightarrow>
     (\<forall>src ds. P src \<longrightarrow> tracks src conn ds \<longrightarrow> tracks src conn' (ds @ rs))"

lemma carries_refl [simp]: "carries P conn [] conn"
  by (simp add: carries_def)

lemma carries_trans:
  "carries P conn rs conn1 \<Longrightarrow> carries P conn1 rs' conn2 \<Longrightarrow> carries P conn (rs @ rs') conn2"
  by (fastforce simp: carries_def)

lemma conn_ok_valid: "conn_ok src conn \<Longrightarrow> nextSeq conn \<noteq> invalidSequence"
  by (auto simp: conn_ok_def invalidSequence_def)

lemma progress_carries:
  "progress conn rs conn' \<Longrightarrow> nextSeq conn \<noteq> invalidSequence \<Longrightarrow> carries P conn rs conn'"
  by (auto simp: progress_def carries_def tracks_def in_order_append dest: conn_ok_valid)

lemma closeConnection_effect:
  assumes "stream conn = Some s"
  shows "\<exists>a' conn'. closeConnection c a conn = Inr (a', conn') \<and>
    effect c s a conn a' conn' [] True \<and> carries P conn [] conn'"
  using assms
  by (auto simp: closeConnection_def Let_def effect_def frame_def pool_remove_def carries_def
      tracks_def conn_ok_def split: option.splits)

lemma pool_remove_frame: "frame conn conn' \<Longrightarrow> pool_remove c conn' = pool_remove c conn"
  by (simp add: frame_def pool_remove_def fun_eq_iff)

lemma sendToConnection_effect:
  assumes "stream conn = Some s" "\<not> closed conn" "ret a \<noteq> []"
    and v: "nextSeq conn \<noteq> invalidSequence"
  shows "\<exists>a' conn' rs fin. sendToConnection c a conn = Inr (a', conn') \<and>
    effect c s a conn a' conn' [ret a @ rs] fin \<and> carries P conn rs conn'"
proof -
  obtain rs a1 conn1 where 1: "addContiguous a conn = Inr (a1, conn1)" "extends rs a conn a1 conn1"
    "ready conn1" using addContiguous_extends [of conn a] v by blast
  then have car: "carries P conn rs conn1"
    using v by (intro progress_carries) (auto simp: extends_def)
  have st: "stream conn1 = Some s" using 1 assms by (auto simp: extends_def frame_def)
  have rt: "ret a1 = ret a @ rs" using 1 by (simp add: extends_def)
  show ?thesis
  proof (cases "End (last (ret a1))")
    case True
    then have e: "sendToConnection c a conn =
        closeConnection c (a1\<lparr>log := log a1 @ [Reassembled s (ret a1)]\<rparr>) conn1"
      using 1 st rt assms by (simp add: sendToConnection_def Let_def)
    obtain a2 conn2 where 2: "sendToConnection c a conn = Inr (a2, conn2)"
      "effect c s (a1\<lparr>log := log a1 @ [Reassembled s (ret a1)]\<rparr>) conn1 a2 conn2 [] True"
      "carries P conn1 [] conn2"
      unfolding e using closeConnection_effect [OF st, of c _ P] by blast
    moreover have "effect c s a conn a2 conn2 [ret a @ rs] True"
      using 2(2) 1(2) assms rt pool_remove_frame [of conn conn1]
      by (auto simp: effect_def extends_def frame_def)
    moreover have "carries P conn rs conn2" using carries_trans [OF car 2(3)] by simp
    ultimately show ?thesis by blast
  next
    case False
    then have e: "sendToConnection c a conn =
        Inr (a1\<lparr>log := log a1 @ [Reassembled s (ret a1)]\<rparr>, conn1)"
      using 1 st rt assms by (simp add: sendToConnection_def Let_def)
    have "effect c s a conn (a1\<lparr>log := log a1 @ [Reassembled s (ret a1)]\<rparr>) conn1 [ret a @ rs] False"
      using 1(2,3) assms rt by (auto simp: effect_def extends_def frame_def)
    with e car show ?thesis by blast
  qed
qed

lemma effect_frame:
  "frame conn conn1 \<Longrightarrow> connPool a1 = connPool a \<Longrightarrow> streams a1 = streams a \<Longrightarrow> log a1 = log a \<Longrightarrow>
     effect c s a1 conn1 a' conn' rss fin \<Longrightarrow> effect c s a conn a' conn' rss fin"
  using pool_remove_frame [of conn conn1 c] by (auto simp: effect_def frame_def)

lemma insert_send_effect:
  assumes "ready conn" and v: "nextSeq conn \<noteq> invalidSequence"
    and d: "Difference (nextSeq conn) (Seq t) > 0 \<or> ret a \<noteq> []"
    and st: "stream conn = Some s" "\<not> closed conn"
  shows "\<exists>a' conn' rss rs fin.
    rbind (insertIntoConn t ts a conn)
      (\<lambda>(a, conn). if ret a \<noteq> [] then sendToConnection c a conn else Inr (a, conn)) = Inr (a', conn') \<and>
    effect c s a conn a' conn' rss fin \<and> length rss \<le> 1 \<and> (fin \<longrightarrow> rss \<noteq> []) \<and>
    concat rss = ret a @ rs \<and> carries (\<lambda>src. packet_ok src t) conn rs conn'"
  using assms(1)
proof (cases rule: insertIntoConn_cases [where t = t and ts = ts and a = a])
  case (stored mid a1)
  have car: "carries (\<lambda>src. packet_ok src t) conn [] mid"
    using stored(9) v stored(6) by (auto simp: carries_def tracks_def)
  have a1: "connPool a1 = connPool a" "streams a1 = streams a" "log a1 = log a" "ret a1 = ret a"
    using stored(2) by (auto simp: extends_def)
  show ?thesis
  proof (cases "ret a = []")
    case True
    then have "ready mid"
      using d stored(5-8) v assms(1) by (auto simp: ready_def)
    then have "effect c s a conn a1 mid [] False"
      using a1 st stored(3,4) by (auto simp: effect_def)
    with True stored(1) a1 car show ?thesis
      by (intro exI [of _ a1] exI [of _ mid] exI [of _ "[]"] exI [of _ False]) simp
  next
    case False
    then obtain a2 conn2 rs fin where 2: "sendToConnection c a1 mid = Inr (a2, conn2)"
      "effect c s a1 mid a2 conn2 [ret a1 @ rs] fin" "carries (\<lambda>src. packet_ok src t) mid rs conn2"
      using sendToConnection_effect [of mid s a1 c "\<lambda>src. packet_ok src t"] a1 st stored(3,4,6) v
      by (auto simp: frame_def)
    have "carries (\<lambda>src. packet_ok src t) conn rs conn2" using carries_trans [OF car 2(3)] by simp
    with False stored(1) a1 2 effect_frame [OF stored(3) a1(1-3) 2(2)] show ?thesis
      by (intro exI [of _ a2] exI [of _ conn2] exI [of _ "[ret a @ rs]"] exI [of _ rs] exI [of _ fin]) simp
  qed
next
  case (popped mid a1 conn1 r)
  have fr: "frame conn conn1" "closed conn1 = closed conn" "progress mid [r] conn1"
    using popped(2-4) by (auto simp: extends_def frame_def)
  have a1: "connPool a1 = connPool a" "streams a1 = streams a" "log a1 = log a" "ret a1 = ret a @ [r]"
    using popped(2) by (auto simp: extends_def)
  have "carries (\<lambda>src. packet_ok src t) conn [] mid"
    using popped(7) v popped(5) by (auto simp: carries_def tracks_def)
  moreover have "carries (\<lambda>src. packet_ok src t) mid [r] conn1"
    using fr(3) popped(5) v by (intro progress_carries) auto
  ultimately have car: "carries (\<lambda>src. packet_ok src t) conn [r] conn1"
    using carries_trans by fastforce
  obtain a2 conn2 rs fin where 2: "sendToConnection c a1 conn1 = Inr (a2, conn2)"
    "effect c s a1 conn1 a2 conn2 [ret a1 @ rs] fin" "carries (\<lambda>src. packet_ok src t) conn1 rs conn2"
    using sendToConnection_effect [of conn1 s a1 c "\<lambda>src. packet_ok src t"] a1 st fr popped(6)
    by (auto simp: frame_def)
  have "carries (\<lambda>src. packet_ok src t) conn (r # rs) conn2" using carries_trans [OF car 2(3)] by simp
  with popped(1) a1 2 effect_frame [OF fr(1) a1(1-3) 2(2)] show ?thesis
    by (intro exI [of _ a2] exI [of _ conn2] exI [of _ "[ret a @ r # rs]"] exI [of _ "r # rs"] exI [of _ fin]) simp
qed

lemma carries_trans_Nil: "carries P conn [] conn1 \<Longrightarrow> carries P conn1 rs conn2 \<Longrightarrow> carries P conn rs conn2"
  using carries_trans [of P conn "[]" conn1 rs conn2] by simp

lemma assembleConn_effect:
  assumes rdy: "ready conn" and st: "stream conn = Some s" "\<not> closed conn" and ra: "ret a = []"
  shows "\<exists>a' conn' rss fin. assembleConn t ts c a conn = Inr (a', conn') \<and>
    effect c s a conn a' conn' rss fin \<and> length rss \<le> 1 \<and> (fin \<longrightarrow> rss \<noteq> []) \<and>
    carries (\<lambda>src. packet_ok src t) conn (concat rss) conn'"
proof -
  let ?P = "\<lambda>src. packet_ok src t"
  define conn0 where "conn0 = (if lastSeen conn < ts then conn\<lparr>lastSeen := ts\<rparr> else conn)"
  have c0: "frame conn conn0" "nextSeq conn0 = nextSeq conn" "queue conn0 = queue conn" "closed conn0 = closed conn"
    by (auto simp: conn0_def frame_def)
  have car0: "carries ?P conn [] conn0"
    using c0 by (auto simp: carries_def tracks_def conn_ok_def)
  consider (first) "nextSeq conn = invalidSequence"
    | (gap) "nextSeq conn \<noteq> invalidSequence" "Difference (nextSeq conn) (Seq t) > 0"
    | (contig) "nextSeq conn \<noteq> invalidSequence" "\<not> Difference (nextSeq conn) (Seq t) > 0" by blast
  then show ?thesis
  proof cases
    case first
    define nxt where "nxt = Add (Seq t) (int (length (Payload t)) + (if SYN t then 1 else 0))"
    define r where "r = \<lparr>Bytes = Payload t, Skip = (if SYN t then 0 else -1), Start = SYN t, End = False, Seen = ts\<rparr>"
    let ?conn1 = "conn0\<lparr>nextSeq := nxt\<rparr>" and ?a1 = "a\<lparr>ret := [r]\<rparr>"
    have q: "queue conn = []" using rdy first by (simp add: ready_def)
    have eq: "assembleConn t ts c a conn = rbind (insertIntoConn t ts ?a1 ?conn1)
        (\<lambda>(a, conn). if ret a \<noteq> [] then sendToConnection c a conn else Inr (a, conn))"
      using first c0 ra unfolding assembleConn_def conn0_def [symmetric] by (simp add: Let_def nxt_def r_def)
    have fr: "frame conn ?conn1" using c0(1) by (simp add: frame_def)
    obtain a' conn' rss rs fin where 1: "assembleConn t ts c a conn = Inr (a', conn')"
      "effect c s ?a1 ?conn1 a' conn' rss fin" "length rss \<le> 1" "fin \<longrightarrow> rss \<noteq> []"
      "concat rss = r # rs" "carries ?P ?conn1 rs conn'"
      using insert_send_effect [of ?conn1 t ?a1 s ts c] st c0 q
      by (auto simp: eq ready_def nxt_def frame_def)
    have "carries ?P conn [r] ?conn1"
      unfolding carries_def
    proof (intro allI impI)
      fix src ds assume pk: "packet_ok src t" and tr: "tracks src conn ds"
      let ?p = "Seq t + (if SYN t then 1 else 0)"
      have "nxt = ?p + int (length (Payload t))"
        using pk by (auto simp: nxt_def packet_ok_def intro!: Add_plain)
      moreover have "reads src ?p (Payload t)" using pk by (auto simp: packet_ok_def)
      ultimately have "in_order src ?p (ds @ [r]) nxt" "0 \<le> nxt" "nxt < seq_limit"
        using pk tr first by (auto simp: packet_ok_def tracks_def r_def)
      then show "tracks src ?conn1 (ds @ [r])"
        using q c0 by (auto simp: tracks_def conn_ok_def nxt_def)
    qed
    from carries_trans [OF this 1(6)] have "carries ?P conn (concat rss) conn'" by (simp add: 1(5))
    moreover have "effect c s a conn a' conn' rss fin"
      by (rule effect_frame [OF fr _ _ _ 1(2)]) simp_all
    ultimately show ?thesis using 1 by blast
  next
    case gap
    have eq: "assembleConn t ts c a conn = rbind (insertIntoConn t ts a conn0)
        (\<lambda>(a, conn). if ret a \<noteq> [] then sendToConnection c a conn else Inr (a, conn))"
      using gap c0 ra unfolding assembleConn_def conn0_def [symmetric] by (simp add: Let_def)
    obtain a' conn' rss rs fin where 1: "assembleConn t ts c a conn = Inr (a', conn')"
      "effect c s a conn0 a' conn' rss fin" "length rss \<le> 1" "fin \<longrightarrow> rss \<noteq> []"
      "concat rss = rs" "carries ?P conn0 rs conn'"
      using insert_send_effect [of conn0 t a s ts c] st c0 gap rdy ra
      by (auto simp: eq ready_def frame_def)
    from carries_trans_Nil [OF car0 1(6)] effect_frame [OF c0(1) refl refl refl 1(2)] 1 show ?thesis
      by blast
  next
    case contig
    obtain bs nxt where b: "byteSpan (nextSeq conn) (Seq t) (Payload t) = (bs, nxt)"
      by (cases "byteSpan (nextSeq conn) (Seq t) (Payload t)")
    define r where "r = \<lparr>Bytes = bs, Skip = 0, Start = False, End = RST t \<or> FIN t, Seen = ts\<rparr>"
    let ?conn1 = "conn0\<lparr>nextSeq := nxt\<rparr>" and ?a1 = "a\<lparr>ret := [r]\<rparr>"
    have eq: "assembleConn t ts c a conn = sendToConnection c ?a1 ?conn1"
      using contig c0 ra b unfolding assembleConn_def conn0_def [symmetric] by (simp add: Let_def r_def)
    have nv: "nxt \<noteq> invalidSequence"
      using byteSpan_valid [of "nextSeq conn" "Seq t" "Payload t"] b by simp
    obtain a' conn' rs fin where 1: "assembleConn t ts c a conn = Inr (a', conn')"
      "effect c s ?a1 ?conn1 a' conn' [r # rs] fin" "carries ?P ?conn1 rs conn'"
      using sendToConnection_effect [of ?conn1 s ?a1 c ?P] st c0 nv by (auto simp: eq frame_def)
    have "carries ?P conn [r] ?conn1"
      unfolding carries_def
    proof (intro allI impI)
      fix src ds assume pk: "packet_ok src t" and tr: "tracks src conn ds"
      then have ok: "conn_ok src conn" and io: "\<exists>p. in_order src p ds (nextSeq conn)"
        using contig by (auto simp: tracks_def)
      have le: "Seq t \<le> nextSeq conn"
        using ok pk contig(2) by (auto simp: conn_ok_def packet_ok_def Difference_plain)
      have "reads src (nextSeq conn) bs \<and> nxt = nextSeq conn + int (length bs) \<and> nxt < seq_limit"
        using byteSpan_reads [OF _ _ _ _ _ b] ok pk le by (auto simp: conn_ok_def packet_ok_def max_def)
      then show "tracks src ?conn1 (ds @ [r])"
        using ok io c0 nv by (auto simp: tracks_def conn_ok_def r_def in_order_append)
    qed
    from carries_trans [OF this 1(3)] have "carries ?P conn (concat [r # rs]) conn'" by simp
    moreover have "effect c s a conn a' conn' [r # rs] fin"
      by (rule effect_frame [OF _ _ _ _ 1(2)]) (use c0 in \<open>simp_all add: frame_def\<close>)
    ultimately show ?thesis using 1(1)
      by (intro exI [of _ a'] exI [of _ conn'] exI [of _ "[r # rs]"] exI [of _ fin]) simp
  qed
qed

subsection \<open>Flushing one connection\<close>

lemma effect_trans:
  "effect c s a conn a1 conn1 rss False \<Longrightarrow> effect c s a1 conn1 a2 conn2 rss' fin \<Longrightarrow>
     effect c s a conn a2 conn2 (rss @ rss') fin"
  using pool_remove_frame [of conn conn1 c] by (auto simp: effect_def frame_def)

lemma skipFlush_effect:
  assumes rdy: "ready conn" and st: "stream conn = Some s" "\<not> closed conn"
  shows "\<exists>a' conn' rss fin. skipFlush c a conn = Inr (a', conn') \<and>
    effect c s a conn a' conn' rss fin \<and> carries P conn (concat rss) conn'"
proof (cases "queue conn = []")
  case True
  then show ?thesis
    using closeConnection_effect [OF st(1), of c a P] by (fastforce simp: skipFlush_def)
next
  case False
  let ?a = "a\<lparr>ret := []\<rparr>"
  have v: "nextSeq conn \<noteq> invalidSequence" using rdy False by (simp add: ready_def)
  obtain r a1 conn1 where 1: "addNextFromConn ?a conn = Inr (a1, conn1)" "extends [r] ?a conn a1 conn1"
    "nextSeq conn1 \<noteq> invalidSequence"
    using addNextFromConn_extends [OF False, of ?a] by blast
  obtain rs a2 conn2 where 2: "addContiguous a1 conn1 = Inr (a2, conn2)" "extends rs a1 conn1 a2 conn2"
    "nextSeq conn2 \<noteq> invalidSequence"
    using addContiguous_extends [of conn1 a1] 1(3) by blast
  have e: "extends (r # rs) ?a conn a2 conn2" using extends_trans [OF 1(2) 2(2)] by simp
  then have fr: "frame conn conn2" "closed conn2 = closed conn" "ret a2 = r # rs"
    "connPool a2 = connPool a" "streams a2 = streams a" "log a2 = log a" "progress conn (r # rs) conn2"
    by (auto simp: extends_def)
  obtain a3 conn3 rs' fin where 3: "sendToConnection c a2 conn2 = Inr (a3, conn3)"
    "effect c s a2 conn2 a3 conn3 [ret a2 @ rs'] fin" "carries P conn2 rs' conn3"
    using sendToConnection_effect [of conn2 s a2 c P] st fr 2(3) by (auto simp: frame_def)
  have "skipFlush c a conn = Inr (a3, conn3)"
    using False 1(1) 2(1) 3(1) by (simp add: skipFlush_def)
  moreover note effect_frame [OF fr(1,4-6) 3(2)]
  moreover have "carries P conn (concat [ret a2 @ rs']) conn3"
    using carries_trans [OF progress_carries [OF fr(7) v] 3(3)] by (simp add: fr(3))
  ultimately show ?thesis by blast
qed

lemma flushOlder_loop_effect:
  assumes "ready conn" "stream conn = Some s" "\<not> closed conn"
  shows "\<exists>a' conn' rss fin fl. flushOlder_loop c t flushed a conn = Inr (a', conn', fl, if fin then 1 else 0) \<and>
    effect c s a conn a' conn' rss fin \<and> carries P conn (concat rss) conn'"
  using assms
proof (induction c t flushed a conn rule: flushOlder_loop.induct)
  case (1 c t flushed a conn)
  show ?case
  proof (cases "queue conn \<noteq> [] \<and> Seen (rea (hd (queue conn))) < t")
    case True
    obtain a1 conn1 rss fin where sf: "skipFlush c a conn = Inr (a1, conn1)"
      "effect c s a conn a1 conn1 rss fin" "carries P conn (concat rss) conn1"
      using skipFlush_effect [OF "1.prems", of c a P] by blast
    have st: "stream conn1 = Some s" "closed conn1 = fin" "fin \<or> ready conn1"
      using sf(2) "1.prems" by (auto simp: effect_def frame_def)
    show ?thesis
    proof (cases fin)
      case fin: True
      then have "flushOlder_loop c t flushed a conn = Inr (a1, conn1, True, if fin then 1 else 0)"
        using True sf st by (subst flushOlder_loop.simps) simp
      with sf show ?thesis by blast
    next
      case False
      then obtain a2 conn2 rss2 fin2 fl where 2: "flushOlder_loop c t True a1 conn1 = Inr (a2, conn2, fl, if fin2 then 1 else 0)"
        "effect c s a1 conn1 a2 conn2 rss2 fin2" "carries P conn1 (concat rss2) conn2"
        using "1.IH" [OF True sf(1) refl] st by blast
      have "flushOlder_loop c t flushed a conn = Inr (a2, conn2, fl, if fin2 then 1 else 0)"
        using True sf st False 2(1) by (subst flushOlder_loop.simps) simp
      moreover have "effect c s a conn a2 conn2 (rss @ rss2) fin2"
        using sf(2) False 2(2) by (auto intro: effect_trans)
      moreover have "carries P conn (concat (rss @ rss2)) conn2"
        using carries_trans [OF sf(3) 2(3)] by simp
      ultimately show ?thesis by blast
    qed
  next
    case False
    then have "flushOlder_loop c t flushed a conn = Inr (a, conn, flushed, if False then 1 else 0)"
      by (subst flushOlder_loop.simps) (simp only: if_False)
    moreover have "effect c s a conn a conn [] False"
      using "1.prems" by (simp add: effect_def)
    moreover have "carries P conn (concat []) conn" by simp
    ultimately show ?thesis by blast
  qed
qed

lemma flushOlderConn_effect:
  assumes "ready conn" "stream conn = Some s" "\<not> closed conn"
  shows "\<exists>a' conn' rss fin fl. flushOlderConn c t a conn = Inr (a', conn', fl, if fin then 1 else 0) \<and>
    effect c s a conn a' conn' rss fin \<and> carries P conn (concat rss) conn'"
proof -
  obtain a1 conn1 rss fin fl where 1: "flushOlder_loop c t False a conn = Inr (a1, conn1, fl, if fin then 1 else 0)"
    "effect c s a conn a1 conn1 rss fin" "carries P conn (concat rss) conn1"
    using flushOlder_loop_effect [OF assms] by blast
  show ?thesis
  proof (cases "\<not> closed conn1 \<and> queue conn1 = [] \<and> lastSeen conn1 < t")
    case True
    have fin: "\<not> fin" and st: "stream conn1 = Some s"
      using 1(2) True by (auto simp: effect_def frame_def)
    obtain a2 conn2 where 2: "closeConnection c a1 conn1 = Inr (a2, conn2)"
      "effect c s a1 conn1 a2 conn2 [] True" "carries P conn1 [] conn2"
      using closeConnection_effect [OF st, of c a1 P] by blast
    have "flushOlderConn c t a conn = Inr (a2, conn2, True, if True then 1 else 0)"
      using True 1(1) 2(1) fin assms(3) by (simp add: flushOlderConn_def)
    moreover have "effect c s a conn a2 conn2 (rss @ []) True"
      using 1(2) fin 2(2) by (intro effect_trans) simp_all
    moreover have "carries P conn (concat (rss @ [])) conn2"
      using carries_trans [OF 1(3) 2(3)] by simp
    ultimately show ?thesis by blast
  next
    case False
    then have "flushOlderConn c t a conn = Inr (a1, conn1, fl, if fin then 1 else 0)"
      using 1(1) assms(3) by (auto simp: flushOlderConn_def)
    with 1 show ?thesis by blast
  qed
qed

lemma flushAll_loop_effect:
  assumes "ready conn" "stream conn = Some s" "\<not> closed conn"
  shows "\<exists>a' conn' rss. flushAll_loop c a conn = Inr (a', conn') \<and>
    effect c s a conn a' conn' rss True \<and> carries P conn (concat rss) conn'"
  using assms
proof (induction c a conn rule: flushAll_loop.induct)
  case (1 c a conn)
  obtain a1 conn1 rss fin where sf: "skipFlush c a conn = Inr (a1, conn1)"
    "effect c s a conn a1 conn1 rss fin" "carries P conn (concat rss) conn1"
    using skipFlush_effect [OF "1.prems", of c a P] by blast
  have st: "stream conn1 = Some s" "closed conn1 = fin" "fin \<or> ready conn1"
    using sf(2) "1.prems" by (auto simp: effect_def frame_def)
  have eq: "flushAll_loop c a conn = flushAll_loop c a1 conn1"
    using "1.prems"(3) sf(1) by (subst flushAll_loop.simps) simp
  show ?case
  proof (cases fin)
    case True
    then have "flushAll_loop c a1 conn1 = Inr (a1, conn1)"
      using st by (subst flushAll_loop.simps) simp
    moreover have "effect c s a conn a1 conn1 rss True" using sf(2) True by simp
    ultimately show ?thesis using sf(3) unfolding eq by blast
  next
    case False
    then obtain a2 conn2 rss2 where 2: "flushAll_loop c a1 conn1 = Inr (a2, conn2)"
      "effect c s a1 conn1 a2 conn2 rss2 True" "carries P conn1 (concat rss2) conn2"
      using "1.IH" [OF "1.prems"(3) sf(1) refl] st by blast
    moreover have "effect c s a conn a2 conn2 (rss @ rss2) True"
      using sf(2) False 2(2) by (auto intro: effect_trans)
    moreover have "carries P conn (concat (rss @ rss2)) conn2"
      using carries_trans [OF sf(3) 2(3)] by simp
    ultimately show ?thesis unfolding eq by blast
  qed
qed

subsection \<open>The invariant of the assembler\<close>

text \<open>The calls about one stream, and what it was delivered.\<close>

fun about :: "nat \<Rightarrow> 'k call \<Rightarrow> bool" where
  "about s (New k s') \<longleftrightarrow> s = s'"
| "about s (Reassembled s' rs) \<longleftrightarrow> s = s'"
| "about s (ReassemblyComplete s') \<longleftrightarrow> s = s'"

definition calls_of :: "nat \<Rightarrow> 'k call list \<Rightarrow> 'k call list" where
  "calls_of s l = filter (about s) l"

fun payload :: "'k call \<Rightarrow> Reassembly list" where
  "payload (Reassembled s rs) = rs"
| "payload _ = []"

definition delivered :: "nat \<Rightarrow> 'k call list \<Rightarrow> Reassembly list" where
  "delivered s l = concat (map payload (calls_of s l))"

definition begun :: "'k \<Rightarrow> nat \<Rightarrow> 'k call list \<Rightarrow> bool" where
  "begun k s l \<longleftrightarrow> (\<exists>rss. [] \<notin> set rss \<and> calls_of s l = New k s # map (Reassembled s) rss)"

definition finished :: "'k \<Rightarrow> nat \<Rightarrow> 'k call list \<Rightarrow> bool" where
  "finished k s l \<longleftrightarrow> (\<exists>rss. [] \<notin> set rss \<and>
     calls_of s l = New k s # map (Reassembled s) rss @ [ReassemblyComplete s])"

definition conn_at :: "'k Assembler \<Rightarrow> nat \<Rightarrow> 'k connection" where
  "conn_at a c = store (connPool a) c"

definition live :: "'k Assembler \<Rightarrow> 'k \<Rightarrow> nat \<Rightarrow> nat \<Rightarrow> bool" where
  "live a k c s \<longleftrightarrow> conns (connPool a) k = Some c \<and> stream (conn_at a c) = Some s"

definition ainv :: "'k Assembler \<Rightarrow> bool" where
  "ainv a \<longleftrightarrow>
     nextAlloc (connPool a) > 0 \<and> distinct (p_free (connPool a)) \<and>
     set (p_free (connPool a)) \<subseteq> {..<allocated (connPool a)} \<and>
     (\<forall>k c. conns (connPool a) k = Some c \<longrightarrow>
        c < allocated (connPool a) \<and> c \<notin> set (p_free (connPool a)) \<and>
        \<not> closed (conn_at a c) \<and> ckey (conn_at a c) = Some k \<and> ready (conn_at a c) \<and>
        (\<exists>s < streams a. stream (conn_at a c) = Some s \<and> begun k s (log a))) \<and>
     (\<forall>s\<ge>streams a. calls_of s (log a) = []) \<and>
     (\<forall>s < streams a. (\<exists>k. finished k s (log a)) \<or> (\<exists>k c. live a k c s))"

definition dinv :: "('k \<Rightarrow> int \<Rightarrow> byte) \<Rightarrow> 'k Assembler \<Rightarrow> bool" where
  "dinv src a \<longleftrightarrow>
     (\<forall>k c s. live a k c s \<longrightarrow> tracks (src k) (conn_at a c) (delivered s (log a))) \<and>
     (\<forall>k s. New k s \<in> set (log a) \<longrightarrow> (\<exists>p p'. in_order (src k) p (delivered s (log a)) p'))"

lemma calls_of_append [simp]: "calls_of s (l @ l') = calls_of s l @ calls_of s l'"
  by (simp add: calls_of_def)

lemma calls_of_simps [simp]:
  "calls_of s [] = []"
  "calls_of s (c # l) = (if about s c then c # calls_of s l else calls_of s l)"
  by (simp_all add: calls_of_def)

lemma calls_of_Reassembled [simp]:
  "calls_of s (map (Reassembled s') rss) = (if s = s' then map (Reassembled s) rss else [])"
  by (auto simp: calls_of_def filter_empty_conv intro!: filter_True)

lemma delivered_append [simp]: "delivered s (l @ l') = delivered s l @ delivered s l'"
  by (simp add: delivered_def)

lemma concat_payload [simp]: "concat (map (payload \<circ> Reassembled s) rss) = concat rss"
  by (induction rss) auto

lemma about_iff: "about s c \<Longrightarrow> about s' c \<Longrightarrow> s = s'"
  by (cases c) auto

lemma begun_finished_key:
  "begun k s l \<Longrightarrow> begun k' s l \<Longrightarrow> k = k'"
  by (auto simp: begun_def)

lemma ainvD:
  assumes "ainv a" "conns (connPool a) k = Some c"
  shows "c < allocated (connPool a)" "c \<notin> set (p_free (connPool a))" "\<not> closed (conn_at a c)"
    "ckey (conn_at a c) = Some k" "ready (conn_at a c)"
    "\<exists>s. live a k c s \<and> s < streams a \<and> begun k s (log a)"
proof -
  show "c < allocated (connPool a)" "c \<notin> set (p_free (connPool a))" "\<not> closed (conn_at a c)"
    "ckey (conn_at a c) = Some k" "ready (conn_at a c)"
    using assms by (auto simp: ainv_def)
  have "\<exists>s < streams a. stream (conn_at a c) = Some s \<and> begun k s (log a)"
    using assms unfolding ainv_def by blast
  then show "\<exists>s. live a k c s \<and> s < streams a \<and> begun k s (log a)"
    using assms(2) by (auto simp: live_def)
qed

lemma live_inj: "ainv a \<Longrightarrow> live a k c s \<Longrightarrow> live a k' c' s' \<Longrightarrow> c = c' \<or> s = s' \<Longrightarrow> k = k' \<and> c = c' \<and> s = s'"
  unfolding live_def by (metis ainvD(4,6) begun_finished_key live_def option.inject)

text \<open>The result of an operation on the connection at \<open>c\<close>, written back.\<close>

definition done_at :: "nat \<Rightarrow> 'k Assembler \<Rightarrow> 'k connection \<Rightarrow> 'k Assembler" where
  "done_at c a conn = a\<lparr>connPool := put c conn (connPool a)\<rparr>"

lemma effect_conns:
  assumes inv: "ainv a" and lv: "live a k c s"
    and eff: "effect c s a (conn_at a c) a' conn' rss fin"
  shows
  "conns (connPool (done_at c a' conn')) =
     (if fin then (conns (connPool a))(k := None) else conns (connPool a))"
  "conn_at (done_at c a' conn') c' = (if c' = c then conn' else conn_at a c')"
  "log (done_at c a' conn') =
     log a @ map (Reassembled s) rss @ (if fin then [ReassemblyComplete s] else [])"
  "streams (done_at c a' conn') = streams a"
  using eff ainvD(4) [OF inv] lv
  by (auto simp: done_at_def effect_def live_def conn_at_def put_def pool_remove_def)

lemma effect_live:
  assumes inv: "ainv a" and lv: "live a k c s"
    and eff: "effect c s a (conn_at a c) a' conn' rss fin"
  shows "live (done_at c a' conn') k' c' s' \<longleftrightarrow> live a k' c' s' \<and> \<not> (fin \<and> k' = k)"
  using eff lv ainvD(4) [OF inv, of k' c'] ainvD(4) [OF inv, of k c]
  by (auto simp: live_def effect_conns [OF inv lv eff] effect_def frame_def)

lemma effect_ainv:
  assumes inv: "ainv a" and lv: "live a k c s"
    and eff: "effect c s a (conn_at a c) a' conn' rss fin"
  shows "ainv (done_at c a' conn')"
proof -
  note effect_conns = effect_conns [OF inv lv eff] and effect_live = effect_live [OF inv lv eff]
  let ?a = "done_at c a' conn'"
  have s: "s < streams a" "begun k s (log a)"
    using ainvD(6) [OF inv, of k c] lv by (auto simp: live_def)
  have nn: "[] \<notin> set rss" using eff by (simp add: effect_def)
  have pool: "allocated (connPool ?a) = allocated (connPool a)" "nextAlloc (connPool ?a) = nextAlloc (connPool a)"
    "p_free (connPool ?a) = p_free (connPool a) @ (if fin then [c] else [])"
    using eff by (auto simp: done_at_def effect_def put_def pool_remove_def)
  have cs: "calls_of s' (log ?a) = calls_of s' (log a)" if "s' \<noteq> s" for s'
    using that by (simp add: effect_conns)
  have fs: "fin \<Longrightarrow> finished k s (log ?a)" and bs: "\<not> fin \<Longrightarrow> begun k s (log ?a)"
  proof -
    obtain rss0 where "[] \<notin> set rss0" "calls_of s (log a) = New k s # map (Reassembled s) rss0"
      using s(2) by (auto simp: begun_def)
    with nn show "fin \<Longrightarrow> finished k s (log ?a)" "\<not> fin \<Longrightarrow> begun k s (log ?a)"
      unfolding begun_def finished_def effect_conns by (auto intro!: exI [of _ "rss0 @ rss"])
  qed
  have c: "c < allocated (connPool a)" "c \<notin> set (p_free (connPool a))"
    using ainvD [OF inv] lv by (auto simp: live_def)
  have "c' < allocated (connPool ?a) \<and> c' \<notin> set (p_free (connPool ?a)) \<and>
        \<not> closed (conn_at ?a c') \<and> ckey (conn_at ?a c') = Some k' \<and> ready (conn_at ?a c') \<and>
        (\<exists>s' < streams ?a. stream (conn_at ?a c') = Some s' \<and> begun k' s' (log ?a))"
    if "conns (connPool ?a) k' = Some c'" for k' c'
  proof -
    have k': "conns (connPool a) k' = Some c'" and kk: "fin \<Longrightarrow> k' \<noteq> k"
      using that by (auto simp: effect_conns split: if_splits)
    note d = ainvD [OF inv k']
    from d(6) obtain s' where s': "live a k' c' s'" "s' < streams a" "begun k' s' (log a)" by blast
    show ?thesis
    proof (cases "c' = c")
      case True
      then have ks: "k' = k" "s' = s" using live_inj [OF inv s'(1) lv] by blast+
      then have nf: "\<not> fin" using kk by blast
      have "\<not> closed conn'" "ckey conn' = Some k" "ready conn'" "stream conn' = Some s"
        using eff nf d(4) True ks lv by (auto simp: effect_def frame_def live_def)
      with d(1,2) s'(2) bs [OF nf] show ?thesis
        by (simp add: True ks nf effect_conns(2,4) pool)
    next
      case False
      then have "s' \<noteq> s" using live_inj [OF inv s'(1) lv] by blast
      then have "begun k' s' (log ?a)" using s'(3) cs by (simp add: begun_def)
      with False s' d show ?thesis by (auto simp: effect_conns pool live_def)
    qed
  qed
  moreover have "calls_of s' (log ?a) = []" if "s' \<ge> streams ?a" for s'
    using that inv s(1) cs [of s'] by (auto simp: ainv_def effect_conns(4))
  moreover have "(\<exists>k. finished k s' (log ?a)) \<or> (\<exists>k c. live ?a k c s')" if "s' < streams ?a" for s'
  proof (cases "s' = s")
    case True
    then show ?thesis using fs lv effect_live by (cases fin) auto
  next
    case False
    have "(\<exists>k. finished k s' (log a)) \<or> (\<exists>k c. live a k c s')"
      using inv that by (auto simp: ainv_def effect_conns(4))
    then show ?thesis
    proof
      assume "\<exists>k. finished k s' (log a)"
      then show ?thesis using cs [OF False] by (auto simp: finished_def)
    next
      assume "\<exists>k c. live a k c s'"
      then obtain k' c' where l: "live a k' c' s'" by blast
      then have "k' \<noteq> k" using lv False by (auto simp: live_def)
      with l show ?thesis using effect_live by blast
    qed
  qed
  ultimately show ?thesis
    using inv c unfolding ainv_def pool by auto
qed

lemma effect_dinv:
  assumes inv: "ainv a" and lv: "live a k c s"
    and eff: "effect c s a (conn_at a c) a' conn' rss fin"
    and d: "dinv src a" and car: "carries P (conn_at a c) (concat rss) conn'" and P: "P (src k)"
  shows "dinv src (done_at c a' conn')"
proof -
  note effect_conns = effect_conns [OF inv lv eff] and effect_live = effect_live [OF inv lv eff]
  let ?a = "done_at c a' conn'"
  have dl: "delivered s' (log ?a) = delivered s' (log a) @ (if s' = s then concat rss else [])" for s'
    by (simp add: effect_conns delivered_def)
  have tr: "tracks (src k) conn' (delivered s (log a) @ concat rss)"
    using d lv car P by (auto simp: dinv_def carries_def)
  have "tracks (src k') (conn_at ?a c') (delivered s' (log ?a))" if "live ?a k' c' s'" for k' c' s'
  proof -
    have l: "live a k' c' s'" using that effect_live by blast
    show ?thesis
    proof (cases "c' = c")
      case True
      with live_inj [OF inv l lv] tr show ?thesis by (simp add: dl effect_conns(2))
    next
      case False
      with live_inj [OF inv l lv] d l show ?thesis by (auto simp: dl effect_conns(2) dinv_def)
    qed
  qed
  moreover have "\<exists>p p'. in_order (src k') p (delivered s' (log ?a)) p'" if "New k' s' \<in> set (log ?a)" for k' s'
  proof -
    have n: "New k' s' \<in> set (log a)" using that by (auto simp: effect_conns split: if_splits)
    show ?thesis
    proof (cases "s' = s")
      case True
      have "New k' s' \<in> set (calls_of s (log a))" using n True by (simp add: calls_of_def)
      then have "k' = k"
        using ainvD(6) [OF inv, of k c] lv by (auto simp: live_def begun_def)
      moreover have "\<exists>p p'. in_order (src k) p (delivered s (log a) @ concat rss) p'"
      proof (cases "nextSeq conn' = invalidSequence")
        case True
        with tr have e: "delivered s (log a) @ concat rss = []" by (simp only: tracks_def if_True)
        show ?thesis unfolding e by auto
      next
        case False
        with tr show ?thesis by (auto simp: tracks_def)
      qed
      ultimately show ?thesis using True by (simp add: dl)
    next
      case False
      with d n show ?thesis by (auto simp: dl dinv_def)
    qed
  qed
  ultimately show ?thesis by (auto simp: dinv_def)
qed

subsection \<open>Opening a connection\<close>

lemma pool_grow_inv:
  assumes "ainv a"
  defines "p \<equiv> (if p_free (connPool a) = [] then pool_grow (connPool a) else connPool a)"
  shows "p_free p \<noteq> []" "distinct (p_free p)" "set (p_free p) \<subseteq> {..<allocated p}" "nextAlloc p > 0"
    "conns p = conns (connPool a)" "store p = store (connPool a)" "allocated (connPool a) \<le> allocated p"
    "conns (connPool a) k' = Some c' \<Longrightarrow> c' \<notin> set (p_free p)"
proof -
  show "p_free p \<noteq> []" "distinct (p_free p)" "set (p_free p) \<subseteq> {..<allocated p}" "nextAlloc p > 0"
    "conns p = conns (connPool a)" "store p = store (connPool a)" "allocated (connPool a) \<le> allocated p"
    using assms(1) unfolding p_def by (auto simp: pool_grow_def ainv_def)
  show "c' \<notin> set (p_free p)" if "conns (connPool a) k' = Some c'"
    using ainvD(1,2) [OF assms(1) that] unfolding p_def by (auto simp: pool_grow_def)
qed

lemma last_butlast: "distinct xs \<Longrightarrow> xs \<noteq> [] \<Longrightarrow> last xs \<notin> set (butlast xs) \<and> set xs = insert (last xs) (set (butlast xs))"
  by (metis append_butlast_last_id distinct_append disjoint_iff insert_is_Un list.set(1) list.simps(15) set_append
      sup_commute list.set_intros(1))

lemma getConnection_new:
  assumes inv: "ainv a" and k: "conns (connPool a) k = None"
  shows "\<exists>c a'. getConnection k False ts a = (Some c, a') \<and> ainv a' \<and> live a' k c (streams a) \<and>
    ret a' = ret a \<and> (\<forall>src. dinv src a \<longrightarrow> dinv src a')"
proof -
  let ?p0 = "if p_free (connPool a) = [] then pool_grow (connPool a) else connPool a"
  obtain p where p: "p = ?p0" by blast
  note P = pool_grow_inv [OF inv, folded p]
  let ?c = "last (p_free p)" and ?s = "streams a"
  obtain conn where conn: "conn = reset k ?s ts (store p ?c)" by blast
  let ?p' = "put ?c conn (p\<lparr>p_free := butlast (p_free p)\<rparr>)"
  obtain a' where a': "a' = a\<lparr>streams := ?s + 1, log := log a @ [New k ?s],
      connPool := ?p'\<lparr>conns := (conns (connPool a))(k \<mapsto> ?c)\<rparr>\<rparr>" by blast
  have nc: "newConnection k ?s ts (connPool a) = (?c, ?p')"
    unfolding newConnection_def Let_def p [symmetric] conn by simp
  have g: "getConnection k False ts a = (Some ?c, a')"
    using k P(5) by (simp add: getConnection_def nc put_def a' Let_def)
  have c: "?c \<notin> set (butlast (p_free p))" "set (p_free p) = insert ?c (set (butlast (p_free p)))"
    "distinct (butlast (p_free p))"
    using last_butlast [OF P(2,1)] P(2) by (auto simp: distinct_butlast)
  have f: "nextAlloc (connPool a') = nextAlloc p" "p_free (connPool a') = butlast (p_free p)"
    "allocated (connPool a') = allocated p" "conns (connPool a') = (conns (connPool a))(k \<mapsto> ?c)"
    "conn_at a' c' = (if c' = ?c then conn else conn_at a c')" "streams a' = ?s + 1"
    "log a' = log a @ [New k ?s]" for c'
    by (auto simp: a' put_def conn_at_def P(6))
  have cn: "\<not> closed conn" "ckey conn = Some k" "ready conn" "stream conn = Some ?s"
    "nextSeq conn = invalidSequence" "queue conn = []"
    by (simp_all add: conn reset_def ready_def)
  have new: "calls_of ?s (log a) = []" using inv by (simp add: ainv_def)
  have old: "c' \<noteq> ?c" "c' < allocated p" "c' \<notin> set (p_free p)" if "conns (connPool a) k' = Some c'" for k' c'
    using that P(7) P(8) [of k' c'] ainvD(1) [OF inv that] c(2) by auto
  have lv: "live a' k' c' s' \<longleftrightarrow> (if k' = k then c' = ?c \<and> s' = ?s else live a k' c' s')" for k' c' s'
    using old(1) [of k'] cn(4) by (auto simp: live_def f)
  have slt: "s' < ?s" if "live a k' c' s'" for k' c' s'
    using that ainvD(6) [OF inv, of k' c'] by (auto simp: live_def)
  have "ainv a'"
    unfolding ainv_def f
  proof (intro conjI allI impI)
    show "0 < nextAlloc p" "distinct (butlast (p_free p))" "set (butlast (p_free p)) \<subseteq> {..<allocated p}"
      using P(3,4) c by auto
  next
    fix k' c' assume k': "((conns (connPool a))(k \<mapsto> ?c)) k' = Some c'"
    show "c' < allocated p" "c' \<notin> set (butlast (p_free p))"
      using k' old [of k' c'] c P(3) by (auto split: if_splits)
    show "\<not> closed (if c' = ?c then conn else conn_at a c')"
      "ckey (if c' = ?c then conn else conn_at a c') = Some k'" "ready (if c' = ?c then conn else conn_at a c')"
      using k' old(1) [of k' c'] cn ainvD [OF inv, of k' c'] by (auto split: if_splits)
    show "\<exists>s'<?s + 1. stream (if c' = ?c then conn else conn_at a c') = Some s' \<and>
        begun k' s' (log a @ [New k ?s])"
    proof (cases "k' = k")
      case True
      then show ?thesis using k' cn new by (auto simp: begun_def intro!: exI [of _ "[]"])
    next
      case False
      then have k'': "conns (connPool a) k' = Some c'" using k' by simp
      obtain s' where s': "live a k' c' s'" "s' < ?s" "begun k' s' (log a)"
        using ainvD(6) [OF inv k''] by blast
      then have "begun k' s' (log a @ [New k ?s])" "stream (conn_at a c') = Some s'"
        by (simp_all add: begun_def live_def)
      then show ?thesis
        using s'(2) old(1) [OF k''] by (intro exI [of _ s']) simp
    qed
  next
    fix s' assume "?s + 1 \<le> s'"
    then show "calls_of s' (log a @ [New k ?s]) = []" using inv by (simp add: ainv_def)
  next
    fix s' assume "s' < ?s + 1"
    then consider "s' = ?s" | "s' < ?s" by linarith
    then show "(\<exists>k'. finished k' s' (log a @ [New k ?s])) \<or> (\<exists>k c. live a' k c s')"
    proof cases
      case 1
      then show ?thesis using lv by auto
    next
      case 2
      then have "(\<exists>k'. finished k' s' (log a)) \<or> (\<exists>k c. live a k c s')"
        using inv by (simp add: ainv_def)
      then show ?thesis
      proof (rule disjE)
        assume "\<exists>k c. live a k c s'"
        then obtain k' c' where l: "live a k' c' s'" by blast
        then have "k' \<noteq> k" using k by (auto simp: live_def)
        then show ?thesis using l lv by auto
      qed (use 2 in \<open>auto simp: finished_def\<close>)
    qed
  qed
  moreover have "dinv src a'" if d: "dinv src a" for src
    unfolding dinv_def
  proof (intro conjI allI impI)
    have dl: "delivered s' (log a') = delivered s' (log a)" for s'
      by (simp add: f delivered_def)
    have d0: "delivered ?s (log a) = []" using new by (simp add: delivered_def)
    fix k' c' s' assume l: "live a' k' c' s'"
    show "tracks (src k') (conn_at a' c') (delivered s' (log a'))"
    proof (cases "k' = k")
      case True
      with l lv have "c' = ?c" "s' = ?s" by auto
      then show ?thesis by (simp add: dl d0 f(5) tracks_def cn(5,6))
    next
      case False
      with l lv have l': "live a k' c' s'" by auto
      then have "c' \<noteq> ?c" using old(1) [of k' c'] by (simp add: live_def)
      then have "conn_at a' c' = conn_at a c'" by (simp add: f(5))
      with d l' show ?thesis by (simp add: dl dinv_def)
    qed
  next
    fix k' s' assume "New k' s' \<in> set (log a')"
    then consider "New k' s' \<in> set (log a)" | "s' = ?s" by (auto simp: f)
    then show "\<exists>p p'. in_order (src k') p (delivered s' (log a')) p'"
    proof cases
      case 1
      moreover have "delivered s' (log a') = delivered s' (log a)" by (simp add: f delivered_def)
      ultimately show ?thesis using d by (simp add: dinv_def)
    next
      case 2
      with new show ?thesis by (auto simp: f delivered_def)
    qed
  qed
  moreover have "ret a' = ret a" by (simp add: a')
  ultimately show ?thesis using g lv by auto
qed

lemma openConnection_ok:
  assumes inv: "ainv a"
  shows "openConnection k ended ts a = Some (None, a) \<or>
    (\<exists>c s a'. openConnection k ended ts a = Some (Some c, a') \<and> ainv a' \<and> live a' k c s \<and>
       ret a' = ret a \<and> (\<forall>src. dinv src a \<longrightarrow> dinv src a'))"
proof (cases "conns (connPool a) k")
  case None
  show ?thesis
  proof (cases "ended")
    case True
    then show ?thesis using None by (simp add: openConnection.simps getConnection_def)
  next
    case False
    obtain c a' where g: "getConnection k False ts a = (Some c, a')" "ainv a'" "live a' k c (streams a)"
      "ret a' = ret a" "\<forall>src. dinv src a \<longrightarrow> dinv src a'"
      using getConnection_new [OF inv None, of ts] by blast
    moreover have "\<not> closed (store (connPool a') c)"
      using ainvD(3) [OF g(2), of k c] g(3) by (simp add: live_def conn_at_def)
    ultimately show ?thesis using False by (auto simp: openConnection.simps)
  qed
next
  case (Some c)
  then obtain s where "live a k c s" using ainvD(6) [OF inv] by blast
  moreover have "\<not> closed (store (connPool a) c)"
    using ainvD(3) [OF inv Some] by (simp add: conn_at_def)
  ultimately show ?thesis using inv Some by (auto simp: openConnection.simps getConnection_def)
qed

subsection \<open>Operations on the whole assembler\<close>

lemma done_at_eq: "a\<lparr>connPool := put c conn (connPool a)\<rparr> = done_at c a conn"
  by (simp add: done_at_def)

lemma ainv_ret [simp]: "ainv (a\<lparr>ret := r\<rparr>) = ainv a"
  by (simp add: ainv_def conn_at_def live_def)

lemma dinv_ret [simp]: "dinv src (a\<lparr>ret := r\<rparr>) = dinv src a"
  by (simp add: dinv_def conn_at_def live_def)

lemma live_conn:
  assumes "ainv a" "live a k c s"
  shows "ready (conn_at a c)" "stream (conn_at a c) = Some s" "\<not> closed (conn_at a c)"
  using assms ainvD [of a k c] by (auto simp: live_def)

lemma AssembleWithTimestamp_ok:
  assumes inv: "ainv a"
  shows "\<exists>a'. AssembleWithTimestamp k t ts a = Inr a' \<and> ainv a' \<and>
    (\<forall>src. packet_ok (src k) t \<longrightarrow> dinv src a \<longrightarrow> dinv src a')"
proof (cases "\<not> SYN t \<and> \<not> FIN t \<and> \<not> RST t \<and> Payload t = []")
  case True
  then show ?thesis using inv by (simp add: AssembleWithTimestamp_def)
next
  case False
  let ?a = "a\<lparr>ret := []\<rparr>" and ?ended = "\<not> SYN t \<and> Payload t = []"
  have inv': "ainv ?a" using inv by simp
  have eq: "AssembleWithTimestamp k t ts a = (case openConnection k ?ended ts ?a of
      None \<Rightarrow> Inl Hang | Some (None, a) \<Rightarrow> Inr a
    | Some (Some c, a) \<Rightarrow> rbind (assembleConn t ts c a (store (connPool a) c)) (\<lambda>(a, conn).
          Inr (done_at c a conn)))"
    unfolding AssembleWithTimestamp_def if_not_P [OF False] Let_def done_at_eq ..
  from openConnection_ok [OF inv', of k ?ended ts] show ?thesis
  proof (elim disjE exE conjE)
    assume "openConnection k ?ended ts ?a = Some (None, ?a)"
    then show ?thesis using inv' by (auto simp: eq)
  next
    fix c s a1
    assume o: "openConnection k ?ended ts ?a = Some (Some c, a1)" "ainv a1" "live a1 k c s" "ret a1 = ret ?a"
      "\<forall>src. dinv src ?a \<longrightarrow> dinv src a1"
    obtain a2 conn2 rss fin where e: "assembleConn t ts c a1 (conn_at a1 c) = Inr (a2, conn2)"
      "effect c s a1 (conn_at a1 c) a2 conn2 rss fin"
      "carries (\<lambda>src. packet_ok src t) (conn_at a1 c) (concat rss) conn2"
      using assembleConn_effect [OF live_conn [OF o(2,3)], of a1 t ts c] o(4) by auto
    have "AssembleWithTimestamp k t ts a = Inr (done_at c a2 conn2)"
      using o(1) e(1) by (simp add: eq conn_at_def)
    moreover have "ainv (done_at c a2 conn2)"
      by (rule effect_ainv [OF o(2,3) e(2)])
    moreover have "dinv src (done_at c a2 conn2)" if "packet_ok (src k) t" "dinv src a" for src
      using effect_dinv [OF o(2,3) e(2) _ e(3), of src] o(5) that by simp
    ultimately show ?thesis by blast
  qed
qed

lemma flush_rest:
  assumes inv: "ainv a" and lv: "live a k c s" and eff: "effect c s a (conn_at a c) a1 conn1 rss fin"
    and cs: "distinct (c # cs)" "set (c # cs) \<subseteq> ran (conns (connPool a))"
  shows "set cs \<subseteq> ran (conns (connPool (done_at c a1 conn1)))"
proof
  fix c' assume c': "c' \<in> set cs"
  then obtain k' where k': "conns (connPool a) k' = Some c'" using cs(2) by (auto simp: ran_def)
  have "k' \<noteq> k" using c' cs(1) lv k' by (auto simp: live_def)
  then have "conns (connPool (done_at c a1 conn1)) k' = Some c'"
    using k' by (simp add: effect_conns [OF inv lv eff])
  then show "c' \<in> ran (conns (connPool (done_at c a1 conn1)))" by (rule ranI)
qed

lemma FlushOlderThan_ok:
  "ainv a \<Longrightarrow> distinct cs \<Longrightarrow> set cs \<subseteq> ran (conns (connPool a)) \<Longrightarrow>
     \<exists>fs cls a'. FlushOlderThan cs t a = Inr (fs, cls, a') \<and> ainv a' \<and> (\<forall>src. dinv src a \<longrightarrow> dinv src a')"
proof (induction cs arbitrary: a)
  case (Cons c cs)
  then obtain k where "conns (connPool a) k = Some c" by (auto simp: ran_def)
  then obtain s where lv: "live a k c s" using ainvD(6) [OF Cons.prems(1)] by blast
  note lc = live_conn [OF Cons.prems(1) lv]
  obtain a1 conn1 rss fin fl where f: "flushOlderConn c t a (conn_at a c) = Inr (a1, conn1, fl, if fin then 1 else 0)"
    "effect c s a (conn_at a c) a1 conn1 rss fin" "carries (\<lambda>_. True) (conn_at a c) (concat rss) conn1"
    using flushOlderConn_effect [OF lc] by blast
  let ?a = "done_at c a1 conn1"
  have "ainv ?a" by (rule effect_ainv [OF Cons.prems(1) lv f(2)])
  moreover have "set cs \<subseteq> ran (conns (connPool ?a))"
    by (rule flush_rest [OF Cons.prems(1) lv f(2) Cons.prems(2,3)])
  ultimately obtain fs cls a' where r: "FlushOlderThan cs t ?a = Inr (fs, cls, a')" "ainv a'"
    "\<forall>src. dinv src ?a \<longrightarrow> dinv src a'"
    using Cons.IH [of ?a] Cons.prems(2) by auto
  have "\<forall>src. dinv src a \<longrightarrow> dinv src ?a"
    using effect_dinv [OF Cons.prems(1) lv f(2) _ f(3)] by blast
  with r f(1) show ?case
    by (simp add: done_at_eq conn_at_def)
qed simp

lemma FlushAll_ok:
  "ainv a \<Longrightarrow> distinct cs \<Longrightarrow> set cs \<subseteq> ran (conns (connPool a)) \<Longrightarrow>
     \<exists>a'. FlushAll cs a = Inr (length cs, a') \<and> ainv a' \<and>
       (\<forall>k. conns (connPool a') k = (case conns (connPool a) k of
              None \<Rightarrow> None | Some c \<Rightarrow> if c \<in> set cs then None else Some c)) \<and>
       (\<forall>src. dinv src a \<longrightarrow> dinv src a')"
proof (induction cs arbitrary: a)
  case (Cons c cs)
  then obtain k where "conns (connPool a) k = Some c" by (auto simp: ran_def)
  then obtain s where lv: "live a k c s" using ainvD(6) [OF Cons.prems(1)] by blast
  note lc = live_conn [OF Cons.prems(1) lv]
  obtain a1 conn1 rss where f: "flushAll_loop c a (conn_at a c) = Inr (a1, conn1)"
    "effect c s a (conn_at a c) a1 conn1 rss True" "carries (\<lambda>_. True) (conn_at a c) (concat rss) conn1"
    using flushAll_loop_effect [OF lc] by blast
  let ?a = "done_at c a1 conn1"
  have "ainv ?a" by (rule effect_ainv [OF Cons.prems(1) lv f(2)])
  moreover have "set cs \<subseteq> ran (conns (connPool ?a))"
    by (rule flush_rest [OF Cons.prems(1) lv f(2) Cons.prems(2,3)])
  ultimately obtain a' where r: "FlushAll cs ?a = Inr (length cs, a')" "ainv a'"
    "\<forall>k. conns (connPool a') k = (case conns (connPool ?a) k of
              None \<Rightarrow> None | Some c \<Rightarrow> if c \<in> set cs then None else Some c)"
    "\<forall>src. dinv src ?a \<longrightarrow> dinv src a'"
    using Cons.IH [of ?a] Cons.prems(2) by auto
  have "\<forall>src. dinv src a \<longrightarrow> dinv src ?a"
    using effect_dinv [OF Cons.prems(1) lv f(2) _ f(3)] by blast
  moreover have ck: "conns (connPool a) k' = Some c \<longleftrightarrow> k' = k" for k'
    using ainvD(4) [OF Cons.prems(1), of k' c] ainvD(4) [OF Cons.prems(1), of k c] lv
    by (auto simp: live_def)
  have "conns (connPool a') k' = (case conns (connPool a) k' of
              None \<Rightarrow> None | Some c' \<Rightarrow> if c' \<in> set (c # cs) then None else Some c')" for k'
    using r(3) ck [of k'] by (cases "k' = k") (auto simp: effect_conns [OF Cons.prems(1) lv f(2)] split: option.splits)
  ultimately show ?case
    using r(1,2,4) f(1) by (simp add: done_at_eq conn_at_def)
qed (simp split: option.splits)

subsection \<open>Every run\<close>

text \<open>
  The states that an assembler with the given limits reaches, by packets that satisfy \<open>Q\<close> and
  by flushes, which visit all connections in some order.
\<close>

inductive arun :: "('k \<Rightarrow> TCP \<Rightarrow> bool) \<Rightarrow> 'k Assembler \<Rightarrow> bool" for Q where
  start: "arun Q (NewAssembler perConn maxTotal)"
| packet: "arun Q a \<Longrightarrow> Q k t \<Longrightarrow> AssembleWithTimestamp k t ts a = Inr a' \<Longrightarrow> arun Q a'"
| older: "arun Q a \<Longrightarrow> distinct cs \<Longrightarrow> set cs = ran (conns (connPool a)) \<Longrightarrow>
    FlushOlderThan cs t a = Inr (fs, cls, a') \<Longrightarrow> arun Q a'"
| flush: "arun Q a \<Longrightarrow> distinct cs \<Longrightarrow> set cs = ran (conns (connPool a)) \<Longrightarrow>
    FlushAll cs a = Inr (n, a') \<Longrightarrow> arun Q a'"

lemma ainv_new: "ainv (NewAssembler perConn maxTotal)"
  by (simp add: ainv_def NewAssembler_def NewStreamPool_def initialAllocSize_def)

lemma dinv_new: "dinv src (NewAssembler perConn maxTotal)"
  by (simp add: dinv_def live_def NewAssembler_def NewStreamPool_def)

lemma arun_ainv: "arun Q a \<Longrightarrow> ainv a"
proof (induction rule: arun.induct)
  case (packet a k t ts a')
  with AssembleWithTimestamp_ok [of a k t ts] show ?case by auto
next
  case (older a cs t fs cls a')
  with FlushOlderThan_ok [of a cs t] show ?case by auto
next
  case (flush a cs n a')
  with FlushAll_ok [of a cs] show ?case by auto
qed (rule ainv_new)

lemma arun_dinv: "arun Q a \<Longrightarrow> \<forall>k t. Q k t \<longrightarrow> packet_ok (src k) t \<Longrightarrow> dinv src a"
proof (induction rule: arun.induct)
  case (packet a k t ts a')
  with AssembleWithTimestamp_ok [OF arun_ainv [OF packet.hyps(1)], of k t ts] show ?case by auto
next
  case (older a cs t fs cls a')
  with FlushOlderThan_ok [OF arun_ainv [OF older.hyps(1)], of cs t] show ?case by auto
next
  case (flush a cs n a')
  with FlushAll_ok [OF arun_ainv [OF flush.hyps(1)], of cs] show ?case by auto
qed (rule dinv_new)

subsection \<open>Concrete packets\<close>

text \<open>Packets of one connection for the witnesses, and the facts that run them.\<close>

definition ex_syn :: TCP where
  "ex_syn = \<lparr>SYN = True, FIN = False, RST = False, Seq = 99, Payload = []\<rparr>"

definition ex_seg :: "int \<Rightarrow> bytes \<Rightarrow> TCP" where
  "ex_seg n bs = \<lparr>SYN = False, FIN = False, RST = False, Seq = n, Payload = bs\<rparr>"

fun feed :: "(TCP \<times> gotime) list \<Rightarrow> nat Assembler \<Rightarrow> nat Assembler res" where
  "feed [] a = Inr a"
| "feed ((t, ts) # ps) a = rbind (AssembleWithTimestamp 0 t ts a) (feed ps)"

lemmas asm_eval = AssembleWithTimestamp_def NewAssembler_def NewStreamPool_def
  openConnection.simps getConnection_def newConnection_def pool_grow_def initialAllocSize_def
  put_def reset_def zeroConnection_def assembleConn_def invalidSequence_def Add_mod
  insertIntoConn_def pagesFromTCP_def newPageCache_def pc_grow_def pc_next_def
  pages_loop.simps pageBytes_def traverseConn_def pushBetween_def sendToConnection_def
  addContiguous.simps addNextFromConn_def Difference_def uint32Max_def byteSpan_def
  pc_replace_def zeroPage_def zeroReassembly_def skipFlush_def flushOlderConn_def
  flushOlder_loop.simps closeConnection_def pool_remove_def Let_def ex_syn_def ex_seg_def

lemma feed_arun: "arun Q a \<Longrightarrow> \<forall>(t, ts)\<in>set ps. Q 0 t \<Longrightarrow> feed ps a = Inr a' \<Longrightarrow> arun Q a'"
  by (induction ps a rule: feed.induct) (auto simp: rbind_eq_Inr intro: arun.packet)

lemma ex_run:
  "\<exists>a. feed [(ex_syn, 5), (ex_seg 102 [3, 4], 6), (ex_seg 100 [1, 2], 7)] (NewAssembler 0 0) = Inr a \<and>
     conns (connPool a) 0 = Some 1023 \<and>
     log a = [New 0 0,
       Reassembled 0
         [\<lparr>Bytes = [], Skip = 0, Start = True, End = False, Seen = 5\<rparr>,
          \<lparr>Bytes = [], Skip = 0, Start = False, End = False, Seen = 5\<rparr>],
       Reassembled 0
         [\<lparr>Bytes = [1, 2], Skip = 0, Start = False, End = False, Seen = 7\<rparr>,
          \<lparr>Bytes = [3, 4], Skip = 0, Start = False, End = False, Seen = 6\<rparr>]]"
  by (simp add: asm_eval del: upt_rec_numeral)

lemma ex_arun:
  fixes Q :: "nat \<Rightarrow> TCP \<Rightarrow> bool"
  assumes "\<forall>t\<in>{ex_syn, ex_seg 102 [3, 4], ex_seg 100 [1, 2]}. Q 0 t"
  obtains a where "arun Q a" "conns (connPool a) 0 = Some 1023"
    "calls_of 0 (log a) \<noteq> []" "New 0 0 \<in> set (log a)"
    "map Bytes (delivered 0 (log a)) = [[], [], [1, 2], [3, 4]]"
proof -
  obtain a where a: "feed [(ex_syn, 5), (ex_seg 102 [3, 4], 6), (ex_seg 100 [1, 2], 7)] (NewAssembler 0 0) = Inr a"
    "conns (connPool a) 0 = Some 1023"
    "log a = [New 0 0,
       Reassembled 0
         [\<lparr>Bytes = [], Skip = 0, Start = True, End = False, Seen = 5\<rparr>,
          \<lparr>Bytes = [], Skip = 0, Start = False, End = False, Seen = 5\<rparr>],
       Reassembled 0
         [\<lparr>Bytes = [1, 2], Skip = 0, Start = False, End = False, Seen = 7\<rparr>,
          \<lparr>Bytes = [3, 4], Skip = 0, Start = False, End = False, Seen = 6\<rparr>]]"
    using ex_run by blast
  have "arun Q a"
    by (rule feed_arun [OF arun.start _ a(1)]) (use assms in auto)
  with a(2,3) that show thesis by (simp add: delivered_def)
qed

subsection \<open>What the assembler promises\<close>

text \<open>
  C27. No packet and no flush can make the assembler panic or loop, whatever was sent before:
  in every reachable state \<open>AssembleWithTimestamp\<close> returns for every packet (the explicit
  panics "wtf" and "why?" are dead, a nil page is never dereferenced, and the loop that looks
  the connection up ends), and both flushes return when they visit the open connections.
\<close>

theorem assembler_never_fails:
  assumes "arun Q a"
  shows "(\<exists>a'. AssembleWithTimestamp k t ts a = Inr a') \<and>
    (distinct cs \<and> set cs = ran (conns (connPool a)) \<longrightarrow>
       (\<exists>r. FlushOlderThan cs t' a = Inr r) \<and> (\<exists>r. FlushAll cs a = Inr r))"
  using AssembleWithTimestamp_ok [OF arun_ainv [OF assms], of k t ts]
    FlushOlderThan_ok [OF arun_ainv [OF assms], of cs t'] FlushAll_ok [OF arun_ainv [OF assms], of cs]
  by auto

theorem assembler_never_fails_witness:
  "\<exists>a. arun (\<lambda>_ _. True) a \<and> conns (connPool a) 0 = Some 1023 \<and>
     (\<exists>a'. AssembleWithTimestamp (0::nat) (ex_seg 104 [5]) 8 a = Inr a')"
proof (rule ex_arun [of "\<lambda>_ _. True"])
  fix a :: "nat Assembler" assume a: "arun (\<lambda>_ _. True) a" "conns (connPool a) 0 = Some 1023"
  with assembler_never_fails [OF a(1), of 0 "ex_seg 104 [5]" 8 "[]"] show ?thesis by blast
qed simp

text \<open>
  C26. The contract of the \<open>Stream\<close> interface: each stream is made by one call of the
  factory, is then handed non-empty groups of reassemblies, and is told that it is complete
  at most once and after everything else; it has been told exactly when no open connection
  refers to it any more.
\<close>

theorem stream_protocol:
  assumes "arun Q a" "s < streams a"
  shows "\<exists>k rss fin. [] \<notin> set rss \<and>
    calls_of s (log a) =
      New k s # map (Reassembled s) rss @ (if fin then [ReassemblyComplete s] else []) \<and>
    (fin \<longleftrightarrow> \<not> (\<exists>k c. live a k c s))"
proof -
  note inv = arun_ainv [OF assms(1)]
  have nf: "\<not> finished k' s (log a)" if "live a k c s" for k k' c
  proof -
    have "begun k s (log a)" using ainvD(6) [OF inv, of k c] that by (auto simp: live_def)
    then obtain rss where b: "calls_of s (log a) = New k s # map (Reassembled s) rss" by (auto simp: begun_def)
    then have "ReassemblyComplete s \<notin> set (calls_of s (log a))" by auto
    then show ?thesis unfolding finished_def by (auto simp del: calls_of_simps)
  qed
  show ?thesis
  proof (cases "\<exists>k c. live a k c s")
    case True
    then obtain k c where l: "live a k c s" by blast
    then have "begun k s (log a)" using ainvD(6) [OF inv, of k c] by (auto simp: live_def)
    then obtain rss where "[] \<notin> set rss" "calls_of s (log a) = New k s # map (Reassembled s) rss"
      by (auto simp: begun_def)
    with True show ?thesis by (intro exI [of _ k] exI [of _ rss] exI [of _ False]) simp
  next
    case False
    then obtain k where "finished k s (log a)" using inv assms(2) by (auto simp: ainv_def)
    then obtain rss where "[] \<notin> set rss"
      "calls_of s (log a) = New k s # map (Reassembled s) rss @ [ReassemblyComplete s]"
      by (auto simp: finished_def)
    with False show ?thesis by (intro exI [of _ k] exI [of _ rss] exI [of _ True]) simp
  qed
qed

theorem stream_protocol_witness:
  "\<exists>a. arun (\<lambda>_ _. True) a \<and> calls_of 0 (log (a :: nat Assembler)) \<noteq> [] \<and>
     (\<exists>k rss fin. [] \<notin> set rss \<and>
    calls_of 0 (log a) =
      New k 0 # map (Reassembled 0) rss @ (if fin then [ReassemblyComplete 0] else []) \<and>
    (fin \<longleftrightarrow> \<not> (\<exists>k c. live a k c 0)))"
proof (rule ex_arun [of "\<lambda>_ _. True"])
  fix a :: "nat Assembler" assume a: "arun (\<lambda>_ _. True) a" "calls_of 0 (log a) \<noteq> []"
  then have "0 < streams a" using arun_ainv [OF a(1)] by (auto simp: ainv_def)
  with stream_protocol [OF a(1), of 0] a show ?thesis by blast
qed simp

text \<open>
  C39. \<open>FlushAll\<close> closes every connection: it reports their number, leaves none in the pool,
  and every stream that was ever made has been told that it is complete.
\<close>

theorem FlushAll_completes:
  assumes "arun Q a" "distinct cs" "set cs = ran (conns (connPool a))"
  shows "\<exists>a'. FlushAll cs a = Inr (length cs, a') \<and> conns (connPool a') = Map.empty \<and>
    (\<forall>s < streams a'. \<exists>k. finished k s (log a'))"
proof -
  from FlushAll_ok [OF arun_ainv [OF assms(1)] assms(2)] assms(3)
  obtain a' where a': "FlushAll cs a = Inr (length cs, a')" "ainv a'"
    "\<forall>k. conns (connPool a') k = (case conns (connPool a) k of
              None \<Rightarrow> None | Some c \<Rightarrow> if c \<in> set cs then None else Some c)" by blast
  have e: "conns (connPool a') = Map.empty"
    using a'(3) assms(3) by (auto simp: fun_eq_iff ranI split: option.splits)
  moreover have "\<forall>s < streams a'. \<exists>k. finished k s (log a')"
    using a'(2) e by (auto simp: ainv_def live_def)
  ultimately show ?thesis using a'(1) by blast
qed

theorem FlushAll_completes_witness:
  "\<exists>a. arun (\<lambda>_ _. True) a \<and> conns (connPool (a :: nat Assembler)) 0 = Some 1023 \<and>
     (\<exists>cs a'. FlushAll cs a = Inr (length cs, a') \<and> conns (connPool a') = Map.empty \<and>
       (\<forall>s < streams a'. \<exists>k. finished k s (log a')))"
proof (rule ex_arun [of "\<lambda>_ _. True"])
  fix a :: "nat Assembler" assume a: "arun (\<lambda>_ _. True) a" "conns (connPool a) 0 = Some 1023"
  have "ran (conns (connPool a)) \<subseteq> {..<allocated (connPool a)}"
    using ainvD(1) [OF arun_ainv [OF a(1)]] by (auto simp: ran_def)
  then have "finite (ran (conns (connPool a)))" by (rule finite_subset) simp
  then obtain cs where cs: "distinct cs" "set cs = ran (conns (connPool a))"
    using finite_distinct_list by blast
  from FlushAll_completes [OF a(1) this] a show ?thesis by blast
qed simp

text \<open>
  C3. When every packet of a connection carries bytes of one sender's stream \<open>src\<close> and the
  sequence numbers stay below the wrap, then what each stream object is handed, through any
  reordering, loss, overlap and retransmission of packets, any buffer limit and any flush,
  is a run of consecutive pieces of \<open>src\<close>: no byte wrong, none twice, none out of order, and
  whenever bytes are missing between two pieces the \<open>Skip\<close> of the second says how many.
\<close>

theorem delivered_in_order:
  assumes "arun (\<lambda>k t. packet_ok (src k) t) a" "New k s \<in> set (log a)"
  shows "\<exists>p p'. in_order (src k) p (delivered s (log a)) p'"
  using arun_dinv [OF assms(1), of src] assms(2) by (simp add: dinv_def)

theorem delivered_in_order_witness:
  "\<exists>a. map Bytes (delivered 0 (log (a :: nat Assembler))) = [[], [], [1, 2], [3, 4]] \<and>
     (\<exists>p p'. in_order (\<lambda>i. word_of_int (i - 99)) p (delivered 0 (log a)) p')"
proof (rule ex_arun [of "\<lambda>k t. packet_ok (\<lambda>i. word_of_int (i - 99)) t"])
  show "\<forall>t\<in>{ex_syn, ex_seg 102 [3, 4], ex_seg 100 [1, 2]}. packet_ok (\<lambda>i. word_of_int (i - 99)) t"
    by (auto simp: packet_ok_def ex_syn_def ex_seg_def seq_limit_def reads_def less_Suc_eq)
next
  fix a :: "nat Assembler" assume "arun (\<lambda>k t. packet_ok (\<lambda>i. word_of_int (i - 99)) t) a"
    "New 0 0 \<in> set (log a)" "map Bytes (delivered 0 (log a)) = [[], [], [1, 2], [3, 4]]"
  with delivered_in_order [of "\<lambda>_ i. word_of_int (i - 99)" a 0 0]
  show ?thesis by (intro exI [of _ a]) simp
qed

subsection \<open>Where the code departs from its comments\<close>

text \<open>
  A page that comes back from the cache still has the \<open>Skip\<close> of its previous use, although
  \<open>next\<close> is documented to return a clean page: here the bytes 7 and 8 follow the bytes 5 and
  6 without a gap and are handed on with a \<open>Skip\<close> of 2.
\<close>

theorem stale_skip:
  "\<exists>a. rbind (feed [(ex_syn, 5), (ex_seg 102 [3, 4], 5), (ex_seg 99 [0], 7)] (NewAssembler 0 0)) (\<lambda>a.
        rbind (FlushOlderThan [1023] 6 a) (\<lambda>(_, _, a).
        feed [(ex_seg 106 [7, 8], 7), (ex_seg 104 [5, 6], 7)] a)) = Inr a \<and>
     last (log a) = Reassembled 0
       [\<lparr>Bytes = [5, 6], Skip = 0, Start = False, End = False, Seen = 7\<rparr>,
        \<lparr>Bytes = [7, 8], Skip = 2, Start = False, End = False, Seen = 7\<rparr>]"
  by (simp add: asm_eval del: upt_rec_numeral)

text \<open>Across the wrap \<open>Difference\<close> is one less than the distance of the two numbers.\<close>

theorem Difference_wrap:
  "uint32Max - uint32Max div 4 < s \<Longrightarrow> t < uint32Max div 4 \<Longrightarrow>
     Difference s t = t + 2 ^ 32 - s - 1 \<and> Difference uint32Max 0 = 0"
  by (simp add: Difference_def uint32Max_def)

theorem Difference_wrap_witness:
  "Difference 0xFFFFFFF0 0x10 = 0x1F"
  using Difference_wrap [of "0xFFFFFFF0" "0x10"] by (simp add: uint32Max_def)

end
