(* ===== verification/Recorded.thy ===== *)
theory Recorded
  imports Wire "HOL-Library.Multiset"
begin

text \<open>
  Raw and recorded operations (\<open>raw_op.go\<close>, \<open>recorded_op.go\<close>) and the merge of the
  operations of all connections into one sequence: \<open>handleOps\<close> of \<open>mongo_op_handler.go\<close>
  sends them through a heap of bounded size, with the algorithms of Go's
  \<open>container/heap\<close>. The contract of a priority queue is the locale \<open>min_queue\<close>; what the
  merge guarantees is proved in it and interpreted on the heap.
\<close>

subsection \<open>Operations\<close>

record RawOp =
  Header :: MsgHeader
  Body :: bytes

text \<open>
  The \<open>Seen\<close> of a recorded operation is set wherever one is made, so it is no option;
  \<open>PlayAt\<close> and \<open>PlayedAt\<close> are pointers that may be nil.
\<close>

record RecordedOp =
  rawOp :: RawOp
  OpSeen :: gotime
  PlayAt :: "gotime option"
  isEOF :: bool
  SrcEndpoint :: string
  DstEndpoint :: string
  SeenConnectionNum :: int
  PlayedConnectionNum :: int
  PlayedAt :: "gotime option"
  Generation :: int
  Order :: int

definition zeroRawOp :: RawOp where
  "zeroRawOp = \<lparr>Header = zeroHeader, Body = []\<rparr>"

definition zeroRecordedOp :: RecordedOp where
  "zeroRecordedOp = \<lparr>rawOp = zeroRawOp, OpSeen = 0, PlayAt = None, isEOF = False, SrcEndpoint = [],
     DstEndpoint = [], SeenConnectionNum = 0, PlayedConnectionNum = 0, PlayedAt = None,
     Generation = 0, Order = 0\<rparr>"

definition ConnectionString :: "RecordedOp \<Rightarrow> string" where
  "ConnectionString op = SrcEndpoint op @ ''->'' @ DstEndpoint op"

definition ReversedConnectionString :: "RecordedOp \<Rightarrow> string" where
  "ReversedConnectionString op = DstEndpoint op @ ''->'' @ SrcEndpoint op"

text \<open>
  \<open>RawOp.FromReader\<close>: what is left in the reader is returned too, also with an error. A nil
  \<open>Body\<close> is the empty one here: appending to either gives the bytes read.
\<close>

definition RawOp_FromReader :: "RawOp \<Rightarrow> bytes \<Rightarrow> (RawOp \<times> err option) \<times> bytes" where
  "RawOp_FromReader op r =
     (if sint (MessageLength (Header op)) < MsgHeaderLen then ((op, None), r)
      else if sint (MessageLength (Header op)) > MaxMessageSize
      then ((op, Some (Errorf ''wire message size, %v, was greater then the maximum, %v bytes''
                        [sint (MessageLength (Header op)), MaxMessageSize])), r)
      else
        let n = nat (sint (MessageLength (Header op)) - MsgHeaderLen) in
        (case readFull_raw n r of
           ((d, e), r') \<Rightarrow>
             let tempBody = copy_at (replicate n 0) 0 d
             in ((op\<lparr>Body := Body op @ tempBody\<rparr>, e), r')))"

subsection \<open>The heap of \<open>container/heap\<close>\<close>

type_synonym 'a heapslice = "'a list"

definition swap :: "'a list \<Rightarrow> nat \<Rightarrow> nat \<Rightarrow> 'a list" where
  "swap h i j = h[i := h ! j, j := h ! i]"

text \<open>
  Sift up from \<open>j\<close>, sift down from \<open>i\<close> among the first \<open>n\<close> elements; \<open>lt\<close> is the \<open>Less\<close> of
  the elements.
\<close>

function up :: "('a \<Rightarrow> 'a \<Rightarrow> bool) \<Rightarrow> 'a list \<Rightarrow> nat \<Rightarrow> 'a list" where
  "up lt h j =
     (let i = (j - 1) div 2 in
      if i = j \<or> \<not> lt (h ! j) (h ! i) then h
      else up lt (swap h i j) i)"
  by pat_completeness auto
termination
  by (relation "measure (\<lambda>(_, _, j). j)") auto

function down :: "('a \<Rightarrow> 'a \<Rightarrow> bool) \<Rightarrow> 'a list \<Rightarrow> nat \<Rightarrow> nat \<Rightarrow> 'a list" where
  "down lt h i n =
     (let j1 = 2 * i + 1 in
      if j1 \<ge> n then h
      else
        let j2 = j1 + 1;
            j = (if j2 < n \<and> lt (h ! j2) (h ! j1) then j2 else j1)
        in if \<not> lt (h ! j) (h ! i) then h
           else down lt (swap h i j) j n)"
  by pat_completeness auto
termination
  by (relation "measure (\<lambda>(_, _, i, n). n - i)") auto

declare up.simps [simp del] down.simps [simp del]

definition heap_Push :: "('a \<Rightarrow> 'a \<Rightarrow> bool) \<Rightarrow> 'a \<Rightarrow> 'a list \<Rightarrow> 'a list" where
  "heap_Push lt x h = (let h = h @ [x] in up lt h (length h - 1))"

definition heap_Pop :: "('a \<Rightarrow> 'a \<Rightarrow> bool) \<Rightarrow> 'a list \<Rightarrow> 'a \<times> 'a list" where
  "heap_Pop lt h =
     (let n = length h - 1;
          h = down lt (swap h 0 n) 0 n
      in (last h, butlast h))"

lemma length_swap [simp]: "length (swap h i j) = length h"
  by (simp add: swap_def)

lemma mset_swap [simp]: "i < length h \<Longrightarrow> j < length h \<Longrightarrow> mset (swap h i j) = mset h"
  by (simp add: swap_def mset_swap)

lemma nth_swap:
  "i < length h \<Longrightarrow> j < length h \<Longrightarrow> m < length h \<Longrightarrow>
     swap h i j ! m = (if m = j then h ! i else if m = i then h ! j else h ! m)"
  by (auto simp: swap_def nth_list_update)

lemma up_mset: "j < length h \<Longrightarrow> mset (up lt h j) = mset h \<and> length (up lt h j) = length h"
proof (induction lt h j rule: up.induct)
  case (1 lt h j)
  then show ?case by (subst (1 2) up.simps) (auto simp: Let_def)
qed

lemma down_mset:
  "n \<le> length h \<Longrightarrow> mset (down lt h i n) = mset h \<and> length (down lt h i n) = length h \<and>
     (\<forall>m. n \<le> m \<longrightarrow> m < length h \<longrightarrow> down lt h i n ! m = h ! m)"
proof (induction lt h i n rule: down.induct)
  case (1 lt h i n)
  show ?case
  proof (cases "2 * i + 1 \<ge> n")
    case True
    then show ?thesis by (subst (1 2 3) down.simps) simp
  next
    case F: False
    define j where "j = (if 2 * i + 1 + 1 < n \<and> lt (h ! (2 * i + 1 + 1)) (h ! (2 * i + 1)) then 2 * i + 1 + 1 else 2 * i + 1)"
    have j: "j < n" "i < n" "i < j" using F by (auto simp: j_def)
    have d: "down lt h i n = (if \<not> lt (h ! j) (h ! i) then h else down lt (swap h i j) j n)"
      using F by (subst down.simps) (simp add: Let_def j_def)
    show ?thesis
    proof (cases "lt (h ! j) (h ! i)")
      case True
      have "mset (down lt (swap h i j) j n) = mset (swap h i j) \<and> length (down lt (swap h i j) j n) = length (swap h i j) \<and>
        (\<forall>m. n \<le> m \<longrightarrow> m < length (swap h i j) \<longrightarrow> down lt (swap h i j) j n ! m = swap h i j ! m)"
        using F True "1.prems" by (intro "1.IH" [OF refl F refl j_def]) auto
      then show ?thesis using d True j "1.prems" by (auto simp: nth_swap)
    qed (simp add: d)
  qed
qed

text \<open>The order on the elements is that of a key.\<close>

definition heap_on :: "('a \<Rightarrow> 'b :: linorder) \<Rightarrow> 'a list \<Rightarrow> nat \<Rightarrow> bool" where
  "heap_on key h n \<longleftrightarrow> (\<forall>m. 0 < m \<and> m < n \<longrightarrow> key (h ! ((m - 1) div 2)) \<le> key (h ! m))"

lemma heap_on_min: "heap_on key h n \<Longrightarrow> m < n \<Longrightarrow> key (h ! 0) \<le> key (h ! m)"
proof (induction m rule: less_induct)
  case (less m)
  show ?case
  proof (cases "m = 0")
    case False
    then have "key (h ! 0) \<le> key (h ! ((m - 1) div 2))" using less by auto
    also have "\<dots> \<le> key (h ! m)" using less.prems False by (auto simp: heap_on_def)
    finally show ?thesis .
  qed simp
qed

lemma up_heap:
  fixes key :: "'a \<Rightarrow> 'b :: linorder"
  assumes lt: "\<And>x y. lt x y \<longleftrightarrow> key x < key y"
  shows "j < length h \<Longrightarrow>
    \<forall>m. 0 < m \<and> m < length h \<and> m \<noteq> j \<longrightarrow> key (h ! ((m - 1) div 2)) \<le> key (h ! m) \<Longrightarrow>
    \<forall>m. 0 < m \<and> m < length h \<and> (m - 1) div 2 = j \<and> 0 < j \<longrightarrow> key (h ! ((j - 1) div 2)) \<le> key (h ! m) \<Longrightarrow>
    heap_on key (up lt h j) (length h)"
proof (induction j arbitrary: h rule: less_induct)
  case (less j h)
  obtain i where i: "i = (j - 1) div 2" by blast
  show ?case
  proof (cases "i = j \<or> \<not> lt (h ! j) (h ! i)")
    case True
    then have "up lt h j = h" by (subst up.simps) (simp add: Let_def i)
    moreover have "j = 0 \<or> key (h ! i) \<le> key (h ! j)" using True i by (auto simp: lt)
    ultimately show ?thesis
      using less.prems(2) i unfolding heap_on_def by (metis less_irrefl)
  next
    case False
    then have j: "i < j" "i < length h" using less.prems(1) i by auto
    have k: "key (h ! j) < key (h ! i)" using False by (simp add: lt)
    have u: "up lt h j = up lt (swap h i j) i"
      using False by (subst up.simps) (simp add: Let_def i)
    have nth: "swap h i j ! m = (if m = j then h ! i else if m = i then h ! j else h ! m)"
      if "m < length h" for m using that j less.prems(1) by (simp add: nth_swap)
    have "heap_on key (up lt (swap h i j) i) (length (swap h i j))"
    proof (rule less.IH [OF j(1)])
      show "i < length (swap h i j)" using j by simp
    next
      show "\<forall>m. 0 < m \<and> m < length (swap h i j) \<and> m \<noteq> i \<longrightarrow>
        key (swap h i j ! ((m - 1) div 2)) \<le> key (swap h i j ! m)"
      proof (intro allI impI)
        fix m assume m: "0 < m \<and> m < length (swap h i j) \<and> m \<noteq> i"
        then have p: "(m - 1) div 2 < length h" "m < length h" by auto
        consider "m = j" | "m \<noteq> j" "(m - 1) div 2 = j" | "m \<noteq> j" "(m - 1) div 2 = i"
          | "m \<noteq> j" "(m - 1) div 2 \<noteq> j" "(m - 1) div 2 \<noteq> i" by blast
        then show "key (swap h i j ! ((m - 1) div 2)) \<le> key (swap h i j ! m)"
        proof cases
          case 1
          then have "(m - 1) div 2 = i" using i by simp
          then show ?thesis using 1 k j less.prems(1) by (simp add: nth)
        next
          case 2
          have "key (h ! i) \<le> key (h ! m)" using less.prems(3) [rule_format, of m] m 2 j i by simp
          then show ?thesis using 2 m p less.prems(1) by (simp add: nth)
        next
          case 3
          have "key (h ! i) \<le> key (h ! m)" using less.prems(2) m 3 p by metis
          then show ?thesis using 3 k m p j by (simp add: nth)
        next
          case 4
          have "key (h ! ((m - 1) div 2)) \<le> key (h ! m)" using less.prems(2) m 4 p by blast
          then show ?thesis using 4 m p by (simp add: nth)
        qed
      qed
    next
      show "\<forall>m. 0 < m \<and> m < length (swap h i j) \<and> (m - 1) div 2 = i \<and> 0 < i \<longrightarrow>
        key (swap h i j ! ((i - 1) div 2)) \<le> key (swap h i j ! m)"
      proof (intro allI impI)
        fix m assume m: "0 < m \<and> m < length (swap h i j) \<and> (m - 1) div 2 = i \<and> 0 < i"
        let ?g = "(i - 1) div 2"
        have "0 < i" using m by blast
        moreover have "?g \<le> i - 1" by (rule div_le_dividend)
        ultimately have g: "?g < i" by linarith
        have gi: "key (h ! ?g) \<le> key (h ! i)" using less.prems(2) m j by auto
        have "key (h ! i) \<le> key (h ! m)" if "m \<noteq> j" using less.prems(2) m that by (metis length_swap)
        then show "key (swap h i j ! ?g) \<le> key (swap h i j ! m)"
          using gi g m j by (auto simp: nth)
      qed
    qed
    then show ?thesis by (simp add: u)
  qed
qed

lemma down_heap:
  fixes key :: "'a \<Rightarrow> 'b :: linorder"
  assumes lt: "\<And>x y. lt x y \<longleftrightarrow> key x < key y"
  shows "n \<le> length h \<Longrightarrow>
    \<forall>m. 0 < m \<and> m < n \<and> (m - 1) div 2 \<noteq> i \<longrightarrow> key (h ! ((m - 1) div 2)) \<le> key (h ! m) \<Longrightarrow>
    \<forall>m. 0 < m \<and> m < n \<and> (m - 1) div 2 = i \<and> 0 < i \<longrightarrow> key (h ! ((i - 1) div 2)) \<le> key (h ! m) \<Longrightarrow>
    heap_on key (down lt h i n) n"
proof (induction "n - i" arbitrary: h i rule: less_induct)
  case (less i h)
  show ?case
  proof (cases "2 * i + 1 \<ge> n")
    case True
    then have "down lt h i n = h" by (subst down.simps) simp
    moreover have "(m - 1) div 2 \<noteq> i" if "0 < m" "m < n" for m
      using True that by auto
    ultimately show ?thesis using less.prems(2) by (simp add: heap_on_def)
  next
    case F: False
    define j where "j = (if 2 * i + 1 + 1 < n \<and> lt (h ! (2 * i + 1 + 1)) (h ! (2 * i + 1)) then 2 * i + 1 + 1 else 2 * i + 1)"
    have j: "j < n" "i < n" "i < j" "(j - 1) div 2 = i" "j < length h" "i < length h"
      using F less.prems(1) by (auto simp: j_def)
    have small: "key (h ! j) \<le> key (h ! m)" if "0 < m" "m < n" "(m - 1) div 2 = i" for m
    proof -
      have "m = 2 * i + 1 \<or> m = 2 * i + 1 + 1" using that by auto
      then show ?thesis using that by (auto simp: j_def lt)
    qed
    have d: "down lt h i n = (if \<not> lt (h ! j) (h ! i) then h else down lt (swap h i j) j n)"
      using F by (subst down.simps) (simp add: Let_def j_def)
    show ?thesis
    proof (cases "lt (h ! j) (h ! i)")
      case False
      then have le: "key (h ! i) \<le> key (h ! j)" by (simp add: lt)
      have "key (h ! ((m - 1) div 2)) \<le> key (h ! m)" if m: "0 < m" "m < n" for m
      proof (cases "(m - 1) div 2 = i")
        case True
        with le small [OF m True] show ?thesis by simp
      next
        case False
        with less.prems(2) m show ?thesis by blast
      qed
      then show ?thesis using d False by (simp add: heap_on_def)
    next
      case True
      have k: "key (h ! j) < key (h ! i)" using True by (simp add: lt)
      have nth: "swap h i j ! m = (if m = j then h ! i else if m = i then h ! j else h ! m)"
        if "m < n" for m using that j less.prems(1) by (simp add: nth_swap)
      have "heap_on key (down lt (swap h i j) j n) n"
      proof (rule less.hyps)
        show "n - j < n - i" using j by simp
        show "n \<le> length (swap h i j)" using less.prems(1) by simp
        show "\<forall>m. 0 < m \<and> m < n \<and> (m - 1) div 2 \<noteq> j \<longrightarrow>
          key (swap h i j ! ((m - 1) div 2)) \<le> key (swap h i j ! m)"
        proof (intro allI impI)
          fix m assume m: "0 < m \<and> m < n \<and> (m - 1) div 2 \<noteq> j"
          then have p: "(m - 1) div 2 < n" "m < n" "0 < m" by auto
          consider "(m - 1) div 2 = i" | "(m - 1) div 2 \<noteq> i" "m = i"
            | "(m - 1) div 2 \<noteq> i" "m \<noteq> i" by blast
          then show "key (swap h i j ! ((m - 1) div 2)) \<le> key (swap h i j ! m)"
          proof cases
            case 1
            then have "key (h ! j) \<le> key (h ! m)" "m \<noteq> i" using small p by auto
            then show ?thesis using 1 j less_imp_le [OF k] p by (simp add: nth)
          next
            case 2
            have "key (h ! ((i - 1) div 2)) \<le> key (h ! j)"
              using less.prems(3) [rule_format, of j] j p 2 by simp
            then show ?thesis using 2 j m p by (simp add: nth)
          next
            case 3
            then have "m \<noteq> j" using j by blast
            moreover have "key (h ! ((m - 1) div 2)) \<le> key (h ! m)" using less.prems(2) p 3 by blast
            ultimately show ?thesis using 3 m p by (simp add: nth)
          qed
        qed
        show "\<forall>m. 0 < m \<and> m < n \<and> (m - 1) div 2 = j \<and> 0 < j \<longrightarrow>
          key (swap h i j ! ((j - 1) div 2)) \<le> key (swap h i j ! m)"
        proof (intro allI impI)
          fix m assume m: "0 < m \<and> m < n \<and> (m - 1) div 2 = j \<and> 0 < j"
          have "key (h ! j) \<le> key (h ! m)" using less.prems(2) m j(3) by (metis less_irrefl)
          moreover have "j \<le> m - 1" using m div_le_dividend [of "m - 1" 2] by linarith
          then have "m \<noteq> i" "m \<noteq> j" using m j(3) by auto
          ultimately show "key (swap h i j ! ((j - 1) div 2)) \<le> key (swap h i j ! m)"
            using j m by (simp add: nth)
        qed
      qed
      with d True show ?thesis by simp
    qed
  qed
qed

subsection \<open>A queue that gives out a smallest element\<close>

text \<open>Reading: send each element through the queue, popping one whenever it holds \<open>cap\<close>; then empty it.\<close>

fun merge_loop ::
  "('a \<Rightarrow> 'q \<Rightarrow> 'q) \<Rightarrow> ('q \<Rightarrow> 'a \<times> 'q) \<Rightarrow> ('q \<Rightarrow> nat) \<Rightarrow> nat \<Rightarrow> 'a list \<Rightarrow> 'q \<Rightarrow> 'a list \<times> 'q" where
  "merge_loop push pop len cap [] q = ([], q)"
| "merge_loop push pop len cap (x # xs) q =
     (let q = push x q in
      if len q = cap
      then let (y, q) = pop q; (ys, q) = merge_loop push pop len cap xs q in (y # ys, q)
      else merge_loop push pop len cap xs q)"

fun drain :: "('q \<Rightarrow> 'a \<times> 'q) \<Rightarrow> nat \<Rightarrow> 'q \<Rightarrow> 'a list" where
  "drain pop 0 q = []"
| "drain pop (Suc n) q = (let (y, q) = pop q in y # drain pop n q)"

definition merge ::
  "('a \<Rightarrow> 'q \<Rightarrow> 'q) \<Rightarrow> ('q \<Rightarrow> 'a \<times> 'q) \<Rightarrow> ('q \<Rightarrow> nat) \<Rightarrow> nat \<Rightarrow> 'a list \<Rightarrow> 'q \<Rightarrow> 'a list" where
  "merge push pop len cap xs q =
     (let (ys, q) = merge_loop push pop len cap xs q in ys @ drain pop (len q) q)"

text \<open>
  An input in which every element comes fewer than \<open>cap\<close> places after any element that is
  larger.
\<close>

definition late_by :: "('a \<Rightarrow> 'b :: linorder) \<Rightarrow> nat \<Rightarrow> 'a list \<Rightarrow> bool" where
  "late_by key cap xs \<longleftrightarrow> (\<forall>i j. i + cap \<le> j \<and> j < length xs \<longrightarrow> key (xs ! i) \<le> key (xs ! j))"

locale min_queue =
  fixes key :: "'a \<Rightarrow> 'b :: linorder"
    and push :: "'a \<Rightarrow> 'q \<Rightarrow> 'q"
    and pop :: "'q \<Rightarrow> 'a \<times> 'q"
    and len :: "'q \<Rightarrow> nat"
    and inv :: "'q \<Rightarrow> bool"
    and elements :: "'q \<Rightarrow> 'a multiset"
  assumes push_law: "inv q \<Longrightarrow> inv (push x q) \<and> elements (push x q) = add_mset x (elements q)"
    and pop_law: "inv q \<Longrightarrow> elements q \<noteq> {#} \<Longrightarrow> pop q = (y, q') \<Longrightarrow>
      inv q' \<and> elements q = add_mset y (elements q') \<and> (\<forall>x\<in>#elements q'. key y \<le> key x)"
    and len_law: "inv q \<Longrightarrow> len q = size (elements q)"
begin

lemma drain_sorted:
  "inv q \<Longrightarrow> n = size (elements q) \<Longrightarrow>
     mset (drain pop n q) = elements q \<and> sorted (map key (drain pop n q))"
proof (induction n arbitrary: q)
  case (Suc n)
  obtain y q' where p: "pop q = (y, q')" by (cases "pop q")
  have "elements q \<noteq> {#}" using Suc.prems(2) by auto
  note l = pop_law [OF Suc.prems(1) this p]
  then have "mset (drain pop n q') = elements q' \<and> sorted (map key (drain pop n q'))"
    using Suc by (intro Suc.IH) auto
  moreover from this have "set (drain pop n q') = set_mset (elements q')"
    by (metis set_mset_mset)
  ultimately show ?case using l p by auto
qed simp

lemma merge_loop_mset:
  "inv q \<Longrightarrow> merge_loop push pop len cap xs q = (ys, q') \<Longrightarrow>
     inv q' \<and> mset ys + elements q' = mset xs + elements q"
proof (induction xs arbitrary: q ys)
  case (Cons x xs)
  note pl = push_law [OF Cons.prems(1), of x]
  show ?case
  proof (cases "len (push x q) = cap")
    case True
    obtain y q1 where p: "pop (push x q) = (y, q1)" by (cases "pop (push x q)")
    obtain zs where m: "merge_loop push pop len cap xs q1 = (zs, q')" and ys: "ys = y # zs"
      using Cons.prems(2) True p by (auto simp: Let_def split: prod.splits)
    have l: "inv q1 \<and> elements (push x q) = add_mset y (elements q1)"
      using pop_law [OF _ _ p] pl by auto
    with Cons.IH [OF _ m] pl ys show ?thesis by auto
  next
    case False
    with Cons.prems(2) have "merge_loop push pop len cap xs (push x q) = (ys, q')" by (simp add: Let_def)
    with Cons.IH [OF _ this] pl show ?thesis by auto
  qed
qed simp

lemma merge_mset: "inv q \<Longrightarrow> mset (merge push pop len cap xs q) = mset xs + elements q"
proof -
  assume q: "inv q"
  obtain ys q' where m: "merge_loop push pop len cap xs q = (ys, q')" by (cases "merge_loop push pop len cap xs q")
  from merge_loop_mset [OF q m] drain_sorted [of q' "len q'"] len_law [of q'] show ?thesis
    by (simp add: merge_def m)
qed

text \<open>
  While it runs the queue holds \<open>cap - 1\<close> of the elements read, or all of them if there
  are fewer; so it holds one of those read at least \<open>cap\<close> places before what is still to
  come.
\<close>

lemma old_element:
  assumes "e \<subseteq># mset zs" "size e = cap" "cap \<le> length zs" "1 \<le> cap"
  shows "\<exists>i. i + cap \<le> length zs \<and> zs ! i \<in># e"
proof (rule ccontr)
  let ?k = "length zs - cap + 1"
  assume "\<not> ?thesis"
  then have none: "zs ! i \<notin># e" if "i < ?k" for i using that assms(3) by auto
  have disj: "set (take ?k zs) \<inter> set_mset e = {}"
  proof -
    have "z \<notin># e" if "z \<in> set (take ?k zs)" for z
      using that none assms(3) by (auto simp: in_set_conv_nth)
    then show ?thesis by auto
  qed
  have "count e z \<le> count (mset (drop ?k zs)) z" for z
  proof (cases "z \<in># e")
    case True
    with disj have "z \<notin># mset (take ?k zs)" by auto
    then have "count (mset (take ?k zs)) z = 0" by (rule count_eq_zero_iff [THEN iffD2])
    moreover have "mset zs = mset (take ?k zs) + mset (drop ?k zs)"
      by (metis append_take_drop_id mset_append)
    then have "count (mset zs) z = count (mset (take ?k zs)) z + count (mset (drop ?k zs)) z"
      by (simp only: count_union)
    ultimately show ?thesis using mset_subset_eq_count [OF assms(1), of z] by linarith
  qed (simp add: not_in_iff)
  then have "e \<subseteq># mset (drop ?k zs)" by (simp add: subseteq_mset_def)
  then have "size e \<le> length (drop ?k zs)" by (metis size_mset size_mset_mono)
  then show False using assms by simp
qed

lemma merge_sorted:
  assumes "1 \<le> cap"
  shows "inv q \<Longrightarrow> elements q \<subseteq># mset pre \<Longrightarrow> size (elements q) = min (length pre) (cap - 1) \<Longrightarrow>
    late_by key cap (pre @ xs) \<Longrightarrow> sorted (map key (merge push pop len cap xs q))"
proof (induction xs arbitrary: q pre)
  case Nil
  then show ?case using drain_sorted [of q "len q"] len_law [of q] by (simp add: merge_def)
next
  case (Cons x xs)
  note pl = push_law [OF Cons.prems(1), of x]
  have sz: "size (elements (push x q)) = min (length pre) (cap - 1) + 1"
    using pl Cons.prems(3) by simp
  have sub: "elements (push x q) \<subseteq># mset (pre @ [x])" using pl Cons.prems(2) by simp
  have late: "late_by key cap ((pre @ [x]) @ xs)" using Cons.prems(4) by simp
  show ?case
  proof (cases "len (push x q) = cap")
    case True
    then have full: "size (elements (push x q)) = cap" using len_law pl by simp
    then have pre: "cap \<le> length (pre @ [x])" using sz by simp
    obtain y q1 where p: "pop (push x q) = (y, q1)" by (cases "pop (push x q)")
    have l: "inv q1" "elements (push x q) = add_mset y (elements q1)" "\<forall>z\<in>#elements q1. key y \<le> key z"
      using pop_law [OF _ _ p] pl by auto
    have m: "merge push pop len cap (x # xs) q = y # merge push pop len cap xs q1"
      using True p by (simp add: merge_def Let_def split: prod.splits)
    obtain i where i: "i + cap \<le> length (pre @ [x])" "(pre @ [x]) ! i \<in># elements (push x q)"
      using old_element [OF sub full pre assms] by blast
    have "key y \<le> key z" if zx: "z \<in> set xs" for z
    proof -
      obtain j where j: "j < length xs" "z = xs ! j" using zx by (metis in_set_conv_nth)
      have il: "i < length (pre @ [x])" using i(1) assms by linarith
      have "(pre @ [x]) ! i = y \<or> (pre @ [x]) ! i \<in># elements q1"
        using i(2) unfolding l(2) by (simp only: set_mset_add_mset_insert insert_iff)
      then have "key y \<le> key ((pre @ [x]) ! i)" using l(3) by blast
      also have "(pre @ [x]) ! i = ((pre @ [x]) @ xs) ! i" using il by (metis nth_append)
      also have "key \<dots> \<le> key (((pre @ [x]) @ xs) ! (length (pre @ [x]) + j))"
        by (rule late [unfolded late_by_def, rule_format]) (use i(1) j(1) in simp)
      also have "((pre @ [x]) @ xs) ! (length (pre @ [x]) + j) = z" using j(2) by (simp only: nth_append_length_plus)
      finally show ?thesis .
    qed
    then have "\<forall>z\<in>set (merge push pop len cap xs q1). key y \<le> key z"
      using merge_mset [OF l(1), of cap xs] l(3)
      by (metis UnE set_mset_mset set_mset_union)
    moreover have "sorted (map key (merge push pop len cap xs q1))"
    proof (rule Cons.IH [OF l(1) _ _ late])
      show "elements q1 \<subseteq># mset (pre @ [x])"
        using sub l(2) by (metis mset_subset_eq_insertD subset_mset.less_imp_le)
      show "size (elements q1) = min (length (pre @ [x])) (cap - 1)"
        using full l(2) pre by simp
    qed
    ultimately show ?thesis by (simp add: m)
  next
    case False
    then have "min (length pre) (cap - 1) + 1 \<noteq> cap" using len_law pl sz by metis
    then have lt: "length pre < cap - 1" using assms by (auto simp: min_def split: if_splits)
    have "merge push pop len cap (x # xs) q = merge push pop len cap xs (push x q)"
      using False by (simp add: merge_def)
    moreover have "sorted (map key (merge push pop len cap xs (push x q)))"
      using pl sz lt by (intro Cons.IH [OF _ sub _ late]) auto
    ultimately show ?thesis by simp
  qed
qed

end

subsection \<open>The merge of the recorded operations\<close>

definition Less :: "RecordedOp \<Rightarrow> RecordedOp \<Rightarrow> bool" where
  "Less a b \<longleftrightarrow> OpSeen a < OpSeen b"

lemma length_heap_Pop: "length (snd (heap_Pop lt h)) = length h - 1"
  using down_mset [of "length h - 1" "swap h 0 (length h - 1)" lt 0] by (simp add: heap_Pop_def Let_def)

text \<open>
  \<open>handleOps\<close>: the operations in the order in which they arrive on the channel and the
  capacity of the heap's slice give the operations in the order in which they are sent on,
  each with its number in \<open>Order\<close>. First the loop while the channel is open, then the loop
  that empties the heap.
\<close>

fun handleOps_loop ::
  "nat \<Rightarrow> RecordedOp list \<Rightarrow> RecordedOp list \<Rightarrow> int \<Rightarrow> RecordedOp list \<times> RecordedOp list \<times> int" where
  "handleOps_loop cap [] h counter = ([], h, counter)"
| "handleOps_loop cap (op # ops) h counter =
     (let h = heap_Push Less op h in
      if length h = cap
      then
        let (nextOp, h) = heap_Pop Less h;
            counter = counter + 1;
            (out, h, c) = handleOps_loop cap ops h counter
        in (nextOp\<lparr>Order := counter\<rparr> # out, h, c)
      else handleOps_loop cap ops h counter)"

function handleOps_drain :: "RecordedOp list \<Rightarrow> int \<Rightarrow> RecordedOp list" where
  "handleOps_drain h counter =
     (if length h > 0
      then
        let (nextOp, h) = heap_Pop Less h;
            counter = counter + 1
        in nextOp\<lparr>Order := counter\<rparr> # handleOps_drain h counter
      else [])"
  by pat_completeness auto
termination
  by (relation "measure (\<lambda>(h, _). length h)") (auto simp: length_heap_Pop prod_eq_iff)

declare handleOps_drain.simps [simp del]

definition handleOps :: "nat \<Rightarrow> RecordedOp list \<Rightarrow> RecordedOp list" where
  "handleOps cap ops =
     (let (out, h, counter) = handleOps_loop cap ops [] 0 in out @ handleOps_drain h counter)"

definition opHeap_inv :: "RecordedOp list \<Rightarrow> bool" where
  "opHeap_inv h \<longleftrightarrow> heap_on OpSeen h (length h)"

lemma heap_Push_law: "opHeap_inv h \<Longrightarrow> opHeap_inv (heap_Push Less x h) \<and> mset (heap_Push Less x h) = add_mset x (mset h)"
proof -
  assume h: "opHeap_inv h"
  have "heap_on OpSeen (up Less (h @ [x]) (length h)) (length (h @ [x]))"
  proof (rule up_heap)
    show "\<forall>m. 0 < m \<and> m < length (h @ [x]) \<and> m \<noteq> length h \<longrightarrow>
        OpSeen ((h @ [x]) ! ((m - 1) div 2)) \<le> OpSeen ((h @ [x]) ! m)"
      using h by (auto simp: opHeap_inv_def heap_on_def nth_append)
    show "\<forall>m. 0 < m \<and> m < length (h @ [x]) \<and> (m - 1) div 2 = length h \<and> 0 < length h \<longrightarrow>
        OpSeen ((h @ [x]) ! ((length h - 1) div 2)) \<le> OpSeen ((h @ [x]) ! m)" by auto
  qed (simp_all add: Less_def)
  then show ?thesis
    using up_mset [of "length h" "h @ [x]" Less] by (simp add: heap_Push_def opHeap_inv_def)
qed

lemma heap_Pop_law:
  assumes h: "opHeap_inv h" "h \<noteq> []" and p: "heap_Pop Less h = (y, h')"
  shows "opHeap_inv h' \<and> mset h = add_mset y (mset h') \<and> (\<forall>x\<in>#mset h'. OpSeen y \<le> OpSeen x)"
proof -
  let ?n = "length h - 1"
  let ?s = "swap h 0 ?n"
  let ?d = "down Less ?s 0 ?n"
  have n: "?n < length h" "0 < length h" using h(2) by auto
  have e: "y = last ?d" "h' = butlast ?d" using p by (simp_all add: heap_Pop_def Let_def)
  have D: "mset ?d = mset h" "length ?d = length h" "?d ! ?n = ?s ! ?n"
    using down_mset [of ?n ?s Less 0] n mset_swap [of 0 h ?n] by auto
  have ne: "?d \<noteq> []" using D(2) n by auto
  have "last ?d = ?d ! ?n" using ne D(2) by (simp add: last_conv_nth)
  then have y: "y = h ! 0" using D(3) n by (simp add: e nth_swap)
  have ms: "mset h = add_mset y (mset h')"
    using ne D(1) by (metis add_mset_add_single append_butlast_last_id e mset.simps mset_append union_commute)
  have "heap_on OpSeen ?d ?n"
  proof (rule down_heap)
    show "\<forall>m. 0 < m \<and> m < ?n \<and> (m - 1) div 2 \<noteq> 0 \<longrightarrow> OpSeen (?s ! ((m - 1) div 2)) \<le> OpSeen (?s ! m)"
    proof (intro allI impI)
      fix m assume m: "0 < m \<and> m < ?n \<and> (m - 1) div 2 \<noteq> 0"
      moreover have "(m - 1) div 2 < ?n" using m by auto
      ultimately have "?s ! m = h ! m" "?s ! ((m - 1) div 2) = h ! ((m - 1) div 2)"
        using n by (auto simp: nth_swap)
      then show "OpSeen (?s ! ((m - 1) div 2)) \<le> OpSeen (?s ! m)"
        using h(1) m by (auto simp: opHeap_inv_def heap_on_def)
    qed
  qed (use n in \<open>auto simp: Less_def\<close>)
  then have "opHeap_inv h'"
    using D(2) by (auto simp: opHeap_inv_def heap_on_def e nth_butlast)
  moreover have "OpSeen y \<le> OpSeen x" if "x \<in># mset h'" for x
  proof -
    have "x \<in># mset h" using ms that by simp
    then obtain m where "m < length h" "x = h ! m" by (metis in_set_conv_nth set_mset_mset)
    then show ?thesis using heap_on_min [of OpSeen h "length h" m] h(1) y by (simp add: opHeap_inv_def)
  qed
  ultimately show ?thesis using ms by blast
qed

interpretation opHeap: min_queue OpSeen "heap_Push Less" "heap_Pop Less" length opHeap_inv mset
  by unfold_locales (use heap_Push_law heap_Pop_law in \<open>auto simp: size_mset\<close>)

text \<open>The operations numbered in order.\<close>

fun number :: "int \<Rightarrow> RecordedOp list \<Rightarrow> RecordedOp list" where
  "number c [] = []"
| "number c (op # ops) = op\<lparr>Order := c + 1\<rparr> # number (c + 1) ops"

lemma number_append: "number c (xs @ ys) = number c xs @ number (c + int (length xs)) ys"
  by (induction xs arbitrary: c) (simp_all add: algebra_simps)

lemma handleOps_loop_merge:
  "handleOps_loop cap ops h c =
     (let (ys, h') = merge_loop (heap_Push Less) (heap_Pop Less) length cap ops h
      in (number c ys, h', c + int (length ys)))"
  by (induction ops arbitrary: h c) (auto simp: Let_def algebra_simps split: prod.splits)

lemma handleOps_drain_merge: "handleOps_drain h c = number c (drain (heap_Pop Less) (length h) h)"
proof (induction "length h" arbitrary: h c)
  case 0
  then show ?case by (simp add: handleOps_drain.simps)
next
  case (Suc n)
  obtain y h' where p: "heap_Pop Less h = (y, h')" by (cases "heap_Pop Less h")
  have "h \<noteq> []" using Suc.hyps(2) by auto
  then have "length h' = n" using length_heap_Pop [of Less h] Suc.hyps(2) p by simp
  with Suc.hyps(1) [of h'] Suc.hyps(2) [symmetric] p show ?case
    by (subst handleOps_drain.simps) (simp add: Let_def)
qed

lemma handleOps_merge:
  "handleOps cap ops = number 0 (merge (heap_Push Less) (heap_Pop Less) length cap ops [])"
  by (simp add: handleOps_def merge_def handleOps_loop_merge handleOps_drain_merge number_append
      Let_def split: prod.splits)

text \<open>
  C16. \<open>handleOps\<close> loses and invents no operation, numbers what it sends 1, 2, 3, ..., and
  sends the operations in the order of their times whenever each of them arrives fewer than
  \<open>heapBufSize\<close> places after any operation with a later time.
\<close>

theorem handleOps_sorts:
  assumes "1 \<le> cap"
  shows "\<exists>xs. handleOps cap ops = number 0 xs \<and> mset xs = mset ops \<and>
    (late_by OpSeen cap ops \<longrightarrow> sorted (map OpSeen xs))"
proof -
  have "opHeap_inv []" by (simp add: opHeap_inv_def heap_on_def)
  then show ?thesis
    using opHeap.merge_mset [of "[]" cap ops] opHeap.merge_sorted [OF assms, of "[]" "[]" ops]
    by (auto simp: handleOps_merge)
qed

theorem handleOps_sorts_witness:
  "late_by OpSeen 2 [zeroRecordedOp\<lparr>OpSeen := 7\<rparr>, zeroRecordedOp\<lparr>OpSeen := 5\<rparr>, zeroRecordedOp\<lparr>OpSeen := 9\<rparr>] \<and>
   (\<exists>xs. handleOps 2 [zeroRecordedOp\<lparr>OpSeen := 7\<rparr>, zeroRecordedOp\<lparr>OpSeen := 5\<rparr>, zeroRecordedOp\<lparr>OpSeen := 9\<rparr>] = number 0 xs \<and>
      sorted (map OpSeen xs))"
proof -
  have l: "late_by OpSeen 2 [zeroRecordedOp\<lparr>OpSeen := 7\<rparr>, zeroRecordedOp\<lparr>OpSeen := 5\<rparr>, zeroRecordedOp\<lparr>OpSeen := 9\<rparr>]"
    by (auto simp: late_by_def nth_Cons split: nat.splits)
  then show ?thesis
    using handleOps_sorts [of 2 "[zeroRecordedOp\<lparr>OpSeen := 7\<rparr>, zeroRecordedOp\<lparr>OpSeen := 5\<rparr>, zeroRecordedOp\<lparr>OpSeen := 9\<rparr>]"]
    by auto
qed

end
