(* ===== verification/OpStream.thy ===== *)
theory OpStream
  imports Recorded Assembly
begin

text \<open>
  From reassembled TCP data to operations (\<open>mongo_op_handler.go\<close>): the state machine with
  which \<open>streamOps\<close> cuts the bytes of one direction into wire messages, and the pairing of the
  two directions of a connection in a \<open>bidi\<close>.

  A flow of the packet library is a value of the type \<open>'f\<close>; what the code uses of it is a
  parameter: \<open>src\<close> and \<open>dst\<close>, its end points as strings, and \<open>flip\<close>, the flow of the other
  direction. Sending on the channel \<open>unorderedOps\<close> is appending to the list of operations
  sent. \<open>Reassembled\<close> waits until \<open>streamOps\<close> is done with the data, so the two goroutines
  act as one call here.
\<close>

subsection \<open>The state of a stream\<close>

datatype streamState = BeforeMessage | InMessage | OutOfSync

definition streamState_String :: "streamState \<Rightarrow> string" where
  "streamState_String st =
     (case st of
        BeforeMessage \<Rightarrow> ''Before Message''
      | InMessage \<Rightarrow> ''In Message''
      | OutOfSync \<Rightarrow> ''Out Of Sync'')"

text \<open>\<open>bodyCap\<close> is the capacity of the slice \<open>op.Body\<close>.\<close>

record 'f stream =
  reassembly :: Reassembly
  sop :: RawOp
  bodyCap :: int
  opTimeStamp :: gotime
  state :: streamState
  netFlow :: 'f
  tcpFlow :: 'f

abbreviation slice_panic :: fault where
  "slice_panic \<equiv> Panic ''runtime error: slice bounds out of range''"

definition dropBytes :: "'f stream \<Rightarrow> 'f stream" where
  "dropBytes st = st\<lparr>reassembly := (reassembly st)\<lparr>Bytes := []\<rparr>\<rparr>"

text \<open>The flag is \<open>bidi.sawStart\<close>.\<close>

definition handleStreamStateBeforeMessage :: "bool \<Rightarrow> 'f stream \<Rightarrow> (bool \<times> 'f stream) res" where
  "handleStreamStateBeforeMessage sawStart st =
     (if Start (reassembly st) \<and> sawStart
      then Inl (Panic ''apparently saw the beginning of a connection twice'')
      else
        let sawStart = sawStart \<or> Start (reassembly st);
            bs = Bytes (reassembly st)
        in if length bs < 16 then Inr (sawStart, dropBytes (st\<lparr>state := OutOfSync\<rparr>))
           else
             rbind (FromWire bs) (\<lambda>h.
               let st = st\<lparr>sop := (sop st)\<lparr>Header := h\<rparr>\<rparr> in
               if \<not> LooksReal h then Inr (sawStart, dropBytes (st\<lparr>state := OutOfSync\<rparr>))
               else if sint (MessageLength h) < 16 then Inl (Panic ''runtime error: makeslice: cap out of range'')
               else Inr (sawStart,
                 st\<lparr>sop := (sop st)\<lparr>Header := h, Body := take 16 bs\<rparr>,
                    bodyCap := sint (MessageLength h), state := InMessage,
                    opTimeStamp := Seen (reassembly st),
                    reassembly := (reassembly st)\<lparr>Bytes := drop 16 bs\<rparr>\<rparr>)))"

text \<open>The operation is sent when the message is complete.\<close>

definition handleStreamStateInMessage ::
  "('f \<Rightarrow> string) \<Rightarrow> ('f \<Rightarrow> string) \<Rightarrow> int \<Rightarrow> 'f stream \<Rightarrow> ('f stream \<times> RecordedOp list) res" where
  "handleStreamStateInMessage src dst connectionNumber st =
     (let bs = Bytes (reassembly st);
          len = sint (MessageLength (Header (sop st)));
          bodyLen = int (length (Body (sop st)));
          copySize = (if bodyLen + int (length bs) > len then len - bodyLen else int (length bs))
      in if copySize < 0 \<or> bodyLen + copySize > bodyCap st then Inl slice_panic
         else
           let copied = take (nat copySize) bs in
           if int (length copied) \<noteq> copySize then Inl (Panic ''copied != copySize'')
           else
             let st = st\<lparr>sop := (sop st)\<lparr>Body := Body (sop st) @ copied\<rparr>,
                         reassembly := (reassembly st)\<lparr>Bytes := drop (nat copySize) bs\<rparr>\<rparr>
             in if int (length (Body (sop st))) = len
                then Inr (st\<lparr>sop := zeroRawOp, state := BeforeMessage\<rparr>,
                          [zeroRecordedOp\<lparr>rawOp := sop st, OpSeen := opTimeStamp st,
                             SrcEndpoint := src (netFlow st), DstEndpoint := dst (netFlow st),
                             SeenConnectionNum := connectionNumber\<rparr>])
                else Inr (st, []))"

definition handleStreamStateOutOfSync :: "'f stream \<Rightarrow> 'f stream res" where
  "handleStreamStateOutOfSync st =
     (let bs = Bytes (reassembly st) in
      if length bs < 16 then Inr (dropBytes st)
      else
        rbind (FromWire bs) (\<lambda>h.
          let st = st\<lparr>sop := (sop st)\<lparr>Header := h\<rparr>\<rparr> in
          if LooksReal h then Inr (st\<lparr>state := BeforeMessage\<rparr>)
          else Inr (dropBytes st)))"

text \<open>One pass of the inner loop of \<open>streamOps\<close>, and the loop.\<close>

definition streamStep ::
  "('f \<Rightarrow> string) \<Rightarrow> ('f \<Rightarrow> string) \<Rightarrow> int \<Rightarrow> bool \<Rightarrow> 'f stream \<Rightarrow> (bool \<times> 'f stream \<times> RecordedOp list) res" where
  "streamStep src dst num sawStart st =
     (case state st of
        BeforeMessage \<Rightarrow>
          rbind (handleStreamStateBeforeMessage sawStart st) (\<lambda>(sawStart, st). Inr (sawStart, st, []))
      | InMessage \<Rightarrow>
          rbind (handleStreamStateInMessage src dst num st) (\<lambda>(st, ops). Inr (sawStart, st, ops))
      | OutOfSync \<Rightarrow>
          rbind (handleStreamStateOutOfSync st) (\<lambda>st. Inr (sawStart, st, [])))"

lemma streamStep_decreases:
  assumes "streamStep src dst num sawStart st = Inr (s', st', ops)" "Bytes (reassembly st) \<noteq> []"
  shows "2 * length (Bytes (reassembly st')) + (if state st' = BeforeMessage then 0 else 1)
       < 2 * length (Bytes (reassembly st)) + (if state st = BeforeMessage then 0 else 1)"
proof -
  obtain n where n: "length (Bytes (reassembly st)) = Suc n"
    using assms(2) by (cases "Bytes (reassembly st)") auto
  show ?thesis
proof (cases "state st")
  case BeforeMessage
  with assms n show ?thesis
    by (cases "FromWire (Bytes (reassembly st))")
      (auto simp: streamStep_def handleStreamStateBeforeMessage_def dropBytes_def Let_def split: if_splits)
next
  case InMessage
  with assms n show ?thesis
    by (auto simp: streamStep_def handleStreamStateInMessage_def rbind_eq_Inr Let_def
        split: if_splits)
next
  case OutOfSync
  with assms n show ?thesis
    by (cases "FromWire (Bytes (reassembly st))")
      (auto simp: streamStep_def handleStreamStateOutOfSync_def dropBytes_def Let_def split: if_splits)
qed
qed

function bytesLoop ::
  "('f \<Rightarrow> string) \<Rightarrow> ('f \<Rightarrow> string) \<Rightarrow> int \<Rightarrow> bool \<Rightarrow> 'f stream \<Rightarrow> (bool \<times> 'f stream \<times> RecordedOp list) res" where
  "bytesLoop src dst num sawStart st =
     (if Bytes (reassembly st) = [] then Inr (sawStart, st, [])
      else
        rbind (streamStep src dst num sawStart st) (\<lambda>(sawStart, st, ops).
        rbind (bytesLoop src dst num sawStart st) (\<lambda>(sawStart, st, ops').
          Inr (sawStart, st, ops @ ops'))))"
  by pat_completeness auto
termination
  by (relation "measure (\<lambda>(_, _, _, _, st). 2 * length (Bytes (reassembly st)) +
      (if state st = BeforeMessage then 0 else 1))")
    (auto dest: streamStep_decreases)

declare bytesLoop.simps [simp del]

text \<open>The loop of \<open>streamOps\<close> over the reassemblies of one group.\<close>

fun streamOps ::
  "('f \<Rightarrow> string) \<Rightarrow> ('f \<Rightarrow> string) \<Rightarrow> int \<Rightarrow> Reassembly list \<Rightarrow> bool \<Rightarrow> 'f stream \<Rightarrow>
     (bool \<times> 'f stream \<times> RecordedOp list) res" where
  "streamOps src dst num [] sawStart st = Inr (sawStart, st, [])"
| "streamOps src dst num (r # rs) sawStart st =
     (let st = st\<lparr>reassembly := r\<rparr> in
      if Skip r > 0
      then streamOps src dst num rs sawStart (st\<lparr>state := OutOfSync, sop := (sop st)\<lparr>Body := []\<rparr>\<rparr>)
      else
        let st = (if Skip r < 0 then st\<lparr>state := OutOfSync\<rparr> else st) in
        rbind (bytesLoop src dst num sawStart st) (\<lambda>(sawStart, st, ops).
        rbind (streamOps src dst num rs sawStart st) (\<lambda>(sawStart, st, ops').
          Inr (sawStart, st, ops @ ops'))))"

subsection \<open>The two directions of a connection\<close>

text \<open>\<open>bclosed\<close>: the channels are closed and the streams have lost their \<open>bidi\<close>.\<close>

record 'f bidi =
  stream0 :: "'f stream"
  stream1 :: "'f stream"
  openStreamCount :: int
  sawStart :: bool
  connectionNumber :: int
  bclosed :: bool

definition newStream :: "'f \<Rightarrow> 'f \<Rightarrow> 'f stream" where
  "newStream nf tf = \<lparr>reassembly = zeroReassembly, sop = zeroRawOp, bodyCap = 0, opTimeStamp = 0,
     state = BeforeMessage, netFlow = nf, tcpFlow = tf\<rparr>"

definition newBidi :: "('f \<Rightarrow> 'f) \<Rightarrow> 'f \<Rightarrow> 'f \<Rightarrow> int \<Rightarrow> 'f bidi" where
  "newBidi flip nf tf num = \<lparr>stream0 = newStream nf tf, stream1 = newStream (flip nf) (flip tf),
     openStreamCount = 0, sawStart = False, connectionNumber = num, bclosed = False\<rparr>"

definition handleStreamCompleted :: "'f bidi \<Rightarrow> RecordedOp list" where
  "handleStreamCompleted b =
     (let lastOpTimeStamp =
            (if opTimeStamp (stream0 b) > opTimeStamp (stream1 b) then opTimeStamp (stream0 b)
             else opTimeStamp (stream1 b))
      in if lastOpTimeStamp \<noteq> 0
         then [zeroRecordedOp\<lparr>OpSeen := lastOpTimeStamp + 1, SeenConnectionNum := connectionNumber b,
                 isEOF := True\<rparr>]
         else [])"

text \<open>
  \<open>MongoOpStream\<close>: the bidis by number in the order in which they were made, so that the
  counter of connections is their number; \<open>unorderedOps\<close> is what was sent on the channel.
  A stream is known by its bidi and its direction: \<open>False\<close> is \<open>streams[0]\<close>.
\<close>

record 'f MongoOpStream =
  bidis :: "nat \<Rightarrow> 'f bidi"
  nbidis :: nat
  bidiMap :: "('f \<times> 'f) \<rightharpoonup> nat"
  unorderedOps :: "RecordedOp list"

type_synonym handle = "nat \<times> bool"

definition setBidi :: "nat \<Rightarrow> 'f bidi \<Rightarrow> 'f MongoOpStream \<Rightarrow> 'f MongoOpStream" where
  "setBidi n b os = os\<lparr>bidis := (bidis os)(n := b)\<rparr>"

definition NewMongoOpStream :: "'f bidi \<Rightarrow> 'f MongoOpStream" where
  "NewMongoOpStream b0 = \<lparr>bidis = (\<lambda>_. b0), nbidis = 0, bidiMap = Map.empty, unorderedOps = []\<rparr>"

definition OpStream_New :: "('f \<Rightarrow> 'f) \<Rightarrow> 'f \<Rightarrow> 'f \<Rightarrow> 'f MongoOpStream \<Rightarrow> handle \<times> 'f MongoOpStream" where
  "OpStream_New flip nf tf os =
     (let k = (nf, tf); rk = (flip nf, flip tf) in
      case bidiMap os k of
        Some n \<Rightarrow>
          let b = bidis os n;
              os = setBidi n (b\<lparr>openStreamCount := openStreamCount b + 1\<rparr>) os
          in ((n, True), os\<lparr>bidiMap := (bidiMap os)(k := None)\<rparr>)
      | None \<Rightarrow>
          let n = nbidis os;
              b = newBidi flip nf tf (int n);
              os = os\<lparr>nbidis := n + 1, bidiMap := (bidiMap os)(rk \<mapsto> n)\<rparr>
          in ((n, False), setBidi n (b\<lparr>openStreamCount := openStreamCount b + 1\<rparr>) os))"

definition bidi_close :: "nat \<Rightarrow> 'f MongoOpStream \<Rightarrow> 'f MongoOpStream res" where
  "bidi_close n os =
     (let b = bidis os n in
      if bclosed b then Inl (Panic ''close of closed channel'')
      else
        let m = (bidiMap os)((netFlow (stream1 b), tcpFlow (stream1 b)) := None);
            m = m((netFlow (stream0 b), tcpFlow (stream0 b)) := None)
        in Inr (setBidi n (b\<lparr>bclosed := True\<rparr>) (os\<lparr>bidiMap := m\<rparr>)))"

definition OpStream_Reassembled ::
  "('f \<Rightarrow> string) \<Rightarrow> ('f \<Rightarrow> string) \<Rightarrow> handle \<Rightarrow> Reassembly list \<Rightarrow> 'f MongoOpStream \<Rightarrow> 'f MongoOpStream res" where
  "OpStream_Reassembled src dst h rs os =
     (let n = fst h; b = bidis os n in
      if bclosed b then Inl (Panic ''send on closed channel'')
      else
        rbind (streamOps src dst (connectionNumber b) rs (sawStart b)
                 (if snd h then stream1 b else stream0 b)) (\<lambda>(saw, st, ops).
          let b = b\<lparr>sawStart := saw\<rparr>;
              b = (if snd h then b\<lparr>stream1 := st\<rparr> else b\<lparr>stream0 := st\<rparr>)
          in Inr (setBidi n b (os\<lparr>unorderedOps := unorderedOps os @ ops\<rparr>))))"

definition OpStream_ReassemblyComplete :: "handle \<Rightarrow> 'f MongoOpStream \<Rightarrow> 'f MongoOpStream res" where
  "OpStream_ReassemblyComplete h os =
     (let n = fst h; b = bidis os n in
      if bclosed b then Inl nil_panic
      else
        let count = openStreamCount b - 1;
            os = setBidi n (b\<lparr>openStreamCount := count\<rparr>) os
        in if count < 0 then Inl (Panic ''negative openStreamCount'')
           else if count = 0
           then bidi_close n (os\<lparr>unorderedOps := unorderedOps os @ handleStreamCompleted (bidis os n)\<rparr>)
           else Inr os)"

subsection \<open>What the state machine sends\<close>

text \<open>
  A whole message: its first 16 bytes are its header, which looks real, and it is as long
  as the header says.
\<close>

definition whole :: "RawOp \<Rightarrow> bool" where
  "whole op \<longleftrightarrow> LooksReal (Header op) \<and> 16 \<le> length (Body op) \<and>
     FromWire (Body op) = Inr (Header op) \<and> int (length (Body op)) = sint (MessageLength (Header op))"

text \<open>Inside a message its header is known and real, and bytes are missing.\<close>

definition stream_inv :: "'f stream \<Rightarrow> bool" where
  "stream_inv st \<longleftrightarrow> (state st = InMessage \<longrightarrow>
     LooksReal (Header (sop st)) \<and> 16 \<le> length (Body (sop st)) \<and>
     FromWire (Body (sop st)) = Inr (Header (sop st)) \<and>
     bodyCap st = sint (MessageLength (Header (sop st))) \<and>
     int (length (Body (sop st))) < bodyCap st)"

lemma FromWire_prefix:
  assumes "16 \<le> n" "16 \<le> length bs"
  shows "FromWire (take n bs @ r) = FromWire bs"
proof -
  obtain m where m: "bs = header_bytes m @ drop 16 bs" using header_bytes_exhaust [OF assms(2)] .
  have "take n bs = header_bytes m @ take (n - 16) (drop 16 bs)"
    using assms(1) by (subst m) simp
  then have "FromWire (take n bs @ r) = Inr m" by simp
  moreover have "FromWire bs = Inr m" by (subst m) simp
  ultimately show ?thesis by simp
qed

lemma LooksReal_length: "LooksReal h \<Longrightarrow> 24 \<le> sint (MessageLength h)"
  by (simp add: LooksReal_def split: if_splits)

lemma streamStep_inv:
  assumes "stream_inv st"
  shows "(Start (reassembly st) \<and> saw \<and> state st = BeforeMessage) \<or>
    (\<exists>s' st' ops. streamStep src dst num saw st = Inr (s', st', ops) \<and> stream_inv st' \<and>
       (\<forall>op\<in>set ops. whole (rawOp op)) \<and> (saw \<or> s' \<longrightarrow> saw \<or> Start (reassembly st)) \<and>
       Start (reassembly st') = Start (reassembly st))"
proof (cases "state st")
  case BeforeMessage
  let ?bs = "Bytes (reassembly st)"
  show ?thesis
  proof (cases "Start (reassembly st) \<and> saw")
    case False
    show ?thesis
    proof (cases "length ?bs < 16")
      case True
      then show ?thesis using False BeforeMessage
        by (auto simp: streamStep_def handleStreamStateBeforeMessage_def dropBytes_def stream_inv_def Let_def)
    next
      case len: False
      then obtain h where h: "FromWire ?bs = Inr h" using FromWire_total [of ?bs] by auto
      moreover have "FromWire (take 16 ?bs) = Inr h" using FromWire_prefix [of 16 ?bs "[]"] len h by simp
      ultimately show ?thesis using False BeforeMessage len LooksReal_length [of h]
        by (cases "LooksReal h")
          (auto simp: streamStep_def handleStreamStateBeforeMessage_def dropBytes_def stream_inv_def Let_def)
    qed
  qed (use BeforeMessage in blast)
next
  case InMessage
  let ?bs = "Bytes (reassembly st)" and ?b = "Body (sop st)" and ?h = "Header (sop st)"
  let ?len = "sint (MessageLength ?h)"
  let ?n = "if int (length ?b) + int (length ?bs) > ?len then ?len - int (length ?b) else int (length ?bs)"
  have i: "LooksReal ?h" "16 \<le> length ?b" "FromWire ?b = Inr ?h" "bodyCap st = ?len"
    "int (length ?b) < bodyCap st" using assms InMessage by (auto simp: stream_inv_def)
  have n: "0 \<le> ?n" "int (length ?b) + ?n \<le> ?len" "int (length (take (nat ?n) ?bs)) = ?n" using i by auto
  have fw: "FromWire (?b @ r) = Inr ?h" for r using FromWire_prefix [of "length ?b" ?b r] i by simp
  show ?thesis
    using i n InMessage fw
    by (simp add: streamStep_def handleStreamStateInMessage_def stream_inv_def whole_def Let_def del: length_take)
next
  case OutOfSync
  let ?bs = "Bytes (reassembly st)"
  show ?thesis
  proof (cases "length ?bs < 16")
    case True
    then show ?thesis using OutOfSync
      by (auto simp: streamStep_def handleStreamStateOutOfSync_def dropBytes_def stream_inv_def Let_def)
  next
    case False
    then obtain h where "FromWire ?bs = Inr h" using FromWire_total [of ?bs] by auto
    then show ?thesis using OutOfSync False
      by (auto simp: streamStep_def handleStreamStateOutOfSync_def dropBytes_def stream_inv_def Let_def)
  qed
qed

lemma bytesLoop_ok:
  "stream_inv st \<Longrightarrow> (Start (reassembly st) \<longrightarrow> Bytes (reassembly st) = []) \<Longrightarrow>
     \<exists>s' st' ops. bytesLoop src dst num saw st = Inr (s', st', ops) \<and> stream_inv st' \<and>
       (\<forall>op\<in>set ops. whole (rawOp op))"
proof (induction src dst num saw st rule: bytesLoop.induct)
  case (1 src dst num saw st)
  show ?case
  proof (cases "Bytes (reassembly st) = []")
    case True
    then show ?thesis using "1.prems"(1) by (subst bytesLoop.simps) auto
  next
    case False
    then have ns: "\<not> Start (reassembly st)" using "1.prems" by blast
    then obtain s1 st1 ops1 where s: "streamStep src dst num saw st = Inr (s1, st1, ops1)" "stream_inv st1"
      "\<forall>op\<in>set ops1. whole (rawOp op)" "\<not> Start (reassembly st1)"
      using streamStep_inv [OF "1.prems"(1), of saw src dst num] by auto
    obtain s2 st2 ops2 where "bytesLoop src dst num s1 st1 = Inr (s2, st2, ops2)" "stream_inv st2"
      "\<forall>op\<in>set ops2. whole (rawOp op)"
      using "1.IH" [OF False s(1) refl refl s(2)] s(4) by blast
    with False s show ?thesis by (subst bytesLoop.simps) auto
  qed
qed

text \<open>
  Whatever reassemblies a stream is handed (complete, with gaps, picked up in the middle
  of a message, or no MongoDB traffic at all), \<open>streamOps\<close> neither panics nor loops, and each
  operation it sends is one whole message: a header that looks real, in the first 16 bytes
  of the body, and exactly as many bytes as that header announces. The one condition is that
  a packet that opens the connection carries no data.
\<close>

theorem streamOps_whole:
  assumes "stream_inv st" "\<forall>r\<in>set rs. Start r \<longrightarrow> Bytes r = []"
  shows "\<exists>s' st' ops. streamOps src dst num rs saw st = Inr (s', st', ops) \<and> stream_inv st' \<and>
    (\<forall>op\<in>set ops. whole (rawOp op))"
  using assms
proof (induction rs arbitrary: saw st)
  case (Cons r rs)
  let ?st = "st\<lparr>reassembly := r\<rparr>"
  show ?case
  proof (cases "Skip r > 0")
    case True
    have "stream_inv (?st\<lparr>state := OutOfSync, sop := (sop ?st)\<lparr>Body := []\<rparr>\<rparr>)" by (simp add: stream_inv_def)
    with Cons.IH [of _ saw] Cons.prems(2) True show ?thesis by simp
  next
    case False
    let ?st' = "if Skip r < 0 then ?st\<lparr>state := OutOfSync\<rparr> else ?st"
    have "stream_inv ?st'" "Start (reassembly ?st') \<longrightarrow> Bytes (reassembly ?st') = []"
      using Cons.prems by (auto simp: stream_inv_def)
    then obtain s1 st1 ops1 where b: "bytesLoop src dst num saw ?st' = Inr (s1, st1, ops1)" "stream_inv st1"
      "\<forall>op\<in>set ops1. whole (rawOp op)" using bytesLoop_ok by blast
    have rs: "\<forall>r\<in>set rs. Start r \<longrightarrow> Bytes r = []" using Cons.prems(2) by simp
    obtain s2 st2 ops2 where "streamOps src dst num rs s1 st1 = Inr (s2, st2, ops2)" "stream_inv st2"
      "\<forall>op\<in>set ops2. whole (rawOp op)"
      using Cons.IH [OF b(2) rs, of s1] by blast
    with b False show ?thesis by (auto simp: Let_def)
  qed
qed simp

subsection \<open>Messages are found again\<close>

text \<open>
  The positions where the chunks end and where the messages begin, counted from the
  beginning of the chunks; \<open>off\<close> is where the first message begins. A chunk must not end
  inside a header.
\<close>

fun starts :: "nat \<Rightarrow> RawOp list \<Rightarrow> nat list" where
  "starts off [] = []"
| "starts off (m # ms) = off # starts (off + length (Body m)) ms"

fun ends :: "nat \<Rightarrow> Reassembly list \<Rightarrow> nat list" where
  "ends n [] = []"
| "ends n (r # rs) = (n + length (Bytes r)) # ends (n + length (Bytes r)) rs"

definition apart :: "nat list \<Rightarrow> nat list \<Rightarrow> bool" where
  "apart ps bs \<longleftrightarrow> (\<forall>p\<in>set ps. \<forall>b\<in>set bs. \<not> (p < b \<and> b < p + 16))"

lemma starts_shift: "starts (n + off) ms = map ((+) n) (starts off ms)"
  by (induction ms arbitrary: off) (simp_all add: add.assoc)

lemma ends_shift: "ends (n + k) rs = map ((+) n) (ends k rs)"
  by (induction rs arbitrary: k) (simp_all add: add.assoc)

lemma apart_shift: "apart (map ((+) n) ps) (map ((+) n) bs) = apart ps bs"
  by (auto simp: apart_def)

text \<open>
  \<open>expects st ms rest\<close>: the stream is about to see \<open>rest\<close>, which completes the messages \<open>ms\<close>;
  \<open>next_start\<close> is where the first message that has not begun will begin.
\<close>

definition expects :: "'f stream \<Rightarrow> RawOp list \<Rightarrow> bytes \<Rightarrow> bool" where
  "expects st ms rest \<longleftrightarrow>
     (case state st of
        BeforeMessage \<Rightarrow> rest = concat (map Body ms)
      | InMessage \<Rightarrow> \<exists>m ms' k. ms = m # ms' \<and> 16 \<le> k \<and> k < length (Body m) \<and>
          sop st = \<lparr>Header = Header m, Body = take k (Body m)\<rparr> \<and>
          bodyCap st = sint (MessageLength (Header m)) \<and>
          rest = drop k (Body m) @ concat (map Body ms')
      | OutOfSync \<Rightarrow> False)"

definition next_starts :: "'f stream \<Rightarrow> RawOp list \<Rightarrow> nat list" where
  "next_starts st ms =
     (if state st = BeforeMessage then starts 0 ms
      else starts (length (Body (hd ms)) - length (Body (sop st))) (tl ms))"

lemma FromWire_append:
  assumes "bs @ r = b @ r'" "16 \<le> length bs" "16 \<le> length b"
  shows "FromWire bs = FromWire b"
proof -
  have t: "take 16 bs = take 16 b"
    using arg_cong [OF assms(1), of "take 16"] assms(2,3) by simp
  have "FromWire bs = FromWire (take 16 bs @ [])" using FromWire_prefix [of 16 bs "[]"] assms by simp
  also have "\<dots> = FromWire b" unfolding t using FromWire_prefix [of 16 b "[]"] assms by simp
  finally show ?thesis .
qed

text \<open>
  One chunk: it gives the messages that it completes, and the stream expects the rest with
  what follows.
\<close>

lemma bytesLoop_messages:
  "expects st ms (Bytes (reassembly st) @ rest) \<Longrightarrow> \<forall>m\<in>set ms. whole m \<Longrightarrow> \<not> Start (reassembly st) \<Longrightarrow>
   apart (next_starts st ms) [length (Bytes (reassembly st))] \<Longrightarrow>
   \<exists>saw' st' ops ms1 ms2. bytesLoop src dst num saw st = Inr (saw', st', ops) \<and>
     ms = ms1 @ ms2 \<and> map rawOp ops = ms1 \<and> expects st' ms2 rest \<and>
     set (map ((+) (length (Bytes (reassembly st)))) (next_starts st' ms2)) \<subseteq> set (next_starts st ms)"
proof (induction src dst num saw st arbitrary: ms rule: bytesLoop.induct)
  case (1 src dst num saw st)
  let ?bs = "Bytes (reassembly st)"
  show ?case
  proof (cases "?bs = []")
    case True
    then have "bytesLoop src dst num saw st = Inr (saw, st, [])" by (subst bytesLoop.simps) simp
    then show ?thesis using "1.prems"(1) True by auto
  next
    case ne: False
    have unf: "bytesLoop src dst num saw st =
        rbind (streamStep src dst num saw st) (\<lambda>(saw, st, ops).
        rbind (bytesLoop src dst num saw st) (\<lambda>(saw, st, ops'). Inr (saw, st, ops @ ops')))"
      using ne by (subst bytesLoop.simps) simp
    show ?thesis
    proof (cases "state st")
      case BeforeMessage
      then have cat: "?bs @ rest = concat (map Body ms)" using "1.prems"(1) by (simp add: expects_def)
      then obtain m ms' where ms: "ms = m # ms'" using ne by (cases ms) auto
      then have w: "whole m" using "1.prems"(2) by simp
      then have wl: "16 \<le> length (Body m)" "24 \<le> int (length (Body m))" "LooksReal (Header m)"
        "int (length (Body m)) = sint (MessageLength (Header m))"
        using LooksReal_length by (auto simp: whole_def)
      have len: "16 \<le> length ?bs"
        using "1.prems"(4) BeforeMessage ne by (auto simp: next_starts_def ms apart_def)
      have fw: "FromWire ?bs = Inr (Header m)"
        using FromWire_append [of ?bs rest "Body m" "concat (map Body ms')"] cat ms len wl w
        by (simp add: whole_def)
      define st1 where "st1 = st\<lparr>sop := \<lparr>Header = Header m, Body = take 16 ?bs\<rparr>,
          bodyCap := sint (MessageLength (Header m)), state := InMessage, opTimeStamp := Seen (reassembly st),
          reassembly := (reassembly st)\<lparr>Bytes := drop 16 ?bs\<rparr>\<rparr>"
      have step: "streamStep src dst num saw st = Inr (saw, st1, [])"
        using BeforeMessage "1.prems"(3) len fw wl
        by (simp add: streamStep_def handleStreamStateBeforeMessage_def Let_def st1_def)
      have t16: "take 16 ?bs = take 16 (Body m)"
        using arg_cong [OF cat, of "take 16"] len wl ms by simp
      have "drop 16 ?bs @ rest = drop 16 (Body m) @ concat (map Body ms')"
        using arg_cong [OF cat, of "drop 16"] len wl ms by simp
      then have ex: "expects st1 ms (Bytes (reassembly st1) @ rest)"
        unfolding expects_def using t16 wl ms
        by (auto simp: st1_def intro!: exI [of _ m] exI [of _ 16])
      have ns: "map ((+) 16) (next_starts st1 ms) = starts (length (Body m)) ms'"
        using wl ms len by (simp add: next_starts_def st1_def starts_shift [symmetric])
      have nst: "next_starts st ms = 0 # starts (length (Body m)) ms'"
        using BeforeMessage by (simp add: next_starts_def ms)
      have l1: "length ?bs = 16 + length (Bytes (reassembly st1))" using len by (simp add: st1_def)
      have "apart (map ((+) 16) (next_starts st1 ms)) (map ((+) 16) [length (Bytes (reassembly st1))])"
        using "1.prems"(4) l1 unfolding ns nst by (auto simp: apart_def)
      then have ap: "apart (next_starts st1 ms) [length (Bytes (reassembly st1))]" by (simp only: apart_shift)
      have "\<not> Start (reassembly st1)" using "1.prems"(3) by (simp add: st1_def)
      from "1.IH" [OF ne step refl refl ex "1.prems"(2) this ap]
      obtain saw' st' ops ms1 ms2 where r: "bytesLoop src dst num saw st1 = Inr (saw', st', ops)"
        "ms = ms1 @ ms2" "map rawOp ops = ms1" "expects st' ms2 rest"
        "set (map ((+) (length (Bytes (reassembly st1)))) (next_starts st' ms2)) \<subseteq> set (next_starts st1 ms)"
        by blast
      have "(+) (length ?bs) ` set (next_starts st' ms2) = (+) 16 ` ((+) (length (Bytes (reassembly st1))) ` set (next_starts st' ms2))"
        unfolding l1 by (simp add: image_image add.assoc)
      also have "\<dots> \<subseteq> (+) 16 ` set (next_starts st1 ms)" using r(5) by auto
      also have "\<dots> \<subseteq> set (next_starts st ms)"
        using arg_cong [OF ns, of set] unfolding nst by auto
      finally have "set (map ((+) (length ?bs)) (next_starts st' ms2)) \<subseteq> set (next_starts st ms)" by simp
      moreover have "bytesLoop src dst num saw st = Inr (saw', st', ops)" using unf step r(1) by simp
      ultimately show ?thesis using r by blast
    next
      case InMessage
      then obtain m ms' k where ms: "ms = m # ms'" and k: "16 \<le> k" "k < length (Body m)"
        and sop: "sop st = \<lparr>Header = Header m, Body = take k (Body m)\<rparr>"
        and cap: "bodyCap st = sint (MessageLength (Header m))"
        and cat: "?bs @ rest = drop k (Body m) @ concat (map Body ms')"
        using "1.prems"(1) by (auto simp: expects_def)
      have w: "whole m" using "1.prems"(2) ms by simp
      then have wl: "int (length (Body m)) = sint (MessageLength (Header m))" by (simp add: whole_def)
      let ?left = "length (Body m) - k"
      have nst: "next_starts st ms = starts ?left ms'"
        using InMessage k by (simp add: next_starts_def ms sop)
      show ?thesis
      proof (cases "?left \<le> length ?bs")
        case True
        define st1 where "st1 = st\<lparr>sop := zeroRawOp, reassembly := (reassembly st)\<lparr>Bytes := drop ?left ?bs\<rparr>, state := BeforeMessage\<rparr>"
        have tk: "take ?left ?bs = drop k (Body m)"
          using arg_cong [OF cat, of "take ?left"] True by simp
        have dr: "drop ?left ?bs @ rest = concat (map Body ms')"
          using arg_cong [OF cat, of "drop ?left"] True by simp
        obtain op where op: "rawOp op = m" and step: "streamStep src dst num saw st = Inr (saw, st1, [op])"
        proof
          let ?op = "zeroRecordedOp\<lparr>rawOp := m, OpSeen := opTimeStamp st, SrcEndpoint := src (netFlow st),
              DstEndpoint := dst (netFlow st), SeenConnectionNum := num\<rparr>"
          show "rawOp ?op = m" by simp
          have cs: "(if int k + int (length ?bs) > sint (MessageLength (Header m))
              then sint (MessageLength (Header m)) - int k else int (length ?bs)) = int ?left"
            using True k wl by auto
          have n: "min (length (Body m)) k = k" "min (length ?bs) ?left = ?left" using k True by simp_all
          have body: "take k (Body m) @ drop k (Body m) = Body m" by simp
          have nn: "\<not> (int ?left < 0 \<or> int k + int ?left > bodyCap st)" "int k + int ?left = sint (MessageLength (Header m))"
            using k wl cap by auto
          show "streamStep src dst num saw st = Inr (saw, st1, [?op])"
            using InMessage nn
            by (simp add: streamStep_def handleStreamStateInMessage_def Let_def sop cs n tk body wl st1_def cap del: take_append)
        qed
        have ex: "expects st1 ms' (Bytes (reassembly st1) @ rest)"
          using dr by (simp add: expects_def st1_def)
        have ns: "map ((+) ?left) (next_starts st1 ms') = next_starts st ms"
          unfolding nst by (simp add: next_starts_def st1_def starts_shift [symmetric])
        have l1: "length ?bs = ?left + length (Bytes (reassembly st1))" using True by (simp add: st1_def)
        have "apart (map ((+) ?left) (next_starts st1 ms')) (map ((+) ?left) [length (Bytes (reassembly st1))])"
          using "1.prems"(4) l1 unfolding ns by simp
        then have ap: "apart (next_starts st1 ms') [length (Bytes (reassembly st1))]" by (simp only: apart_shift)
        have "\<forall>m\<in>set ms'. whole m" "\<not> Start (reassembly st1)" using "1.prems"(2,3) ms by (simp_all add: st1_def)
        from "1.IH" [OF ne step refl refl ex this ap]
        obtain saw' st' ops ms1 ms2 where r: "bytesLoop src dst num saw st1 = Inr (saw', st', ops)"
          "ms' = ms1 @ ms2" "map rawOp ops = ms1" "expects st' ms2 rest"
          "set (map ((+) (length (Bytes (reassembly st1)))) (next_starts st' ms2)) \<subseteq> set (next_starts st1 ms')"
          by blast
        have "(+) (length ?bs) ` set (next_starts st' ms2) = (+) ?left ` ((+) (length (Bytes (reassembly st1))) ` set (next_starts st' ms2))"
          unfolding l1 by (simp add: image_image add.assoc)
        also have "\<dots> \<subseteq> (+) ?left ` set (next_starts st1 ms')" using r(5) by auto
        also have "\<dots> = set (next_starts st ms)" using arg_cong [OF ns, of set] by simp
        finally have sub: "set (map ((+) (length ?bs)) (next_starts st' ms2)) \<subseteq> set (next_starts st ms)" by simp
        have "bytesLoop src dst num saw st = Inr (saw', st', op # ops)" using unf step r(1) by simp
        moreover have "ms = (m # ms1) @ ms2" "map rawOp (op # ops) = m # ms1" using ms r op by simp_all
        ultimately show ?thesis using r(4) sub by metis
      next
        case False
        define st1 where "st1 = st\<lparr>sop := \<lparr>Header = Header m, Body = take (k + length ?bs) (Body m)\<rparr>,
            reassembly := (reassembly st)\<lparr>Bytes := []\<rparr>\<rparr>"
        have short: "k + length ?bs < length (Body m)" using False k by linarith
        have tk: "?bs = take (length ?bs) (drop k (Body m))"
          using arg_cong [OF cat, of "take (length ?bs)"] False by simp
        have dr: "rest = drop (k + length ?bs) (Body m) @ concat (map Body ms')"
          using arg_cong [OF cat, of "drop (length ?bs)"] False by (simp add: add.commute)
        have body: "take k (Body m) @ ?bs = take (k + length ?bs) (Body m)"
          by (subst tk) (simp add: take_add)
        have cs: "(if int k + int (length ?bs) > sint (MessageLength (Header m))
            then sint (MessageLength (Header m)) - int k else int (length ?bs)) = int (length ?bs)"
          using short wl by auto
        have nn: "\<not> (int k + int (length ?bs) > bodyCap st)" "int k + int (length ?bs) \<noteq> sint (MessageLength (Header m))"
          "min (length (Body m)) k = k" using short k wl cap by auto
        have step: "streamStep src dst num saw st = Inr (saw, st1, [])"
          using InMessage nn body short wl
          by (simp add: streamStep_def handleStreamStateInMessage_def Let_def sop cs st1_def cap)
        have "bytesLoop src dst num saw st1 = Inr (saw, st1, [])"
          by (subst bytesLoop.simps) (simp add: st1_def)
        then have "bytesLoop src dst num saw st = Inr (saw, st1, [])" using unf step by simp
        moreover have "expects st1 ms rest"
          unfolding expects_def using InMessage short k dr ms cap
          by (auto simp: st1_def intro!: exI [of _ m] exI [of _ "k + length ?bs"])
        moreover have "map ((+) (length ?bs)) (next_starts st1 ms) = next_starts st ms"
          unfolding nst using InMessage short k
          by (simp add: next_starts_def st1_def ms starts_shift [symmetric] min_def)
        then have "set (map ((+) (length ?bs)) (next_starts st1 ms)) \<subseteq> set (next_starts st ms)" by simp
        moreover have "ms = [] @ ms" "map rawOp [] = []" by simp_all
        ultimately show ?thesis by metis
      qed
    next
      case OutOfSync
      with "1.prems"(1) show ?thesis by (simp add: expects_def)
    qed
  qed
qed

lemma expects_reassembly [simp]: "expects (st\<lparr>reassembly := r\<rparr>) ms rest = expects st ms rest"
  by (cases "state st") (simp_all add: expects_def)

lemma next_starts_reassembly [simp]: "next_starts (st\<lparr>reassembly := r\<rparr>) ms = next_starts st ms"
  by (simp add: next_starts_def)

lemma expects_Nil: "expects st ms [] \<Longrightarrow> \<forall>m\<in>set ms. whole m \<Longrightarrow> ms = [] \<and> state st = BeforeMessage"
  by (cases ms) (auto simp: expects_def whole_def split: streamState.splits)

lemma streamOps_expects:
  "expects st ms (concat (map Bytes rs)) \<Longrightarrow> \<forall>m\<in>set ms. whole m \<Longrightarrow>
   \<forall>r\<in>set rs. Skip r = 0 \<and> (Start r \<longrightarrow> Bytes r = []) \<Longrightarrow> apart (next_starts st ms) (ends 0 rs) \<Longrightarrow>
   \<exists>saw' st' ops. streamOps src dst num rs saw st = Inr (saw', st', ops) \<and> map rawOp ops = ms \<and>
     state st' = BeforeMessage"
proof (induction rs arbitrary: saw st ms)
  case Nil
  then show ?case using expects_Nil [of st ms] by simp
next
  case (Cons r rs)
  let ?st = "st\<lparr>reassembly := r\<rparr>"
  have ex: "expects ?st ms (Bytes (reassembly ?st) @ concat (map Bytes rs))"
    using Cons.prems(1) by simp
  have ap1: "apart (next_starts ?st ms) [length (Bytes (reassembly ?st))]"
    using Cons.prems(4) by (simp add: apart_def)
  obtain saw1 st1 ops1 ms1 ms2 where l: "bytesLoop src dst num saw ?st = Inr (saw1, st1, ops1)"
    "ms = ms1 @ ms2" "map rawOp ops1 = ms1" "expects st1 ms2 (concat (map Bytes rs))"
    "set (map ((+) (length (Bytes r))) (next_starts st1 ms2)) \<subseteq> set (next_starts st ms)"
  proof (cases "Bytes r = []")
    case True
    then have "bytesLoop src dst num saw ?st = Inr (saw, ?st, [])" by (simp add: bytesLoop.simps)
    then show ?thesis by (rule that [of _ _ _ "[]" ms]) (use True ex in simp_all)
  next
    case False
    then have "\<not> Start (reassembly ?st)" using Cons.prems(3) by simp
    from bytesLoop_messages [OF ex Cons.prems(2) this ap1, of src dst num saw] that show ?thesis by auto
  qed
  have "ends 0 (r # rs) = length (Bytes r) # map ((+) (length (Bytes r))) (ends 0 rs)"
    using ends_shift [of "length (Bytes r)" 0 rs] by simp
  then have "apart (map ((+) (length (Bytes r))) (next_starts st1 ms2)) (map ((+) (length (Bytes r))) (ends 0 rs))"
    using Cons.prems(4) l(5) unfolding apart_def by (metis list.set_intros(2) subset_iff)
  then have ap: "apart (next_starts st1 ms2) (ends 0 rs)" by (simp only: apart_shift)
  have "\<forall>m\<in>set ms2. whole m" "\<forall>r\<in>set rs. Skip r = 0 \<and> (Start r \<longrightarrow> Bytes r = [])"
    using Cons.prems(2,3) l(2) by auto
  from Cons.IH [OF l(4) this ap, of saw1]
  obtain saw2 st2 ops2 where r: "streamOps src dst num rs saw1 st1 = Inr (saw2, st2, ops2)"
    "map rawOp ops2 = ms2" "state st2 = BeforeMessage" by blast
  have "streamOps src dst num (r # rs) saw st = Inr (saw2, st2, ops1 @ ops2)"
    using Cons.prems(3) l(1) r(1) by simp
  then show ?case using r(2,3) l(2,3) by auto
qed

text \<open>
  C15. Framing: if the bytes handed to a stream without gaps are the whole messages \<open>ms\<close> one
  after another, then whatever way they are cut into chunks (several messages in one, a
  message over many), as long as no chunk ends inside the 16 bytes of a header, the
  operations sent are those messages, all of them, in order and unchanged, and the stream
  waits for the next message.
\<close>

theorem streamOps_messages:
  assumes "\<forall>m\<in>set ms. whole m" "\<forall>r\<in>set rs. Skip r = 0 \<and> \<not> Start r"
    and "concat (map Bytes rs) = concat (map Body ms)"
    and "apart (starts 0 ms) (ends 0 rs)" "state st = BeforeMessage"
  shows "\<exists>saw' st' ops. streamOps src dst num rs saw st = Inr (saw', st', ops) \<and> map rawOp ops = ms \<and>
    state st' = BeforeMessage"
  by (rule streamOps_expects) (use assms in \<open>simp_all add: expects_def next_starts_def\<close>)

definition ex_message :: "int32 \<Rightarrow> bytes \<Rightarrow> RawOp" where
  "ex_message n bs =
     (let h = \<lparr>MessageLength = n, RequestID = 3, ResponseTo = 0, hOpCode = OpCodeQuery\<rparr>
      in \<lparr>Header = h, Body = header_bytes h @ bs\<rparr>)"

definition ex_chunk :: "bytes \<Rightarrow> Reassembly" where
  "ex_chunk bs = zeroReassembly\<lparr>Bytes := bs, Seen := 9\<rparr>"

lemma ex_message_whole:
  "whole (ex_message 26 [1, 2, 3, 4, 5, 6, 7, 8, 9, 10])"
proof -
  have "FromWire (header_bytes h @ bs) = Inr h" for h bs by simp
  moreover have "LooksReal \<lparr>MessageLength = 26, RequestID = 3, ResponseTo = 0, hOpCode = OpCodeQuery\<rparr>"
    by (simp add: LooksReal_def MaxMessageSize_def goodOpCode_def OpCodeQuery_def)
  ultimately show ?thesis by (simp add: whole_def ex_message_def Let_def del: header_bytes_def)
qed

theorem streamOps_messages_witness:
  "let m = ex_message 26 [1, 2, 3, 4, 5, 6, 7, 8, 9, 10];
       chunks = [ex_chunk (take 20 (Body m)), ex_chunk (drop 20 (Body m) @ Body m)]
   in \<exists>saw' st' ops. streamOps id id 0 chunks False (newStream ''a'' ''b'') = Inr (saw', st', ops) \<and>
        map rawOp ops = [m, m] \<and> state st' = BeforeMessage"
proof -
  define m where "m = ex_message 26 [1, 2, 3, 4, 5, 6, 7, 8, 9, 10]"
  have l: "length (Body m) = 26" by (simp add: m_def ex_message_def Let_def)
  show ?thesis
    unfolding Let_def m_def [symmetric]
    by (rule streamOps_messages [of "[m, m]"])
      (use ex_message_whole l in \<open>auto simp: m_def [symmetric] ex_chunk_def zeroReassembly_def apart_def newStream_def\<close>)
qed

theorem streamOps_whole_witness:
  "let rs = [ex_chunk [0, 1, 2], ex_chunk (Body (ex_message 26 [1, 2, 3, 4, 5, 6, 7, 8, 9, 10]))]
   in \<exists>s' st' ops. streamOps id id 0 rs False (newStream ''a'' ''b'') = Inr (s', st', ops) \<and> stream_inv st' \<and>
        (\<forall>op\<in>set ops. whole (rawOp op))"
  unfolding Let_def
  by (rule streamOps_whole) (simp_all add: newStream_def stream_inv_def ex_chunk_def zeroReassembly_def)

subsection \<open>The life of the streams of a connection\<close>

definition same_flows :: "'f stream \<Rightarrow> 'f stream \<Rightarrow> bool" where
  "same_flows st st' \<longleftrightarrow> netFlow st' = netFlow st \<and> tcpFlow st' = tcpFlow st"

lemma streamStep_flows: "streamStep src dst num saw st = Inr (s', st', ops) \<Longrightarrow> same_flows st st'"
  by (cases "state st")
    (auto simp: streamStep_def handleStreamStateBeforeMessage_def handleStreamStateInMessage_def
      handleStreamStateOutOfSync_def dropBytes_def same_flows_def rbind_eq_Inr Let_def split: if_splits)

lemma bytesLoop_flows: "bytesLoop src dst num saw st = Inr (s', st', ops) \<Longrightarrow> same_flows st st'"
proof (induction src dst num saw st arbitrary: s' st' ops rule: bytesLoop.induct)
  case (1 src dst num saw st)
  show ?case
  proof (cases "Bytes (reassembly st) = []")
    case True
    with "1.prems" show ?thesis by (subst (asm) bytesLoop.simps) (simp add: same_flows_def)
  next
    case False
    with "1.prems" obtain s1 st1 ops1 ops2 where s: "streamStep src dst num saw st = Inr (s1, st1, ops1)"
      "bytesLoop src dst num s1 st1 = Inr (s', st', ops2)"
      by (subst (asm) bytesLoop.simps) (auto simp: rbind_eq_Inr)
    from "1.IH" [OF False s(1) refl refl s(2)] streamStep_flows [OF s(1)] show ?thesis
      by (simp add: same_flows_def)
  qed
qed

lemma streamOps_flows: "streamOps src dst num rs saw st = Inr (s', st', ops) \<Longrightarrow> same_flows st st'"
proof (induction rs arbitrary: saw st ops)
  case (Cons r rs)
  then show ?case
    by (fastforce simp: Let_def rbind_eq_Inr same_flows_def split: if_splits dest: bytesLoop_flows)
qed (simp add: same_flows_def)

text \<open>
  The calls that the assembler makes on an \<open>MongoOpStream\<close>, with the streams that are not
  complete yet. No packet that opens a connection carries data.
\<close>

inductive osrun ::
  "('f \<Rightarrow> 'f) \<Rightarrow> ('f \<Rightarrow> string) \<Rightarrow> ('f \<Rightarrow> string) \<Rightarrow> 'f MongoOpStream \<Rightarrow> handle set \<Rightarrow> bool"
  for flip src dst where
  init: "osrun flip src dst (NewMongoOpStream b0) {}"
| new: "osrun flip src dst os H \<Longrightarrow> OpStream_New flip nf tf os = (h, os') \<Longrightarrow> osrun flip src dst os' (insert h H)"
| data: "osrun flip src dst os H \<Longrightarrow> h \<in> H \<Longrightarrow> \<forall>r\<in>set rs. Start r \<longrightarrow> Bytes r = [] \<Longrightarrow>
    OpStream_Reassembled src dst h rs os = Inr os' \<Longrightarrow> osrun flip src dst os' H"
| complete: "osrun flip src dst os H \<Longrightarrow> h \<in> H \<Longrightarrow>
    OpStream_ReassemblyComplete h os = Inr os' \<Longrightarrow> osrun flip src dst os' (H - {h})"

definition open_dirs :: "handle set \<Rightarrow> nat \<Rightarrow> bool set" where
  "open_dirs H n = {d. (n, d) \<in> H}"

definition flow_key :: "'f bidi \<Rightarrow> 'f \<times> 'f" where
  "flow_key b = (netFlow (stream1 b), tcpFlow (stream1 b))"

definition bidi_ok :: "handle set \<Rightarrow> nat \<Rightarrow> 'f bidi \<Rightarrow> bool" where
  "bidi_ok H n b \<longleftrightarrow>
     (if bclosed b then open_dirs H n = {}
      else open_dirs H n \<noteq> {} \<and> openStreamCount b = int (card (open_dirs H n))) \<and>
     stream_inv (stream0 b) \<and> stream_inv (stream1 b)"

definition osinv :: "'f MongoOpStream \<Rightarrow> handle set \<Rightarrow> bool" where
  "osinv os H \<longleftrightarrow>
     (\<forall>n < nbidis os. bidi_ok H n (bidis os n)) \<and>
     (\<forall>n \<ge> nbidis os. open_dirs H n = {}) \<and>
     (\<forall>k n. bidiMap os k = Some n \<longrightarrow> n < nbidis os \<and> \<not> bclosed (bidis os n) \<and>
        open_dirs H n = {False} \<and> k = flow_key (bidis os n)) \<and>
     (\<forall>op\<in>set (unorderedOps os). isEOF op \<or> whole (rawOp op))"

lemma osinvD:
  assumes "osinv os H" "bidiMap os k = Some n"
  shows "n < nbidis os" "\<not> bclosed (bidis os n)" "open_dirs H n = {False}" "k = flow_key (bidis os n)"
  using assms unfolding osinv_def by blast+

lemma open_dirs_insert: "open_dirs (insert (n, d) H) m = (if m = n then insert d (open_dirs H n) else open_dirs H m)"
  by (auto simp: open_dirs_def)

lemma open_dirs_remove: "open_dirs (H - {(n, d)}) m = (if m = n then open_dirs H n - {d} else open_dirs H m)"
  by (auto simp: open_dirs_def)

lemma open_dirs_mem: "(n, d) \<in> H \<longleftrightarrow> d \<in> open_dirs H n"
  by (simp add: open_dirs_def)

lemma OpStream_New_inv:
  assumes inv: "osinv os H" and n: "OpStream_New flip nf tf os = (h, os')"
  shows "osinv os' (insert h H) \<and> h \<notin> H"
proof (cases "bidiMap os (nf, tf)")
  case (Some m)
  then have m: "m < nbidis os" "\<not> bclosed (bidis os m)" "open_dirs H m = {False}" "(nf, tf) = flow_key (bidis os m)"
    using osinvD [OF inv] by blast+
  have h: "h = (m, True)" and os': "os' = setBidi m ((bidis os m)\<lparr>openStreamCount := openStreamCount (bidis os m) + 1\<rparr>) os\<lparr>bidiMap := (bidiMap os)((nf, tf) := None)\<rparr>"
    using n Some by (auto simp: OpStream_New_def Let_def setBidi_def)
  have ok: "bidi_ok H m (bidis os m)" using inv m(1) by (simp add: osinv_def)
  have c: "card (insert True {False}) = 2" by simp
  have "bidi_ok (insert h H) m' (bidis os' m')" if "m' < nbidis os'" for m'
  proof (cases "m' = m")
    case True
    with ok m c show ?thesis by (simp add: bidi_ok_def h os' setBidi_def open_dirs_insert)
  next
    case False
    with inv that show ?thesis by (simp add: bidi_ok_def h os' setBidi_def open_dirs_insert osinv_def)
  qed
  moreover have "n < nbidis os' \<and> \<not> bclosed (bidis os' n) \<and> open_dirs (insert h H) n = {False} \<and>
      k = flow_key (bidis os' n)" if "bidiMap os' k = Some n" for k n
  proof -
    have k: "bidiMap os k = Some n" "k \<noteq> (nf, tf)" using that by (auto simp: os' setBidi_def split: if_splits)
    then have i: "n < nbidis os" "\<not> bclosed (bidis os n)" "open_dirs H n = {False}" "k = flow_key (bidis os n)"
      using osinvD [OF inv] by blast+
    then have "n \<noteq> m" using k m(4) by auto
    with i show ?thesis by (simp add: os' setBidi_def h open_dirs_insert)
  qed
  ultimately show ?thesis
    using inv m(1,3) by (auto simp: osinv_def os' h setBidi_def open_dirs_insert open_dirs_mem)
next
  case None
  let ?n = "nbidis os"
  let ?b = "newBidi flip nf tf (int ?n)\<lparr>openStreamCount := 1\<rparr>"
  have h: "h = (?n, False)" and os': "os' = setBidi ?n ?b (os\<lparr>nbidis := ?n + 1, bidiMap := (bidiMap os)((flip nf, flip tf) \<mapsto> ?n)\<rparr>)"
    using n None by (auto simp: OpStream_New_def Let_def newBidi_def)
  have d: "open_dirs H ?n = {}" using inv by (simp add: osinv_def)
  have "bidi_ok (insert h H) m' (bidis os' m')" if "m' < nbidis os'" for m'
  proof (cases "m' = ?n")
    case True
    with d show ?thesis
      by (simp add: bidi_ok_def h os' setBidi_def open_dirs_insert newBidi_def stream_inv_def newStream_def)
  next
    case False
    with inv that show ?thesis by (auto simp: bidi_ok_def h os' setBidi_def open_dirs_insert osinv_def)
  qed
  moreover have "n < nbidis os' \<and> \<not> bclosed (bidis os' n) \<and> open_dirs (insert h H) n = {False} \<and>
      k = flow_key (bidis os' n)" if "bidiMap os' k = Some n" for k n
  proof (cases "n = ?n")
    case True
    have "k = (flip nf, flip tf)"
      using that osinvD(1) [OF inv, of k ?n] True by (auto simp: os' setBidi_def split: if_splits)
    with True d show ?thesis
      by (simp add: os' setBidi_def h open_dirs_insert newBidi_def flow_key_def newStream_def)
  next
    case False
    then have k: "bidiMap os k = Some n" using that by (auto simp: os' setBidi_def split: if_splits)
    then have "n < nbidis os" "\<not> bclosed (bidis os n)" "open_dirs H n = {False}" "k = flow_key (bidis os n)"
      using osinvD [OF inv] by blast+
    with False show ?thesis by (simp add: os' setBidi_def h open_dirs_insert)
  qed
  ultimately show ?thesis
    using inv d by (auto simp: osinv_def os' h setBidi_def open_dirs_insert open_dirs_mem)
qed

lemma OpStream_Reassembled_inv:
  assumes inv: "osinv os H" and h: "h \<in> H" and rs: "\<forall>r\<in>set rs. Start r \<longrightarrow> Bytes r = []"
  shows "\<exists>os'. OpStream_Reassembled src dst h rs os = Inr os' \<and> osinv os' H"
proof -
  obtain n d where nd: "h = (n, d)" by (cases h)
  let ?b = "bidis os n"
  have dn: "d \<in> open_dirs H n" using h nd by (simp add: open_dirs_mem)
  then have n: "n < nbidis os" using inv by (auto simp: osinv_def not_less [symmetric])
  then have ok: "bidi_ok H n ?b" using inv by (simp add: osinv_def)
  then have nc: "\<not> bclosed ?b" using dn by (auto simp: bidi_ok_def)
  have "stream_inv (if d then stream1 ?b else stream0 ?b)" using ok by (simp add: bidi_ok_def)
  from streamOps_whole [OF this rs, of src dst "connectionNumber ?b" "sawStart ?b"]
  obtain saw st ops where s: "streamOps src dst (connectionNumber ?b) rs (sawStart ?b) (if d then stream1 ?b else stream0 ?b)
      = Inr (saw, st, ops)" "stream_inv st" "\<forall>op\<in>set ops. whole (rawOp op)" by blast
  let ?b' = "if d then ?b\<lparr>sawStart := saw, stream1 := st\<rparr> else ?b\<lparr>sawStart := saw, stream0 := st\<rparr>"
  let ?os = "setBidi n ?b' (os\<lparr>unorderedOps := unorderedOps os @ ops\<rparr>)"
  have "OpStream_Reassembled src dst h rs os = Inr ?os"
    using s nc by (simp add: OpStream_Reassembled_def nd Let_def)
  moreover have "osinv ?os H"
  proof -
    have "flow_key ?b' = flow_key ?b"
      using streamOps_flows [OF s(1)] by (simp add: flow_key_def same_flows_def)
    then have m: "\<forall>k m. bidiMap ?os k = Some m \<longrightarrow> m < nbidis ?os \<and> \<not> bclosed (bidis ?os m) \<and>
        open_dirs H m = {False} \<and> k = flow_key (bidis ?os m)"
      using osinvD [OF inv] by (auto simp: setBidi_def flow_key_def)
    have "bidi_ok H n ?b'" using ok s(2) by (simp add: bidi_ok_def)
    then have "\<forall>m < nbidis ?os. bidi_ok H m (bidis ?os m)" using inv by (auto simp: osinv_def setBidi_def)
    moreover have "\<forall>m \<ge> nbidis ?os. open_dirs H m = {}" using inv by (simp add: osinv_def setBidi_def)
    moreover have "\<forall>op\<in>set (unorderedOps ?os). isEOF op \<or> whole (rawOp op)"
      using inv s(3) by (auto simp: osinv_def setBidi_def)
    ultimately show ?thesis using m unfolding osinv_def by blast
  qed
  ultimately show ?thesis by blast
qed

lemma OpStream_ReassemblyComplete_inv:
  assumes inv: "osinv os H" and h: "h \<in> H"
  shows "\<exists>os'. OpStream_ReassemblyComplete h os = Inr os' \<and> osinv os' (H - {h}) \<and>
    (bclosed (bidis os' (fst h)) \<longleftrightarrow> open_dirs (H - {h}) (fst h) = {})"
proof -
  obtain n d where nd: "h = (n, d)" by (cases h)
  let ?b = "bidis os n"
  have dn: "d \<in> open_dirs H n" using h nd by (simp add: open_dirs_mem)
  then have n: "n < nbidis os" using inv by (auto simp: osinv_def not_less [symmetric])
  then have ok: "bidi_ok H n ?b" using inv by (simp add: osinv_def)
  then have nc: "\<not> bclosed ?b" using dn by (auto simp: bidi_ok_def)
  then have cnt: "openStreamCount ?b = int (card (open_dirs H n))" using ok by (simp add: bidi_ok_def)
  have fin: "finite (open_dirs H n)" by simp
  have pos: "0 < card (open_dirs H n)" using dn fin card_gt_0_iff by blast
  have cd: "int (card (open_dirs H n - {d})) = openStreamCount ?b - 1"
    using cnt pos dn by (simp add: of_nat_diff)
  let ?H = "H - {h}"
  have fsth: "fst h = n" by (simp add: nd)
  have od: "open_dirs ?H m = (if m = n then open_dirs H n - {d} else open_dirs H m)" for m
    by (simp add: nd open_dirs_remove)
  have rest: "\<forall>m \<ge> nbidis os. open_dirs ?H m = {}" using inv by (simp add: od osinv_def)
  have oth: "bidi_ok ?H m (bidis os m)" if "m < nbidis os" "m \<noteq> n" for m
    using inv that by (simp add: osinv_def bidi_ok_def od)
  show ?thesis
  proof (cases "openStreamCount ?b - 1 = 0")
    case True
    then have e: "open_dirs H n - {d} = {}" using cd by simp
    let ?b1 = "?b\<lparr>openStreamCount := openStreamCount ?b - 1\<rparr>"
    let ?m = "(bidiMap os)((netFlow (stream1 ?b), tcpFlow (stream1 ?b)) := None, (netFlow (stream0 ?b), tcpFlow (stream0 ?b)) := None)"
    let ?os = "os\<lparr>bidis := (bidis os)(n := ?b1\<lparr>bclosed := True\<rparr>), unorderedOps := unorderedOps os @ handleStreamCompleted ?b1, bidiMap := ?m\<rparr>"
    have eq: "OpStream_ReassemblyComplete h os = Inr ?os"
      using True nc by (simp add: OpStream_ReassemblyComplete_def nd Let_def setBidi_def bidi_close_def)
    have "bidi_ok ?H m (bidis ?os m)" if "m < nbidis ?os" for m
    proof (cases "m = n")
      case True
      then show ?thesis using ok e by (simp add: bidi_ok_def od)
    next
      case False
      then show ?thesis using oth [of m] that by simp
    qed
    moreover have "m < nbidis ?os \<and> \<not> bclosed (bidis ?os m) \<and> open_dirs ?H m = {False} \<and> k = flow_key (bidis ?os m)"
      if "bidiMap ?os k = Some m" for k m
    proof -
      have k: "bidiMap os k = Some m" "k \<noteq> flow_key ?b" using that by (auto simp: flow_key_def split: if_splits)
      note i = osinvD [OF inv k(1)]
      then have "m \<noteq> n" using k(2) by blast
      with i show ?thesis by (simp add: od)
    qed
    moreover have "\<forall>op\<in>set (unorderedOps ?os). isEOF op \<or> whole (rawOp op)"
      using inv by (auto simp: osinv_def handleStreamCompleted_def Let_def)
    ultimately have "osinv ?os ?H" using rest unfolding osinv_def by simp
    then show ?thesis using eq e by (auto simp: od fsth)
  next
    case False
    let ?os = "os\<lparr>bidis := (bidis os)(n := ?b\<lparr>openStreamCount := openStreamCount ?b - 1\<rparr>)\<rparr>"
    have ge: "0 \<le> openStreamCount ?b - 1" using cnt pos by linarith
    have ne: "open_dirs H n - {d} \<noteq> {}"
    proof
      assume e: "open_dirs H n - {d} = {}"
      show False using cd False unfolding e by simp
    qed
    have eq: "OpStream_ReassemblyComplete h os = Inr ?os"
      using False nc ge by (simp add: OpStream_ReassemblyComplete_def nd Let_def setBidi_def)
    have "bidi_ok ?H m (bidis ?os m)" if "m < nbidis ?os" for m
    proof (cases "m = n")
      case True
      then show ?thesis using ok ne nc cd by (simp add: bidi_ok_def od)
    next
      case False
      then show ?thesis using oth [of m] that by simp
    qed
    moreover have "m < nbidis ?os \<and> \<not> bclosed (bidis ?os m) \<and> open_dirs ?H m = {False} \<and> k = flow_key (bidis ?os m)"
      if "bidiMap ?os k = Some m" for k m
    proof -
      have i: "m < nbidis os" "\<not> bclosed (bidis os m)" "open_dirs H m = {False}" "k = flow_key (bidis os m)"
        using that osinvD [OF inv, of k m] by simp_all
      have "m \<noteq> n"
      proof
        assume "m = n"
        then show False using i(3) dn ne by auto
      qed
      with i show ?thesis by (simp add: od)
    qed
    ultimately have "osinv ?os ?H" using rest inv unfolding osinv_def by simp
    then show ?thesis using eq nc ne by (auto simp: od fsth)
  qed
qed

lemma osrun_inv: "osrun flip src dst os H \<Longrightarrow> osinv os H"
proof (induction rule: osrun.induct)
  case init
  then show ?case by (simp add: osinv_def NewMongoOpStream_def open_dirs_def)
next
  case (new os H nf tf h os')
  from OpStream_New_inv [OF new.IH new.hyps(2)] show ?case by blast
next
  case (data os H h rs os')
  from OpStream_Reassembled_inv [OF data.IH data.hyps(2,3), of src dst] data.hyps(4) show ?case by auto
next
  case (complete os H h os')
  from OpStream_ReassemblyComplete_inv [OF complete.IH complete.hyps(2)] complete.hyps(3) show ?case by auto
qed

text \<open>
  The life of the streams: as long as the assembler keeps its contract (it uses a stream
  that it was given and that it has not completed), \<open>Reassembled\<close> and \<open>ReassemblyComplete\<close>
  never panic: no channel is closed twice or used when closed, the count of open streams
  never gets negative; \<open>New\<close> hands out each stream once; the channels of a connection are
  closed exactly when the last of its streams is complete; and what was sent on the channel
  is whole messages and end-of-connection marks only.
\<close>

theorem stream_lifecycle:
  assumes "osrun flip src dst os H" "h \<in> H"
  shows "(\<forall>rs. (\<forall>r\<in>set rs. Start r \<longrightarrow> Bytes r = []) \<longrightarrow> (\<exists>os'. OpStream_Reassembled src dst h rs os = Inr os')) \<and>
    (\<exists>os'. OpStream_ReassemblyComplete h os = Inr os' \<and>
       (bclosed (bidis os' (fst h)) \<longleftrightarrow> (\<forall>d. (fst h, d) \<notin> H - {h}))) \<and>
    (\<forall>nf tf. fst (OpStream_New flip nf tf os) \<notin> H) \<and>
    (\<forall>op\<in>set (unorderedOps os). isEOF op \<or> whole (rawOp op))"
proof -
  note inv = osrun_inv [OF assms(1)]
  have "fst (OpStream_New flip nf tf os) \<notin> H" for nf tf
    using OpStream_New_inv [OF inv, of flip nf tf] by (metis prod.collapse)
  moreover have "open_dirs (H - {h}) (fst h) = {} \<longleftrightarrow> (\<forall>d. (fst h, d) \<notin> H - {h})"
    by (auto simp: open_dirs_def)
  moreover have "\<forall>op\<in>set (unorderedOps os). isEOF op \<or> whole (rawOp op)"
    using inv by (simp add: osinv_def)
  moreover have "\<exists>os'. OpStream_Reassembled src dst h rs os = Inr os'" if "\<forall>r\<in>set rs. Start r \<longrightarrow> Bytes r = []" for rs
    using OpStream_Reassembled_inv [OF inv assms(2) that] by blast
  ultimately show ?thesis
    using OpStream_ReassemblyComplete_inv [OF inv assms(2)] by blast
qed

theorem stream_lifecycle_witness:
  "let os1 = snd (OpStream_New prod.swap (''a'', ''b'') (''1'', ''2'') (NewMongoOpStream (newBidi prod.swap (''a'', ''b'') (''1'', ''2'') 0)))
   in osrun prod.swap fst snd os1 {(0, False)} \<and>
      (\<exists>os'. OpStream_ReassemblyComplete (0, False) os1 = Inr os' \<and> bclosed (bidis os' 0))"
proof -
  let ?os = "NewMongoOpStream (newBidi prod.swap (''a'', ''b'') (''1'', ''2'') 0)"
  let ?os1 = "snd (OpStream_New prod.swap (''a'', ''b'') (''1'', ''2'') ?os)"
  have "OpStream_New prod.swap (''a'', ''b'') (''1'', ''2'') ?os = ((0, False), ?os1)"
    by (simp add: OpStream_New_def NewMongoOpStream_def Let_def)
  from osrun.new [OF osrun.init this] have r: "osrun prod.swap fst snd ?os1 {(0, False)}" .
  from stream_lifecycle [OF r, of "(0, False)"]
  obtain os' where "OpStream_ReassemblyComplete (0, False) ?os1 = Inr os'" "bclosed (bidis os' 0)"
    by auto
  with r show ?thesis unfolding Let_def by blast
qed

end
