(* ===== verification/Bson.thy ===== *)
theory Bson
  imports Wire
begin

text \<open>
  The BSON codec of the driver (\<open>internal/llmgo/bson\<close>): the decoder that reads a document at a
  position of its input into a Go value of a given type, with the conversions it makes
  (\<open>decode.go\<close>), the encoder (\<open>encode.go\<close>), and \<open>Marshal\<close>, \<open>Unmarshal\<close> and \<open>Raw.Unmarshal\<close>
  with the recovery of panics (\<open>bson.go\<close>).

  The code works by reflection on Go values. Here the types that the program decodes into
  are the datatype \<open>gotype\<close>, its values are \<open>goval\<close>, and the functions follow the code's case
  distinctions on types and kinds. The encoder's functions return the bytes they append.
\<close>

subsection \<open>Go values and types\<close>

text \<open>
  \<open>GM\<close> is a \<open>bson.M\<close> with its keys in the order in which the map is ranged over (Go leaves it
  open, so a statement for every list covers all orders). A nil pointer or interface is
  \<open>GNil\<close>, any other pointer is what it points to. A \<open>Raw\<close> of kind 0 has nil data. The flag
  of a struct field is \<open>omitempty\<close>; \<open>GPrecise\<close> is a \<open>*PreciseTime\<close>, the one type of the
  program with its own \<open>GetBSON\<close> and \<open>SetBSON\<close>; a \<open>float64\<close> is its bits.
\<close>

datatype goval =
    GNil
  | GFloat64 int64
  | GString string
  | GD "(string \<times> goval) list"
  | GM "(string \<times> goval) list"
  | GRawD "(string \<times> goval) list"
  | GSlice "goval list"
  | GBytes bytes
  | GBinary byte bytes
  | GUndefined
  | GObjectId string
  | GBool bool
  | GTime gotime
  | GRegEx string string
  | GDBPointer string string
  | GJavaScript string "goval option"
  | GSymbol string
  | GInt int64
  | GInt32 int32
  | GUint8 byte
  | GTimestamp int64
  | GInt64 int64
  | GMaxKey
  | GMinKey
  | GRaw byte bytes
  | GPrecise gotime
  | GStruct "(string \<times> bool \<times> goval) list"

datatype gotype =
    TIface | TString | TBytes | TUint8 | TInt | TInt32 | TInt64 | TBool
  | TRaw | TD | TRawD | TM | TPrecise
  | TSlice gotype
  | TPtr gotype
  | TStruct "(string \<times> bool \<times> gotype) list"

fun zero_of :: "gotype \<Rightarrow> goval" where
  "zero_of TIface = GNil"
| "zero_of TString = GString []"
| "zero_of TBytes = GBytes []"
| "zero_of TUint8 = GUint8 0"
| "zero_of TInt = GInt 0"
| "zero_of TInt32 = GInt32 0"
| "zero_of TInt64 = GInt64 0"
| "zero_of TBool = GBool False"
| "zero_of TRaw = GRaw 0 []"
| "zero_of TD = GD []"
| "zero_of TRawD = GRawD []"
| "zero_of TM = GM []"
| "zero_of TPrecise = GNil"
| "zero_of (TSlice t) = GSlice []"
| "zero_of (TPtr t) = GNil"
| "zero_of (TStruct fs) = GStruct (map (\<lambda>(k, oe, t). (k, oe, zero_of t)) fs)"

text \<open>Seconds from the first of January of the year 1 to the Unix epoch.\<close>

definition unixToInternal :: int where
  "unixToInternal = (1969 * 365 + 1969 div 4 - 1969 div 100 + 1969 div 400) * 86400"

subsection \<open>Reading basic types\<close>

abbreviation corrupted :: "'a res" where
  "corrupted \<equiv> Inl (Panic ''Document is corrupted'')"

definition readByte :: "bytes \<Rightarrow> nat \<Rightarrow> (byte \<times> nat) res" where
  "readByte inp i = (if i + 1 > length inp then corrupted else Inr (inp ! i, i + 1))"

definition readBytes :: "bytes \<Rightarrow> int32 \<Rightarrow> nat \<Rightarrow> (bytes \<times> nat) res" where
  "readBytes inp len i =
     (if sint len < 0 then corrupted
      else let n = nat (sint len) in
        if i + n > length inp then corrupted else Inr (take n (drop i inp), i + n))"

definition readInt32 :: "bytes \<Rightarrow> nat \<Rightarrow> (int32 \<times> nat) res" where
  "readInt32 inp i =
     rbind (readBytes inp 4 i) (\<lambda>(b, i). Inr (le32 (b ! 0) (b ! 1) (b ! 2) (b ! 3), i))"

definition readInt64 :: "bytes \<Rightarrow> nat \<Rightarrow> (int64 \<times> nat) res" where
  "readInt64 inp i =
     rbind (readBytes inp 8 i) (\<lambda>(b, i).
       Inr (le64 (b ! 0) (b ! 1) (b ! 2) (b ! 3) (b ! 4) (b ! 5) (b ! 6) (b ! 7), i))"

definition readFloat64 :: "bytes \<Rightarrow> nat \<Rightarrow> (int64 \<times> nat) res" where
  "readFloat64 inp i = readInt64 inp i"

definition readBool :: "bytes \<Rightarrow> nat \<Rightarrow> (bool \<times> nat) res" where
  "readBool inp i =
     rbind (readByte inp i) (\<lambda>(b, i).
       if b = 0 then Inr (False, i)
       else if b = 1 then Inr (True, i)
       else Inl (Panic ''encoded boolean must be 1 or 0''))"

definition readCStr :: "bytes \<Rightarrow> nat \<Rightarrow> (string \<times> nat) res" where
  "readCStr inp i =
     (if i > length inp then Inl index_panic
      else
        let s = takeWhile (\<lambda>x. x \<noteq> 0) (drop i inp);
            e = i + length s
        in if e + 1 > length inp then corrupted else Inr (str s, e + 1))"

definition readStr :: "bytes \<Rightarrow> nat \<Rightarrow> (string \<times> nat) res" where
  "readStr inp i =
     rbind (readInt32 inp i) (\<lambda>(l, i).
     rbind (readBytes inp (l - 1) i) (\<lambda>(b, i).
     rbind (readByte inp i) (\<lambda>(z, i).
       if z \<noteq> 0 then corrupted else Inr (str b, i))))"

definition readBinary :: "bytes \<Rightarrow> nat \<Rightarrow> ((byte \<times> bytes) \<times> nat) res" where
  "readBinary inp i =
     rbind (readInt32 inp i) (\<lambda>(l, i).
     rbind (readByte inp i) (\<lambda>(kind, i).
     rbind (readBytes inp l i) (\<lambda>(d, i).
       Inr ((kind, if kind = 2 \<and> length d \<ge> 4 then drop 4 d else d), i))))"

definition readRegEx :: "bytes \<Rightarrow> nat \<Rightarrow> (goval \<times> nat) res" where
  "readRegEx inp i =
     rbind (readCStr inp i) (\<lambda>(p, i). rbind (readCStr inp i) (\<lambda>(opts, i). Inr (GRegEx p opts, i)))"

definition rmap :: "('a \<Rightarrow> 'b) \<Rightarrow> ('a \<times> nat) res \<Rightarrow> ('b \<times> nat) res" where
  "rmap f r = rbind r (\<lambda>(x, i). Inr (f x, i))"

text \<open>
  The values of an element that hold no other elements, by kind (the \<open>switch\<close> of
  \<open>readElemTo\<close> but for documents, arrays and code with a scope).
\<close>

definition readScalar :: "byte \<Rightarrow> bytes \<Rightarrow> nat \<Rightarrow> (goval \<times> nat) res" where
  "readScalar kind inp i =
     (if kind = 0x01 then rmap GFloat64 (readFloat64 inp i)
      else if kind = 0x02 then rmap GString (readStr inp i)
      else if kind = 0x05 then
        rmap (\<lambda>(k, d). if k = 0 \<or> k = 2 then GBytes d else GBinary k d) (readBinary inp i)
      else if kind = 0x06 then Inr (GUndefined, i)
      else if kind = 0x07 then rmap (\<lambda>b. GObjectId (str b)) (readBytes inp 12 i)
      else if kind = 0x08 then rmap GBool (readBool inp i)
      else if kind = 0x09 then
        rmap (\<lambda>ms. GTime (sint ms * 10 ^ 6 + unixToInternal * 10 ^ 9)) (readInt64 inp i)
      else if kind = 0x0A then Inr (GNil, i)
      else if kind = 0x0B then readRegEx inp i
      else if kind = 0x0C then
        rbind (readStr inp i) (\<lambda>(ns, i). rmap (\<lambda>b. GDBPointer ns (str b)) (readBytes inp 12 i))
      else if kind = 0x0D then rmap (\<lambda>s. GJavaScript s None) (readStr inp i)
      else if kind = 0x0E then rmap GSymbol (readStr inp i)
      else if kind = 0x10 then rmap (\<lambda>n. GInt (scast n)) (readInt32 inp i)
      else if kind = 0x11 then rmap GTimestamp (readInt64 inp i)
      else if kind = 0x12 then rmap GInt64 (readInt64 inp i)
      else if kind = 0x7F then Inr (GMaxKey, i)
      else if kind = 0xFF then Inr (GMinKey, i)
      else Inl (Panic ''Unknown element kind''))"

subsection \<open>Assigning a value to a variable of another type\<close>

text \<open>
  \<open>int64(f)\<close> of a float given by its bits: truncation; what does not fit (and NaN) is the
  least integer, as on amd64, since Go leaves it to the machine.
\<close>

definition f64_trunc :: "int64 \<Rightarrow> int64" where
  "f64_trunc w =
     (let u = uint w;
          neg = (u \<ge> 2 ^ 63);
          e = u div 2 ^ 52 mod 2 ^ 11;
          m = u mod 2 ^ 52 + 2 ^ 52;
          mag = (if e \<ge> 1075 then m * 2 ^ nat (e - 1075) else m div 2 ^ nat (1075 - e))
      in if e < 1023 then 0
         else if e \<ge> 1086 then - (2 ^ 63)
         else word_of_int (if neg then - mag else mag))"

text \<open>\<open>f != 0\<close>: both zeros have all bits but the sign clear.\<close>

definition f64_nonzero :: "int64 \<Rightarrow> bool" where
  "f64_nonzero w \<longleftrightarrow> uint w mod 2 ^ 63 \<noteq> 0"

text \<open>The values whose kind is one of Go's signed integers.\<close>

fun int_kind :: "goval \<Rightarrow> int64 option" where
  "int_kind (GInt w) = Some w"
| "int_kind (GInt64 w) = Some w"
| "int_kind (GTimestamp w) = Some w"
| "int_kind GMaxKey = Some (2 ^ 63 - 1)"
| "int_kind GMinKey = Some (- (2 ^ 63))"
| "int_kind _ = None"

fun string_kind :: "goval \<Rightarrow> string option" where
  "string_kind (GString s) = Some s"
| "string_kind (GObjectId s) = Some s"
| "string_kind (GSymbol s) = Some s"
| "string_kind _ = None"

definition conv_int :: "(int64 \<Rightarrow> goval) \<Rightarrow> goval \<Rightarrow> goval \<Rightarrow> bool \<times> goval" where
  "conv_int mk old v =
     (case int_kind v of
        Some w \<Rightarrow> (True, mk w)
      | None \<Rightarrow>
          (case v of
             GFloat64 f \<Rightarrow> (True, mk (f64_trunc f))
           | GBool b \<Rightarrow> (True, mk (if b then 1 else 0))
           | _ \<Rightarrow> (False, old)))"

definition conv_string :: "goval \<Rightarrow> goval \<Rightarrow> bool \<times> goval" where
  "conv_string old v =
     (case string_kind v of
        Some s \<Rightarrow> (True, GString s)
      | None \<Rightarrow> (case v of GBytes b \<Rightarrow> (True, GString (str b)) | _ \<Rightarrow> (False, old)))"

definition conv_bytes :: "goval \<Rightarrow> goval \<Rightarrow> bool \<times> goval" where
  "conv_bytes old v =
     (case string_kind v of
        Some s \<Rightarrow> (True, GBytes (raw s))
      | None \<Rightarrow> (case v of GBytes b \<Rightarrow> (True, v) | _ \<Rightarrow> (False, old)))"

definition conv_bool :: "goval \<Rightarrow> goval \<Rightarrow> bool \<times> goval" where
  "conv_bool old v =
     (case int_kind v of
        Some w \<Rightarrow> (True, GBool (w \<noteq> 0))
      | None \<Rightarrow>
          (case v of
             GBool b \<Rightarrow> (True, v)
           | GFloat64 f \<Rightarrow> (True, GBool (f64_nonzero f))
           | _ \<Rightarrow> (False, old)))"

text \<open>
  The end of \<open>readElemTo\<close>: the value \<open>v\<close> that was read goes into a variable of type \<open>t\<close> that
  holds \<open>old\<close>; the flag is the \<open>good\<close> of the code, and a variable that gets nothing keeps
  \<open>old\<close>. Values of slice type are only made for a variable of the same type, or for one that
  can take none.
\<close>

fun assign_non_nil :: "gotype \<Rightarrow> goval \<Rightarrow> goval \<Rightarrow> bool \<times> goval" where
  "assign_non_nil (TPtr t) old v =
     (let (good, w) = assign_non_nil t (if old = GNil then zero_of t else old) v
      in (good, if good then w else old))"
| "assign_non_nil TIface old v = (True, v)"
| "assign_non_nil TString old v = conv_string old v"
| "assign_non_nil TBytes old v = conv_bytes old v"
| "assign_non_nil TUint8 old v = conv_int (\<lambda>w. GUint8 (ucast w)) old v"
| "assign_non_nil TInt old v = conv_int GInt old v"
| "assign_non_nil TInt32 old v = conv_int (\<lambda>w. GInt32 (ucast w)) old v"
| "assign_non_nil TInt64 old v = conv_int GInt64 old v"
| "assign_non_nil TBool old v = conv_bool old v"
| "assign_non_nil TD old v = (case v of GD _ \<Rightarrow> (True, v) | _ \<Rightarrow> (False, old))"
| "assign_non_nil TRawD old v = (case v of GRawD _ \<Rightarrow> (True, v) | _ \<Rightarrow> (False, old))"
| "assign_non_nil (TSlice t) old v = (case v of GSlice _ \<Rightarrow> (True, v) | _ \<Rightarrow> (False, old))"
| "assign_non_nil _ old v = (False, old)"

definition assign :: "gotype \<Rightarrow> goval \<Rightarrow> goval \<Rightarrow> bool \<times> goval" where
  "assign t old v = (if v = GNil then (True, zero_of t) else assign_non_nil t old v)"

subsection \<open>Documents\<close>

text \<open>
  \<open>readDocWith\<close>: the frame of every document. \<open>f\<close> is called with the kind and the name of
  each element and the position of its value; here it also threads what it accumulates. The
  loop's counter is the length of the input: each round reads a byte.
\<close>

type_synonym 'a elemReader = "'a \<Rightarrow> byte \<Rightarrow> string \<Rightarrow> nat \<Rightarrow> ('a \<times> nat) res"

fun docLoop :: "nat \<Rightarrow> 'a elemReader \<Rightarrow> 'a \<Rightarrow> bytes \<Rightarrow> int \<Rightarrow> nat \<Rightarrow> ('a \<times> nat) res" where
  "docLoop 0 f acc inp e i = Inl Hang"
| "docLoop (Suc m) f acc inp e i =
     (if i \<ge> length inp then Inl index_panic
      else if inp ! i = 0 then Inr (acc, i)
      else
        rbind (readByte inp i) (\<lambda>(kind, i).
        rbind (readCStr inp i) (\<lambda>(name, i).
          if int i \<ge> e then corrupted
          else
            rbind (f acc kind name i) (\<lambda>(acc, i).
              if int i \<ge> e then corrupted else docLoop m f acc inp e i))))"

definition docFrame ::
  "(nat \<Rightarrow> 'a \<Rightarrow> bytes \<Rightarrow> int \<Rightarrow> nat \<Rightarrow> ('a \<times> nat) res) \<Rightarrow> 'a \<Rightarrow> bytes \<Rightarrow> nat \<Rightarrow> ('a \<times> nat) res" where
  "docFrame loop acc inp i =
     rbind (readInt32 inp i) (\<lambda>(l, i).
       let e = sint l + int i - 4 in
       if e \<le> int i \<or> e > int (length inp) \<or> inp ! nat (e - 1) \<noteq> 0 then corrupted
       else
         rbind (loop (length inp) acc inp e i) (\<lambda>(acc, i).
           let i = i + 1 in
           if int i \<noteq> e then corrupted else Inr (acc, i)))"

definition readDocWith :: "'a elemReader \<Rightarrow> 'a \<Rightarrow> bytes \<Rightarrow> nat \<Rightarrow> ('a \<times> nat) res" where
  "readDocWith f = docFrame (\<lambda>m. docLoop m f)"

text \<open>The same frame in \<open>readSliceDoc\<close>, where the name of an element (its index) is skipped.\<close>

fun sliceLoop ::
  "nat \<Rightarrow> ('a \<Rightarrow> byte \<Rightarrow> nat \<Rightarrow> ('a \<times> nat) res) \<Rightarrow> 'a \<Rightarrow> bytes \<Rightarrow> int \<Rightarrow> nat \<Rightarrow> ('a \<times> nat) res" where
  "sliceLoop 0 f acc inp e i = Inl Hang"
| "sliceLoop (Suc m) f acc inp e i =
     (if i \<ge> length inp then Inl index_panic
      else if inp ! i = 0 then Inr (acc, i)
      else
        rbind (readByte inp i) (\<lambda>(kind, i).
          let i = i + length (takeWhile (\<lambda>x. x \<noteq> 0) (take (nat e - i) (drop i inp))) in
          if int i \<ge> e then corrupted
          else
            rbind (f acc kind (i + 1)) (\<lambda>(acc, i).
              if int i \<ge> e then corrupted else sliceLoop m f acc inp e i)))"

text \<open>
  \<open>elem_fn\<close> is \<open>readElemTo\<close>: the type and the old contents of the variable, the kind of the
  element, the document type \<open>d.docType\<close> for interfaces, the input and the position.
\<close>

type_synonym elem_fn =
  "gotype \<Rightarrow> goval \<Rightarrow> byte \<Rightarrow> gotype \<Rightarrow> bytes \<Rightarrow> nat \<Rightarrow> (bool \<times> goval \<times> nat) res"

definition dropElem :: "elem_fn \<Rightarrow> byte \<Rightarrow> gotype \<Rightarrow> bytes \<Rightarrow> nat \<Rightarrow> nat res" where
  "dropElem elem kind mode inp i =
     rbind (elem (TStruct []) (GStruct []) kind mode inp i) (\<lambda>(_, _, i). Inr i)"

definition readDocElems :: "elem_fn \<Rightarrow> bytes \<Rightarrow> nat \<Rightarrow> (goval \<times> nat) res" where
  "readDocElems elem inp i =
     rmap GD (readDocWith (\<lambda>acc kind name i.
       rbind (elem TIface GNil kind TD inp i) (\<lambda>(good, v, i).
         Inr (if good then acc @ [(name, v)] else acc, i))) [] inp i)"

definition readRawDocElems :: "elem_fn \<Rightarrow> bytes \<Rightarrow> nat \<Rightarrow> (goval \<times> nat) res" where
  "readRawDocElems elem inp i =
     rmap GRawD (readDocWith (\<lambda>acc kind name i.
       rbind (elem TRaw (GRaw 0 []) kind TRawD inp i) (\<lambda>(good, v, i).
         Inr (if good then acc @ [(name, v)] else acc, i))) [] inp i)"

fun map_put :: "string \<Rightarrow> 'v \<Rightarrow> (string \<times> 'v) list \<Rightarrow> (string \<times> 'v) list" where
  "map_put k v [] = [(k, v)]"
| "map_put k v ((k', v') # xs) = (if k = k' then (k, v) # xs else (k', v') # map_put k v xs)"

definition readMap :: "elem_fn \<Rightarrow> bytes \<Rightarrow> nat \<Rightarrow> (goval \<times> nat) res" where
  "readMap elem inp i =
     rmap GM (readDocWith (\<lambda>acc kind name i.
       rbind (elem TIface GNil kind TM inp i) (\<lambda>(good, v, i).
         Inr (if good then map_put name v acc else acc, i))) [] inp i)"

text \<open>\<open>fieldsMap[name]\<close>, the contents of that field, and its assignment.\<close>

fun field_of :: "(string \<times> bool \<times> 'v) list \<Rightarrow> string \<Rightarrow> 'v option" where
  "field_of [] k = None"
| "field_of ((k', _, v) # fs) k = (if k' = k then Some v else field_of fs k)"

fun set_field :: "string \<Rightarrow> 'v \<Rightarrow> (string \<times> bool \<times> 'v) list \<Rightarrow> (string \<times> bool \<times> 'v) list" where
  "set_field k v [] = []"
| "set_field k v ((k', oe, v') # fs) =
     (if k' = k then (k', oe, v) # fs else (k', oe, v') # set_field k v fs)"

definition field_value :: "string \<Rightarrow> (string \<times> bool \<times> goval) list \<Rightarrow> goval" where
  "field_value k fs = (case field_of fs k of Some v \<Rightarrow> v | None \<Rightarrow> GNil)"

definition zero_fields :: "(string \<times> bool \<times> gotype) list \<Rightarrow> (string \<times> bool \<times> goval) list" where
  "zero_fields fs = map (\<lambda>(k, oe, t). (k, oe, zero_of t)) fs"

definition readStruct ::
  "elem_fn \<Rightarrow> (string \<times> bool \<times> gotype) list \<Rightarrow> gotype \<Rightarrow> bytes \<Rightarrow> nat \<Rightarrow> (goval \<times> nat) res" where
  "readStruct elem fs mode inp i =
     rmap GStruct (readDocWith (\<lambda>acc kind name i.
       (case field_of fs name of
          Some t \<Rightarrow>
            rbind (elem t (field_value name acc) kind mode inp i) (\<lambda>(_, v, i). Inr (set_field name v acc, i))
        | None \<Rightarrow> rbind (dropElem elem kind mode inp i) (\<lambda>i. Inr (acc, i)))) (zero_fields fs) inp i)"

definition readRawDoc :: "elem_fn \<Rightarrow> gotype \<Rightarrow> bytes \<Rightarrow> nat \<Rightarrow> (goval \<times> nat) res" where
  "readRawDoc elem mode inp i =
     rbind (readDocWith (\<lambda>acc kind name i.
       rbind (dropElem elem kind mode inp i) (\<lambda>i. Inr (acc, i))) () inp i) (\<lambda>(_, j).
       Inr (GRaw 3 (take (j - i) (drop i inp)), j))"

text \<open>
  \<open>PreciseTime.SetBSON\<close> (\<open>util.go\<close>): the element is decoded by itself into the struct of
  seconds and nanoseconds; \<open>time.Unix\<close> carries the nanoseconds over into the seconds, whose
  counter is an \<open>int64\<close>. The result is the time, and whether the types fitted.
\<close>

definition preciseFields :: "(string \<times> bool \<times> gotype) list" where
  "preciseFields = [(''sec'', False, TInt64), (''nsec'', False, TInt32)]"

definition unix_time :: "int64 \<Rightarrow> int32 \<Rightarrow> gotime" where
  "unix_time sec nsec =
     sint (sec + word_of_int (sint nsec div 10 ^ 9)) * 10 ^ 9 + sint nsec mod 10 ^ 9"

definition SetBSON :: "elem_fn \<Rightarrow> goval \<Rightarrow> byte \<Rightarrow> bytes \<Rightarrow> (bool \<times> goval) res" where
  "SetBSON elem old kind data =
     rbind (elem (TStruct preciseFields) (GStruct (zero_fields preciseFields)) kind TM data 0)
       (\<lambda>(good, v, _).
         Inr (good,
           (case v of
              GStruct [(_, _, GInt64 sec), (_, _, GInt32 nsec)] \<Rightarrow>
                GPrecise (if good then unix_time sec nsec
                          else case old of GPrecise t \<Rightarrow> t | _ \<Rightarrow> 0)
            | _ \<Rightarrow> GNil)))"

text \<open>
  \<open>readDocTo\<close>. A nil interface gets a value of the document type \<open>d.docType\<close>.
\<close>

fun readDocTo :: "elem_fn \<Rightarrow> gotype \<Rightarrow> goval \<Rightarrow> gotype \<Rightarrow> bytes \<Rightarrow> nat \<Rightarrow> (goval \<times> nat) res" where
  "readDocTo elem (TPtr t) old mode inp i =
     readDocTo elem t (if old = GNil then zero_of t else old) mode inp i"
| "readDocTo elem TPrecise old mode inp i =
     rbind (readRawDoc elem mode inp i) (\<lambda>(r, j).
       case r of
         GRaw kind d \<Rightarrow> rbind (SetBSON elem old kind d) (\<lambda>(_, v). Inr (v, j))
       | _ \<Rightarrow> Inr (old, j))"
| "readDocTo elem TIface old mode inp i =
     (case mode of
        TD \<Rightarrow> readDocElems elem inp i
      | TRawD \<Rightarrow> readRawDocElems elem inp i
      | _ \<Rightarrow> readMap elem inp i)"
| "readDocTo elem TM old mode inp i = readMap elem inp i"
| "readDocTo elem (TStruct fs) old mode inp i = readStruct elem fs mode inp i"
| "readDocTo elem TRaw old mode inp i = readRawDoc elem mode inp i"
| "readDocTo elem TD old mode inp i = readDocElems elem inp i"
| "readDocTo elem TRawD old mode inp i = readRawDocElems elem inp i"
| "readDocTo elem _ old mode inp i = Inl (Panic ''Unsupported document type for unmarshalling'')"

text \<open>\<open>readSliceDoc\<close> for elements of type \<open>t\<close>.\<close>

definition readSliceElems :: "elem_fn \<Rightarrow> gotype \<Rightarrow> gotype \<Rightarrow> bytes \<Rightarrow> nat \<Rightarrow> (goval list \<times> nat) res" where
  "readSliceElems elem t mode inp i =
     docFrame (\<lambda>m. sliceLoop m (\<lambda>acc kind i.
       rbind (elem t (zero_of t) kind mode inp i) (\<lambda>(good, v, i).
         Inr (if good then acc @ [v] else acc, i)))) [] inp i"

text \<open>The fields of a \<open>DocElem\<close>, which a \<open>bson.D\<close> read from an array consists of.\<close>

definition docElemFields :: "(string \<times> bool \<times> gotype) list" where
  "docElemFields = [(''name'', False, TString), (''value'', False, TIface)]"

fun docElem_of :: "goval \<Rightarrow> string \<times> goval" where
  "docElem_of (GStruct [(_, _, GString k), (_, _, v)]) = (k, v)"
| "docElem_of _ = ([], GNil)"

fun byte_val :: "goval \<Rightarrow> byte" where
  "byte_val (GUint8 b) = b"
| "byte_val _ = 0"

fun deref :: "gotype \<Rightarrow> gotype" where
  "deref (TPtr t) = deref t"
| "deref t = t"

definition readSliceDoc :: "elem_fn \<Rightarrow> gotype \<Rightarrow> gotype \<Rightarrow> bytes \<Rightarrow> nat \<Rightarrow> (goval \<times> nat) res" where
  "readSliceDoc elem t mode inp i =
     (case t of
        TRawD \<Rightarrow> rbind (dropElem elem 0x04 mode inp i) (\<lambda>i. Inr (GRawD [], i))
      | TD \<Rightarrow> rmap (\<lambda>vs. GD (map docElem_of vs)) (readSliceElems elem (TStruct docElemFields) mode inp i)
      | TBytes \<Rightarrow> rmap (\<lambda>vs. GBytes (map byte_val vs)) (readSliceElems elem TUint8 mode inp i)
      | TSlice u \<Rightarrow> rmap GSlice (readSliceElems elem u mode inp i)
      | _ \<Rightarrow> rmap GSlice (readSliceElems elem TIface mode inp i))"

text \<open>The value of an element that is not a document.\<close>

definition readValue :: "elem_fn \<Rightarrow> gotype \<Rightarrow> byte \<Rightarrow> gotype \<Rightarrow> bytes \<Rightarrow> nat \<Rightarrow> (goval \<times> nat) res" where
  "readValue elem t kind mode inp i =
     (if kind = 0x04 then
        (if t = TPrecise then rbind (dropElem elem kind mode inp i) (\<lambda>i. Inr (GNil, i))
         else readSliceDoc elem (deref t) mode inp i)
      else if kind = 0x0F then
        rbind (readStr inp (i + 4)) (\<lambda>(s, i).
          rmap (\<lambda>sc. GJavaScript s (Some sc)) (readDocTo elem TM (GM []) mode inp i))
      else readScalar kind inp i)"

text \<open>
  \<open>readElemTo\<close>, whose recursion is on the nesting of the input: the first argument bounds it,
  and \<open>unmarshal_fuel\<close> below is enough for every input. A document for a \<open>[]byte\<close> or another
  plain slice is not even skipped.
\<close>

fun readElemTo :: "nat \<Rightarrow> elem_fn" where
  "readElemTo 0 t old kind mode inp i = Inl Hang"
| "readElemTo (Suc n) t old kind mode inp i =
     (if kind = 0x03 then
        (case t of
           TBytes \<Rightarrow> Inr (True, old, i)
         | TSlice _ \<Rightarrow> Inr (True, old, i)
         | TString \<Rightarrow> rbind (readStruct (readElemTo n) [] mode inp i) (\<lambda>(_, i). Inr (True, old, i))
         | TUint8 \<Rightarrow> rbind (readStruct (readElemTo n) [] mode inp i) (\<lambda>(_, i). Inr (True, old, i))
         | TInt \<Rightarrow> rbind (readStruct (readElemTo n) [] mode inp i) (\<lambda>(_, i). Inr (True, old, i))
         | TInt32 \<Rightarrow> rbind (readStruct (readElemTo n) [] mode inp i) (\<lambda>(_, i). Inr (True, old, i))
         | TInt64 \<Rightarrow> rbind (readStruct (readElemTo n) [] mode inp i) (\<lambda>(_, i). Inr (True, old, i))
         | TBool \<Rightarrow> rbind (readStruct (readElemTo n) [] mode inp i) (\<lambda>(_, i). Inr (True, old, i))
         | _ \<Rightarrow> rbind (readDocTo (readElemTo n) t old mode inp i) (\<lambda>(v, i). Inr (True, v, i)))
      else
        rbind (readValue (readElemTo n) t kind mode inp i) (\<lambda>(v, j).
          let d = take (j - i) (drop i inp) in
          if t = TRaw then Inr (True, GRaw kind d, j)
          else if t = TPrecise then
            rbind (SetBSON (readElemTo n) old kind d) (\<lambda>(good, w). Inr (good, w, j))
          else
            let (good, w) = assign t old v in Inr (good, w, j)))"

subsection \<open>Encoding\<close>

definition elemName :: "byte \<Rightarrow> string \<Rightarrow> bytes" where
  "elemName kind name = kind # raw name @ [0]"

definition addCStr :: "string \<Rightarrow> bytes" where
  "addCStr v = raw v @ [0]"

definition addStr :: "string \<Rightarrow> bytes" where
  "addStr v = enc32 (word_of_nat (length v + 1)) @ addCStr v"

definition addBinary :: "byte \<Rightarrow> bytes \<Rightarrow> bytes" where
  "addBinary subtype v =
     (if subtype = 2
      then enc32 (word_of_nat (length v + 4)) @ [subtype] @ enc32 (word_of_nat (length v))
      else enc32 (word_of_nat (length v)) @ [subtype]) @ v"

text \<open>
  \<open>reserveInt32\<close> before and \<open>setInt32\<close> after the elements \<open>b\<close> of a document put its length,
  with the four bytes themselves and the final zero, in front.
\<close>

definition sized :: "bytes \<Rightarrow> bytes" where
  "sized b = enc32 (word_of_nat (4 + length b)) @ b"

definition docBytes :: "bytes \<Rightarrow> bytes" where
  "docBytes b = sized (b @ [0])"

definition unix_millis :: "gotime \<Rightarrow> int64" where
  "unix_millis t =
     (let u = t - unixToInternal * 10 ^ 9
      in word_of_int (u div 10 ^ 9 * 1000 + u mod 10 ^ 9 div 10 ^ 6))"

definition fits_int32 :: "int64 \<Rightarrow> bool" where
  "fits_int32 w \<longleftrightarrow> - (2 ^ 31) \<le> sint w \<and> sint w < 2 ^ 31"

text \<open>\<open>PreciseTime.GetBSON\<close> (\<open>util.go\<close>): a struct of an \<open>int64\<close> and an \<open>int32\<close>.\<close>

definition precise_sec :: "gotime \<Rightarrow> int64" where
  "precise_sec t = word_of_int (t div 10 ^ 9)"

definition precise_nsec :: "gotime \<Rightarrow> int32" where
  "precise_nsec t = word_of_int (t mod 10 ^ 9)"

definition GetBSON :: "gotime \<Rightarrow> goval" where
  "GetBSON t = GStruct [(''sec'', False, GInt64 (precise_sec t)), (''nsec'', False, GInt32 (precise_nsec t))]"

text \<open>
  \<open>isZero\<close>, of the value of a field whose type is not an interface (a field of interface type is zero when it is nil, which whoever
  builds the struct puts into the field's flag). A nil pointer is \<open>GNil\<close>: a nil \<open>*PreciseTime\<close>, on which \<open>GetBSON\<close> would
  panic, is not among the values that \<open>fits\<close> admits.
\<close>

fun isZero :: "goval \<Rightarrow> bool" where
  "isZero GNil = True"
| "isZero (GFloat64 f) = (\<not> f64_nonzero f)"
| "isZero (GString s) = (s = [])"
| "isZero (GObjectId s) = (s = [])"
| "isZero (GSymbol s) = (s = [])"
| "isZero (GD es) = (es = [])"
| "isZero (GM es) = (es = [])"
| "isZero (GRawD es) = (es = [])"
| "isZero (GSlice vs) = (vs = [])"
| "isZero (GBytes b) = (b = [])"
| "isZero (GBinary k b) = (k = 0 \<and> b = [])"
| "isZero (GRaw k b) = (k = 0 \<and> b = [])"
| "isZero (GRegEx p opts) = (p = [] \<and> opts = [])"
| "isZero (GDBPointer ns oid) = (ns = [] \<and> oid = [])"
| "isZero (GJavaScript c None) = (c = [])"
| "isZero (GJavaScript c (Some _)) = False"
| "isZero GUndefined = True"
| "isZero (GTime t) = (t = 0)"
| "isZero (GPrecise t) = False"
| "isZero (GBool b) = (\<not> b)"
| "isZero (GInt w) = (w = 0)"
| "isZero (GInt32 w) = (w = 0)"
| "isZero (GUint8 w) = (w = 0)"
| "isZero (GTimestamp w) = (w = 0)"
| "isZero (GInt64 w) = (w = 0)"
| "isZero GMaxKey = False"
| "isZero GMinKey = False"
| "isZero (GStruct fs) = (\<forall>(_, _, v) \<in> set fs. isZero v)"

text \<open>
  \<open>addDoc\<close> and \<open>addElem\<close>. The elements of maps, of \<open>bson.D\<close>, of structs (\<open>addStruct\<close>, which
  leaves out the zero fields marked so) and of slices (\<open>addSlice\<close>, named by their index).
  As documents of their own \<open>addDoc\<close> takes what the program marshals: maps, documents, raw
  documents, slices and structs of named fields.
\<close>

abbreviation empty_raw :: "'a res" where
  "empty_raw \<equiv> Inl (Panic ''Attempted to marshal empty Raw document'')"

function (sequential)
  addElem :: "string \<Rightarrow> goval \<Rightarrow> bytes res" and
  addDoc :: "goval \<Rightarrow> bytes res" and
  addElems :: "(string \<times> goval) list \<Rightarrow> bytes res" and
  addStruct :: "(string \<times> bool \<times> goval) list \<Rightarrow> bytes res" and
  addSlice :: "nat \<Rightarrow> goval list \<Rightarrow> bytes res"
where
  "addElem name GNil = Inr (elemName 0x0A name)"
| "addElem name (GString s) = Inr (elemName 0x02 name @ addStr s)"
| "addElem name (GObjectId s) =
     (if length s \<noteq> 12 then Inl (Panic ''ObjectIDs must be exactly 12 bytes long'')
      else Inr (elemName 0x07 name @ raw s))"
| "addElem name (GSymbol s) = Inr (elemName 0x0E name @ addStr s)"
| "addElem name (GFloat64 f) = Inr (elemName 0x01 name @ enc64 f)"
| "addElem name (GUint8 b) = Inr (elemName 0x10 name @ enc32 (ucast b))"
| "addElem name (GTimestamp w) = Inr (elemName 0x11 name @ enc64 w)"
| "addElem name GMaxKey = Inr (elemName 0x7F name)"
| "addElem name GMinKey = Inr (elemName 0xFF name)"
| "addElem name (GInt w) =
     (if fits_int32 w then Inr (elemName 0x10 name @ enc32 (ucast w))
      else Inr (elemName 0x12 name @ enc64 w))"
| "addElem name (GInt32 w) = Inr (elemName 0x10 name @ enc32 w)"
| "addElem name (GInt64 w) = Inr (elemName 0x12 name @ enc64 w)"
| "addElem name (GBool b) = Inr (elemName 0x08 name @ [if b then 1 else 0])"
| "addElem name (GM es) = rbind (addDoc (GM es)) (\<lambda>b. Inr (elemName 0x03 name @ b))"
| "addElem name (GBytes b) = Inr (elemName 0x05 name @ addBinary 0 b)"
| "addElem name (GD es) = rbind (addDoc (GD es)) (\<lambda>b. Inr (elemName 0x03 name @ b))"
| "addElem name (GRawD es) = rbind (addDoc (GRawD es)) (\<lambda>b. Inr (elemName 0x03 name @ b))"
| "addElem name (GSlice vs) = rbind (addDoc (GSlice vs)) (\<lambda>b. Inr (elemName 0x04 name @ b))"
| "addElem name (GRaw k d) =
     (let kind = (if k = 0x00 then 0x03 else k) in
      if d = [] \<and> kind \<noteq> 0x06 \<and> kind \<noteq> 0x0A \<and> kind \<noteq> 0xFF \<and> kind \<noteq> 0x7F then empty_raw
      else Inr (elemName kind name @ d))"
| "addElem name (GBinary k d) = Inr (elemName 0x05 name @ addBinary k d)"
| "addElem name (GDBPointer ns oid) =
     (if length oid \<noteq> 12 then Inl (Panic ''ObjectIDs must be exactly 12 bytes long'')
      else Inr (elemName 0x0C name @ addStr ns @ raw oid))"
| "addElem name (GRegEx p opts) = Inr (elemName 0x0B name @ addCStr p @ addCStr opts)"
| "addElem name (GJavaScript code None) = Inr (elemName 0x0D name @ addStr code)"
| "addElem name (GJavaScript code (Some scope)) =
     rbind (addDoc scope) (\<lambda>b. Inr (elemName 0x0F name @ sized (addStr code @ b)))"
| "addElem name (GTime t) = Inr (elemName 0x09 name @ enc64 (unix_millis t))"
| "addElem name GUndefined = Inr (elemName 0x06 name)"
| "addElem name (GPrecise t) =
     Inr (elemName 0x03 name @ docBytes
       (elemName 0x12 ''sec'' @ enc64 (precise_sec t) @ elemName 0x10 ''nsec'' @ enc32 (precise_nsec t)))"
| "addElem name (GStruct fs) = rbind (addDoc (GStruct fs)) (\<lambda>b. Inr (elemName 0x03 name @ b))"
| "addDoc (GRaw k d) =
     (if k \<noteq> 0x03 \<and> k \<noteq> 0x00 then Inl (Panic ''Attempted to marshal Raw kind as a document'')
      else if d = [] then empty_raw else Inr d)"
| "addDoc (GM es) = rbind (addElems es) (\<lambda>b. Inr (docBytes b))"
| "addDoc (GStruct fs) = rbind (addStruct fs) (\<lambda>b. Inr (docBytes b))"
| "addDoc (GD es) = rbind (addElems es) (\<lambda>b. Inr (docBytes b))"
| "addDoc (GRawD es) = rbind (addElems es) (\<lambda>b. Inr (docBytes b))"
| "addDoc (GSlice vs) = rbind (addSlice 0 vs) (\<lambda>b. Inr (docBytes b))"
| "addDoc (GBytes bs) =
     Inr (docBytes (concat (map (\<lambda>(i, x). elemName 0x10 (itoa (int i)) @ enc32 (ucast x)) (enumerate 0 bs))))"
| "addDoc v = Inl (Panic ''Can't marshal as a BSON document'')"
| "addElems [] = Inr []"
| "addElems ((name, v) # es) =
     rbind (addElem name v) (\<lambda>b. rbind (addElems es) (\<lambda>b'. Inr (b @ b')))"
| "addStruct [] = Inr []"
| "addStruct ((name, omitEmpty, v) # fs) =
     (if omitEmpty \<and> isZero v then addStruct fs
      else rbind (addElem name v) (\<lambda>b. rbind (addStruct fs) (\<lambda>b'. Inr (b @ b'))))"
| "addSlice i [] = Inr []"
| "addSlice i (v # vs) =
     rbind (addElem (itoa (int i)) v) (\<lambda>b. rbind (addSlice (i + 1) vs) (\<lambda>b'. Inr (b @ b')))"
  by pat_completeness auto
termination
  by (relation "measure (\<lambda>x. case x of
        Inl (Inl (_, v)) \<Rightarrow> 2 * size v + 1
      | Inl (Inr v) \<Rightarrow> 2 * size v
      | Inr (Inl es) \<Rightarrow> 2 * size_list (size_prod (\<lambda>_. 0) size) es + 1
      | Inr (Inr (Inl fs)) \<Rightarrow> 2 * size_list (size_prod (\<lambda>_. 0) (size_prod (\<lambda>_. 0) size)) fs + 1
      | Inr (Inr (Inr (_, vs))) \<Rightarrow> 2 * size_list size vs + 1)") auto

lemma GetBSON_addElem: "addElem name (GPrecise t) = addElem name (GetBSON t)"
  by (simp add: GetBSON_def)

subsection \<open>Marshal and Unmarshal\<close>

text \<open>
  \<open>handleErr\<close>: a panic with a string becomes an error, one of the run time goes on.
\<close>

definition runtime_panic :: "string \<Rightarrow> bool" where
  "runtime_panic s \<longleftrightarrow> take 14 s = ''runtime error:''"

definition handleErr :: "'a res \<Rightarrow> 'a res" where
  "handleErr r =
     (case r of
        Inl (Panic s) \<Rightarrow> if runtime_panic s then r else Inl (Error (Errorf s []))
      | _ \<Rightarrow> r)"

definition Marshal :: "goval \<Rightarrow> bytes res" where
  "Marshal v = handleErr (addDoc v)"

definition unmarshal_fuel :: "bytes \<Rightarrow> nat" where
  "unmarshal_fuel inp = 2 * length inp + 4"

text \<open>
  \<open>Unmarshal\<close> into a pointer to a variable of type \<open>t\<close> that holds \<open>old\<close>, and \<open>Raw.Unmarshal\<close>,
  which reports a kind that does not fit. Both give the new contents of the variable.
\<close>

definition Unmarshal :: "gotype \<Rightarrow> goval \<Rightarrow> bytes \<Rightarrow> goval res" where
  "Unmarshal t old inp =
     (if t = TRaw then Inr (GRaw 3 inp)
      else handleErr
        (rbind (readDocTo (readElemTo (unmarshal_fuel inp)) t old TM inp 0) (\<lambda>(v, _). Inr v)))"

definition Raw_Unmarshal :: "gotype \<Rightarrow> goval \<Rightarrow> byte \<Rightarrow> bytes \<Rightarrow> goval res" where
  "Raw_Unmarshal t old kind data =
     handleErr
       (rbind (readElemTo (unmarshal_fuel data) t old kind TM data 0) (\<lambda>(good, v, _).
          if good then Inr v else Inl (Error (Errorf ''BSON kind isn't compatible with type'' [uint kind]))))"

text \<open>\<open>D.Map\<close>: later elements replace earlier ones of the same name.\<close>

definition D_Map :: "(string \<times> goval) list \<Rightarrow> (string \<times> goval) list" where
  "D_Map d = foldl (\<lambda>m (k, v). map_put k v m) [] d"

end
