(* ===== verification/Bson_Correct.thy ===== *)
theory Bson_Correct
  imports Bson
begin

text \<open>
  What the BSON codec guarantees: the decoder stays inside its input and its only panics are
  those that the recovery turns into errors, for every destination type and every input; and
  what the encoder writes is read back, for values that \<open>fits\<close> types. The collection
  \<open>within_intros\<close> bounds the readers; \<open>reads_back\<close> is the contract between the encoder and the
  decoder of one element, proved for each kind and lifted through the frame of a document.
\<close>

subsection \<open>Decoding stays within the input\<close>

named_theorems within_intros

definition soft :: "'a res \<Rightarrow> bool" where
  "soft r \<longleftrightarrow> (case r of Inl (Panic s) \<Rightarrow> \<not> runtime_panic s | Inl Hang \<Rightarrow> False | _ \<Rightarrow> True)"

definition within :: "('a \<Rightarrow> nat) \<Rightarrow> bytes \<Rightarrow> nat \<Rightarrow> 'a res \<Rightarrow> bool" where
  "within pos inp i r \<longleftrightarrow> soft r \<and> (\<forall>y. r = Inr y \<longrightarrow> i \<le> pos y \<and> pos y \<le> length inp)"

lemma soft_simps [simp]:
  "soft (Inr x)" "soft (Inl (Error e))" "soft (Inl (Panic s)) \<longleftrightarrow> \<not> runtime_panic s" "\<not> soft (Inl Hang)"
  by (simp_all add: soft_def)

lemma within_Inr [simp]: "within pos inp i (Inr y) \<longleftrightarrow> i \<le> pos y \<and> pos y \<le> length inp"
  by (simp add: within_def)

lemma within_Inl [simp]: "within pos inp i (Inl e) \<longleftrightarrow> soft (Inl e :: unit res)"
  by (cases e) (simp_all add: within_def)

lemma within_rbind [within_intros]:
  assumes "within pos inp i r"
    and "\<And>y. r = Inr y \<Longrightarrow> i \<le> pos y \<Longrightarrow> pos y \<le> length inp \<Longrightarrow> within pos' inp (pos y) (h y)"
  shows "within pos' inp i (rbind r h)"
proof (cases r)
  case (Inl e)
  with assms(1) show ?thesis by (cases e) (simp_all add: within_def)
next
  case (Inr y)
  with assms show ?thesis by (fastforce simp: within_def)
qed

lemma within_soft: "within pos inp i r \<Longrightarrow> soft r"
  by (simp add: within_def)

lemma soft_rbind: "soft r \<Longrightarrow> (\<And>y. r = Inr y \<Longrightarrow> soft (h y)) \<Longrightarrow> soft (rbind r h)"
  by (cases r) (auto simp: soft_def split: fault.splits)

lemma within_rbind_soft:
  "soft r \<Longrightarrow> (\<And>y. r = Inr y \<Longrightarrow> within pos inp i (h y)) \<Longrightarrow> within pos inp i (rbind r h)"
  by (cases r) (auto simp: soft_def within_def split: fault.splits)

lemma within_mono: "within pos inp i r \<Longrightarrow> i' \<le> i \<Longrightarrow> within pos inp i' r"
  by (auto simp: within_def)

lemma within_rbind_at:
  assumes "within pos inp i r" "i' \<le> i"
    and "\<And>y. r = Inr y \<Longrightarrow> i \<le> pos y \<Longrightarrow> pos y \<le> length inp \<Longrightarrow> within pos' inp (pos y) (h y)"
  shows "within pos' inp i' (rbind r h)"
  using within_rbind [OF assms(1,3)] assms(2) within_mono by blast

lemma runtime_panics [simp]:
  "\<not> runtime_panic ''Document is corrupted''"
  "\<not> runtime_panic ''encoded boolean must be 1 or 0''"
  "\<not> runtime_panic ''Unknown element kind''"
  "\<not> runtime_panic ''Unsupported document type for unmarshalling''"
  "runtime_panic ''runtime error: index out of range''"
  by (simp_all add: runtime_panic_def)

lemma readByte_within [within_intros]: "within snd inp i (readByte inp i)"
  by (simp add: readByte_def)

lemma readBytes_within [within_intros]: "within snd inp i (readBytes inp n i)"
  by (simp add: readBytes_def Let_def)

lemma readInt32_within [within_intros]: "within snd inp i (readInt32 inp i)"
  unfolding readInt32_def by (rule within_rbind [OF readBytes_within]) auto

lemma readInt64_within [within_intros]: "within snd inp i (readInt64 inp i)"
  unfolding readInt64_def by (rule within_rbind [OF readBytes_within]) auto

lemma readBool_within [within_intros]: "within snd inp i (readBool inp i)"
  unfolding readBool_def by (rule within_rbind [OF readByte_within]) auto

lemma readCStr_within [within_intros]: "i \<le> length inp \<Longrightarrow> within snd inp i (readCStr inp i)"
  by (simp add: readCStr_def Let_def)

lemma readStr_within [within_intros]: "within snd inp i (readStr inp i)"
  unfolding readStr_def
  by (rule within_rbind [OF readInt32_within], clarsimp,
      rule within_rbind [OF readBytes_within, THEN within_mono], clarsimp,
      rule within_rbind [OF readByte_within, THEN within_mono]) auto

lemma readBinary_within [within_intros]: "within snd inp i (readBinary inp i)"
  unfolding readBinary_def
  by (rule within_rbind [OF readInt32_within], clarsimp,
      rule within_rbind [OF readByte_within, THEN within_mono], clarsimp,
      rule within_rbind [OF readBytes_within, THEN within_mono]) auto

lemma readRegEx_within [within_intros]: "i \<le> length inp \<Longrightarrow> within snd inp i (readRegEx inp i)"
  unfolding readRegEx_def
  by (rule within_rbind [OF readCStr_within], assumption, clarsimp,
      rule within_rbind [OF readCStr_within, THEN within_mono]) auto

lemma rmap_within [within_intros]: "within snd inp i r \<Longrightarrow> within snd inp i (rmap f r)"
  unfolding rmap_def by (rule within_rbind) auto

lemma within_if [within_intros]:
  "(b \<Longrightarrow> within pos inp i x) \<Longrightarrow> (\<not> b \<Longrightarrow> within pos inp i y) \<Longrightarrow> within pos inp i (if b then x else y)"
  by simp

lemma readDBPointer_within [within_intros]:
  "within snd inp i (rbind (readStr inp i) (\<lambda>(ns, i). rmap (\<lambda>b. GDBPointer ns (str b)) (readBytes inp 12 i)))"
  by (rule within_rbind [OF readStr_within], clarsimp, rule rmap_within, rule readBytes_within)

lemma readScalar_within [within_intros]: "i \<le> length inp \<Longrightarrow> within snd inp i (readScalar kind inp i)"
  unfolding readScalar_def readFloat64_def
  by (intro within_intros) simp_all

lemma docLoop_within:
  assumes f: "\<And>acc kind name j. i0 < j \<Longrightarrow> j \<le> length inp \<Longrightarrow> within snd inp j (f acc kind name j)"
    and "i0 \<le> i" "int i < e" "e \<le> int (length inp)" "length inp - i < m"
  shows "within snd inp i (docLoop m f acc inp e i)"
  using assms(2-)
proof (induction m arbitrary: acc i)
  case (Suc m)
  have "within snd inp i (readByte inp i)" by (rule readByte_within)
  have i: "i < length inp" using Suc.prems by simp
  have rb: "readByte inp i = Inr (inp ! i, i + 1)" using i by (simp add: readByte_def)
  have cs: "within snd inp (i + 1) (readCStr inp (i + 1))" using i by (intro readCStr_within) simp
  show ?case
  proof (cases "inp ! i = 0")
    case False
    have "within snd inp i (rbind (readCStr inp (i + 1)) (\<lambda>(name, i'). if int i' \<ge> e then corrupted
        else rbind (f acc (inp ! i) name i') (\<lambda>(acc, i). if int i \<ge> e then corrupted else docLoop m f acc inp e i)))"
    proof (rule within_rbind_at [OF cs], simp, clarify)
      fix name :: string and j assume j: "i + 1 \<le> snd (name, j)" "snd (name, j) \<le> length inp"
      have "within snd inp j (f acc (inp ! i) name j)" using j Suc.prems(1) by (intro f) auto
      then show "within snd inp (snd (name, j)) (if int j \<ge> e then corrupted
        else rbind (f acc (inp ! i) name j) (\<lambda>(acc, i). if int i \<ge> e then corrupted else docLoop m f acc inp e i))"
        using j Suc.prems by (auto intro!: within_rbind Suc.IH)
    qed
    with False i show ?thesis by (simp add: rb)
  qed (use i in simp)
qed simp

lemma sliceLoop_within:
  assumes f: "\<And>acc kind j. i0 < j \<Longrightarrow> j \<le> length inp \<Longrightarrow> within snd inp j (f acc kind j)"
    and "i0 \<le> i" "int i < e" "e \<le> int (length inp)" "length inp - i < m"
  shows "within snd inp i (sliceLoop m f acc inp e i)"
  using assms(2-)
proof (induction m arbitrary: acc i)
  case (Suc m)
  have i: "i < length inp" using Suc.prems by simp
  have rb: "readByte inp i = Inr (inp ! i, i + 1)" using i by (simp add: readByte_def)
  show ?case
    using i Suc.prems
    by (auto simp: rb Let_def intro!: within_rbind_at [OF f] Suc.IH)
qed simp

lemma docFrame_within:
  assumes loop: "\<And>acc e j. i + 4 \<le> j \<Longrightarrow> int j < e \<Longrightarrow> e \<le> int (length inp) \<Longrightarrow>
      within snd inp j (loop (length inp) acc inp e j)"
  shows "within snd inp i (docFrame loop acc inp i)"
  unfolding docFrame_def
proof (rule within_rbind [OF readInt32_within], clarify)
  fix l j assume r: "readInt32 inp i = Inr (l, j)" and j: "i \<le> snd (l, j)" "snd (l, j) \<le> length inp"
  have j4: "j = i + 4" using r by (auto simp: readInt32_def readBytes_def rbind_eq_Inr split: if_splits)
  show "within snd inp (snd (l, j))
     (let e = sint l + int j - 4
      in if e \<le> int j \<or> int (length inp) < e \<or> inp ! nat (e - 1) \<noteq> 0 then corrupted
         else rbind (loop (length inp) acc inp e j)
               (\<lambda>(acc, i). let i = i + 1 in if int i \<noteq> e then corrupted else Inr (acc, i)))"
    using j4 by (auto simp: Let_def intro!: within_rbind [OF loop])
qed

text \<open>
  What \<open>readElemTo\<close> does for inputs whose rest is shorter than its fuel allows: it stays inside
  the input and fails only with a panic that carries a string.
\<close>

definition rank :: "gotype \<Rightarrow> nat" where
  "rank t = (case t of TStruct _ \<Rightarrow> 0 | _ \<Rightarrow> 1)"

abbreviation elem_pos :: "bool \<times> goval \<times> nat \<Rightarrow> nat" where
  "elem_pos y \<equiv> snd (snd y)"

definition elem_ok :: "nat \<Rightarrow> elem_fn \<Rightarrow> bool" where
  "elem_ok n elem \<longleftrightarrow>
     (\<forall>t old kind mode inp i. i \<le> length inp \<longrightarrow> 2 * (length inp - i) + 2 + rank t \<le> n \<longrightarrow>
        within elem_pos inp i (elem t old kind mode inp i))"

lemma elem_okD:
  "elem_ok n elem \<Longrightarrow> i \<le> length inp \<Longrightarrow> 2 * (length inp - i) + 3 \<le> n \<Longrightarrow>
     within elem_pos inp i (elem t old kind mode inp i)"
  unfolding elem_ok_def rank_def by (auto split: gotype.splits)

lemma dropElem_within:
  "elem_ok n elem \<Longrightarrow> i \<le> length inp \<Longrightarrow> 2 * (length inp - i) + 2 \<le> n \<Longrightarrow>
     within (\<lambda>j. j) inp i (dropElem elem kind mode inp i)"
  unfolding dropElem_def by (rule within_rbind [of elem_pos]) (auto simp: elem_ok_def rank_def)

lemma readDocWith_within:
  assumes "\<And>acc kind name j. i + 4 < j \<Longrightarrow> j \<le> length inp \<Longrightarrow> within snd inp j (f acc kind name j)"
  shows "within snd inp i (readDocWith f acc inp i)"
  unfolding readDocWith_def
  by (rule docFrame_within, rule docLoop_within [of "i + 4"]) (use assms in auto)

lemma readDocElems_within:
  assumes "elem_ok n elem" "i \<le> length inp" "2 * (length inp - i) \<le> n"
  shows "within snd inp i (readDocElems elem inp i)"
    and "within snd inp i (readRawDocElems elem inp i)"
    and "within snd inp i (readMap elem inp i)"
  unfolding readDocElems_def readRawDocElems_def readMap_def
  using assms
  by (auto intro!: rmap_within readDocWith_within within_rbind [OF elem_okD])

lemma readStruct_within:
  assumes "elem_ok n elem" "i \<le> length inp" "2 * (length inp - i) \<le> n"
  shows "within snd inp i (readStruct elem fs mode inp i)"
  unfolding readStruct_def
  using assms
  by (auto intro!: rmap_within readDocWith_within within_rbind [OF elem_okD] within_rbind [OF dropElem_within]
      split: option.splits)

lemma readRawDoc_within:
  assumes "elem_ok n elem" "i \<le> length inp" "2 * (length inp - i) \<le> n"
  shows "within snd inp i (readRawDoc elem mode inp i)"
proof -
  have "within snd inp i (readDocWith (\<lambda>acc kind name i.
       rbind (dropElem elem kind mode inp i) (\<lambda>i. Inr (acc, i))) () inp i)"
    using assms by (auto intro!: readDocWith_within within_rbind [OF dropElem_within])
  then show ?thesis unfolding readRawDoc_def by (rule within_rbind) auto
qed

lemma SetBSON_soft:
  assumes "elem_ok n elem" "2 * length d + 2 \<le> n"
  shows "soft (SetBSON elem old kind d)"
proof -
  have "within elem_pos d 0 (elem (TStruct preciseFields) (GStruct (zero_fields preciseFields)) kind TM d 0)"
    using assms unfolding elem_ok_def by (simp add: rank_def)
  then show ?thesis
    unfolding SetBSON_def by (intro soft_rbind) (auto dest: within_soft)
qed

lemma readDocTo_within:
  assumes "elem_ok n elem" "i \<le> length inp" "2 * (length inp - i) + 2 + rank t \<le> Suc n"
  shows "within snd inp i (readDocTo elem t old mode inp i)"
  using assms(3)
proof (induction t arbitrary: old)
  case TPrecise
  have "within snd inp i (readRawDoc elem mode inp i)"
    using assms TPrecise by (intro readRawDoc_within) (auto simp: rank_def)
  then show ?case
    unfolding readDocTo.simps
  proof (rule within_rbind, clarify)
    fix r j assume r: "readRawDoc elem mode inp i = Inr (r, j)" "i \<le> snd (r, j)" "snd (r, j) \<le> length inp"
    then have "r = GRaw 3 (take (j - i) (drop i inp))"
      by (auto simp: readRawDoc_def rbind_eq_Inr)
    moreover have "soft (SetBSON elem old 3 (take (j - i) (drop i inp)))"
      using r TPrecise by (intro SetBSON_soft [OF assms(1)]) (auto simp: rank_def)
    ultimately show "within snd inp (snd (r, j)) (case r of GRaw kind d \<Rightarrow>
        rbind (SetBSON elem old kind d) (\<lambda>(_, v). Inr (v, j)) | _ \<Rightarrow> Inr (old, j))"
      using r by (auto intro!: within_rbind_soft)
  qed
next
  case (TPtr t)
  then show ?case by (simp add: rank_def split: gotype.splits)
next
  case TIface
  have *: "2 * (length inp - i) \<le> n" using TIface by (simp add: rank_def)
  show ?case using readDocElems_within [OF assms(1,2) *] by (simp split: gotype.split)
next
  case (TStruct fs)
  then show ?case using readStruct_within [OF assms(1,2)] by (simp add: rank_def)
qed (use readDocElems_within [OF assms(1,2)] readRawDoc_within [OF assms(1,2)] in \<open>simp_all add: rank_def\<close>)

lemma readSliceElems_within:
  assumes "elem_ok n elem" "i \<le> length inp" "2 * (length inp - i) \<le> n"
  shows "within snd inp i (readSliceElems elem t mode inp i)"
  unfolding readSliceElems_def
  by (rule docFrame_within, rule sliceLoop_within [of "i + 4"])
     (use assms in \<open>auto intro!: within_rbind [OF elem_okD]\<close>)

lemma readSliceDoc_within:
  assumes "elem_ok n elem" "i \<le> length inp" "2 * (length inp - i) \<le> n"
    and "t = TRawD \<Longrightarrow> 2 * (length inp - i) + 2 \<le> n"
  shows "within snd inp i (readSliceDoc elem t mode inp i)"
  unfolding readSliceDoc_def
  using readSliceElems_within [OF assms(1-3)] assms
  by (auto intro!: rmap_within within_rbind [OF dropElem_within] split: gotype.split)

lemma deref_rank: "deref t = TRawD \<Longrightarrow> rank t = 1"
  by (cases t) (auto simp: rank_def)

lemma readValue_within:
  assumes ok: "elem_ok n elem" "i \<le> length inp" "2 * (length inp - i) + 2 + rank t \<le> Suc n"
  shows "within snd inp i (readValue elem t kind mode inp i)"
proof -
  consider (arr) "kind = 4" | (code) "kind = 15" | (scalar) "kind \<noteq> 4" "kind \<noteq> 15" by blast
  then show ?thesis
  proof cases
    case arr
    show ?thesis
    proof (cases "t = TPrecise")
      case True
      have "within (\<lambda>j. j) inp i (dropElem elem 4 mode inp i)"
        using ok True by (intro dropElem_within) (auto simp: rank_def)
      then have "within snd inp i (rbind (dropElem elem 4 mode inp i) (\<lambda>i. Inr (GNil, i)))"
        by (rule within_rbind) auto
      with True arr show ?thesis by (simp add: readValue_def)
    next
      case False
      have "within snd inp i (readSliceDoc elem (deref t) mode inp i)"
        using ok deref_rank [of t] by (intro readSliceDoc_within) auto
      with False arr show ?thesis by (simp add: readValue_def)
    qed
  next
    case code
    have "within snd inp i (rbind (readStr inp (i + 4)) (\<lambda>(s, i).
          rmap (\<lambda>sc. GJavaScript s (Some sc)) (readDocTo elem TM (GM []) mode inp i)))"
    proof (rule within_rbind_at [OF readStr_within], simp, clarify)
      fix s and j assume j: "i + 4 \<le> snd (s :: string, j)" "snd (s, j) \<le> length inp"
      have "within snd inp j (readDocTo elem TM (GM []) mode inp j)"
        using j ok by (intro readDocTo_within [OF ok(1)]) (auto simp: rank_def)
      then show "within snd inp (snd (s, j))
          (rmap (\<lambda>sc. GJavaScript s (Some sc)) (readDocTo elem TM (GM []) mode inp j))"
        by (simp add: rmap_within)
    qed
    with code show ?thesis by (simp add: readValue_def)
  next
    case scalar
    then show ?thesis using readScalar_within [OF ok(2)] by (simp add: readValue_def)
  qed
qed

lemma readElemTo_other:
  assumes ok: "elem_ok n (readElemTo n)" "i \<le> length inp" "2 * (length inp - i) + 2 + rank t \<le> Suc n"
    and "kind \<noteq> 3"
  shows "within elem_pos inp i (readElemTo (Suc n) t old kind mode inp i)"
proof -
  have *: "within elem_pos inp i (rbind (readValue (readElemTo n) t kind mode inp i) (\<lambda>(v, j).
          let d = take (j - i) (drop i inp) in
          if t = TRaw then Inr (True, GRaw kind d, j)
          else if t = TPrecise then
            rbind (SetBSON (readElemTo n) old kind d) (\<lambda>(good, w). Inr (good, w, j))
          else
            let (good, w) = assign t old v in Inr (good, w, j)))"
  proof (rule within_rbind [OF readValue_within [OF ok]], clarify)
    fix v j assume j: "i \<le> snd (v :: goval, j)" "snd (v, j) \<le> length inp"
    have "soft (SetBSON (readElemTo n) old kind (take (j - i) (drop i inp)))" if "t = TPrecise"
      using ok j that by (intro SetBSON_soft [OF ok(1)]) (auto simp: rank_def)
    then show "within elem_pos inp (snd (v, j)) (let d = take (j - i) (drop i inp) in
          if t = TRaw then Inr (True, GRaw kind d, j)
          else if t = TPrecise then
            rbind (SetBSON (readElemTo n) old kind d) (\<lambda>(good, w). Inr (good, w, j))
          else
            let (good, w) = assign t old v in Inr (good, w, j))"
      using j by (auto simp: Let_def split: prod.split intro!: within_rbind_soft)
  qed
  with assms(4) show ?thesis by simp
qed

lemma readElemTo_doc:
  assumes ok: "elem_ok n (readElemTo n)" "i \<le> length inp" "2 * (length inp - i) + 2 + rank t \<le> Suc n"
  shows "within elem_pos inp i (readElemTo (Suc n) t old 3 mode inp i)"
proof -
  have "within elem_pos inp i (rbind (readDocTo (readElemTo n) t old mode inp i) (\<lambda>(v, i). Inr (True, v, i)))"
    by (rule within_rbind [OF readDocTo_within [OF ok]]) auto
  moreover have "within elem_pos inp i (rbind (readStruct (readElemTo n) [] mode inp i) (\<lambda>(_, i). Inr (True, old, i)))"
    using ok by (intro within_rbind [OF readStruct_within [OF ok(1,2)]]) auto
  ultimately show ?thesis using ok(2) by (cases t) simp_all
qed

lemma readElemTo_ok: "elem_ok n (readElemTo n)"
proof (induction n)
  case 0
  show ?case unfolding elem_ok_def by simp
next
  case (Suc n)
  show ?case
    unfolding elem_ok_def
  proof (intro allI impI)
    fix t old kind mode i and inp :: bytes
    assume "i \<le> length inp" "2 * (length inp - i) + 2 + rank t \<le> Suc n"
    from readElemTo_doc [OF Suc this] readElemTo_other [OF Suc this, of kind]
    show "within elem_pos inp i (readElemTo (Suc n) t old kind mode inp i)"
      by (cases "kind = 3") (simp_all del: readElemTo.simps)
  qed
qed

lemma soft_handleErr: "soft r \<Longrightarrow> no_panic (handleErr r)"
  by (auto simp: handleErr_def no_panic_def soft_def split: sum.splits fault.splits)

lemma Unmarshal_total: "no_panic (Unmarshal t old inp)"
proof -
  have "within snd inp 0 (readDocTo (readElemTo (unmarshal_fuel inp)) t old TM inp 0)"
    by (rule readDocTo_within [OF readElemTo_ok]) (auto simp: unmarshal_fuel_def rank_def split: gotype.split)
  then show ?thesis
    by (auto simp: Unmarshal_def intro!: soft_handleErr soft_rbind dest: within_soft)
qed

lemma Raw_Unmarshal_total: "no_panic (Raw_Unmarshal t old kind data)"
proof -
  have "within elem_pos data 0 (readElemTo (unmarshal_fuel data) t old kind TM data 0)"
    by (rule elem_okD [OF readElemTo_ok]) (auto simp: unmarshal_fuel_def)
  then show ?thesis
    by (auto simp: Raw_Unmarshal_def intro!: soft_handleErr soft_rbind dest: within_soft)
qed

subsection \<open>Reading back what was encoded\<close>

definition nul_free :: "string \<Rightarrow> bool" where
  "nul_free s \<longleftrightarrow> 0 \<notin> set (raw s)"

lemma readByte_at [simp]: "readByte (pre @ x # post) (length pre) = Inr (x, Suc (length pre))"
  by (simp add: readByte_def)

lemma readBytes_at:
  "sint n = int (length p) \<Longrightarrow> readBytes (pre @ p @ post) n (length pre) = Inr (p, length pre + length p)"
  by (simp add: readBytes_def Let_def)

lemma readInt32_at [simp]: "readInt32 (pre @ enc32 w @ post) (length pre) = Inr (w, length pre + 4)"
  using readBytes_at [of 4 "enc32 w" pre post]
  by (simp add: readInt32_def enc32_def le32_enc)

lemma readInt64_at [simp]: "readInt64 (pre @ enc64 w @ post) (length pre) = Inr (w, length pre + 8)"
  using readBytes_at [of 8 "enc64 w" pre post]
  by (simp add: readInt64_def enc64_def le64_enc)

lemma takeWhile_nul: "nul_free s \<Longrightarrow> takeWhile (\<lambda>x. x \<noteq> 0) (raw s @ 0 # post) = raw s"
  unfolding nul_free_def by (subst takeWhile_append2) auto

lemma readCStr_at [simp]:
  "nul_free s \<Longrightarrow> readCStr (pre @ raw s @ 0 # post) (length pre) = Inr (s, length pre + length s + 1)"
  by (simp add: readCStr_def takeWhile_nul Let_def)

lemma docLoop_elems:
  assumes "\<forall>x\<in>set xs. case x of (k, nm, p, g) \<Rightarrow> k \<noteq> 0 \<and> nul_free nm \<and>
      (\<forall>acc pre post. inp = pre @ p @ post \<longrightarrow>
         f acc k nm (length pre) = Inr (g acc, length pre + length p))"
    and "b = concat (map (\<lambda>(k, nm, p, g). elemName k nm @ p) xs)"
    and "inp = pre @ b @ 0 # post" "length xs < m" "e = int (length pre + length b + 1)"
  shows "docLoop m f acc inp e (length pre) = Inr (fold (\<lambda>(k, nm, p, g). g) xs acc, length pre + length b)"
  using assms
proof (induction xs arbitrary: acc pre b m)
  case Nil
  then show ?case by (cases m) simp_all
next
  case (Cons x xs)
  obtain k nm p g where x: "x = (k, nm, p, g)" by (cases x)
  from Cons.prems(4) obtain m' where m: "m = Suc m'" by (cases m) auto
  let ?b = "concat (map (\<lambda>(k, nm, p, g). elemName k nm @ p) xs)"
  let ?pre = "pre @ k # raw nm @ [0]"
  have k: "k \<noteq> 0" "nul_free nm" and
    f: "\<And>acc pre post. inp = pre @ p @ post \<Longrightarrow> f acc k nm (length pre) = Inr (g acc, length pre + length p)"
    using Cons.prems(1) x by auto
  have b: "b = k # raw nm @ 0 # p @ ?b" using Cons.prems(2) x by (simp add: elemName_def)
  have inp: "inp = pre @ k # raw nm @ 0 # p @ ?b @ 0 # post" using Cons.prems(3) b by simp
  have rb: "readByte inp (length pre) = Inr (k, Suc (length pre))" using inp by simp
  have "readCStr ((pre @ [k]) @ raw nm @ 0 # p @ ?b @ 0 # post) (length (pre @ [k])) =
      Inr (nm, length (pre @ [k]) + length nm + 1)"
    by (rule readCStr_at [OF k(2)])
  then have rc: "readCStr inp (Suc (length pre)) = Inr (nm, length ?pre)" using inp by simp
  have fx: "f acc k nm (length ?pre) = Inr (g acc, length (?pre @ p))" for acc
    using f [of ?pre "?b @ 0 # post"] inp by simp
  have "docLoop m' f (g acc) inp e (length (?pre @ p)) =
      Inr (fold (\<lambda>(k, nm, p, g). g) xs (g acc), length (?pre @ p) + length ?b)"
  proof (rule Cons.IH [OF _ refl])
    show "\<forall>x\<in>set xs. case x of (k, nm, p, g) \<Rightarrow> k \<noteq> 0 \<and> nul_free nm \<and>
      (\<forall>acc pre post. inp = pre @ p @ post \<longrightarrow>
         f acc k nm (length pre) = Inr (g acc, length pre + length p))" using Cons.prems(1) by simp
    show "inp = (?pre @ p) @ ?b @ 0 # post" using inp by simp
    show "length xs < m'" using Cons.prems(4) m by simp
    show "e = int (length (?pre @ p) + length ?b + 1)" using Cons.prems(5) b by simp
  qed
  moreover have "length pre < length inp" "inp ! length pre = k" using inp by auto
  moreover have "int (length ?pre) < e" "int (length (?pre @ p)) < e" using Cons.prems(5) b by auto
  moreover have "length (?pre @ p) + length ?b = length pre + length b" using b by simp
  ultimately show ?case using m k x by (simp add: rb rc fx del: length_append)
qed

lemma docFrame_at:
  assumes "inp = pre @ docBytes b @ post" "length inp < 2 ^ 31"
    and "loop (length inp) acc inp (int (length pre + 4 + length b + 1)) (length pre + 4) =
      Inr (acc', length pre + 4 + length b)"
  shows "docFrame loop acc inp (length pre) = Inr (acc', length pre + length (docBytes b))"
proof -
  let ?l = "word_of_nat (4 + length (b @ [0])) :: int32"
  have inp: "inp = pre @ enc32 ?l @ (b @ 0 # post)"
    using assms(1) by (simp add: docBytes_def sized_def)
  have l: "sint ?l = int (length b + 5)"
    using assms(2) inp by (subst sint_word_of_nat) auto
  have r: "readInt32 inp (length pre) = Inr (?l, length pre + 4)" using inp by simp
  have "inp ! (length pre + 4 + length b) = 0"
    using inp by (simp add: nth_append)
  moreover have "nat (int (length pre + 4 + length b + 1) - 1) = length pre + 4 + length b" by simp
  ultimately have z: "inp ! nat (int (length pre + 4 + length b + 1) - 1) = 0" by (simp only:)
  have e: "sint ?l + int (length pre + 4) - 4 = int (length pre + 4 + length b + 1)" using l by simp
  have n: "length inp = length pre + length b + 5 + length post" using inp by simp
  have d: "length (docBytes b) = length b + 5" by (simp add: docBytes_def sized_def)
  show ?thesis
    unfolding docFrame_def r rbind_Inr prod.case e Let_def
    using z n d assms(3) by simp
qed

lemma take_prefix: "xs = ys @ zs \<Longrightarrow> n = length ys \<Longrightarrow> take n xs = ys"
  by simp

lemma nul_free_itoa: "nul_free (itoa i)"
proof -
  have d: "(48 + word_of_nat k :: byte) \<noteq> 0" if "k < 10" for k :: nat
  proof -
    from that have "k = 0 \<or> k = 1 \<or> k = 2 \<or> k = 3 \<or> k = 4 \<or> k = 5 \<or> k = 6 \<or> k = 7 \<or> k = 8 \<or> k = 9"
      by presburger
    then show ?thesis by (elim disjE) simp_all
  qed
  have n: "0 \<notin> set (raw (nat_digits n))" for n
    by (induction n rule: nat_digits.induct, subst nat_digits.simps) (auto simp: raw_def d)
  have m: "(word_of_nat (of_char CHR ''-'') :: byte) \<noteq> 0" by simp
  show ?thesis
    using n by (auto simp: nul_free_def itoa_def raw_def)
qed

lemma sliceLoop_elems:
  assumes "\<forall>x\<in>set xs. case x of (k, nm, p, g) \<Rightarrow> k \<noteq> 0 \<and> nul_free nm \<and>
      (\<forall>acc pre post. inp = pre @ p @ post \<longrightarrow>
         f acc k (length pre) = Inr (g acc, length pre + length p))"
    and "b = concat (map (\<lambda>(k, nm, p, g). elemName k nm @ p) xs)"
    and "inp = pre @ b @ 0 # post" "length xs < m" "e = int (length pre + length b + 1)"
  shows "sliceLoop m f acc inp e (length pre) = Inr (fold (\<lambda>(k, nm, p, g). g) xs acc, length pre + length b)"
  using assms
proof (induction xs arbitrary: acc pre b m)
  case Nil
  then show ?case by (cases m) simp_all
next
  case (Cons x xs)
  obtain k nm p g where x: "x = (k, nm, p, g)" by (cases x)
  from Cons.prems(4) obtain m' where m: "m = Suc m'" by (cases m) auto
  let ?b = "concat (map (\<lambda>(k, nm, p, g). elemName k nm @ p) xs)"
  let ?pre = "pre @ k # raw nm @ [0]"
  have k: "k \<noteq> 0" "nul_free nm" and
    f: "\<And>acc pre post. inp = pre @ p @ post \<Longrightarrow> f acc k (length pre) = Inr (g acc, length pre + length p)"
    using Cons.prems(1) x by auto
  have b: "b = k # raw nm @ 0 # p @ ?b" using Cons.prems(2) x by (simp add: elemName_def)
  have inp: "inp = pre @ k # raw nm @ 0 # p @ ?b @ 0 # post" using Cons.prems(3) b by simp
  have rb: "readByte inp (length pre) = Inr (k, Suc (length pre))" using inp by simp
  have "drop (Suc (length pre)) inp = (raw nm @ 0 # p @ ?b @ [0]) @ post" using inp by simp
  moreover have "nat e - Suc (length pre) = length (raw nm @ 0 # p @ ?b @ [0])" using Cons.prems(5) b by simp
  ultimately have "take (nat e - Suc (length pre)) (drop (Suc (length pre)) inp) = raw nm @ 0 # p @ ?b @ [0]"
    by (rule take_prefix)
  then have rc: "length (takeWhile (\<lambda>x. x \<noteq> 0) (take (nat e - Suc (length pre)) (drop (Suc (length pre)) inp)))
      = length nm"
    using takeWhile_nul [OF k(2)] by simp
  have fx: "f acc k (length ?pre) = Inr (g acc, length (?pre @ p))" for acc
    using f [of ?pre "?b @ 0 # post"] inp by simp
  have "sliceLoop m' f (g acc) inp e (length (?pre @ p)) =
      Inr (fold (\<lambda>(k, nm, p, g). g) xs (g acc), length (?pre @ p) + length ?b)"
  proof (rule Cons.IH [OF _ refl])
    show "\<forall>x\<in>set xs. case x of (k, nm, p, g) \<Rightarrow> k \<noteq> 0 \<and> nul_free nm \<and>
      (\<forall>acc pre post. inp = pre @ p @ post \<longrightarrow>
         f acc k (length pre) = Inr (g acc, length pre + length p))" using Cons.prems(1) by simp
    show "inp = (?pre @ p) @ ?b @ 0 # post" using inp by simp
    show "length xs < m'" using Cons.prems(4) m by simp
    show "e = int (length (?pre @ p) + length ?b + 1)" using Cons.prems(5) b by simp
  qed
  moreover have "length pre < length inp" "inp ! length pre = k" using inp by auto
  moreover have "int (Suc (length pre) + length nm) < e" "int (length (?pre @ p)) < e"
    using Cons.prems(5) b by auto
  moreover have "length (?pre @ p) + length ?b = length pre + length b" using b by simp
  moreover have "Suc (length pre) + length nm + 1 = length ?pre" by simp
  ultimately show ?case using m k x by (simp add: rb rc fx Let_def del: length_append)
qed

text \<open>
  \<open>encodes v k p\<close>: the element is encoded with kind \<open>k\<close> and bytes \<open>p\<close>, under any name.
  \<open>reads_back m t v k p\<close>: these bytes, anywhere in an input, read as \<open>v\<close> into a variable of
  type \<open>t\<close> when documents in interfaces become values of type \<open>m\<close>.
\<close>

definition encodes :: "goval \<Rightarrow> byte \<Rightarrow> bytes \<Rightarrow> bool" where
  "encodes v k p \<longleftrightarrow> k \<noteq> 0 \<and> (\<forall>nm. addElem nm v = Inr (elemName k nm @ p))"

definition reads_back :: "gotype \<Rightarrow> gotype \<Rightarrow> goval \<Rightarrow> byte \<Rightarrow> bytes \<Rightarrow> bool" where
  "reads_back m t v k p \<longleftrightarrow>
     (\<forall>n old pre post. 2 * length p + 3 \<le> n \<longrightarrow> length (pre @ p @ post) < 2 ^ 31 \<longrightarrow>
        readElemTo n t old k m (pre @ p @ post) (length pre) = Inr (True, v, length pre + length p))"

lemma reads_backD:
  "reads_back m t v k p \<Longrightarrow> inp = pre @ p @ post \<Longrightarrow> 2 * length p + 3 \<le> n \<Longrightarrow> length inp < 2 ^ 31 \<Longrightarrow>
     readElemTo n t old k m inp (length pre) = Inr (True, v, length pre + length p)"
  unfolding reads_back_def by blast

text \<open>The frame around elements that have been encoded, with the loop of each of the two kinds.\<close>

abbreviation enc_elems :: "(byte \<times> bytes \<times> string \<times> goval) list \<Rightarrow> bytes" where
  "enc_elems xs \<equiv> concat (map (\<lambda>(k, p, x). elemName k (fst x) @ p) xs)"

lemma encode_elems:
  assumes "\<forall>x\<in>set es. \<exists>k p. encodes (snd x) k p \<and> R x k p"
  obtains xs where "addElems es = Inr (enc_elems xs)"
    "map (\<lambda>(k, p, x). x) xs = es" "\<forall>(k, p, x)\<in>set xs. k \<noteq> 0 \<and> R x k p"
  using assms
proof (induction es arbitrary: thesis)
  case (Cons x es)
  then obtain xs where xs: "addElems es = Inr (enc_elems xs)"
    "map (\<lambda>(k, p, x). x) xs = es" "\<forall>(k, p, x)\<in>set xs. k \<noteq> 0 \<and> R x k p" by auto
  from Cons.prems(2) obtain k p where "encodes (snd x) k p" "R x k p" by auto
  with xs show ?case
    by (intro Cons.prems(1) [of "(k, p, x) # xs"]) (cases x, auto simp: encodes_def)
qed simp

lemma length_concat_ge: "x \<in> set xs \<Longrightarrow> length x \<le> length (concat xs)"
  by (induction xs) auto

lemma length_le_concat: "\<forall>x\<in>set xs. x \<noteq> [] \<Longrightarrow> length xs \<le> length (concat xs)"
proof (induction xs)
  case (Cons a xs)
  then have "1 \<le> length a" by (cases a) auto
  with Cons show ?case by simp
qed simp


lemma enc_elems_len: "(k, p, x) \<in> set xs \<Longrightarrow> length p + 2 \<le> length (enc_elems xs)"
proof -
  assume "(k, p, x) \<in> set xs"
  then have "elemName k (fst x) @ p \<in> set (map (\<lambda>(k, p, x). elemName k (fst x) @ p) xs)" by force
  from length_concat_ge [OF this] show ?thesis by (simp add: elemName_def)
qed

lemma enc_elems_count: "length xs \<le> length (enc_elems xs)"
  by (rule order_trans [OF _ length_le_concat]) (auto simp: elemName_def)

definition step_of :: "(string \<times> goval \<Rightarrow> 'a \<Rightarrow> 'a) \<Rightarrow>
    byte \<times> bytes \<times> string \<times> goval \<Rightarrow> byte \<times> string \<times> bytes \<times> ('a \<Rightarrow> 'a)" where
  "step_of G = (\<lambda>(k, p, x). (k, fst x, p, G x))"

lemma enc_elems_steps: "concat (map (\<lambda>(k, nm, p, g). elemName k nm @ p) (map (step_of G) xs)) = enc_elems xs"
  by (induction xs) (auto simp: step_of_def)

lemma fold_steps: "fold (\<lambda>(k, nm, p, g). g) (map (step_of G) xs) acc = fold G (map (\<lambda>(k, p, x). x) xs) acc"
  by (induction xs arbitrary: acc) (auto simp: step_of_def)

lemma frame_split: "inp = pre @ docBytes b @ post \<Longrightarrow> \<exists>l. inp = (pre @ enc32 l) @ b @ 0 # post"
  by (auto simp: docBytes_def sized_def)

lemma readDocWith_xs:
  assumes "inp = pre @ docBytes (enc_elems xs) @ post" "length inp < 2 ^ 31"
    and "\<forall>(k, p, x)\<in>set xs. k \<noteq> 0 \<and> nul_free (fst x)"
    and f: "\<And>x k p acc pre post. (k, p, x) \<in> set xs \<Longrightarrow> inp = pre @ p @ post \<Longrightarrow>
         f acc k (fst x) (length pre) = Inr (G x acc, length pre + length p)"
  shows "readDocWith f acc inp (length pre) =
    Inr (fold G (map (\<lambda>(k, p, x). x) xs) acc, length pre + length (docBytes (enc_elems xs)))"
  unfolding readDocWith_def
proof (rule docFrame_at [OF assms(1,2)])
  obtain l where inp: "inp = (pre @ enc32 l) @ enc_elems xs @ 0 # post" using frame_split [OF assms(1)] by blast
  have "docLoop (length inp) f acc inp (int (length (pre @ enc32 l) + length (enc_elems xs) + 1)) (length (pre @ enc32 l)) =
    Inr (fold (\<lambda>(k, nm, p, g). g) (map (step_of G) xs) acc, length (pre @ enc32 l) + length (enc_elems xs))"
  proof (rule docLoop_elems [OF _ enc_elems_steps [symmetric] inp _ refl])
    show "\<forall>y\<in>set (map (step_of G) xs). case y of (k, nm, p, g) \<Rightarrow> k \<noteq> 0 \<and> nul_free nm \<and>
        (\<forall>acc pre post. inp = pre @ p @ post \<longrightarrow> f acc k nm (length pre) = Inr (g acc, length pre + length p))"
      using assms(3) f by (fastforce simp: step_of_def)
    show "length (map (step_of G) xs) < length inp" using inp enc_elems_count [of xs] by simp
  qed
  then show "docLoop (length inp) f acc inp (int (length pre + 4 + length (enc_elems xs) + 1)) (length pre + 4) =
    Inr (fold G (map (\<lambda>(k, p, x). x) xs) acc, length pre + 4 + length (enc_elems xs))"
    by (simp add: fold_steps del: map_map)
qed

lemma readSlice_xs:
  assumes "inp = pre @ docBytes (enc_elems xs) @ post" "length inp < 2 ^ 31"
    and "\<forall>(k, p, x)\<in>set xs. k \<noteq> 0 \<and> nul_free (fst x)"
    and f: "\<And>x k p acc pre post. (k, p, x) \<in> set xs \<Longrightarrow> inp = pre @ p @ post \<Longrightarrow>
         f acc k (length pre) = Inr (G x acc, length pre + length p)"
  shows "docFrame (\<lambda>m. sliceLoop m f) acc inp (length pre) =
    Inr (fold G (map (\<lambda>(k, p, x). x) xs) acc, length pre + length (docBytes (enc_elems xs)))"
proof (rule docFrame_at [OF assms(1,2)])
  obtain l where inp: "inp = (pre @ enc32 l) @ enc_elems xs @ 0 # post" using frame_split [OF assms(1)] by blast
  have "sliceLoop (length inp) f acc inp (int (length (pre @ enc32 l) + length (enc_elems xs) + 1)) (length (pre @ enc32 l)) =
    Inr (fold (\<lambda>(k, nm, p, g). g) (map (step_of G) xs) acc, length (pre @ enc32 l) + length (enc_elems xs))"
  proof (rule sliceLoop_elems [OF _ enc_elems_steps [symmetric] inp _ refl])
    show "\<forall>y\<in>set (map (step_of G) xs). case y of (k, nm, p, g) \<Rightarrow> k \<noteq> 0 \<and> nul_free nm \<and>
        (\<forall>acc pre post. inp = pre @ p @ post \<longrightarrow> f acc k (length pre) = Inr (g acc, length pre + length p))"
      using assms(3) f by (fastforce simp: step_of_def)
    show "length (map (step_of G) xs) < length inp" using inp enc_elems_count [of xs] by simp
  qed
  then show "sliceLoop (length inp) f acc inp (int (length pre + 4 + length (enc_elems xs) + 1)) (length pre + 4) =
    Inr (fold G (map (\<lambda>(k, p, x). x) xs) acc, length pre + 4 + length (enc_elems xs))"
    by (simp add: fold_steps del: map_map)
qed

definition all_read :: "gotype \<Rightarrow> (string \<Rightarrow> gotype) \<Rightarrow> (string \<times> goval) list \<Rightarrow> bool" where
  "all_read m ty es \<longleftrightarrow>
     (\<forall>x\<in>set es. nul_free (fst x) \<and> (\<exists>k p. encodes (snd x) k p \<and> reads_back m (ty (fst x)) (snd x) k p))"

definition frame_reads ::
  "(elem_fn \<Rightarrow> bytes \<Rightarrow> nat \<Rightarrow> (goval \<times> nat) res) \<Rightarrow> bytes \<Rightarrow> goval \<Rightarrow> bool" where
  "frame_reads rd b v \<longleftrightarrow>
     (\<forall>n inp pre post. inp = pre @ docBytes b @ post \<longrightarrow> length inp < 2 ^ 31 \<longrightarrow> 2 * length b \<le> n \<longrightarrow>
        rd (readElemTo n) inp (length pre) = Inr (v, length pre + length (docBytes b)))"

lemma all_read_xs:
  assumes "all_read m ty es"
  obtains xs where "addElems es = Inr (enc_elems xs)" "map (\<lambda>(k, p, x). x) xs = es"
    "\<forall>(k, p, x)\<in>set xs. k \<noteq> 0 \<and> nul_free (fst x)"
    "\<forall>(k, p, x)\<in>set xs. reads_back m (ty (fst x)) (snd x) k p"
proof -
  have "\<forall>x\<in>set es. \<exists>k p. encodes (snd x) k p \<and> reads_back m (ty (fst x)) (snd x) k p \<and> nul_free (fst x)"
    using assms by (auto simp: all_read_def)
  from encode_elems [OF this] obtain xs where "addElems es = Inr (enc_elems xs)"
    "map (\<lambda>(k, p, x). x) xs = es"
    "\<forall>(k, p, x)\<in>set xs. k \<noteq> 0 \<and> reads_back m (ty (fst x)) (snd x) k p \<and> nul_free (fst x)" .
  then show thesis by (intro that [of xs]) auto
qed

lemma fold_append_elems: "fold (\<lambda>x acc. acc @ [x]) es acc = acc @ es"
  by (induction es arbitrary: acc) auto

lemma map_put_new: "k \<notin> fst ` set m \<Longrightarrow> map_put k v m = m @ [(k, v)]"
  by (induction m) auto

lemma fold_map_put:
  "distinct (map fst (acc @ es)) \<Longrightarrow> fold (\<lambda>x acc. map_put (fst x) (snd x) acc) es acc = acc @ es"
  by (induction es arbitrary: acc) (auto simp: map_put_new)

lemma readDocElems_at:
  assumes "all_read TD (\<lambda>_. TIface) es"
  obtains b where "addElems es = Inr b" "frame_reads readDocElems b (GD es)"
proof -
  obtain xs where xs: "addElems es = Inr (enc_elems xs)" "map (\<lambda>(k, p, x). x) xs = es"
    "\<forall>(k, p, x)\<in>set xs. k \<noteq> 0 \<and> nul_free (fst x)"
    "\<forall>(k, p, x)\<in>set xs. reads_back TD TIface (snd x) k p" by (rule all_read_xs [OF assms])
  have "frame_reads readDocElems (enc_elems xs) (GD es)"
    unfolding frame_reads_def readDocElems_def
  proof (intro allI impI)
    fix n inp pre post
    assume i: "inp = pre @ docBytes (enc_elems xs) @ post" "length inp < 2 ^ 31" "2 * length (enc_elems xs) \<le> n"
    let ?f = "\<lambda>acc kind name i. rbind (readElemTo n TIface GNil kind TD inp i)
      (\<lambda>(good, v, i). Inr (if good then acc @ [(name, v)] else acc, i))"
    have "readDocWith ?f [] inp (length pre) = Inr (fold (\<lambda>x acc. acc @ [(fst x, snd x)])
        (map (\<lambda>(k, p, x). x) xs) [], length pre + length (docBytes (enc_elems xs)))"
    proof (rule readDocWith_xs [OF i(1,2) xs(3)])
      fix x k p acc pre post assume x: "(k, p, x) \<in> set xs" "inp = pre @ p @ post"
      have "readElemTo n TIface GNil k TD inp (length pre) = Inr (True, snd x, length pre + length p)"
        using reads_backD [OF _ x(2)] x(1) xs(4) i(2,3) enc_elems_len [OF x(1)] by fastforce
      then show "?f acc k (fst x) (length pre) = Inr (acc @ [(fst x, snd x)], length pre + length p)" by simp
    qed
    then show "rmap GD (readDocWith ?f [] inp (length pre)) = Inr (GD es, length pre + length (docBytes (enc_elems xs)))"
      by (simp add: rmap_def fold_append_elems xs(2))
  qed
  with xs(1) show thesis by (rule that)
qed

lemma readMap_at:
  assumes "all_read TM (\<lambda>_. TIface) es" "distinct (map fst es)"
  obtains b where "addElems es = Inr b" "frame_reads readMap b (GM es)"
proof -
  obtain xs where xs: "addElems es = Inr (enc_elems xs)" "map (\<lambda>(k, p, x). x) xs = es"
    "\<forall>(k, p, x)\<in>set xs. k \<noteq> 0 \<and> nul_free (fst x)"
    "\<forall>(k, p, x)\<in>set xs. reads_back TM TIface (snd x) k p" by (rule all_read_xs [OF assms(1)])
  have "frame_reads readMap (enc_elems xs) (GM es)"
    unfolding frame_reads_def readMap_def
  proof (intro allI impI)
    fix n inp pre post
    assume i: "inp = pre @ docBytes (enc_elems xs) @ post" "length inp < 2 ^ 31" "2 * length (enc_elems xs) \<le> n"
    let ?f = "\<lambda>acc kind name i. rbind (readElemTo n TIface GNil kind TM inp i)
      (\<lambda>(good, v, i). Inr (if good then map_put name v acc else acc, i))"
    have "readDocWith ?f [] inp (length pre) = Inr (fold (\<lambda>x acc. map_put (fst x) (snd x) acc)
        (map (\<lambda>(k, p, x). x) xs) [], length pre + length (docBytes (enc_elems xs)))"
    proof (rule readDocWith_xs [OF i(1,2) xs(3)])
      fix x k p acc pre post assume x: "(k, p, x) \<in> set xs" "inp = pre @ p @ post"
      have "readElemTo n TIface GNil k TM inp (length pre) = Inr (True, snd x, length pre + length p)"
        using reads_backD [OF _ x(2)] x(1) xs(4) i(2,3) enc_elems_len [OF x(1)] by fastforce
      then show "?f acc k (fst x) (length pre) = Inr (map_put (fst x) (snd x) acc, length pre + length p)" by simp
    qed
    then show "rmap GM (readDocWith ?f [] inp (length pre)) = Inr (GM es, length pre + length (docBytes (enc_elems xs)))"
      using fold_map_put [of "[]" es] assms(2) by (simp add: rmap_def xs(2))
  qed
  with xs(1) show thesis by (rule that)
qed

lemma addSlice_elems: "addSlice i vs = addElems (map (\<lambda>(j, v). (itoa (int j), v)) (enumerate i vs))"
  by (induction vs arbitrary: i) simp_all

lemma readSliceElems_at:
  assumes "all_read m (\<lambda>_. t) (map (\<lambda>(j, v). (itoa (int j), v)) (enumerate i0 vs))"
  obtains b where "addSlice i0 vs = Inr b"
    "\<And>n inp pre post. inp = pre @ docBytes b @ post \<Longrightarrow> length inp < 2 ^ 31 \<Longrightarrow> 2 * length b \<le> n \<Longrightarrow>
       readSliceElems (readElemTo n) t m inp (length pre) = Inr (vs, length pre + length (docBytes b))"
proof -
  obtain xs where xs: "addSlice i0 vs = Inr (enc_elems xs)"
    "map (\<lambda>(k, p, x). x) xs = map (\<lambda>(j, v). (itoa (int j), v)) (enumerate i0 vs)"
    "\<forall>(k, p, x)\<in>set xs. k \<noteq> 0 \<and> nul_free (fst x)"
    "\<forall>(k, p, x)\<in>set xs. reads_back m t (snd x) k p"
    using all_read_xs [OF assms] unfolding addSlice_elems [symmetric] by blast
  have f: "fold (\<lambda>x acc. acc @ [snd x]) (map (\<lambda>(j, v). (itoa (int j), v)) (enumerate i vs)) acc = acc @ vs" for i acc
    by (induction vs arbitrary: i acc) simp_all
  have "readSliceElems (readElemTo n) t m inp (length pre) = Inr (vs, length pre + length (docBytes (enc_elems xs)))"
    if i: "inp = pre @ docBytes (enc_elems xs) @ post" "length inp < 2 ^ 31" "2 * length (enc_elems xs) \<le> n"
    for n inp pre post
  proof -
    let ?f = "\<lambda>acc kind i. rbind (readElemTo n t (zero_of t) kind m inp i)
      (\<lambda>(good, v, i). Inr (if good then acc @ [v] else acc, i))"
    have "docFrame (\<lambda>m. sliceLoop m ?f) [] inp (length pre) = Inr (fold (\<lambda>x acc. acc @ [snd x])
        (map (\<lambda>(k, p, x). x) xs) [], length pre + length (docBytes (enc_elems xs)))"
    proof (rule readSlice_xs [OF i(1,2) xs(3)])
      fix x k p acc pre post assume x: "(k, p, x) \<in> set xs" "inp = pre @ p @ post"
      have "readElemTo n t (zero_of t) k m inp (length pre) = Inr (True, snd x, length pre + length p)"
        using reads_backD [OF _ x(2)] x(1) xs(4) i(2,3) enc_elems_len [OF x(1)] by fastforce
      then show "?f acc k (length pre) = Inr (acc @ [snd x], length pre + length p)" by simp
    qed
    then show ?thesis by (simp add: readSliceElems_def xs(2) f)
  qed
  with xs(1) show thesis by (rule that)
qed

text \<open>The fields that a struct writes, and what reading them does to the zero struct.\<close>

definition present :: "(string \<times> bool \<times> goval) list \<Rightarrow> (string \<times> goval) list" where
  "present fs = map (\<lambda>(k, oe, v). (k, v)) (filter (\<lambda>(k, oe, v). \<not> (oe \<and> isZero v)) fs)"

lemma addStruct_elems: "addStruct fs = addElems (present fs)"
  by (induction fs) (auto simp: present_def)

lemma set_field_other: "k \<notin> fst ` set es \<Longrightarrow>
    fold (\<lambda>x. set_field (fst x) (snd x)) es ((k, oe, v) # zs) = (k, oe, v) # fold (\<lambda>x. set_field (fst x) (snd x)) es zs"
  by (induction es arbitrary: zs) auto

lemma fold_set_field:
  assumes "list_all2 (\<lambda>(k, oe, v) (k', oe', z). k = k' \<and> oe = oe' \<and> (oe \<and> isZero v \<longrightarrow> z = v)) fs zs"
    and "distinct (map fst fs)"
  shows "fold (\<lambda>x. set_field (fst x) (snd x)) (present fs) zs = fs"
  using assms
proof (induction fs zs rule: list_all2_induct)
  case (Cons f fs z zs)
  obtain k oe v where f: "f = (k, oe, v)" by (cases f)
  then obtain w where z: "z = (k, oe, w)" "oe \<and> isZero v \<longrightarrow> w = v" using Cons.hyps(1) by (cases z) auto
  have k: "k \<notin> fst ` set (present fs)" using Cons.prems f by (force simp: present_def)
  have "fold (\<lambda>x. set_field (fst x) (snd x)) (present fs) zs = fs" using Cons by simp
  with f z k show ?case by (auto simp: present_def set_field_other)
qed (simp add: present_def)

lemma readStruct_at:
  assumes "\<forall>x\<in>set (present fs). field_of gs (fst x) = Some (ty (fst x))"
    and "all_read m ty (present fs)"
    and "list_all2 (\<lambda>(k, oe, v) (k', oe', t). k = k' \<and> oe = oe' \<and> (oe \<and> isZero v \<longrightarrow> zero_of t = v)) fs gs"
    and "distinct (map fst fs)"
  obtains b where "addStruct fs = Inr b" "frame_reads (\<lambda>elem. readStruct elem gs m) b (GStruct fs)"
proof -
  obtain xs where xs: "addStruct fs = Inr (enc_elems xs)" "map (\<lambda>(k, p, x). x) xs = present fs"
    "\<forall>(k, p, x)\<in>set xs. k \<noteq> 0 \<and> nul_free (fst x)"
    "\<forall>(k, p, x)\<in>set xs. reads_back m (ty (fst x)) (snd x) k p"
    using all_read_xs [OF assms(2)] unfolding addStruct_elems [symmetric] by blast
  have z: "list_all2 (\<lambda>(k, oe, v) (k', oe', z). k = k' \<and> oe = oe' \<and> (oe \<and> isZero v \<longrightarrow> z = v)) fs (zero_fields gs)"
    using assms(3) unfolding zero_fields_def list_all2_map2
    by (rule list_all2_mono) auto
  have "frame_reads (\<lambda>elem. readStruct elem gs m) (enc_elems xs) (GStruct fs)"
    unfolding frame_reads_def readStruct_def
  proof (intro allI impI)
    fix n inp pre post
    assume i: "inp = pre @ docBytes (enc_elems xs) @ post" "length inp < 2 ^ 31" "2 * length (enc_elems xs) \<le> n"
    let ?f = "\<lambda>acc kind name i. case field_of gs name of
          Some t \<Rightarrow>
            rbind (readElemTo n t (field_value name acc) kind m inp i) (\<lambda>(_, v, i). Inr (set_field name v acc, i))
        | None \<Rightarrow> rbind (dropElem (readElemTo n) kind m inp i) (\<lambda>i. Inr (acc, i))"
    have "readDocWith ?f (zero_fields gs) inp (length pre) = Inr (fold (\<lambda>x. set_field (fst x) (snd x))
        (map (\<lambda>(k, p, x). x) xs) (zero_fields gs), length pre + length (docBytes (enc_elems xs)))"
    proof (rule readDocWith_xs [OF i(1,2) xs(3)])
      fix x k p pre post and acc :: "(string \<times> bool \<times> goval) list"
      assume x: "(k, p, x) \<in> set xs" "inp = pre @ p @ post"
      have "x \<in> (\<lambda>(k, p, x). x) ` set xs" using x(1) by force
      then have "x \<in> set (present fs)" by (simp flip: xs(2))
      then have g: "field_of gs (fst x) = Some (ty (fst x))" using assms(1) by blast
      have "readElemTo n (ty (fst x)) old k m inp (length pre) = Inr (True, snd x, length pre + length p)" for old
        using reads_backD [OF _ x(2)] x(1) xs(4) i(2,3) enc_elems_len [OF x(1)] by fastforce
      then show "?f acc k (fst x) (length pre) = Inr (set_field (fst x) (snd x) acc, length pre + length p)"
        by (simp add: g)
    qed
    then show "rmap GStruct (readDocWith ?f (zero_fields gs) inp (length pre)) =
        Inr (GStruct fs, length pre + length (docBytes (enc_elems xs)))"
      using fold_set_field [OF z assms(4)] by (simp add: rmap_def xs(2))
  qed
  with xs(1) show thesis by (rule that)
qed

text \<open>
  \<open>fits m t v\<close>: \<open>v\<close> is a value as decoding makes it in a variable of type \<open>t\<close>, with documents
  in interfaces as values of type \<open>m\<close>: names without a zero byte, object ids of 12 bytes,
  times in whole milliseconds, integers in interfaces only when they fit into 32 bits (a
  larger one comes back as an \<open>int64\<close>), fields in the order of the struct.
\<close>

definition whole_millis :: "gotime \<Rightarrow> bool" where
  "whole_millis t \<longleftrightarrow>
     (\<exists>ms :: int64. t = sint ms * 10 ^ 6 + unixToInternal * 10 ^ 9)"

inductive fits :: "gotype \<Rightarrow> gotype \<Rightarrow> goval \<Rightarrow> bool" where
  "fits m TIface GNil"
| "fits m TIface (GFloat64 f)"
| "t \<in> {TIface, TString} \<Longrightarrow> fits m t (GString s)"
| "t \<in> {TIface, TBytes} \<Longrightarrow> fits m t (GBytes b)"
| "k \<notin> {0, 2} \<Longrightarrow> fits m TIface (GBinary k b)"
| "fits m TIface GUndefined"
| "length s = 12 \<Longrightarrow> fits m TIface (GObjectId s)"
| "t \<in> {TIface, TBool} \<Longrightarrow> fits m t (GBool b)"
| "whole_millis x \<Longrightarrow> fits m TIface (GTime x)"
| "nul_free p \<Longrightarrow> nul_free opts \<Longrightarrow> fits m TIface (GRegEx p opts)"
| "length oid = 12 \<Longrightarrow> fits m TIface (GDBPointer ns oid)"
| "fits m TIface (GJavaScript c None)"
| "fits m TM (GM es) \<Longrightarrow> fits m TIface (GJavaScript c (Some (GM es)))"
| "fits m TIface (GSymbol s)"
| "t = TInt \<or> t = TIface \<and> fits_int32 w \<Longrightarrow> fits m t (GInt w)"
| "fits m TInt32 (GInt32 i)"
| "fits m TIface (GTimestamp w)"
| "t \<in> {TIface, TInt64} \<Longrightarrow> fits m t (GInt64 w)"
| "fits m TIface GMaxKey"
| "fits m TIface GMinKey"
| "- (2 ^ 63) \<le> x div 10 ^ 9 \<Longrightarrow> x div 10 ^ 9 < 2 ^ 63 \<Longrightarrow> fits m TPrecise (GPrecise x)"
| "t = TD \<or> t = TIface \<and> m = TD \<Longrightarrow> \<forall>x\<in>set es. nul_free (fst x) \<and> fits TD TIface (snd x) \<Longrightarrow>
     fits m t (GD es)"
| "t = TM \<or> t = TIface \<and> m = TM \<Longrightarrow> \<forall>x\<in>set es. nul_free (fst x) \<and> fits TM TIface (snd x) \<Longrightarrow>
     distinct (map fst es) \<Longrightarrow> fits m t (GM es)"
| "\<forall>v\<in>set vs. fits m TIface v \<Longrightarrow> fits m TIface (GSlice vs)"
| "\<forall>v\<in>set vs. fits m t v \<Longrightarrow> fits m (TSlice t) (GSlice vs)"
| "list_all2 (\<lambda>(k, oe, v) (k', oe', t). k = k' \<and> oe = oe' \<and> nul_free k \<and> (oe \<and> isZero v \<longrightarrow> zero_of t = v)) fs gs \<Longrightarrow>
     distinct (map fst fs) \<Longrightarrow>
     \<forall>x\<in>set (present fs). \<exists>t. field_of gs (fst x) = Some t \<and> fits m t (snd x) \<Longrightarrow>
     fits m (TStruct gs) (GStruct fs)"

lemma reads_back_scalar:
  assumes "\<And>pre post. length (pre @ p @ post) < 2 ^ 31 \<Longrightarrow>
      readScalar k (pre @ p @ post) (length pre) = Inr (w, length pre + length p)"
    and "k \<notin> {3, 4, 15}" "t \<noteq> TRaw" "t \<noteq> TPrecise" "\<And>old. assign t old w = (True, v)"
  shows "reads_back m t v k p"
  unfolding reads_back_def
proof (intro allI impI)
  fix n old pre post assume n: "2 * length p + 3 \<le> n" and l: "length (pre @ p @ post) < 2 ^ 31"
  obtain n' where "n = Suc n'" using n by (cases n) auto
  with assms l show "readElemTo n t old k m (pre @ p @ post) (length pre) = Inr (True, v, length pre + length p)"
    by (simp add: readValue_def)
qed

lemma readStr_at:
  assumes "length (pre @ addStr s @ post) < 2 ^ 31"
  shows "readStr (pre @ addStr s @ post) (length pre) = Inr (s, length pre + length (addStr s))"
proof -
  let ?l = "word_of_nat (length s + 1) :: int32"
  let ?inp = "pre @ addStr s @ post"
  have inp: "?inp = pre @ enc32 ?l @ raw s @ 0 # post" by (simp add: addStr_def addCStr_def)
  have r: "readInt32 ?inp (length pre) = Inr (?l, length pre + 4)"
    unfolding inp using readInt32_at [of pre ?l] by simp
  have "?l - 1 = word_of_nat (length s)" by simp
  then have l: "sint (?l - 1) = int (length (raw s))" using assms by (simp add: addStr_def addCStr_def sint_word_of_nat)
  have inp': "?inp = (pre @ enc32 ?l) @ raw s @ 0 # post" using inp by simp
  have b: "readBytes ?inp (?l - 1) (length pre + 4) = Inr (raw s, length pre + 4 + length s)"
    unfolding inp' using readBytes_at [OF l, of "pre @ enc32 ?l" "0 # post"] by simp
  have inp'': "?inp = (pre @ enc32 ?l @ raw s) @ 0 # post" using inp by simp
  have z: "readByte ?inp (length pre + 4 + length s) = Inr (0, length pre + 4 + length s + 1)"
    unfolding inp'' using readByte_at [of "pre @ enc32 ?l @ raw s" 0 post] by (simp add: add.assoc)
  show ?thesis
    unfolding readStr_def r rbind_Inr prod.case b z
    by (simp add: addStr_def addCStr_def)
qed

lemma readBinary_at:
  assumes "length (pre @ addBinary k d @ post) < 2 ^ 31"
  shows "readBinary (pre @ addBinary k d @ post) (length pre) = Inr ((k, d), length pre + length (addBinary k d))"
proof (cases "k = 2")
  case True
  let ?l = "word_of_nat (length d + 4) :: int32" and ?l2 = "word_of_nat (length d) :: int32"
  let ?inp = "pre @ addBinary k d @ post"
  have inp: "?inp = pre @ enc32 ?l @ 2 # enc32 ?l2 @ d @ post" using True by (simp add: addBinary_def)
  have r: "readInt32 ?inp (length pre) = Inr (?l, length pre + 4)"
    unfolding inp using readInt32_at [of pre ?l] by simp
  have inp': "?inp = (pre @ enc32 ?l) @ 2 # enc32 ?l2 @ d @ post" using inp by simp
  have z: "readByte ?inp (length pre + 4) = Inr (2, length pre + 5)"
    unfolding inp' using readByte_at [of "pre @ enc32 ?l" 2 "enc32 ?l2 @ d @ post"] by simp
  have inp'': "?inp = (pre @ enc32 ?l @ [2]) @ (enc32 ?l2 @ d) @ post" using inp by simp
  have l: "sint ?l = int (length (enc32 ?l2 @ d))" using assms inp by (subst sint_word_of_nat) auto
  have b: "readBytes ?inp ?l (length pre + 5) = Inr (enc32 ?l2 @ d, length pre + 5 + length (enc32 ?l2 @ d))"
    unfolding inp'' using readBytes_at [OF l, of "pre @ enc32 ?l @ [2]" post] by simp
  show ?thesis
    unfolding readBinary_def r rbind_Inr prod.case z b
    using True by (simp add: addBinary_def)
next
  case False
  let ?l = "word_of_nat (length d) :: int32"
  let ?inp = "pre @ addBinary k d @ post"
  have inp: "?inp = pre @ enc32 ?l @ k # d @ post" using False by (simp add: addBinary_def)
  have r: "readInt32 ?inp (length pre) = Inr (?l, length pre + 4)"
    unfolding inp using readInt32_at [of pre ?l] by simp
  have inp': "?inp = (pre @ enc32 ?l) @ k # d @ post" using inp by simp
  have z: "readByte ?inp (length pre + 4) = Inr (k, length pre + 5)"
    unfolding inp' using readByte_at [of "pre @ enc32 ?l" k "d @ post"] by simp
  have inp'': "?inp = (pre @ enc32 ?l @ [k]) @ d @ post" using inp by simp
  have l: "sint ?l = int (length d)" using assms inp by (subst sint_word_of_nat) auto
  have b: "readBytes ?inp ?l (length pre + 5) = Inr (d, length pre + 5 + length d)"
    unfolding inp'' using readBytes_at [OF l, of "pre @ enc32 ?l @ [k]" post] by simp
  show ?thesis
    unfolding readBinary_def r rbind_Inr prod.case z b
    using False by (simp add: addBinary_def)
qed

lemma unix_millis_whole: "whole_millis t \<Longrightarrow>
    sint (unix_millis t) * 10 ^ 6 + unixToInternal * 10 ^ 9 = t"
proof -
  assume "whole_millis t"
  then obtain ms :: int64 where t: "t = sint ms * 10 ^ 6 + unixToInternal * 10 ^ 9" by (auto simp: whole_millis_def)
  have e: "s * 10 ^ 6 div 10 ^ 9 * 1000 + s * 10 ^ 6 mod 10 ^ 9 div 10 ^ 6 = s" for s :: int
  proof -
    have "s * 10 ^ 6 div 10 ^ 9 = s div 1000" using div_mult_mult2 [of "10 ^ 6 :: int" s 1000] by simp
    moreover have "s * 10 ^ 6 mod 10 ^ 9 = s mod 1000 * 10 ^ 6" using mult_mod_left [of s 1000 "10 ^ 6"] by simp
    ultimately show ?thesis by simp
  qed
  have "unix_millis t = word_of_int (sint ms)"
    unfolding unix_millis_def t Let_def add_diff_cancel_right' e ..
  with t show ?thesis by simp
qed

lemma scast_ucast_int32: "fits_int32 w \<Longrightarrow> scast (ucast w :: int32) = (w :: int64)"
proof -
  assume "fits_int32 w"
  then have a: "sint (word_of_int (sint w) :: int32) = sint w" by (intro sint_int32) (auto simp: fits_int32_def)
  have b: "(word_of_int (sint w) :: int32) = ucast w"
    by (rule bit_word_eqI) (simp add: bit_simps)
  have "sint (ucast w :: int32) = sint w" using a unfolding b .
  then have "(word_of_int (sint (ucast w :: int32)) :: int64) = word_of_int (sint w)" by (rule arg_cong)
  then show ?thesis by (simp only: of_int_sint scast_id)
qed

lemma int_scalar:
  assumes "\<And>old. assign t old (GInt w) = (True, v)" "t \<noteq> TRaw" "t \<noteq> TPrecise" "fits_int32 w"
  shows "reads_back m t v 0x10 (enc32 (ucast w))"
  by (rule reads_back_scalar [of _ _ "GInt w"])
     (use assms in \<open>simp_all add: readScalar_def rmap_def scast_ucast_int32\<close>)

lemma int64_scalar:
  assumes "\<And>old. assign t old (GInt64 w) = (True, v)" "t \<noteq> TRaw" "t \<noteq> TPrecise"
  shows "reads_back m t v 0x12 (enc64 w)"
  by (rule reads_back_scalar [of _ _ "GInt64 w"]) (use assms in \<open>simp_all add: readScalar_def rmap_def\<close>)

lemma str_scalar:
  assumes "k = 2 \<or> k = 13 \<or> k = 14"
    and "\<And>old. assign t old ((if k = 2 then GString else if k = 13 then (\<lambda>s. GJavaScript s None) else GSymbol) s) = (True, v)"
    "t \<noteq> TRaw" "t \<noteq> TPrecise"
  shows "reads_back m t v k (addStr s)"
  by (rule reads_back_scalar [OF _ _ assms(3,4,2)])
     (use assms(1) in \<open>auto simp: readScalar_def rmap_def readStr_at\<close>)

lemmas scalar_simps = readScalar_def rmap_def assign_def readFloat64_def conv_int_def conv_string_def
  conv_bytes_def conv_bool_def

lemma readBytes12_at: "length s = 12 \<Longrightarrow> readBytes (pre @ raw s @ post) 12 (length pre) = Inr (raw s, length pre + 12)"
  using readBytes_at [of 12 "raw s" pre post] by simp

lemma readDBPointer_at:
  assumes "length (pre @ (addStr ns @ raw oid) @ post) < 2 ^ 31" "length oid = 12"
  shows "readScalar 12 (pre @ (addStr ns @ raw oid) @ post) (length pre) =
    Inr (GDBPointer ns oid, length pre + length (addStr ns @ raw oid))"
proof -
  let ?inp = "pre @ (addStr ns @ raw oid) @ post"
  have "readStr ?inp (length pre) = Inr (ns, length (pre @ addStr ns))"
    using readStr_at [of pre ns "raw oid @ post"] assms(1) by simp
  moreover have "readBytes ?inp 12 (length (pre @ addStr ns)) = Inr (raw oid, length (pre @ addStr ns) + 12)"
    using readBytes12_at [OF assms(2), of "pre @ addStr ns" post] by simp
  ultimately show ?thesis using assms(2) by (simp add: readScalar_def rmap_def)
qed

lemma readRegEx_at:
  assumes "nul_free p" "nul_free opts"
  shows "readRegEx (pre @ (addCStr p @ addCStr opts) @ post) (length pre) =
    Inr (GRegEx p opts, length pre + length (addCStr p @ addCStr opts))"
proof -
  let ?inp = "pre @ (addCStr p @ addCStr opts) @ post"
  have "readCStr ?inp (length pre) = Inr (p, length (pre @ raw p @ [0]))"
    using readCStr_at [OF assms(1), of pre "addCStr opts @ post"] by (simp add: addCStr_def)
  moreover have "readCStr ?inp (length (pre @ raw p @ [0])) = Inr (opts, length (pre @ raw p @ [0]) + length opts + 1)"
    using readCStr_at [OF assms(2), of "pre @ raw p @ [0]" post] by (simp add: addCStr_def)
  ultimately show ?thesis by (simp add: readRegEx_def addCStr_def)
qed

lemma drop_scalar:
  assumes "readScalar k inp i = Inr (w, j)" "k \<notin> {3, 4, 15}" "0 < n"
  shows "dropElem (readElemTo n) k m inp i = Inr j"
proof -
  obtain n' where "n = Suc n'" using assms(3) by (cases n) auto
  with assms show ?thesis by (simp add: dropElem_def readValue_def Let_def split: prod.split)
qed

definition precise_doc :: "gotime \<Rightarrow> bytes" where
  "precise_doc x = elemName 0x12 ''sec'' @ enc64 (precise_sec x) @ elemName 0x10 ''nsec'' @ enc32 (precise_nsec x)"

lemma nul_free_consts [simp]: "nul_free ''sec''" "nul_free ''nsec''"
  by (simp_all add: nul_free_def raw_def)

lemma readRawDoc_precise:
  assumes "inp = pre @ docBytes (precise_doc x) @ post" "length inp < 2 ^ 31" "0 < n"
  shows "readRawDoc (readElemTo n) m inp (length pre) =
    Inr (GRaw 3 (docBytes (precise_doc x)), length pre + length (docBytes (precise_doc x)))"
proof -
  let ?xs = "[(0x12 :: byte, enc64 (precise_sec x), ''sec'', GNil), (0x10, enc32 (precise_nsec x), ''nsec'', GNil)]"
  have e: "enc_elems ?xs = precise_doc x" by (simp add: precise_doc_def)
  have "readDocWith (\<lambda>acc kind name i. rbind (dropElem (readElemTo n) kind m inp i) (\<lambda>i. Inr (acc, i))) () inp (length pre) =
      Inr (fold (\<lambda>_ acc. acc) (map (\<lambda>(k, p, x). x) ?xs) (), length pre + length (docBytes (enc_elems ?xs)))"
  proof (rule readDocWith_xs [OF _ assms(2)])
    show "inp = pre @ docBytes (enc_elems ?xs) @ post" using assms(1) by (simp only: e)
    fix y k p acc pre post assume y: "(k, p, y) \<in> set ?xs" "inp = pre @ p @ post"
    have "\<exists>w. readScalar k inp (length pre) = Inr (w, length pre + length p)"
      using y by (auto simp: readScalar_def rmap_def)
    moreover have "k \<notin> {3, 4, 15}" using y(1) by auto
    ultimately have "dropElem (readElemTo n) k m inp (length pre) = Inr (length pre + length p)"
      using drop_scalar assms(3) by blast
    then show "rbind (dropElem (readElemTo n) k m inp (length pre)) (\<lambda>i. Inr (acc, i)) = Inr (acc, length pre + length p)"
      by simp
  qed simp
  then show ?thesis
    unfolding readRawDoc_def e by (simp add: assms(1))
qed

lemma GetBSON_struct:
  "addStruct [(''sec'', False, GInt64 (precise_sec x)), (''nsec'', False, GInt32 (precise_nsec x))] = Inr (precise_doc x)"
  by (simp add: precise_doc_def)

lemma readStruct_precise:
  "frame_reads (\<lambda>elem. readStruct elem preciseFields m) (precise_doc x) (GetBSON x)"
proof -
  let ?fs = "[(''sec'', False, GInt64 (precise_sec x)), (''nsec'', False, GInt32 (precise_nsec x))]"
  let ?ty = "\<lambda>k. if k = ''sec'' then TInt64 else TInt32"
  have "reads_back m TInt64 (GInt64 w) 0x12 (enc64 w)" for w
    by (rule int64_scalar) (simp_all add: scalar_simps)
  moreover have "reads_back m TInt32 (GInt32 w) 0x10 (enc32 w)" for w
  proof (rule reads_back_scalar [of _ _ "GInt (scast w)"])
    have "ucast (scast w :: int64) = w" by (rule bit_word_eqI) (simp add: bit_simps)
    then show "assign TInt32 old (GInt (scast w)) = (True, GInt32 w)" for old by (simp add: scalar_simps)
  qed (simp_all add: scalar_simps)
  moreover have "encodes (GInt64 w) 0x12 (enc64 w)" "encodes (GInt32 i) 0x10 (enc32 i)" for w i
    by (simp_all add: encodes_def)
  ultimately have r: "all_read m ?ty (present ?fs)"
    by (simp add: all_read_def present_def) blast
  have f: "\<forall>x\<in>set (present ?fs). field_of preciseFields (fst x) = Some (?ty (fst x))"
    by (simp add: preciseFields_def present_def)
  have a: "list_all2 (\<lambda>(k, oe, v) (k', oe', t). k = k' \<and> oe = oe' \<and> (oe \<and> isZero v \<longrightarrow> zero_of t = v))
      ?fs preciseFields" by (simp add: preciseFields_def)
  have d: "distinct (map fst ?fs)" by simp
  obtain b where "addStruct ?fs = Inr b" "frame_reads (\<lambda>elem. readStruct elem preciseFields m) b (GStruct ?fs)"
    by (rule readStruct_at [OF f r a d])
  moreover from this(1) have "b = precise_doc x" unfolding GetBSON_struct by simp
  ultimately show ?thesis by (simp add: GetBSON_def)
qed

lemma unix_time_precise:
  assumes "- (2 ^ 63) \<le> x div 10 ^ 9" "x div 10 ^ 9 < 2 ^ 63"
  shows "unix_time (precise_sec x) (precise_nsec x) = x"
proof -
  have n: "sint (precise_nsec x) = x mod 10 ^ 9"
    unfolding precise_nsec_def by (rule sint_int32) (auto intro: order_less_trans [OF pos_mod_bound] order_trans [OF _ pos_mod_sign])
  have s: "sint (precise_sec x) = x div 10 ^ 9"
    unfolding precise_sec_def by (rule sint_int64 [OF assms])
  have "x mod 10 ^ 9 div 10 ^ 9 = 0" by simp
  then show ?thesis by (simp add: unix_time_def n s)
qed

lemma reads_back_precise:
  assumes "- (2 ^ 63) \<le> x div 10 ^ 9" "x div 10 ^ 9 < 2 ^ 63"
  shows "reads_back m TPrecise (GPrecise x) 3 (docBytes (precise_doc x))"
  unfolding reads_back_def
proof (intro allI impI)
  fix n old pre post
  let ?p = "docBytes (precise_doc x)" and ?inp = "pre @ docBytes (precise_doc x) @ post"
  assume n: "2 * length ?p + 3 \<le> n" and l: "length ?inp < 2 ^ 31"
  obtain n' where n': "n = Suc n'" using n by (cases n) auto
  obtain n'' where n'': "n' = Suc n''" using n n' by (cases n') auto
  have b: "2 * length (precise_doc x) \<le> n''" using n n' n'' by (simp add: docBytes_def sized_def)
  have r: "readRawDoc (readElemTo n') m ?inp (length pre) = Inr (GRaw 3 ?p, length pre + length ?p)"
    using l n'' by (intro readRawDoc_precise) auto
  have "length ?p < 2 ^ 31" using l by simp
  with readStruct_precise [of TM x, unfolded frame_reads_def, rule_format, of ?p "[]" "[]" n''] b
  have "readStruct (readElemTo n'') preciseFields TM ?p 0 = Inr (GetBSON x, length ?p)" by simp
  then have "readElemTo n' (TStruct preciseFields) (GStruct (zero_fields preciseFields)) 3 TM ?p 0 =
      Inr (True, GetBSON x, length ?p)"
    by (simp add: n'')
  then have "SetBSON (readElemTo n') old 3 ?p = Inr (True, GPrecise x)"
    by (simp add: SetBSON_def GetBSON_def unix_time_precise [OF assms])
  with r show "readElemTo n TPrecise old 3 m ?inp (length pre) = Inr (True, GPrecise x, length pre + length ?p)"
    by (simp add: n')
qed

lemma encodesI: "k \<noteq> 0 \<Longrightarrow> (\<And>nm. addElem nm v = Inr (elemName k nm @ p)) \<Longrightarrow> encodes v k p"
  by (simp add: encodes_def)

text \<open>A document as the value of an element.\<close>

lemma reads_back_doc:
  assumes "frame_reads (\<lambda>elem. readDocTo elem t old0 m) b v"
    and "\<And>elem old inp i. readDocTo elem t old m inp i = readDocTo elem t old0 m inp i"
    and "t \<in> {TIface, TD, TM} \<or> (\<exists>gs. t = TStruct gs)"
  shows "reads_back m t v 3 (docBytes b)"
  unfolding reads_back_def
proof (intro allI impI)
  fix n old pre post
  assume n: "2 * length (docBytes b) + 3 \<le> n" and l: "length (pre @ docBytes b @ post) < 2 ^ 31"
  obtain n' where n': "n = Suc n'" using n by (cases n) auto
  have "2 * length b \<le> n'" using n n' by (simp add: docBytes_def sized_def)
  with assms(1) l have "readDocTo (readElemTo n') t old m (pre @ docBytes b @ post) (length pre) =
      Inr (v, length pre + length (docBytes b))"
    unfolding frame_reads_def assms(2) [of _ old] by blast
  with assms(3) show "readElemTo n t old 3 m (pre @ docBytes b @ post) (length pre) =
      Inr (True, v, length pre + length (docBytes b))"
    by (auto simp: n')
qed

lemma reads_back_slice:
  assumes "addSlice 0 vs = Inr b" "t = TIface \<and> u = TIface \<or> t = TSlice u"
    and "\<And>n inp pre post. inp = pre @ docBytes b @ post \<Longrightarrow> length inp < 2 ^ 31 \<Longrightarrow> 2 * length b \<le> n \<Longrightarrow>
       readSliceElems (readElemTo n) u m inp (length pre) = Inr (vs, length pre + length (docBytes b))"
  shows "reads_back m t (GSlice vs) 4 (docBytes b)"
  unfolding reads_back_def
proof (intro allI impI)
  fix n old pre post
  assume n: "2 * length (docBytes b) + 3 \<le> n" and l: "length (pre @ docBytes b @ post) < 2 ^ 31"
  obtain n' where n': "n = Suc n'" using n by (cases n) auto
  have "2 * length b \<le> n'" using n n' by (simp add: docBytes_def sized_def)
  then have "readSliceElems (readElemTo n') u m (pre @ docBytes b @ post) (length pre) =
      Inr (vs, length pre + length (docBytes b))" using assms(3) [OF refl l] by simp
  with assms(2) show "readElemTo n t old 4 m (pre @ docBytes b @ post) (length pre) =
      Inr (True, GSlice vs, length pre + length (docBytes b))"
    by (auto simp: n' readValue_def readSliceDoc_def rmap_def Let_def assign_def)
qed

lemma reads_back_scope:
  assumes "reads_back m TM (GM es) 3 p"
  shows "reads_back m TIface (GJavaScript c (Some (GM es))) 15 (sized (addStr c @ p))"
  unfolding reads_back_def
proof (intro allI impI)
  fix n old pre post
  let ?p = "sized (addStr c @ p)" and ?inp = "pre @ sized (addStr c @ p) @ post"
  assume n: "2 * length ?p + 3 \<le> n" and l: "length ?inp < 2 ^ 31"
  obtain n' where n': "n = Suc n'" using n by (cases n) auto
  obtain w where w: "?p = enc32 w @ addStr c @ p" by (auto simp: sized_def)
  have i1: "?inp = (pre @ enc32 w) @ addStr c @ (p @ post)" using w by simp
  have i2: "?inp = (pre @ enc32 w @ addStr c) @ p @ post" using w by simp
  have b: "2 * length p + 3 \<le> Suc n'" using n n' w by simp
  have "readStr ((pre @ enc32 w) @ addStr c @ (p @ post)) (length (pre @ enc32 w)) =
      Inr (c, length (pre @ enc32 w) + length (addStr c))"
    by (rule readStr_at) (use l i1 in simp)
  then have s: "readStr ?inp (length pre + 4) = Inr (c, length (pre @ enc32 w @ addStr c))"
    unfolding i1 by simp
  have "readElemTo (Suc n') TM GNil 3 m ?inp (length (pre @ enc32 w @ addStr c)) =
      Inr (True, GM es, length (pre @ enc32 w @ addStr c) + length p)"
    by (rule reads_backD [OF assms i2 b l])
  then have "readMap (readElemTo n') ?inp (length (pre @ enc32 w @ addStr c)) =
      Inr (GM es, length (pre @ enc32 w @ addStr c) + length p)"
    by (auto simp: rbind_eq_Inr)
  with s show "readElemTo n TIface old 15 m ?inp (length pre) =
      Inr (True, GJavaScript c (Some (GM es)), length pre + length ?p)"
    by (simp add: n' readValue_def rmap_def assign_def Let_def w del: append_assoc)
qed

lemma encodes_doc: "encodes (GM es) k p \<Longrightarrow> k = 3 \<and> addDoc (GM es) = Inr p"
  "encodes (GD es) k p \<Longrightarrow> k = 3 \<and> addDoc (GD es) = Inr p"
  "encodes (GStruct fs) k p \<Longrightarrow> k = 3 \<and> addDoc (GStruct fs) = Inr p"
  by (auto simp: encodes_def elemName_def rbind_eq_Inr)

abbreviation rtrip :: "gotype \<Rightarrow> gotype \<Rightarrow> goval \<Rightarrow> bool" where
  "rtrip m t v \<equiv> \<exists>k p. encodes v k p \<and> reads_back m t v k p"

lemma round_scalar:
  assumes "\<And>nm. addElem nm v = Inr (elemName k nm @ p)" "k \<noteq> 0" "k \<notin> {3, 4, 15}"
    and "\<And>pre post. length (pre @ p @ post) < 2 ^ 31 \<Longrightarrow>
      readScalar k (pre @ p @ post) (length pre) = Inr (w, length pre + length p)"
    and "t \<noteq> TRaw" "t \<noteq> TPrecise" "\<And>old. assign t old w = (True, v)"
  shows "rtrip m t v"
  using encodesI [OF assms(2,1)] reads_back_scalar [OF assms(4,3,5,6,7)] by blast

lemma readBool_at: "readScalar 8 (pre @ [if b then 1 else 0] @ post) (length pre) = Inr (GBool b, Suc (length pre))"
  by (simp add: readScalar_def readBool_def rmap_def)

lemma round_GInt:
  assumes "t = TInt \<or> t = TIface \<and> fits_int32 w"
  shows "rtrip m t (GInt w)"
proof (cases "fits_int32 w")
  case True
  then show ?thesis
    using assms by (intro round_scalar [where w = "GInt w" and k = "0x10"])
      (auto simp: scalar_simps scast_ucast_int32)
next
  case False
  then show ?thesis
    using assms by (intro round_scalar [where w = "GInt64 w" and k = "0x12"]) (auto simp: scalar_simps)
qed

lemma round_doc:
  assumes "\<And>nm. addElem nm v = Inr (elemName 3 nm @ docBytes b)"
    and "reads_back m t v 3 (docBytes b)"
  shows "rtrip m t v"
  using encodesI [OF _ assms(1)] assms(2) by fastforce

lemma round_GD:
  assumes "t = TD \<or> t = TIface \<and> m = TD" "\<forall>x\<in>set es. nul_free (fst x) \<and> rtrip TD TIface (snd x)"
  shows "rtrip m t (GD es)"
proof -
  obtain b where b: "addElems es = Inr b" "frame_reads readDocElems b (GD es)"
    by (rule readDocElems_at) (use assms(2) in \<open>auto simp: all_read_def\<close>)
  have "(\<lambda>elem. readDocTo elem t GNil m) = readDocElems" using assms(1) by (auto simp: fun_eq_iff)
  then have "reads_back m t (GD es) 3 (docBytes b)"
    using b(2) assms(1) by (intro reads_back_doc [where ?old0.0 = GNil]) auto
  with b(1) show ?thesis by (intro round_doc) auto
qed

lemma round_GM:
  assumes "t = TM \<or> t = TIface \<and> m = TM" "\<forall>x\<in>set es. nul_free (fst x) \<and> rtrip TM TIface (snd x)"
    "distinct (map fst es)"
  shows "rtrip m t (GM es)"
proof -
  obtain b where b: "addElems es = Inr b" "frame_reads readMap b (GM es)"
    by (rule readMap_at) (use assms(2,3) in \<open>auto simp: all_read_def\<close>)
  have "(\<lambda>elem. readDocTo elem t GNil m) = readMap" using assms(1) by (auto simp: fun_eq_iff)
  then have "reads_back m t (GM es) 3 (docBytes b)"
    using b(2) assms(1) by (intro reads_back_doc [where ?old0.0 = GNil]) auto
  with b(1) show ?thesis by (intro round_doc) auto
qed

lemma round_GSlice:
  assumes "t = TIface \<and> u = TIface \<or> t = TSlice u" "\<forall>v\<in>set vs. rtrip m u v"
  shows "rtrip m t (GSlice vs)"
proof -
  have "all_read m (\<lambda>_. u) (map (\<lambda>(j, v). (itoa (int j), v)) (enumerate 0 vs))"
    using assms(2) by (auto simp: all_read_def nul_free_itoa enumerate_eq_zip dest: set_zip_rightD)
  then obtain b where b: "addSlice 0 vs = Inr b"
    "\<And>n inp pre post. inp = pre @ docBytes b @ post \<Longrightarrow> length inp < 2 ^ 31 \<Longrightarrow> 2 * length b \<le> n \<Longrightarrow>
       readSliceElems (readElemTo n) u m inp (length pre) = Inr (vs, length pre + length (docBytes b))"
    by (rule readSliceElems_at) blast
  have "reads_back m t (GSlice vs) 4 (docBytes b)" by (rule reads_back_slice [OF b(1) assms(1) b(2)])
  moreover have "encodes (GSlice vs) 4 (docBytes b)" using b(1) by (simp add: encodes_def)
  ultimately show ?thesis by blast
qed

lemma round_GStruct:
  assumes "list_all2 (\<lambda>(k, oe, v) (k', oe', t). k = k' \<and> oe = oe' \<and> nul_free k \<and> (oe \<and> isZero v \<longrightarrow> zero_of t = v)) fs gs"
    "distinct (map fst fs)"
    "\<forall>x\<in>set (present fs). \<exists>t. field_of gs (fst x) = Some t \<and> rtrip m t (snd x)"
  shows "rtrip m (TStruct gs) (GStruct fs)"
proof -
  let ?ty = "\<lambda>k. the (field_of gs k)"
  have f: "\<forall>x\<in>set (present fs). field_of gs (fst x) = Some (?ty (fst x))" using assms(3) by fastforce
  have n: "\<forall>x\<in>set (present fs). nul_free (fst x)"
    using assms(1) by (fastforce simp: present_def list_all2_conv_all_nth in_set_conv_nth)
  have r: "all_read m ?ty (present fs)" using assms(3) n by (fastforce simp: all_read_def)
  have a: "list_all2 (\<lambda>(k, oe, v) (k', oe', t). k = k' \<and> oe = oe' \<and> (oe \<and> isZero v \<longrightarrow> zero_of t = v)) fs gs"
    using assms(1) by (rule list_all2_mono) auto
  obtain b where b: "addStruct fs = Inr b" "frame_reads (\<lambda>elem. readStruct elem gs m) b (GStruct fs)"
    by (rule readStruct_at [OF f r a assms(2)])
  have "(\<lambda>elem. readDocTo elem (TStruct gs) GNil m) = (\<lambda>elem. readStruct elem gs m)" by (simp add: fun_eq_iff)
  then have "reads_back m (TStruct gs) (GStruct fs) 3 (docBytes b)"
    using b(2) by (intro reads_back_doc [where ?old0.0 = GNil]) auto
  with b(1) show ?thesis by (intro round_doc) auto
qed

lemma fits_round: "fits m t v \<Longrightarrow> rtrip m t v"
proof (induction rule: fits.induct)
  case (1 m)
  show ?case by (intro round_scalar [where w = GNil and k = "0x0A"]) (auto simp: scalar_simps)
next
  case (2 m f)
  show ?case by (intro round_scalar [where w = "GFloat64 f" and k = "0x01"]) (auto simp: scalar_simps)
next
  case (3 t m s)
  then show ?case
    by (intro round_scalar [where w = "GString s" and k = "0x02" and p = "addStr s"]) (auto simp: scalar_simps readStr_at)
next
  case (4 t m b)
  then show ?case
    by (intro round_scalar [where w = "GBytes b" and k = "0x05" and p = "addBinary 0 b"])
       (auto simp: scalar_simps readBinary_at)
next
  case (5 k m b)
  then show ?case
    by (intro round_scalar [where w = "GBinary k b" and k = "0x05" and p = "addBinary k b"])
       (auto simp: scalar_simps readBinary_at)
next
  case (6 m)
  show ?case by (intro round_scalar [where w = GUndefined and k = "0x06"]) (auto simp: scalar_simps)
next
  case (7 s m)
  then show ?case
    by (intro round_scalar [where w = "GObjectId s" and k = "0x07" and p = "raw s"])
       (auto simp: scalar_simps readBytes12_at)
next
  case (8 t m b)
  then show ?case
    by (intro round_scalar [where w = "GBool b" and k = "0x08" and p = "[if b then 1 else 0]"])
       (auto simp: scalar_simps readBool_def)
next
  case (9 x m)
  then show ?case
    by (intro round_scalar [where w = "GTime x" and k = "0x09" and p = "enc64 (unix_millis x)"])
       (auto simp: scalar_simps unix_millis_whole [simplified])
next
  case (10 p opts m)
  then show ?case
    using readRegEx_at [of p opts]
    by (intro round_scalar [where w = "GRegEx p opts" and k = "0x0B" and p = "addCStr p @ addCStr opts"])
       (auto simp: scalar_simps)
next
  case (11 oid m ns)
  then show ?case
    using readDBPointer_at [of _ ns oid]
    by (intro round_scalar [where w = "GDBPointer ns oid" and k = "0x0C" and p = "addStr ns @ raw oid"])
       (auto simp: assign_def)
next
  case (12 m c)
  then show ?case
    by (intro round_scalar [where w = "GJavaScript c None" and k = "0x0D" and p = "addStr c"])
       (auto simp: scalar_simps readStr_at)
next
  case (13 m es c)
  then obtain k p where kp: "encodes (GM es) k p" "reads_back m TM (GM es) k p" by blast
  have "encodes (GJavaScript c (Some (GM es))) 15 (sized (addStr c @ p))"
    using encodes_doc(1) [OF kp(1)] by (intro encodesI) simp_all
  moreover have "reads_back m TIface (GJavaScript c (Some (GM es))) 15 (sized (addStr c @ p))"
    using encodes_doc(1) [OF kp(1)] kp(2) by (intro reads_back_scope) simp
  ultimately show ?case by blast
next
  case (14 m s)
  then show ?case
    by (intro round_scalar [where w = "GSymbol s" and k = "0x0E" and p = "addStr s"]) (auto simp: scalar_simps readStr_at)
next
  case (15 t w m)
  then show ?case by (rule round_GInt)
next
  case (16 m i)
  have "ucast (scast i :: int64) = i" by (rule bit_word_eqI) (simp add: bit_simps)
  then show ?case
    by (intro round_scalar [where w = "GInt (scast i)" and k = "0x10"]) (auto simp: scalar_simps)
next
  case (17 m w)
  show ?case by (intro round_scalar [where w = "GTimestamp w" and k = "0x11"]) (auto simp: scalar_simps)
next
  case (18 t m w)
  then show ?case by (intro round_scalar [where w = "GInt64 w" and k = "0x12"]) (auto simp: scalar_simps)
next
  case (19 m)
  show ?case by (intro round_scalar [where w = GMaxKey and k = "0x7F"]) (auto simp: scalar_simps)
next
  case (20 m)
  show ?case by (intro round_scalar [where w = GMinKey and k = "0xFF"]) (auto simp: scalar_simps)
next
  case (21 x m)
  then show ?case
    using reads_back_precise [of x m] by (intro round_doc) (simp_all add: precise_doc_def)
next
  case (22 t m es)
  then show ?case by (intro round_GD) auto
next
  case (23 t m es)
  then show ?case by (intro round_GM) auto
next
  case (24 vs m)
  then show ?case by (intro round_GSlice) auto
next
  case (25 vs m t)
  then show ?case by (intro round_GSlice) auto
next
  case (26 fs gs m)
  then show ?case by (intro round_GStruct) blast+
qed

lemma fits_Marshal:
  assumes "fits TM t v" "t \<in> {TD, TM} \<or> (\<exists>gs. t = TStruct gs)"
  obtains b where "Marshal v = Inr b" "reads_back TM t v 3 b"
proof -
  from fits_round [OF assms(1)] obtain k p where kp: "encodes v k p" "reads_back TM t v k p" by blast
  have "(\<exists>es. v = GM es) \<or> (\<exists>es. v = GD es) \<or> (\<exists>fs. v = GStruct fs)"
    using assms(1) by (cases rule: fits.cases) (use assms(2) in auto)
  then have "k = 3 \<and> addDoc v = Inr p"
    by (elim disjE exE) (use encodes_doc kp(1) in auto)
  with kp show thesis by (intro that [of p]) (auto simp: Marshal_def handleErr_def)
qed

lemma readDocTo_of_reads_back:
  assumes "reads_back TM t v 3 b" "length b < 2 ^ 31" "t \<in> {TD, TM} \<or> (\<exists>gs. t = TStruct gs)"
  shows "readDocTo (readElemTo (unmarshal_fuel b)) t old TM b 0 = Inr (v, length b)"
proof -
  have "readElemTo (Suc (unmarshal_fuel b)) t old 3 TM b 0 = Inr (True, v, length b)"
    using reads_backD [OF assms(1) _ _ assms(2), where pre = "[]" and post = "[]" and n = "Suc (unmarshal_fuel b)"]
    by (simp add: unmarshal_fuel_def del: readElemTo.simps)
  with assms(3) show ?thesis by (auto simp: rbind_eq_Inr)
qed

lemma Marshal_reads_back:
  assumes "fits TM t v" "t \<in> {TD, TM} \<or> (\<exists>gs. t = TStruct gs)"
  shows "\<exists>b. Marshal v = Inr b \<and>
    (length b < 2 ^ 31 \<longrightarrow> Unmarshal t old b = Inr v \<and> Raw_Unmarshal t old 3 b = Inr v)"
proof -
  obtain b where b: "Marshal v = Inr b" "reads_back TM t v 3 b" by (rule fits_Marshal [OF assms])
  have "Unmarshal t old b = Inr v \<and> Raw_Unmarshal t old 3 b = Inr v" if l: "length b < 2 ^ 31"
  proof
    have t: "t \<noteq> TRaw" using assms(2) by auto
    show "Unmarshal t old b = Inr v"
      using readDocTo_of_reads_back [OF b(2) l assms(2)] t by (simp add: Unmarshal_def handleErr_def)
    have "readElemTo (unmarshal_fuel b) t old 3 TM b 0 = Inr (True, v, length b)"
      using reads_backD [OF b(2) _ _ l, where pre = "[]" and post = "[]"] by (simp add: unmarshal_fuel_def)
    then show "Raw_Unmarshal t old 3 b = Inr v" by (simp add: Raw_Unmarshal_def handleErr_def)
  qed
  with b(1) show ?thesis by blast
qed

text \<open>
  C5. What \<open>Marshal\<close> writes, \<open>Unmarshal\<close> reads back: for a \<open>bson.D\<close>, a \<open>bson.M\<close> or a struct, with
  documents, arrays and every element type nested to any depth, encoding succeeds and
  decoding its bytes (fewer than \<open>2^31\<close>) into a variable of that type gives the same value,
  whatever the variable held before; so does \<open>Raw.Unmarshal\<close> of the bytes as a document.
\<close>

theorem Unmarshal_Marshal:
  assumes "fits TM t v" "t \<in> {TD, TM} \<or> (\<exists>gs. t = TStruct gs)"
  shows "\<exists>b. Marshal v = Inr b \<and>
    (length b < 2 ^ 31 \<longrightarrow> Unmarshal t old b = Inr v \<and> Raw_Unmarshal t old 3 b = Inr v)"
  by (rule Marshal_reads_back [OF assms])

text \<open>
  C6. Decoding never crashes: on any bytes, for any type of the destination and any contents of it,
  \<open>Unmarshal\<close> and \<open>Raw.Unmarshal\<close> end with a value or an error; no index leaves the input,
  no loop and no nesting runs away, and every panic of the decoder is one that the recovery
  turns into an error.
\<close>

theorem Unmarshal_safe:
  "no_panic (Unmarshal t old inp) \<and> no_panic (Raw_Unmarshal t old kind inp)"
  using Unmarshal_total Raw_Unmarshal_total by blast

definition ex_doc :: goval where
  "ex_doc = GD [(''a'', GInt 7), (''b'', GD [(''c'', GString ''xy''), (''d'', GNil)]),
     (''e'', GSlice [GBool True, GInt64 5])]"

lemma ex_doc_fits: "fits TM TD ex_doc"
proof -
  have n: "nul_free ''a''" "nul_free ''b''" "nul_free ''c''" "nul_free ''d''" "nul_free ''e''"
    by (simp_all add: nul_free_def raw_def)
  have "fits TD TIface (GInt 7)" by (rule fits.intros) (simp add: fits_int32_def)
  moreover have "fits TD TIface (GString ''xy'')" by (rule fits.intros) simp
  moreover have "fits TD TIface GNil" by (rule fits.intros)
  moreover have "fits TD TIface (GBool True)" "fits TD TIface (GInt64 5)" by (rule fits.intros; simp)+
  ultimately show ?thesis
    using n unfolding ex_doc_def by (auto intro!: fits.intros)
qed

lemma ex_doc_bytes: "\<exists>b. Marshal ex_doc = Inr b \<and> length b = 56"
proof -
  obtain b where b: "Marshal ex_doc = Inr b" using Marshal_reads_back [OF ex_doc_fits, of "GD []"] by auto
  then have "length b = 56"
    by (auto simp: Marshal_def handleErr_def ex_doc_def docBytes_def sized_def elemName_def
        addStr_def addCStr_def fits_int32_def itoa_def nat_digits.simps)
  with b show ?thesis by auto
qed

theorem Unmarshal_Marshal_witness:
  "\<exists>b. Marshal ex_doc = Inr b \<and> length b = 56 \<and> Unmarshal TD (GD []) b = Inr ex_doc"
proof -
  obtain b where b: "Marshal ex_doc = Inr b"
    "length b < 2 ^ 31 \<longrightarrow> Unmarshal TD (GD []) b = Inr ex_doc \<and> Raw_Unmarshal TD (GD []) 3 b = Inr ex_doc"
    using Unmarshal_Marshal [OF ex_doc_fits, of "GD []"] by auto
  moreover have "length b = 56" using ex_doc_bytes b(1) by auto
  ultimately show ?thesis by auto
qed

end
