(* ===== verification/Ops.thy ===== *)
theory Ops
  imports Recorded Bson_Correct
begin

text \<open>
  The operations of the wire protocol: their structs (\<open>internal/llmgo/socket.go\<close> and the
  \<open>*_op.go\<close> files), how each is read from the bytes of a message (\<open>FromReader\<close>), and the
  dispatch of a raw operation on its op code (\<open>raw_op.go\<close>). A document that the program
  holds as \<open>interface{}\<close> is a \<open>goval\<close>: nil, a \<open>bson.D\<close> or a \<open>bson.Raw\<close>.
\<close>

subsection \<open>The structs\<close>

record QueryOp =
  qHeader :: MsgHeader
  qFlags :: int32
  qCollection :: string
  qSkip :: int32
  qLimit :: int32
  qQuery :: goval
  qSelector :: goval

record GetMoreOp =
  gHeader :: MsgHeader
  gCollection :: string
  gLimit :: int32
  gCursorId :: int64

record ReplyOp =
  rHeader :: MsgHeader
  rFlags :: int32
  rCursorId :: int64
  rFirstDoc :: int32
  rReplyDocs :: int32
  rDocs :: "goval list"
  rLatency :: duration
  rcursorCached :: bool

record InsertOp =
  iHeader :: MsgHeader
  iFlags :: int32
  iCollection :: string
  iDocuments :: "goval list"

record UpdateOp =
  uHeader :: MsgHeader
  uFlags :: int32
  uCollection :: string
  uSelector :: goval
  uUpdate :: goval

record DeleteOp =
  dHeader :: MsgHeader
  dFlags :: int32
  dCollection :: string
  dSelector :: goval

record KillCursorsOp =
  kHeader :: MsgHeader
  kCursorIds :: "int64 list"

record CommandOp =
  cHeader :: MsgHeader
  cDatabase :: string
  cCommandName :: string
  cMetadata :: goval
  cCommandArgs :: goval
  cInputDocs :: "goval list"

record CommandReplyOp =
  crHeader :: MsgHeader
  crMetadata :: goval
  crCommandReply :: goval
  crOutputDocs :: "goval list"
  crDocs :: "goval list"
  crLatency :: duration
  crcursorID :: "int64 option"

text \<open>
  The sections of an \<open>OP_MSG\<close>: the payload type, and the data, which is a raw document or a
  \<open>PayloadType1\<close> (its size, identifier and documents).
\<close>

datatype sectionData =
    DocData goval
  | Payload1 int32 string "goval list"

type_synonym MsgSection = "byte \<times> sectionData"

definition MsgPayload0 :: byte where "MsgPayload0 = 0"
definition MsgPayload1 :: byte where "MsgPayload1 = 1"
definition MsgFlagChecksumPresent :: int32 where "MsgFlagChecksumPresent = 1"

record MsgOp =
  mHeader :: MsgHeader
  mFlags :: int32
  mSections :: "MsgSection list"
  mChecksum :: int32
  mCommandName :: string
  mDatabase :: string

record MsgOpReply =
  mrOp :: MsgOp
  mrLatency :: duration
  mrcursorID :: "int64 option"
  mrDocs :: "goval list"

text \<open>The types that implement \<open>Op\<close>.\<close>

datatype Op =
    OpQuery QueryOp
  | OpReply ReplyOp
  | OpGetMore GetMoreOp
  | OpInsert InsertOp
  | OpKillCursors KillCursorsOp
  | OpDelete DeleteOp
  | OpUpdate UpdateOp
  | OpCommand CommandOp
  | OpCommandReply CommandReplyOp
  | OpMsg MsgOp
  | OpCommandGetMore CommandOp "int64 option"
  | OpMsgGetMore MsgOp "int64 option"
  | OpMsgReply MsgOpReply

subsection \<open>Reading the parts of an operation\<close>

text \<open>\<open>readInt32From\<close>: \<open>io.ReadFull\<close> into a buffer of four bytes and \<open>getInt32\<close> of it.\<close>

definition readInt32From :: "int32 reader" where
  "readInt32From = rdbind (readFull 4) (\<lambda>b. rdlift (getInt32 b 0))"

definition readCollection :: "string reader" where
  "readCollection = rdbind readCStringFromReader (\<lambda>b. rdret (str b))"

text \<open>A document that is kept raw, and one that is decoded into a \<open>bson.D\<close>.\<close>

definition readRaw :: "goval reader" where
  "readRaw = rdbind ReadDoc (\<lambda>d. rdlift (Unmarshal TRaw (GRaw 0 []) d))"

definition readD :: "goval reader" where
  "readD = rdbind ReadDoc (\<lambda>d. rdlift (Unmarshal TD (GD []) d))"

subsection \<open>Reading each operation\<close>

definition QueryOp_FromReader :: "QueryOp \<Rightarrow> QueryOp reader" where
  "QueryOp_FromReader op =
     rdbind readInt32From (\<lambda>flags.
     rdbind readCollection (\<lambda>name.
     rdbind (readFull 8) (\<lambda>b.
     rdbind (rdlift (getInt32 b 0)) (\<lambda>skip.
     rdbind (rdlift (getInt32 b 4)) (\<lambda>limit.
     rdbind ReadDoc (\<lambda>queryAsSlice.
     rdbind (rdlift (Unmarshal TRaw (GRaw 0 []) queryAsSlice)) (\<lambda>query.
       let op = op\<lparr>qFlags := flags, qCollection := name, qSkip := skip, qLimit := limit, qQuery := query\<rparr>;
           currentRead = int (length queryAsSlice) + int (length name) + 1 + 12 + MsgHeaderLen
       in if sint (MessageLength (qHeader op)) > currentRead
          then rdbind readD (\<lambda>selector. rdret (op\<lparr>qSelector := selector\<rparr>))
          else rdret op)))))))"

definition GetMoreOp_FromReader :: "GetMoreOp \<Rightarrow> GetMoreOp reader" where
  "GetMoreOp_FromReader op =
     rdbind (readFull 4) (\<lambda>_.
     rdbind readCollection (\<lambda>name.
     rdbind (readFull 12) (\<lambda>b.
     rdbind (rdlift (getInt32 b 0)) (\<lambda>limit.
     rdbind (rdlift (getInt64 b 4)) (\<lambda>cursorId.
       rdret (op\<lparr>gCollection := name, gLimit := limit, gCursorId := cursorId\<rparr>))))))"

text \<open>
  The loop of \<open>ReplyOp.FromReader\<close> and of \<open>CommandReplyOp.FromReader\<close> reads documents until the
  end of the input; each takes five bytes at least, so its bound is the length of the input.
\<close>

fun docs_loop :: "nat \<Rightarrow> goval list \<Rightarrow> goval list reader" where
  "docs_loop 0 docs r = Inl Hang"
| "docs_loop (Suc n) docs r =
     rbind (ReadDocument r) (\<lambda>((d, e), r').
       case e of
         Some err \<Rightarrow> if err \<noteq> EOF then Inl (Error err) else Inr (docs, r')
       | None \<Rightarrow>
           if d = [] then Inr (docs, r')
           else rbind (Unmarshal TRaw (GRaw 0 []) d) (\<lambda>doc. docs_loop n (docs @ [doc]) r'))"

definition ReplyOp_FromReader :: "ReplyOp \<Rightarrow> ReplyOp reader" where
  "ReplyOp_FromReader op =
     rdbind (readFull 20) (\<lambda>b.
     rdbind (rdlift (getInt32 b 0)) (\<lambda>flags.
     rdbind (rdlift (getInt64 b 4)) (\<lambda>cursorId.
     rdbind (rdlift (getInt32 b 12)) (\<lambda>firstDoc.
     rdbind (rdlift (getInt32 b 16)) (\<lambda>replyDocs.
     rdbind (\<lambda>r. docs_loop (Suc (length r)) [] r) (\<lambda>docs.
       rdret (op\<lparr>rFlags := flags, rCursorId := cursorId, rFirstDoc := firstDoc,
                 rReplyDocs := replyDocs, rDocs := docs\<rparr>)))))))"

text \<open>
  \<open>InsertOp.FromReader\<close> ignores the error of \<open>ReadDocument\<close>: what could not be read is decoded
  all the same, and decoding nothing is an error. Each round reads a document, so the
  length of the input bounds the loop.
\<close>

fun insert_loop :: "nat \<Rightarrow> int \<Rightarrow> int \<Rightarrow> goval list \<Rightarrow> goval list reader" where
  "insert_loop 0 nread msgLen docs r = Inl Hang"
| "insert_loop (Suc n) nread msgLen docs r =
     (if nread < msgLen - MsgHeaderLen then
        rbind (ReadDocument r) (\<lambda>((d, e), r').
        rbind (Unmarshal TD (GD []) d) (\<lambda>doc.
          insert_loop n (nread + int (length d)) msgLen (docs @ [doc]) r'))
      else Inr (docs, r))"

definition InsertOp_FromReader :: "InsertOp \<Rightarrow> InsertOp reader" where
  "InsertOp_FromReader op =
     rdbind readInt32From (\<lambda>flags.
     rdbind readCollection (\<lambda>name.
     rdbind (\<lambda>r. insert_loop (Suc (length r)) (int (length name) + 1 + 4)
                   (sint (MessageLength (iHeader op))) [] r) (\<lambda>docs.
       rdret (op\<lparr>iFlags := flags, iCollection := name, iDocuments := docs\<rparr>))))"

definition UpdateOp_FromReader :: "UpdateOp \<Rightarrow> UpdateOp reader" where
  "UpdateOp_FromReader op =
     rdbind (readFull 4) (\<lambda>_.
     rdbind readCollection (\<lambda>name.
     rdbind readInt32From (\<lambda>flags.
     rdbind readD (\<lambda>selector.
     rdbind readD (\<lambda>update.
       rdret (op\<lparr>uCollection := name, uFlags := flags, uSelector := selector, uUpdate := update\<rparr>))))))"

definition DeleteOp_FromReader :: "DeleteOp \<Rightarrow> DeleteOp reader" where
  "DeleteOp_FromReader op =
     rdbind (readFull 4) (\<lambda>_.
     rdbind readCollection (\<lambda>name.
     rdbind readInt32From (\<lambda>flags.
     rdbind readD (\<lambda>selector.
       rdret (op\<lparr>dCollection := name, dFlags := flags, dSelector := selector\<rparr>)))))"

text \<open>\<open>KillCursorsOp.FromReader\<close> takes the ids there are when fewer than announced follow.\<close>

fun cursor_ids_loop :: "nat \<Rightarrow> int64 list \<Rightarrow> int64 list reader" where
  "cursor_ids_loop 0 ids r = Inr (ids, r)"
| "cursor_ids_loop (Suc n) ids r =
     (case readFull_raw 8 r of
        ((b, Some _), r') \<Rightarrow> Inr (ids, r')
      | ((b, None), r') \<Rightarrow> rbind (getInt64 b 0) (\<lambda>x. cursor_ids_loop n (ids @ [x]) r'))"

definition KillCursorsOp_FromReader :: "KillCursorsOp \<Rightarrow> KillCursorsOp reader" where
  "KillCursorsOp_FromReader op =
     rdbind (readFull 8) (\<lambda>b.
     rdbind (rdlift (getInt32 (drop 4 b) 0)) (\<lambda>numCursors.
     rdbind (\<lambda>r. cursor_ids_loop (unat numCursors) (kCursorIds op) r) (\<lambda>ids.
       rdret (op\<lparr>kCursorIds := ids\<rparr>))))"

text \<open>
  \<open>CommandOp.FromReader\<close> ignores the error of \<open>ReadDocument\<close> too, but keeps the input
  documents raw, which nothing refuses: when the input ends before the announced length, the
  loop goes on for ever. It then runs out of any bound, and \<open>Hang\<close> is its result.
\<close>

fun inputDocs_loop :: "nat \<Rightarrow> int \<Rightarrow> int \<Rightarrow> goval list \<Rightarrow> goval list reader" where
  "inputDocs_loop 0 nread msgLen docs r =
     (if nread < msgLen - MsgHeaderLen then Inl Hang else Inr (docs, r))"
| "inputDocs_loop (Suc n) nread msgLen docs r =
     (if nread < msgLen - MsgHeaderLen then
        rbind (ReadDocument r) (\<lambda>((d, e), r').
        rbind (Unmarshal TRaw (GRaw 0 []) d) (\<lambda>doc.
          inputDocs_loop n (nread + int (length d)) msgLen (docs @ [doc]) r'))
      else Inr (docs, r))"

definition CommandOp_FromReader :: "CommandOp \<Rightarrow> CommandOp reader" where
  "CommandOp_FromReader op =
     rdbind readCStringFromReader (\<lambda>database.
     rdbind readCStringFromReader (\<lambda>commandName.
     rdbind ReadDoc (\<lambda>commandArgsAsSlice.
     rdbind (rdlift (Unmarshal TRaw (GRaw 0 []) commandArgsAsSlice)) (\<lambda>commandArgs.
     rdbind ReadDoc (\<lambda>metadataAsSlice.
     rdbind (rdlift (Unmarshal TRaw (GRaw 0 []) metadataAsSlice)) (\<lambda>metadata.
       let lengthRead = int (length database) + 1 + int (length commandName) + 1 +
             int (length commandArgsAsSlice) + int (length metadataAsSlice)
       in rdbind (\<lambda>r. inputDocs_loop (length r) lengthRead (sint (MessageLength (cHeader op))) [] r) (\<lambda>docs.
            rdret (op\<lparr>cDatabase := str database, cCommandName := str commandName,
                      cCommandArgs := commandArgs, cMetadata := metadata, cInputDocs := docs\<rparr>))))))))"

definition CommandReplyOp_FromReader :: "CommandReplyOp \<Rightarrow> CommandReplyOp reader" where
  "CommandReplyOp_FromReader op =
     rdbind readRaw (\<lambda>commandReply.
     rdbind readRaw (\<lambda>metadata.
     rdbind (\<lambda>r. docs_loop (Suc (length r)) [] r) (\<lambda>docs.
       rdret (op\<lparr>crCommandReply := commandReply, crMetadata := metadata, crOutputDocs := docs\<rparr>))))"

subsection \<open>Sections of an \<open>OP_MSG\<close>\<close>

text \<open>
  \<open>readPayloadType1\<close>: the size is an \<open>int32\<close> and the count of the bytes read is converted to
  one before it is subtracted. A document takes five bytes at least.
\<close>

fun payload1_loop :: "nat \<Rightarrow> int32 \<Rightarrow> int \<Rightarrow> goval list \<Rightarrow> (goval list \<times> int) reader" where
  "payload1_loop 0 sz offset docs r = Inl Hang"
| "payload1_loop (Suc n) sz offset docs r =
     (if sint (sz - word_of_int offset) > 0 then
        rdbind ReadDoc (\<lambda>d.
        rdbind (rdlift (Unmarshal TRaw (GRaw 0 []) d)) (\<lambda>doc.
          payload1_loop n sz (offset + int (length d)) (docs @ [doc]))) r
      else Inr ((docs, offset), r))"

definition readPayloadType1 :: "(sectionData \<times> int) reader" where
  "readPayloadType1 =
     rdbind readInt32From (\<lambda>sz.
     rdbind readCStringFromReader (\<lambda>identifier.
       let offset = 4 + (int (length identifier) + 1) in
       rdbind (\<lambda>r. payload1_loop (Suc (length r)) sz offset [] r) (\<lambda>(docs, offset).
         rdret (Payload1 sz (str identifier) docs, offset))))"

definition readSection :: "(MsgSection \<times> int) reader" where
  "readSection =
     rdbind (readFull 1) (\<lambda>buf.
       if hd buf = MsgPayload0 then
         rdbind ReadDoc (\<lambda>docAsSlice.
         rdbind (rdlift (Unmarshal TRaw (GRaw 0 []) docAsSlice)) (\<lambda>doc.
           rdret ((MsgPayload0, DocData doc), 1 + int (length docAsSlice))))
       else if hd buf = MsgPayload1 then
         rdbind readPayloadType1 (\<lambda>(payload, len).
           rdret ((MsgPayload1, payload), 1 + len))
       else rdfail (Error (Errorf ''unknown payload type: %d'' [uint (hd buf)])))"

fun fetchPayload0Data_loop :: "nat \<Rightarrow> MsgSection list \<Rightarrow> (goval \<times> nat) res" where
  "fetchPayload0Data_loop i [] = Inl (Error (Errorf ''payload 0 not found'' []))"
| "fetchPayload0Data_loop i ((ty, d) # sections) =
     (if ty = MsgPayload0 then
        (case d of
           DocData doc \<Rightarrow> Inr (doc, i)
         | Payload1 _ _ _ \<Rightarrow> Inl (Error (Errorf ''data from payload of type 0 was wrong type'' [])))
      else fetchPayload0Data_loop (i + 1) sections)"

definition fetchPayload0Data :: "MsgSection list \<Rightarrow> (goval \<times> nat) res" where
  "fetchPayload0Data sections = fetchPayload0Data_loop 0 sections"

text \<open>\<open>Raw.Unmarshal\<close> of a document that is held raw.\<close>

fun unmarshal_of :: "gotype \<Rightarrow> goval \<Rightarrow> goval \<Rightarrow> goval res" where
  "unmarshal_of t old (GRaw k d) = Raw_Unmarshal t old k d"
| "unmarshal_of t old _ = Inl (Panic ''interface conversion'')"

fun raw_data :: "goval \<Rightarrow> bytes" where
  "raw_data (GRaw k d) = d"
| "raw_data _ = []"

text \<open>
  \<open>getCommandName\<close> and \<open>getDB\<close> store what they find in the operation. The error of decoding
  the names of the document's elements is ignored, and the first name is taken even when
  there is none.
\<close>

definition getCommandName :: "MsgOp \<Rightarrow> (string \<times> MsgOp) res" where
  "getCommandName op =
     (if mCommandName op \<noteq> [] then Inr (mCommandName op, op)
      else if mSections op = [] then Inl (Error (Errorf ''msg op contained no documents'' []))
      else
        rbind (fetchPayload0Data (mSections op)) (\<lambda>(doc, _).
          if length (raw_data doc) < 5 then Inl (Error (Errorf ''section contained no documents'' []))
          else
            let rawD = (case unmarshal_of TRawD (GRawD []) doc of Inr v \<Rightarrow> v | Inl _ \<Rightarrow> GRawD []) in
            (case rawD of
               GRawD ((name, _) # _) \<Rightarrow> Inr (name, op\<lparr>mCommandName := name\<rparr>)
             | _ \<Rightarrow> Inl index_panic)))"

definition dbFields :: "(string \<times> bool \<times> gotype) list" where
  "dbFields = [(''$db'', False, TString)]"

fun string_field :: "goval \<Rightarrow> string" where
  "string_field (GStruct [(_, _, GString s)]) = s"
| "string_field _ = []"

definition getDB :: "MsgOp \<Rightarrow> (string \<times> MsgOp) res" where
  "getDB op =
     (if mDatabase op \<noteq> [] then Inr (mDatabase op, op)
      else if mSections op = [] then Inl (Error (Errorf ''msg op contained no documents'' []))
      else
        rbind (fetchPayload0Data (mSections op)) (\<lambda>(doc, _).
        rbind (unmarshal_of (TStruct dbFields) (zero_of (TStruct dbFields)) doc) (\<lambda>v.
          let dbName = string_field v in Inr (dbName, op\<lparr>mDatabase := dbName\<rparr>))))"

text \<open>\<open>MsgOp.FromReader\<close>: each section takes a byte at least.\<close>

fun sections_loop :: "nat \<Rightarrow> int \<Rightarrow> int \<Rightarrow> int \<Rightarrow> MsgSection list \<Rightarrow> MsgSection list reader" where
  "sections_loop 0 msgLen checksumLength offset sections r = Inl Hang"
| "sections_loop (Suc n) msgLen checksumLength offset sections r =
     (if msgLen - (offset + checksumLength + MsgHeaderLen) > 0 then
        rdbind readSection (\<lambda>(section, len).
          sections_loop n msgLen checksumLength (offset + len) (sections @ [section])) r
      else Inr (sections, r))"

definition MsgOp_FromReader :: "MsgOp \<Rightarrow> MsgOp reader" where
  "MsgOp_FromReader op =
     rdbind readInt32From (\<lambda>flags.
       let checksumPresent = (flags AND MsgFlagChecksumPresent \<noteq> 0);
           checksumLength = (if checksumPresent then 4 else 0)
       in
       rdbind (\<lambda>r. sections_loop (Suc (length r)) (sint (MessageLength (mHeader op))) checksumLength 4
                     (mSections op) r) (\<lambda>sections.
       rdbind (if checksumPresent then readInt32From else rdret (mChecksum op)) (\<lambda>checksum.
         let op = op\<lparr>mFlags := flags, mSections := sections, mChecksum := checksum\<rparr> in
         rdbind (rdlift (getCommandName op)) (\<lambda>(_, op).
         rdbind (rdlift (getDB op)) (\<lambda>(_, op).
           rdret op)))))"

subsection \<open>Parsing a raw operation\<close>

text \<open>
  \<open>maybeChangeOpToGetMore\<close>: commands that fetch more of a cursor get types of their own, whose
  cursors can be rewritten.
\<close>

definition maybeChangeOpToGetMore :: "Op \<Rightarrow> Op res" where
  "maybeChangeOpToGetMore parsedOp =
     (case parsedOp of
        OpCommand castOp \<Rightarrow>
          if cCommandName castOp = ''getMore'' then Inr (OpCommandGetMore castOp None) else Inr parsedOp
      | OpMsg castOp \<Rightarrow>
          rbind (getCommandName castOp) (\<lambda>(i, castOp).
            if i = ''getMore'' then Inr (OpMsgGetMore castOp None) else Inr (OpMsg castOp))
      | _ \<Rightarrow> Inr parsedOp)"

text \<open>The operation of an op code that the program reads, with its header and nothing else.\<close>

definition newOp :: "MsgHeader \<Rightarrow> Op option" where
  "newOp h =
     (if hOpCode h = OpCodeQuery then Some (OpQuery \<lparr>qHeader = h, qFlags = 0, qCollection = [], qSkip = 0,
         qLimit = 0, qQuery = GNil, qSelector = GNil\<rparr>)
      else if hOpCode h = OpCodeReply then Some (OpReply \<lparr>rHeader = h, rFlags = 0, rCursorId = 0, rFirstDoc = 0,
         rReplyDocs = 0, rDocs = [], rLatency = 0, rcursorCached = False\<rparr>)
      else if hOpCode h = OpCodeGetMore then Some (OpGetMore \<lparr>gHeader = h, gCollection = [], gLimit = 0, gCursorId = 0\<rparr>)
      else if hOpCode h = OpCodeInsert then Some (OpInsert \<lparr>iHeader = h, iFlags = 0, iCollection = [], iDocuments = []\<rparr>)
      else if hOpCode h = OpCodeKillCursors then Some (OpKillCursors \<lparr>kHeader = h, kCursorIds = []\<rparr>)
      else if hOpCode h = OpCodeDelete then Some (OpDelete \<lparr>dHeader = h, dFlags = 0, dCollection = [], dSelector = GNil\<rparr>)
      else if hOpCode h = OpCodeUpdate then Some (OpUpdate \<lparr>uHeader = h, uFlags = 0, uCollection = [],
         uSelector = GNil, uUpdate = GNil\<rparr>)
      else if hOpCode h = OpCodeCommand then Some (OpCommand \<lparr>cHeader = h, cDatabase = [], cCommandName = [],
         cMetadata = GNil, cCommandArgs = GNil, cInputDocs = []\<rparr>)
      else if hOpCode h = OpCodeCommandReply then Some (OpCommandReply \<lparr>crHeader = h, crMetadata = GNil,
         crCommandReply = GNil, crOutputDocs = [], crDocs = [], crLatency = 0, crcursorID = None\<rparr>)
      else if hOpCode h = OpCodeMessage then Some (OpMsg \<lparr>mHeader = h, mFlags = 0, mSections = [], mChecksum = 0,
         mCommandName = [], mDatabase = []\<rparr>)
      else None)"

fun Op_FromReader :: "Op \<Rightarrow> Op reader" where
  "Op_FromReader (OpQuery op) = rdbind (QueryOp_FromReader op) (\<lambda>op. rdret (OpQuery op))"
| "Op_FromReader (OpReply op) = rdbind (ReplyOp_FromReader op) (\<lambda>op. rdret (OpReply op))"
| "Op_FromReader (OpGetMore op) = rdbind (GetMoreOp_FromReader op) (\<lambda>op. rdret (OpGetMore op))"
| "Op_FromReader (OpInsert op) = rdbind (InsertOp_FromReader op) (\<lambda>op. rdret (OpInsert op))"
| "Op_FromReader (OpKillCursors op) = rdbind (KillCursorsOp_FromReader op) (\<lambda>op. rdret (OpKillCursors op))"
| "Op_FromReader (OpDelete op) = rdbind (DeleteOp_FromReader op) (\<lambda>op. rdret (OpDelete op))"
| "Op_FromReader (OpUpdate op) = rdbind (UpdateOp_FromReader op) (\<lambda>op. rdret (OpUpdate op))"
| "Op_FromReader (OpCommand op) = rdbind (CommandOp_FromReader op) (\<lambda>op. rdret (OpCommand op))"
| "Op_FromReader (OpCommandReply op) = rdbind (CommandReplyOp_FromReader op) (\<lambda>op. rdret (OpCommandReply op))"
| "Op_FromReader (OpMsg op) = rdbind (MsgOp_FromReader op) (\<lambda>op. rdret (OpMsg op))"
| "Op_FromReader (OpCommandGetMore op c) = rdbind (CommandOp_FromReader op) (\<lambda>op. rdret (OpCommandGetMore op c))"
| "Op_FromReader (OpMsgGetMore op c) = rdbind (MsgOp_FromReader op) (\<lambda>op. rdret (OpMsgGetMore op c))"
| "Op_FromReader (OpMsgReply op) =
     rdbind (MsgOp_FromReader (mrOp op)) (\<lambda>m. rdret (OpMsgReply (op\<lparr>mrOp := m\<rparr>)))"

text \<open>
  \<open>RawOp.Parse\<close>, with \<open>mgo.DecompressMessage\<close> as the argument \<open>decompress\<close>. The raw operation
  is returned with it, as decompressing replaces its header and body.
\<close>

definition decompressed :: "(bytes \<Rightarrow> bytes res) \<Rightarrow> RawOp \<Rightarrow> RawOp res" where
  "decompressed decompress op =
     (if hOpCode (Header op) = OpCodeCompressed then
        rbind (decompress (Body op)) (\<lambda>newMsg.
        rbind (FromWire newMsg) (\<lambda>h. Inr \<lparr>Header = h, Body = newMsg\<rparr>))
      else Inr op)"

definition Parse :: "(bytes \<Rightarrow> bytes res) \<Rightarrow> RawOp \<Rightarrow> (Op option \<times> RawOp) res" where
  "Parse decompress op =
     rbind (decompressed decompress op) (\<lambda>op.
       case newOp (Header op) of
         None \<Rightarrow> Inr (None, op)
       | Some parsedOp \<Rightarrow>
           if length (Body op) < 16 then Inl (Panic ''runtime error: slice bounds out of range'')
           else
             rbind (Op_FromReader parsedOp (drop 16 (Body op))) (\<lambda>(parsedOp, _).
             rbind (maybeChangeOpToGetMore parsedOp) (\<lambda>parsedOp.
               case parsedOp of
                 OpMsg m \<Rightarrow>
                   if ResponseTo (mHeader m) \<noteq> 0
                   then Inr (Some (OpMsgReply \<lparr>mrOp = m\<lparr>mCommandName := ''reply''\<rparr>, mrLatency = 0,
                          mrcursorID = None, mrDocs = []\<rparr>), op)
                   else Inr (Some parsedOp, op)
               | _ \<Rightarrow> Inr (Some parsedOp, op))))"

subsection \<open>Kinds of operations\<close>

text \<open>
  \<open>extractOpType\<close>: whether a query document is a write command, and the name of the command.
\<close>

definition write_kind :: "string list \<Rightarrow> string option" where
  "write_kind names = find (\<lambda>v. v \<in> set names) [''insert'', ''update'', ''delete'']"

definition extractOpType_map :: "string \<Rightarrow> string list \<Rightarrow> string \<times> string" where
  "extractOpType_map commandName names =
     (case write_kind names of Some v \<Rightarrow> (v, []) | None \<Rightarrow> (''command'', commandName))"

definition first_name :: "(string \<times> goval) list \<Rightarrow> string" where
  "first_name d = (case d of [] \<Rightarrow> [] | (k, _) # _ \<Rightarrow> k)"

definition extractOpType :: "goval \<Rightarrow> (string \<times> string) res" where
  "extractOpType x =
     (case x of
        GD d \<Rightarrow> Inr (extractOpType_map (first_name d) (map fst (D_Map d)))
      | GM m \<Rightarrow> Inr (extractOpType_map [] (map fst m))
      | GRaw k data \<Rightarrow>
          (case Raw_Unmarshal TD (GD []) k data of
             Inr (GD d) \<Rightarrow> Inr (extractOpType_map (first_name d) (map fst (D_Map d)))
           | _ \<Rightarrow> Inl (Panic ''couldn't unmarshal Raw bson into D''))
      | _ \<Rightarrow> Inr (extractOpType_map [] []))"

definition IsDriverOp :: "Op \<Rightarrow> bool res" where
  "IsDriverOp op =
     (let driver = (\<lambda>commandType. commandType \<in> {''isMaster'', ''ismaster'', ''getnonce'', ''ping'',
            ''saslStart'', ''saslContinue''})
      in (case op of
            OpQuery castOp \<Rightarrow>
              rbind (extractOpType (qQuery castOp)) (\<lambda>(opType, commandType).
                Inr (opType = ''command'' \<and> driver commandType))
          | OpCommand castOp \<Rightarrow> Inr (driver (cCommandName castOp))
          | _ \<Rightarrow> Inr False))"

definition IsReadOp :: "Op \<Rightarrow> bool res" where
  "IsReadOp op =
     (let read = (\<lambda>t. t \<in> {''find'', ''aggregate'', ''get_more''})
      in (case op of
            OpQuery castOp \<Rightarrow>
              rbind (extractOpType (qQuery castOp)) (\<lambda>(opType, commandType). Inr (read opType))
          | OpInsert castOp \<Rightarrow> Inr True
          | OpMsg castOp \<Rightarrow> Inr (read (mCommandName castOp))
          | OpCommand castOp \<Rightarrow> Inr (read (cCommandName castOp))
          | _ \<Rightarrow> Inr False))"

definition IsWriteOp :: "Op \<Rightarrow> bool res" where
  "IsWriteOp op =
     (let write = (\<lambda>t. t \<in> {''insert'', ''update'', ''modify'', ''delete''})
      in (case op of
            OpQuery castOp \<Rightarrow>
              rbind (extractOpType (qQuery castOp)) (\<lambda>(opType, commandType). Inr (write opType))
          | OpInsert castOp \<Rightarrow> Inr True
          | OpMsg castOp \<Rightarrow> Inr (write (mCommandName castOp))
          | OpCommand castOp \<Rightarrow> Inr (write (cCommandName castOp))
          | _ \<Rightarrow> Inr False))"

end
