(* ===== verification/Send.thy ===== *)
theory Send
  imports Ops
begin

text \<open>
  How the driver writes operations to a connection (\<open>MongoSocket.Query\<close> of
  \<open>internal/llmgo/socket.go\<close>): the bytes of each operation, its length and request id, and
  the table of the functions that wait for replies.
\<close>

subsection \<open>The query as it is sent\<close>

text \<open>The \<open>Mode\<close> of a session by its number, and the options around a query.\<close>

definition mode_name :: "int \<Rightarrow> string res" where
  "mode_name mode =
     (if mode = 2 then Inr ''primary''
      else if mode = 1 \<or> mode = 0 then Inr ''secondaryPreferred''
      else if mode = 3 then Inr ''primaryPreferred''
      else if mode = 4 then Inr ''secondary''
      else if mode = 5 then Inr ''secondaryPreferred''
      else if mode = 6 then Inr ''nearest''
      else Inl (Panic ''unsupported read mode''))"

record QueryWrapper =
  wOrderBy :: goval
  wHint :: goval
  wExplain :: bool
  wSnapshot :: bool
  wReadPreference :: "(string \<times> goval) list"
  wMaxScan :: int64
  wMaxTimeMS :: int64
  wComment :: string

definition zeroWrapper :: QueryWrapper where
  "zeroWrapper = \<lparr>wOrderBy = GNil, wHint = GNil, wExplain = False, wSnapshot = False,
     wReadPreference = [], wMaxScan = 0, wMaxTimeMS = 0, wComment = []\<rparr>"

text \<open>
  The fields of interface type are left out only when they are nil, not when they hold an empty value: their flag says so.
\<close>

definition wrapped :: "QueryWrapper \<Rightarrow> goval \<Rightarrow> goval" where
  "wrapped w query = GStruct
     [(''$query'', False, query), (''$orderby'', wOrderBy w = GNil, wOrderBy w), (''$hint'', wHint w = GNil, wHint w),
      (''$explain'', True, GBool (wExplain w)), (''$snapshot'', True, GBool (wSnapshot w)),
      (''$readPreference'', True, GD (wReadPreference w)), (''$maxScan'', True, GInt (wMaxScan w)),
      (''$maxTimeMS'', True, GInt (wMaxTimeMS w)), (''$comment'', True, GString (wComment w))]"

text \<open>The fields of \<open>mgo.QueryOp\<close> that reading one from the wire leaves zero.\<close>

record QueryMode =
  mode :: int
  HasOptions :: bool
  Options :: QueryWrapper
  ServerTags :: "goval list"

definition zeroQueryMode :: QueryMode where
  "zeroQueryMode = \<lparr>mode = 0, HasOptions = False, Options = zeroWrapper, ServerTags = []\<rparr>"

definition flagSlaveOk :: int32 where "flagSlaveOk = 4"

text \<open>
  \<open>finalQuery\<close>; \<open>info\<close> is the \<open>Mongos\<close> of the socket's server info, a pointer that may be nil.
\<close>

definition finalQuery :: "bool option \<Rightarrow> QueryMode \<Rightarrow> QueryOp \<Rightarrow> goval res" where
  "finalQuery info qm op =
     rbind (if qFlags op AND flagSlaveOk \<noteq> 0 then
              (case info of
                 None \<Rightarrow> Inl (Panic ''runtime error: invalid memory address or nil pointer dereference'')
               | Some mongos \<Rightarrow>
                   if mongos then
                     rbind (mode_name (mode qm)) (\<lambda>modeName.
                       Inr (qm\<lparr>HasOptions := True,
                         Options := (Options qm)\<lparr>wReadPreference :=
                           (''mode'', GString modeName) #
                           (if ServerTags qm \<noteq> [] then [(''tags'', GSlice (ServerTags qm))] else [])\<rparr>\<rparr>))
                   else Inr qm)
            else Inr qm)
       (\<lambda>qm.
          if HasOptions qm then
            Inr (wrapped (Options qm) (if qQuery op = GNil then GD [] else qQuery op))
          else Inr (qQuery op))"

subsection \<open>Appending operations\<close>

definition addBSON :: "bytes \<Rightarrow> goval \<Rightarrow> bytes res" where
  "addBSON b doc =
     (if doc = GNil then Inr (b @ [5, 0, 0, 0, 0])
      else rbind (Marshal doc) (\<lambda>data. Inr (b @ data)))"

fun addDocs :: "bytes \<Rightarrow> goval list \<Rightarrow> bytes res" where
  "addDocs b [] = Inr b"
| "addDocs b (doc # docs) = rbind (addBSON b doc) (\<lambda>b. addDocs b docs)"

fun addSections :: "bytes \<Rightarrow> MsgSection list \<Rightarrow> bytes res" where
  "addSections b [] = Inr b"
| "addSections b ((ty, d) # sections) =
     (if ty = MsgPayload0 then
        (case d of
           DocData doc \<Rightarrow> rbind (addBSON (b @ [0]) doc) (\<lambda>b. addSections b sections)
         | Payload1 _ _ _ \<Rightarrow> Inl (Panic ''Can't marshal PayloadType1 here''))
      else if ty = MsgPayload1 then
        (case d of
           Payload1 sz ident docs \<Rightarrow>
             rbind (addDocs (addCString (addInt32 (b @ [1]) sz) ident) docs) (\<lambda>b. addSections b sections)
         | DocData _ \<Rightarrow> Inl (Panic ''incorrect type given for payload''))
      else Inl (Error (Errorf ''unknown payload type: %d'' [uint ty])))"

text \<open>
  The cases of the loop over the operations. Where the code writes a section with a
  \<open>PayloadType1\<close> under payload type 0 it would marshal that struct; no operation that is read
  or built by the program has one, and it is refused here.
\<close>

fun addMsg :: "bytes \<Rightarrow> MsgOp \<Rightarrow> bytes res" where
  "addMsg buf op =
     rbind (addSections (addInt32 (addHeader buf 2013) (mFlags op)) (mSections op)) (\<lambda>buf.
       Inr (if mFlags op AND MsgFlagChecksumPresent \<noteq> 0 then addInt32 buf (mChecksum op) else buf))"

fun addCommand :: "bytes \<Rightarrow> CommandOp \<Rightarrow> bytes res" where
  "addCommand buf op =
     rbind (addBSON (addCString (addCString (addHeader buf 2010) (cDatabase op)) (cCommandName op))
       (cCommandArgs op)) (\<lambda>buf.
     rbind (addBSON buf (cMetadata op)) (\<lambda>buf. addDocs buf (cInputDocs op)))"

fun addOp :: "bool option \<Rightarrow> QueryMode \<Rightarrow> bytes \<Rightarrow> Op \<Rightarrow> bytes res" where
  "addOp info qm buf (OpUpdate op) =
     rbind (addBSON (addInt32 (addCString (addInt32 (addHeader buf 2001) 0) (uCollection op)) (uFlags op))
       (uSelector op)) (\<lambda>buf. addBSON buf (uUpdate op))"
| "addOp info qm buf (OpInsert op) =
     addDocs (addCString (addInt32 (addHeader buf 2002) (iFlags op)) (iCollection op)) (iDocuments op)"
| "addOp info qm buf (OpQuery op) =
     (let buf = addHeader buf 2004;
          buf = addInt32 buf (qFlags op);
          buf = addCString buf (qCollection op);
          buf = addInt32 buf (qSkip op);
          buf = addInt32 buf (qLimit op)
      in rbind (finalQuery info qm op) (\<lambda>q.
         rbind (addBSON buf q) (\<lambda>buf.
           if qSelector op \<noteq> GNil then addBSON buf (qSelector op) else Inr buf)))"
| "addOp info qm buf (OpGetMore op) =
     Inr (addInt64 (addInt32 (addCString (addInt32 (addHeader buf 2005) 0) (gCollection op)) (gLimit op))
       (gCursorId op))"
| "addOp info qm buf (OpReply op) =
     Inr (addInt32 (addInt32 (addInt64 (addInt32 (addHeader buf 1) (rFlags op)) (rCursorId op))
       (rFirstDoc op)) (rReplyDocs op))"
| "addOp info qm buf (OpDelete op) =
     addBSON (addInt32 (addCString (addInt32 (addHeader buf 2006) 0) (dCollection op)) (dFlags op))
       (dSelector op)"
| "addOp info qm buf (OpKillCursors op) =
     Inr (foldl addInt64 (addInt32 (addInt32 (addHeader buf 2007) 0) (word_of_nat (length (kCursorIds op))))
       (kCursorIds op))"
| "addOp info qm buf (OpCommand op) = addCommand buf op"
| "addOp info qm buf (OpCommandGetMore op _) = addCommand buf op"
| "addOp info qm buf (OpCommandReply op) =
     rbind (addBSON (addHeader buf 2011) (crCommandReply op)) (\<lambda>buf.
     rbind (addBSON buf (crMetadata op)) (\<lambda>buf. addDocs buf (crOutputDocs op)))"
| "addOp info qm buf (OpMsg op) = addMsg buf op"
| "addOp info qm buf (OpMsgGetMore op _) = addMsg buf op"
| "addOp info qm buf (OpMsgReply op) = addMsg buf (mrOp op)"

text \<open>One round of the loop: the operation, and then its length at its start.\<close>

definition serialize :: "bool option \<Rightarrow> QueryMode \<Rightarrow> bytes \<Rightarrow> Op \<Rightarrow> bytes res" where
  "serialize info qm buf op =
     (let start = length buf in
      rbind (addOp info qm buf op) (\<lambda>buf.
        SetInt32 buf start (word_of_int (int (length buf) - int start))))"

end
