(* ===== verification/Compress.thy ===== *)
theory Compress
  imports Wire
begin

text \<open>
  Compressed messages (\<open>internal/llmgo/compress.go\<close>): the interface of the compressors, its
  three implementations, and the messages around compressed bytes. The snappy and zlib
  packages are the arguments of the model: \<open>compressLib\<close> holds the calls the code makes of
  them. \<open>snappy_Encode\<close> and \<open>snappy_Decode\<close> give the slice that is returned and the destination
  afterwards, since the slice may lie in the destination or be a new one.
\<close>

subsection \<open>Compressors\<close>

record compressLib =
  MaxEncodedLen :: "int \<Rightarrow> int"
  snappy_Encode :: "bytes \<Rightarrow> bytes \<Rightarrow> bytes \<times> bytes"
  snappy_DecodedLen :: "bytes \<Rightarrow> err + int"
  snappy_Decode :: "bytes \<Rightarrow> bytes \<Rightarrow> (bytes \<times> err option) \<times> bytes"
  zlib_deflate :: "bytes \<Rightarrow> err + bytes"
  zlib_inflate :: "bytes \<Rightarrow> err + bytes"

text \<open>
  The interface. \<open>compressData dst src\<close> gives the count and the error that the Go method
  returns, and the destination after it.
\<close>

record messageCompressor =
  getId :: byte
  getName :: string
  getMaxCompressedSize :: "int \<Rightarrow> int"
  compressData :: "bytes \<Rightarrow> bytes \<Rightarrow> (int \<times> err option) \<times> bytes"
  decompressData :: "bytes \<Rightarrow> bytes \<Rightarrow> (int \<times> err option) \<times> bytes"

definition noopCompressorId :: byte where "noopCompressorId = 0"
definition snappyCompressorId :: byte where "snappyCompressorId = 1"
definition zlibCompressorId :: byte where "zlibCompressorId = 2"

abbreviation ErrShortBuffer :: err where
  "ErrShortBuffer \<equiv> Errorf ''short buffer'' []"

definition noopMessageCompressor :: messageCompressor where
  "noopMessageCompressor =
     \<lparr>getId = noopCompressorId, getName = ''noop'', getMaxCompressedSize = (\<lambda>srcLen. srcLen),
      compressData = (\<lambda>dst src. ((int (min (length dst) (length src)), None), copy_at dst 0 src)),
      decompressData = (\<lambda>dst src. ((int (min (length dst) (length src)), None), copy_at dst 0 src))\<rparr>"

definition snappy_compressData :: "compressLib \<Rightarrow> bytes \<Rightarrow> bytes \<Rightarrow> (int \<times> err option) \<times> bytes" where
  "snappy_compressData lib dst src =
     (case snappy_Encode lib dst src of
        (p, dst') \<Rightarrow> ((int (length p), if length p > length dst then Some ErrShortBuffer else None), dst'))"

definition snappy_decompressData :: "compressLib \<Rightarrow> bytes \<Rightarrow> bytes \<Rightarrow> (int \<times> err option) \<times> bytes" where
  "snappy_decompressData lib dst src =
     (case snappy_DecodedLen lib src of
        Inl e \<Rightarrow> ((0, Some e), dst)
      | Inr n \<Rightarrow>
          if n < 0 \<or> n > int (length dst) then ((n, Some ErrShortBuffer), dst)
          else (case snappy_Decode lib dst src of ((_, e), dst') \<Rightarrow> ((n, e), dst')))"

definition snappyMessageCompressor :: "compressLib \<Rightarrow> messageCompressor" where
  "snappyMessageCompressor lib =
     \<lparr>getId = snappyCompressorId, getName = ''snappy'', getMaxCompressedSize = MaxEncodedLen lib,
      compressData = snappy_compressData lib, decompressData = snappy_decompressData lib\<rparr>"

text \<open>Both directions of zlib go through a buffer of their own, which is then copied.\<close>

definition copyOut :: "err + bytes \<Rightarrow> bytes \<Rightarrow> (int \<times> err option) \<times> bytes" where
  "copyOut buf dst =
     (case buf of
        Inl e \<Rightarrow> ((0, Some e), dst)
      | Inr b \<Rightarrow>
          if length b > length dst then ((0, Some ErrShortBuffer), dst)
          else ((int (length b), None), copy_at dst 0 b))"

definition zlibMessageCompressor :: "compressLib \<Rightarrow> messageCompressor" where
  "zlibMessageCompressor lib =
     \<lparr>getId = zlibCompressorId, getName = ''zlib'', getMaxCompressedSize = (\<lambda>srcLen. srcLen),
      compressData = (\<lambda>dst src. copyOut (zlib_deflate lib src) dst),
      decompressData = (\<lambda>dst src. copyOut (zlib_inflate lib src) dst)\<rparr>"

definition preferredMessageCompressor :: "compressLib \<Rightarrow> messageCompressor option" where
  "preferredMessageCompressor lib = Some (snappyMessageCompressor lib)"

type_synonym messageCompressorRegistry = "byte \<rightharpoonup> messageCompressor"

definition MessageCompressorRegistry :: "compressLib \<Rightarrow> messageCompressorRegistry" where
  "MessageCompressorRegistry lib =
     [noopCompressorId \<mapsto> noopMessageCompressor, snappyCompressorId \<mapsto> snappyMessageCompressor lib,
      zlibCompressorId \<mapsto> zlibMessageCompressor lib]"

definition register :: "messageCompressorRegistry \<Rightarrow> messageCompressor \<Rightarrow> messageCompressorRegistry" where
  "register r impl = r(getId impl \<mapsto> impl)"

subsection \<open>Messages\<close>

text \<open>
  The buffers that are handed to \<open>DecompressMessage\<close> have no spare capacity whose bytes could matter: where a slice expression
  would reach behind the end of \<open>p\<close>, the later \<open>p[16+9:]\<close> panics in any case.
\<close>

record compressionHeader =
  originalOpCode :: int32
  uncompressedSize :: int32
  compressedId :: byte

text \<open>\<open>serialize\<close> and \<open>extract\<close> (here with the prefix \<open>ch_\<close>) work on the nine bytes at offset 16, as their callers slice them.\<close>

definition ch_serialize :: "compressionHeader \<Rightarrow> bytes \<Rightarrow> bytes res" where
  "ch_serialize c p =
     rbind (SetInt32 p 0 (originalOpCode c)) (\<lambda>p.
     rbind (SetInt32 p 4 (uncompressedSize c)) (\<lambda>p.
       if 8 < length p then Inr (p[8 := compressedId c]) else Inl index_panic))"

definition ch_extract :: "bytes \<Rightarrow> compressionHeader res" where
  "ch_extract p =
     rbind (getInt32 p 0) (\<lambda>a.
     rbind (getInt32 p 4) (\<lambda>b.
       if 8 < length p then Inr \<lparr>originalOpCode = a, uncompressedSize = b, compressedId = p ! 8\<rparr>
       else Inl index_panic))"

abbreviation slice_panic :: "'a res" where
  "slice_panic \<equiv> Inl (Panic ''runtime error: slice bounds out of range'')"

definition make_bytes :: "int32 \<Rightarrow> bytes res" where
  "make_bytes n =
     (if sint n < 0 then Inl (Panic ''runtime error: makeslice: len out of range'')
      else Inr (replicate (nat (sint n)) 0))"

text \<open>The header of a message that is written from another: its length, the two ids and the code.\<close>

definition copyHeader :: "bytes \<Rightarrow> int32 \<Rightarrow> int32 \<Rightarrow> bytes \<Rightarrow> bytes res" where
  "copyHeader p bufferSize code b =
     rbind (SetInt32 b 0 bufferSize) (\<lambda>b.
     rbind (getInt32 p 4) (\<lambda>requestID.
     rbind (SetInt32 b 4 requestID) (\<lambda>b.
     rbind (getInt32 p 8) (\<lambda>responseTo.
     rbind (SetInt32 b 8 responseTo) (\<lambda>b.
       SetInt32 b 12 code)))))"

text \<open>What follows a compression into \<open>b\<close> from offset \<open>k\<close> on: the rest is cut off and the length set.\<close>

definition finishMessage :: "nat \<Rightarrow> bytes \<Rightarrow> (int \<times> err option) \<times> bytes \<Rightarrow> bytes res" where
  "finishMessage k b r =
     (case r of
        ((n, Some e), _) \<Rightarrow> Inl (Error e)
      | ((n, None), dst) \<Rightarrow>
          let b = take k b @ dst in
          if int k + n < 0 \<or> int k + n > int (length b) then slice_panic
          else SetInt32 (take (nat (int k + n)) b) 0 (word_of_int (int k + n)))"

definition CompressMessage :: "messageCompressor option \<Rightarrow> bytes \<Rightarrow> bytes res" where
  "CompressMessage mc p =
     (case mc of
        None \<Rightarrow> Inr p
      | Some mc \<Rightarrow>
          let bufferSize = word_of_int (getMaxCompressedSize mc (int (length p) - 16) + 16 + 9) :: int32 in
          rbind (getInt32 p 0) (\<lambda>code.
          let c = \<lparr>originalOpCode = code, uncompressedSize = word_of_int (int (length p) - 16), compressedId = getId mc\<rparr> in
          rbind (make_bytes bufferSize) (\<lambda>b.
          rbind (copyHeader p bufferSize 2012 b) (\<lambda>b.
            if length b < 25 then slice_panic
            else
              rbind (ch_serialize c (take 9 (drop 16 b))) (\<lambda>ch.
              let b = take 16 b @ ch @ drop 25 b in
              if length p < 16 then slice_panic
              else finishMessage 25 b (compressData mc (drop 25 b) (drop 16 p)))))))"

definition DecompressMessage :: "messageCompressorRegistry \<Rightarrow> bytes \<Rightarrow> bytes res" where
  "DecompressMessage registry p =
     (if length p < 25 then slice_panic
      else
        rbind (ch_extract (take 9 (drop 16 p))) (\<lambda>c.
          case registry (compressedId c) of
            None \<Rightarrow> Inl (Error (Errorf (''no compression algorithm registered for id '' @ [CHR 0x27] @ ''%d'' @ [CHR 0x27])
              [uint (compressedId c)]))
          | Some mc \<Rightarrow>
              let bufferSize = uncompressedSize c + 16 in
              rbind (make_bytes bufferSize) (\<lambda>b.
              rbind (copyHeader p bufferSize (originalOpCode c) b) (\<lambda>b.
                finishMessage 16 b (decompressData mc (drop 16 b) (drop 25 p))))))"

subsection \<open>The contract of a compressor\<close>

text \<open>
  What the messages need of a compressor: it writes into a destination of the size that it asked
  for, and decompressing what it wrote into a destination of the size of the source gives the
  source.
\<close>

locale message_compressor =
  fixes mc :: messageCompressor
  assumes compress_bounds:
      "0 \<le> getMaxCompressedSize mc (int (length src)) \<Longrightarrow>
       getMaxCompressedSize mc (int (length src)) \<le> int (length dst) \<Longrightarrow>
       compressData mc dst src = ((n, None), dst') \<Longrightarrow>
       0 \<le> n \<and> n \<le> int (length dst) \<and> length dst' = length dst"
    and decompress_compress:
      "0 \<le> getMaxCompressedSize mc (int (length src)) \<Longrightarrow>
       getMaxCompressedSize mc (int (length src)) \<le> int (length dst) \<Longrightarrow>
       compressData mc dst src = ((n, None), dst') \<Longrightarrow> length d = length src \<Longrightarrow>
       decompressData mc d (take (nat n) dst') = ((int (length src), None), src)"

lemma copy_at_whole: "length src = length dst \<Longrightarrow> copy_at dst 0 src = src"
  by (simp add: copy_at_def)

interpretation noop: message_compressor noopMessageCompressor
  by unfold_locales (auto simp: noopMessageCompressor_def copy_at_def)

text \<open>
  What the snappy package documents of its calls: a source that is not too large, for which
  \<open>MaxEncodedLen\<close> is not negative, is encoded in at most that many bytes; its encoding knows the length
  of the source and decodes to it, whatever destination is offered.
\<close>

definition snappy_documented :: "compressLib \<Rightarrow> bool" where
  "snappy_documented lib \<longleftrightarrow>
     (\<forall>dst src. 0 \<le> MaxEncodedLen lib (int (length src)) \<longrightarrow>
        (case snappy_Encode lib dst src of (p, dst') \<Rightarrow>
           int (length p) \<le> MaxEncodedLen lib (int (length src)) \<and> length dst' = length dst \<and>
           snappy_DecodedLen lib p = Inr (int (length src)) \<and>
           (\<forall>d. case snappy_Decode lib d p of (r, d') \<Rightarrow> r = (src, None) \<and> length d' = length d)))"

text \<open>
  Of a destination that is large enough the package says that the result \<open>may be\<close> a sub-slice of it. The code
  drops the slices it is given and uses the destination, so it relies on the result being there.
\<close>

definition snappy_in_place :: "compressLib \<Rightarrow> bool" where
  "snappy_in_place lib \<longleftrightarrow>
     (\<forall>dst src. 0 \<le> MaxEncodedLen lib (int (length src)) \<longrightarrow> MaxEncodedLen lib (int (length src)) \<le> int (length dst) \<longrightarrow>
        (case snappy_Encode lib dst src of (p, dst') \<Rightarrow> take (length p) dst' = p)) \<and>
     (\<forall>d p r d'. snappy_Decode lib d p = ((r, None), d') \<longrightarrow> length r \<le> length d \<longrightarrow> take (length r) d' = r)"

lemma snappy_compressor:
  assumes "snappy_documented lib" "snappy_in_place lib"
  shows "message_compressor (snappyMessageCompressor lib)"
proof
  fix src dst dst' d :: bytes and n
  assume l: "0 \<le> getMaxCompressedSize (snappyMessageCompressor lib) (int (length src))"
      "getMaxCompressedSize (snappyMessageCompressor lib) (int (length src)) \<le> int (length dst)"
    and c: "compressData (snappyMessageCompressor lib) dst src = ((n, None), dst')"
  have l': "0 \<le> MaxEncodedLen lib (int (length src))" "MaxEncodedLen lib (int (length src)) \<le> int (length dst)"
    using l by (simp_all add: snappyMessageCompressor_def)
  obtain p dst'' where e: "snappy_Encode lib dst src = (p, dst'')" by fastforce
  have doc: "int (length p) \<le> MaxEncodedLen lib (int (length src))" "length dst'' = length dst"
      "snappy_DecodedLen lib p = Inr (int (length src))"
      "\<And>d. case snappy_Decode lib d p of (r, d') \<Rightarrow> r = (src, None) \<and> length d' = length d"
    using assms(1) [unfolded snappy_documented_def, rule_format, OF l'(1), of dst] unfolding e by simp_all
  have pl: "take (length p) dst'' = p"
    using assms(2) [unfolded snappy_in_place_def, THEN conjunct1, rule_format, OF l'] unfolding e by simp
  have n: "n = int (length p)" "dst' = dst''" "\<not> length dst < length p"
    using c e by (auto simp: snappyMessageCompressor_def snappy_compressData_def split: if_splits)
  show "0 \<le> n \<and> n \<le> int (length dst) \<and> length dst' = length dst"
    using n doc(2) by simp
  assume d: "length d = length src"
  obtain d' where dec: "snappy_Decode lib d p = ((src, None), d')" "length d' = length d"
    using doc(4) [of d] by (cases "snappy_Decode lib d p") auto
  have "take (length src) d' = src"
    using assms(2) [unfolded snappy_in_place_def, THEN conjunct2, rule_format, OF dec(1)] d by simp
  then have "d' = src"
    using dec(2) d by simp
  then show "decompressData (snappyMessageCompressor lib) d (take (nat n) dst') = ((int (length src), None), src)"
    using n pl d dec(1) doc(3) by (simp add: snappyMessageCompressor_def snappy_decompressData_def)
qed

text \<open>
  zlib may need more room than the source has, which \<open>getMaxCompressedSize\<close> does not grant: the
  compressor then reports \<open>ErrShortBuffer\<close>. What it does write comes back.
\<close>

definition zlib_documented :: "compressLib \<Rightarrow> bool" where
  "zlib_documented lib \<longleftrightarrow> (\<forall>src b. zlib_deflate lib src = Inr b \<longrightarrow> zlib_inflate lib b = Inr src)"

lemma zlib_compressor:
  assumes "zlib_documented lib"
  shows "message_compressor (zlibMessageCompressor lib)"
  using assms
  by unfold_locales
    (auto simp: zlib_documented_def zlibMessageCompressor_def copyOut_def copy_at_def split: sum.splits if_splits)

subsection \<open>Messages around compressed bytes\<close>

lemma getInt32_header:
  "getInt32 (header_bytes h @ q) 4 = Inr (RequestID h)" "getInt32 (header_bytes h @ q) 8 = Inr (ResponseTo h)"
  "getInt32 (header_bytes h @ q) 0 = Inr (MessageLength h)"
  using getInt32_append [of "enc32 (MessageLength h)" 4] getInt32_append [of "enc32 (MessageLength h) @ enc32 (RequestID h)" 8]
    getInt32_append [of "[]" 0]
  by (simp_all add: header_bytes_def)

lemma copyHeader_zeros:
  "copyHeader (header_bytes h @ q) sz code (replicate 16 0 @ rest) =
     Inr (header_bytes (h\<lparr>MessageLength := sz, hOpCode := code\<rparr>) @ rest)"
proof -
  have z: "replicate 16 0 = enc32 0 @ enc32 0 @ enc32 0 @ enc32 0"
    by (simp add: enc32_zero numeral_eq_Suc)
  have s0: "SetInt32 (enc32 0 @ c) 0 i = Inr (enc32 i @ c)" for c i
    using SetInt32_append [where a = "[]" and pos = 0 and d = "enc32 0"] by simp
  have s4: "SetInt32 (enc32 a @ enc32 0 @ c) 4 i = Inr (enc32 a @ enc32 i @ c)" for a c i
    by (rule SetInt32_append) simp_all
  have s8: "SetInt32 (enc32 a @ enc32 b @ enc32 0 @ c) 8 i = Inr (enc32 a @ enc32 b @ enc32 i @ c)" for a b c i
    using SetInt32_append [where a = "enc32 a @ enc32 b" and pos = 8 and d = "enc32 0"] by simp
  have s12: "SetInt32 (enc32 a @ enc32 b @ enc32 x @ enc32 0 @ c) 12 i = Inr (enc32 a @ enc32 b @ enc32 x @ enc32 i @ c)"
    for a b x c i
    using SetInt32_append [where a = "enc32 a @ enc32 b @ enc32 x" and pos = 12 and d = "enc32 0"] by simp
  show ?thesis
    by (simp add: copyHeader_def z getInt32_header s0 s4 s8 s12) (simp add: header_bytes_def)
qed

lemma make_bytes_eq: "n < 2 ^ 31 \<Longrightarrow> make_bytes (word_of_nat n) = Inr (replicate n 0)"
  by (simp add: make_bytes_def sint_word_of_nat)

lemma finishMessage_header:
  assumes "0 \<le> n" "n \<le> int (length dst)" "int k + n < 2 ^ 31" "16 \<le> k" "length (header_bytes h @ mid) = k"
  shows "finishMessage k (header_bytes h @ mid @ rest) ((n, None), dst) =
    Inr (header_bytes (h\<lparr>MessageLength := word_of_int (int k + n)\<rparr>) @ mid @ take (nat n) dst)"
proof -
  have k: "nat (int k + n) = k + nat n" using assms(1) by (simp add: nat_add_distrib)
  have "take k (header_bytes h @ mid @ rest) = header_bytes h @ mid" using assms(5) by simp
  moreover have "SetInt32 (header_bytes h @ c) 0 i = Inr (header_bytes (h\<lparr>MessageLength := i\<rparr>) @ c)" for c i
    using SetInt32_append [where a = "[]" and pos = 0 and d = "enc32 (MessageLength h)"]
    by (simp add: header_bytes_def)
  ultimately show ?thesis
    using assms by (simp add: finishMessage_def Let_def k)
qed

lemma ch_extract_wire:
  "ch_extract (enc32 a @ enc32 b @ [i]) = Inr \<lparr>originalOpCode = a, uncompressedSize = b, compressedId = i\<rparr>"
  using getInt32_append [where a = "[]" and pos = 0] getInt32_append [where a = "enc32 a" and pos = 4]
  by (simp add: ch_extract_def nth_append)

lemma ch_serialize_zeros:
  "ch_serialize c (replicate 9 0) = Inr (enc32 (originalOpCode c) @ enc32 (uncompressedSize c) @ [compressedId c])"
proof -
  have z: "replicate 9 0 = enc32 0 @ enc32 0 @ [0]" by (simp add: enc32_zero numeral_eq_Suc)
  have s0: "SetInt32 (enc32 0 @ c) 0 i = Inr (enc32 i @ c)" for c i
    using SetInt32_append [where a = "[]" and pos = 0 and d = "enc32 0"] by simp
  have s4: "SetInt32 (enc32 a @ enc32 0 @ c) 4 i = Inr (enc32 a @ enc32 i @ c)" for a c i
    by (rule SetInt32_append) simp_all
  show ?thesis by (simp add: ch_serialize_def z s0 s4 list_update_append)
qed

lemma header_update_order:
  "header_bytes (h\<lparr>hOpCode := c, MessageLength := l\<rparr>) = header_bytes (h\<lparr>MessageLength := l, hOpCode := c\<rparr>)"
  by (simp add: header_bytes_def)

text \<open>A compressed message as it is on the wire.\<close>

definition wire_compressed :: "MsgHeader \<Rightarrow> int32 \<Rightarrow> nat \<Rightarrow> byte \<Rightarrow> bytes \<Rightarrow> bytes" where
  "wire_compressed h code n cid z = header_bytes h @ (enc32 code @ enc32 (word_of_nat n) @ [cid]) @ z"

lemma Decompress_wire:
  assumes "registry cid = Some mc" "length body + 16 < 2 ^ 31"
    and "decompressData mc (replicate (length body) 0) z = ((int (length body), None), body)"
  shows "DecompressMessage registry (wire_compressed h code (length body) cid z) =
    Inr (header_bytes (h\<lparr>MessageLength := word_of_nat (16 + length body), hOpCode := code\<rparr>) @ body)"
proof -
  let ?p = "wire_compressed h code (length body) cid z"
  have e: "take 9 (drop 16 ?p) = enc32 code @ enc32 (word_of_nat (length body)) @ [cid]" "drop 25 ?p = z" "\<not> length ?p < 25"
    by (simp_all add: wire_compressed_def)
  have m: "make_bytes (word_of_nat (length body) + 16) = Inr (replicate 16 0 @ replicate (length body) 0)"
    unfolding replicate_add [symmetric]
    using make_bytes_eq [of "16 + length body"] assms(2) by (simp add: add.commute)
  show ?thesis
    using assms finishMessage_header [where k = 16 and mid = "[]" and n = "int (length body)" and dst = body]
    by (simp add: DecompressMessage_def e ch_extract_wire Let_def m)
      (simp add: wire_compressed_def copyHeader_zeros add.commute header_update_order)
qed

lemma Compress_run:
  assumes "m = getMaxCompressedSize mc (int (length body))" "0 \<le> m" "m + 25 < 2 ^ 31"
  shows "CompressMessage (Some mc) (header_bytes h @ body) =
    finishMessage 25 (header_bytes (h\<lparr>MessageLength := word_of_int (25 + m), hOpCode := 2012\<rparr>) @
        (enc32 (MessageLength h) @ enc32 (word_of_nat (length body)) @ [getId mc]) @ replicate (nat m) 0)
      (compressData mc (replicate (nat m) 0) body)"
proof -
  have mk: "make_bytes (word_of_int (25 + m)) = Inr (replicate 16 0 @ replicate 9 0 @ replicate (nat m) 0)"
  proof -
    have e: "int (16 + (9 + nat m)) = 25 + m" using assms(2) by simp
    have "make_bytes (word_of_nat (16 + (9 + nat m))) = Inr (replicate (16 + (9 + nat m)) 0)"
      by (rule make_bytes_eq) (use assms(2,3) in auto)
    then show ?thesis
      unfolding replicate_add [symmetric] of_int_of_nat_eq [symmetric, where 'a = "32 word"] e .
  qed
  show ?thesis
    unfolding assms(1)
    by (simp add: CompressMessage_def Let_def mk [unfolded assms(1)] getInt32_header copyHeader_zeros ch_serialize_zeros del: of_int_add)
qed

context message_compressor
begin

text \<open>
  The round trip through \<open>CompressMessage\<close> and \<open>DecompressMessage\<close>. The op code that comes back
  is the length of the message: \<open>CompressMessage\<close> takes it from offset 0.
\<close>

lemma Compress_Decompress:
  assumes "registry (getId mc) = Some mc"
    and "0 \<le> getMaxCompressedSize mc (int (length body))" "getMaxCompressedSize mc (int (length body)) + 25 < 2 ^ 31"
    and "length body + 16 < 2 ^ 31" "CompressMessage (Some mc) (header_bytes h @ body) = Inr c"
  shows "DecompressMessage registry c =
    Inr (header_bytes (h\<lparr>MessageLength := word_of_nat (16 + length body), hOpCode := MessageLength h\<rparr>) @ body)"
proof -
  define m where "m = getMaxCompressedSize mc (int (length body))"
  obtain n e dst' where r: "compressData mc (replicate (nat m) 0) body = ((n, e), dst')"
    by (metis surj_pair)
  have m: "0 \<le> m" "m + 25 < 2 ^ 31" using assms(2,3) by (simp_all add: m_def)
  have e: "e = None"
    using assms(5) unfolding Compress_run [OF m_def m] r by (cases e) (simp_all add: finishMessage_def)
  note r = r [unfolded e]
  have b: "0 \<le> n" "n \<le> m" "length dst' = nat m"
    using compress_bounds [OF _ _ r] m by (auto simp: m_def)
  let ?h = "h\<lparr>MessageLength := word_of_int (25 + n), hOpCode := 2012\<rparr>"
  have c: "c = wire_compressed ?h (MessageLength h) (length body) (getId mc) (take (nat n) dst')"
    using assms(5) finishMessage_header [where n = n and dst = dst' and k = 25 and rest = "replicate (nat m) 0"
        and h = "h\<lparr>MessageLength := word_of_int (25 + m), hOpCode := 2012\<rparr>"
        and mid = "enc32 (MessageLength h) @ enc32 (word_of_nat (length body)) @ [getId mc]"] b m
    unfolding Compress_run [OF m_def m] r by (simp add: wire_compressed_def header_update_order del: of_int_add)
  have d: "decompressData mc (replicate (length body) 0) (take (nat n) dst') = ((int (length body), None), body)"
    by (rule decompress_compress [OF _ _ r]) (use m in \<open>simp_all add: m_def\<close>)
  show ?thesis
    unfolding c
    using Decompress_wire [where registry = registry and cid = "getId mc" and h = ?h and code = "MessageLength h"
        and z = "take (nat n) dst'", OF assms(1,4) d]
    by simp
qed

end

subsection \<open>Properties\<close>


text \<open>
  What \<open>CompressMessage\<close> writes, \<open>DecompressMessage\<close> reads, but with a wrong op code: the code that
  comes back is the length of the message, because \<open>CompressMessage\<close> takes the original op
  code from the first word of the header and not from the last.
\<close>

theorem CompressMessage_op_code:
  assumes "snappy_documented lib" "snappy_in_place lib" "m = MaxEncodedLen lib (int (length body))" "0 \<le> m" "m + 25 < 2 ^ 31"
    and "length body + 16 < 2 ^ 31"
    and "CompressMessage (preferredMessageCompressor lib) (header_bytes h @ body) = Inr c"
  shows "DecompressMessage (MessageCompressorRegistry lib) c =
    Inr (header_bytes (h\<lparr>MessageLength := word_of_nat (16 + length body), hOpCode := MessageLength h\<rparr>) @ body)"
proof (rule message_compressor.Compress_Decompress [OF snappy_compressor [OF assms(1,2)]])
  show "MessageCompressorRegistry lib (getId (snappyMessageCompressor lib)) = Some (snappyMessageCompressor lib)"
    by (simp add: MessageCompressorRegistry_def snappyMessageCompressor_def zlibCompressorId_def snappyCompressorId_def)
qed (use assms in \<open>simp_all add: preferredMessageCompressor_def snappyMessageCompressor_def\<close>)

text \<open>A library that stores what it is given.\<close>

definition storing :: compressLib where
  "storing = \<lparr>MaxEncodedLen = (\<lambda>n. n), snappy_Encode = (\<lambda>dst src. (src, copy_at dst 0 src)),
     snappy_DecodedLen = (\<lambda>src. Inr (int (length src))),
     snappy_Decode = (\<lambda>dst src. ((src, None), copy_at dst 0 src)), zlib_deflate = Inr, zlib_inflate = Inr\<rparr>"

lemma storing_documented: "snappy_documented storing" "snappy_in_place storing" "zlib_documented storing"
  by (auto simp: snappy_documented_def snappy_in_place_def zlib_documented_def storing_def copy_at_def)


theorem CompressMessage_op_code_witness:
  "\<exists>c. CompressMessage (preferredMessageCompressor storing)
       (header_bytes (zeroHeader\<lparr>MessageLength := 19, hOpCode := 2004\<rparr>) @ [7, 8, 9]) = Inr c \<and>
     DecompressMessage (MessageCompressorRegistry storing) c =
       Inr (header_bytes (zeroHeader\<lparr>MessageLength := 19, hOpCode := 19\<rparr>) @ [7, 8, 9])"
proof -
  let ?h = "zeroHeader\<lparr>MessageLength := 19, hOpCode := 2004\<rparr>"
  obtain c where c: "CompressMessage (preferredMessageCompressor storing) (header_bytes ?h @ [7, 8, 9]) = Inr c"
    using Compress_run [where m = 3 and mc = "snappyMessageCompressor storing" and body = "[7, 8, 9]" and h = ?h]
    by (simp add: preferredMessageCompressor_def snappyMessageCompressor_def storing_def snappy_compressData_def
        copy_at_def finishMessage_def SetInt32_def Let_def)
  show ?thesis
    using c CompressMessage_op_code [OF storing_documented(1,2) _ _ _ _ c, of 3]
    by (simp add: storing_def zeroHeader_def)
qed

end
