(* ===== verification/Socket.thy ===== *)
theory Socket
  imports Send Compress "HOL-Library.AList"
begin

text \<open>
  The state of a connection (\<open>MongoSocket\<close> of \<open>internal/llmgo/socket.go\<close>, and what
  \<open>internal/llmgo/auth.go\<close> keeps in it): the requests that wait for replies, how \<open>Query\<close> gives
  them ids and writes them, how the read loop hands replies to them, and what is left of
  them when the connection dies. A reply function is a value of the type \<open>'f\<close>; what a
  step calls, writes and closes is the list of its events.
\<close>

subsection \<open>The socket\<close>

record Credential =
  Username :: string
  Password :: string
  Source :: string
  Service :: string
  ServiceHost :: string
  Mechanism :: string

record 'f MongoSocket =
  nextRequestId :: uint32
  replyFuncs :: "(uint32 \<times> 'f) list"
  references :: int
  creds :: "Credential list"
  logout :: "Credential list"
  dead :: "err option"
  serverInfo :: "bool option"

text \<open>
  What a reply function is called with: nothing but an error, a document of an \<open>OP_REPLY\<close> with
  its number, the documents of an \<open>OP_COMMANDREPLY\<close>, or the sections of an \<open>OP_MSG\<close>.
\<close>

datatype replyArgs =
    NoReply
  | LegacyReply "ReplyOp option" int bytes
  | CommandReply bytes bytes bytes
  | MsgReply int32 int32 bytes

datatype 'f event =
    WriteDeadline
  | ReadDeadline
  | NoReadDeadline
  | Written bytes
  | ConnClosed
  | Called 'f "err option" replyArgs
  | Abended

text \<open>\<open>NewDumbSocket\<close>, which has a server without info, and \<open>NewSocket\<close> after \<open>InitialAcquire\<close>.\<close>

definition NewDumbSocket :: "'f MongoSocket" where
  "NewDumbSocket = \<lparr>nextRequestId = 0, replyFuncs = [], references = 0, creds = [], logout = [],
     dead = None, serverInfo = None\<rparr>"

definition InitialAcquire :: "bool option \<Rightarrow> 'f MongoSocket \<Rightarrow> (err option \<times> 'f MongoSocket) res" where
  "InitialAcquire info s =
     (if references s > 0 then Inl (Panic ''Socket acquired out of cache with references'')
      else if dead s \<noteq> None then Inr (dead s, s)
      else Inr (None, s\<lparr>references := references s + 1, serverInfo := info\<rparr>))"

definition Acquire :: "'f MongoSocket \<Rightarrow> (bool option \<times> 'f MongoSocket) res" where
  "Acquire s =
     (if references s = 0 then Inl (Panic ''Socket got non-initial acquire with references == 0'')
      else Inr (serverInfo s, s\<lparr>references := references s + 1\<rparr>))"

subsection \<open>Credentials\<close>

fun dropAuth_loop :: "string \<Rightarrow> Credential list \<Rightarrow> (Credential \<times> Credential list) option" where
  "dropAuth_loop db [] = None"
| "dropAuth_loop db (c # cs) =
     (if Source c = db then Some (c, cs)
      else map_option (\<lambda>(found, rest). (found, c # rest)) (dropAuth_loop db cs))"

definition dropAuth :: "string \<Rightarrow> 'f MongoSocket \<Rightarrow> Credential option \<times> 'f MongoSocket" where
  "dropAuth db s =
     (case dropAuth_loop db (creds s) of
        None \<Rightarrow> (None, s)
      | Some (c, cs) \<Rightarrow> (Some c, s\<lparr>creds := cs\<rparr>))"

definition dropLogout :: "Credential \<Rightarrow> 'f MongoSocket \<Rightarrow> bool \<times> 'f MongoSocket" where
  "dropLogout cred s = (cred \<in> set (logout s), s\<lparr>logout := remove1 cred (logout s)\<rparr>)"

definition Logout :: "string \<Rightarrow> 'f MongoSocket \<Rightarrow> 'f MongoSocket" where
  "Logout db s =
     (case dropAuth db s of
        (None, s) \<Rightarrow> s
      | (Some c, s) \<Rightarrow> s\<lparr>logout := logout s @ [c]\<rparr>)"

definition LogoutAll :: "'f MongoSocket \<Rightarrow> 'f MongoSocket" where
  "LogoutAll s =
     (if creds s \<noteq> [] then s\<lparr>logout := logout s @ creds s, creds := []\<rparr> else s)"

text \<open>\<open>Release\<close>; the flag says that the socket goes back to its server.\<close>

definition Release :: "'f MongoSocket \<Rightarrow> (bool \<times> 'f MongoSocket) res" where
  "Release s =
     (if references s = 0 then Inl (Panic ''socket.Release() with references == 0'')
      else
        let s = s\<lparr>references := references s - 1\<rparr> in
        if references s = 0 then Inr (dead s = None, LogoutAll s) else Inr (False, s))"

subsection \<open>Sending\<close>

record 'f request =
  reqOp :: Op
  reqMode :: QueryMode
  reqFn :: "'f option"

fun has_reply :: "Op \<Rightarrow> bool" where
  "has_reply (OpQuery _) = True"
| "has_reply (OpGetMore _) = True"
| "has_reply (OpCommand _) = True"
| "has_reply (OpCommandGetMore _ _) = True"
| "has_reply (OpMsg _) = True"
| "has_reply (OpMsgGetMore _ _) = True"
| "has_reply (OpMsgReply _) = True"
| "has_reply _ = False"

definition replyFn :: "'f request \<Rightarrow> 'f option" where
  "replyFn r = (if has_reply (reqOp r) then reqFn r else None)"

definition logoutOp :: "Credential \<Rightarrow> 'f request" where
  "logoutOp c = \<lparr>reqOp = OpQuery \<lparr>qHeader = zeroHeader, qFlags = 0, qCollection = Source c @ ''.$cmd'',
       qSkip = 0, qLimit = -1, qQuery = GStruct [(''logout'', False, GInt 1)], qSelector = GNil\<rparr>,
     reqMode = zeroQueryMode, reqFn = None\<rparr>"

definition flushLogout :: "'f MongoSocket \<Rightarrow> 'f request list \<times> 'f MongoSocket" where
  "flushLogout s = (map logoutOp (logout s), s\<lparr>logout := []\<rparr>)"

text \<open>
  \<open>Query\<close>: all operations are serialized first, with the positions of those that wait for a
  reply; then the ids are reserved and the whole buffer is written.
\<close>

fun serializeAll :: "bool option \<Rightarrow> 'f request list \<Rightarrow> bytes \<Rightarrow> (nat \<times> 'f) list \<Rightarrow>
    (bytes \<times> (nat \<times> 'f) list) res" where
  "serializeAll info [] buf requests = Inr (buf, requests)"
| "serializeAll info (r # rs) buf requests =
     rbind (serialize info (reqMode r) buf (reqOp r)) (\<lambda>buf'.
       serializeAll info rs buf'
         (case replyFn r of None \<Rightarrow> requests | Some f \<Rightarrow> requests @ [(length buf, f)]))"

fun reserveIds :: "(nat \<times> 'f) list \<Rightarrow> uint32 \<Rightarrow> bytes \<Rightarrow> (uint32 \<times> 'f) list \<Rightarrow>
    (bytes \<times> (uint32 \<times> 'f) list) res" where
  "reserveIds [] requestId buf fns = Inr (buf, fns)"
| "reserveIds ((pos, f) # requests) requestId buf fns =
     rbind (SetInt32 buf (pos + 4) requestId) (\<lambda>buf.
       reserveIds requests (requestId + 1) buf (AList.update requestId f fns))"

text \<open>\<open>write\<close> is \<open>Conn.Write\<close>, of which the code uses the error.\<close>

definition Query :: "(bytes \<Rightarrow> err option) \<Rightarrow> 'f MongoSocket \<Rightarrow> 'f request list \<Rightarrow>
    (err option \<times> 'f MongoSocket \<times> 'f event list) res" where
  "Query write s ops =
     (case flushLogout s of (lops, s) \<Rightarrow>
        (case serializeAll (serverInfo s) (lops @ ops) [] [] of
           Inl (Error e) \<Rightarrow> Inr (Some e, s, [])
         | Inl f \<Rightarrow> Inl f
         | Inr (buf, requests) \<Rightarrow>
             (case dead s of
                Some e \<Rightarrow> Inr (Some e, s, map (\<lambda>(_, f). Called f (Some e) NoReply) requests)
              | None \<Rightarrow>
                  let wasWaiting = (replyFuncs s \<noteq> []);
                      requestId = nextRequestId s + 1;
                      requestId = (if requestId = 0 then requestId + 1 else requestId)
                  in rbind (reserveIds requests requestId buf (replyFuncs s)) (\<lambda>(buf, fns).
                       Inr (write buf,
                         s\<lparr>nextRequestId := requestId + word_of_nat (length requests), replyFuncs := fns\<rparr>,
                         [WriteDeadline, Written buf] @
                         (if \<not> wasWaiting \<and> requests \<noteq> [] then [ReadDeadline] else []))))))"

subsection \<open>The end of a socket\<close>

text \<open>\<open>kill\<close>; the order in which Go ranges over the table is left open, here it is the table's.\<close>

definition kill :: "err \<Rightarrow> bool \<Rightarrow> 'f MongoSocket \<Rightarrow> 'f MongoSocket \<times> 'f event list" where
  "kill e abend s =
     (if dead s \<noteq> None then (s, [])
      else (s\<lparr>dead := Some e, replyFuncs := []\<rparr>,
        ConnClosed # map (\<lambda>(_, f). Called f (Some e) NoReply) (replyFuncs s) @ (if abend then [Abended] else [])))"

definition Close :: "'f MongoSocket \<Rightarrow> 'f MongoSocket \<times> 'f event list" where
  "Close s = kill (Errorf ''Closed explicitly'' []) False s"

subsection \<open>The read loop\<close>

text \<open>\<open>readDocument\<close> of the driver: it does not check the size it makes room for.\<close>

definition readDocument :: "bytes \<Rightarrow> ((bytes \<times> err option) \<times> bytes) res" where
  "readDocument r =
     (case readFull_raw 4 r of
        ((_, Some e), r1) \<Rightarrow> Inr (([], Some e), r1)
      | ((sizeBuf, None), r1) \<Rightarrow>
          rbind (getInt32 sizeBuf 0) (\<lambda>size.
          rbind (make_bytes size) (\<lambda>docBuf.
            let docBuf = copy_at docBuf 0 sizeBuf in
            if length docBuf < 4 then slice_panic
            else (case readFull_raw (length docBuf - 4) r1 of
                    ((d, e), r2) \<Rightarrow> Inr ((copy_at docBuf 4 d, e), r2)))))"

definition call_opt :: "'f option \<Rightarrow> err option \<Rightarrow> replyArgs \<Rightarrow> 'f event list" where
  "call_opt f e args = (case f of None \<Rightarrow> [] | Some f \<Rightarrow> [Called f e args])"

text \<open>
  The cases of the read loop: each gives the error that kills the socket, if any, the calls
  and the rest of the input. A document takes four bytes at least, so the loops are bounded
  by the input.
\<close>

fun replyDocsLoop :: "nat \<Rightarrow> 'f option \<Rightarrow> ReplyOp \<Rightarrow> int \<Rightarrow> 'f event list \<Rightarrow> bytes \<Rightarrow>
    (err option \<times> 'f event list \<times> bytes) res" where
  "replyDocsLoop 0 f reply i evs r = Inl Hang"
| "replyDocsLoop (Suc n) f reply i evs r =
     (if i = sint (rReplyDocs reply) then Inr (None, evs, r)
      else
        rbind (readDocument r) (\<lambda>((b, e), r).
          case e of
            Some e \<Rightarrow> Inr (Some e, evs @ call_opt f (Some e) (LegacyReply None (-1) []), r)
          | None \<Rightarrow> replyDocsLoop n f reply (i + 1) (evs @ call_opt f None (LegacyReply (Some reply) i b)) r))"

definition readOpReply :: "'f option \<Rightarrow> bytes \<Rightarrow> (err option \<times> 'f event list \<times> bytes) res" where
  "readOpReply f r =
     (case readFull_raw 20 r of
        ((_, Some e), r) \<Rightarrow> Inr (Some e, [], r)
      | ((bodyBuf, None), r) \<Rightarrow>
          rbind (getInt32 bodyBuf 0) (\<lambda>flags.
          rbind (getInt64 bodyBuf 4) (\<lambda>cursorId.
          rbind (getInt32 bodyBuf 12) (\<lambda>firstDoc.
          rbind (getInt32 bodyBuf 16) (\<lambda>replyDocs.
            let reply = \<lparr>rHeader = zeroHeader, rFlags = flags, rCursorId = cursorId, rFirstDoc = firstDoc,
                  rReplyDocs = replyDocs, rDocs = [], rLatency = 0, rcursorCached = False\<rparr>
            in if f \<noteq> None \<and> replyDocs = 0
               then Inr (None, call_opt f None (LegacyReply (Some reply) (-1) []), r)
               else replyDocsLoop (Suc (length r)) f reply 0 [] r)))))"

text \<open>When a document cannot be read, the function is told with the one before it still in place.\<close>

fun outputDocsLoop :: "nat \<Rightarrow> 'f option \<Rightarrow> bytes \<Rightarrow> bytes \<Rightarrow> bytes \<Rightarrow> int \<Rightarrow> 'f event list \<Rightarrow> bytes \<Rightarrow>
    (err option \<times> 'f event list \<times> bytes) res" where
  "outputDocsLoop 0 f metadata commandReply outputDoc left evs r = Inl Hang"
| "outputDocsLoop (Suc n) f metadata commandReply outputDoc left evs r =
     (if left > 0 then
        rbind (readDocument r) (\<lambda>((b, e), r).
          case e of
            Some e \<Rightarrow> Inr (Some e, evs @ call_opt f (Some e) (CommandReply metadata commandReply outputDoc), r)
          | None \<Rightarrow> outputDocsLoop n f metadata commandReply b (left - int (length b))
              (evs @ call_opt f None (CommandReply metadata commandReply b)) r)
      else Inr (None, evs, r))"

definition readCommandReply :: "'f option \<Rightarrow> int32 \<Rightarrow> bytes \<Rightarrow> (err option \<times> 'f event list \<times> bytes) res" where
  "readCommandReply f totalLen r =
     rbind (readDocument r) (\<lambda>((commandReply, e), r).
       case e of Some e \<Rightarrow> Inr (Some e, [], r) | None \<Rightarrow>
     rbind (readDocument r) (\<lambda>((metadata, e), r).
       case e of Some e \<Rightarrow> Inr (Some e, [], r) | None \<Rightarrow>
         let lengthRead = int (length commandReply) + int (length metadata);
             evs = (if lengthRead + 16 \<ge> sint totalLen
                    then call_opt f None (CommandReply metadata commandReply []) else [])
         in outputDocsLoop (Suc (length r)) f metadata commandReply [] (sint totalLen - 16 - lengthRead) evs r))"

definition readMessage :: "'f option \<Rightarrow> int32 \<Rightarrow> bytes \<Rightarrow> (err option \<times> 'f event list \<times> bytes) res" where
  "readMessage f totalLen r =
     (case readFull_raw 4 r of
        ((_, Some e), r) \<Rightarrow> Inr (Some e, [], r)
      | ((b, None), r) \<Rightarrow>
          rbind (getInt32 b 0) (\<lambda>flags.
            let checksumPresent = (flags AND MsgFlagChecksumPresent \<noteq> 0);
                checksumLength = (if checksumPresent then 4 else 0);
                sectionsLength = sint totalLen - (checksumLength + 4 + 16)
            in if sectionsLength < 0 then Inl (Panic ''runtime error: makeslice: len out of range'')
               else
                 (case readFull_raw (nat sectionsLength) r of
                    ((_, Some e), r) \<Rightarrow> Inr (Some e, [], r)
                  | ((sectionsData, None), r) \<Rightarrow>
                      if checksumPresent then
                        (case readFull_raw 4 r of
                           ((_, Some e), r) \<Rightarrow> Inr (Some e, [], r)
                         | ((b, None), r) \<Rightarrow>
                             rbind (getInt32 b 0) (\<lambda>checksum.
                               Inr (None, call_opt f None (MsgReply flags checksum sectionsData), r)))
                      else Inr (None, call_opt f None (MsgReply flags 0 sectionsData), r))))"

text \<open>
  The message that is read: a compressed one is read in whole and decompressed, and its parts
  then come from the decompressed bytes. The length and the request it answers are those of
  the header that came first. The result has the header's values, the bytes that the reply is
  read from, and what is left of the connection's input when those are not it.
\<close>

definition readMsgHeader :: "(bytes \<Rightarrow> bytes res) \<Rightarrow> bytes \<Rightarrow>
    (err + (int32 \<times> int32 \<times> int32 \<times> bytes \<times> bytes option)) res" where
  "readMsgHeader decompress inp =
     (case readFull_raw 16 inp of
        ((_, Some e), _) \<Rightarrow> Inr (Inl e)
      | ((headerBuf, None), r) \<Rightarrow>
          rbind (getInt32 headerBuf 0) (\<lambda>totalLen.
          rbind (getInt32 headerBuf 8) (\<lambda>responseTo.
          rbind (getInt32 headerBuf 12) (\<lambda>opCode.
            if opCode = 2012 then
              (case copyN (sint (totalLen - 16)) r of
                 ((body, _), r) \<Rightarrow>
                   (case decompress (headerBuf @ body) of
                      Inl (Error e) \<Rightarrow> Inr (Inl e)
                    | Inl fault \<Rightarrow> Inl fault
                    | Inr msg \<Rightarrow>
                        (case readFull_raw 16 msg of
                           ((_, Some e), _) \<Rightarrow> Inr (Inl e)
                         | ((headerBuf, None), msg) \<Rightarrow>
                             rbind (getInt32 headerBuf 12) (\<lambda>opCode.
                               if opCode = 2012
                               then Inr (Inl (Errorf ''cannot recursively decompress messages'' []))
                               else Inr (Inr (totalLen, responseTo, opCode, msg, Some r))))))
            else Inr (Inr (totalLen, responseTo, opCode, r, None))))))"

definition readBody :: "'f option \<Rightarrow> int32 \<Rightarrow> int32 \<Rightarrow> bytes \<Rightarrow> (err option \<times> 'f event list \<times> bytes) res" where
  "readBody f totalLen opCode r =
     (if opCode = 1 then readOpReply f r
      else if opCode = 2011 then readCommandReply f totalLen r
      else if opCode = 2013 then readMessage f totalLen r
      else Inr (Some (Errorf ''opcode != 1, 2011, or 2013, corrupted data?'' []), [], r))"

text \<open>One round of \<open>readLoop\<close>; without a rest of the input the loop has ended.\<close>

definition readRound :: "(bytes \<Rightarrow> bytes res) \<Rightarrow> 'f MongoSocket \<Rightarrow> bytes \<Rightarrow>
    ('f MongoSocket \<times> 'f event list \<times> bytes option) res" where
  "readRound decompress s inp =
     rbind (readMsgHeader decompress inp) (\<lambda>h.
       case h of
         Inl e \<Rightarrow> (case kill e True s of (s, evs) \<Rightarrow> Inr (s, evs, None))
       | Inr (totalLen, responseTo, opCode, src, after) \<Rightarrow>
           let f = map_of (replyFuncs s) responseTo;
               s = s\<lparr>replyFuncs := AList.delete responseTo (replyFuncs s)\<rparr>
           in rbind (readBody f totalLen opCode src) (\<lambda>(e, evs, rest).
                case e of
                  Some e \<Rightarrow> (case kill e True s of (s, evs') \<Rightarrow> Inr (s, evs @ evs', None))
                | None \<Rightarrow>
                    Inr (s, evs @ [if replyFuncs s = [] then NoReadDeadline else ReadDeadline],
                      Some (case after of None \<Rightarrow> rest | Some r \<Rightarrow> r))))"

text \<open>\<open>readLoop\<close>: a round takes 16 bytes at least of the input or ends it.\<close>

fun readLoop :: "nat \<Rightarrow> (bytes \<Rightarrow> bytes res) \<Rightarrow> 'f MongoSocket \<Rightarrow> 'f event list \<Rightarrow> bytes \<Rightarrow>
    ('f MongoSocket \<times> 'f event list) res" where
  "readLoop 0 decompress s evs inp = Inl Hang"
| "readLoop (Suc n) decompress s evs inp =
     rbind (readRound decompress s inp) (\<lambda>(s, evs', rest).
       case rest of
         None \<Rightarrow> Inr (s, evs @ evs')
       | Some inp \<Rightarrow> readLoop n decompress s (evs @ evs') inp)"

end
