(* ===== verification/Replies.thy ===== *)
theory Replies
  imports Ops
begin

text \<open>
  What the playback asks of operations: the cursor of a reply, its errors and counts (the
  interface \<open>Replyable\<close>), the cursors of an operation that uses some (\<open>cursorsRewriteable\<close>), the
  metadata for the statistics, and the shortening of recorded replies. From \<open>util.go\<close>,
  \<open>raw_op.go\<close> and the \<open>*_op.go\<close> files.
\<close>

subsection \<open>Cursors in documents\<close>

definition ErrUnmarshal :: err where
  "ErrUnmarshal = Errorf ''failed to unmarshal bson.Raw into struct: %v'' []"

text \<open>The error of a decoding with another message around it.\<close>

definition wrap_error :: "err \<Rightarrow> 'a res \<Rightarrow> 'a res" where
  "wrap_error e r = (case r of Inl (Error _) \<Rightarrow> Inl (Error e) | _ \<Rightarrow> r)"

fun struct_field :: "string \<Rightarrow> goval \<Rightarrow> goval" where
  "struct_field k (GStruct fs) = field_value k fs"
| "struct_field k _ = GNil"

fun as_int64 :: "goval \<Rightarrow> int64" where
  "as_int64 (GInt64 w) = w"
| "as_int64 _ = 0"

fun as_list :: "goval \<Rightarrow> goval list" where
  "as_list (GSlice vs) = vs"
| "as_list _ = []"

definition cursorIdDoc :: gotype where
  "cursorIdDoc = TStruct [(''cursor'', False, TStruct [(''id'', False, TInt64)])]"

definition getCursorID_raw :: "goval \<Rightarrow> int64 res" where
  "getCursorID_raw x =
     rbind (wrap_error ErrUnmarshal (unmarshal_of cursorIdDoc (zero_of cursorIdDoc) x)) (\<lambda>doc.
       Inr (as_int64 (struct_field ''id'' (struct_field ''cursor'' doc))))"

definition cursorDocsDoc :: gotype where
  "cursorDocsDoc = TStruct [(''cursor'', False,
     TStruct [(''firstBatch'', False, TSlice TRaw), (''nextBatch'', False, TSlice TRaw)])]"

definition getCursorDocs :: "goval \<Rightarrow> goval list res" where
  "getCursorDocs x =
     rbind (unmarshal_of (TPtr cursorDocsDoc) (zero_of cursorDocsDoc) x) (\<lambda>doc.
       if doc = GNil then Inl (Panic ''runtime error: invalid memory address or nil pointer dereference'')
       else
         let first = as_list (struct_field ''firstBatch'' (struct_field ''cursor'' doc));
             nextb = as_list (struct_field ''nextBatch'' (struct_field ''cursor'' doc))
         in Inr (if first \<noteq> [] then first else nextb))"

definition getMoreDoc :: gotype where
  "getMoreDoc = TStruct [(''getMore'', False, TInt64)]"

fun getMore_elem :: "(string \<times> goval) list \<Rightarrow> int64 res" where
  "getMore_elem [] = Inr 0"
| "getMore_elem ((k, v) # es) =
     (if k = ''getMore'' then
        (case v of GInt64 w \<Rightarrow> Inr w | _ \<Rightarrow> Inl (Error (Errorf ''cursorID is not int64'' [])))
      else getMore_elem es)"

fun getGetMoreCursorID :: "goval \<Rightarrow> int64 res" where
  "getGetMoreCursorID (GD es) = getMore_elem es"
| "getGetMoreCursorID (GRaw k d) =
     rbind (wrap_error ErrUnmarshal (Raw_Unmarshal getMoreDoc (zero_of getMoreDoc) k d)) (\<lambda>doc.
       Inr (as_int64 (struct_field ''getMore'' doc)))"
| "getGetMoreCursorID _ = Inl (Panic ''not a *bson.D or *bson.Raw'')"

fun set_getMore :: "int64 \<Rightarrow> (string \<times> goval) list \<Rightarrow> (string \<times> goval) list" where
  "set_getMore c [] = []"
| "set_getMore c ((k, v) # es) =
     (if k = ''getMore'' then (k, GInt64 c) # es else (k, v) # set_getMore c es)"

definition newCursorID_of :: "int64 list \<Rightarrow> int64 res" where
  "newCursorID_of newCursorIDs =
     (if length newCursorIDs > 1
      then Inl (Error (Errorf ''rewriting getmore command cursorIDs requires 1 id, received: %d'' [int (length newCursorIDs)]))
      else Inr (case newCursorIDs of [] \<Rightarrow> 0 | c # _ \<Rightarrow> c))"

fun as_D :: "goval \<Rightarrow> (string \<times> goval) list" where
  "as_D (GD es) = es"
| "as_D _ = []"

definition setCursorID :: "goval \<Rightarrow> int64 list \<Rightarrow> (goval \<times> int64) res" where
  "setCursorID x newCursorIDs =
     rbind (newCursorID_of newCursorIDs) (\<lambda>newCursorID.
     rbind (case x of
              GD es \<Rightarrow> Inr (GD es)
            | GRaw k d \<Rightarrow> wrap_error ErrUnmarshal (Raw_Unmarshal TD (GD []) k d)
            | _ \<Rightarrow> Inl (Panic ''not a *bson.D or *bson.Raw'')) (\<lambda>doc.
       Inr (GD (set_getMore newCursorID (as_D doc)), newCursorID)))"

definition getCommandName_raw :: "RawOp \<Rightarrow> string res" where
  "getCommandName_raw rop =
     (if hOpCode (Header rop) \<noteq> OpCodeCommand
      then Inl (Error (Errorf ''getCommandName received wrong opType: %v'' [sint (hOpCode (Header rop))]))
      else if length (Body rop) < 16 then Inl (Panic ''runtime error: slice bounds out of range'')
      else
        rbind (readCStringFromReader (drop 16 (Body rop))) (\<lambda>(_, r).
        rbind (readCStringFromReader r) (\<lambda>(commandName, _). Inr (str commandName))))"

text \<open>The key under which a request and its reply meet.\<close>

definition cacheKey :: "RecordedOp \<Rightarrow> bool \<Rightarrow> string" where
  "cacheKey op response =
     (let (src, dst, n) =
        (if \<not> response then (SrcEndpoint op, DstEndpoint op, RequestID (Header (rawOp op)))
         else (DstEndpoint op, SrcEndpoint op, ResponseTo (Header (rawOp op))))
      in src @ '':'' @ dst @ '':'' @ itoa (sint n) @ '':'' @ itoa (Generation op))"

subsection \<open>Errors in documents\<close>

definition FindValueByKey :: "string \<Rightarrow> (string \<times> goval) list \<Rightarrow> goval option" where
  "FindValueByKey keyName document = map_of document keyName"

text \<open>
  The elements of a value whose type is a slice: a list, bytes, or a document (whose elements
  are single pairs). A nil value has no type to ask.
\<close>

fun slice_elems :: "goval \<Rightarrow> goval list res" where
  "slice_elems (GSlice vs) = Inr vs"
| "slice_elems (GBytes bs) = Inr (map GUint8 bs)"
| "slice_elems (GD es) = Inr (map (\<lambda>e. GD [e]) es)"
| "slice_elems (GRawD es) = Inr (map (\<lambda>e. GRawD [e]) es)"
| "slice_elems GNil = Inl (Panic ''runtime error: invalid memory address or nil pointer dereference'')"
| "slice_elems _ = Inr []"

definition errors_under :: "string \<Rightarrow> (string \<times> goval) list \<Rightarrow> goval list res" where
  "errors_under k doc = (case FindValueByKey k doc of None \<Rightarrow> Inr [] | Some v \<Rightarrow> slice_elems v)"

text \<open>An error is the value that it is formatted from.\<close>

definition extractErrorsFromDoc :: "(string \<times> goval) list \<Rightarrow> goval list res" where
  "extractErrorsFromDoc doc =
     (let single = (\<lambda>k. case FindValueByKey k doc of None \<Rightarrow> [] | Some v \<Rightarrow> [v]) in
      rbind (errors_under ''writeErrors'' doc) (\<lambda>we.
      rbind (errors_under ''writeConcernErrors'' doc) (\<lambda>wce.
        Inr (single ''$err'' @ single ''errmsg'' @ we @ wce))))"

subsection \<open>Replies\<close>

text \<open>The types that implement \<open>Replyable\<close>, and what their methods give; some cache the cursor.\<close>

fun Replyable :: "Op \<Rightarrow> bool" where
  "Replyable (OpReply _) = True"
| "Replyable (OpCommandReply _) = True"
| "Replyable (OpMsgReply _) = True"
| "Replyable _ = False"

definition ReplyOp_getCursorID :: "ReplyOp \<Rightarrow> int64 res \<times> ReplyOp" where
  "ReplyOp_getCursorID op =
     (if rCursorId op \<noteq> 0 \<or> rcursorCached op then (Inr (rCursorId op), op)
      else
        let op = op\<lparr>rcursorCached := True\<rparr> in
        (case rDocs op of
           [d] \<Rightarrow>
             (case unmarshal_of (TPtr cursorIdDoc) (zero_of cursorIdDoc) d of
                Inl (Error _) \<Rightarrow> (Inl (Error (Errorf ''failed to unmarshal raw into bson.M: %v'' [])), op)
              | Inl f \<Rightarrow> (Inl f, op)
              | Inr doc \<Rightarrow>
                  let c = as_int64 (struct_field ''id'' (struct_field ''cursor'' doc))
                  in (Inr c, op\<lparr>rCursorId := c\<rparr>))
         | _ \<Rightarrow> (Inr 0, op)))"

definition CommandReplyOp_getCursorID :: "CommandReplyOp \<Rightarrow> int64 res \<times> CommandReplyOp" where
  "CommandReplyOp_getCursorID op =
     (case crcursorID op of
        Some c \<Rightarrow> (Inr c, op)
      | None \<Rightarrow>
          (case getCursorID_raw (crCommandReply op) of
             Inl f \<Rightarrow> (Inl f, op)
           | Inr c \<Rightarrow> (Inr c, op\<lparr>crcursorID := Some c\<rparr>)))"

definition MsgOpReply_getCursorID :: "MsgOpReply \<Rightarrow> int64 res \<times> MsgOpReply" where
  "MsgOpReply_getCursorID op =
     (case mrcursorID op of
        Some c \<Rightarrow> (Inr c, op)
      | None \<Rightarrow>
          if mSections (mrOp op) = [] then (Inr 0, op)
          else
            (case rbind (fetchPayload0Data (mSections (mrOp op))) (\<lambda>(doc, _). getCursorID_raw doc) of
               Inl f \<Rightarrow> (Inl f, op)
             | Inr c \<Rightarrow> (Inr c, op\<lparr>mrcursorID := Some c\<rparr>)))"

fun getCursorID :: "Op \<Rightarrow> int64 res \<times> Op" where
  "getCursorID (OpReply op) = map_prod id OpReply (ReplyOp_getCursorID op)"
| "getCursorID (OpCommandReply op) = map_prod id OpCommandReply (CommandReplyOp_getCursorID op)"
| "getCursorID (OpMsgReply op) = map_prod id OpMsgReply (MsgOpReply_getCursorID op)"
| "getCursorID op = (Inl (Panic ''interface conversion''), op)"

fun getNumReturned :: "Op \<Rightarrow> int" where
  "getNumReturned (OpReply op) = int (length (rDocs op))"
| "getNumReturned (OpCommandReply op) = int (length (crDocs op))"
| "getNumReturned (OpMsgReply op) = int (length (mrDocs op))"
| "getNumReturned _ = 0"

fun getLatencyMicros :: "Op \<Rightarrow> int" where
  "getLatencyMicros (OpReply op) = go_div (rLatency op) 1000"
| "getLatencyMicros (OpCommandReply op) = go_div (crLatency op) 1000"
| "getLatencyMicros (OpMsgReply op) = go_div (mrLatency op) 1000"
| "getLatencyMicros _ = 0"

definition errors_of_raw :: "goval \<Rightarrow> goval list res" where
  "errors_of_raw x =
     (case unmarshal_of TD (GD []) x of
        Inl (Error _) \<Rightarrow> Inl (Panic ''failed to unmarshal Raw into bson.D'')
      | Inl f \<Rightarrow> Inl f
      | Inr doc \<Rightarrow> extractErrorsFromDoc (as_D doc))"

fun getErrors :: "Op \<Rightarrow> goval list res" where
  "getErrors (OpReply op) = (case rDocs op of [] \<Rightarrow> Inr [] | d # _ \<Rightarrow> errors_of_raw d)"
| "getErrors (OpCommandReply op) = (case crDocs op of [] \<Rightarrow> Inr [] | d # _ \<Rightarrow> errors_of_raw d)"
| "getErrors (OpMsgReply op) =
     (if mSections (mrOp op) = [] then Inr []
      else (case fetchPayload0Data (mSections (mrOp op)) of
              Inl _ \<Rightarrow> Inr []
            | Inr (doc, _) \<Rightarrow> errors_of_raw doc))"
| "getErrors _ = Inr []"

subsection \<open>Operations whose cursors are rewritten\<close>

fun cursorsRewriteable :: "Op \<Rightarrow> bool" where
  "cursorsRewriteable (OpGetMore _) = True"
| "cursorsRewriteable (OpKillCursors _) = True"
| "cursorsRewriteable (OpCommandGetMore _ _) = True"
| "cursorsRewriteable (OpMsgGetMore _ _) = True"
| "cursorsRewriteable _ = False"

fun getCursorIDs :: "Op \<Rightarrow> int64 list res \<times> Op" where
  "getCursorIDs (OpGetMore op) = (Inr [gCursorId op], OpGetMore op)"
| "getCursorIDs (OpKillCursors op) = (Inr (kCursorIds op), OpKillCursors op)"
| "getCursorIDs (OpCommandGetMore op cached) =
     (case cached of
        Some c \<Rightarrow> (Inr [c], OpCommandGetMore op cached)
      | None \<Rightarrow>
          (case getGetMoreCursorID (cCommandArgs op) of
             Inl f \<Rightarrow> (Inl f, OpCommandGetMore op None)
           | Inr c \<Rightarrow> (Inr [c], OpCommandGetMore op (Some c))))"
| "getCursorIDs (OpMsgGetMore op cached) =
     (case cached of
        Some c \<Rightarrow> (Inr [c], OpMsgGetMore op cached)
      | None \<Rightarrow>
          if mSections op = [] then (Inr [], OpMsgGetMore op None)
          else
            (case rbind (fetchPayload0Data (mSections op)) (\<lambda>(doc, _). getGetMoreCursorID doc) of
               Inl f \<Rightarrow> (Inl f, OpMsgGetMore op None)
             | Inr c \<Rightarrow> (Inr [c], OpMsgGetMore op (Some c))))"
| "getCursorIDs op = (Inl (Panic ''interface conversion''), op)"

text \<open>
  \<open>setCursorIDs\<close>. For an \<open>OP_MSG\<close> the error of \<open>setCursorID\<close> is ignored: the document that it
  gives then is empty, and it is put in place all the same.
\<close>

fun setCursorIDs :: "int64 list \<Rightarrow> Op \<Rightarrow> Op res" where
  "setCursorIDs ids (OpGetMore op) =
     rbind (newCursorID_of ids) (\<lambda>c. Inr (OpGetMore (op\<lparr>gCursorId := c\<rparr>)))"
| "setCursorIDs ids (OpKillCursors op) = Inr (OpKillCursors (op\<lparr>kCursorIds := ids\<rparr>))"
| "setCursorIDs ids (OpCommandGetMore op cached) =
     rbind (setCursorID (cCommandArgs op) ids) (\<lambda>(newDoc, c).
       Inr (OpCommandGetMore (op\<lparr>cCommandArgs := newDoc\<rparr>) (Some c)))"
| "setCursorIDs ids (OpMsgGetMore op cached) =
     (if mSections op = [] then Inr (OpMsgGetMore op cached)
      else
        rbind (fetchPayload0Data (mSections op)) (\<lambda>(doc, sectionIx).
        rbind (case setCursorID doc ids of Inl (Error _) \<Rightarrow> Inr (GD [], 0) | r \<Rightarrow> r) (\<lambda>(newDoc, c).
        rbind (Marshal newDoc) (\<lambda>newDocAsSlice.
        rbind (Unmarshal TRaw (GRaw 0 []) newDocAsSlice) (\<lambda>newDocAsRaw.
          Inr (OpMsgGetMore (op\<lparr>mSections :=
            (mSections op)[sectionIx := (fst (mSections op ! sectionIx), DocData newDocAsRaw)]\<rparr>) (Some c)))))))"
| "setCursorIDs ids op = Inl (Panic ''interface conversion'')"

subsection \<open>Metadata\<close>

datatype metaData =
    MNil
  | MDoc goval
  | MDocs "goval list"
  | MIds "int64 list"
  | MSections "MsgSection list"
  | MFields "(string \<times> metaData) list"

record OpMetadata =
  mdOp :: string
  mdNs :: string
  mdCommand :: string
  mdData :: metaData

fun Meta :: "Op \<Rightarrow> OpMetadata res" where
  "Meta (OpQuery op) =
     rbind (extractOpType (qQuery op)) (\<lambda>(opType, commandType).
       Inr (if \<not> (''$cmd'' = drop (length (qCollection op) - 4) (qCollection op))
            then \<lparr>mdOp = ''query'', mdNs = qCollection op, mdCommand = [], mdData = MDoc (qQuery op)\<rparr>
            else \<lparr>mdOp = opType, mdNs = qCollection op, mdCommand = commandType, mdData = MDoc (qQuery op)\<rparr>))"
| "Meta (OpReply op) = Inr \<lparr>mdOp = ''reply'', mdNs = [], mdCommand = [],
     mdData = (case rDocs op of [d] \<Rightarrow> MDoc d | ds \<Rightarrow> MDocs ds)\<rparr>"
| "Meta (OpGetMore op) = Inr \<lparr>mdOp = ''getmore'', mdNs = gCollection op, mdCommand = [], mdData = MIds [gCursorId op]\<rparr>"
| "Meta (OpInsert op) = Inr \<lparr>mdOp = ''insert'', mdNs = iCollection op, mdCommand = [], mdData = MDocs (iDocuments op)\<rparr>"
| "Meta (OpKillCursors op) = Inr \<lparr>mdOp = ''killcursors'', mdNs = [], mdCommand = [], mdData = MIds (kCursorIds op)\<rparr>"
| "Meta (OpDelete op) = Inr \<lparr>mdOp = ''Delete'', mdNs = dCollection op, mdCommand = [], mdData = MDoc (dSelector op)\<rparr>"
| "Meta (OpUpdate op) = Inr \<lparr>mdOp = ''update'', mdNs = uCollection op, mdCommand = [],
     mdData = MFields [(''query'', MDoc (uSelector op)), (''update'', MDoc (uUpdate op))]\<rparr>"
| "Meta (OpCommand op) = Inr \<lparr>mdOp = ''op_command'', mdNs = cDatabase op, mdCommand = cCommandName op,
     mdData = MFields [(''metadata'', MDoc (cMetadata op)), (''command_args'', MDoc (cCommandArgs op)),
       (''input_docs'', MDocs (cInputDocs op))]\<rparr>"
| "Meta (OpCommandGetMore op _) = Inr \<lparr>mdOp = ''op_command'', mdNs = cDatabase op, mdCommand = cCommandName op,
     mdData = MFields [(''metadata'', MDoc (cMetadata op)), (''command_args'', MDoc (cCommandArgs op)),
       (''input_docs'', MDocs (cInputDocs op))]\<rparr>"
| "Meta (OpCommandReply op) = Inr \<lparr>mdOp = ''op_commandreply'', mdNs = [], mdCommand = [],
     mdData = MFields [(''metadata'', MDoc (crMetadata op)), (''command_reply'', MDoc (crCommandReply op)),
       (''output_docs'', MDocs (crOutputDocs op))]\<rparr>"
| "Meta (OpMsg op) = Inr \<lparr>mdOp = ''op_msg'', mdNs = mDatabase op, mdCommand = mCommandName op,
     mdData = MFields [(''sections'', MSections (mSections op))]\<rparr>"
| "Meta (OpMsgGetMore op _) = Inr \<lparr>mdOp = ''op_msg'', mdNs = mDatabase op, mdCommand = mCommandName op,
     mdData = MFields [(''sections'', MSections (mSections op))]\<rparr>"
| "Meta (OpMsgReply op) = Inr \<lparr>mdOp = ''op_msg'', mdNs = mDatabase (mrOp op), mdCommand = mCommandName (mrOp op),
     mdData = MFields [(''sections'', MSections (mSections (mrOp op)))]\<rparr>"

subsection \<open>Shortening replies\<close>

definition maxBSONSize :: int where "maxBSONSize = 16 * 1024 * 1024"

definition commandReplyStruct :: gotype where
  "commandReplyStruct = TStruct
     [(''cursor'', False, TStruct [(''id'', False, TInt64), (''ns'', False, TString),
        (''firstBatch'', True, TRaw), (''nextBatch'', True, TRaw)]), (''ok'', False, TInt)]"

fun set_raw_data :: "bytes \<Rightarrow> goval \<Rightarrow> goval" where
  "set_raw_data b (GRaw k d) = GRaw k b"
| "set_raw_data b v = v"

fun map_struct_field :: "string \<Rightarrow> (goval \<Rightarrow> goval) \<Rightarrow> goval \<Rightarrow> goval" where
  "map_struct_field k f (GStruct fs) = GStruct (set_field k (f (field_value k fs)) fs)"
| "map_struct_field k f v = v"

text \<open>
  \<open>ShortenReply\<close>. A batch that is not there leaves its field zero. The bytes of the batch are replaced by those of an empty array's document;
  its size and offsets are \<open>int32\<close> values, and copying to an offset outside the buffer panics.
\<close>

definition emptyBatch :: bytes where "emptyBatch = [5, 0, 0, 0, 0]"

definition replaceCommandReply :: "RawOp \<Rightarrow> bytes \<Rightarrow> RawOp res" where
  "replaceCommandReply op new =
     rbind (getInt32 (Body op) 16) (\<lambda>commandReplySize.
     rbind (getInt32 new 0) (\<lambda>newCommandReplySize.
       let newSize = MessageLength (Header op) - (commandReplySize - newCommandReplySize);
           n = sint newSize;
           k = sint (16 + newCommandReplySize);
           j = sint (16 + commandReplySize)
       in if n < 0 then Inl (Panic ''runtime error: makeslice: len out of range'')
          else if n < 16 \<or> k < 0 \<or> n < k \<or> j < 0 \<or> int (length (Body op)) < j
          then Inl (Panic ''runtime error: slice bounds out of range'')
          else
            let newBody = replicate (nat n) 0;
                newBody = copy_at newBody 0 (take 16 (Body op));
                newBody = copy_at newBody 16 new;
                newBody = copy_at newBody (nat k) (drop (nat j) (Body op))
            in rbind (SetInt32 newBody 0 newSize) (\<lambda>newBody.
                 Inr \<lparr>Header = (Header op)\<lparr>MessageLength := newSize\<rparr>, Body = newBody\<rparr>)))"

definition ShortenReply :: "RawOp \<Rightarrow> RawOp res" where
  "ShortenReply op =
     (let len = sint (MessageLength (Header op)) in
      if len < MsgHeaderLen
      then Inl (Error (Errorf ''expected message header to have length: %d bytes but was %d bytes'' [MsgHeaderLen, len]))
      else if len > MaxMessageSize
      then Inl (Error (Errorf ''wire message size, %v, was greater then the maximum, %v bytes'' [len, MaxMessageSize]))
      else if hOpCode (Header op) = OpCodeReply then
        (if len \<le> 20 + MsgHeaderLen then Inr op
         else
           rbind (getInt32 (Body op) 36) (\<lambda>firstDocSize.
             if 36 + sint firstDocSize > int (length (Body op)) \<or> sint firstDocSize > maxBSONSize
             then Inl (Error (Errorf ''the size of the first document is greater then the size of the message'' []))
             else if sint (36 + firstDocSize) < 0 then Inl (Panic ''runtime error: slice bounds out of range'')
             else Inr (op\<lparr>Body := take (nat (sint (36 + firstDocSize))) (Body op)\<rparr>)))
      else if hOpCode (Header op) = OpCodeCommandReply then
        (if length (Body op) < 16 then Inl (Panic ''runtime error: slice bounds out of range'')
         else
           rbind (wrap_error (Errorf ''unmarshaling op to shorten: %v'' [])
               (Unmarshal commandReplyStruct (zero_of commandReplyStruct) (drop 16 (Body op)))) (\<lambda>commandReply.
             let c = struct_field ''cursor'' commandReply in
             if struct_field ''firstBatch'' c \<noteq> GRaw 0 [] then
               rbind (Marshal (map_struct_field ''cursor''
                   (map_struct_field ''firstBatch'' (set_raw_data emptyBatch)) commandReply)) (replaceCommandReply op)
             else if struct_field ''nextBatch'' c \<noteq> GRaw 0 [] then
               rbind (Marshal (map_struct_field ''cursor''
                   (map_struct_field ''nextBatch'' (set_raw_data emptyBatch)) commandReply)) (replaceCommandReply op)
             else Inr op))
      else Inl (Error (Errorf ''unexpected op type : %v'' [sint (hOpCode (Header op))])))"

end
