(* ===== verification/Exec.thy ===== *)
theory Exec
  imports Socket Replies
begin

text \<open>
  Executing one operation on a connection and waiting for its reply: \<open>ExecOpWithReply\<close> of
  \<open>internal/llmgo/session.go\<close>, with the reply function that the read loop calls, and the
  \<open>Execute\<close> methods of the operations, which build the reply from what it collected.
\<close>

subsection \<open>Waiting for a reply\<close>

text \<open>The variables of \<open>ExecOpWithReply\<close>, and how often its mutex has been unlocked.\<close>

datatype gotReply =
    GotNothing
  | GotLegacy "ReplyOp option"
  | GotCommand
  | GotMessage int32 int32

record waiter =
  metaData :: "bytes option"
  bodyData :: "bytes option"
  replyData :: "bytes list"
  reply :: gotReply
  replyErr :: "err option"
  docCount :: int32
  unlocks :: nat

definition newWaiter :: waiter where
  "newWaiter = \<lparr>metaData = None, bodyData = None, replyData = [], reply = GotNothing, replyErr = None,
     docCount = 0, unlocks = 0\<rparr>"

definition unlock :: "waiter \<Rightarrow> waiter" where
  "unlock w = w\<lparr>unlocks := unlocks w + 1\<rparr>"

text \<open>
  \<open>replyFunc\<close>. The field \<open>bytesLeft\<close> of the arguments is zero in every call of the read loop, so
  that each call for a command reply without an error unlocks and no output document is kept.
  A reply of an \<open>OP_REPLY\<close> is nil only together with an error.
\<close>

definition bytesLeft :: int where "bytesLeft = 0"

fun replyFunc :: "err option \<Rightarrow> replyArgs \<Rightarrow> waiter \<Rightarrow> waiter" where
  "replyFunc e (LegacyReply rop docNum docData) w =
     (let w = w\<lparr>replyErr := e, reply := GotLegacy rop\<rparr> in
      (case rop of
         Some r \<Rightarrow>
           if e \<noteq> None \<or> rReplyDocs r = 0 then unlock w
           else
             let w = w\<lparr>replyData := replyData w @ [docData], docCount := docCount w + 1\<rparr>
             in if docCount w = rReplyDocs r then unlock w else w
       | None \<Rightarrow> unlock w))"
| "replyFunc e (CommandReply metadata commandReply outputDoc) w =
     (let w = w\<lparr>replyErr := e, reply := GotCommand\<rparr> in
      if e = None then
        let w = (if metaData w = None then w\<lparr>metaData := Some metadata\<rparr> else w);
            w = (if bodyData w = None then w\<lparr>bodyData := Some commandReply\<rparr> else w)
        in if bytesLeft \<noteq> 0 then w\<lparr>replyData := replyData w @ [outputDoc]\<rparr> else unlock w
      else w)"
| "replyFunc e (MsgReply flags checksum sectionsData) w =
     unlock (w\<lparr>replyErr := e, reply := GotMessage flags checksum, bodyData := Some sectionsData\<rparr>)"
| "replyFunc e NoReply w = unlock (w\<lparr>replyErr := e\<rparr>)"

text \<open>
  The second \<open>wait.Lock\<close> goes on as soon as the mutex is unlocked; with no such call it waits
  for ever.
\<close>

fun await :: "(err option \<times> replyArgs) list \<Rightarrow> waiter \<Rightarrow> waiter option" where
  "await [] w = None"
| "await ((e, a) # cs) w = (let w = replyFunc e a w in if 0 < unlocks w then Some w else await cs w)"

text \<open>The calls of one reply function among the events of the read loop.\<close>

fun calls_to :: "'f \<Rightarrow> 'f event list \<Rightarrow> (err option \<times> replyArgs) list" where
  "calls_to f [] = []"
| "calls_to f (Called g e a # evs) = (if g = f then (e, a) # calls_to f evs else calls_to f evs)"
| "calls_to f (_ # evs) = calls_to f evs"

text \<open>
  \<open>ExecOpWithReply\<close> and \<open>ExecOpWithoutReply\<close>: \<open>f\<close> is the reply function that is set on the
  operation and \<open>cs\<close> are the calls that it gets.
\<close>

definition ExecOpWithReply :: "(bytes \<Rightarrow> err option) \<Rightarrow> 'f MongoSocket \<Rightarrow> 'f \<Rightarrow> Op \<Rightarrow>
    (err option \<times> replyArgs) list \<Rightarrow> ((err + waiter) \<times> 'f MongoSocket \<times> 'f event list) res" where
  "ExecOpWithReply write s f op cs =
     rbind (Query write s [\<lparr>reqOp = op, reqMode = zeroQueryMode, reqFn = Some f\<rparr>]) (\<lambda>(e, s, evs).
       case e of
         Some e \<Rightarrow> Inr (Inl e, s, evs)
       | None \<Rightarrow> (case await cs newWaiter of None \<Rightarrow> Inl Hang | Some w \<Rightarrow> Inr (Inr w, s, evs)))"

definition ExecOpWithoutReply :: "(bytes \<Rightarrow> err option) \<Rightarrow> 'f MongoSocket \<Rightarrow> Op \<Rightarrow>
    (err option \<times> 'f MongoSocket \<times> 'f event list) res" where
  "ExecOpWithoutReply write s op = Query write s [\<lparr>reqOp = op, reqMode = zeroQueryMode, reqFn = None\<rparr>]"

subsection \<open>The reply of each operation\<close>

abbreviation nil_deref :: "'a res" where
  "nil_deref \<equiv> Inl (Panic ''runtime error: invalid memory address or nil pointer dereference'')"

abbreviation wrong_reply :: "'a res" where
  "wrong_reply \<equiv> Inl (Panic ''reply from execution was not the correct type'')"

fun unmarshal_docs :: "gotype \<Rightarrow> bytes list \<Rightarrow> goval list res" where
  "unmarshal_docs t [] = Inr []"
| "unmarshal_docs t (d # ds) =
     rbind (Unmarshal t (zero_of t) d) (\<lambda>v. rbind (unmarshal_docs t ds) (\<lambda>vs. Inr (v # vs)))"

text \<open>\<open>QueryOp.Execute\<close> and \<open>GetMoreOp.Execute\<close>, which does not look at the error.\<close>

definition legacyReply :: "waiter \<Rightarrow> duration \<Rightarrow> Op res" where
  "legacyReply w latency =
     (case reply w of
        GotLegacy (Some r) \<Rightarrow>
          rbind (unmarshal_docs TRaw (replyData w)) (\<lambda>docs.
            Inr (OpReply (r\<lparr>rDocs := docs, rLatency := latency, rcursorCached := False\<rparr>)))
      | GotLegacy None \<Rightarrow> nil_deref
      | _ \<Rightarrow> wrong_reply)"

definition QueryOp_reply :: "waiter \<Rightarrow> duration \<Rightarrow> Op res" where
  "QueryOp_reply w latency = (case replyErr w of Some e \<Rightarrow> Inl (Error e) | None \<Rightarrow> legacyReply w latency)"

definition GetMoreOp_reply :: "waiter \<Rightarrow> duration \<Rightarrow> Op res" where
  "GetMoreOp_reply w latency = legacyReply w latency"

definition bytes_of :: "bytes option \<Rightarrow> bytes" where
  "bytes_of b = (case b of None \<Rightarrow> [] | Some b \<Rightarrow> b)"

definition CommandOp_reply :: "waiter \<Rightarrow> duration \<Rightarrow> Op res" where
  "CommandOp_reply w latency =
     (case replyErr w of Some e \<Rightarrow> Inl (Error e) | None \<Rightarrow>
        (case reply w of
           GotCommand \<Rightarrow>
             rbind (Unmarshal TRaw (GRaw 0 []) (bytes_of (metaData w))) (\<lambda>metadata.
             rbind (Unmarshal TRaw (GRaw 0 []) (bytes_of (bodyData w))) (\<lambda>commandReply.
             rbind (getCursorDocs commandReply) (\<lambda>cursorDocs.
             rbind (unmarshal_docs (TPtr TRaw) (replyData w)) (\<lambda>outputDocs.
               Inr (OpCommandReply \<lparr>crHeader = zeroHeader, crMetadata = metadata, crCommandReply = commandReply,
                 crOutputDocs = outputDocs, crDocs = cursorDocs, crLatency = latency, crcursorID = None\<rparr>)))))
         | _ \<Rightarrow> wrong_reply))"

definition getCursorDocsFromMsgSection :: "MsgSection \<Rightarrow> goval list res" where
  "getCursorDocsFromMsgSection section =
     (case section of
        (ty, d) \<Rightarrow>
          if ty = MsgPayload0 then
            (case d of
               DocData doc \<Rightarrow> getCursorDocs doc
             | Payload1 _ _ _ \<Rightarrow> Inl (Error (Errorf ''section data was wrong type'' [])))
          else nil_deref)"

text \<open>The loop over the sections of the reply; each takes a byte at least.\<close>

fun replySections :: "nat \<Rightarrow> int \<Rightarrow> MsgSection list \<Rightarrow> goval list \<Rightarrow> bytes \<Rightarrow>
    (MsgSection list \<times> goval list) res" where
  "replySections 0 left sections docs r = Inl Hang"
| "replySections (Suc n) left sections docs r =
     (if left > 0 then
        rbind (readSection r) (\<lambda>((section, len), r).
        rbind (getCursorDocsFromMsgSection section) (\<lambda>ds.
          replySections n (left - len) (sections @ [section]) (docs @ ds) r))
      else Inr (sections, docs))"

definition MsgOp_reply :: "waiter \<Rightarrow> duration \<Rightarrow> Op res" where
  "MsgOp_reply w latency =
     (case replyErr w of Some e \<Rightarrow> Inl (Error e) | None \<Rightarrow>
        (case reply w of
           GotMessage flags checksum \<Rightarrow>
             (let sectionsData = bytes_of (bodyData w) in
              rbind (replySections (Suc (length sectionsData)) (int (length sectionsData)) [] [] sectionsData)
                (\<lambda>(sections, docs).
                  Inr (OpMsgReply \<lparr>mrOp = \<lparr>mHeader = zeroHeader, mFlags = flags, mSections = sections,
                      mChecksum = checksum, mCommandName = [], mDatabase = []\<rparr>,
                    mrLatency = latency, mrcursorID = None, mrDocs = docs\<rparr>)))
         | _ \<Rightarrow> wrong_reply))"

subsection \<open>Execute\<close>

text \<open>
  \<open>Execute\<close> of each operation. The result is the error or the reply, if the operation has one;
  \<open>latency\<close> is the time between the two readings of the clock.
\<close>

definition with_reply :: "(waiter \<Rightarrow> duration \<Rightarrow> Op res) \<Rightarrow> duration \<Rightarrow>
    ((err + waiter) \<times> 'f MongoSocket \<times> 'f event list) res \<Rightarrow>
    ((err + Op option) \<times> 'f MongoSocket \<times> 'f event list) res" where
  "with_reply build latency r =
     rbind r (\<lambda>(x, s, evs).
       case x of
         Inl e \<Rightarrow> Inr (Inl e, s, evs)
       | Inr w \<Rightarrow>
           (case build w latency of
              Inl (Error e) \<Rightarrow> Inr (Inl e, s, evs)
            | Inl fault \<Rightarrow> Inl fault
            | Inr op \<Rightarrow> Inr (Inr (Some op), s, evs)))"

text \<open>An error of \<open>Query\<close> leaves the reply of a getmore nil, which its type assertion rejects.\<close>

definition getmore_result :: "((err + waiter) \<times> 'f MongoSocket \<times> 'f event list) res \<Rightarrow>
    ((err + waiter) \<times> 'f MongoSocket \<times> 'f event list) res" where
  "getmore_result r =
     rbind r (\<lambda>(x, s, evs). case x of Inl e \<Rightarrow> wrong_reply | Inr w \<Rightarrow> Inr (Inr w, s, evs))"

definition without_reply :: "(err option \<times> 'f MongoSocket \<times> 'f event list) res \<Rightarrow>
    ((err + Op option) \<times> 'f MongoSocket \<times> 'f event list) res" where
  "without_reply r =
     rbind r (\<lambda>(e, s, evs). Inr ((case e of Some e \<Rightarrow> Inl e | None \<Rightarrow> Inr None), s, evs))"

fun Op_Execute :: "(bytes \<Rightarrow> err option) \<Rightarrow> 'f MongoSocket \<Rightarrow> 'f \<Rightarrow> (err option \<times> replyArgs) list \<Rightarrow> duration \<Rightarrow>
    Op \<Rightarrow> ((err + Op option) \<times> 'f MongoSocket \<times> 'f event list) res" where
  "Op_Execute write s f cs t (OpQuery op) =
     with_reply QueryOp_reply t (ExecOpWithReply write s f (OpQuery op) cs)"
| "Op_Execute write s f cs t (OpGetMore op) =
     with_reply GetMoreOp_reply t (getmore_result (ExecOpWithReply write s f (OpGetMore op) cs))"
| "Op_Execute write s f cs t (OpCommand op) =
     with_reply CommandOp_reply t (ExecOpWithReply write s f (OpCommand op) cs)"
| "Op_Execute write s f cs t (OpCommandGetMore op c) =
     with_reply CommandOp_reply t (ExecOpWithReply write s f (OpCommandGetMore op c) cs)"
| "Op_Execute write s f cs t (OpMsg op) =
     with_reply MsgOp_reply t (ExecOpWithReply write s f (OpMsg op) cs)"
| "Op_Execute write s f cs t (OpMsgGetMore op c) =
     with_reply MsgOp_reply t (ExecOpWithReply write s f (OpMsgGetMore op c) cs)"
| "Op_Execute write s f cs t (OpMsgReply op) =
     with_reply MsgOp_reply t (ExecOpWithReply write s f (OpMsgReply op) cs)"
| "Op_Execute write s f cs t (OpReply op) = Inr (Inr None, s, [])"
| "Op_Execute write s f cs t (OpCommandReply op) = Inr (Inr None, s, [])"
| "Op_Execute write s f cs t op = without_reply (ExecOpWithoutReply write s op)"

text \<open>\<open>CommandOp.Preprocess\<close>, which an operation with a rewritten getmore command also has.\<close>

fun Preprocess :: "Op \<Rightarrow> Op" where
  "Preprocess (OpCommand op) = OpCommand (op\<lparr>cMetadata := GNil\<rparr>)"
| "Preprocess (OpCommandGetMore op c) = OpCommandGetMore (op\<lparr>cMetadata := GNil\<rparr>) c"
| "Preprocess op = op"

end
