(* ===== verification/Ops_Correct.thy ===== *)
theory Ops_Correct
  imports Send
begin

text \<open>
  The operations survive the wire: what \<open>serialize\<close> writes, \<open>Parse\<close> reads back. The documents of
  an operation are either raw or decoded; \<open>travels t v d\<close> says what the readers rely on for
  one document, and each operation is then a composition of readers.
\<close>

subsection \<open>Documents on the wire\<close>

definition travels :: "gotype \<Rightarrow> goval \<Rightarrow> bytes \<Rightarrow> bool" where
  "travels t v d \<longleftrightarrow> v \<noteq> GNil \<and> Marshal v = Inr d \<and> 5 \<le> length d \<and>
     (int (length d) \<le> maximumDocumentSize \<longrightarrow> sized_doc d \<and> (\<forall>old. Unmarshal t old d = Inr v))"

definition doc_ok :: "gotype \<Rightarrow> goval \<Rightarrow> bool" where
  "doc_ok t v \<longleftrightarrow>
     (t = TRaw \<and> (\<exists>d. v = GRaw 3 d \<and> sized_doc d)) \<or> (t = TD \<and> fits TM TD v)"

lemma Marshal_docBytes:
  assumes "fits TM TD v" "Marshal v = Inr d"
  shows "\<exists>b. d = docBytes b"
  using assms by (cases rule: fits.cases)
    (auto simp: Marshal_def handleErr_def rbind_eq_Inr split: sum.splits fault.splits if_splits)

lemma getInt32_sized: "getInt32 (sized b) 0 = Inr (word_of_nat (4 + length b))"
proof -
  have "getInt32 ([] @ enc32 (word_of_nat (4 + length b)) @ b) (length ([] :: bytes)) = Inr (word_of_nat (4 + length b))"
    by (rule getInt32_append) simp
  then show ?thesis by (simp add: sized_def)
qed

lemma doc_ok_travels:
  assumes "doc_ok t v"
  obtains d where "travels t v d"
proof (cases "t = TRaw")
  case True
  with assms obtain d where d: "v = GRaw 3 d" "sized_doc d" by (auto simp: doc_ok_def)
  then have "travels t v d"
    using True by (auto simp: travels_def Marshal_def handleErr_def Unmarshal_def sized_doc_def)
  then show thesis by (rule that)
next
  case False
  with assms have f: "fits TM TD v" and t: "t = TD" by (auto simp: doc_ok_def)
  have um: "\<exists>b. Marshal v = Inr b \<and> (length b < 2 ^ 31 \<longrightarrow> Unmarshal TD old b = Inr v)" for old
    using Marshal_reads_back [OF f, of old] by auto
  obtain d where d1: "Marshal v = Inr d" using um [of GNil] by blast
  have d: "Marshal v = Inr d" "\<And>old. length d < 2 ^ 31 \<Longrightarrow> Unmarshal TD old d = Inr v"
    using um d1 by auto
  obtain b where b: "d = docBytes b" using Marshal_docBytes [OF f d(1)] by blast
  then have l: "length d = length b + 5" by (simp add: docBytes_def sized_def)
  have g: "getInt32 d 0 = Inr (word_of_nat (length d))"
    using getInt32_sized [of "b @ [0]"] unfolding b docBytes_def by (simp add: sized_def)
  have "v \<noteq> GNil" using f by (cases rule: fits.cases) auto
  then have "travels t v d"
    using d l g t by (auto simp: travels_def sized_doc_def maximumDocumentSize_def)
  then show thesis by (rule that)
qed

lemma travels_addBSON: "travels t v d \<Longrightarrow> addBSON b v = Inr (b @ d)"
  by (simp add: travels_def addBSON_def)

lemma travels_sized: "travels t v d \<Longrightarrow> int (length d) \<le> maximumDocumentSize \<Longrightarrow> sized_doc d"
  by (simp add: travels_def)

lemma travels_Unmarshal: "travels t v d \<Longrightarrow> int (length d) \<le> maximumDocumentSize \<Longrightarrow> Unmarshal t old d = Inr v"
  by (simp add: travels_def)

lemma travels_nil: "travels t v d \<Longrightarrow> v \<noteq> GNil" "travels t v d \<Longrightarrow> d \<noteq> []"
  by (auto simp: travels_def)

lemma readD_travels:
  "travels TD v d \<Longrightarrow> int (length d) \<le> maximumDocumentSize \<Longrightarrow> readD (d @ r) = Inr (v, r)"
  by (simp add: readD_def rdbind_def travels_sized travels_Unmarshal)

lemma readRaw_travels:
  "travels TRaw v d \<Longrightarrow> int (length d) \<le> maximumDocumentSize \<Longrightarrow> readRaw (d @ r) = Inr (v, r)"
  by (simp add: readRaw_def rdbind_def travels_sized travels_Unmarshal)

lemma addDocs_travels: "list_all2 (travels t) vs ds \<Longrightarrow> addDocs b vs = Inr (b @ concat ds)"
  by (induction arbitrary: b rule: list_all2_induct) (simp_all add: travels_addBSON)

lemma docs_ok_travels: "\<forall>v\<in>set vs. doc_ok t v \<Longrightarrow> \<exists>ds. list_all2 (travels t) vs ds"
proof (induction vs)
  case (Cons v vs)
  then obtain d ds where "travels t v d" "list_all2 (travels t) vs ds" by (auto elim: doc_ok_travels)
  then show ?case by (intro exI [of _ "d # ds"]) simp
qed (auto intro: exI [of _ "[]"])

lemma list_all2_travels_len: "list_all2 (travels t) vs ds \<Longrightarrow> length vs \<le> length (concat ds)"
  by (induction rule: list_all2_induct) (auto simp: travels_def)

lemma insert_loop_travels:
  "list_all2 (travels TD) vs ds \<Longrightarrow> int (length (concat ds)) \<le> maximumDocumentSize \<Longrightarrow> length vs < n \<Longrightarrow>
   msgLen - MsgHeaderLen = nread + int (length (concat ds)) \<Longrightarrow>
   insert_loop n nread msgLen acc (concat ds @ r) = Inr (acc @ vs, r)"
proof (induction arbitrary: n nread acc rule: list_all2_induct)
  case Nil
  then show ?case by (cases n) simp_all
next
  case (Cons v vs d ds)
  then obtain m where m: "n = Suc m" by (cases n) auto
  have d: "sized_doc d" "Unmarshal TD (GD []) d = Inr v"
    using Cons by (auto intro!: travels_sized travels_Unmarshal)
  have pos: "0 < int (length d) + int (length (concat ds))" "d \<noteq> []"
    using Cons.hyps(1) by (auto simp: travels_def intro!: add_pos_nonneg)
  have "insert_loop m (nread + int (length d)) msgLen (acc @ [v]) (concat ds @ r) = Inr ((acc @ [v]) @ vs, r)"
    using Cons.prems m by (intro Cons.IH) auto
  then show ?case using m d Cons.prems by (simp add: ReadDocument_sized pos)
qed

lemma inputDocs_loop_travels:
  "list_all2 (travels TRaw) vs ds \<Longrightarrow> int (length (concat ds)) \<le> maximumDocumentSize \<Longrightarrow> length vs \<le> n \<Longrightarrow>
   msgLen - MsgHeaderLen = nread + int (length (concat ds)) \<Longrightarrow>
   inputDocs_loop n nread msgLen acc (concat ds @ r) = Inr (acc @ vs, r)"
proof (induction arbitrary: n nread acc rule: list_all2_induct)
  case Nil
  then show ?case by (cases n) simp_all
next
  case (Cons v vs d ds)
  then obtain m where m: "n = Suc m" by (cases n) auto
  have d: "sized_doc d" "Unmarshal TRaw (GRaw 0 []) d = Inr v"
    using Cons by (auto intro!: travels_sized travels_Unmarshal)
  have pos: "0 < int (length d) + int (length (concat ds))" "d \<noteq> []"
    using Cons.hyps(1) by (auto simp: travels_def intro!: add_pos_nonneg)
  have "inputDocs_loop m (nread + int (length d)) msgLen (acc @ [v]) (concat ds @ r) = Inr ((acc @ [v]) @ vs, r)"
    using Cons.prems m by (intro Cons.IH) auto
  then show ?case using m d Cons.prems by (simp add: ReadDocument_sized pos)
qed

lemma ReadDocument_Nil: "ReadDocument [] = Inr (([], Some EOF), [])"
  by (simp add: ReadDocument_def readFull_raw_def)

lemma docs_loop_travels:
  "list_all2 (travels TRaw) vs ds \<Longrightarrow> int (length (concat ds)) \<le> maximumDocumentSize \<Longrightarrow> length vs < n \<Longrightarrow>
   docs_loop n acc (concat ds) = Inr (acc @ vs, [])"
proof (induction arbitrary: n acc rule: list_all2_induct)
  case Nil
  then show ?case by (cases n) (simp_all add: ReadDocument_Nil)
next
  case (Cons v vs d ds)
  then obtain m where m: "n = Suc m" by (cases n) auto
  have d: "sized_doc d" "Unmarshal TRaw (GRaw 0 []) d = Inr v"
    using Cons by (auto intro!: travels_sized travels_Unmarshal)
  have pos: "d \<noteq> []" using Cons.hyps(1) by (auto simp: travels_def)
  have "docs_loop m (acc @ [v]) (concat ds) = Inr ((acc @ [v]) @ vs, [])"
    using Cons.prems m by (intro Cons.IH) auto
  then show ?case using m d Cons.prems by (simp add: ReadDocument_sized pos)
qed

lemma sint_diff_small:
  assumes "0 \<le> o'" "o' \<le> s" "s < 2 ^ 31"
  shows "sint (word_of_int s - word_of_int o' :: int32) = s - o'"
proof -
  have "(word_of_int s - word_of_int o' :: int32) = word_of_int (s - o')" by simp
  then show ?thesis using assms by (simp only:) (rule sint_int32; simp)
qed

lemma payload1_loop_travels:
  "list_all2 (travels TRaw) vs ds \<Longrightarrow> int (length (concat ds)) \<le> maximumDocumentSize \<Longrightarrow> length vs < n \<Longrightarrow>
   s = offset + int (length (concat ds)) \<Longrightarrow> 0 \<le> offset \<Longrightarrow> s < 2 ^ 31 \<Longrightarrow>
   payload1_loop n (word_of_int s) offset acc (concat ds @ r) = Inr ((acc @ vs, s), r)"
proof (induction arbitrary: n offset acc rule: list_all2_induct)
  case Nil
  then show ?case by (cases n) (simp_all add: sint_diff_small del: of_int_add)
next
  case (Cons v vs d ds)
  then obtain m where m: "n = Suc m" by (cases n) auto
  have d: "sized_doc d" "Unmarshal TRaw (GRaw 0 []) d = Inr v"
    using Cons by (auto intro!: travels_sized travels_Unmarshal)
  have pos: "0 < int (length d) + int (length (concat ds))" "d \<noteq> []"
    using Cons.hyps(1) by (auto simp: travels_def intro!: add_pos_nonneg)
  have gt: "sint (word_of_int s - word_of_int offset :: int32) > 0"
    using Cons.prems by (subst sint_diff_small) (auto simp: pos)
  have "payload1_loop m (word_of_int s) (offset + int (length d)) (acc @ [v]) (concat ds @ r) = Inr (((acc @ [v]) @ vs, s), r)"
    using Cons.prems m by (intro Cons.IH) auto
  then show ?case using m d gt by (simp add: rdbind_def)
qed


subsection \<open>Operations on the wire\<close>

fun op_code :: "Op \<Rightarrow> OpCode" where
  "op_code (OpQuery _) = OpCodeQuery"
| "op_code (OpReply _) = OpCodeReply"
| "op_code (OpGetMore _) = OpCodeGetMore"
| "op_code (OpInsert _) = OpCodeInsert"
| "op_code (OpKillCursors _) = OpCodeKillCursors"
| "op_code (OpDelete _) = OpCodeDelete"
| "op_code (OpUpdate _) = OpCodeUpdate"
| "op_code (OpCommand _) = OpCodeCommand"
| "op_code (OpCommandReply _) = OpCodeCommandReply"
| "op_code (OpMsg _) = OpCodeMessage"
| "op_code (OpCommandGetMore _ _) = OpCodeCommand"
| "op_code (OpMsgGetMore _ _) = OpCodeMessage"
| "op_code (OpMsgReply _) = OpCodeMessage"

fun set_header :: "MsgHeader \<Rightarrow> Op \<Rightarrow> Op" where
  "set_header h (OpQuery op) = OpQuery (op\<lparr>qHeader := h\<rparr>)"
| "set_header h (OpReply op) = OpReply (op\<lparr>rHeader := h\<rparr>)"
| "set_header h (OpGetMore op) = OpGetMore (op\<lparr>gHeader := h\<rparr>)"
| "set_header h (OpInsert op) = OpInsert (op\<lparr>iHeader := h\<rparr>)"
| "set_header h (OpKillCursors op) = OpKillCursors (op\<lparr>kHeader := h\<rparr>)"
| "set_header h (OpDelete op) = OpDelete (op\<lparr>dHeader := h\<rparr>)"
| "set_header h (OpUpdate op) = OpUpdate (op\<lparr>uHeader := h\<rparr>)"
| "set_header h (OpCommand op) = OpCommand (op\<lparr>cHeader := h\<rparr>)"
| "set_header h (OpCommandReply op) = OpCommandReply (op\<lparr>crHeader := h\<rparr>)"
| "set_header h (OpMsg op) = OpMsg (op\<lparr>mHeader := h\<rparr>)"
| "set_header h (OpCommandGetMore op c) = OpCommandGetMore (op\<lparr>cHeader := h\<rparr>) c"
| "set_header h (OpMsgGetMore op c) = OpMsgGetMore (op\<lparr>mHeader := h\<rparr>) c"
| "set_header h (OpMsgReply op) = OpMsgReply (op\<lparr>mrOp := (mrOp op)\<lparr>mHeader := h\<rparr>\<rparr>)"

fun section_ok :: "MsgSection \<Rightarrow> bool" where
  "section_ok (ty, DocData v) \<longleftrightarrow> ty = MsgPayload0 \<and> doc_ok TRaw v"
| "section_ok (ty, Payload1 sz ident docs) \<longleftrightarrow>
     ty = MsgPayload1 \<and> nul_free ident \<and> (\<forall>v\<in>set docs. doc_ok TRaw v) \<and>
     sz = word_of_nat (4 + (length ident + 1) + length (concat (map raw_data docs)))"

definition command_ok :: "CommandOp \<Rightarrow> bool" where
  "command_ok op \<longleftrightarrow> nul_free (cDatabase op) \<and> nul_free (cCommandName op) \<and>
     doc_ok TRaw (cCommandArgs op) \<and> doc_ok TRaw (cMetadata op) \<and> (\<forall>v\<in>set (cInputDocs op). doc_ok TRaw v)"

definition msg_ok :: "MsgOp \<Rightarrow> bool" where
  "msg_ok op \<longleftrightarrow> (\<forall>s\<in>set (mSections op). section_ok s) \<and>
     (mFlags op AND MsgFlagChecksumPresent = 0 \<longrightarrow> mChecksum op = 0) \<and> mCommandName op \<noteq> [] \<and>
     getCommandName (op\<lparr>mCommandName := [], mDatabase := []\<rparr>) = Inr (mCommandName op, op\<lparr>mDatabase := []\<rparr>) \<and>
     getDB (op\<lparr>mDatabase := []\<rparr>) = Inr (mDatabase op, op)"

text \<open>
  The operations that the reader gives back as they were: the names hold no NUL, the documents
  are of the kind the reader makes, the fields that are not on the wire have the values the
  reader leaves in them, and a query is not wrapped by \<open>finalQuery\<close>.
\<close>

fun op_ok :: "bool option \<Rightarrow> QueryMode \<Rightarrow> Op \<Rightarrow> bool" where
  "op_ok info qm (OpQuery op) \<longleftrightarrow> nul_free (qCollection op) \<and> doc_ok TRaw (qQuery op) \<and>
     (qSelector op = GNil \<or> doc_ok TD (qSelector op)) \<and>
     \<not> HasOptions qm \<and> (qFlags op AND flagSlaveOk = 0 \<or> info = Some False)"
| "op_ok info qm (OpReply op) \<longleftrightarrow> rDocs op = [] \<and> rLatency op = 0 \<and> \<not> rcursorCached op"
| "op_ok info qm (OpGetMore op) \<longleftrightarrow> nul_free (gCollection op)"
| "op_ok info qm (OpInsert op) \<longleftrightarrow> nul_free (iCollection op) \<and> (\<forall>v\<in>set (iDocuments op). doc_ok TD v)"
| "op_ok info qm (OpKillCursors op) \<longleftrightarrow> True"
| "op_ok info qm (OpDelete op) \<longleftrightarrow> nul_free (dCollection op) \<and> doc_ok TD (dSelector op)"
| "op_ok info qm (OpUpdate op) \<longleftrightarrow> nul_free (uCollection op) \<and> doc_ok TD (uSelector op) \<and> doc_ok TD (uUpdate op)"
| "op_ok info qm (OpCommand op) \<longleftrightarrow> command_ok op \<and> cCommandName op \<noteq> ''getMore''"
| "op_ok info qm (OpCommandReply op) \<longleftrightarrow> doc_ok TRaw (crCommandReply op) \<and> doc_ok TRaw (crMetadata op) \<and>
     (\<forall>v\<in>set (crOutputDocs op). doc_ok TRaw v) \<and> crDocs op = [] \<and> crLatency op = 0 \<and> crcursorID op = None"
| "op_ok info qm (OpMsg op) \<longleftrightarrow> msg_ok op \<and> mCommandName op \<noteq> ''getMore''"
| "op_ok info qm (OpCommandGetMore op c) \<longleftrightarrow> command_ok op \<and> cCommandName op = ''getMore'' \<and> c = None"
| "op_ok info qm (OpMsgGetMore op c) \<longleftrightarrow> msg_ok op \<and> mCommandName op = ''getMore'' \<and> c = None"
| "op_ok info qm (OpMsgReply op) \<longleftrightarrow> False"

definition code_header :: "OpCode \<Rightarrow> bytes" where
  "code_header c = header_bytes (zeroHeader\<lparr>hOpCode := c\<rparr>)"

text \<open>What each operation has to satisfy: it is written after any buffer, and read back.\<close>

definition round :: "bool option \<Rightarrow> QueryMode \<Rightarrow> Op \<Rightarrow> bytes \<Rightarrow> bool" where
  "round info qm op body \<longleftrightarrow>
     (\<forall>buf. addOp info qm buf op = Inr (buf @ code_header (op_code op) @ body)) \<and>
     (int (length body) + MsgHeaderLen \<le> MaxMessageSize \<longrightarrow>
       (\<forall>h. hOpCode h = op_code op \<longrightarrow> sint (MessageLength h) = int (length body) + MsgHeaderLen \<longrightarrow>
         (\<exists>op0 op1. newOp h = Some op0 \<and> Op_FromReader op0 body = Inr (op1, []) \<and>
            maybeChangeOpToGetMore op1 = Inr (set_header h op))))"

lemma addHeader_code [simp]:
  "addHeader b 1 = b @ code_header OpCodeReply" "addHeader b 2001 = b @ code_header OpCodeUpdate"
  "addHeader b 2002 = b @ code_header OpCodeInsert" "addHeader b 2004 = b @ code_header OpCodeQuery"
  "addHeader b 2005 = b @ code_header OpCodeGetMore" "addHeader b 2006 = b @ code_header OpCodeDelete"
  "addHeader b 2007 = b @ code_header OpCodeKillCursors" "addHeader b 2010 = b @ code_header OpCodeCommand"
  "addHeader b 2011 = b @ code_header OpCodeCommandReply" "addHeader b 2013 = b @ code_header OpCodeMessage"
  by (simp_all add: addHeader_eq code_header_def opcode_defs)

lemma readInt32From_enc32 [simp]: "readInt32From (enc32 w @ r) = Inr (w, r)"
  by (simp add: readInt32From_def rdbind_def)

lemma readInt32From_exact [simp]: "readInt32From (enc32 w) = Inr (w, [])"
  using readInt32From_enc32 [of w "[]"] by simp

lemma nul_free_raw: "nul_free s \<Longrightarrow> 0 \<notin> set (raw s)"
  by (simp add: nul_free_def)

lemma readCollection_raw [simp]: "nul_free s \<Longrightarrow> readCollection (raw s @ 0 # r) = Inr (s, r)"
  by (simp add: readCollection_def rdbind_def nul_free_raw)

lemma getInt_heads:
  "getInt32 (enc32 a @ r) 0 = Inr a" "getInt32 (enc32 a @ enc32 b @ r) 4 = Inr b"
  "getInt32 (enc32 a @ enc32 b) 4 = Inr b"
  "getInt64 (enc32 a @ enc64 c @ r) 4 = Inr c" "getInt64 (enc32 a @ enc64 c) 4 = Inr c"
  using getInt32_append [of "[]" 0 a r] getInt32_append [of "enc32 a" 4 b r] getInt32_append [of "enc32 a" 4 b "[]"]
    getInt64_append [of "enc32 a" 4 c r] getInt64_append [of "enc32 a" 4 c "[]"]
  by simp_all

lemma addCString_eq [simp]: "addCString b s = b @ raw s @ [0]"
  by (simp add: addCString_def)

lemma rdbind_app: "rdbind p f r = rbind (p r) (\<lambda>(x, r'). f x r')"
  by (simp add: rdbind_def)

lemmas newOp_simps = newOp_def opcode_defs maybeChangeOpToGetMore_def

lemmas size_bound = MsgHeaderLen_def MaxMessageSize_def maximumDocumentSize_def

lemma readFull_two32: "readFull 8 (enc32 a @ enc32 b @ r) = Inr (enc32 a @ enc32 b, r)"
  using readFull_append [of "enc32 a @ enc32 b" 8 r] by simp

lemma readFull_getmore: "readFull 12 (enc32 a @ enc64 b @ r) = Inr (enc32 a @ enc64 b, r)"
  using readFull_append [of "enc32 a @ enc64 b" 12 r] by simp

lemma round_GetMore:
  assumes "op_ok info qm (OpGetMore op)"
  shows "round info qm (OpGetMore op)
    (enc32 0 @ raw (gCollection op) @ 0 # enc32 (gLimit op) @ enc64 (gCursorId op))"
  using assms readFull_getmore [of "gLimit op" "gCursorId op" "[]"]
  by (auto simp: round_def newOp_simps GetMoreOp_FromReader_def rdbind_app getInt_heads)

lemma round_Update:
  assumes "op_ok info qm (OpUpdate op)"
  shows "\<exists>body. round info qm (OpUpdate op) body"
proof -
  obtain d where d: "travels TD (uSelector op) d" using assms by (auto elim: doc_ok_travels)
  obtain e where e: "travels TD (uUpdate op) e" using assms by (auto elim: doc_ok_travels)
  note de = d e
  have "readD e = Inr (uUpdate op, [])" if "int (length e) \<le> maximumDocumentSize"
    using readD_travels [OF de(2) that, of "[]"] by simp
  then have "round info qm (OpUpdate op) (enc32 0 @ raw (uCollection op) @ 0 # enc32 (uFlags op) @ d @ e)"
    using assms de
    by (auto simp: round_def newOp_simps UpdateOp_FromReader_def rdbind_app travels_addBSON readD_travels size_bound)
  then show ?thesis ..
qed

lemma round_Delete:
  assumes "op_ok info qm (OpDelete op)"
  shows "\<exists>body. round info qm (OpDelete op) body"
proof -
  obtain d where d: "travels TD (dSelector op) d" using assms by (auto elim: doc_ok_travels)
  have "readD d = Inr (dSelector op, [])" if "int (length d) \<le> maximumDocumentSize"
    using readD_travels [OF d that, of "[]"] by simp
  then have "round info qm (OpDelete op) (enc32 0 @ raw (dCollection op) @ 0 # enc32 (dFlags op) @ d)"
    using assms d
    by (auto simp: round_def newOp_simps DeleteOp_FromReader_def rdbind_app travels_addBSON size_bound)
  then show ?thesis ..
qed

lemma round_Insert:
  assumes "op_ok info qm (OpInsert op)"
  shows "\<exists>body. round info qm (OpInsert op) body"
proof -
  obtain ds where ds: "list_all2 (travels TD) (iDocuments op) ds"
    using assms docs_ok_travels by fastforce
  have "insert_loop (Suc (length (concat ds))) (int (length (iCollection op)) + 1 + 4) msgLen [] (concat ds) =
      Inr (iDocuments op, [])"
    if "int (length (concat ds)) \<le> maximumDocumentSize"
      "msgLen - MsgHeaderLen = int (length (iCollection op)) + 1 + 4 + int (length (concat ds))" for msgLen
    using insert_loop_travels [OF ds that(1) _ that(2), where acc = "[]" and r = "[]"]
      list_all2_travels_len [OF ds] by (simp del: insert_loop.simps)
  then have "round info qm (OpInsert op) (enc32 (iFlags op) @ raw (iCollection op) @ 0 # concat ds)"
    using assms ds
    by (auto simp: round_def newOp_simps InsertOp_FromReader_def rdbind_app addDocs_travels size_bound
        simp del: insert_loop.simps)
  then show ?thesis ..
qed

lemma round_Query:
  assumes "op_ok info qm (OpQuery op)"
  shows "\<exists>body. round info qm (OpQuery op) body"
proof -
  obtain d where d: "travels TRaw (qQuery op) d" using assms by (auto elim: doc_ok_travels)
  have q: "finalQuery info qm op = Inr (qQuery op)" using assms by (auto simp: finalQuery_def)
  show ?thesis
  proof (cases "qSelector op = GNil")
    case True
    have rd: "ReadDoc d = Inr (d, [])" "Unmarshal TRaw (GRaw 0 []) d = Inr (qQuery op)"
      if "int (length d) \<le> maximumDocumentSize"
      using ReadDoc_sized [OF travels_sized [OF d that], of "[]"] d that by (auto simp: travels_def)
    have "round info qm (OpQuery op)
        (enc32 (qFlags op) @ raw (qCollection op) @ 0 # enc32 (qSkip op) @ enc32 (qLimit op) @ d)"
      using assms d q True rd
      by (auto simp: round_def newOp_simps QueryOp_FromReader_def rdbind_app travels_addBSON size_bound
          readFull_two32 getInt_heads Let_def)
    then show ?thesis ..
  next
    case False
    then obtain e where e: "travels TD (qSelector op) e" using assms by (auto elim: doc_ok_travels)
    have re: "readD e = Inr (qSelector op, [])" if "int (length e) \<le> maximumDocumentSize"
      using readD_travels [OF e that, of "[]"] by simp
    have rd: "ReadDoc (d @ e) = Inr (d, e)" "Unmarshal TRaw (GRaw 0 []) d = Inr (qQuery op)"
      if "int (length d) \<le> maximumDocumentSize"
      using ReadDoc_sized [OF travels_sized [OF d that], of e] d that by (auto simp: travels_def)
    have ne: "e \<noteq> []" using e by (auto simp: travels_def)
    have "round info qm (OpQuery op)
        (enc32 (qFlags op) @ raw (qCollection op) @ 0 # enc32 (qSkip op) @ enc32 (qLimit op) @ d @ e)"
      using assms d e q False rd re ne
      by (auto simp: round_def newOp_simps QueryOp_FromReader_def rdbind_app travels_addBSON size_bound
          readFull_two32 getInt_heads Let_def)
    then show ?thesis ..
  qed
qed

lemma readFull_reply:
  "readFull 20 (enc32 a @ enc64 b @ enc32 c @ enc32 d @ r) = Inr (enc32 a @ enc64 b @ enc32 c @ enc32 d, r)"
  using readFull_append [of "enc32 a @ enc64 b @ enc32 c @ enc32 d" 20 r] by simp

lemma getInt_reply:
  "getInt32 (enc32 a @ enc64 b @ enc32 c @ enc32 d) 12 = Inr c"
  "getInt32 (enc32 a @ enc64 b @ enc32 c @ enc32 d) 16 = Inr d"
  using getInt32_append [of "enc32 a @ enc64 b" 12 c "enc32 d"]
    getInt32_append [of "enc32 a @ enc64 b @ enc32 c" 16 d "[]"] by simp_all

lemma round_Reply:
  assumes "op_ok info qm (OpReply op)"
  shows "round info qm (OpReply op)
    (enc32 (rFlags op) @ enc64 (rCursorId op) @ enc32 (rFirstDoc op) @ enc32 (rReplyDocs op))"
  using assms readFull_reply [of "rFlags op" "rCursorId op" "rFirstDoc op" "rReplyDocs op" "[]"]
  by (auto simp: round_def newOp_simps ReplyOp_FromReader_def rdbind_app getInt_heads getInt_reply ReadDocument_Nil)

lemma cursor_ids_loop_enc:
  "cursor_ids_loop (length ids) acc (concat (map enc64 ids)) = Inr (acc @ ids, [])"
proof (induction ids arbitrary: acc)
  case (Cons i ids)
  have "readFull_raw 8 (enc64 i @ concat (map enc64 ids)) = ((enc64 i, None), concat (map enc64 ids))"
    by (simp add: readFull_raw_def)
  with Cons show ?case by simp
qed simp

lemma foldl_addInt64: "foldl addInt64 b ids = b @ concat (map enc64 ids)"
  by (induction ids arbitrary: b) simp_all

lemma length_concat_enc64: "length (concat (map enc64 ids)) = 8 * length ids"
  by (induction ids) simp_all

lemma round_KillCursors: "\<exists>body. round info qm (OpKillCursors op) body"
proof -
  let ?n = "word_of_nat (length (kCursorIds op)) :: int32"
  have u: "unat ?n = length (kCursorIds op)"
    if "int (8 * length (kCursorIds op)) + 8 + MsgHeaderLen \<le> MaxMessageSize"
    using that by (simp add: unat_of_nat take_bit_nat_eq_self size_bound)
  have "round info qm (OpKillCursors op) (enc32 0 @ enc32 ?n @ concat (map enc64 (kCursorIds op)))"
    using u cursor_ids_loop_enc [of "kCursorIds op" "[]"]
    by (auto simp: round_def newOp_simps KillCursorsOp_FromReader_def rdbind_app foldl_addInt64 readFull_two32
        length_concat_enc64)
  then show ?thesis ..
qed

lemma ReadDoc_travels:
  "travels t v d \<Longrightarrow> int (length d) \<le> maximumDocumentSize \<Longrightarrow> ReadDoc (d @ r) = Inr (d, r)"
  by (simp add: travels_sized)

lemma readCString_raw [simp]: "nul_free s \<Longrightarrow> readCStringFromReader (raw s @ 0 # r) = Inr (raw s, r)"
  by (simp add: nul_free_raw)

lemma round_Command_body:
  assumes "command_ok op"
  shows "\<exists>body. (\<forall>buf. addCommand buf op = Inr (buf @ code_header OpCodeCommand @ body)) \<and>
    (int (length body) + MsgHeaderLen \<le> MaxMessageSize \<longrightarrow>
      (\<forall>h. sint (MessageLength h) = int (length body) + MsgHeaderLen \<longrightarrow>
        CommandOp_FromReader \<lparr>cHeader = h, cDatabase = [], cCommandName = [], cMetadata = GNil,
          cCommandArgs = GNil, cInputDocs = []\<rparr> body = Inr (op\<lparr>cHeader := h\<rparr>, [])))"
proof -
  obtain d where d: "travels TRaw (cCommandArgs op) d"
    using assms by (auto simp: command_ok_def elim: doc_ok_travels)
  obtain e where e: "travels TRaw (cMetadata op) e"
    using assms by (auto simp: command_ok_def elim: doc_ok_travels)
  obtain ds where ds: "list_all2 (travels TRaw) (cInputDocs op) ds"
    using assms docs_ok_travels unfolding command_ok_def by blast
  have l: "inputDocs_loop (length (concat ds)) nread msgLen [] (concat ds) = Inr (cInputDocs op, [])"
    if "int (length (concat ds)) \<le> maximumDocumentSize" "msgLen - MsgHeaderLen = nread + int (length (concat ds))"
    for nread msgLen
    using inputDocs_loop_travels [OF ds that(1) list_all2_travels_len [OF ds] that(2), where acc = "[]" and r = "[]"]
    by simp
  show ?thesis
    by (rule exI [of _ "raw (cDatabase op) @ 0 # raw (cCommandName op) @ 0 # d @ e @ concat ds"])
      (use assms d e ds l in \<open>auto simp: command_ok_def CommandOp_FromReader_def rdbind_app travels_addBSON
        addDocs_travels ReadDoc_travels travels_Unmarshal size_bound\<close>)
qed

lemma round_Command:
  assumes "op_ok info qm (OpCommand op)"
  shows "\<exists>body. round info qm (OpCommand op) body"
proof -
  have ok: "command_ok op" using assms by simp
  show ?thesis
    using round_Command_body [OF ok] assms
    by (elim exE) (rule exI, auto simp: round_def newOp_simps rdbind_app)
qed

lemma round_CommandGetMore:
  assumes "op_ok info qm (OpCommandGetMore op c)"
  shows "\<exists>body. round info qm (OpCommandGetMore op c) body"
proof -
  have ok: "command_ok op" using assms by simp
  show ?thesis
    using round_Command_body [OF ok] assms
    by (elim exE) (rule exI, auto simp: round_def newOp_simps rdbind_app)
qed

lemma round_CommandReply:
  assumes "op_ok info qm (OpCommandReply op)"
  shows "\<exists>body. round info qm (OpCommandReply op) body"
proof -
  obtain d where d: "travels TRaw (crCommandReply op) d" using assms by (auto elim: doc_ok_travels)
  obtain e where e: "travels TRaw (crMetadata op) e" using assms by (auto elim: doc_ok_travels)
  obtain ds where ds: "list_all2 (travels TRaw) (crOutputDocs op) ds"
    using assms docs_ok_travels by fastforce
  have l: "docs_loop (Suc (length (concat ds))) [] (concat ds) = Inr (crOutputDocs op, [])"
    if "int (length (concat ds)) \<le> maximumDocumentSize"
    using docs_loop_travels [OF ds that, where acc = "[]"] list_all2_travels_len [OF ds]
    by (simp del: docs_loop.simps)
  have "round info qm (OpCommandReply op) (d @ e @ concat ds)"
    using assms d e ds l
    by (auto simp: round_def newOp_simps CommandReplyOp_FromReader_def rdbind_app travels_addBSON
        addDocs_travels readRaw_travels size_bound simp del: docs_loop.simps)
  then show ?thesis ..
qed

subsection \<open>Sections\<close>

definition section_travels :: "MsgSection \<Rightarrow> bytes \<Rightarrow> bool" where
  "section_travels s b \<longleftrightarrow> b \<noteq> [] \<and>
     (\<forall>buf rest. addSections buf (s # rest) = addSections (buf @ b) rest) \<and>
     (int (length b) \<le> maximumDocumentSize \<longrightarrow> (\<forall>r. readSection (b @ r) = Inr ((s, int (length b)), r)))"

lemma concat_raw_data:
  "list_all2 (travels TRaw) docs ds \<Longrightarrow> \<forall>v\<in>set docs. doc_ok TRaw v \<Longrightarrow> map raw_data docs = ds"
  by (induction rule: list_all2_induct)
    (auto simp: travels_def doc_ok_def Marshal_def handleErr_def sized_doc_def split: if_splits)

lemma section_ok_travels:
  assumes "section_ok s"
  shows "\<exists>b. section_travels s b"
proof (cases s)
  case (Pair ty dat)
  show ?thesis
  proof (cases dat)
    case (DocData v)
    with assms Pair have v: "ty = MsgPayload0" "doc_ok TRaw v" by auto
    then obtain d where d: "travels TRaw v d" by (auto elim: doc_ok_travels)
    have "section_travels s (0 # d)"
      using Pair DocData v d readFull_append [of "[0]" 1]
      by (auto simp: section_travels_def travels_addBSON readSection_def rdbind_app MsgPayload0_def
          ReadDoc_travels travels_Unmarshal)
    then show ?thesis ..
  next
    case (Payload1 sz ident docs)
    with assms Pair have v: "ty = MsgPayload1" "nul_free ident" "\<forall>v\<in>set docs. doc_ok TRaw v"
      "sz = word_of_nat (4 + (length ident + 1) + length (concat (map raw_data docs)))" by auto
    obtain ds where ds: "list_all2 (travels TRaw) docs ds" using docs_ok_travels v(3) by blast
    have r: "map raw_data docs = ds" using concat_raw_data [OF ds v(3)] .
    let ?b = "1 # enc32 sz @ raw ident @ 0 # concat ds"
    have sz: "sz = word_of_int (5 + int (length ident) + int (length (concat ds)))"
      using v(4) by (simp add: r ac_simps)
    have l: "payload1_loop (Suc (length (concat ds @ rest))) sz (5 + int (length ident)) [] (concat ds @ rest) =
        Inr ((docs, 5 + int (length ident) + int (length (concat ds))), rest)"
      if "int (length ?b) \<le> maximumDocumentSize" for rest
      unfolding sz
      by (subst payload1_loop_travels [OF ds])
        (use that list_all2_travels_len [OF ds] in \<open>auto simp: maximumDocumentSize_def\<close>)
    have "readPayloadType1 (enc32 sz @ raw ident @ 0 # concat ds @ rest) =
        Inr ((Payload1 sz ident docs, 5 + int (length ident) + int (length (concat ds))), rest)"
      if "int (length ?b) \<le> maximumDocumentSize" for rest
      using v l [OF that, of rest] by (simp add: readPayloadType1_def rdbind_app Let_def ac_simps del: payload1_loop.simps)
    then have "section_travels s ?b"
      using Pair Payload1 v ds readFull_append [of "[1]" 1]
      by (auto simp: section_travels_def addDocs_travels readSection_def rdbind_app MsgPayload0_def MsgPayload1_def)
    then show ?thesis ..
  qed
qed

lemma addSections_travel:
  "list_all2 section_travels ss bs \<Longrightarrow> addSections buf ss = Inr (buf @ concat bs)"
  by (induction arbitrary: buf rule: list_all2_induct) (simp_all add: section_travels_def)

lemma sections_len: "list_all2 section_travels ss bs \<Longrightarrow> length ss \<le> length (concat bs)"
proof (induction rule: list_all2_induct)
  case (Cons s ss b bs)
  then have "0 < length b" by (simp add: section_travels_def)
  then have "1 \<le> length b" by linarith
  with Cons.IH show ?case by (simp add: add_mono)
qed simp

lemma sections_loop_travel:
  "list_all2 section_travels ss bs \<Longrightarrow> int (length (concat bs)) \<le> maximumDocumentSize \<Longrightarrow> length ss < n \<Longrightarrow>
   msgLen - (offset + ck + MsgHeaderLen) = int (length (concat bs)) \<Longrightarrow>
   sections_loop n msgLen ck offset acc (concat bs @ r) = Inr (acc @ ss, r)"
proof (induction arbitrary: n offset acc rule: list_all2_induct)
  case Nil
  then show ?case by (cases n) simp_all
next
  case (Cons s ss b bs)
  then obtain m where m: "n = Suc m" by (cases n) auto
  have rd: "readSection (b @ concat bs @ r) = Inr ((s, int (length b)), concat bs @ r)"
    using Cons by (simp add: section_travels_def)
  have pos: "0 < int (length b) + int (length (concat bs))"
    using Cons.hyps(1) by (auto simp: section_travels_def intro!: add_pos_nonneg)
  have "sections_loop m msgLen ck (offset + int (length b)) (acc @ [s]) (concat bs @ r) = Inr ((acc @ [s]) @ ss, r)"
    using Cons.prems m by (intro Cons.IH) auto
  then show ?case using m Cons.prems by (simp add: rdbind_app rd pos)
qed

lemma sections_ok_travel: "\<forall>s\<in>set ss. section_ok s \<Longrightarrow> \<exists>bs. list_all2 section_travels ss bs"
proof (induction ss)
  case (Cons s ss)
  then obtain b bs where "section_travels s b" "list_all2 section_travels ss bs"
    using section_ok_travels by (metis list.set_intros)
  then show ?case by (intro exI [of _ "b # bs"]) simp
qed (auto intro: exI [of _ "[]"])

subsection \<open>Messages\<close>

lemma getCommandName_header:
  "getCommandName (op\<lparr>mHeader := h\<rparr>) = rbind (getCommandName op) (\<lambda>(n, op). Inr (n, op\<lparr>mHeader := h\<rparr>))"
proof (cases "fetchPayload0Data (mSections op)")
  case (Inr p)
  then show ?thesis
    by (cases p, cases op) (auto simp: getCommandName_def Let_def split: goval.split list.split sum.split)
qed (cases op, auto simp: getCommandName_def)

lemma getDB_header:
  "getDB (op\<lparr>mHeader := h\<rparr>) = rbind (getDB op) (\<lambda>(n, op). Inr (n, op\<lparr>mHeader := h\<rparr>))"
  by (cases op; cases "fetchPayload0Data (mSections op)")
    (auto simp: getDB_def Let_def rbind_assoc case_prod_beta split: rbind_split)

lemma getCommandName_ok:
  assumes "msg_ok op"
  shows "getCommandName (op\<lparr>mCommandName := [], mDatabase := [], mHeader := h\<rparr>) =
           Inr (mCommandName op, op\<lparr>mDatabase := [], mHeader := h\<rparr>)"
    and "getDB (op\<lparr>mDatabase := [], mHeader := h\<rparr>) = Inr (mDatabase op, op\<lparr>mHeader := h\<rparr>)"
    and "getCommandName (op\<lparr>mHeader := h\<rparr>) = Inr (mCommandName op, op\<lparr>mHeader := h\<rparr>)"
  using getCommandName_header [where op = "op\<lparr>mCommandName := [], mDatabase := []\<rparr>" and h = h]
    getDB_header [where op = "op\<lparr>mDatabase := []\<rparr>" and h = h] assms
  by (simp_all add: msg_ok_def getCommandName_def [of "op\<lparr>mHeader := h\<rparr>"])

lemma round_Msg_body:
  assumes "msg_ok op"
  shows "\<exists>body. (\<forall>buf. addMsg buf op = Inr (buf @ code_header OpCodeMessage @ body)) \<and>
    (int (length body) + MsgHeaderLen \<le> MaxMessageSize \<longrightarrow>
      (\<forall>h. sint (MessageLength h) = int (length body) + MsgHeaderLen \<longrightarrow>
        MsgOp_FromReader \<lparr>mHeader = h, mFlags = 0, mSections = [], mChecksum = 0,
         mCommandName = [], mDatabase = []\<rparr> body = Inr (op\<lparr>mHeader := h\<rparr>, [])))"
proof -
  obtain bs where bs: "list_all2 section_travels (mSections op) bs"
    using assms sections_ok_travel unfolding msg_ok_def by blast
  define present where "present \<longleftrightarrow> mFlags op AND MsgFlagChecksumPresent \<noteq> 0"
  define tail where "tail = (if present then enc32 (mChecksum op) else [])"
  have len: "length tail = (if present then 4 else 0)" by (simp add: tail_def)
  let ?body = "enc32 (mFlags op) @ concat bs @ tail"
  have w: "addMsg buf op = Inr (buf @ code_header OpCodeMessage @ ?body)" for buf
    by (simp add: addSections_travel [OF bs] present_def tail_def)
  have s: "sections_loop (Suc (length (concat bs @ tail))) msgLen (if present then 4 else 0) 4 [] (concat bs @ tail) =
      Inr (mSections op, tail)"
    if "int (length ?body) + MsgHeaderLen \<le> MaxMessageSize" "msgLen = int (length ?body) + MsgHeaderLen" for msgLen
    using that sections_loop_travel [OF bs, where acc = "[]" and r = tail and offset = 4]
      sections_len [OF bs] len
    by (auto simp: size_bound simp del: sections_loop.simps)
  have ck: "(if present then readInt32From else rdret 0) tail = Inr (mChecksum op, [])"
    using assms by (auto simp: tail_def present_def msg_ok_def)
  have names: "getCommandName \<lparr>mHeader = h, mFlags = mFlags op, mSections = mSections op,
         mChecksum = mChecksum op, mCommandName = [], mDatabase = []\<rparr> =
       Inr (mCommandName op, op\<lparr>mDatabase := [], mHeader := h\<rparr>)" for h
    using getCommandName_ok(1) [OF assms, of h] by (cases op) simp
  show ?thesis
  proof (rule exI [of _ ?body], intro conjI allI impI)
    fix h :: MsgHeader assume a: "int (length ?body) + MsgHeaderLen \<le> MaxMessageSize"
      and m: "sint (MessageLength h) = int (length ?body) + MsgHeaderLen"
    show "MsgOp_FromReader \<lparr>mHeader = h, mFlags = 0, mSections = [], mChecksum = 0,
         mCommandName = [], mDatabase = []\<rparr> ?body = Inr (op\<lparr>mHeader := h\<rparr>, [])"
      using s [OF a m] ck names [of h] getCommandName_ok(2) [OF assms, of h]
      by (cases present)
        (simp_all add: MsgOp_FromReader_def rdbind_app present_def [symmetric] Let_def del: sections_loop.simps)
  qed (rule w)
qed

lemma round_Msg:
  assumes "op_ok info qm (OpMsg op)"
  shows "\<exists>body. round info qm (OpMsg op) body"
proof -
  have ok: "msg_ok op" using assms by simp
  show ?thesis
    using round_Msg_body [OF ok] assms
    by (elim exE) (rule exI, auto simp: round_def newOp_simps rdbind_app getCommandName_ok [OF ok])
qed

lemma round_MsgGetMore:
  assumes "op_ok info qm (OpMsgGetMore op c)"
  shows "\<exists>body. round info qm (OpMsgGetMore op c) body"
proof -
  have ok: "msg_ok op" using assms by simp
  show ?thesis
    using round_Msg_body [OF ok] assms
    by (elim exE) (rule exI, auto simp: round_def newOp_simps rdbind_app getCommandName_ok [OF ok])
qed

lemma op_round: "op_ok info qm op \<Longrightarrow> \<exists>body. round info qm op body"
  using round_Reply round_GetMore
  by (cases op)
    (metis round_Query round_Insert round_KillCursors round_Delete round_Update
      round_Command round_CommandReply round_Msg round_CommandGetMore round_MsgGetMore op_ok.simps(13))+

subsection \<open>The whole way\<close>

text \<open>The header that \<open>serialize\<close> writes.\<close>

definition sent_header :: "Op \<Rightarrow> nat \<Rightarrow> MsgHeader" where
  "sent_header op n = zeroHeader\<lparr>MessageLength := word_of_nat n, hOpCode := op_code op\<rparr>"

lemma SetInt32_code_header:
  "SetInt32 (buf @ code_header c @ body) (length buf) (word_of_nat n) =
     Inr (buf @ header_bytes (zeroHeader\<lparr>MessageLength := word_of_nat n, hOpCode := c\<rparr>) @ body)"
  using SetInt32_append [where a = buf and pos = "length buf" and d = "enc32 0" and i = "word_of_nat n"]
  by (simp add: code_header_def header_bytes_def zeroHeader_def)

lemma serialize_round:
  assumes "round info qm op body"
  shows "serialize info qm buf op = Inr (buf @ header_bytes (sent_header op (length body + 16)) @ body)"
  using assms SetInt32_code_header [of buf "op_code op" body "length body + 16"]
  by (simp add: round_def serialize_def sent_header_def code_header_def Let_def ac_simps)

lemma set_header_reply: "set_header h op = OpMsg m \<Longrightarrow> ResponseTo (mHeader m) = ResponseTo h"
  by (cases op) auto

lemma Parse_round:
  assumes "round info qm op body" "int (length body) + MsgHeaderLen \<le> MaxMessageSize" "hOpCode h = op_code op"
    and "sint (MessageLength h) = int (length body) + MsgHeaderLen" "ResponseTo h = 0"
  shows "Parse dc \<lparr>Header = h, Body = header_bytes h @ body\<rparr> =
    Inr (Some (set_header h op), \<lparr>Header = h, Body = header_bytes h @ body\<rparr>)"
proof -
  obtain op0 op1 where o: "newOp h = Some op0" "Op_FromReader op0 body = Inr (op1, [])"
    "maybeChangeOpToGetMore op1 = Inr (set_header h op)"
    using assms(1-4) unfolding round_def by auto
  have nc: "hOpCode h \<noteq> OpCodeCompressed" using o(1) by (auto simp: newOp_def opcode_defs split: if_splits)
  have rt: "ResponseTo (mHeader m) = 0" if "set_header h op = OpMsg m" for m
    using set_header_reply [OF that] assms(5) by simp
  show ?thesis
    using o nc rt by (auto simp: Parse_def decompressed_def split: Op.splits)
qed

lemma sint_sent_length:
  "int (length body) + MsgHeaderLen \<le> MaxMessageSize \<Longrightarrow>
   sint (word_of_nat (length body + 16) :: int32) = int (length body) + MsgHeaderLen"
  using sint_word_of_nat [of "length body + 16"] by (simp add: size_bound)

text \<open>
  C1. Operations survive the wire: every operation that the program can read, of each of the
  kinds, is serialized after any buffer, and its bytes, when they are no longer than a message
  may be, are parsed back by \<open>RawOp.Parse\<close> as the same operation under the header they begin
  with. Getmore commands come back as the operations whose cursors can be rewritten.
\<close>

theorem Parse_serialize:
  assumes "op_ok info qm op"
  shows "\<exists>b. (\<forall>buf. serialize info qm buf op = Inr (buf @ b)) \<and>
    (int (length b) \<le> MaxMessageSize \<longrightarrow>
       FromWire b = Inr (sent_header op (length b)) \<and>
       Parse dc \<lparr>Header = sent_header op (length b), Body = b\<rparr> =
         Inr (Some (set_header (sent_header op (length b)) op), \<lparr>Header = sent_header op (length b), Body = b\<rparr>))"
proof -
  obtain body where r: "round info qm op body" using op_round [OF assms] ..
  let ?h = "sent_header op (length body + 16)"
  have l: "length (header_bytes ?h @ body) = length body + 16" by simp
  have "Parse dc \<lparr>Header = ?h, Body = header_bytes ?h @ body\<rparr> =
      Inr (Some (set_header ?h op), \<lparr>Header = ?h, Body = header_bytes ?h @ body\<rparr>)"
    if "int (length body) + MsgHeaderLen \<le> MaxMessageSize"
    using that sint_sent_length [OF that] by (intro Parse_round [OF r that]) (simp_all add: sent_header_def zeroHeader_def)
  then show ?thesis
    using serialize_round [OF r] l
    by (intro exI [of _ "header_bytes ?h @ body"] conjI allI impI) (simp_all only: l FromWire_header_bytes, simp add: MsgHeaderLen_def)
qed

subsection \<open>Reading any bytes\<close>

text \<open>
  \<open>faults P r\<close>: the only faults of the result, errors apart, are those of \<open>P\<close>.
\<close>

definition faults :: "(fault \<Rightarrow> bool) \<Rightarrow> 'a res \<Rightarrow> bool" where
  "faults P r \<longleftrightarrow> (case r of Inl (Error _) \<Rightarrow> True | Inl f \<Rightarrow> P f | Inr _ \<Rightarrow> True)"

lemma faults_simps [simp]:
  "faults P (Inr x)" "faults P (Inl (Error e))" "faults P (Inl (Panic s)) \<longleftrightarrow> P (Panic s)"
  "faults P (Inl Hang) \<longleftrightarrow> P Hang"
  by (simp_all add: faults_def)

lemma faults_rbind: "faults P r \<Longrightarrow> (\<And>x. r = Inr x \<Longrightarrow> faults P (f x)) \<Longrightarrow> faults P (rbind r f)"
  by (cases r) (auto simp: faults_def split: fault.splits)

lemma faults_rdbind:
  "faults P (p r) \<Longrightarrow> (\<And>x r'. p r = Inr (x, r') \<Longrightarrow> faults P (f x r')) \<Longrightarrow> faults P (rdbind p f r)"
  unfolding rdbind_def by (rule faults_rbind) auto

lemma faults_no_panic: "no_panic r \<Longrightarrow> faults P r"
  by (auto simp: no_panic_def faults_def split: sum.splits fault.splits)

lemma no_panic_faults: "faults (\<lambda>_. False) r \<longleftrightarrow> no_panic r"
  by (auto simp: no_panic_def faults_def split: sum.splits fault.splits)

lemma no_panic_Unmarshal [simp, intro]: "no_panic (Unmarshal t old d)"
  by (rule Unmarshal_total)

lemma no_panic_rdlift [intro]: "no_panic x \<Longrightarrow> no_panic (rdlift x r)"
  unfolding rdlift_def by auto

lemma getInt_no_panic:
  "pos + 4 \<le> length b \<Longrightarrow> no_panic (getInt32 b pos)" "pos + 8 \<le> length b \<Longrightarrow> no_panic (getInt64 b pos)"
  by (simp_all add: getInt32_def getInt64_def)

lemma readFull_len: "readFull n r = Inr (b, r') \<Longrightarrow> length b = n"
  by (simp add: readFull_Inr_iff)

lemma readInt32From_no_panic [simp, intro]: "no_panic (readInt32From r)"
  unfolding readInt32From_def
  by (intro no_panic_rdbind no_panic_readFull no_panic_rdlift getInt_no_panic) (auto dest: readFull_len)

lemma readCollection_no_panic [simp, intro]: "no_panic (readCollection r)"
  unfolding readCollection_def by (intro no_panic_rdbind) auto

lemma readRaw_no_panic [simp, intro]: "no_panic (readRaw r)" "no_panic (readD r)"
  unfolding readRaw_def readD_def by (intro no_panic_rdbind no_panic_rdlift ReadDoc_no_panic no_panic_Unmarshal)+

lemma readFull_raw_shorter:
  "readFull_raw n r = (x, r') \<Longrightarrow> length r' \<le> length r \<and> (0 < n \<and> r \<noteq> [] \<longrightarrow> length r' < length r)"
  by (auto simp: readFull_raw_def split: if_splits)

lemma ReadDocument_shorter:
  assumes "ReadDocument r = Inr ((d, e), r')"
  shows "length r' \<le> length r \<and> (r \<noteq> [] \<longrightarrow> length r' < length r)"
proof -
  obtain s e1 r1 where a: "readFull_raw 4 r = ((s, e1), r1)" by (metis surj_pair)
  have l1: "length r1 \<le> length r \<and> (r \<noteq> [] \<longrightarrow> length r1 < length r)"
    using readFull_raw_shorter [OF a] by simp
  show ?thesis
  proof (cases e1)
    case (Some x)
    with assms a l1 show ?thesis by (simp add: ReadDocument_def)
  next
    case None
    with assms a obtain z where z: "getInt32 s 0 = Inr z"
      by (auto simp: ReadDocument_def rbind_eq_Inr)
    obtain y r2 where b: "readFull_raw (nat (sint z) - 4) r1 = (y, r2)" by (metis surj_pair)
    have "length r2 \<le> length r1" using readFull_raw_shorter [OF b] by simp
    with assms None a b z l1 show ?thesis
      by (cases y) (auto simp: ReadDocument_def Let_def split: if_splits)
  qed
qed

lemma ReadDoc_shorter: "ReadDoc r = Inr (d, r') \<Longrightarrow> length r' + 5 \<le> length r"
  using ReadDoc_Inr [of r d r'] by (auto simp: sized_doc_def)

lemma docs_loop_no_panic: "length r < n \<Longrightarrow> no_panic (docs_loop n docs r)"
proof (induction n arbitrary: docs r)
  case (Suc n)
  obtain d e r' where rd: "ReadDocument r = Inr ((d, e), r')" using ReadDocument_total by blast
  have "no_panic (docs_loop n ds r')" if "d \<noteq> []" for ds
  proof (cases "r = []")
    case True
    with rd that show ?thesis by (simp add: ReadDocument_Nil)
  next
    case False
    with ReadDocument_shorter [OF rd] Suc.prems show ?thesis by (intro Suc.IH) auto
  qed
  then show ?case using rd by (auto split: option.split)
qed simp

lemma Unmarshal_D_Nil: "\<exists>e. Unmarshal TD (GD []) [] = Inl (Error e)"
  by (simp add: Unmarshal_def readDocElems_def readDocWith_def docFrame_def readInt32_def readBytes_def
      handleErr_def rmap_def)

lemma insert_loop_no_panic:
  assumes "length r < n"
  shows "no_panic (insert_loop n nread msgLen docs r)"
  using assms
proof (induction n arbitrary: nread docs r)
  case (Suc n)
  obtain d e r' where rd: "ReadDocument r = Inr ((d, e), r')" using ReadDocument_total by blast
  show ?case
  proof (cases "r = []")
    case True
    then have "d = []" using rd by (simp add: ReadDocument_Nil)
    then show ?thesis using rd Unmarshal_D_Nil by auto
  next
    case False
    then have "length r' < n" using ReadDocument_shorter [OF rd] Suc.prems by auto
    then show ?thesis using rd Suc.IH by auto
  qed
qed simp

lemma inputDocs_loop_no_panic: "inputDocs_loop n nread msgLen docs r \<noteq> Inl (Panic s)"
proof (induction n arbitrary: nread docs r)
  case (Suc n)
  obtain d e r' where rd: "ReadDocument r = Inr ((d, e), r')" using ReadDocument_total by blast
  with Suc.IH show ?case by (auto simp: Unmarshal_def)
qed simp

lemma payload1_loop_no_panic: "length r < n \<Longrightarrow> no_panic (payload1_loop n sz offset docs r)"
proof (induction n arbitrary: offset docs r)
  case (Suc n)
  have "no_panic (rdbind ReadDoc (\<lambda>d. rdbind (rdlift (Unmarshal TRaw (GRaw 0 []) d)) (\<lambda>doc.
      payload1_loop n sz (offset + int (length d)) (docs @ [doc]))) r)"
  proof (rule no_panic_rdbind)
    fix d r' assume "ReadDoc r = Inr (d, r')"
    then have "length r' < n" using ReadDoc_shorter Suc.prems by fastforce
    then show "no_panic (rdbind (rdlift (Unmarshal TRaw (GRaw 0 []) d)) (\<lambda>doc.
        payload1_loop n sz (offset + int (length d)) (docs @ [doc])) r')"
      by (simp add: Unmarshal_def rdbind_app Suc.IH)
  qed simp
  then show ?case by simp
qed simp

lemma cursor_ids_loop_no_panic: "no_panic (cursor_ids_loop n ids r)"
proof (induction n arbitrary: ids r)
  case (Suc n)
  obtain b e r' where b: "readFull_raw 8 r = ((b, e), r')" by (metis surj_pair)
  show ?case
  proof (cases e)
    case None
    then have "length b = 8" using b by (auto simp: readFull_raw_def split: if_splits)
    then show ?thesis using b None Suc.IH getInt_no_panic(2) [of 0 b] by auto
  qed (use b in simp)
qed simp

lemma no_panic_rdret [simp, intro]: "no_panic (rdret x r)"
  by simp

lemma no_panic_Let_if: "(b \<Longrightarrow> no_panic x) \<Longrightarrow> (\<not> b \<Longrightarrow> no_panic y) \<Longrightarrow> no_panic (if b then x else y)"
  by simp

lemmas op_intros = no_panic_rdbind no_panic_rdlift no_panic_rdret readInt32From_no_panic
  readCollection_no_panic readRaw_no_panic ReadDoc_no_panic no_panic_Unmarshal no_panic_readFull
  readCStringFromReader_no_panic getInt_no_panic

lemma QueryOp_no_panic: "no_panic (QueryOp_FromReader op r)"
  unfolding QueryOp_FromReader_def Let_def
  by (intro op_intros) (auto dest: readFull_len intro!: op_intros)

lemma GetMoreOp_no_panic: "no_panic (GetMoreOp_FromReader op r)"
  unfolding GetMoreOp_FromReader_def by (intro op_intros) (auto dest: readFull_len)

lemma ReplyOp_no_panic: "no_panic (ReplyOp_FromReader op r)"
  unfolding ReplyOp_FromReader_def
  by (intro op_intros docs_loop_no_panic) (auto dest: readFull_len)

lemma InsertOp_no_panic: "no_panic (InsertOp_FromReader op r)"
  unfolding InsertOp_FromReader_def by (intro op_intros insert_loop_no_panic) auto

lemma UpdateOp_no_panic: "no_panic (UpdateOp_FromReader op r)"
  unfolding UpdateOp_FromReader_def by (intro op_intros)

lemma DeleteOp_no_panic: "no_panic (DeleteOp_FromReader op r)"
  unfolding DeleteOp_FromReader_def by (intro op_intros)

lemma KillCursorsOp_no_panic: "no_panic (KillCursorsOp_FromReader op r)"
  unfolding KillCursorsOp_FromReader_def
  by (intro op_intros cursor_ids_loop_no_panic) (auto dest: readFull_len)

lemma CommandReplyOp_no_panic: "no_panic (CommandReplyOp_FromReader op r)"
  unfolding CommandReplyOp_FromReader_def by (intro op_intros docs_loop_no_panic) auto

lemma CommandOp_faults: "faults (\<lambda>f. f = Hang) (CommandOp_FromReader op r)"
  unfolding CommandOp_FromReader_def Let_def
  by (intro faults_rdbind; (rule faults_no_panic, intro op_intros)?)
    (auto simp: faults_def inputDocs_loop_no_panic split: sum.splits fault.splits)

subsection \<open>Messages\<close>

lemma readPayloadType1_no_panic: "no_panic (readPayloadType1 r)"
  unfolding readPayloadType1_def Let_def
  by (intro op_intros payload1_loop_no_panic) (auto split: prod.split)

lemma readSection_no_panic: "no_panic (readSection r)"
  unfolding readSection_def
  by (intro no_panic_rdbind no_panic_readFull)
    (auto intro!: op_intros readPayloadType1_no_panic split: prod.split)

text \<open>No reader gives back more input than it was given.\<close>

definition shrinks :: "'a reader \<Rightarrow> bool" where
  "shrinks p \<longleftrightarrow> (\<forall>r x r'. p r = Inr (x, r') \<longrightarrow> length r' \<le> length r)"

lemma shrinksD: "shrinks p \<Longrightarrow> p r = Inr (x, r') \<Longrightarrow> length r' \<le> length r"
  by (auto simp: shrinks_def)

lemma shrinks_rdbind: "shrinks p \<Longrightarrow> (\<And>x. shrinks (f x)) \<Longrightarrow> shrinks (rdbind p f)"
  unfolding shrinks_def rdbind_def by (fastforce simp: rbind_eq_Inr)

lemma shrinks_rdlift: "shrinks (rdlift x)"
  by (auto simp: shrinks_def rdlift_def rbind_eq_Inr)

lemma shrinks_basic: "shrinks (readFull n)" "shrinks (rdret x)" "shrinks (rdfail e)" "shrinks ReadDoc"
    "shrinks readCStringFromReader"
  by (auto simp: shrinks_def readFull_Inr_iff dest!: ReadDoc_shorter readCStringFromReader_Inr)

lemma shrinks_if: "shrinks p \<Longrightarrow> shrinks q \<Longrightarrow> shrinks (if b then p else q)"
  by simp

lemma shrinks_prod: "(\<And>x y. shrinks (f x y)) \<Longrightarrow> shrinks (case p of (x, y) \<Rightarrow> f x y)"
  by (cases p) simp

lemmas shrinks_intros = shrinks_rdbind shrinks_rdlift shrinks_basic shrinks_if shrinks_prod

lemma shrinks_readInt32From: "shrinks readInt32From"
  unfolding readInt32From_def by (intro shrinks_intros)

lemma shrinks_payload1_loop: "shrinks (payload1_loop n sz offset docs)"
proof (induction n arbitrary: offset docs)
  case (Suc n)
  have "shrinks (rdbind ReadDoc (\<lambda>d. rdbind (rdlift (Unmarshal TRaw (GRaw 0 []) d)) (\<lambda>doc.
      payload1_loop n sz (offset + int (length d)) (docs @ [doc]))))"
    by (intro shrinks_intros Suc.IH)
  then show ?case by (auto simp: shrinks_def)
qed (simp add: shrinks_def)

lemma shrinks_payload1: "shrinks (\<lambda>r. payload1_loop (Suc (length r)) sz offset docs r)"
  using shrinks_payload1_loop by (auto simp: shrinks_def simp del: payload1_loop.simps)

lemma shrinks_section_body:
  "shrinks ((\<lambda>buf. if hd buf = MsgPayload0 then
         rdbind ReadDoc (\<lambda>docAsSlice.
         rdbind (rdlift (Unmarshal TRaw (GRaw 0 []) docAsSlice)) (\<lambda>doc.
           rdret ((MsgPayload0, DocData doc), 1 + int (length docAsSlice))))
       else if hd buf = MsgPayload1 then
         rdbind readPayloadType1 (\<lambda>(payload, len).
           rdret ((MsgPayload1, payload), 1 + len))
       else rdfail (Error (Errorf ''unknown payload type: %d'' [uint (hd buf)]))) buf)"
  unfolding readPayloadType1_def Let_def
  by (intro shrinks_intros shrinks_readInt32From shrinks_payload1)

lemma readSection_shorter:
  assumes "readSection r = Inr (x, r')"
  shows "length r' < length r"
proof -
  obtain b r1 where b: "readFull 1 r = Inr (b, r1)"
    using assms by (auto simp: readSection_def rdbind_app rbind_eq_Inr)
  then have "length r1 < length r" by (auto simp: readFull_Inr_iff)
  moreover have "length r' \<le> length r1"
    using assms b shrinksD [OF shrinks_section_body, of b r1 x r'] by (simp add: readSection_def rdbind_app [where p = "readFull (Suc 0)"])
  ultimately show ?thesis by linarith
qed

lemma sections_loop_no_panic: "length r < n \<Longrightarrow> no_panic (sections_loop n msgLen ck offset ss r)"
proof (induction n arbitrary: offset ss r)
  case (Suc n)
  have "no_panic (rdbind readSection (\<lambda>(section, len).
          sections_loop n msgLen ck (offset + len) (ss @ [section])) r)"
  proof (rule no_panic_rdbind [OF readSection_no_panic])
    fix x r' assume "readSection r = Inr (x, r')"
    then have "length r' < n" using readSection_shorter Suc.prems by fastforce
    then show "no_panic ((case x of (section, len) \<Rightarrow> sections_loop n msgLen ck (offset + len) (ss @ [section])) r')"
      by (auto intro: Suc.IH split: prod.split)
  qed
  then show ?case by simp
qed simp


lemma fetchPayload0Data_no_panic: "no_panic (fetchPayload0Data_loop i ss)"
  by (induction i ss rule: fetchPayload0Data_loop.induct) (auto split: sectionData.split)

lemma unmarshal_of_faults: "faults (\<lambda>_. False) (unmarshal_of t old (GRaw k d))"
  using Raw_Unmarshal_total by (auto intro: faults_no_panic)

text \<open>The raw documents of an \<open>OP_MSG\<close> are raw indeed, so that decoding one is no conversion.\<close>

definition raw_sections :: "MsgSection list \<Rightarrow> bool" where
  "raw_sections ss \<longleftrightarrow> (\<forall>(ty, d)\<in>set ss. \<forall>v. d = DocData v \<longrightarrow> (\<exists>k b. v = GRaw k b))"

lemma fetchPayload0Data_raw:
  "fetchPayload0Data_loop i ss = Inr (v, j) \<Longrightarrow> raw_sections ss \<Longrightarrow> \<exists>k b. v = GRaw k b"
  by (induction i ss rule: fetchPayload0Data_loop.induct)
    (auto simp: raw_sections_def split: if_splits sectionData.splits)

lemma getDB_no_panic:
  assumes "raw_sections (mSections op)"
  shows "no_panic (getDB op)"
proof -
  have "no_panic (unmarshal_of t old v)" if "fetchPayload0Data (mSections op) = Inr (v, j)" for t old v j
    using fetchPayload0Data_raw [OF that [unfolded fetchPayload0Data_def] assms] Raw_Unmarshal_total by auto
  then show ?thesis
    using fetchPayload0Data_no_panic
    by (auto simp: getDB_def fetchPayload0Data_def Let_def split: prod.split intro!: no_panic_rbind)
qed

lemma getCommandName_faults: "faults (\<lambda>f. f = index_panic) (getCommandName op)"
proof -
  have "faults (\<lambda>f. f = index_panic) (fetchPayload0Data (mSections op))"
    using fetchPayload0Data_no_panic by (auto simp: fetchPayload0Data_def intro: faults_no_panic)
  then show ?thesis
    unfolding getCommandName_def
    by (simp, intro impI faults_rbind) (auto simp: Let_def split: prod.split goval.split list.split)
qed

lemma getCommandName_sections: "getCommandName op = Inr (n, op') \<Longrightarrow> mSections op' = mSections op"
  by (auto simp: getCommandName_def rbind_eq_Inr Let_def split: if_splits goval.splits list.splits sum.splits prod.splits)

lemma readSection_raw: "readSection r = Inr ((s, n), r') \<Longrightarrow> raw_sections [s]"
  by (auto simp: readSection_def rdbind_app rbind_eq_Inr raw_sections_def Unmarshal_def readPayloadType1_def Let_def
      simp del: payload1_loop.simps split: if_splits prod.splits)

lemma sections_loop_raw:
  "sections_loop n msgLen ck offset ss r = Inr (ss', r') \<Longrightarrow> raw_sections ss \<Longrightarrow> raw_sections ss'"
proof (induction n arbitrary: offset ss r)
  case (Suc n)
  show ?case
  proof (cases "msgLen - (offset + ck + MsgHeaderLen) > 0")
    case True
    with Suc.prems obtain s len r1 where "readSection r = Inr ((s, len), r1)"
      "sections_loop n msgLen ck (offset + len) (ss @ [s]) r1 = Inr (ss', r')"
      by (auto simp: rdbind_app rbind_eq_Inr)
    moreover have "raw_sections (ss @ [s])"
      using readSection_raw calculation(1) Suc.prems(2) by (auto simp: raw_sections_def)
    ultimately show ?thesis using Suc.IH by blast
  qed (use Suc.prems in auto)
qed simp


lemma MsgOp_faults:
  assumes "mSections op = []"
  shows "faults (\<lambda>f. f = index_panic) (MsgOp_FromReader op r)"
  unfolding MsgOp_FromReader_def Let_def
proof (intro faults_rdbind)
  fix flags r1 ss r2 ck r3 x r4
  assume s: "sections_loop (Suc (length r1)) (sint (MessageLength (mHeader op)))
      (if flags AND MsgFlagChecksumPresent \<noteq> 0 then 4 else 0) 4 (mSections op) r1 = Inr (ss, r2)"
  let ?op = "op\<lparr>mFlags := flags, mSections := ss, mChecksum := ck\<rparr>"
  assume "rdlift (getCommandName ?op) r3 = Inr (x, r4)"
  then have x: "getCommandName ?op = Inr x" by (cases "getCommandName ?op") (auto simp: rdlift_def)
  have "raw_sections ss"
    using sections_loop_raw [OF s] assms by (simp add: raw_sections_def)
  then have "no_panic (getDB (snd x))"
    using getCommandName_sections [of ?op "fst x" "snd x"] x getDB_no_panic by auto
  then show "faults (\<lambda>f. f = index_panic)
      ((case x of (_, op) \<Rightarrow> rdbind (rdlift (getDB op)) (\<lambda>(_, op). rdret op)) r4)"
    by (cases x) (auto intro!: faults_no_panic no_panic_rdbind no_panic_rdlift)
next
  fix flags r1 ss r2 ck r3
  show "faults (\<lambda>f. f = index_panic)
      (rdlift (getCommandName (op\<lparr>mFlags := flags, mSections := ss, mChecksum := ck\<rparr>)) r3)"
    using getCommandName_faults by (simp add: rdlift_def faults_rbind)
qed (auto intro!: faults_no_panic sections_loop_no_panic simp del: sections_loop.simps)

fun op_sections :: "Op \<Rightarrow> MsgSection list" where
  "op_sections (OpMsg op) = mSections op"
| "op_sections (OpMsgGetMore op _) = mSections op"
| "op_sections (OpMsgReply op) = mSections (mrOp op)"
| "op_sections _ = []"

text \<open>
  C28. Reading an operation from any bytes ends with an operation or an error. The exceptions
  are the two that the code has: \<open>OP_COMMAND\<close> may loop for ever, and \<open>OP_MSG\<close> may panic with
  an index out of range, which both happen (\<open>CommandOp_truncated\<close> and the witness below).
\<close>

theorem FromReader_faults:
  assumes "op_sections op = []"
  shows "faults (\<lambda>f. f = Hang \<and> op_code op = OpCodeCommand \<or> f = index_panic \<and> op_code op = OpCodeMessage)
    (Op_FromReader op r)"
proof -
  have msg: "faults (\<lambda>f. f = index_panic) (MsgOp_FromReader m r)" if "mSections m = []" for m
    using MsgOp_faults [OF that] .
  show ?thesis
    using assms
    by (cases op)
      (auto intro!: faults_rdbind CommandOp_faults msg faults_no_panic [OF QueryOp_no_panic]
        faults_no_panic [OF GetMoreOp_no_panic] faults_no_panic [OF ReplyOp_no_panic]
        faults_no_panic [OF InsertOp_no_panic] faults_no_panic [OF UpdateOp_no_panic]
        faults_no_panic [OF DeleteOp_no_panic] faults_no_panic [OF KillCursorsOp_no_panic]
        faults_no_panic [OF CommandReplyOp_no_panic] simp: opcode_defs)
qed

subsection \<open>Input that ends too early\<close>

lemma inputDocs_loop_Nil: "nread < msgLen - MsgHeaderLen \<Longrightarrow> inputDocs_loop n nread msgLen docs [] = Inl Hang"
  by (induction n arbitrary: docs) (simp_all add: ReadDocument_Nil Unmarshal_def)

text \<open>The fuel \<open>length r\<close> decides: more of it changes nothing.\<close>

lemma inputDocs_loop_fuel:
  "length r \<le> n \<Longrightarrow> length r \<le> m \<Longrightarrow>
     inputDocs_loop n nread msgLen docs r = inputDocs_loop m nread msgLen docs r"
proof (induction "length r" arbitrary: n m nread docs r rule: less_induct)
  case less
  show ?case
  proof (cases "nread < msgLen - MsgHeaderLen")
    case False
    then show ?thesis by (cases n; cases m) simp_all
  next
    case True
    show ?thesis
    proof (cases "r = []")
      case False
      then obtain n' m' where nm: "n = Suc n'" "m = Suc m'" using less.prems by (cases n; cases m) auto
      obtain d e r' where rd: "ReadDocument r = Inr ((d, e), r')" using ReadDocument_total by blast
      have "length r' < length r" using ReadDocument_shorter [OF rd] False by blast
      then have "inputDocs_loop n' nr msgLen ds r' = inputDocs_loop m' nr msgLen ds r'" for nr ds
        using less.prems nm by (intro less.hyps) auto
      then show ?thesis using True nm rd by (auto simp: Unmarshal_def)
    qed (simp only: inputDocs_loop_Nil [OF True])
  qed
qed

text \<open>
  An \<open>OP_COMMAND\<close> whose bytes end right after the metadata, before the announced length, hangs
  \<open>FromReader\<close>: the loop over the input documents makes no progress, whatever the fuel.
\<close>

theorem CommandOp_truncated:
  assumes "nul_free db" "nul_free name" "sized_doc args" "sized_doc meta"
    and "b = raw db @ 0 # raw name @ 0 # args @ meta"
    and "int (length b) + MsgHeaderLen < sint (MessageLength (cHeader op))"
  shows "CommandOp_FromReader op b = Inl Hang \<and>
    (\<forall>fuel. inputDocs_loop fuel (int (length b)) (sint (MessageLength (cHeader op))) [] [] = Inl Hang)"
proof -
  have l: "int (length b) = int (length db) + 1 + int (length name) + 1 + int (length args) + int (length meta)"
    using assms(5) by simp
  have h: "inputDocs_loop fuel (int (length b)) (sint (MessageLength (cHeader op))) [] [] = Inl Hang" for fuel
    using assms(6) by (intro inputDocs_loop_Nil) linarith
  have m: "ReadDoc meta = Inr (meta, [])" using ReadDoc_sized [OF assms(4), of "[]"] by simp
  have "CommandOp_FromReader op b = Inl Hang"
    using assms(1-4,6) m
    by (simp add: assms(5) CommandOp_FromReader_def rdbind_app Let_def Unmarshal_def inputDocs_loop_Nil
        del: inputDocs_loop.simps)
  with h show ?thesis by blast
qed

subsection \<open>Kinds of queries\<close>

lemma extractOpType_kinds:
  "extractOpType x = Inr (t, c) \<Longrightarrow> t \<in> {''insert'', ''update'', ''delete'', ''command''}"
  by (auto simp: extractOpType_def extractOpType_map_def write_kind_def Let_def
      split: goval.splits sum.splits option.splits if_splits)

text \<open>
  A query document such as \<open>{find: ...}\<close> is a read for the reader of the traffic, but
  \<open>extractOpType\<close> calls every command that does not write \<open>command\<close>: \<open>IsReadOp\<close> of a query
  is never true, and an insert counts as a read.
\<close>

theorem IsReadOp_query:
  "IsReadOp (OpQuery q) \<noteq> Inr True \<and> IsReadOp (OpInsert i) = Inr True \<and>
   IsWriteOp (OpUpdate u) = Inr False \<and> IsWriteOp (OpDelete d) = Inr False"
proof -
  have "IsReadOp (OpQuery q) \<noteq> Inr True"
  proof
    assume "IsReadOp (OpQuery q) = Inr True"
    then obtain t c where "extractOpType (qQuery q) = Inr (t, c)" "t \<in> {''find'', ''aggregate'', ''get_more''}"
      by (auto simp: IsReadOp_def rbind_eq_Inr)
    with extractOpType_kinds show False by fastforce
  qed
  then show ?thesis by (simp add: IsReadOp_def IsWriteOp_def)
qed

subsection \<open>Examples\<close>

definition ex_update :: Op where
  "ex_update = OpUpdate \<lparr>uHeader = zeroHeader, uFlags = 1, uCollection = ''db.c'', uSelector = ex_doc,
     uUpdate = GD [(''x'', GNil)]\<rparr>"

theorem Parse_serialize_witness:
  "\<exists>b. serialize None zeroQueryMode [] ex_update = Inr b \<and> length b = 93 \<and>
     Parse (\<lambda>_. Inl Hang) \<lparr>Header = sent_header ex_update 93, Body = b\<rparr> =
       Inr (Some (set_header (sent_header ex_update 93) ex_update), \<lparr>Header = sent_header ex_update 93, Body = b\<rparr>)"
proof -
  have x: "fits TM TD (GD [(''x'', GNil)])" by (auto intro!: fits.intros simp: nul_free_def raw_def)
  have "op_ok None zeroQueryMode ex_update"
    using ex_doc_fits x by (auto simp: ex_update_def doc_ok_def nul_free_def raw_def)
  from Parse_serialize [OF this, of "\<lambda>_. Inl Hang"] obtain b where
    b: "serialize None zeroQueryMode [] ex_update = Inr b"
      "int (length b) \<le> MaxMessageSize \<longrightarrow>
       Parse (\<lambda>_. Inl Hang) \<lparr>Header = sent_header ex_update (length b), Body = b\<rparr> =
         Inr (Some (set_header (sent_header ex_update (length b)) ex_update),
           \<lparr>Header = sent_header ex_update (length b), Body = b\<rparr>)"
    by (metis append_Nil)
  obtain b0 where b0: "Marshal ex_doc = Inr b0" "length b0 = 56" using ex_doc_bytes by blast
  have "length b = 93"
    using b(1) b0
    by (auto simp: serialize_def ex_update_def addBSON_def ex_doc_def [THEN arg_cong, where f = "\<lambda>v. v = GNil"]
        rbind_eq_Inr SetInt32_def Let_def Marshal_def [of "GD [(''x'', GNil)]"] handleErr_def docBytes_def sized_def
        elemName_def addCStr_def code_header_def split: if_splits)
  with b show ?thesis by (auto simp: MaxMessageSize_def)
qed

theorem CommandOp_truncated_witness:
  "CommandOp_FromReader \<lparr>cHeader = zeroHeader\<lparr>MessageLength := 100\<rparr>, cDatabase = [], cCommandName = [],
      cMetadata = GNil, cCommandArgs = GNil, cInputDocs = []\<rparr>
    [100, 0, 99, 0, 5, 0, 0, 0, 0, 5, 0, 0, 0, 0] = Inl Hang"
proof -
  have d: "sized_doc [5, 0, 0, 0, 0]"
    by (simp add: sized_doc_def maximumDocumentSize_def getInt32_def le32_def)
  have n: "nul_free ''d''" "nul_free ''c''" "raw ''d'' = [100]" "raw ''c'' = [99]"
    by (simp_all add: nul_free_def raw_def)
  show ?thesis
    using CommandOp_truncated [OF n(1,2) d d refl, of "\<lparr>cHeader = zeroHeader\<lparr>MessageLength := 100\<rparr>,
      cDatabase = [], cCommandName = [], cMetadata = GNil, cCommandArgs = GNil, cInputDocs = []\<rparr>"]
    by (simp add: n(3,4) MsgHeaderLen_def)
qed

theorem FromReader_faults_witness:
  "MsgOp_FromReader \<lparr>mHeader = zeroHeader\<lparr>MessageLength := 26\<rparr>, mFlags = 0, mSections = [], mChecksum = 0,
      mCommandName = [], mDatabase = []\<rparr> [0, 0, 0, 0, 0, 5, 0, 0, 0, 0] = Inl index_panic \<and>
   faults (\<lambda>f. f = Hang \<and> op_code ex_update = OpCodeCommand \<or> f = index_panic \<and> op_code ex_update = OpCodeMessage)
     (Op_FromReader ex_update [])"
proof -
  have "op_sections ex_update = []" by (simp add: ex_update_def)
  note safe = FromReader_faults [OF this, of "[]"]
  have "MsgOp_FromReader \<lparr>mHeader = zeroHeader\<lparr>MessageLength := 26\<rparr>, mFlags = 0, mSections = [], mChecksum = 0,
      mCommandName = [], mDatabase = []\<rparr> [0, 0, 0, 0, 0, 5, 0, 0, 0, 0] = Inl index_panic"
    by code_simp
  with safe show ?thesis by blast
qed

end
