(* ===== verification/Socket_Correct.thy ===== *)
theory Socket_Correct
  imports Socket Ops_Correct
begin

text \<open>
  What a connection guarantees: the operations of a \<open>Query\<close> go out in order, whole, each with its
  own request id, under which its reply function waits; a reply reaches the function of the
  request it answers and no other; and when the connection ends the functions that still wait
  are told, but for one whose reply was being read.
\<close>

subsection \<open>Sending\<close>

fun request_ids :: "uint32 \<Rightarrow> 'f request list \<Rightarrow> uint32 list" where
  "request_ids n [] = []"
| "request_ids n (r # rs) =
     (if replyFn r = None then 0 # request_ids n rs else n # request_ids (n + 1) rs)"

fun waiting :: "uint32 \<Rightarrow> 'f request list \<Rightarrow> (uint32 \<times> 'f) list" where
  "waiting n [] = []"
| "waiting n (r # rs) =
     (case replyFn r of None \<Rightarrow> waiting n rs | Some f \<Rightarrow> (n, f) # waiting (n + 1) rs)"

text \<open>The bytes of a request with its id, and the places of those that wait in a buffer.\<close>

definition request_bytes :: "'f request \<Rightarrow> uint32 \<Rightarrow> bytes \<Rightarrow> bytes" where
  "request_bytes r k body =
     header_bytes ((sent_header (reqOp r) (length body + 16))\<lparr>RequestID := k\<rparr>) @ body"

definition unnumbered :: "'f request \<Rightarrow> bytes \<Rightarrow> bytes" where
  "unnumbered r body = header_bytes (sent_header (reqOp r) (length body + 16)) @ body"

fun positions :: "nat \<Rightarrow> 'f request list \<Rightarrow> bytes list \<Rightarrow> (nat \<times> 'f) list" where
  "positions k (r # rs) (b # bs) =
     (case replyFn r of None \<Rightarrow> [] | Some f \<Rightarrow> [(k, f)]) @ positions (k + 16 + length b) rs bs"
| "positions k _ _ = []"

lemma length_request_bytes [simp]:
  "length (request_bytes r k body) = 16 + length body" "length (unnumbered r body) = 16 + length body"
  by (simp_all add: request_bytes_def unnumbered_def)

definition rounds :: "bool option \<Rightarrow> 'f request list \<Rightarrow> bytes list \<Rightarrow> bool" where
  "rounds info rs bodies \<longleftrightarrow> list_all2 (\<lambda>r. round info (reqMode r) (reqOp r)) rs bodies"

lemma serializeAll_rounds:
  assumes "rounds info rs bodies"
  shows "serializeAll info rs buf reqs =
    Inr (buf @ concat (map2 unnumbered rs bodies), reqs @ positions (length buf) rs bodies)"
  using assms unfolding rounds_def
proof (induction arbitrary: buf reqs rule: list_all2_induct)
  case (Cons r rs b bs)
  then show ?case
    using serialize_round [OF Cons.hyps(1)]
    by (cases "replyFn r") (simp_all add: unnumbered_def ac_simps)
qed simp

lemma SetInt32_RequestID:
  "SetInt32 (pre @ header_bytes h @ rest) (length pre + 4) k = Inr (pre @ header_bytes (h\<lparr>RequestID := k\<rparr>) @ rest)"
  using SetInt32_append [where a = "pre @ enc32 (MessageLength h)" and pos = "length pre + 4" and d = "enc32 (RequestID h)"]
  by (simp add: header_bytes_def)

lemma unnumbered_zero: "unnumbered r body = request_bytes r 0 body"
  by (cases "sent_header (reqOp r) (length body + 16)")
    (simp add: unnumbered_def request_bytes_def sent_header_def zeroHeader_def)

lemma reserveIds_rounds:
  assumes "length rs = length bodies"
  shows "reserveIds (positions (length pre) rs bodies) k (pre @ concat (map2 unnumbered rs bodies)) fns =
    Inr (pre @ concat (map2 (\<lambda>(r, k) b. request_bytes r k b) (zip rs (request_ids k rs)) bodies),
         foldl (\<lambda>m (k, f). AList.update k f m) fns (waiting k rs))"
  using assms
proof (induction rs bodies arbitrary: pre k fns rule: list_induct2)
  case (Cons r rs b bs)
  show ?case
  proof (cases "replyFn r")
    case None
    then show ?thesis
      using Cons.IH [of "pre @ unnumbered r b" k fns] by (simp add: unnumbered_zero ac_simps)
  next
    case (Some f)
    have "SetInt32 (pre @ unnumbered r b @ rest) (length pre + 4) k = Inr (pre @ request_bytes r k b @ rest)" for rest
      using SetInt32_RequestID [where pre = pre and rest = "b @ rest"]
      by (simp add: unnumbered_def request_bytes_def)
    then show ?thesis
      using Some Cons.IH [of "pre @ request_bytes r k b" "k + 1" "AList.update k f fns"] by (simp add: ac_simps)
  qed
qed simp

lemma length_request_ids [simp]: "length (request_ids k rs) = length rs"
  by (induction rs arbitrary: k) auto

lemma length_positions: "length rs = length bodies \<Longrightarrow> length (positions k rs bodies) = length (waiting n rs)"
  by (induction rs bodies arbitrary: k n rule: list_induct2) (auto split: option.split)

lemma op_ok_rounds:
  "\<forall>r\<in>set rs. op_ok info (reqMode r) (reqOp r) \<Longrightarrow> \<exists>bodies. rounds info rs bodies"
proof (induction rs)
  case (Cons r rs)
  then obtain b bs where "round info (reqMode r) (reqOp r) b" "rounds info rs bs"
    using op_round by (metis list.set_intros)
  then show ?case by (intro exI [of _ "b # bs"]) (simp add: rounds_def)
qed (auto simp: rounds_def)

text \<open>The first id of a batch: 0 is kept for requests without a reply.\<close>

definition first_id :: "'f MongoSocket \<Rightarrow> uint32" where
  "first_id s = (if nextRequestId s + 1 = 0 then 1 else nextRequestId s + 1)"

lemma Query_rounds:
  assumes "dead s = None" "logout s = []" "rounds (serverInfo s) rs bodies"
  shows "Query write s rs =
    (let out = concat (map2 (\<lambda>(r, k) b. request_bytes r k b) (zip rs (request_ids (first_id s) rs)) bodies);
         w = waiting (first_id s) rs
     in Inr (write out,
          s\<lparr>nextRequestId := first_id s + word_of_nat (length w),
             replyFuncs := foldl (\<lambda>m (k, f). AList.update k f m) (replyFuncs s) w\<rparr>,
          [WriteDeadline, Written out] @ (if replyFuncs s = [] \<and> w \<noteq> [] then [ReadDeadline] else [])))"
proof -
  have l: "length rs = length bodies" using assms(3) by (simp add: rounds_def list_all2_lengthD)
  have p: "positions 0 rs bodies = [] \<longleftrightarrow> waiting k rs = []" "length (positions 0 rs bodies) = length (waiting k rs)" for k
    using length_positions [OF l, of 0 k] by auto
  have r: "reserveIds (positions 0 rs bodies) k (concat (map2 unnumbered rs bodies)) fns =
    Inr (concat (map2 (\<lambda>(r, k) b. request_bytes r k b) (zip rs (request_ids k rs)) bodies),
         foldl (\<lambda>m (k, f). AList.update k f m) fns (waiting k rs))" for k and fns :: "(uint32 \<times> 'a) list"
    using reserveIds_rounds [OF l, of "[]"] by simp
  show ?thesis
    using assms(1,2) serializeAll_rounds [OF assms(3), of "[]" "[]"] p
    by (simp add: Query_def flushLogout_def Let_def r first_id_def)
qed

lemma map_of_updates:
  "map_of (foldl (\<lambda>m (k, f). AList.update k f m) fns w) = map_of fns ++ map_of (rev w)"
  by (induction w arbitrary: fns) (auto simp: update_conv' map_add_def fun_eq_iff split: option.split)

lemma map_of_rev_distinct: "distinct (map fst w) \<Longrightarrow> map_of (rev w) = map_of w"
  by (subst map_of_inject_set) (simp_all add: rev_map [symmetric])

lemma waiting_keys:
  "map fst (waiting k rs) = map (\<lambda>i. k + word_of_nat i) [0..<length (waiting k rs)]"
proof (induction rs arbitrary: k)
  case (Cons r rs)
  show ?case
  proof (cases "replyFn r")
    case (Some f)
    have "map fst (waiting (k + 1) rs) = map (\<lambda>i. k + word_of_nat i) (map Suc [0..<length (waiting (k + 1) rs)])"
      unfolding Cons.IH by (simp add: ac_simps)
    then show ?thesis using Some by (simp add: map_Suc_upt upt_conv_Cons del: upt_Suc)
  qed (simp add: Cons.IH)
qed simp

lemma length_waiting: "length (waiting k rs) \<le> length rs"
  by (induction rs arbitrary: k) (auto split: option.split intro: le_SucI)

lemma distinct_waiting: "length rs < 2 ^ 32 \<Longrightarrow> distinct (map fst (waiting k rs))"
proof -
  assume l: "length rs < 2 ^ 32"
  have "inj_on (\<lambda>i. k + word_of_nat i) {0..<length (waiting k rs)}"
  proof (rule inj_onI)
    fix i j assume "i \<in> {0..<length (waiting k rs)}" "j \<in> {0..<length (waiting k rs)}"
      and e: "k + word_of_nat i = k + (word_of_nat j :: uint32)"
    then have "i < 2 ^ 32" "j < 2 ^ 32" using l length_waiting [of k rs] by auto
    moreover have "unat (word_of_nat i :: uint32) = unat (word_of_nat j :: uint32)" using e by simp
    ultimately show "i = j" by (simp add: unat_of_nat take_bit_nat_eq_self)
  qed
  then show ?thesis by (simp add: waiting_keys distinct_map)
qed

lemma request_ids_waiting:
  "i < length rs \<Longrightarrow> replyFn (rs ! i) = Some f \<Longrightarrow> (request_ids k rs ! i, f) \<in> set (waiting k rs)"
proof (induction rs arbitrary: i k)
  case (Cons r rs)
  then show ?case by (cases i) (auto split: option.split)
qed simp

lemma waiting_request_ids: "k' \<in> fst ` set (waiting k rs) \<Longrightarrow> k' \<in> set (request_ids k rs)"
  by (induction rs arbitrary: k) (auto split: option.splits)

text \<open>
  C4. What \<open>Query\<close> does on a live socket with operations that can be read back: the bytes it writes are
  one message for each operation, in order, each of which (when it is no longer than a message
  may be) is parsed back as that operation under a header with its request id; the table maps
  the id of each operation with a reply function to that function, and is unchanged elsewhere.
\<close>

theorem Query_sends:
  fixes s :: "'f MongoSocket"
  assumes "dead s = None" "logout s = []" "length rs < 2 ^ 32"
    and "\<forall>r\<in>set rs. op_ok (serverInfo s) (reqMode r) (reqOp r)"
  shows "\<exists>msgs s' evs. Query write s rs = Inr (write (concat msgs), s', evs) \<and>
    [b. Written b \<leftarrow> evs] = [concat msgs] \<and> length msgs = length rs \<and>
    (\<forall>i<length rs. int (length (msgs ! i)) \<le> MaxMessageSize \<longrightarrow>
       (\<exists>h. FromWire (msgs ! i) = Inr h \<and> RequestID h = request_ids (first_id s) rs ! i \<and>
          MessageLength h = word_of_nat (length (msgs ! i)) \<and>
          Parse dc \<lparr>Header = h, Body = msgs ! i\<rparr> =
            Inr (Some (set_header h (reqOp (rs ! i))), \<lparr>Header = h, Body = msgs ! i\<rparr>))) \<and>
    (\<forall>i<length rs. \<forall>f. replyFn (rs ! i) = Some f \<longrightarrow>
       map_of (replyFuncs s') (request_ids (first_id s) rs ! i) = Some f) \<and>
    (\<forall>k. k \<notin> set (request_ids (first_id s) rs) \<longrightarrow> map_of (replyFuncs s') k = map_of (replyFuncs s) k)"
proof -
  obtain bodies where b: "rounds (serverInfo s) rs bodies" using op_ok_rounds [OF assms(4)] ..
  have l: "length rs = length bodies" using b by (simp add: rounds_def list_all2_lengthD)
  let ?ids = "request_ids (first_id s) rs"
  let ?w = "waiting (first_id s) rs"
  define msgs where "msgs = map2 (\<lambda>(r, k) b. request_bytes r k b) (zip rs ?ids) bodies"
  define s' where "s' = s\<lparr>nextRequestId := first_id s + word_of_nat (length ?w),
      replyFuncs := foldl (\<lambda>m (k, f). AList.update k f m) (replyFuncs s) ?w\<rparr>"
  define evs :: "'f event list" where "evs = [WriteDeadline, Written (concat msgs)] @ (if replyFuncs s = [] \<and> ?w \<noteq> [] then [ReadDeadline] else [])"
  have q: "Query write s rs = Inr (write (concat msgs), s', evs)"
    using Query_rounds [OF assms(1,2) b] by (simp add: msgs_def s'_def evs_def Let_def)
  have lm: "length msgs = length rs" using l by (simp add: msgs_def)
  have m: "msgs ! i = request_bytes (rs ! i) (?ids ! i) (bodies ! i)" if "i < length rs" for i
    using that l by (simp add: msgs_def)
  have parse: "\<exists>h. FromWire (msgs ! i) = Inr h \<and> RequestID h = ?ids ! i \<and>
          MessageLength h = word_of_nat (length (msgs ! i)) \<and>
          Parse dc \<lparr>Header = h, Body = msgs ! i\<rparr> =
            Inr (Some (set_header h (reqOp (rs ! i))), \<lparr>Header = h, Body = msgs ! i\<rparr>)"
    if i: "i < length rs" and small: "int (length (msgs ! i)) \<le> MaxMessageSize" for i
  proof -
    let ?h = "(sent_header (reqOp (rs ! i)) (length (bodies ! i) + 16))\<lparr>RequestID := ?ids ! i\<rparr>"
    have r: "round (serverInfo s) (reqMode (rs ! i)) (reqOp (rs ! i)) (bodies ! i)"
      using b i by (simp add: rounds_def list_all2_conv_all_nth)
    have sm: "int (length (bodies ! i)) + MsgHeaderLen \<le> MaxMessageSize"
      using small i by (simp add: m MsgHeaderLen_def)
    have "Parse dc \<lparr>Header = ?h, Body = header_bytes ?h @ bodies ! i\<rparr> =
        Inr (Some (set_header ?h (reqOp (rs ! i))), \<lparr>Header = ?h, Body = header_bytes ?h @ bodies ! i\<rparr>)"
      using sint_sent_length [OF sm] by (intro Parse_round [OF r sm]) (simp_all add: sent_header_def zeroHeader_def)
    then show ?thesis
      using i by (intro exI [of _ ?h]) (simp add: m request_bytes_def sent_header_def ac_simps)
  qed
  have tab: "map_of (replyFuncs s') = map_of (replyFuncs s) ++ map_of ?w"
    using distinct_waiting [OF assms(3)] by (simp add: s'_def map_of_updates map_of_rev_distinct)
  have fns: "map_of (replyFuncs s') (?ids ! i) = Some f" if "i < length rs" "replyFn (rs ! i) = Some f" for i f
    using request_ids_waiting [OF that, of "first_id s"] distinct_waiting [OF assms(3)]
    by (simp add: tab map_add_def map_of_eq_Some_iff)
  have other: "map_of (replyFuncs s') k = map_of (replyFuncs s) k" if "k \<notin> set ?ids" for k
  proof -
    have "map_of ?w k = None" using that waiting_request_ids by (metis map_of_eq_None_iff)
    then show ?thesis by (simp add: tab map_add_def)
  qed
  show ?thesis
    using q lm parse fns other by (intro exI [of _ msgs] exI [of _ s'] exI [of _ evs]) (simp add: evs_def)
qed

subsection \<open>Receiving\<close>

text \<open>What a server answers, its bytes after the header, and what the reply function is called with.\<close>

datatype answer =
    AnswerLegacy int32 int64 int32 "bytes list"
  | AnswerCommand bytes bytes "bytes list"
  | AnswerMsg int32 int32 bytes

fun answer_code :: "answer \<Rightarrow> int32" where
  "answer_code (AnswerLegacy _ _ _ _) = OpCodeReply"
| "answer_code (AnswerCommand _ _ _) = OpCodeCommandReply"
| "answer_code (AnswerMsg _ _ _) = OpCodeMessage"

fun answer_body :: "answer \<Rightarrow> bytes" where
  "answer_body (AnswerLegacy flags cursor first docs) =
     enc32 flags @ enc64 cursor @ enc32 first @ enc32 (word_of_nat (length docs)) @ concat docs"
| "answer_body (AnswerCommand commandReply metadata docs) = commandReply @ metadata @ concat docs"
| "answer_body (AnswerMsg flags checksum sections) =
     enc32 flags @ sections @ (if flags AND MsgFlagChecksumPresent \<noteq> 0 then enc32 checksum else [])"

definition legacy_reply :: "int32 \<Rightarrow> int64 \<Rightarrow> int32 \<Rightarrow> bytes list \<Rightarrow> ReplyOp" where
  "legacy_reply flags cursor first docs = \<lparr>rHeader = zeroHeader, rFlags = flags, rCursorId = cursor,
     rFirstDoc = first, rReplyDocs = word_of_nat (length docs), rDocs = [], rLatency = 0, rcursorCached = False\<rparr>"

fun answer_calls :: "answer \<Rightarrow> replyArgs list" where
  "answer_calls (AnswerLegacy flags cursor first docs) =
     (if docs = [] then [LegacyReply (Some (legacy_reply flags cursor first docs)) (-1) []]
      else map (\<lambda>(i, d). LegacyReply (Some (legacy_reply flags cursor first docs)) (int i) d) (enumerate 0 docs))"
| "answer_calls (AnswerCommand commandReply metadata docs) =
     (if docs = [] then [CommandReply metadata commandReply []]
      else map (CommandReply metadata commandReply) docs)"
| "answer_calls (AnswerMsg flags checksum sections) =
     [MsgReply flags (if flags AND MsgFlagChecksumPresent \<noteq> 0 then checksum else 0) sections]"

text \<open>A document is its length in front and the rest.\<close>

definition framed :: "bytes \<Rightarrow> bool" where
  "framed d \<longleftrightarrow> 4 \<le> length d \<and> length d < 2 ^ 31 \<and> getInt32 d 0 = Inr (word_of_nat (length d))"

fun answer_ok :: "answer \<Rightarrow> bool" where
  "answer_ok (AnswerLegacy flags cursor first docs) \<longleftrightarrow> list_all framed docs \<and> length docs < 2 ^ 31"
| "answer_ok (AnswerCommand commandReply metadata docs) \<longleftrightarrow>
     framed commandReply \<and> framed metadata \<and> list_all framed docs"
| "answer_ok (AnswerMsg flags checksum sections) \<longleftrightarrow> True"

lemma readDocument_framed:
  assumes "framed d"
  shows "readDocument (d @ r) = Inr ((d, None), r)"
proof -
  have g: "getInt32 (take 4 d) 0 = Inr (word_of_nat (length d))"
    using assms by (auto simp: framed_def getInt32_def)
  have l: "4 \<le> length d" "length d < 2 ^ 31" using assms by (auto simp: framed_def)
  have c: "copy_at (replicate (length d) 0) 0 (take 4 d) = take 4 d @ replicate (length d - 4) 0"
    using l by (simp add: copy_at_def)
  have c2: "copy_at (take 4 d @ replicate (length d - 4) 0) 4 (drop 4 d) = d"
    using l by (simp add: copy_at_def)
  show ?thesis
    using l g c c2 by (auto simp: readDocument_def readFull_raw_def make_bytes_eq Let_def)
qed

definition calls :: "'f option \<Rightarrow> replyArgs list \<Rightarrow> 'f event list" where
  "calls f args = concat (map (call_opt f None) args)"

lemma calls_simps [simp]:
  "calls f [] = []" "calls f (a # args) = call_opt f None a @ calls f args"
  by (simp_all add: calls_def)

lemma list_all_framed_len: "list_all framed docs \<Longrightarrow> length docs \<le> length (concat docs)"
proof (induction docs)
  case (Cons d docs)
  then have "1 \<le> length d" by (simp add: framed_def)
  with Cons show ?case by (simp add: add_mono)
qed simp

lemma replyDocsLoop_framed:
  "list_all framed docs \<Longrightarrow> length docs < n \<Longrightarrow> sint (rReplyDocs reply) = int (i + length docs) \<Longrightarrow>
   replyDocsLoop n f reply (int i) evs (concat docs @ r) =
     Inr (None, evs @ calls f (map (\<lambda>(i, d). LegacyReply (Some reply) (int i) d) (enumerate i docs)), r)"
proof (induction docs arbitrary: n i evs)
  case Nil
  then show ?case by (cases n) simp_all
next
  case (Cons d docs)
  then obtain m where m: "n = Suc m" by (cases n) auto
  have "int i + 1 = int (Suc i)" by simp
  then show ?case
    using Cons.prems m Cons.IH [of m "Suc i"] by (simp add: readDocument_framed add.commute)
qed

lemma outputDocsLoop_framed:
  "list_all framed docs \<Longrightarrow> length docs < n \<Longrightarrow> left = int (length (concat docs)) \<Longrightarrow>
   outputDocsLoop n f metadata commandReply prev left evs (concat docs @ r) =
     Inr (None, evs @ calls f (map (CommandReply metadata commandReply) docs), r)"
proof (induction docs arbitrary: n left evs prev)
  case Nil
  then show ?case by (cases n) simp_all
next
  case (Cons d docs)
  then obtain m where m: "n = Suc m" by (cases n) auto
  have pos: "0 < int (length d) + int (length (concat docs))"
    using Cons.prems(1) by (auto simp: framed_def intro!: add_pos_nonneg)
  then show ?case
    using Cons.prems m Cons.IH [of m] by (simp add: readDocument_framed pos)
qed

lemma readBody_answer:
  assumes "answer_ok a" "sint len = 16 + int (length (answer_body a))"
  shows "readBody f len (answer_code a) (answer_body a @ rest) = Inr (None, calls f (answer_calls a), rest)"
proof (cases a)
  case (AnswerLegacy flags cursor first docs)
  have ok: "list_all framed docs" "length docs < 2 ^ 31" using assms(1) AnswerLegacy by auto
  let ?hd = "enc32 flags @ enc64 cursor @ enc32 first @ enc32 (word_of_nat (length docs))"
  have rd: "readFull_raw 20 (?hd @ concat docs @ rest) = ((?hd, None), concat docs @ rest)"
    by (simp add: readFull_raw_def)
  have rd': "readFull_raw 20 (answer_body a @ rest) = ((?hd, None), concat docs @ rest)"
    using rd AnswerLegacy by simp
  have s: "sint (word_of_nat (length docs) :: int32) = int (length docs)" using ok sint_word_of_nat by blast
  have z: "word_of_nat (length docs) = (0 :: int32) \<longleftrightarrow> docs = []"
  proof
    assume "word_of_nat (length docs) = (0 :: int32)"
    with s have "int (length docs) = sint (0 :: int32)" by simp
    then show "docs = []" by simp
  qed simp
  have n: "length docs < Suc (length (concat docs @ rest))" using list_all_framed_len [OF ok(1)] by simp
  have loop: "replyDocsLoop (Suc (length (concat docs @ rest))) f (legacy_reply flags cursor first docs) 0 [] (concat docs @ rest)
      = Inr (None, calls f (map (\<lambda>(i, d). LegacyReply (Some (legacy_reply flags cursor first docs)) (int i) d)
          (enumerate 0 docs)), rest)"
    using replyDocsLoop_framed [OF ok(1) n, where i = 0 and f = f and evs = "[]" and r = rest] s
    by (simp add: legacy_reply_def del: replyDocsLoop.simps)
  show ?thesis
    using AnswerLegacy rd' loop [unfolded legacy_reply_def] z
    by (auto simp: readBody_def readOpReply_def getInt_heads getInt_reply OpCodeReply_def Let_def
        legacy_reply_def call_opt_def simp del: replyDocsLoop.simps)
next
  case (AnswerCommand commandReply metadata docs)
  have ok: "framed commandReply" "framed metadata" "list_all framed docs" using assms(1) AnswerCommand by auto
  have n: "length docs < Suc (length (concat docs @ rest))" using list_all_framed_len [OF ok(3)] by simp
  have left: "sint len - 16 - (int (length commandReply) + int (length metadata)) = int (length (concat docs))"
    using assms(2) AnswerCommand by simp
  have e: "sint len \<le> int (length commandReply) + int (length metadata) + 16 \<longleftrightarrow> docs = []"
  proof
    assume "sint len \<le> int (length commandReply) + int (length metadata) + 16"
    with left have "length (concat docs) = 0" by linarith
    then show "docs = []" using list_all_framed_len [OF ok(3)] by (metis le_zero_eq length_0_conv)
  qed (use left in simp)
  show ?thesis
    using AnswerCommand ok e outputDocsLoop_framed [OF ok(3) n left, where f = f and r = rest]
    by (auto simp: readBody_def readCommandReply_def OpCodeCommandReply_def readDocument_framed Let_def
        simp del: outputDocsLoop.simps)
next
  case (AnswerMsg flags checksum sections)
  have rd: "readFull_raw 4 (enc32 x @ r) = ((enc32 x, None), r)" for x r by (simp add: readFull_raw_def)
  have rs: "readFull_raw (length sections) (sections @ r) = ((sections, None), r)" for r
    by (simp add: readFull_raw_def)
  show ?thesis
    using AnswerMsg assms(2)
    by (auto simp: readBody_def readMessage_def OpCodeMessage_def rd rs Let_def)
qed

definition answer_bytes :: "MsgHeader \<Rightarrow> answer \<Rightarrow> bytes" where
  "answer_bytes h a = header_bytes h @ answer_body a"

text \<open>An answer under a header of its own.\<close>

definition answer_header :: "MsgHeader \<Rightarrow> answer \<Rightarrow> bool" where
  "answer_header h a \<longleftrightarrow> answer_ok a \<and> hOpCode h = answer_code a \<and>
     sint (MessageLength h) = 16 + int (length (answer_body a))"

definition deadline_after :: "(uint32 \<times> 'f) list \<Rightarrow> 'f event" where
  "deadline_after table = (if table = [] then NoReadDeadline else ReadDeadline)"

lemma getInt32_header12: "getInt32 (header_bytes h @ q) 12 = Inr (hOpCode h)"
  using getInt32_append [of "enc32 (MessageLength h) @ enc32 (RequestID h) @ enc32 (ResponseTo h)" 12]
  by (simp add: header_bytes_def)

lemma readMsgHeader_plain:
  "hOpCode h \<noteq> 2012 \<Longrightarrow>
   readMsgHeader dc (header_bytes h @ r) = Inr (Inr (MessageLength h, ResponseTo h, hOpCode h, r, None))"
  using getInt32_header [of h "[]"] getInt32_header12 [of h "[]"]
  by (simp add: readMsgHeader_def readFull_raw_def)

lemma readRound_answer:
  assumes "answer_header h a"
  shows "readRound dc s (answer_bytes h a @ rest) =
    (let t = AList.delete (ResponseTo h) (replyFuncs s)
     in Inr (s\<lparr>replyFuncs := t\<rparr>,
          calls (map_of (replyFuncs s) (ResponseTo h)) (answer_calls a) @ [deadline_after t], Some rest))"
proof -
  have c: "hOpCode h \<noteq> 2012" using assms by (cases a) (auto simp: answer_header_def opcode_defs)
  show ?thesis
    using assms readMsgHeader_plain [OF c] readBody_answer [of a "MessageLength h" "map_of (replyFuncs s) (ResponseTo h)" rest]
    by (simp add: readRound_def answer_bytes_def answer_header_def deadline_after_def Let_def)
qed

definition answered :: "(MsgHeader \<times> answer) list \<Rightarrow> uint32 set" where
  "answered answers = ResponseTo ` fst ` set answers"

definition remove_ids :: "(MsgHeader \<times> answer) list \<Rightarrow> (uint32 \<times> 'f) list \<Rightarrow> (uint32 \<times> 'f) list" where
  "remove_ids answers t = filter (\<lambda>(k, _). k \<notin> answered answers) t"

definition no_deadlines :: "'f event list \<Rightarrow> 'f event list" where
  "no_deadlines evs = filter (\<lambda>e. e \<noteq> NoReadDeadline \<and> e \<noteq> ReadDeadline) evs"

lemma no_deadlines_simps [simp]:
  "no_deadlines (xs @ ys) = no_deadlines xs @ no_deadlines ys" "no_deadlines [] = []"
  "no_deadlines (deadline_after t # xs) = no_deadlines xs" "no_deadlines (calls f args) = calls f args"
  by (induction args) (auto simp: no_deadlines_def deadline_after_def call_opt_def split: option.split)

lemma map_of_remove_ids: "k \<notin> answered answers \<Longrightarrow> map_of (remove_ids answers t) k = map_of t k"
  by (induction t) (auto simp: remove_ids_def)

lemma remove_ids_Cons: "remove_ids ((h, a) # answers) t = remove_ids answers (AList.delete (ResponseTo h) t)"
  by (auto simp: remove_ids_def answered_def AList.delete_eq intro!: filter_cong)

lemma readLoop_answers:
  fixes s :: "'f MongoSocket"
  assumes "distinct (map (\<lambda>(h, a). ResponseTo h) answers)" "\<forall>(h, a)\<in>set answers. answer_header h a"
  shows "\<exists>evs'. readLoop (length answers + n) dc s evs (concat (map (\<lambda>(h, a). answer_bytes h a) answers) @ rest) =
      readLoop n dc (s\<lparr>replyFuncs := remove_ids answers (replyFuncs s)\<rparr>) (evs @ evs') rest \<and>
    no_deadlines evs' = concat (map (\<lambda>(h, a). calls (map_of (replyFuncs s) (ResponseTo h)) (answer_calls a)) answers)"
  using assms
proof (induction answers arbitrary: s evs)
  case Nil
  show ?case by (rule exI [of _ "[]"]) (simp add: remove_ids_def answered_def)
next
  case (Cons x answers)
  obtain h a where x: "x = (h, a)" by fastforce
  let ?s = "s\<lparr>replyFuncs := AList.delete (ResponseTo h) (replyFuncs s)\<rparr>"
  let ?c = "calls (map_of (replyFuncs s) (ResponseTo h)) (answer_calls a)"
  let ?evs = "evs @ ?c @ [deadline_after (replyFuncs ?s)]"
  have ok: "answer_header h a" using Cons.prems x by simp
  obtain evs' where e: "readLoop (length answers + n) dc ?s ?evs (concat (map (\<lambda>(h, a). answer_bytes h a) answers) @ rest) =
      readLoop n dc (?s\<lparr>replyFuncs := remove_ids answers (replyFuncs ?s)\<rparr>) (?evs @ evs') rest"
    "no_deadlines evs' = concat (map (\<lambda>(h, a). calls (map_of (replyFuncs ?s) (ResponseTo h)) (answer_calls a)) answers)"
    using Cons.IH [of ?s ?evs] Cons.prems by auto
  have same: "map_of (AList.delete (ResponseTo h) (replyFuncs s)) (ResponseTo h') = map_of (replyFuncs s) (ResponseTo h')"
    if "(h', a') \<in> set answers" for h' a'
    using Cons.prems that x by (auto simp: delete_conv' image_iff split_beta)
  have same': "map (\<lambda>(h', a). calls (map_of (AList.delete (ResponseTo h) (replyFuncs s)) (ResponseTo h')) (answer_calls a)) answers =
      map (\<lambda>(h', a). calls (map_of (replyFuncs s) (ResponseTo h')) (answer_calls a)) answers"
    by (rule map_cong) (auto simp: same)
  show ?case
    using e same' readRound_answer [OF ok, of dc s "concat (map (\<lambda>(h, a). answer_bytes h a) answers) @ rest"] x
    by (intro exI [of _ "?c @ [deadline_after (replyFuncs ?s)] @ evs'"]) (simp add: remove_ids_Cons Let_def)
qed

text \<open>
  C7. Each reply reaches the function of the request that it answers: when the server sends
  answers to different requests, in any order and of any of the three kinds, and then closes
  the connection, the read loop calls for each, in the order of arrival, the function waiting
  under the id that it answers and no other, once for each document; the functions left are
  then called with the error that ended the connection, and none stays in the table.
\<close>

theorem answers_arrive:
  fixes s :: "'f MongoSocket"
  assumes "dead s = None" "distinct (map (\<lambda>(h, a). ResponseTo h) answers)"
    and "\<forall>(h, a)\<in>set answers. answer_header h a"
  shows "\<exists>evs. readLoop (Suc (length answers)) dc s [] (concat (map (\<lambda>(h, a). answer_bytes h a) answers)) =
      Inr (s\<lparr>dead := Some EOF, replyFuncs := []\<rparr>, evs) \<and>
    no_deadlines evs =
      concat (map (\<lambda>(h, a). calls (map_of (replyFuncs s) (ResponseTo h)) (answer_calls a)) answers) @
      ConnClosed # map (\<lambda>(_, f). Called f (Some EOF) NoReply) (remove_ids answers (replyFuncs s)) @ [Abended]"
proof -
  have "no_deadlines (ConnClosed # map (\<lambda>(_, f). Called f (Some EOF) NoReply) t @ [Abended]) =
      ConnClosed # map (\<lambda>(_, f). Called f (Some EOF) NoReply) t @ [Abended]" for t :: "(uint32 \<times> 'f) list"
    by (induction t) (auto simp: no_deadlines_def)
  moreover have "readMsgHeader dc [] = Inr (Inl EOF)" by (simp add: readMsgHeader_def readFull_raw_def)
  ultimately show ?thesis
    using readLoop_answers [OF assms(2,3), of "Suc 0" dc s "[]" "[]"] assms(1)
    by (auto simp: readRound_def kill_def)
qed

subsection \<open>The end of the connection\<close>

definition told :: "'f \<Rightarrow> 'f event list \<Rightarrow> bool" where
  "told f evs \<longleftrightarrow> (\<exists>e args. Called f e args \<in> set evs)"

lemma told_append [simp]: "told f (xs @ ys) \<longleftrightarrow> told f xs \<or> told f ys"
  by (auto simp: told_def)

lemma told_call_opt [simp]: "told f (call_opt (Some f) e args)"
  by (simp add: told_def call_opt_def)

lemma replyDocsLoop_told:
  "replyDocsLoop n (Some f) reply i evs r = Inr (None, evs', r') \<Longrightarrow>
     told f evs \<or> i \<noteq> sint (rReplyDocs reply) \<Longrightarrow> told f evs'"
proof (induction n arbitrary: i evs r)
  case (Suc n)
  show ?case
  proof (cases "i = sint (rReplyDocs reply)")
    case False
    with Suc.prems obtain b r1 where
      "replyDocsLoop n (Some f) reply (i + 1) (evs @ call_opt (Some f) None (LegacyReply (Some reply) i b)) r1 =
        Inr (None, evs', r')"
      by (auto simp: rbind_eq_Inr split: option.splits)
    then show ?thesis by (rule Suc.IH) simp
  qed (use Suc.prems in auto)
qed simp

lemma outputDocsLoop_told:
  "outputDocsLoop n (Some f) metadata commandReply prev left evs r = Inr (None, evs', r') \<Longrightarrow>
     told f evs \<or> 0 < left \<Longrightarrow> told f evs'"
proof (induction n arbitrary: prev left evs r)
  case (Suc n)
  show ?case
  proof (cases "0 < left")
    case True
    with Suc.prems obtain b r1 where
      "outputDocsLoop n (Some f) metadata commandReply b (left - int (length b))
         (evs @ call_opt (Some f) None (CommandReply metadata commandReply b)) r1 = Inr (None, evs', r')"
      by (auto simp: rbind_eq_Inr split: option.splits)
    then show ?thesis by (rule Suc.IH) simp
  qed (use Suc.prems in auto)
qed simp

lemma sint_eq_0: "sint (x :: int32) = 0 \<longleftrightarrow> x = 0"
proof
  assume "sint x = 0"
  have "x = word_of_int (sint x)" by simp
  then show "x = 0" using \<open>sint x = 0\<close> by simp
qed simp

lemma readBody_told:
  assumes "readBody (Some f) len code r = Inr (None, evs, r')"
  shows "told f evs"
proof -
  have 1: "told f evs" if "readOpReply (Some f) r = Inr (None, evs, r')"
    using that
    by (auto simp: readOpReply_def rbind_eq_Inr Let_def call_opt_def told_def sint_eq_0 simp del: replyDocsLoop.simps
        split: prod.splits option.splits if_splits dest!: replyDocsLoop_told [unfolded told_def])
  have 2: "told f evs" if "readCommandReply (Some f) len r = Inr (None, evs, r')"
  proof -
    from that obtain c m n r2 where
      "outputDocsLoop n (Some f) m c [] (sint len - 16 - (int (length c) + int (length m)))
        (if sint len \<le> int (length c) + int (length m) + 16 then call_opt (Some f) None (CommandReply m c []) else []) r2 =
        Inr (None, evs, r')"
      by (auto simp: readCommandReply_def rbind_eq_Inr Let_def simp del: outputDocsLoop.simps split: option.splits)
    then show ?thesis by (rule outputDocsLoop_told) (auto split: if_splits)
  qed
  have 3: "told f evs" if "readMessage (Some f) len r = Inr (None, evs, r')"
  proof -
    obtain b1 e1 r1 where a: "readFull_raw 4 r = ((b1, e1), r1)" by (metis surj_pair)
    with that have e1: "e1 = None" by (cases e1) (simp_all add: readMessage_def)
    with that a obtain flags where fl: "getInt32 b1 0 = Inr flags"
      by (auto simp: readMessage_def rbind_eq_Inr)
    define ck :: int where "ck = (if flags AND MsgFlagChecksumPresent \<noteq> 0 then 4 else 0)"
    obtain b2 e2 r2 where b: "readFull_raw (nat (sint len - (ck + 4 + 16))) r1 = ((b2, e2), r2)" by (metis surj_pair)
    obtain b3 e3 r3 where c: "readFull_raw 4 r2 = ((b3, e3), r3)" by (metis surj_pair)
    show ?thesis
      using that a e1 fl b c
      by (cases "flags AND MsgFlagChecksumPresent \<noteq> 0"; cases e2; cases e3)
        (auto simp: readMessage_def Let_def rbind_eq_Inr ck_def split: if_splits)
  qed
  show ?thesis using assms 1 2 3 by (auto simp: readBody_def split: if_splits)
qed

lemma kill_told:
  "dead s = None \<Longrightarrow> kill e True s = (s', evs) \<Longrightarrow>
   dead s' = Some e \<and> replyFuncs s' = [] \<and> (\<forall>(k, f)\<in>set (replyFuncs s). told f evs)"
  by (force simp: kill_def told_def)

lemma readRound_told:
  assumes "dead s = None" "distinct (map fst (replyFuncs s))" "readRound dc s inp = Inr (s', evs, rest)"
  shows "\<exists>k0. case rest of
      Some _ \<Rightarrow> dead s' = None \<and> replyFuncs s' = AList.delete k0 (replyFuncs s) \<and>
        (\<forall>f. (k0, f) \<in> set (replyFuncs s) \<longrightarrow> told f evs)
    | None \<Rightarrow> dead s' \<noteq> None \<and> replyFuncs s' = [] \<and> (\<forall>(k, f)\<in>set (replyFuncs s). k \<noteq> k0 \<longrightarrow> told f evs)"
proof -
  obtain h where h: "readMsgHeader dc inp = Inr h"
    using assms(3) by (auto simp: readRound_def rbind_eq_Inr)
  show ?thesis
  proof (cases h)
    case (Inl e)
    then show ?thesis
      using assms h kill_told [of s e s' evs] by (auto simp: readRound_def split: prod.splits)
  next
    case (Inr y)
    obtain len k0 code src after where y: "y = (len, k0, code, src, after)" by (cases y)
    let ?f = "map_of (replyFuncs s) k0"
    let ?s = "s\<lparr>replyFuncs := AList.delete k0 (replyFuncs s)\<rparr>"
    obtain e evs1 r1 where b: "readBody ?f len code src = Inr (e, evs1, r1)"
      using assms(3) h Inr y by (auto simp: readRound_def rbind_eq_Inr Let_def)
    show ?thesis
    proof (cases e)
      case None
      have "told f evs" if "(k0, f) \<in> set (replyFuncs s)" for f
      proof -
        have "?f = Some f" using that assms(2) by (simp add: map_of_eq_Some_iff)
        then have "told f evs1" using b None readBody_told by metis
        moreover obtain d where "evs = evs1 @ [d]"
          using assms(3) h Inr y b None by (auto simp: readRound_def Let_def)
        ultimately show ?thesis by simp
      qed
      then show ?thesis
        using assms(1,3) h Inr y b None
        by (intro exI [of _ k0]) (auto simp: readRound_def Let_def)
    next
      case (Some err)
      obtain s2 evs2 where k: "kill err True ?s = (s2, evs2)" by fastforce
      have "dead s2 = Some err \<and> replyFuncs s2 = [] \<and> (\<forall>(k, f)\<in>set (AList.delete k0 (replyFuncs s)). told f evs2)"
        using kill_told [OF _ k] assms(1) by simp
      then have "dead s2 \<noteq> None \<and> replyFuncs s2 = []" "\<forall>(k, f)\<in>set (replyFuncs s). k \<noteq> k0 \<longrightarrow> told f (evs1 @ evs2)"
        by (auto simp: AList.delete_eq)
      moreover have "s' = s2" "evs = evs1 @ evs2" "rest = None"
        using assms(3) h Inr y b Some k by (auto simp: readRound_def Let_def)
      ultimately show ?thesis by (intro exI [of _ k0]) simp
    qed
  qed
qed

text \<open>
  What makes the loop panic: a size below the four bytes of its own where a document is read, or the header of
  an \<open>OP_MSG\<close> whose length has no room for its parts, or one of a compressed message, whose contents may be anything.
\<close>

definition bad_size :: "bytes \<Rightarrow> bool" where
  "bad_size r \<longleftrightarrow> (case getInt32 r 0 of Inr k \<Rightarrow> sint k < 4 | Inl _ \<Rightarrow> False)"

definition bad_header :: "bytes \<Rightarrow> bool" where
  "bad_header r \<longleftrightarrow>
     (case getInt32 r 12 of
        Inr code \<Rightarrow> code = 2012 \<or> code = 2013 \<and> (case getInt32 r 0 of Inr k \<Rightarrow> sint k < 24 | Inl _ \<Rightarrow> False)
      | Inl _ \<Rightarrow> False)"

definition panic_cause :: "bytes \<Rightarrow> bool" where
  "panic_cause inp \<longleftrightarrow> (\<exists>a r. inp = a @ r \<and> (bad_size r \<or> bad_header r))"

lemma panic_cause_append: "panic_cause r \<Longrightarrow> panic_cause (a @ r)"
  unfolding panic_cause_def by (metis append.assoc)

lemma bad_size_cause: "bad_size r \<Longrightarrow> panic_cause r"
  unfolding panic_cause_def by (metis append_Nil)

text \<open>How a part of the loop ends: it leaves a rest of its input, or panics.\<close>

definition leaves :: "bytes \<Rightarrow> ('a \<times> bytes) res \<Rightarrow> bool" where
  "leaves r x \<longleftrightarrow> (case x of Inr (_, r') \<Rightarrow> \<exists>a. r = a @ r' | Inl y \<Rightarrow> (\<exists>m. y = Panic m) \<and> panic_cause r)"

definition leaves3 :: "bytes \<Rightarrow> ('a \<times> 'b \<times> bytes) res \<Rightarrow> bool" where
  "leaves3 r x \<longleftrightarrow> (case x of Inr (_, _, r') \<Rightarrow> \<exists>a. r = a @ r' | Inl y \<Rightarrow> (\<exists>m. y = Panic m) \<and> panic_cause r)"

lemma leaves3_trans: "leaves3 r' x \<Longrightarrow> leaves3 (a @ r') x"
  by (auto simp: leaves3_def panic_cause_append split: sum.splits intro: exI [of _ "a @ _"])

lemma getInt32_take4: "4 \<le> length r \<Longrightarrow> getInt32 (take 4 r) 0 = getInt32 r 0"
  by (simp add: getInt32_def)

lemma readFull_cases:
  obtains "n \<le> length r" "readFull_raw n r = ((take n r, None), drop n r)"
  | d e where "length r < n" "readFull_raw n r = ((d, Some e), [])"
  by (cases "n \<le> length r"; cases "r = []") (force simp: readFull_raw_def)+

lemma readDocument_leaves:
  "leaves r (readDocument r)"
  "readDocument r = Inr ((b, None), r') \<Longrightarrow> 4 \<le> length b \<and> length r' + 4 \<le> length r"
proof -
  have "leaves r (readDocument r) \<and> (\<forall>b r'. readDocument r = Inr ((b, None), r') \<longrightarrow> 4 \<le> length b \<and> length r' + 4 \<le> length r)"
  proof (cases rule: readFull_cases [of 4 r])
    case 1
    then obtain k where k: "getInt32 r 0 = Inr k"
      using getInt32_Inr_iff [of r 0] by auto
    note g = getInt32_take4 [OF 1(1)]
    show ?thesis
    proof (cases "sint k < 4")
      case True
      then have "panic_cause r"
        using k by (intro bad_size_cause) (simp add: bad_size_def)
      with True 1 k g show ?thesis
        by (auto simp: readDocument_def leaves_def make_bytes_def Let_def copy_at_def)
    next
      case False
      define n where "n = nat (sint k)"
      have n: "4 \<le> n" "\<not> sint k < 0" using False by (simp_all add: n_def)
      have l: "length (copy_at (replicate n 0) 0 (take 4 r)) = n"
        using 1(1) n by (simp add: copy_at_def)
      show ?thesis
      proof (cases rule: readFull_cases [of "n - 4" "drop 4 r"])
        case 1
        then show ?thesis
          using \<open>4 \<le> length r\<close> \<open>readFull_raw 4 r = _\<close> k g n l
          by (auto simp: readDocument_def leaves_def make_bytes_def Let_def n_def [symmetric] copy_at_def
              intro: exI [of _ "take n r"])
      next
        case (2 d e)
        then show ?thesis
          using \<open>4 \<le> length r\<close> \<open>readFull_raw 4 r = _\<close> k g n l
          by (auto simp: readDocument_def leaves_def make_bytes_def Let_def n_def [symmetric])
      qed
    qed
  next
    case (2 d e)
    then show ?thesis by (auto simp: readDocument_def leaves_def)
  qed
  then show "leaves r (readDocument r)"
    "readDocument r = Inr ((b, None), r') \<Longrightarrow> 4 \<le> length b \<and> length r' + 4 \<le> length r" by blast+
qed

lemma readDocument_cases:
  obtains y m where "readDocument r = Inl (Panic m)" "panic_cause r"
  | b e a r' where "readDocument r = Inr ((b, Some e), r')" "r = a @ r'"
  | b a r' where "readDocument r = Inr ((b, None), r')" "r = a @ r'" "4 \<le> length b" "length r' < length r"
proof -
  note l = readDocument_leaves [of r]
  show thesis
  proof (cases "readDocument r")
    case (Inl y)
    with l(1) that(1) show ?thesis by (auto simp: leaves_def)
  next
    case (Inr x)
    obtain b e r' where x: "x = ((b, e), r')" by (metis surj_pair)
    show ?thesis
    proof (cases e)
      case None
      with Inr x have d: "readDocument r = Inr ((b, None), r')" by simp
      with l(1) obtain a where a: "r = a @ r'" by (auto simp: leaves_def)
      have "4 \<le> length b" "length r' < length r" using l(2) [OF d] by simp_all
      with that(3) [OF d a] show ?thesis by blast
    next
      case (Some e')
      with Inr x have d: "readDocument r = Inr ((b, Some e'), r')" by simp
      with l(1) obtain a where a: "r = a @ r'" by (auto simp: leaves_def)
      from that(2) [OF d a] show ?thesis .
    qed
  qed
qed

lemma replyDocsLoop_leaves: "length r < n \<Longrightarrow> leaves3 r (replyDocsLoop n f reply i evs r)"
proof (induction n arbitrary: i evs r)
  case (Suc n)
  show ?case
  proof (cases "i = sint (rReplyDocs reply)")
    case True
    then show ?thesis by (simp add: leaves3_def)
  next
    case False
    show ?thesis
    proof (cases rule: readDocument_cases [of r])
      case (3 b a r')
      let ?evs = "evs @ call_opt f None (LegacyReply (Some reply) i b)"
      have "replyDocsLoop (Suc n) f reply i evs r = replyDocsLoop n f reply (i + 1) ?evs r'"
        using False 3(1) by simp
      moreover have "leaves3 r' (replyDocsLoop n f reply (i + 1) ?evs r')"
        using Suc.IH Suc.prems 3(4) by simp
      ultimately show ?thesis
        unfolding 3(2) by (simp only: leaves3_trans)
    qed (use False in \<open>auto simp: leaves3_def\<close>)
  qed
qed simp

lemma outputDocsLoop_leaves: "length r < n \<Longrightarrow> leaves3 r (outputDocsLoop n f md cr d left evs r)"
proof (induction n arbitrary: d left evs r)
  case (Suc n)
  show ?case
  proof (cases "left > 0")
    case False
    then show ?thesis by (simp add: leaves3_def)
  next
    case True
    show ?thesis
    proof (cases rule: readDocument_cases [of r])
      case (3 b a r')
      let ?evs = "evs @ call_opt f None (CommandReply md cr b)"
      have "outputDocsLoop (Suc n) f md cr d left evs r = outputDocsLoop n f md cr b (left - int (length b)) ?evs r'"
        using True 3(1) by simp
      moreover have "leaves3 r' (outputDocsLoop n f md cr b (left - int (length b)) ?evs r')"
        using Suc.IH Suc.prems 3(4) by simp
      ultimately show ?thesis
        unfolding 3(2) by (simp only: leaves3_trans)
    qed (use True in \<open>auto simp: leaves3_def\<close>)
  qed
qed simp

lemma readOpReply_leaves: "leaves3 r (readOpReply f r)"
proof (cases rule: readFull_cases [of 20 r])
  case 1
  let ?b = "take 20 r"
  obtain flags cid first docs where g: "getInt32 ?b 0 = Inr flags" "getInt64 ?b 4 = Inr cid" "getInt32 ?b 12 = Inr first"
    "getInt32 ?b 16 = Inr docs"
    using 1(1) by (auto simp: getInt32_def getInt64_def)
  have "leaves3 r (replyDocsLoop (Suc (length (drop 20 r))) f reply 0 [] (drop 20 r))" for reply
  proof -
    have "leaves3 (drop 20 r) (replyDocsLoop (Suc (length (drop 20 r))) f reply 0 [] (drop 20 r))"
      by (rule replyDocsLoop_leaves) simp
    from leaves3_trans [OF this, of "take 20 r"] show ?thesis
      unfolding append_take_drop_id .
  qed
  with 1(2) g show ?thesis
    by (auto simp: readOpReply_def Let_def leaves3_def simp del: replyDocsLoop.simps intro: exI [of _ "take 20 r"])
next
  case (2 d e)
  then show ?thesis by (simp add: readOpReply_def leaves3_def)
qed

lemma readCommandReply_leaves: "leaves3 r (readCommandReply f len r)"
proof (cases rule: readDocument_cases [of r])
  case (3 b a r1)
  note r1 = 3
  have "leaves3 r1 (rbind (readDocument r1) (\<lambda>((metadata, e), r). case e of Some e \<Rightarrow> Inr (Some e, [], r)
      | None \<Rightarrow> outputDocsLoop (Suc (length r)) f metadata b [] (left metadata) (evs metadata) r))" for left evs
  proof (cases rule: readDocument_cases [of r1])
    case (3 c a2 r2)
    have "leaves3 r2 (outputDocsLoop (Suc (length r2)) f c b [] (left c) (evs c) r2)"
      by (rule outputDocsLoop_leaves) simp
    with 3(1) show ?thesis
      unfolding 3(2) by (simp del: outputDocsLoop.simps add: leaves3_trans)
  qed (auto simp: leaves3_def)
  note this [of "\<lambda>metadata. sint len - 16 - (int (length b) + int (length metadata))"
      "\<lambda>metadata. if int (length b) + int (length metadata) + 16 \<ge> sint len then call_opt f None (CommandReply metadata b []) else []"]
  with r1(1) show ?thesis
    unfolding r1(2) readCommandReply_def Let_def by (simp del: outputDocsLoop.simps add: leaves3_trans)
qed (auto simp: readCommandReply_def leaves3_def)

lemma bad_headerI: "bad_header r \<Longrightarrow> panic_cause r"
  unfolding panic_cause_def by (metis append_Nil)

text \<open>The body of an \<open>OP_MSG\<close> leaves a rest, or its length has no room for the flags.\<close>

lemma readMessage_leaves:
  "case readMessage f len r of Inr (_, _, r') \<Rightarrow> \<exists>a. r = a @ r' | Inl y \<Rightarrow> (\<exists>m. y = Panic m) \<and> sint len < 24"
proof (cases rule: readFull_cases [of 4 r])
  case 1
  obtain flags where fl: "getInt32 (take 4 r) 0 = Inr flags"
    using 1(1) by (auto simp: getInt32_def)
  define ck :: int where "ck = (if flags AND MsgFlagChecksumPresent \<noteq> 0 then 4 else 0)"
  show ?thesis
  proof (cases "sint len - (ck + 4 + 16) < 0")
    case True
    then show ?thesis using 1(2) fl by (auto simp: readMessage_def Let_def ck_def split: if_splits)
  next
    case False
    define n where "n = nat (sint len - (ck + 4 + 16))"
    show ?thesis
    proof (cases rule: readFull_cases [of n "drop 4 r"])
      case 2
      then show ?thesis using 1(2) fl False by (auto simp: readMessage_def Let_def ck_def n_def)
    next
      case 3: 1
      show ?thesis
      proof (cases rule: readFull_cases [of 4 "drop n (drop 4 r)"])
        case 4: 1
        then obtain c where c: "getInt32 (take 4 (drop n (drop 4 r))) 0 = Inr c" by (auto simp: getInt32_def)
        have "\<exists>a. r = a @ drop n (drop 4 r)" "\<exists>a. r = a @ drop 4 (drop n (drop 4 r))"
          by (metis append_take_drop_id drop_drop)+
        then show ?thesis
          using 1(2) fl False 3(2) 4(2) c by (auto simp: readMessage_def Let_def ck_def n_def)
      next
        case 2
        have "\<exists>a. r = a @ drop n (drop 4 r)" by (metis append_take_drop_id drop_drop)
        with 2 show ?thesis
          using 1(2) fl False 3(2) by (auto simp: readMessage_def Let_def ck_def n_def)
      qed
    qed
  qed
next
  case (2 d e)
  then show ?thesis by (simp add: readMessage_def)
qed

lemma readBody_leaves:
  "case readBody f len code r of Inr (_, _, r') \<Rightarrow> \<exists>a. r = a @ r'
   | Inl y \<Rightarrow> (\<exists>m. y = Panic m) \<and> (panic_cause r \<or> code = 2013 \<and> sint len < 24)"
  using readOpReply_leaves [where f = f and r = r] readCommandReply_leaves [where f = f and r = r and len = len]
    readMessage_leaves [where f = f and len = len and r = r]
  by (auto simp: readBody_def leaves3_def split: sum.splits)

text \<open>Decompression fails with an error or a panic.\<close>

definition no_hang :: "'a res \<Rightarrow> bool" where
  "no_hang x \<longleftrightarrow> x \<noteq> Inl Hang"

lemma no_hang_simps [simp]:
  "no_hang (Inr x)" "no_hang (Inl (Panic m))" "no_hang (Inl (Error e))" "no_hang (getInt32 b i)" "no_hang (SetInt32 b i k)"
  "no_hang (make_bytes k)"
  by (simp_all add: no_hang_def getInt32_def SetInt32_def make_bytes_def)

lemma no_hang_rbind: "no_hang x \<Longrightarrow> (\<And>y. no_hang (f y)) \<Longrightarrow> no_hang (rbind x f)"
  by (auto simp: no_hang_def rbind_eq_Inl)

lemma no_hang_finishMessage [simp]: "no_hang (finishMessage k b x)"
  by (auto simp: finishMessage_def Let_def split: prod.split option.split)

lemma no_hang_DecompressMessage: "no_hang (DecompressMessage registry p)"
proof -
  have "no_hang (ch_extract q)" for q
    unfolding ch_extract_def by (intro no_hang_rbind) auto
  moreover have "no_hang (copyHeader p n c b)" for n c b
    unfolding copyHeader_def by (intro no_hang_rbind) auto
  ultimately show ?thesis
    unfolding DecompressMessage_def Let_def
    by (auto split: option.split intro!: no_hang_rbind)
qed

text \<open>The header of a reply: the bytes after it, and behind a compressed message the rest of the connection.\<close>

lemma copyN_leaves: "copyN n r = (x, r') \<Longrightarrow> \<exists>a. r = a @ r'"
  by (metis append_Nil append_Nil2 append_take_drop_id copyN_def prod.inject)

lemma readMsgHeader_leaves:
  "case readMsgHeader (DecompressMessage registry) inp of
     Inl y \<Rightarrow> (\<exists>m. y = Panic m) \<and> panic_cause inp
   | Inr (Inl e) \<Rightarrow> True
   | Inr (Inr (len, rt, code, r, None)) \<Rightarrow>
       16 \<le> length inp \<and> r = drop 16 inp \<and> getInt32 inp 0 = Inr len \<and> getInt32 inp 12 = Inr code
   | Inr (Inr (len, rt, code, r, Some r')) \<Rightarrow> 16 \<le> length inp \<and> (\<exists>a. drop 16 inp = a @ r') \<and> panic_cause inp"
proof (cases rule: readFull_cases [of 16 inp])
  case (2 d e)
  then show ?thesis by (simp add: readMsgHeader_def)
next
  case 1
  let ?h = "take 16 inp" and ?r = "drop 16 inp"
  obtain len rt code where g: "getInt32 ?h 0 = Inr len" "getInt32 ?h 8 = Inr rt" "getInt32 ?h 12 = Inr code"
    using 1(1) by (auto simp: getInt32_def)
  have gi: "getInt32 inp 0 = Inr len" "getInt32 inp 12 = Inr code"
    using g 1(1) by (auto simp: getInt32_def split: if_splits)
  show ?thesis
  proof (cases "code = 2012")
    case False
    then show ?thesis using 1 g gi by (simp add: readMsgHeader_def)
  next
    case True
    have bad: "panic_cause inp"
      using gi True by (intro bad_headerI) (simp add: bad_header_def)
    obtain body e r' where cp: "copyN (sint (len - 16)) ?r = ((body, e), r')" by (metis surj_pair)
    have "no_hang (DecompressMessage registry (?h @ body))" by (rule no_hang_DecompressMessage)
    with 1 g True cp bad copyN_leaves [OF cp] show ?thesis
      by (auto simp: readMsgHeader_def no_hang_def rbind_def getInt32_def readFull_raw_def
          split: sum.splits fault.splits if_splits)
  qed
qed

text \<open>A round: it ends the loop, or takes bytes off the input, or panics for a reason that the input holds.\<close>

lemma readRound_ends:
  "case readRound (DecompressMessage registry) s inp of
     Inr (_, _, None) \<Rightarrow> True
   | Inr (_, _, Some r) \<Rightarrow> (\<exists>a. inp = a @ r) \<and> length r < length inp
   | Inl y \<Rightarrow> (\<exists>m. y = Panic m) \<and> panic_cause inp"
proof (cases "readMsgHeader (DecompressMessage registry) inp")
  case (Inl y)
  with readMsgHeader_leaves [where registry = registry and inp = inp] show ?thesis by (simp add: readRound_def)
next
  case (Inr x)
  note h = readMsgHeader_leaves [where registry = registry and inp = inp, unfolded Inr]
  show ?thesis
  proof (cases x)
    case (Inl e)
    then show ?thesis using Inr by (simp add: readRound_def kill_def split: prod.split)
  next
    case x: (Inr y)
    obtain len rt code r after where y: "y = (len, rt, code, r, after)" by (cases y)
    have rest: "(\<exists>a. inp = a @ r') \<and> length r' < length inp" if ex: "\<exists>a. drop 16 inp = a @ r'" and len: "16 \<le> length inp" for r'
    proof -
      obtain a where a: "drop 16 inp = a @ r'" using ex by blast
      then have "inp = (take 16 inp @ a) @ r'" by (metis append.assoc append_take_drop_id)
      moreover have "length r' < length inp" using arg_cong [OF a, of length] len by simp
      ultimately show ?thesis by blast
    qed
    have bad: "panic_cause inp" if "panic_cause r \<or> code = 2013 \<and> sint len < 24"
    proof (cases after)
      case None
      with h x y have r: "r = drop 16 inp" "getInt32 inp 0 = Inr len" "getInt32 inp 12 = Inr code" by auto
      have "panic_cause inp" if "panic_cause r" using panic_cause_append [OF that, of "take 16 inp"] r(1) by simp
      moreover have "panic_cause inp" if "code = 2013 \<and> sint len < 24"
        using that r(2,3) by (intro bad_headerI) (simp add: bad_header_def)
      ultimately show ?thesis using that by blast
    next
      case (Some r')
      with h x y show ?thesis by simp
    qed
    show ?thesis
      using readBody_leaves [where f = "map_of (replyFuncs s) rt" and len = len and code = code and r = r] bad rest h
      by (auto simp: readRound_def Inr x y Let_def rbind_def split: sum.splits prod.splits option.splits)
  qed
qed


text \<open>
  The function that is lost: when the connection breaks after the header of an \<open>OP_REPLY\<close>, the
  request that it answers is gone from the table but its function is never called, so that
  whoever waits for it waits for ever.
\<close>

theorem lost_reply:
  assumes "dead s = None" "replyFuncs s = [(k, f)]" "ResponseTo h = k" "hOpCode h = OpCodeReply" "length b < 20"
  shows "\<exists>e. readLoop 1 dc s [] (header_bytes h @ b) =
    Inr (s\<lparr>dead := Some e, replyFuncs := []\<rparr>, [ConnClosed, Abended])"
proof -
  have "hOpCode h \<noteq> 2012" using assms(4) by (simp add: opcode_defs)
  then have "readMsgHeader dc (header_bytes h @ b) = Inr (Inr (MessageLength h, k, OpCodeReply, b, None))"
    using readMsgHeader_plain [of h dc b] assms(3,4) by simp
  then show ?thesis
    using assms(1,2,5)
    by (auto simp: readRound_def readBody_def readOpReply_def OpCodeReply_def readFull_raw_def kill_def Let_def)
qed

text \<open>
  The sections of a compressed \<open>OP_MSG\<close> without a checksum are read with the length of the compressed
  message: of the sections that the server sent, the function that waits gets as many bytes as
  the compressed message is long, less four; when they are fewer, the connection is killed.
\<close>

theorem compressed_sections_wrong:
  assumes "hOpCode h = OpCodeCompressed" "sint (MessageLength h) = 16 + int (length z)" "17 \<le> int (length z)"
    and "dc (header_bytes h @ z) = Inr (header_bytes h' @ enc32 flags @ sections)"
    and "hOpCode h' = OpCodeMessage" "flags AND MsgFlagChecksumPresent = 0"
    and "map_of (replyFuncs s) (ResponseTo h) = Some f"
  shows "\<exists>s' evs inp'. readRound dc s (header_bytes h @ z @ rest) = Inr (s', evs, inp') \<and>
    (if length z - 4 \<le> length sections
     then no_deadlines evs = [Called f None (MsgReply flags 0 (take (length z - 4) sections))] \<and> inp' = Some rest
     else dead s' \<noteq> None \<and> inp' = None)"
proof -
  have c: "hOpCode h = 2012" "hOpCode h' = 2013" using assms(1,5) by (simp_all add: opcode_defs)
  have l: "sint (MessageLength h - 16) = int (length z)" using assms(2) sint_lt [of "MessageLength h"] by (subst sint_minus16) simp_all
  have cp: "copyN (int (length z)) (z @ rest) = ((z, None), rest)" using assms(3) by (simp add: copyN_def)
  have hd: "readMsgHeader dc (header_bytes h @ z @ rest) =
      Inr (Inr (MessageLength h, ResponseTo h, 2013, enc32 flags @ sections, Some rest))"
    using getInt32_header [of h "[]"] getInt32_header12 [of h "[]"] getInt32_header12 [of h' "[]"] c l cp assms(4)
    by (simp add: readMsgHeader_def readFull_raw_def)
  have nz: "nat (int (length z) - 4) = length z - 4" "4 \<le> length z" using assms(3) by simp_all
  have body: "readBody (Some f) (MessageLength h) 2013 (enc32 flags @ sections) =
      (if length z - 4 \<le> length sections
       then Inr (None, [Called f None (MsgReply flags 0 (take (length z - 4) sections))], drop (length z - 4) sections)
       else Inr (Some (if sections = [] then EOF else UnexpectedEOF), [], []))"
    using assms(2,3,6) nz
    by (auto simp: readBody_def readMessage_def readFull_raw_def Let_def call_opt_def)
  show ?thesis
    using assms(7) by (simp add: readRound_def hd body Let_def kill_def no_deadlines_def)
qed

subsection \<open>Examples\<close>

definition ex_requests :: "nat request list" where
  "ex_requests =
     [\<lparr>reqOp = OpGetMore \<lparr>gHeader = zeroHeader, gCollection = ''d.c'', gLimit = 0, gCursorId = 5\<rparr>,
       reqMode = zeroQueryMode, reqFn = Some 7\<rparr>,
      \<lparr>reqOp = ex_update, reqMode = zeroQueryMode, reqFn = Some 8\<rparr>]"

theorem Query_sends_witness:
  "\<exists>msgs s' evs. Query (\<lambda>_. None) NewDumbSocket ex_requests = Inr (None, s', evs) \<and>
     [b. Written b \<leftarrow> evs] = [concat msgs] \<and> length msgs = 2 \<and> map_of (replyFuncs s') 1 = Some 7"
proof -
  have "fits TM TD (GD [(''x'', GNil)])" by (auto intro!: fits.intros simp: nul_free_def raw_def)
  then have ok: "\<forall>r\<in>set ex_requests. op_ok (serverInfo (NewDumbSocket :: nat MongoSocket)) (reqMode r) (reqOp r)"
    using ex_doc_fits by (auto simp: ex_requests_def ex_update_def doc_ok_def nul_free_def raw_def)
  have s: "dead (NewDumbSocket :: nat MongoSocket) = None" "logout (NewDumbSocket :: nat MongoSocket) = []"
    "length ex_requests < 2 ^ 32" "first_id (NewDumbSocket :: nat MongoSocket) = 1"
    by (simp_all add: NewDumbSocket_def ex_requests_def first_id_def)
  have i: "replyFn (ex_requests ! 0) = Some 7" "request_ids 1 ex_requests ! 0 = 1" "length ex_requests = 2"
    by (simp_all add: ex_requests_def replyFn_def)
  obtain msgs s' evs where q: "Query (\<lambda>_. None) NewDumbSocket ex_requests = Inr (None, s', evs)"
    "[b. Written b \<leftarrow> evs] = [concat msgs]" "length msgs = length ex_requests"
    "\<forall>i<length ex_requests. \<forall>f. replyFn (ex_requests ! i) = Some f \<longrightarrow>
       map_of (replyFuncs s') (request_ids 1 ex_requests ! i) = Some f"
    using Query_sends [OF s(1-3) ok, of "\<lambda>_. None" "\<lambda>_. Inl Hang"] unfolding s(4) by blast
  then have "map_of (replyFuncs s') 1 = Some 7" using i by force
  with q(1-3) i(3) show ?thesis by auto
qed

definition ex_socket :: "nat MongoSocket" where
  "ex_socket = NewDumbSocket\<lparr>replyFuncs := [(1, 7), (2, 8), (3, 9)]\<rparr>"

definition ex_answers :: "(MsgHeader \<times> answer) list" where
  "ex_answers =
     [(zeroHeader\<lparr>MessageLength := 21, ResponseTo := 2, hOpCode := OpCodeMessage\<rparr>, AnswerMsg 0 0 [6]),
      (zeroHeader\<lparr>MessageLength := 36, ResponseTo := 1, hOpCode := OpCodeReply\<rparr>, AnswerLegacy 8 0 0 [])]"

theorem answers_arrive_witness:
  "\<exists>evs. readLoop 3 (\<lambda>_. Inl Hang) ex_socket [] (concat (map (\<lambda>(h, a). answer_bytes h a) ex_answers)) =
      Inr (ex_socket\<lparr>dead := Some EOF, replyFuncs := []\<rparr>, evs) \<and>
    no_deadlines evs = [Called 8 None (MsgReply 0 0 [6]),
      Called 7 None (LegacyReply (Some (legacy_reply 8 0 0 [])) (-1) []),
      ConnClosed, Called 9 (Some EOF) NoReply, Abended]"
proof -
  have a: "dead ex_socket = None" "distinct (map (\<lambda>(h, a). ResponseTo h) ex_answers)"
    "\<forall>(h, a)\<in>set ex_answers. answer_header h a"
    by (simp_all add: ex_socket_def NewDumbSocket_def ex_answers_def answer_header_def)
  have l: "Suc (length ex_answers) = 3" by (simp add: ex_answers_def)
  have r: "remove_ids ex_answers (replyFuncs ex_socket) = [(3, 9)]"
    by (simp add: remove_ids_def answered_def ex_answers_def ex_socket_def)
  show ?thesis
    using answers_arrive [OF a, of "\<lambda>_. Inl Hang"] unfolding l r
    by (simp add: ex_answers_def ex_socket_def call_opt_def)
qed


theorem lost_reply_witness:
  "\<exists>e. readLoop 1 (\<lambda>_. Inl Hang) (NewDumbSocket\<lparr>replyFuncs := [(1, 7 :: nat)]\<rparr>) []
      (header_bytes (zeroHeader\<lparr>MessageLength := 100, ResponseTo := 1, hOpCode := OpCodeReply\<rparr>) @ [8, 0, 0]) =
    Inr (NewDumbSocket\<lparr>dead := Some e, replyFuncs := []\<rparr>, [ConnClosed, Abended])"
  using lost_reply [of "NewDumbSocket\<lparr>replyFuncs := [(1, 7 :: nat)]\<rparr>" 1 7
    "zeroHeader\<lparr>MessageLength := 100, ResponseTo := 1, hOpCode := OpCodeReply\<rparr>" "[8, 0, 0]" "\<lambda>_. Inl Hang"]
  by (simp add: NewDumbSocket_def)

theorem compressed_sections_wrong_witness:
  "\<exists>s' evs. readRound (\<lambda>_. Inr (header_bytes (zeroHeader\<lparr>hOpCode := OpCodeMessage\<rparr>) @ enc32 0 @ replicate 20 6))
      ex_socket (header_bytes (zeroHeader\<lparr>MessageLength := 36, ResponseTo := 1, hOpCode := OpCodeCompressed\<rparr>) @
        replicate 20 0 @ []) = Inr (s', evs, Some []) \<and>
     no_deadlines evs = [Called 7 None (MsgReply 0 0 (replicate 16 6))]"
  using compressed_sections_wrong [of "zeroHeader\<lparr>MessageLength := 36, ResponseTo := 1, hOpCode := OpCodeCompressed\<rparr>"
      "replicate 20 0" "\<lambda>_. Inr (header_bytes (zeroHeader\<lparr>hOpCode := OpCodeMessage\<rparr>) @ enc32 0 @ replicate 20 6)"
      "zeroHeader\<lparr>hOpCode := OpCodeMessage\<rparr>" 0 "replicate 20 6" ex_socket 7 "[]"]
  by (auto simp: zeroHeader_def ex_socket_def)

end
