(* ===== verification/Bson_Fields.thy ===== *)
theory Bson_Fields
  imports Bson_Correct
begin

text \<open>
  Reading some fields of a document that has others: decoding an encoded document into a struct
  skips the elements that the struct does not name, whatever they hold, and gives each named
  field its element.
\<close>

subsection \<open>Elements that are read for their extent only\<close>

text \<open>
  \<open>settles m t k p r\<close>: the bytes \<open>p\<close> of an element of kind \<open>k\<close>, read into a fresh variable of
  type \<open>t\<close>, always give \<open>r\<close> (whether the types fitted and the new contents) and are consumed.
\<close>

definition settles :: "gotype \<Rightarrow> gotype \<Rightarrow> byte \<Rightarrow> bytes \<Rightarrow> bool \<times> goval \<Rightarrow> bool" where
  "settles m t k p r \<longleftrightarrow>
     (\<forall>n pre post. 2 * length p + 3 \<le> n \<longrightarrow> length (pre @ p @ post) < 2 ^ 31 \<longrightarrow>
        readElemTo n t (zero_of t) k m (pre @ p @ post) (length pre) = Inr (fst r, snd r, length pre + length p))"

lemma settlesD:
  "settles m t k p r \<Longrightarrow> inp = pre @ p @ post \<Longrightarrow> 2 * length p + 3 \<le> n \<Longrightarrow> length inp < 2 ^ 31 \<Longrightarrow>
     readElemTo n t (zero_of t) k m inp (length pre) = Inr (fst r, snd r, length pre + length p)"
  unfolding settles_def by blast

definition skippable :: "goval \<Rightarrow> bool" where
  "skippable v \<longleftrightarrow> (\<exists>k p. encodes v k p \<and>
     (\<forall>m\<in>{TM, TD}. \<forall>t\<in>{TIface, TStruct []}. \<exists>r. settles m t k p r))"

lemma skippable_encodes: "skippable v \<Longrightarrow> \<exists>k p. encodes v k p \<and> True"
  unfolding skippable_def by blast

lemma encodes_unique: "encodes v k p \<Longrightarrow> encodes v k' p' \<Longrightarrow> k = k' \<and> p = p'"
  unfolding encodes_def by (metis append_Cons elemName_def list.inject same_append_eq sum.inject(2))

text \<open>For the elements of a document there is then one function of the element.\<close>

lemma skippable_results:
  assumes "\<forall>x\<in>set es. skippable (snd x)" "m \<in> {TM, TD}" "t \<in> {TIface, TStruct []}"
  obtains r where "\<forall>x\<in>set es. \<exists>k p. encodes (snd x) k p \<and> settles m t k p (r x)"
proof -
  have "\<forall>x\<in>set es. \<exists>r. \<exists>k p. encodes (snd x) k p \<and> settles m t k p r"
    using assms unfolding skippable_def by meson
  then show thesis using bchoice that by meson
qed

lemma settles_assign:
  assumes "reads_back m0 TIface v k p" "k \<noteq> 3" "k \<noteq> 4" "t \<in> {TIface, TStruct []}"
  shows "settles m t k p (assign t (zero_of t) v)"
  unfolding settles_def
proof (intro allI impI)
  fix n pre post assume n: "2 * length p + 3 \<le> n" and l: "length (pre @ p @ post) < 2 ^ 31"
  obtain n' where n': "n = Suc n'" using n by (cases n) auto
  have "readElemTo n TIface GNil k m0 (pre @ p @ post) (length pre) = Inr (True, v, length pre + length p)"
    by (rule reads_backD [OF assms(1) refl n l])
  then have "readValue (readElemTo n') TIface k m0 (pre @ p @ post) (length pre) = Inr (v, length pre + length p)"
    using assms(2) by (auto simp: n' rbind_eq_Inr assign_def split: if_splits)
  then have "readValue (readElemTo n') t k m (pre @ p @ post) (length pre) = Inr (v, length pre + length p)"
    using assms(3) by (auto simp: readValue_def split: if_splits)
  then show "readElemTo n t (zero_of t) k m (pre @ p @ post) (length pre) =
      Inr (fst (assign t (zero_of t) v), snd (assign t (zero_of t) v), length pre + length p)"
    using assms(2,4) by (auto simp: n' Let_def split: prod.split)
qed

lemma skippable_other:
  assumes "encodes v k p" "reads_back m0 TIface v k p" "k \<noteq> 3" "k \<noteq> 4"
  shows "skippable v"
  unfolding skippable_def using assms(1) settles_assign [OF assms(2-4)] by blast

subsection \<open>Documents\<close>

text \<open>The frame of a document whose elements settle, for what the reader makes of each.\<close>

lemma readDocWith_settled:
  assumes "inp = pre @ docBytes (enc_elems xs) @ post" "length inp < 2 ^ 31" "2 * length (enc_elems xs) \<le> n"
    and "\<forall>(k, p, x)\<in>set xs. k \<noteq> 0 \<and> nul_free (fst x) \<and> settles m t k p (r x)"
  shows "readDocWith (\<lambda>acc kind name i. rbind (readElemTo n t (zero_of t) kind m inp i)
       (\<lambda>(good, v, i). Inr (h acc name good v, i))) acc0 inp (length pre) =
    Inr (fold (\<lambda>x acc. h acc (fst x) (fst (r x)) (snd (r x))) (map (\<lambda>(k, p, x). x) xs) acc0,
      length pre + length (docBytes (enc_elems xs)))"
proof (rule readDocWith_xs [OF assms(1,2)])
  show "\<forall>(k, p, x)\<in>set xs. k \<noteq> 0 \<and> nul_free (fst x)" using assms(4) by auto
  fix x k p acc pre post assume x: "(k, p, x) \<in> set xs" "inp = pre @ p @ post"
  have "settles m t k p (r x)" using assms(4) x(1) by auto
  then have "readElemTo n t (zero_of t) k m inp (length pre) = Inr (fst (r x), snd (r x), length pre + length p)"
    using settlesD [OF _ x(2)] assms(2,3) enc_elems_len [OF x(1)] by fastforce
  then show "rbind (readElemTo n t (zero_of t) k m inp (length pre)) (\<lambda>(good, v, i). Inr (h acc (fst x) good v, i)) =
      Inr (h acc (fst x) (fst (r x)) (snd (r x)), length pre + length p)" by simp
qed

lemma readDocTo_settled:
  assumes "\<And>x. x \<in> set es \<Longrightarrow> nul_free (fst x) \<and> skippable (snd x)" "m \<in> {TM, TD}" "t \<in> {TIface, TStruct []}"
    and b: "addElems es = Inr b"
  obtains v where "\<And>n inp pre post. inp = pre @ docBytes b @ post \<Longrightarrow> length inp < 2 ^ 31 \<Longrightarrow> 2 * length b \<le> n \<Longrightarrow>
       readDocTo (readElemTo n) t (zero_of t) m inp (length pre) = Inr (v, length pre + length (docBytes b))"
proof -
  define t' where "t' = (if t = TIface then TIface else TStruct [])"
  have t': "t' = t" using assms(3) by (auto simp: t'_def)
  obtain r where r: "\<forall>x\<in>set es. \<exists>k p. encodes (snd x) k p \<and> settles m t' k p (r x)"
    by (rule skippable_results [of es m t']) (use assms t' in auto)
  have r': "\<forall>x\<in>set es. \<exists>k p. encodes (snd x) k p \<and> nul_free (fst x) \<and> settles m t' k p (r x)"
    using r assms(1) by blast
  obtain xs where xs: "addElems es = Inr (enc_elems xs)" "map (\<lambda>(k, p, x). x) xs = es"
    "\<forall>(k, p, x)\<in>set xs. k \<noteq> 0 \<and> nul_free (fst x) \<and> settles m t' k p (r x)"
    by (rule encode_elems [OF r'])
  have bx: "b = enc_elems xs" using xs(1) b by simp
  note rd = readDocWith_settled [OF _ _ _ xs(3), unfolded xs(2)]
  show thesis
  proof (cases "t = TIface")
    case True
    show thesis
    proof (rule that)
      fix n inp pre post
      assume i: "inp = pre @ docBytes b @ post" "length inp < 2 ^ 31" "2 * length b \<le> n"
      then show "readDocTo (readElemTo n) t (zero_of t) m inp (length pre) =
          Inr (if m = TD then GD (fold (\<lambda>x acc. if fst (r x) then acc @ [(fst x, snd (r x))] else acc) es [])
               else GM (fold (\<lambda>x acc. if fst (r x) then map_put (fst x) (snd (r x)) acc else acc) es []),
            length pre + length (docBytes b))"
        using rd [of inp pre post n "\<lambda>acc name good v. if good then acc @ [(name, v)] else acc" "[]"]
          rd [of inp pre post n "\<lambda>acc name good v. if good then map_put name v acc else acc" "[]"]
          True t' assms(2) by (auto simp: bx readDocElems_def readMap_def rmap_def)
    qed
  next
    case False
    then have ts: "t = TStruct []" using assms(3) by auto
    show thesis
    proof (rule that)
      fix n inp pre post
      assume i: "inp = pre @ docBytes b @ post" "length inp < 2 ^ 31" "2 * length b \<le> n"
      have e: "(\<lambda>acc kind name i. rbind (dropElem (readElemTo n) kind m inp i) (\<lambda>i. Inr (acc, i))) =
          (\<lambda>acc kind name i. rbind (readElemTo n (TStruct []) (zero_of (TStruct [])) kind m inp i)
             (\<lambda>(good, v, i). Inr ((\<lambda>acc name good v. acc) acc name good v, i)))"
        by (auto simp: fun_eq_iff dropElem_def rbind_def split: sum.split)
      have "fold (\<lambda>x acc. acc) es acc = acc" for acc :: "(string \<times> bool \<times> goval) list"
        by (induction es) auto
      then have "readDocWith (\<lambda>acc kind name i. rbind (dropElem (readElemTo n) kind m inp i) (\<lambda>i. Inr (acc, i)))
          ([] :: (string \<times> bool \<times> goval) list) inp (length pre) = Inr ([], length pre + length (docBytes b))"
        using rd [OF i(1) [unfolded bx] i(2) i(3) [unfolded bx], of "\<lambda>acc name good v. acc" "[] :: (string \<times> bool \<times> goval) list"] ts t'
        unfolding e by (simp add: bx)
      then show "readDocTo (readElemTo n) t (zero_of t) m inp (length pre) = Inr (GStruct [], length pre + length (docBytes b))"
        by (simp add: ts readStruct_def rmap_def zero_fields_def)
    qed
  qed
qed

lemma skippable_doc:
  assumes "\<And>nm. addElem nm v = rbind (addElems es) (\<lambda>b. Inr (elemName 3 nm @ docBytes b))"
    and "\<And>x. x \<in> set es \<Longrightarrow> nul_free (fst x) \<and> skippable (snd x)"
  shows "skippable v"
proof -
  have "\<forall>x\<in>set es. \<exists>k p. encodes (snd x) k p \<and> True" using assms(2) skippable_encodes by blast
  from encode_elems [OF this] obtain b where b: "addElems es = Inr b" by blast
  have "\<exists>r. settles m t 3 (docBytes b) r" if mt: "m \<in> {TM, TD}" "t \<in> {TIface, TStruct []}" for m t
  proof -
    obtain w where w: "\<And>n inp pre post. inp = pre @ docBytes b @ post \<Longrightarrow> length inp < 2 ^ 31 \<Longrightarrow> 2 * length b \<le> n \<Longrightarrow>
        readDocTo (readElemTo n) t (zero_of t) m inp (length pre) = Inr (w, length pre + length (docBytes b))"
      by (rule readDocTo_settled [OF assms(2) mt b]) auto
    have "settles m t 3 (docBytes b) (True, w)"
      unfolding settles_def
    proof (intro allI impI)
      fix n pre post
      assume n: "2 * length (docBytes b) + 3 \<le> n" and l: "length (pre @ docBytes b @ post) < 2 ^ 31"
      obtain n' where n': "n = Suc n'" using n by (cases n) auto
      have "2 * length b \<le> n'" using n n' by (simp add: docBytes_def sized_def)
      then show "readElemTo n t (zero_of t) 3 m (pre @ docBytes b @ post) (length pre) =
          Inr (fst (True, w), snd (True, w), length pre + length (docBytes b))"
        using w [OF refl l] mt(2) by (auto simp: n')
    qed
    then show ?thesis by blast
  qed
  moreover have "encodes v 3 (docBytes b)" using assms(1) b by (simp add: encodes_def)
  ultimately show ?thesis unfolding skippable_def by blast
qed

lemma skippable_slice:
  assumes "\<forall>v\<in>set vs. skippable v"
  shows "skippable (GSlice vs)"
proof -
  let ?es = "map (\<lambda>(j, v). (itoa (int j), v)) (enumerate 0 vs)"
  have sk: "\<forall>x\<in>set ?es. skippable (snd x)" and nf: "\<forall>x\<in>set ?es. nul_free (fst x)"
    using assms by (auto simp: nul_free_itoa enumerate_eq_zip dest: set_zip_rightD)
  have "\<forall>x\<in>set ?es. \<exists>k p. encodes (snd x) k p \<and> True" using sk skippable_encodes by blast
  from encode_elems [OF this] obtain b where "addElems ?es = Inr b" by blast
  then have b: "addSlice 0 vs = Inr b" by (simp add: addSlice_elems)
  have "\<exists>r. settles m t 4 (docBytes b) r" if mt: "m \<in> {TM, TD}" "t \<in> {TIface, TStruct []}" for m t
  proof -
    obtain r where "\<forall>x\<in>set ?es. \<exists>k p. encodes (snd x) k p \<and> settles m TIface k p (r x)"
      by (rule skippable_results [OF sk mt(1), of TIface]) auto
    with nf have r': "\<forall>x\<in>set ?es. \<exists>k p. encodes (snd x) k p \<and> nul_free (fst x) \<and> settles m TIface k p (r x)" by blast
    obtain xs where xs: "addElems ?es = Inr (enc_elems xs)" "map (\<lambda>(k, p, x). x) xs = ?es"
      "\<forall>(k, p, x)\<in>set xs. k \<noteq> 0 \<and> nul_free (fst x) \<and> settles m TIface k p (r x)"
      by (rule encode_elems [OF r'])
    have bx: "b = enc_elems xs" using xs(1) b by (simp add: addSlice_elems)
    define ws where "ws = fold (\<lambda>x acc. if fst (r x) then acc @ [snd (r x)] else acc) (map (\<lambda>(k, p, x). x) xs) []"
    have "settles m t 4 (docBytes b) (assign t (zero_of t) (GSlice ws))"
      unfolding settles_def
    proof (intro allI impI)
      fix n pre post
      let ?inp = "pre @ docBytes b @ post"
      assume n: "2 * length (docBytes b) + 3 \<le> n" and l: "length ?inp < 2 ^ 31"
      obtain n' where n': "n = Suc n'" using n by (cases n) auto
      have nb: "2 * length b \<le> n'" using n n' by (simp add: docBytes_def sized_def)
      have "readSliceElems (readElemTo n') TIface m ?inp (length pre) = Inr (ws, length pre + length (docBytes b))"
        unfolding readSliceElems_def ws_def bx
      proof (rule readSlice_xs [OF refl])
        show "length (pre @ docBytes (enc_elems xs) @ post) < 2 ^ 31" using l bx by simp
        show "\<forall>(k, p, x)\<in>set xs. k \<noteq> 0 \<and> nul_free (fst x)" using xs(3) by auto
        fix x k p acc pre' post'
        assume x: "(k, p, x) \<in> set xs" "pre @ docBytes (enc_elems xs) @ post = pre' @ p @ post'"
        have "settles m TIface k p (r x)" using xs(3) x(1) by auto
        then have "readElemTo n' TIface (zero_of TIface) k m (pre @ docBytes (enc_elems xs) @ post) (length pre') =
            Inr (fst (r x), snd (r x), length pre' + length p)"
          using settlesD [OF _ x(2)] l nb enc_elems_len [OF x(1)] bx by fastforce
        then show "rbind (readElemTo n' TIface (zero_of TIface) k m (pre @ docBytes (enc_elems xs) @ post) (length pre'))
            (\<lambda>(good, v, i). Inr (if good then acc @ [v] else acc, i)) =
            Inr (if fst (r x) then acc @ [snd (r x)] else acc, length pre' + length p)" by simp
      qed
      then show "readElemTo n t (zero_of t) 4 m ?inp (length pre) =
          Inr (fst (assign t (zero_of t) (GSlice ws)), snd (assign t (zero_of t) (GSlice ws)),
            length pre + length (docBytes b))"
        using mt(2) by (auto simp: n' readValue_def readSliceDoc_def rmap_def Let_def split: prod.split)
    qed
    then show ?thesis by blast
  qed
  moreover have "encodes (GSlice vs) 4 (docBytes b)" using b by (simp add: encodes_def)
  ultimately show ?thesis unfolding skippable_def by blast
qed

lemma fits_iface_kind:
  assumes "fits m TIface v" "\<And>es. v \<noteq> GD es" "\<And>es. v \<noteq> GM es" "\<And>vs. v \<noteq> GSlice vs" "encodes v k p"
  shows "k \<noteq> 3 \<and> k \<noteq> 4"
  using assms(1) 
  by (cases rule: fits.cases)
    (use assms(2-5) in \<open>auto simp: encodes_def elemName_def rbind_eq_Inr split: if_splits\<close>)

lemma fits_skippable: "fits m TIface v \<Longrightarrow> skippable v"
proof (induction v arbitrary: m rule: measure_induct_rule [of size])
  case (less v)
  have small: "x \<in> set es \<Longrightarrow> size (snd x) < Suc (size_list (size_prod (\<lambda>_. 0) size) es)" for x and es :: "(string \<times> goval) list"
    using size_list_estimation' [of x es "size (snd x)" "size_prod (\<lambda>_. 0) size"] by (cases x) auto
  consider es where "v = GD es" | es where "v = GM es" | vs where "v = GSlice vs"
    | "\<And>es. v \<noteq> GD es" "\<And>es. v \<noteq> GM es" "\<And>vs. v \<noteq> GSlice vs" by blast
  then show ?case
  proof cases
    case (1 es)
    have "nul_free (fst x) \<and> skippable (snd x)" if x: "x \<in> set es" for x
    proof -
      have "nul_free (fst x)" "fits TD TIface (snd x)" using less.prems 1 x by (auto elim: fits.cases)
      with less.IH [of "snd x" TD] small [OF x] 1 show ?thesis by simp
    qed
    then show ?thesis by (rule skippable_doc [where es = es, rotated]) (auto simp: 1 rbind_def split: sum.split)
  next
    case (2 es)
    have "nul_free (fst x) \<and> skippable (snd x)" if x: "x \<in> set es" for x
    proof -
      have "nul_free (fst x)" "fits TM TIface (snd x)" using less.prems 2 x by (auto elim: fits.cases)
      with less.IH [of "snd x" TM] small [OF x] 2 show ?thesis by simp
    qed
    then show ?thesis by (rule skippable_doc [where es = es, rotated]) (auto simp: 2 rbind_def split: sum.split)
  next
    case (3 vs)
    have "skippable w" if w: "w \<in> set vs" for w
    proof -
      have "fits m TIface w" using less.prems 3 w by (auto elim: fits.cases)
      moreover have "size w < size v" using w 3 size_list_estimation' [of w vs "size w" size] by simp
      ultimately show ?thesis using less.IH by blast
    qed
    then show ?thesis unfolding 3 by (intro skippable_slice ballI)
  next
    case 4
    obtain k p where kp: "encodes v k p" "reads_back m TIface v k p" using fits_round [OF less.prems] by blast
    then show ?thesis using fits_iface_kind [OF less.prems 4 kp(1)] skippable_other by blast
  qed
qed

subsection \<open>A struct read from a document\<close>

definition put_field :: "(string \<times> bool \<times> gotype) list \<Rightarrow> (string \<times> goval \<Rightarrow> goval) \<Rightarrow>
    string \<times> goval \<Rightarrow> (string \<times> bool \<times> goval) list \<Rightarrow> (string \<times> bool \<times> goval) list" where
  "put_field gs fv x acc = (case field_of gs (fst x) of None \<Rightarrow> acc | Some t \<Rightarrow> set_field (fst x) (fv x) acc)"

lemma reads_fields:
  assumes "\<And>x. x \<in> set es \<Longrightarrow> nul_free (fst x) \<and> skippable (snd x)" "m \<in> {TM, TD}"
    and fv: "\<And>x t k p. x \<in> set es \<Longrightarrow> field_of gs (fst x) = Some t \<Longrightarrow> encodes (snd x) k p \<Longrightarrow>
      reads_back m t (fv x) k p"
    and b: "addElems es = Inr b"
  shows "reads_back m (TStruct gs) (GStruct (fold (put_field gs fv) es (zero_fields gs))) 3 (docBytes b)"
proof -
  obtain r where r: "\<forall>x\<in>set es. \<exists>k p. encodes (snd x) k p \<and> settles m (TStruct []) k p (r x)"
    by (rule skippable_results [of es m "TStruct []"]) (use assms(1,2) in auto)
  have "\<forall>x\<in>set es. \<exists>k p. encodes (snd x) k p \<and> nul_free (fst x) \<and> settles m (TStruct []) k p (r x) \<and>
      (\<forall>t. field_of gs (fst x) = Some t \<longrightarrow> reads_back m t (fv x) k p)"
    using r assms(1) fv by blast
  then obtain xs where xs: "addElems es = Inr (enc_elems xs)" "map (\<lambda>(k, p, x). x) xs = es"
    "\<forall>(k, p, x)\<in>set xs. k \<noteq> 0 \<and> nul_free (fst x) \<and> settles m (TStruct []) k p (r x) \<and>
      (\<forall>t. field_of gs (fst x) = Some t \<longrightarrow> reads_back m t (fv x) k p)"
    by (rule encode_elems)
  have bx: "b = enc_elems xs" using xs(1) b by simp
  have "frame_reads (\<lambda>elem. readStruct elem gs m) b (GStruct (fold (put_field gs fv) es (zero_fields gs)))"
    unfolding frame_reads_def readStruct_def
  proof (intro allI impI)
    fix n inp pre post
    assume i: "inp = pre @ docBytes b @ post" "length inp < 2 ^ 31" "2 * length b \<le> n"
    let ?f = "\<lambda>acc kind name i. case field_of gs name of
          Some t \<Rightarrow>
            rbind (readElemTo n t (field_value name acc) kind m inp i) (\<lambda>(_, v, i). Inr (set_field name v acc, i))
        | None \<Rightarrow> rbind (dropElem (readElemTo n) kind m inp i) (\<lambda>i. Inr (acc, i))"
    have "readDocWith ?f (zero_fields gs) inp (length pre) = Inr (fold (put_field gs fv)
        (map (\<lambda>(k, p, x). x) xs) (zero_fields gs), length pre + length (docBytes (enc_elems xs)))"
    proof (rule readDocWith_xs [OF i(1) [unfolded bx] i(2)])
      show "\<forall>(k, p, x)\<in>set xs. k \<noteq> 0 \<and> nul_free (fst x)" using xs(3) by auto
      fix x k p pre post and acc :: "(string \<times> bool \<times> goval) list"
      assume x: "(k, p, x) \<in> set xs" "inp = pre @ p @ post"
      have n: "2 * length p + 3 \<le> n" using i(3) enc_elems_len [OF x(1)] bx by simp
      have st: "settles m (TStruct []) k p (r x)" and rb: "\<And>t. field_of gs (fst x) = Some t \<Longrightarrow> reads_back m t (fv x) k p"
        using xs(3) x(1) by auto
      show "?f acc k (fst x) (length pre) = Inr (put_field gs fv x acc, length pre + length p)"
      proof (cases "field_of gs (fst x)")
        case None
        have "readElemTo n (TStruct []) (zero_of (TStruct [])) k m inp (length pre) = Inr (fst (r x), snd (r x), length pre + length p)"
          by (rule settlesD [OF st x(2) n i(2)])
        with None show ?thesis by (simp add: dropElem_def put_field_def)
      next
        case (Some t)
        have "readElemTo n t old k m inp (length pre) = Inr (True, fv x, length pre + length p)" for old
          by (rule reads_backD [OF rb [OF Some] x(2) n i(2)])
        with Some show ?thesis by (simp add: put_field_def)
      qed
    qed
    then show "rmap GStruct (readDocWith ?f (zero_fields gs) inp (length pre)) =
        Inr (GStruct (fold (put_field gs fv) es (zero_fields gs)), length pre + length (docBytes b))"
      by (simp add: rmap_def xs(2) bx)
  qed
  then have "frame_reads (\<lambda>elem. readDocTo elem (TStruct gs) GNil m) b
      (GStruct (fold (put_field gs fv) es (zero_fields gs)))"
    by (simp add: frame_reads_def)
  then show ?thesis by (rule reads_back_doc) auto
qed

text \<open>What the fields are after reading a document whose names are distinct.\<close>

lemma set_field_map:
  "distinct (map fst acc) \<Longrightarrow> set_field k v acc = map (\<lambda>(k', oe, a). (k', oe, if k' = k then v else a)) acc"
proof (induction acc)
  case (Cons x acc)
  obtain k' oe a where x: "x = (k', oe, a)" by (cases x)
  have "map (\<lambda>(k', oe, a). (k', oe, if k' = k then v else a)) acc = acc" if "k' = k"
    by (rule map_idI) (use Cons.prems x that in force)
  with Cons x show ?case by auto
qed simp

lemma field_of_None: "field_of gs k = None \<longleftrightarrow> k \<notin> fst ` set gs"
proof (induction gs)
  case (Cons x gs)
  then show ?case by (cases x) auto
qed simp

definition read_fields :: "(string \<times> goval) list \<Rightarrow> (string \<times> goval \<Rightarrow> goval) \<Rightarrow>
    (string \<times> bool \<times> goval) list \<Rightarrow> (string \<times> bool \<times> goval) list" where
  "read_fields es fv = map (\<lambda>(k, oe, a). (k, oe, case map_of es k of Some v \<Rightarrow> fv (k, v) | None \<Rightarrow> a))"

lemma read_fields_Cons:
  assumes "k \<notin> fst ` set es"
  shows "read_fields es fv (map (\<lambda>(k', oe, a). (k', oe, if k' = k then fv (k, v) else a)) acc) = read_fields ((k, v) # es) fv acc"
proof -
  have "map_of es k = None" using assms by (simp add: map_of_eq_None_iff)
  then show ?thesis by (auto simp: read_fields_def)
qed

lemma fold_put_field:
  "distinct (map fst es) \<Longrightarrow> distinct (map fst acc) \<Longrightarrow> map fst acc = map fst gs \<Longrightarrow>
     fold (put_field gs fv) es acc = read_fields es fv acc"
proof (induction es arbitrary: acc)
  case Nil
  then show ?case by (auto simp: read_fields_def intro!: map_idI [symmetric])
next
  case (Cons x es)
  obtain k v where x: "x = (k, v)" by (cases x)
  have new: "put_field gs fv x acc = map (\<lambda>(k', oe, a). (k', oe, if k' = k then fv (k, v) else a)) acc"
  proof (cases "field_of gs k")
    case None
    then have "k \<notin> set (map fst acc)" using Cons.prems(3) by (simp add: field_of_None)
    then have "map (\<lambda>(k', oe, a). (k', oe, if k' = k then fv (k, v) else a)) acc = acc" by (intro map_idI) force
    with None x show ?thesis by (simp add: put_field_def)
  next
    case (Some t)
    with Cons.prems(2) x show ?thesis by (simp add: put_field_def set_field_map)
  qed
  have keys: "map fst (map (\<lambda>(k', oe, a). (k', oe, if k' = k then fv (k, v) else a)) acc) = map fst acc" by auto
  from Cons.IH [of "map (\<lambda>(k', oe, a). (k', oe, if k' = k then fv (k, v) else a)) acc"] Cons.prems x new
    read_fields_Cons [of k es fv v acc]
  show ?case by (simp add: keys del: map_map)
qed

lemma Raw_Unmarshal_reads_back:
  assumes "reads_back TM t v k p" "length p < 2 ^ 31"
  shows "Raw_Unmarshal t old k p = Inr v"
proof -
  have "readElemTo (unmarshal_fuel p) t old k TM p 0 = Inr (True, v, length p)"
    using reads_backD [OF assms(1) _ _ assms(2), where pre = "[]" and post = "[]"] by (simp add: unmarshal_fuel_def)
  then show ?thesis by (simp add: Raw_Unmarshal_def handleErr_def)
qed

lemma fits_GD_elems: "fits m t (GD es) \<Longrightarrow> x \<in> set es \<Longrightarrow> nul_free (fst x) \<and> fits TD TIface (snd x)"
  by (auto elim: fits.cases)

text \<open>A document whose elements can be skipped, and a struct that is read from it.\<close>

definition plain_doc :: "(string \<times> goval) list \<Rightarrow> bool" where
  "plain_doc es \<longleftrightarrow> distinct (map fst es) \<and> (\<forall>x\<in>set es. nul_free (fst x) \<and> skippable (snd x))"

lemma fits_plain_doc: "fits m t (GD es) \<Longrightarrow> distinct (map fst es) \<Longrightarrow> plain_doc es"
  using fits_GD_elems fits_skippable by (fastforce simp: plain_doc_def)

lemma struct_of_document:
  assumes "plain_doc es" "m \<in> {TM, TD}" "distinct (map fst gs)" "encodes (GD es) k p"
    and "\<And>x t k p. x \<in> set es \<Longrightarrow> field_of gs (fst x) = Some t \<Longrightarrow> encodes (snd x) k p \<Longrightarrow> reads_back m t (fv x) k p"
  shows "reads_back m (TStruct gs) (GStruct (read_fields es fv (zero_fields gs))) k p"
proof -
  from assms(4) have kp: "k = 3" "addDoc (GD es) = Inr p" using encodes_doc by blast+
  then obtain b where b: "addElems es = Inr b" "p = docBytes b" by (auto simp: rbind_eq_Inr)
  have keys: "map fst (zero_fields gs) = map fst gs" by (auto simp: zero_fields_def)
  have "fold (put_field gs fv) es (zero_fields gs) = read_fields es fv (zero_fields gs)"
    using assms(1,3) keys by (intro fold_put_field) (auto simp: plain_doc_def)
  moreover have "reads_back m (TStruct gs) (GStruct (fold (put_field gs fv) es (zero_fields gs))) 3 (docBytes b)"
    by (rule reads_fields [OF _ assms(2) assms(5) b(1)]) (use assms(1) in \<open>auto simp: plain_doc_def\<close>)
  ultimately show ?thesis using kp(1) b(2) by simp
qed

lemma reads_back_ptr:
  assumes "reads_back m (TStruct gs) v 3 p"
  shows "reads_back m (TPtr (TStruct gs)) v 3 p"
  unfolding reads_back_def
proof (intro allI impI)
  fix n old pre post assume n: "2 * length p + 3 \<le> n" and l: "length (pre @ p @ post) < 2 ^ 31"
  obtain n' where n': "n = Suc n'" using n by (cases n) auto
  have "readElemTo n (TStruct gs) old 3 m (pre @ p @ post) (length pre) = Inr (True, v, length pre + length p)"
    by (rule reads_backD [OF assms refl n l])
  then show "readElemTo n (TPtr (TStruct gs)) old 3 m (pre @ p @ post) (length pre) = Inr (True, v, length pre + length p)"
    by (simp add: n')
qed

lemma Marshal_encodes: "Marshal (GD es) = Inr d \<Longrightarrow> encodes (GD es) 3 d"
  by (auto simp: Marshal_def handleErr_def encodes_def rbind_eq_Inr split: sum.splits fault.splits if_splits)

lemma field_of_document:
  assumes "plain_doc es" "(k, v) \<in> set es" "\<And>kd p. encodes v kd p \<Longrightarrow> reads_back TM t w kd p"
    and "Marshal (GD es) = Inr d" "length d < 2 ^ 31"
  shows "Raw_Unmarshal (TStruct [(k, oe, t)]) old 3 d = Inr (GStruct [(k, oe, w)])"
proof -
  have "map_of es k = Some v" using assms(1,2) by (simp add: plain_doc_def)
  then have e: "read_fields es (\<lambda>_. w) (zero_fields [(k, oe, t)]) = [(k, oe, w)]"
    by (simp add: read_fields_def zero_fields_def)
  have "reads_back TM (TStruct [(k, oe, t)]) (GStruct (read_fields es (\<lambda>_. w) (zero_fields [(k, oe, t)]))) 3 d"
  proof (rule struct_of_document [OF assms(1) _ _ Marshal_encodes [OF assms(4)]])
    fix x t' kd p
    assume x: "x \<in> set es" "field_of [(k, oe, t)] (fst x) = Some t'" "encodes (snd x) kd p"
    then have "fst x = k" "t' = t" by (auto split: if_splits)
    moreover from this have "snd x = v" using x(1) assms(1,2) unfolding plain_doc_def by (metis eq_key_imp_eq_value prod.collapse)
    ultimately show "reads_back TM t' w kd p" using assms(3) x(3) by simp
  qed auto
  from Raw_Unmarshal_reads_back [OF this assms(5)] show ?thesis by (simp add: e)
qed

subsection \<open>Documents that stay raw\<close>

text \<open>The bytes of an encoded document, as a \<open>bson.Raw\<close>: encoded again they are themselves, and
  a variable of type \<open>Raw\<close> gets them as they are.\<close>

definition doc_bytes :: "bytes \<Rightarrow> bool" where
  "doc_bytes d \<longleftrightarrow> (\<exists>es. (\<forall>x\<in>set es. nul_free (fst x) \<and> skippable (snd x)) \<and> encodes (GD es) 3 d)"

lemma doc_bytes_Marshal: "plain_doc es \<Longrightarrow> Marshal (GD es) = Inr d \<Longrightarrow> doc_bytes d"
  using Marshal_encodes by (auto simp: doc_bytes_def plain_doc_def)

lemma encodes_raw: "doc_bytes d \<Longrightarrow> encodes (GRaw 3 d) 3 d"
proof -
  assume "doc_bytes d"
  then obtain es where "encodes (GD es) 3 d" by (auto simp: doc_bytes_def)
  then have "addDoc (GD es) = Inr d" using encodes_doc(2) by blast
  then have "d \<noteq> []" by (auto simp: rbind_eq_Inr docBytes_def sized_def)
  then show "encodes (GRaw 3 d) 3 d" by (simp add: encodes_def)
qed

lemma skippable_raw: "doc_bytes d \<Longrightarrow> skippable (GRaw 3 d)"
proof -
  assume d: "doc_bytes d"
  then obtain es where es: "\<forall>x\<in>set es. nul_free (fst x) \<and> skippable (snd x)" "encodes (GD es) 3 d"
    by (auto simp: doc_bytes_def)
  have "skippable (GD es)"
    by (rule skippable_doc [where es = es]) (use es(1) in \<open>auto simp: rbind_def split: sum.split\<close>)
  with es(2) encodes_unique encodes_raw [OF d] show ?thesis unfolding skippable_def by blast
qed

lemma reads_back_raw:
  assumes "doc_bytes d" "m \<in> {TM, TD}"
  shows "reads_back m TRaw (GRaw 3 d) 3 d"
proof -
  obtain es where es: "\<forall>x\<in>set es. nul_free (fst x) \<and> skippable (snd x)" "encodes (GD es) 3 d"
    using assms(1) by (auto simp: doc_bytes_def)
  then obtain b where b: "addElems es = Inr b" "d = docBytes b" using encodes_doc(2) by (fastforce simp: rbind_eq_Inr)
  obtain r where "\<forall>x\<in>set es. \<exists>k p. encodes (snd x) k p \<and> settles m (TStruct []) k p (r x)"
    by (rule skippable_results [of es m "TStruct []"]) (use es(1) assms(2) in auto)
  then have "\<forall>x\<in>set es. \<exists>k p. encodes (snd x) k p \<and> nul_free (fst x) \<and> settles m (TStruct []) k p (r x)"
    using es(1) by blast
  then obtain xs where xs: "addElems es = Inr (enc_elems xs)" "map (\<lambda>(k, p, x). x) xs = es"
    "\<forall>(k, p, x)\<in>set xs. k \<noteq> 0 \<and> nul_free (fst x) \<and> settles m (TStruct []) k p (r x)"
    by (rule encode_elems)
  have d: "d = docBytes (enc_elems xs)" using xs(1) b by simp
  have f: "fold (\<lambda>x acc. ()) ys acc = ()" for ys :: "(string \<times> goval) list" and acc by simp
  show ?thesis
    unfolding reads_back_def
  proof (intro allI impI)
    fix n old pre post assume n: "2 * length d + 3 \<le> n" and l: "length (pre @ d @ post) < 2 ^ 31"
    obtain n' where n': "n = Suc n'" using n by (cases n) auto
    have nb: "2 * length (enc_elems xs) \<le> n'" using n n' d by (simp add: docBytes_def sized_def)
    let ?inp = "pre @ d @ post"
    have e: "(\<lambda>(acc :: unit) kind name i. rbind (dropElem (readElemTo n') kind m ?inp i) (\<lambda>i. Inr ((), i))) =
        (\<lambda>acc kind name i. rbind (readElemTo n' (TStruct []) (zero_of (TStruct [])) kind m ?inp i)
           (\<lambda>(good, v, i). Inr ((\<lambda>acc name good v. ()) acc name good v, i)))"
      by (auto simp: fun_eq_iff dropElem_def rbind_def split: sum.split)
    have "readDocWith (\<lambda>acc kind name i. rbind (dropElem (readElemTo n') kind m ?inp i) (\<lambda>i. Inr ((), i)))
        () ?inp (length pre) = Inr ((), length pre + length d)"
      unfolding e using readDocWith_settled [OF _ l nb xs(3), of pre post "\<lambda>acc name good v. ()" "()"] d by simp
    then show "readElemTo n TRaw old 3 m ?inp (length pre) = Inr (True, GRaw 3 d, length pre + length d)"
      by (simp add: n' readRawDoc_def)
  qed
qed

lemma raw_batch:
  assumes "\<forall>d\<in>set ds. doc_bytes d" "m \<in> {TM, TD}"
  shows "skippable (GSlice (map (GRaw 3) ds))"
    "encodes (GSlice (map (GRaw 3) ds)) k p \<Longrightarrow> reads_back m (TSlice TRaw) (GSlice (map (GRaw 3) ds)) k p"
proof -
  show "skippable (GSlice (map (GRaw 3) ds))" using assms(1) skippable_raw by (intro skippable_slice) auto
  have "rtrip m TRaw v" if v: "v \<in> set (map (GRaw 3) ds)" for v
  proof -
    obtain d where "v = GRaw 3 d" "doc_bytes d" using v assms(1) by auto
    then show ?thesis using encodes_raw reads_back_raw [OF _ assms(2)] by blast
  qed
  then have "rtrip m (TSlice TRaw) (GSlice (map (GRaw 3) ds))"
    by (intro round_GSlice [where u = TRaw] ballI) simp_all
  then show "encodes (GSlice (map (GRaw 3) ds)) k p \<Longrightarrow> reads_back m (TSlice TRaw) (GSlice (map (GRaw 3) ds)) k p"
    using encodes_unique by blast
qed

end
