(* ===== verification/Replies_Correct.thy ===== *)
theory Replies_Correct
  imports Replies Bson_Fields Ops_Correct
begin

text \<open>
  Rewriting the cursor of a getmore changes the document on the wire and nothing else of the
  message; shortening a reply leaves its first document.
\<close>

subsection \<open>The getMore field\<close>

definition set_cursor :: "int64 \<Rightarrow> (string \<times> goval) list \<Rightarrow> (string \<times> goval) list" where
  "set_cursor c es = map (\<lambda>(k, v). (k, if k = ''getMore'' then GInt64 c else v)) es"

lemma set_getMore_absent: "''getMore'' \<notin> fst ` set es \<Longrightarrow> set_getMore c es = es \<and> set_cursor c es = es"
  by (induction es) (auto simp: set_cursor_def)

lemma set_getMore_eq: "distinct (map fst es) \<Longrightarrow> set_getMore c es = set_cursor c es"
proof (induction es)
  case (Cons x es)
  obtain k v where x: "x = (k, v)" by (cases x)
  show ?case
  proof (cases "k = ''getMore''")
    case True
    with Cons.prems x have "''getMore'' \<notin> fst ` set es" by auto
    with set_getMore_absent [OF this] True x show ?thesis by (simp add: set_cursor_def)
  next
    case False
    with Cons x show ?thesis by (simp add: set_cursor_def)
  qed
qed (simp add: set_cursor_def)

lemma set_cursor_fits:
  assumes "fits m TD (GD es)"
  shows "fits m TD (GD (set_cursor c es))"
proof -
  have "fits TD TIface (GInt64 c)" by (rule fits.intros) simp
  moreover have "\<forall>x\<in>set es. nul_free (fst x) \<and> fits TD TIface (snd x)" using fits_GD_elems [OF assms] by blast
  ultimately have "\<forall>x\<in>set (set_cursor c es). nul_free (fst x) \<and> fits TD TIface (snd x)"
    unfolding set_cursor_def by fastforce
  then show ?thesis by (intro fits.intros) auto
qed

lemma set_cursor_keys [simp]: "map fst (set_cursor c es) = map fst es"
  unfolding set_cursor_def by (induction es) auto

lemma set_cursor_mem: "(''getMore'', v) \<in> set es \<Longrightarrow> (''getMore'', GInt64 c) \<in> set (set_cursor c es)"
  unfolding set_cursor_def by force

lemma addElems_set_cursor:
  assumes "addElems es = Inr b" "\<And>v. (''getMore'', v) \<in> set es \<Longrightarrow> \<exists>w. v = GInt64 w"
  shows "\<exists>b'. addElems (set_cursor c es) = Inr b' \<and> length b' = length b"
  using assms
proof (induction es arbitrary: b)
  case (Cons x es)
  obtain k v where x: "x = (k, v)" by (cases x)
  from Cons.prems(1) x obtain b1 b2 where b: "addElem k v = Inr b1" "addElems es = Inr b2" "b = b1 @ b2"
    by (auto simp: rbind_eq_Inr)
  obtain b2' where b2': "addElems (set_cursor c es) = Inr b2'" "length b2' = length b2"
    using Cons.IH [OF b(2)] Cons.prems(2) by auto
  show ?case
  proof (cases "k = ''getMore''")
    case True
    then obtain w where "v = GInt64 w" using Cons.prems(2) x by auto
    with True x b b2' show ?thesis by (auto simp: set_cursor_def)
  next
    case False
    with x b b2' show ?thesis by (auto simp: set_cursor_def)
  qed
qed (simp add: set_cursor_def)

lemma int64_elem: "encodes (GInt64 c) k p \<Longrightarrow> reads_back TM TInt64 (GInt64 c) k p"
proof -
  assume e: "encodes (GInt64 c) k p"
  have "fits TM TInt64 (GInt64 c)" by (rule fits.intros) simp
  from fits_round [OF this] e encodes_unique show ?thesis by blast
qed

lemma getGetMoreCursorID_raw:
  assumes "fits TM TD (GD es)" "distinct (map fst es)" "(''getMore'', GInt64 c) \<in> set es"
    and "Marshal (GD es) = Inr d" "length d < 2 ^ 31"
  shows "getGetMoreCursorID (GRaw 3 d) = Inr c"
  using field_of_document [OF fits_plain_doc [OF assms(1,2)] assms(3) int64_elem assms(4,5), where oe = False and old = "zero_of getMoreDoc"]
  by (simp add: getMoreDoc_def wrap_error_def field_value_def)

lemma Raw_Unmarshal_D:
  assumes "fits TM TD (GD es)" "Marshal (GD es) = Inr d" "length d < 2 ^ 31"
  shows "Raw_Unmarshal TD old 3 d = Inr (GD es)"
  using Marshal_reads_back [OF assms(1), of old] assms(2,3) by auto

lemma Marshal_GD: "Marshal (GD es) = Inr d \<longleftrightarrow> (\<exists>b. addElems es = Inr b \<and> d = docBytes b)"
  by (auto simp: Marshal_def handleErr_def rbind_eq_Inr split: sum.splits fault.splits if_splits)

lemma Marshal_set_cursor:
  assumes "Marshal (GD es) = Inr d" "distinct (map fst es)" "(''getMore'', GInt64 c0) \<in> set es"
  obtains d' where "Marshal (GD (set_cursor c es)) = Inr d'" "length d' = length d"
proof -
  have "\<exists>w. v = GInt64 w" if "(''getMore'', v) \<in> set es" for v
    using that assms(2,3) by (metis eq_key_imp_eq_value)
  moreover obtain b where b: "addElems es = Inr b" "d = docBytes b" using assms(1) unfolding Marshal_GD by blast
  ultimately obtain b' where b': "addElems (set_cursor c es) = Inr b'" "length b' = length b"
    using addElems_set_cursor by blast
  show thesis by (rule that [of "docBytes b'"]) (use b b' in \<open>auto simp: Marshal_GD docBytes_def sized_def\<close>)
qed

text \<open>
  C35. Rewriting the cursor of a getmore sent as an \<open>OP_MSG\<close>: the program finds the recorded
  cursor in the command document, and after \<open>setCursorIDs\<close> with the live cursor that document,
  as it stands in the message, is the encoding of the same document with the one field replaced
  and is as long as before, so that the lengths of the message still hold; read again from the
  bytes, the operation has the new cursor.
\<close>

theorem setCursorIDs_MsgGetMore:
  fixes op :: MsgOp
  assumes "fits TM TD (GD es)" "distinct (map fst es)" "(''getMore'', GInt64 c0) \<in> set es"
    and "Marshal (GD es) = Inr d" "length d < 2 ^ 31"
    and "mSections op = pre @ (MsgPayload0, DocData (GRaw 3 d)) # post" "\<forall>s\<in>set pre. fst s \<noteq> MsgPayload0"
  shows "fst (getCursorIDs (OpMsgGetMore op None)) = Inr [c0] \<and>
    (\<exists>d'. Marshal (GD (set_cursor c es)) = Inr d' \<and> length d' = length d \<and>
       (let op' = op\<lparr>mSections := pre @ (MsgPayload0, DocData (GRaw 3 d')) # post\<rparr>
        in setCursorIDs [c] (OpMsgGetMore op cached) = Inr (OpMsgGetMore op' (Some c)) \<and>
           fst (getCursorIDs (OpMsgGetMore op' None)) = Inr [c]))"
proof -
  have fetch: "fetchPayload0Data_loop i (pre @ (MsgPayload0, DocData x) # post) = Inr (x, i + length pre)" for x i
    using assms(7) by (induction pre arbitrary: i) auto
  obtain d' where d': "Marshal (GD (set_cursor c es)) = Inr d'" "length d' = length d"
    by (rule Marshal_set_cursor [OF assms(4,2,3)])
  have new: "getGetMoreCursorID (GRaw 3 d') = Inr c"
    using assms(1,2,5) d'
    by (intro getGetMoreCursorID_raw [OF set_cursor_fits]) (auto intro: set_cursor_mem [OF assms(3)])
  have set: "setCursorID (GRaw 3 d) [c] = Inr (GD (set_cursor c es), c)"
    by (simp add: setCursorID_def newCursorID_of_def Raw_Unmarshal_D [OF assms(1,4,5)] wrap_error_def
        set_getMore_eq [OF assms(2)])
  have "setCursorIDs [c] (OpMsgGetMore op cached) =
      Inr (OpMsgGetMore (op\<lparr>mSections := pre @ (MsgPayload0, DocData (GRaw 3 d')) # post\<rparr>) (Some c))"
    by (simp add: assms(6) fetchPayload0Data_def fetch set d' Unmarshal_def)
  then show ?thesis
    using d' new getGetMoreCursorID_raw [OF assms(1-5)]
    by (auto simp: assms(6) fetchPayload0Data_def fetch Let_def)
qed

text \<open>
  With more than one new cursor \<open>setCursorIDs\<close> of a getmore in an \<open>OP_MSG\<close> should refuse, as
  it does for the other two kinds of getmore, but the error is dropped: the call succeeds and the
  command document of the message has become the empty document, with cursor 0.
\<close>

theorem setCursorIDs_two_ids:
  fixes op :: MsgOp
  assumes "mSections op = pre @ (MsgPayload0, DocData doc) # post" "\<forall>s\<in>set pre. fst s \<noteq> MsgPayload0"
  shows "setCursorIDs (c1 # c2 # cs) (OpMsgGetMore op cached) =
      Inr (OpMsgGetMore (op\<lparr>mSections := pre @ (MsgPayload0, DocData (GRaw 3 [5, 0, 0, 0, 0])) # post\<rparr>) (Some 0)) \<and>
    (\<exists>e. setCursorIDs (c1 # c2 # cs) (OpGetMore gm) = Inl (Error e)) \<and>
    (\<exists>e. setCursorIDs (c1 # c2 # cs) (OpCommandGetMore cop ccached) = Inl (Error e))"
proof -
  have fetch: "fetchPayload0Data_loop i (pre @ (MsgPayload0, DocData x) # post) = Inr (x, i + length pre)" for x i
    using assms(2) by (induction pre arbitrary: i) auto
  have empty: "Marshal (GD []) = Inr [5, 0, 0, 0, 0]"
    by (simp add: Marshal_def handleErr_def docBytes_def sized_def enc32_def byte_of32_def)
  show ?thesis
    by (simp add: assms(1) fetchPayload0Data_def fetch setCursorID_def newCursorID_of_def empty Unmarshal_def)
qed

subsection \<open>Shortening\<close>

definition reply_bytes :: "MsgHeader \<Rightarrow> int32 \<Rightarrow> int64 \<Rightarrow> int32 \<Rightarrow> int32 \<Rightarrow> bytes list \<Rightarrow> bytes" where
  "reply_bytes h flags cursor first n ds =
     header_bytes h @ enc32 flags @ enc64 cursor @ enc32 first @ enc32 n @ concat ds"

definition reply_of :: "MsgHeader \<Rightarrow> int32 \<Rightarrow> int64 \<Rightarrow> int32 \<Rightarrow> int32 \<Rightarrow> bytes list \<Rightarrow> ReplyOp" where
  "reply_of h flags cursor first n ds =
     \<lparr>rHeader = h, rFlags = flags, rCursorId = cursor, rFirstDoc = first, rReplyDocs = n,
      rDocs = map (GRaw 3) ds, rLatency = 0, rcursorCached = False\<rparr>"

lemma docs_loop_sized:
  "\<forall>d\<in>set ds. sized_doc d \<Longrightarrow> length ds < n \<Longrightarrow> docs_loop n acc (concat ds) = Inr (acc @ map (GRaw 3) ds, [])"
proof (induction ds arbitrary: n acc)
  case Nil
  then show ?case by (cases n) (simp_all add: ReadDocument_Nil)
next
  case (Cons d ds)
  then obtain m where m: "n = Suc m" by (cases n) auto
  have pos: "d \<noteq> []" using Cons.prems by (auto simp: sized_doc_def)
  show ?case using Cons m by (simp add: ReadDocument_sized pos Unmarshal_def)
qed

lemma sized_docs_len: "\<forall>d\<in>set ds. sized_doc d \<Longrightarrow> length ds \<le> length (concat ds)"
  by (rule length_le_concat) (auto simp: sized_doc_def)

lemma Parse_reply:
  assumes "hOpCode h = OpCodeReply" "\<forall>d\<in>set ds. sized_doc d"
  shows "Parse dc \<lparr>Header = h, Body = reply_bytes h flags cursor first n ds\<rparr> =
    Inr (Some (OpReply (reply_of h flags cursor first n ds)), \<lparr>Header = h, Body = reply_bytes h flags cursor first n ds\<rparr>)"
proof -
  have op: "newOp h = Some (OpReply (reply_of h 0 0 0 0 []))"
    using assms(1) by (simp add: newOp_simps reply_of_def)
  have "Op_FromReader (OpReply (reply_of h 0 0 0 0 [])) (drop 16 (reply_bytes h flags cursor first n ds)) =
      Inr (OpReply (reply_of h flags cursor first n ds), [])"
    using sized_docs_len [OF assms(2)] readFull_reply [of flags cursor first n "concat ds"]
    by (simp add: reply_bytes_def ReplyOp_FromReader_def rdbind_app getInt_heads getInt_reply
        docs_loop_sized [OF assms(2)] reply_of_def del: docs_loop.simps)
  with op assms(1) show ?thesis
    by (simp add: Parse_def decompressed_def opcode_defs reply_bytes_def maybeChangeOpToGetMore_def)
qed

lemma sint_first_size:
  assumes "sized_doc d" "int (length d) \<le> maxBSONSize"
  shows "sint (word_of_nat (length d) :: int32) = int (length d)"
    "sint (36 + word_of_nat (length d) :: int32) = 36 + int (length d)"
proof -
  show "sint (word_of_nat (length d) :: int32) = int (length d)"
    using assms(2) by (intro sint_word_of_nat_doc) (simp add: maxBSONSize_def maximumDocumentSize_def)
  have "36 + word_of_nat (length d) = (word_of_nat (36 + length d) :: int32)" by simp
  then show "sint (36 + word_of_nat (length d) :: int32) = 36 + int (length d)"
    using assms(2) sint_word_of_nat_doc [of "36 + length d"] by (simp add: maxBSONSize_def maximumDocumentSize_def)
qed

text \<open>
  Shortening a recorded \<open>OP_REPLY\<close>: of a reply whose documents are whole, the first no longer
  than a document may be, \<open>ShortenReply\<close> keeps the bytes up to the end of the first document, so
  that parsing the shortened operation gives the same reply with at most that document; the
  header still announces the original length.
\<close>

theorem ShortenReply_first_doc:
  assumes "hOpCode h = OpCodeReply" "\<forall>d\<in>set ds. sized_doc d"
    and "\<forall>d\<in>set (take 1 ds). int (length d) \<le> maxBSONSize"
    and "sint (MessageLength h) = int (length (reply_bytes h flags cursor first n ds))"
    and "sint (MessageLength h) \<le> MaxMessageSize"
  shows "\<exists>op. ShortenReply \<lparr>Header = h, Body = reply_bytes h flags cursor first n ds\<rparr> = Inr op \<and>
    op = \<lparr>Header = h, Body = reply_bytes h flags cursor first n (take 1 ds)\<rparr> \<and>
    Parse dc op = Inr (Some (OpReply (reply_of h flags cursor first n (take 1 ds))), op)"
proof -
  have "ShortenReply \<lparr>Header = h, Body = reply_bytes h flags cursor first n ds\<rparr> =
      Inr \<lparr>Header = h, Body = reply_bytes h flags cursor first n (take 1 ds)\<rparr>"
  proof (cases ds)
    case Nil
    with assms(1,4,5) show ?thesis by (simp add: ShortenReply_def reply_bytes_def MsgHeaderLen_def opcode_defs)
  next
    case (Cons d rest)
    have d: "sized_doc d" "int (length d) \<le> maxBSONSize" using assms(2,3) Cons by auto
    let ?pre = "header_bytes h @ enc32 flags @ enc64 cursor @ enc32 first @ enc32 n"
    have body: "reply_bytes h flags cursor first n ds = (?pre @ d) @ concat rest"
      by (simp add: reply_bytes_def Cons)
    have "getInt32 (?pre @ enc32 (word_of_nat (length d)) @ drop 4 d @ concat rest) 36 = Inr (word_of_nat (length d))"
      using getInt32_append [of ?pre 36] by simp
    then have size: "getInt32 (reply_bytes h flags cursor first n ds) 36 = Inr (word_of_nat (length d))"
      unfolding body using sized_doc_split [OF d(1)] by (metis append_assoc)
    have five: "5 \<le> length d" using d(1) by (simp add: sized_doc_def)
    have len: "length (reply_bytes h flags cursor first n ds) = 36 + length d + length (concat rest)"
      unfolding body by simp
    have take: "take (nat (36 + int (length d))) (reply_bytes h flags cursor first n ds) =
        reply_bytes h flags cursor first n (take 1 ds)"
      unfolding body by (simp add: nat_add_distrib reply_bytes_def Cons)
    from assms(1,4,5) len five d(2) sint_first_size [OF d] show ?thesis
      by (simp add: ShortenReply_def size take MsgHeaderLen_def opcode_defs)
  qed
  moreover have "Parse dc \<lparr>Header = h, Body = reply_bytes h flags cursor first n (take 1 ds)\<rparr> =
      Inr (Some (OpReply (reply_of h flags cursor first n (take 1 ds))),
        \<lparr>Header = h, Body = reply_bytes h flags cursor first n (take 1 ds)\<rparr>)"
    using assms(2) by (intro Parse_reply [OF assms(1)]) (auto dest: in_set_takeD)
  ultimately show ?thesis by blast
qed

subsection \<open>Instances\<close>

definition ex_getmore :: "(string \<times> goval) list" where
  "ex_getmore = [(''getMore'', GInt64 7), (''collection'', GString ''c''), (''$db'', GString ''t'')]"

lemma ex_getmore_fits: "fits TM TD (GD ex_getmore)"
proof -
  have "nul_free ''getMore''" "nul_free ''collection''" "nul_free ''$db''" by (simp_all add: nul_free_def raw_def)
  moreover have "fits TD TIface (GInt64 7)" "fits TD TIface (GString s)" for s by (rule fits.intros; simp)+
  ultimately show ?thesis unfolding ex_getmore_def by (auto intro!: fits.intros)
qed

definition ex_msg :: "bytes \<Rightarrow> MsgOp" where
  "ex_msg d = \<lparr>mHeader = zeroHeader, mFlags = 0, mSections = [(0, DocData (GRaw 3 d))], mChecksum = 0,
     mCommandName = [], mDatabase = []\<rparr>"

theorem setCursorIDs_MsgGetMore_witness:
  "\<exists>d op'. Marshal (GD ex_getmore) = Inr d \<and> length d = 51 \<and>
     setCursorIDs [5] (OpMsgGetMore (ex_msg d) None) = Inr (OpMsgGetMore op' (Some 5)) \<and>
     fst (getCursorIDs (OpMsgGetMore op' None)) = Inr [5]"
proof -
  obtain d where d: "Marshal (GD ex_getmore) = Inr d"
    using Marshal_reads_back [OF ex_getmore_fits] by auto
  then have l: "length d = 51"
    by (auto simp: Marshal_def handleErr_def ex_getmore_def docBytes_def sized_def elemName_def addStr_def addCStr_def)
  have "mSections (ex_msg d) = [] @ (MsgPayload0, DocData (GRaw 3 d)) # []" by (simp add: ex_msg_def MsgPayload0_def)
  from setCursorIDs_MsgGetMore [OF ex_getmore_fits _ _ d _ this, of 7 5 None] d l show ?thesis
    by (auto simp: Let_def ex_getmore_def simp del: setCursorIDs.simps getCursorIDs.simps)
qed

theorem setCursorIDs_two_ids_witness:
  "\<exists>op'. setCursorIDs [5, 6] (OpMsgGetMore (ex_msg [1, 2, 3]) None) = Inr (OpMsgGetMore op' (Some 0)) \<and>
     mSections op' = [(0, DocData (GRaw 3 [5, 0, 0, 0, 0]))]"
proof -
  have "mSections (ex_msg [1, 2, 3]) = [] @ (MsgPayload0, DocData (GRaw 3 [1, 2, 3])) # []"
    by (simp add: ex_msg_def MsgPayload0_def)
  from setCursorIDs_two_ids [OF this, of 5 6 "[]" None] show ?thesis
    by (auto simp: ex_msg_def MsgPayload0_def simp del: setCursorIDs.simps)
qed

definition ex_reply_header :: MsgHeader where
  "ex_reply_header = zeroHeader\<lparr>MessageLength := 47, hOpCode := OpCodeReply\<rparr>"

theorem ShortenReply_first_doc_witness:
  "\<exists>op. ShortenReply \<lparr>Header = ex_reply_header,
        Body = reply_bytes ex_reply_header 0 9 0 2 [[5, 0, 0, 0, 0], [6, 0, 0, 0, 0, 0]]\<rparr> = Inr op \<and> length (Body op) = 41 \<and>
     Parse (\<lambda>b. Inr b) op = Inr (Some (OpReply (reply_of ex_reply_header 0 9 0 2 [[5, 0, 0, 0, 0]])), op)"
proof -
  have "sized_doc [5, 0, 0, 0, 0]" "sized_doc [6, 0, 0, 0, 0, 0]"
    by (simp_all add: sized_doc_def maximumDocumentSize_def getInt32_def le32_def)
  then show ?thesis
    using ShortenReply_first_doc [of ex_reply_header "[[5, 0, 0, 0, 0], [6, 0, 0, 0, 0, 0]]" 0 9 0 2 "\<lambda>b. Inr b"]
    by (auto simp: ex_reply_header_def reply_bytes_def maxBSONSize_def MaxMessageSize_def zeroHeader_def)
qed

end
