(* ===== verification/Exec_Correct.thy ===== *)
theory Exec_Correct
  imports Exec Socket_Correct Replies_Correct
begin

text \<open>
  An operation that is executed gets its reply: the calls that the read loop makes for an answer,
  collected by the reply function, give the documents that the server sent.
\<close>

subsection \<open>The calls for one request\<close>

lemma calls_to_append: "calls_to f (xs @ ys) = calls_to f xs @ calls_to f ys"
proof (induction xs)
  case (Cons x xs)
  then show ?case by (cases x) auto
qed simp

lemma calls_to_no_deadlines: "calls_to f (no_deadlines evs) = calls_to f evs"
proof (induction evs)
  case (Cons x xs)
  then show ?case by (cases x) (auto simp: no_deadlines_def)
qed (simp add: no_deadlines_def)

lemma calls_to_calls: "calls_to f (calls g args) = (if g = Some f then map (Pair None) args else [])"
  by (induction args) (auto simp: call_opt_def split: option.split)

lemma calls_to_killed:
  "\<forall>(k, g)\<in>set t. g \<noteq> f \<Longrightarrow> calls_to f (ConnClosed # map (\<lambda>(_, f). Called f e NoReply) t @ [Abended]) = []"
  by (induction t) auto

text \<open>The request \<open>k\<close> is the only one that waits with the function \<open>f\<close>.\<close>

definition waits :: "'f MongoSocket \<Rightarrow> uint32 \<Rightarrow> 'f \<Rightarrow> bool" where
  "waits s k f \<longleftrightarrow> dead s = None \<and> map_of (replyFuncs s) k = Some f \<and> (\<forall>(k', g)\<in>set (replyFuncs s). g = f \<longrightarrow> k' = k)"

lemma calls_of_answers:
  assumes "waits s k f" "distinct (map (\<lambda>(h, a). ResponseTo h) answers)" "(h, a) \<in> set answers" "ResponseTo h = k"
  shows "calls_to f (concat (map (\<lambda>(h, a). calls (map_of (replyFuncs s) (ResponseTo h)) (answer_calls a)) answers)) =
    map (Pair None) (answer_calls a)"
  using assms(2,3)
proof (induction answers)
  case (Cons x answers)
  obtain h' a' where x: "x = (h', a')" by fastforce
  have other: "calls_to f (concat (map (\<lambda>(h, a). calls (map_of (replyFuncs s) (ResponseTo h)) (answer_calls a)) xs)) = []"
    if "\<forall>(h', a')\<in>set xs. ResponseTo h' \<noteq> k" for xs
    using that
  proof (induction xs)
    case (Cons y ys)
    obtain h' a' where y: "y = (h', a')" by fastforce
    have "map_of (replyFuncs s) (ResponseTo h') \<noteq> Some f"
      using assms(1) Cons.prems y by (auto simp: waits_def dest: map_of_SomeD)
    with Cons y show ?case by (simp add: calls_to_append calls_to_calls)
  qed simp
  show ?case
  proof (cases "ResponseTo h' = k")
    case True
    have "(h', a') = (h, a)" using Cons.prems x True assms(4) by (force simp: image_iff)
    moreover have "\<forall>(h', a')\<in>set answers. ResponseTo h' \<noteq> k" using Cons.prems(1) x True by (force simp: image_iff)
    ultimately show ?thesis
      using other assms(1) True x by (simp add: calls_to_append calls_to_calls waits_def)
  next
    case False
    with Cons.prems x assms(4) have "(h, a) \<in> set answers" by auto
    moreover have "map_of (replyFuncs s) (ResponseTo h') \<noteq> Some f"
      using assms(1) False by (auto simp: waits_def dest: map_of_SomeD)
    ultimately show ?thesis using Cons x by (simp add: calls_to_append calls_to_calls)
  qed
qed simp

lemma calls_arrive:
  fixes s :: "'f MongoSocket"
  assumes "waits s k f" "distinct (map (\<lambda>(h, a). ResponseTo h) answers)" "\<forall>(h, a)\<in>set answers. answer_header h a"
    and "(h, a) \<in> set answers" "ResponseTo h = k"
  shows "\<exists>s' evs. readLoop (Suc (length answers)) dc s [] (concat (map (\<lambda>(h, a). answer_bytes h a) answers)) = Inr (s', evs) \<and>
    calls_to f evs = map (Pair None) (answer_calls a)"
proof -
  let ?n = "Suc (length answers)" and ?i = "concat (map (\<lambda>(h, a). answer_bytes h a) answers)"
  obtain evs' where e: "readLoop ?n dc s [] ?i = readLoop 1 dc (s\<lparr>replyFuncs := remove_ids answers (replyFuncs s)\<rparr>) evs' []"
    "no_deadlines evs' = concat (map (\<lambda>(h, a). calls (map_of (replyFuncs s) (ResponseTo h)) (answer_calls a)) answers)"
    using readLoop_answers [OF assms(2,3), of 1 dc s "[]" "[]"] by auto
  let ?t = "remove_ids answers (replyFuncs s)"
  have k: "\<forall>(k', g)\<in>set ?t. g \<noteq> f"
  proof (clarify)
    fix k' assume m: "(k', f) \<in> set ?t"
    then have "k' = k" using assms(1) by (auto simp: waits_def remove_ids_def)
    moreover have "k \<in> answered answers" using assms(4,5) by (force simp: answered_def)
    ultimately show False using m by (simp add: remove_ids_def)
  qed
  have "readMsgHeader dc [] = Inr (Inl EOF)" by (simp add: readMsgHeader_def readFull_raw_def)
  then have "readLoop ?n dc s [] ?i = Inr (s\<lparr>replyFuncs := [], dead := Some EOF\<rparr>,
      evs' @ ConnClosed # map (\<lambda>(_, f). Called f (Some EOF) NoReply) ?t @ [Abended])"
    using e(1) assms(1) by (simp add: readRound_def kill_def waits_def)
  moreover have "calls_to f evs' = map (Pair None) (answer_calls a)"
    using calls_of_answers [OF assms(1,2,4,5)] e(2) calls_to_no_deadlines by metis
  ultimately show ?thesis
    using calls_to_killed [OF k] by (auto simp: calls_to_append)
qed

subsection \<open>Documents of an \<open>OP_REPLY\<close>\<close>

lemma word_of_nat_inj32:
  "n < 2 ^ 31 \<Longrightarrow> m < 2 ^ 31 \<Longrightarrow> (word_of_nat n :: int32) = word_of_nat m \<longleftrightarrow> n = m"
  using sint_word_of_nat [of n] sint_word_of_nat [of m] by (metis of_nat_eq_iff)

lemma await_documents:
  assumes "ds \<noteq> []" "docCount w = word_of_nat k" "rReplyDocs r = word_of_nat (k + length ds)" "k + length ds < 2 ^ 31"
    and "unlocks w = 0"
  shows "\<exists>w'. await (map (Pair None) (map (\<lambda>(i, d). LegacyReply (Some r) (int i) d) (enumerate k ds))) w = Some w' \<and>
    reply w' = GotLegacy (Some r) \<and> replyErr w' = None \<and> replyData w' = replyData w @ ds"
  using assms
proof (induction ds arbitrary: k w)
  case (Cons d ds)
  have r0: "rReplyDocs r \<noteq> 0"
    unfolding Cons.prems(3) using word_of_nat_inj32 [of "k + length (d # ds)" 0] Cons.prems(4) by simp
  let ?w = "w\<lparr>replyErr := None, reply := GotLegacy (Some r), replyData := replyData w @ [d], docCount := docCount w + 1\<rparr>"
  have c: "docCount w + 1 = word_of_nat (Suc k)" using Cons.prems(2) by simp
  have last: "word_of_nat (Suc k) = rReplyDocs r \<longleftrightarrow> ds = []"
    unfolding Cons.prems(3) using word_of_nat_inj32 [of "Suc k" "k + length (d # ds)"] Cons.prems(4) by simp
  show ?case
  proof (cases "ds = []")
    case True
    with Cons.prems(2,5) r0 c last show ?thesis by (simp add: Let_def unlock_def add.commute)
  next
    case False
    from Cons.IH [OF this, of ?w "Suc k"] Cons.prems c obtain w' where
      "await (map (Pair None) (map (\<lambda>(i, d). LegacyReply (Some r) (int i) d) (enumerate (Suc k) ds))) ?w = Some w'"
      "reply w' = GotLegacy (Some r)" "replyErr w' = None" "replyData w' = replyData w @ d # ds"
      by auto
    with False r0 c last Cons.prems(2,5) show ?thesis by (simp add: Let_def add.commute)
  qed
qed simp

lemma await_legacy:
  assumes "length ds < 2 ^ 31"
  shows "\<exists>w. await (map (Pair None) (answer_calls (AnswerLegacy flags cursor first ds))) newWaiter = Some w \<and>
    reply w = GotLegacy (Some (legacy_reply flags cursor first ds)) \<and> replyErr w = None \<and> replyData w = ds"
proof (cases "ds = []")
  case True
  then show ?thesis by (simp add: newWaiter_def unlock_def legacy_reply_def Let_def)
next
  case False
  then show ?thesis
    using await_documents [OF False, of newWaiter 0 "legacy_reply flags cursor first ds"] assms
    by (simp add: newWaiter_def legacy_reply_def)
qed

lemma unmarshal_docs_raw: "unmarshal_docs TRaw ds = Inr (map (GRaw 3) ds)"
  by (induction ds) (simp_all add: Unmarshal_def)

text \<open>
  C9. A query gets the documents that the server answers with: after the operation has been sent and its
  function waits, alone, under a request id, and the server answers any number of requests in any
  order, among them this one with an \<open>OP_REPLY\<close> of any number of documents, then executing the
  query or getmore returns the reply with its flags and cursor and exactly these documents, in order.
\<close>

theorem Execute_documents:
  fixes s s' :: "'f MongoSocket"
  assumes "Query write s [\<lparr>reqOp = op, reqMode = zeroQueryMode, reqFn = Some f\<rparr>] = Inr (None, s', evs)"
    and "op = OpQuery q \<or> op = OpGetMore g" "waits s' k f"
    and "distinct (map (\<lambda>(h, a). ResponseTo h) answers)" "\<forall>(h, a)\<in>set answers. answer_header h a"
    and "(h, AnswerLegacy flags cursor first ds) \<in> set answers" "ResponseTo h = k"
  shows "\<exists>s'' evs'. readLoop (Suc (length answers)) dc s' [] (concat (map (\<lambda>(h, a). answer_bytes h a) answers)) = Inr (s'', evs') \<and>
    Op_Execute write s f (calls_to f evs') t op =
      Inr (Inr (Some (OpReply ((legacy_reply flags cursor first ds)\<lparr>rDocs := map (GRaw 3) ds, rLatency := t\<rparr>))), s', evs)"
proof -
  obtain s'' evs' where r: "readLoop (Suc (length answers)) dc s' [] (concat (map (\<lambda>(h, a). answer_bytes h a) answers)) = Inr (s'', evs')"
    "calls_to f evs' = map (Pair None) (answer_calls (AnswerLegacy flags cursor first ds))"
    using calls_arrive [OF assms(3-7)] by blast
  have "length ds < 2 ^ 31" using assms(5,6) by (auto simp: answer_header_def)
  from await_legacy [OF this, of flags cursor first] obtain w where w: "await (calls_to f evs') newWaiter = Some w"
    "reply w = GotLegacy (Some (legacy_reply flags cursor first ds))" "replyErr w = None" "replyData w = ds"
    unfolding r(2) by blast
  have "Op_Execute write s f (calls_to f evs') t op =
      Inr (Inr (Some (OpReply ((legacy_reply flags cursor first ds)\<lparr>rDocs := map (GRaw 3) ds, rLatency := t\<rparr>))), s', evs)"
    using assms(1,2)
    by (elim disjE) (simp_all add: with_reply_def getmore_result_def ExecOpWithReply_def w QueryOp_reply_def
        GetMoreOp_reply_def legacyReply_def unmarshal_docs_raw legacy_reply_def)
  with r(1) show ?thesis by blast
qed

subsection \<open>Broken connections and command replies\<close>

text \<open>
  When the connection ends while an operation waits, the reply function is called with the
  error: a query then returns that error, but a getmore ignores it and panics on the reply that
  is not there.
\<close>

theorem GetMore_broken_connection:
  fixes s s' :: "'f MongoSocket"
  assumes "Query write s [\<lparr>reqOp = op, reqMode = zeroQueryMode, reqFn = Some f\<rparr>] = Inr (None, s', evs)"
    and "dead s' = None" "replyFuncs s' = [(k, f)]"
  shows "\<exists>s'' evs'. readLoop 1 dc s' [] [] = Inr (s'', evs') \<and>
    (op = OpQuery q \<longrightarrow> Op_Execute write s f (calls_to f evs') t op = Inr (Inl EOF, s', evs)) \<and>
    (op = OpGetMore g \<longrightarrow>
       Op_Execute write s f (calls_to f evs') t op = Inl (Panic ''reply from execution was not the correct type''))"
proof -
  have "readMsgHeader dc [] = Inr (Inl EOF)" by (simp add: readMsgHeader_def readFull_raw_def)
  then have r: "readLoop 1 dc s' [] [] = Inr (s'\<lparr>dead := Some EOF, replyFuncs := []\<rparr>, [ConnClosed, Called f (Some EOF) NoReply, Abended])"
    using assms(2,3) by (simp add: readRound_def kill_def)
  show ?thesis
    unfolding r using assms(1)
    by (auto simp: with_reply_def getmore_result_def ExecOpWithReply_def QueryOp_reply_def GetMoreOp_reply_def
        legacyReply_def newWaiter_def unlock_def)
qed

lemma unlocks_command:
  "unlocks (fold (\<lambda>(e, a). replyFunc e a) (map (Pair None) (map (CommandReply md cr) ds)) w) = unlocks w + length ds"
  by (induction ds arbitrary: w) (simp_all add: Let_def unlock_def bytesLeft_def)

text \<open>
  The output documents of an \<open>OP_COMMANDREPLY\<close> never arrive: the caller is woken by the first
  of them with none collected, and the mutex is unlocked once for each, which for two and more
  is fatal when the caller has not locked it again in between.
\<close>

theorem output_documents_lost:
  assumes "ds \<noteq> []"
  shows "\<exists>w. await (map (Pair None) (answer_calls (AnswerCommand cr md ds))) newWaiter = Some w \<and>
    replyData w = [] \<and> metaData w = Some md \<and> bodyData w = Some cr \<and> replyErr w = None \<and>
    unlocks (fold (\<lambda>(e, a). replyFunc e a) (map (Pair None) (answer_calls (AnswerCommand cr md ds))) newWaiter) = length ds"
proof (cases ds)
  case (Cons d ds')
  then show ?thesis
    using unlocks_command [of md cr ds newWaiter] by (simp add: newWaiter_def Let_def unlock_def bytesLeft_def)
qed (use assms in simp)

lemma readDocument_broken:
  assumes "framed (part @ rest)" "rest \<noteq> []"
  obtains d e where "readDocument part = Inr ((d, Some e), [])"
proof (cases rule: readFull_cases [of 4 part])
  case (2 d e)
  with that show ?thesis by (simp add: readDocument_def)
next
  case full: 1
  define k where "k = length (part @ rest)"
  have k: "getInt32 (take 4 part) 0 = Inr (word_of_nat k)" "4 \<le> k" "k < 2 ^ 31" "length part < k"
    using assms full(1) by (auto simp: framed_def k_def getInt32_def nth_append simp flip: length_greater_0_conv)
  have s: "sint (word_of_nat k :: int32) = int k" using k(3) by (rule sint_word_of_nat)
  show ?thesis
  proof (cases rule: readFull_cases [of "k - 4" "drop 4 part"])
    case 1
    with k(2,4) full(1) show ?thesis by simp
  next
    case (2 d e)
    with full k s that show ?thesis
      by (auto simp: readDocument_def make_bytes_def Let_def copy_at_def)
  qed
qed

text \<open>
  C40. A connection that breaks inside the first output document of an \<open>OP_COMMANDREPLY\<close>: the reply
  function is called with the error and the arguments of a command reply, for which it does not
  unlock, and the request has left the table; the caller waits for ever.
\<close>

theorem command_reply_hangs:
  fixes s s' :: "'f MongoSocket"
  assumes "Query write s [\<lparr>reqOp = op, reqMode = zeroQueryMode, reqFn = Some f\<rparr>] = Inr (None, s', evs)"
    and "op = OpCommand c \<or> op = OpCommandGetMore c cached" "dead s' = None" "replyFuncs s' = [(k, f)]"
    and "ResponseTo h = k" "hOpCode h = OpCodeCommandReply" "framed cr" "framed md" "framed (part @ rest)" "rest \<noteq> []"
    and "sint (MessageLength h) > 16 + int (length cr) + int (length md)"
  shows "\<exists>s'' evs'. readLoop 1 dc s' [] (header_bytes h @ cr @ md @ part) = Inr (s'', evs') \<and>
    Op_Execute write s f (calls_to f evs') t op = Inl Hang"
proof -
  have nc: "hOpCode h \<noteq> 2012" using assms(6) by (simp add: opcode_defs)
  obtain d e where rd: "readDocument part = Inr ((d, Some e), [])"
    using assms(9,10) by (rule readDocument_broken)
  have "readBody (Some f) (MessageLength h) OpCodeCommandReply (cr @ md @ part) =
      Inr (Some e, [Called f (Some e) (CommandReply md cr [])], [])"
    using assms(11) by (simp add: readBody_def readCommandReply_def OpCodeCommandReply_def readDocument_framed [OF assms(7)]
        readDocument_framed [OF assms(8)] rd call_opt_def Let_def)
  then have "readLoop 1 dc s' [] (header_bytes h @ cr @ md @ part) =
      Inr (s'\<lparr>dead := Some e, replyFuncs := []\<rparr>, [Called f (Some e) (CommandReply md cr []), ConnClosed, Abended])"
    using readMsgHeader_plain [OF nc, of dc "cr @ md @ part"] assms(3-6)
    by (simp add: readRound_def kill_def Let_def)
  then show ?thesis
    using assms(1,2) by (auto simp: with_reply_def ExecOpWithReply_def newWaiter_def Let_def)
qed

subsection \<open>The cursor of a command's reply\<close>

text \<open>
  The answer to a \<open>find\<close>, an \<open>aggregate\<close> or a \<open>getMore\<close>: under \<open>cursor\<close> the id and the batch of
  documents, first or next, beside any other fields.
\<close>

definition cursor_answer :: "string \<Rightarrow> int64 \<Rightarrow> bytes list \<Rightarrow> (string \<times> goval) list \<Rightarrow> bool" where
  "cursor_answer batch c docs ans \<longleftrightarrow>
     plain_doc ans \<and> (\<forall>d\<in>set docs. doc_bytes d) \<and>
     (batch = ''firstBatch'' \<or> batch = ''nextBatch'') \<and>
     (\<exists>cur. (''cursor'', GD cur) \<in> set ans \<and> plain_doc cur \<and> (''id'', GInt64 c) \<in> set cur \<and>
        (batch, GSlice (map (GRaw 3) docs)) \<in> set cur \<and>
        (batch = ''firstBatch'' \<longrightarrow> ''nextBatch'' \<notin> fst ` set cur) \<and>
        (batch = ''nextBatch'' \<longrightarrow> ''firstBatch'' \<notin> fst ` set cur))"

lemma plain_doc_field: "plain_doc es \<Longrightarrow> (k, v) \<in> set es \<Longrightarrow> (k, w) \<in> set es \<Longrightarrow> w = v"
  unfolding plain_doc_def by (metis eq_key_imp_eq_value)

lemma sub_struct:
  assumes "plain_doc ans" "(''cursor'', GD cur) \<in> set ans" "Marshal (GD ans) = Inr d"
    and "\<And>kd p. encodes (GD cur) kd p \<Longrightarrow> reads_back TM (TStruct fs) w kd p"
  shows "reads_back TM (TStruct [(''cursor'', False, TStruct fs)]) (GStruct [(''cursor'', False, w)]) 3 d"
proof -
  have m: "map_of ans ''cursor'' = Some (GD cur)" using assms(1,2) by (simp add: plain_doc_def)
  have "reads_back TM (TStruct [(''cursor'', False, TStruct fs)])
      (GStruct (read_fields ans (\<lambda>_. w) (zero_fields [(''cursor'', False, TStruct fs)]))) 3 d"
  proof (rule struct_of_document [OF assms(1) _ _ Marshal_encodes [OF assms(3)]])
    fix x t kd p
    assume x: "x \<in> set ans" "field_of [(''cursor'', False, TStruct fs)] (fst x) = Some t" "encodes (snd x) kd p"
    then have "fst x = ''cursor''" "t = TStruct fs" by (auto split: if_splits)
    moreover from this have "snd x = GD cur" using plain_doc_field [OF assms(1,2)] x(1) by (metis prod.collapse)
    ultimately show "reads_back TM t w kd p" using assms(4) x(3) by simp
  qed auto
  then show ?thesis by (simp add: read_fields_def zero_fields_def m)
qed

lemma cursor_id:
  assumes "cursor_answer batch c docs ans" "Marshal (GD ans) = Inr d" "length d < 2 ^ 31"
  shows "getCursorID_raw (GRaw 3 d) = Inr c"
proof -
  obtain cur where cur: "(''cursor'', GD cur) \<in> set ans" "plain_doc cur" "(''id'', GInt64 c) \<in> set cur" "plain_doc ans"
    using assms(1) by (auto simp: cursor_answer_def)
  have "reads_back TM (TStruct [(''id'', False, TInt64)]) (GStruct [(''id'', False, GInt64 c)]) k p"
    if e: "encodes (GD cur) k p" for k p
  proof -
    have m: "map_of cur ''id'' = Some (GInt64 c)" using cur(2,3) by (simp add: plain_doc_def)
    have "reads_back TM (TStruct [(''id'', False, TInt64)]) (GStruct (read_fields cur snd (zero_fields [(''id'', False, TInt64)]))) k p"
    proof (rule struct_of_document [OF cur(2) _ _ e])
      fix x t k p assume x: "x \<in> set cur" "field_of [(''id'', False, TInt64)] (fst x) = Some t" "encodes (snd x) k p"
      then have "fst x = ''id''" "t = TInt64" by (auto split: if_splits)
      moreover from this have "snd x = GInt64 c" using plain_doc_field [OF cur(2,3)] x(1) by (metis prod.collapse)
      ultimately show "reads_back TM t (snd x) k p" using int64_elem x(3) by simp
    qed auto
    then show ?thesis by (simp add: read_fields_def zero_fields_def m)
  qed
  from sub_struct [OF cur(4,1) assms(2) this] have "Raw_Unmarshal cursorIdDoc (zero_of cursorIdDoc) 3 d =
      Inr (GStruct [(''cursor'', False, GStruct [(''id'', False, GInt64 c)])])"
    unfolding cursorIdDoc_def using Raw_Unmarshal_reads_back assms(3) by blast
  then show ?thesis by (simp add: getCursorID_raw_def wrap_error_def field_value_def)
qed

definition batchFields :: "(string \<times> bool \<times> gotype) list" where
  "batchFields = [(''firstBatch'', False, TSlice TRaw), (''nextBatch'', False, TSlice TRaw)]"

lemma cursor_docs:
  assumes "cursor_answer batch c docs ans" "Marshal (GD ans) = Inr d" "length d < 2 ^ 31"
  shows "getCursorDocs (GRaw 3 d) = Inr (map (GRaw 3) docs)"
proof -
  let ?b = "GSlice (map (GRaw 3) docs)"
  obtain cur where cur: "(''cursor'', GD cur) \<in> set ans" "plain_doc cur" "(batch, ?b) \<in> set cur" "plain_doc ans"
    "\<forall>d\<in>set docs. doc_bytes d" and batch: "batch = ''firstBatch'' \<and> ''nextBatch'' \<notin> fst ` set cur \<or>
      batch = ''nextBatch'' \<and> ''firstBatch'' \<notin> fst ` set cur"
    using assms(1) by (auto simp: cursor_answer_def)
  let ?r = "GStruct (read_fields cur snd (zero_fields batchFields))"
  have "reads_back TM (TStruct batchFields) ?r k p" if e: "encodes (GD cur) k p" for k p
  proof (rule struct_of_document [OF cur(2) _ _ e])
    fix x t k p assume x: "x \<in> set cur" "field_of batchFields (fst x) = Some t" "encodes (snd x) k p"
    then have f: "fst x = ''firstBatch'' \<or> fst x = ''nextBatch''" "t = TSlice TRaw"
      by (auto simp: batchFields_def split: if_splits)
    have "fst x = batch" using f(1) batch imageI [OF x(1), of fst] by metis
    then have "snd x = ?b" using plain_doc_field [OF cur(2,3)] x(1) by (metis prod.collapse)
    then show "reads_back TM t (snd x) k p" using raw_batch(2) [OF cur(5)] x(3) f(2) by simp
  qed (auto simp: batchFields_def)
  from sub_struct [OF cur(4,1) assms(2) this]
  have "reads_back TM cursorDocsDoc (GStruct [(''cursor'', False, ?r)]) 3 d"
    by (simp add: cursorDocsDoc_def batchFields_def)
  then have "reads_back TM (TPtr cursorDocsDoc) (GStruct [(''cursor'', False, ?r)]) 3 d"
    using reads_back_ptr by (simp add: cursorDocsDoc_def)
  then have u: "Raw_Unmarshal (TPtr cursorDocsDoc) (zero_of cursorDocsDoc) 3 d = Inr (GStruct [(''cursor'', False, ?r)])"
    using Raw_Unmarshal_reads_back assms(3) by blast
  have "map_of cur batch = Some ?b" using cur(2,3) by (simp add: plain_doc_def)
  moreover have "k \<notin> fst ` set cur \<Longrightarrow> map_of cur k = None" for k by (simp add: map_of_eq_None_iff)
  ultimately show ?thesis
    using batch by (auto simp: getCursorDocs_def u field_value_def read_fields_def zero_fields_def batchFields_def Let_def)
qed

lemma GD_sized:
  assumes "Marshal (GD es) = Inr d" "int (length d) \<le> maximumDocumentSize"
  shows "sized_doc d"
proof -
  obtain b where b: "d = docBytes b" using assms(1) unfolding Marshal_GD by blast
  then show ?thesis
    using assms(2) getInt32_sized [of "b @ [0]"] by (simp add: sized_doc_def docBytes_def sized_def)
qed

lemma readSection_doc:
  assumes "sized_doc d"
  shows "readSection (0 # d) = Inr (((MsgPayload0, DocData (GRaw 3 d)), 1 + int (length d)), [])"
proof -
  have "readFull 1 (0 # d) = Inr ([0], d)" using readFull_append [of "[0]" 1 d] by simp
  moreover have "ReadDoc d = Inr (d, [])"
    using ReadDocument_sized [OF assms, of "[]"] by (simp add: ReadDoc_def)
  ultimately show ?thesis by (simp add: readSection_def rdbind_app MsgPayload0_def Unmarshal_def)
qed

text \<open>
  C8. A command sent as an \<open>OP_MSG\<close> that opens or continues a cursor gets its reply: when the server
  answers, among its answers to other requests, with one section whose document has a cursor with an id
  and a batch of documents, first or next, the operation returns a reply that counts exactly those
  documents, has them in order, and gives the id of the cursor.
\<close>

theorem Execute_cursor:
  fixes s s' :: "'f MongoSocket"
  assumes "Query write s [\<lparr>reqOp = op, reqMode = zeroQueryMode, reqFn = Some f\<rparr>] = Inr (None, s', evs)"
    and "op = OpMsg m \<or> op = OpMsgGetMore m cached" "waits s' k f"
    and "distinct (map (\<lambda>(h, a). ResponseTo h) answers)" "\<forall>(h, a)\<in>set answers. answer_header h a"
    and "(h, AnswerMsg flags checksum (0 # d)) \<in> set answers" "ResponseTo h = k"
    and "cursor_answer batch c docs ans" "Marshal (GD ans) = Inr d" "int (length d) \<le> maximumDocumentSize"
  shows "\<exists>s'' evs' r. readLoop (Suc (length answers)) dc s' [] (concat (map (\<lambda>(h, a). answer_bytes h a) answers)) = Inr (s'', evs') \<and>
    Op_Execute write s f (calls_to f evs') t op = Inr (Inr (Some (OpMsgReply r)), s', evs) \<and>
    mrDocs r = map (GRaw 3) docs \<and> getNumReturned (OpMsgReply r) = int (length docs) \<and>
    fst (getCursorID (OpMsgReply r)) = Inr c \<and> getLatencyMicros (OpMsgReply r) = go_div t 1000"
proof -
  obtain s'' evs' where r: "readLoop (Suc (length answers)) dc s' [] (concat (map (\<lambda>(h, a). answer_bytes h a) answers)) = Inr (s'', evs')"
    "calls_to f evs' = map (Pair None) (answer_calls (AnswerMsg flags checksum (0 # d)))"
    using calls_arrive [OF assms(3-7)] by blast
  have l: "length d < 2 ^ 31" using assms(10) by (simp add: maximumDocumentSize_def)
  have sd: "sized_doc d" by (rule GD_sized [OF assms(9,10)])
  let ?ck = "if flags AND MsgFlagChecksumPresent \<noteq> 0 then checksum else 0"
  let ?w = "newWaiter\<lparr>reply := GotMessage flags ?ck, bodyData := Some (0 # d), unlocks := 1\<rparr>"
  have w: "await (calls_to f evs') newWaiter = Some ?w"
    unfolding r(2) by (simp add: newWaiter_def unlock_def Let_def)
  let ?sec = "(MsgPayload0, DocData (GRaw 3 d))"
  have "getCursorDocsFromMsgSection ?sec = Inr (map (GRaw 3) docs)"
    using cursor_docs [OF assms(8,9) l] by (simp add: getCursorDocsFromMsgSection_def)
  then have "replySections (Suc (length (0 # d))) (int (length (0 # d))) [] [] (0 # d) = Inr ([?sec], map (GRaw 3) docs)"
    using readSection_doc [OF sd] by simp
  moreover define rep where "rep = \<lparr>mrOp = \<lparr>mHeader = zeroHeader, mFlags = flags, mSections = [?sec], mChecksum = ?ck,
      mCommandName = [], mDatabase = []\<rparr>, mrLatency = t, mrcursorID = None, mrDocs = map (GRaw 3) docs\<rparr>"
  ultimately have m: "MsgOp_reply ?w t = Inr (OpMsgReply rep)"
    by (simp add: MsgOp_reply_def newWaiter_def bytes_of_def Let_def)
  have "Op_Execute write s f (calls_to f evs') t op = Inr (Inr (Some (OpMsgReply rep)), s', evs)"
  proof -
    obtain w' where "await (calls_to f evs') newWaiter = Some w'" "MsgOp_reply w' t = Inr (OpMsgReply rep)"
      using w m by blast
    with assms(1,2) show ?thesis by (elim disjE) (simp_all add: with_reply_def ExecOpWithReply_def)
  qed
  moreover have "fst (getCursorID (OpMsgReply rep)) = Inr c"
    using cursor_id [OF assms(8,9) l]
    by (simp add: rep_def MsgOpReply_getCursorID_def fetchPayload0Data_def MsgPayload0_def)
  ultimately show ?thesis using r(1) by (intro exI [of _ s''] exI [of _ evs'] exI [of _ rep]) (simp add: rep_def)
qed

subsection \<open>Instances\<close>

definition ex_get_more :: GetMoreOp where
  "ex_get_more = \<lparr>gHeader = zeroHeader, gCollection = ''t.c'', gLimit = 0, gCursorId = 9\<rparr>"

definition ex_idle :: "nat MongoSocket" where
  "ex_idle = NewDumbSocket\<lparr>references := 1\<rparr>"

lemma ex_query:
  obtains s' evs where "Query (\<lambda>_. None) ex_idle [\<lparr>reqOp = OpGetMore ex_get_more, reqMode = zeroQueryMode, reqFn = Some 7\<rparr>] =
      Inr (None, s', evs)" "dead s' = None" "replyFuncs s' = [(1, 7)]"
proof -
  have "case Query (\<lambda>_. None) ex_idle [\<lparr>reqOp = OpGetMore ex_get_more, reqMode = zeroQueryMode, reqFn = Some 7\<rparr>] of
      Inr (e, s', evs) \<Rightarrow> e = None \<and> dead s' = None \<and> replyFuncs s' = [(1, 7)] | Inl _ \<Rightarrow> False"
    by code_simp
  with that show thesis by (auto split: sum.splits prod.splits)
qed

theorem Execute_documents_witness:
  "\<exists>s' evs s'' evs' r. readLoop 2 (\<lambda>_. Inl Hang) s' []
        (answer_bytes (zeroHeader\<lparr>MessageLength := 47, ResponseTo := 1, hOpCode := OpCodeReply\<rparr>)
           (AnswerLegacy 8 0 0 [[5, 0, 0, 0, 0], [6, 0, 0, 0, 8, 0]])) = Inr (s'', evs') \<and>
     Op_Execute (\<lambda>_. None) ex_idle 7 (calls_to (7 :: nat) evs') 3 (OpGetMore ex_get_more) = Inr (Inr (Some (OpReply r)), s', evs) \<and>
     rDocs r = [GRaw 3 [5, 0, 0, 0, 0], GRaw 3 [6, 0, 0, 0, 8, 0]]"
proof -
  let ?h = "zeroHeader\<lparr>MessageLength := 47, ResponseTo := 1, hOpCode := OpCodeReply\<rparr>"
  let ?a = "AnswerLegacy 8 0 0 [[5, 0, 0, 0, 0], [6, 0, 0, 0, 8, 0]]"
  obtain s' evs where q: "Query (\<lambda>_. None) ex_idle [\<lparr>reqOp = OpGetMore ex_get_more, reqMode = zeroQueryMode, reqFn = Some 7\<rparr>] =
      Inr (None, s', evs)" "dead s' = None" "replyFuncs s' = [(1, 7)]" by (rule ex_query)
  have "framed [5, 0, 0, 0, 0]" "framed [6, 0, 0, 0, 8, 0]" by (simp_all add: framed_def getInt32_def le32_def)
  then have "answer_header ?h ?a" by (simp add: answer_header_def)
  moreover have "waits s' 1 7" using q(2,3) by (simp add: waits_def)
  ultimately show ?thesis
    using Execute_documents [OF q(1), of undefined ex_get_more 1 "[(?h, ?a)]" ?h 8 0 0 "[[5, 0, 0, 0, 0], [6, 0, 0, 0, 8, 0]]"
        "\<lambda>_. Inl Hang" 3] by (fastforce simp: numeral_2_eq_2 simp del: readLoop.simps Op_Execute.simps)
qed

theorem GetMore_broken_connection_witness:
  "\<exists>s' s'' evs'. readLoop 1 (\<lambda>_. Inl Hang) s' [] [] = Inr (s'', evs') \<and> replyFuncs s' = [(1, 7)] \<and>
     Op_Execute (\<lambda>_. None) ex_idle 7 (calls_to (7 :: nat) evs') 3 (OpGetMore ex_get_more) =
       Inl (Panic ''reply from execution was not the correct type'')"
proof -
  obtain s' evs where q: "Query (\<lambda>_. None) ex_idle [\<lparr>reqOp = OpGetMore ex_get_more, reqMode = zeroQueryMode, reqFn = Some 7\<rparr>] =
      Inr (None, s', evs)" "dead s' = None" "replyFuncs s' = [(1, 7)]" by (rule ex_query)
  from GetMore_broken_connection [OF q, of "\<lambda>_. Inl Hang" undefined 3 ex_get_more] q(3) show ?thesis by blast
qed

theorem output_documents_lost_witness:
  "\<exists>w. await [(None, CommandReply [2] [1] [3]), (None, CommandReply [2] [1] [4])] newWaiter = Some w \<and> replyData w = [] \<and>
     unlocks (replyFunc None (CommandReply [2] [1] [4]) (replyFunc None (CommandReply [2] [1] [3]) newWaiter)) = 2"
  using output_documents_lost [of "[[3], [4]]" "[1]" "[2]"] by (auto simp del: await.simps replyFunc.simps)

definition ex_command :: CommandOp where
  "ex_command = \<lparr>cHeader = zeroHeader, cDatabase = ''t'', cCommandName = ''ping'', cMetadata = GRaw 3 [5, 0, 0, 0, 0],
     cCommandArgs = GRaw 3 [5, 0, 0, 0, 0], cInputDocs = []\<rparr>"

theorem command_reply_hangs_witness:
  "\<exists>s' s'' evs'. readLoop 1 (\<lambda>_. Inl Hang) s' []
       (header_bytes (zeroHeader\<lparr>MessageLength := 40, ResponseTo := 1, hOpCode := OpCodeCommandReply\<rparr>) @
          [5, 0, 0, 0, 0] @ [5, 0, 0, 0, 0] @ [6, 0, 0, 0, 7]) = Inr (s'', evs') \<and>
     Op_Execute (\<lambda>_. None) ex_idle 7 (calls_to (7 :: nat) evs') 3 (OpCommand ex_command) = Inl Hang"
proof -
  have "case Query (\<lambda>_. None) ex_idle [\<lparr>reqOp = OpCommand ex_command, reqMode = zeroQueryMode, reqFn = Some 7\<rparr>] of
      Inr (e, s', evs) \<Rightarrow> e = None \<and> dead s' = None \<and> replyFuncs s' = [(1, 7)] | Inl _ \<Rightarrow> False"
    by code_simp
  then obtain s' evs where q: "Query (\<lambda>_. None) ex_idle [\<lparr>reqOp = OpCommand ex_command, reqMode = zeroQueryMode, reqFn = Some 7\<rparr>] =
      Inr (None, s', evs)" "dead s' = None" "replyFuncs s' = [(1, 7)]" by (auto split: sum.splits prod.splits)
  have "framed [5, 0, 0, 0, 0]" "framed ([6, 0, 0, 0, 7] @ [8])"
    by (simp_all add: framed_def getInt32_def le32_def)
  then show ?thesis
    using command_reply_hangs [OF q(1) _ q(2,3), of ex_command undefined
        "zeroHeader\<lparr>MessageLength := 40, ResponseTo := 1, hOpCode := OpCodeCommandReply\<rparr>"
        "[5, 0, 0, 0, 0]" "[5, 0, 0, 0, 0]" "[6, 0, 0, 0, 7]" "[8]" "\<lambda>_. Inl Hang" 3]
    by (auto simp: zeroHeader_def simp del: readLoop.simps Op_Execute.simps)
qed

text \<open>A batch of one document, with the answer around it.\<close>

definition ex_cursor :: "(string \<times> goval) list" where
  "ex_cursor = [(''firstBatch'', GSlice (map (GRaw 3) [[5, 0, 0, 0, 0]])), (''id'', GInt64 9), (''ns'', GString ''t.c'')]"

definition ex_answer :: "(string \<times> goval) list" where
  "ex_answer = [(''cursor'', GD ex_cursor), (''ok'', GFloat64 0)]"

lemma ex_plain:
  "doc_bytes [5, 0, 0, 0, 0]" "plain_doc ex_cursor" "plain_doc ex_answer"
proof -
  have n: "nul_free ''firstBatch''" "nul_free ''id''" "nul_free ''ns''" "nul_free ''cursor''" "nul_free ''ok''"
    by (simp_all add: nul_free_def raw_def)
  have "Marshal (GD []) = Inr [5, 0, 0, 0, 0]"
    by (simp add: Marshal_def handleErr_def docBytes_def sized_def enc32_def byte_of32_def)
  then show d: "doc_bytes [5, 0, 0, 0, 0]" by (rule doc_bytes_Marshal [rotated]) (simp add: plain_doc_def)
  have "skippable (GInt64 9)" "skippable (GString ''t.c'')" "skippable (GFloat64 0)"
    by (rule fits_skippable [of TM], rule fits.intros; simp)+
  moreover have "skippable (GSlice (map (GRaw 3) [[5, 0, 0, 0, 0]]))" using d by (intro raw_batch(1) [of _ TM]) auto
  ultimately show c: "plain_doc ex_cursor" using n by (simp add: plain_doc_def ex_cursor_def)
  have "skippable (GD ex_cursor)"
    by (rule skippable_doc [where es = ex_cursor]) (use c in \<open>auto simp: plain_doc_def rbind_def split: sum.split\<close>)
  with n show "plain_doc ex_answer" using \<open>skippable (GFloat64 0)\<close> by (simp add: plain_doc_def ex_answer_def)
qed

definition ex_find :: MsgOp where
  "ex_find = \<lparr>mHeader = zeroHeader, mFlags = 0, mSections = [(0, DocData (GRaw 3 [5, 0, 0, 0, 0]))], mChecksum = 0,
     mCommandName = ''find'', mDatabase = ''t''\<rparr>"

theorem Execute_cursor_witness:
  "\<exists>s' evs s'' evs' r d. Marshal (GD ex_answer) = Inr d \<and> readLoop 2 (\<lambda>_. Inl Hang) s' []
        (answer_bytes (zeroHeader\<lparr>MessageLength := 21 + word_of_nat (length d), ResponseTo := 1, hOpCode := OpCodeMessage\<rparr>)
           (AnswerMsg 0 0 (0 # d))) = Inr (s'', evs') \<and>
     Op_Execute (\<lambda>_. None) ex_idle 7 (calls_to (7 :: nat) evs') 3 (OpMsg ex_find) = Inr (Inr (Some (OpMsgReply r)), s', evs) \<and>
     mrDocs r = [GRaw 3 [5, 0, 0, 0, 0]] \<and> fst (getCursorID (OpMsgReply r)) = Inr 9"
proof -
  have "case Query (\<lambda>_. None) ex_idle [\<lparr>reqOp = OpMsg ex_find, reqMode = zeroQueryMode, reqFn = Some 7\<rparr>] of
      Inr (e, s', evs) \<Rightarrow> e = None \<and> dead s' = None \<and> replyFuncs s' = [(1, 7)] | Inl _ \<Rightarrow> False"
    by code_simp
  then obtain s' evs where q: "Query (\<lambda>_. None) ex_idle [\<lparr>reqOp = OpMsg ex_find, reqMode = zeroQueryMode, reqFn = Some 7\<rparr>] =
      Inr (None, s', evs)" "dead s' = None" "replyFuncs s' = [(1, 7)]" by (auto split: sum.splits prod.splits)
  have w: "waits s' 1 7" using q(2,3) by (simp add: waits_def)
  have "case Marshal (GD ex_answer) of Inr d \<Rightarrow> length d = 79 | Inl _ \<Rightarrow> False" by code_simp
  then obtain d where d: "Marshal (GD ex_answer) = Inr d" "length d = 79" by (auto split: sum.splits)
  let ?h = "zeroHeader\<lparr>MessageLength := 21 + word_of_nat (length d), ResponseTo := 1, hOpCode := OpCodeMessage\<rparr>"
  have h: "answer_header ?h (AnswerMsg 0 0 (0 # d))" using d(2) by (simp add: answer_header_def)
  have c: "cursor_answer ''firstBatch'' 9 [[5, 0, 0, 0, 0]] ex_answer"
    unfolding cursor_answer_def
  proof (intro conjI)
    show "\<exists>cur. (''cursor'', GD cur) \<in> set ex_answer \<and> plain_doc cur \<and> (''id'', GInt64 9) \<in> set cur \<and>
        (''firstBatch'', GSlice (map (GRaw 3) [[5, 0, 0, 0, 0]])) \<in> set cur \<and>
        (''firstBatch'' = ''firstBatch'' \<longrightarrow> ''nextBatch'' \<notin> fst ` set cur) \<and>
        (''firstBatch'' = ''nextBatch'' \<longrightarrow> ''firstBatch'' \<notin> fst ` set cur)"
      by (rule exI [of _ ex_cursor], intro conjI ex_plain(2)) (simp_all add: ex_answer_def ex_cursor_def)
  qed (use ex_plain in simp_all)
  show ?thesis
    using Execute_cursor [OF q(1) _ w _ _ _ _ c d(1), of ex_find undefined "[(?h, AnswerMsg 0 0 (0 # d))]" ?h 0 0
        "\<lambda>_. Inl Hang" 3] h d by (fastforce simp: numeral_2_eq_2 maximumDocumentSize_def simp del: readLoop.simps Op_Execute.simps)
qed

end
