(* ===== verification/Cursors.thy ===== *)
theory Cursors
  imports Replies "HOL-Library.AList"
begin

text \<open>
  Which live cursor stands for a recorded one (\<open>cursors.go\<close>): the interface \<open>cursorManager\<close>, the
  manager that is built by reading the recording beforehand, and the one that keeps the live
  cursors in a cache. Channels that are only ever closed are flags; a call that waits gives
  \<open>Blocked\<close>.
\<close>

subsection \<open>The interface\<close>

datatype lookup = Found int64 | Missing | Blocked

record 'm cursorManager =
  GetCursor :: "int64 \<Rightarrow> int \<Rightarrow> 'm \<Rightarrow> lookup \<times> 'm"
  SetCursor :: "int64 \<Rightarrow> int64 \<Rightarrow> 'm \<Rightarrow> 'm"
  MarkFailed :: "RecordedOp \<Rightarrow> 'm \<Rightarrow> 'm res"

text \<open>
  What the playback relies on, for managers that may differ in choices the code leaves open:
  \<open>provides m f l\<close> says that \<open>m\<close> may give the live cursor \<open>l\<close> for the recorded cursor \<open>f\<close>.
  Only \<open>SetCursor\<close> adds such a pair, and \<open>GetCursor\<close> gives no other.
\<close>

locale cursor_manager =
  fixes mgrs :: "'m cursorManager set"
    and provides :: "'m \<Rightarrow> int64 \<Rightarrow> int64 \<Rightarrow> bool"
  assumes get_provides: "mgr \<in> mgrs \<Longrightarrow> GetCursor mgr f conn m = (Found l, m') \<Longrightarrow> provides m f l"
    and get_keeps: "mgr \<in> mgrs \<Longrightarrow> GetCursor mgr f conn m = (r, m') \<Longrightarrow> provides m' f' l \<Longrightarrow> provides m f' l"
    and set_provides: "mgr \<in> mgrs \<Longrightarrow> provides (SetCursor mgr f l m) f' l' \<Longrightarrow> (f' = f \<and> l' = l) \<or> provides m f' l'"
    and fail_keeps: "mgr \<in> mgrs \<Longrightarrow> MarkFailed mgr op m = Inr m' \<Longrightarrow> provides m' f l \<Longrightarrow> provides m f l"

subsection \<open>Preprocessing a recording\<close>

record opKey =
  driverEndpoint :: string
  serverEndpoint :: string
  opID :: int32

record cursorInfo =
  liveCursorID :: int64
  successClosed :: bool
  failClosed :: bool
  numUsesLeft :: int
  replyConn :: int

record preprocessCursorManager =
  cursorInfos :: "(int64 \<times> cursorInfo) list"
  opToCursors :: "(opKey \<times> int64) list"

record cursorCounter =
  opOriginKey :: opKey
  usesConn :: "int list"
  counterConn :: int
  replySeen :: bool
  usesSeen :: int

type_synonym cursorsSeenMap = "(int64 \<times> cursorCounter) list"

definition zeroKey :: opKey where
  "zeroKey = \<lparr>driverEndpoint = [], serverEndpoint = [], opID = 0\<rparr>"

definition trackSeen :: "int64 \<Rightarrow> int \<Rightarrow> cursorsSeenMap \<Rightarrow> cursorsSeenMap" where
  "trackSeen cursorID connectionNum c =
     AList.update cursorID
       (case map_of c cursorID of
          None \<Rightarrow> \<lparr>opOriginKey = zeroKey, usesConn = [connectionNum], counterConn = 0,
            replySeen = False, usesSeen = 1\<rparr>
        | Some val \<Rightarrow> val\<lparr>usesSeen := usesSeen val + 1, usesConn := usesConn val @ [connectionNum]\<rparr>) c"

definition reply_key :: "RecordedOp \<Rightarrow> opKey" where
  "reply_key op = \<lparr>driverEndpoint = DstEndpoint op, serverEndpoint = SrcEndpoint op,
     opID = ResponseTo (Header (rawOp op))\<rparr>"

definition request_key :: "RecordedOp \<Rightarrow> opKey" where
  "request_key op = \<lparr>driverEndpoint = SrcEndpoint op, serverEndpoint = DstEndpoint op,
     opID = RequestID (Header (rawOp op))\<rparr>"

definition trackReplied :: "int64 \<Rightarrow> RecordedOp \<Rightarrow> cursorsSeenMap \<Rightarrow> cursorsSeenMap" where
  "trackReplied cursorID op c =
     AList.update cursorID
       (case map_of c cursorID of
          None \<Rightarrow> \<lparr>opOriginKey = reply_key op, usesConn = [], counterConn = SeenConnectionNum op,
            replySeen = True, usesSeen = 0\<rparr>
        | Some val \<Rightarrow> val\<lparr>counterConn := SeenConnectionNum op, replySeen := True\<rparr>) c"

text \<open>
  What one operation of the recording does to the counters. An operation whose name or cursors
  cannot be read, or that does not parse, is skipped; \<open>decompress\<close> is that of \<open>Parse\<close>.
\<close>

definition skip_errors :: "'a \<Rightarrow> ('b \<Rightarrow> 'a res) \<Rightarrow> 'b res \<Rightarrow> 'a res" where
  "skip_errors c f r = (case r of Inl (Error _) \<Rightarrow> Inr c | Inl fault \<Rightarrow> Inl fault | Inr x \<Rightarrow> f x)"

definition cursor_code :: "OpCode \<Rightarrow> bool" where
  "cursor_code opCode \<longleftrightarrow> opCode \<in> {OpCodeGetMore, OpCodeKillCursors, OpCodeReply, OpCodeCommandReply,
     OpCodeCommand, OpCodeMessage}"

definition track :: "RecordedOp \<Rightarrow> Op option \<Rightarrow> cursorsSeenMap \<Rightarrow> cursorsSeenMap res" where
  "track op parsed c =
     (case parsed of
        None \<Rightarrow> Inr c
      | Some castOp \<Rightarrow>
          if cursorsRewriteable castOp then
            skip_errors c (\<lambda>ids.
              Inr (fold (\<lambda>cursorID c. if cursorID = 0 then c else trackSeen cursorID (SeenConnectionNum op) c) ids c))
              (fst (getCursorIDs castOp))
          else if Replyable castOp then
            skip_errors c (\<lambda>cursorID. Inr (if cursorID = 0 then c else trackReplied cursorID op c))
              (fst (getCursorID castOp))
          else Inr c)"

definition preprocessOp :: "(bytes \<Rightarrow> bytes res) \<Rightarrow> RecordedOp \<Rightarrow> cursorsSeenMap \<Rightarrow> cursorsSeenMap res" where
  "preprocessOp decompress op c =
     (let opCode = hOpCode (Header (rawOp op));
          parse = skip_errors c (\<lambda>(parsed, _). track op parsed c) (Parse decompress (rawOp op))
      in if \<not> cursor_code opCode then Inr c
         else if opCode = OpCodeCommand then
           skip_errors c (\<lambda>commandName.
             if commandName \<noteq> ''getMore'' \<and> commandName \<noteq> ''getmore'' then Inr c else parse)
             (getCommandName_raw (rawOp op))
         else parse)"

fun preprocessOps :: "(bytes \<Rightarrow> bytes res) \<Rightarrow> RecordedOp list \<Rightarrow> cursorsSeenMap \<Rightarrow> cursorsSeenMap res" where
  "preprocessOps decompress [] c = Inr c"
| "preprocessOps decompress (op # ops) c = rbind (preprocessOp decompress op c) (preprocessOps decompress ops)"

text \<open>
  The cursors of the manager are those with a reply and a use in the recording. The code ranges
  over a map, here over its list: when two cursors come from the same request, which of them
  its key leads to is open in Go.
\<close>

definition newInfo :: "cursorCounter \<Rightarrow> cursorInfo" where
  "newInfo counter = \<lparr>liveCursorID = 0, successClosed = False, failClosed = False,
     numUsesLeft = usesSeen counter, replyConn = counterConn counter\<rparr>"

definition useful :: "int64 \<times> cursorCounter \<Rightarrow> bool" where
  "useful = (\<lambda>(cursorID, counter). cursorID \<noteq> 0 \<and> replySeen counter \<and> usesSeen counter > 0)"

definition newPreprocessCursorManager :: "(bytes \<Rightarrow> bytes res) \<Rightarrow> RecordedOp list \<Rightarrow> preprocessCursorManager res" where
  "newPreprocessCursorManager decompress ops =
     rbind (preprocessOps decompress ops []) (\<lambda>cursorsSeen.
       let found = filter useful cursorsSeen in
       Inr \<lparr>cursorInfos = map (\<lambda>(cursorID, counter). (cursorID, newInfo counter)) found,
            opToCursors = fold (\<lambda>(cursorID, counter). AList.update (opOriginKey counter) cursorID) found []\<rparr>)"

subsection \<open>Its operations\<close>

text \<open>
  \<open>GetCursor\<close>: when both channels of a cursor are closed the second \<open>select\<close> takes either;
  \<open>pick\<close> says whether it takes the cursor. The connection on which the reply is expected does not wait for it.
\<close>

definition pre_GetCursor :: "(int64 \<Rightarrow> bool) \<Rightarrow> int64 \<Rightarrow> int \<Rightarrow> preprocessCursorManager \<Rightarrow> lookup \<times> preprocessCursorManager" where
  "pre_GetCursor pick fileCursorID connectionNum p =
     (case map_of (cursorInfos p) fileCursorID of
        None \<Rightarrow> (Missing, p)
      | Some info \<Rightarrow>
          if \<not> successClosed info \<and> connectionNum = replyConn info then (Missing, p)
          else if successClosed info \<and> (\<not> failClosed info \<or> pick fileCursorID) then
            let info = info\<lparr>numUsesLeft := numUsesLeft info - 1\<rparr> in
            (Found (liveCursorID info),
              p\<lparr>cursorInfos :=
                (if numUsesLeft info \<le> 0 then AList.delete fileCursorID (cursorInfos p)
                 else AList.update fileCursorID info (cursorInfos p))\<rparr>)
          else if failClosed info then (Missing, p)
          else (Blocked, p))"

definition pre_SetCursor :: "int64 \<Rightarrow> int64 \<Rightarrow> preprocessCursorManager \<Rightarrow> preprocessCursorManager" where
  "pre_SetCursor fileCursorID newCursorID p =
     (case map_of (cursorInfos p) fileCursorID of
        None \<Rightarrow> p
      | Some info \<Rightarrow>
          if successClosed info then p
          else p\<lparr>cursorInfos := AList.update fileCursorID
                 (info\<lparr>liveCursorID := newCursorID, successClosed := True\<rparr>) (cursorInfos p)\<rparr>)"

definition pre_MarkFailed :: "RecordedOp \<Rightarrow> preprocessCursorManager \<Rightarrow> preprocessCursorManager res" where
  "pre_MarkFailed failedOp p =
     (case map_of (opToCursors p) (request_key failedOp) of
        None \<Rightarrow> Inr p
      | Some cursor \<Rightarrow>
          (case map_of (cursorInfos p) cursor of
             None \<Rightarrow> Inr p
           | Some info \<Rightarrow>
               if failClosed info then Inl (Panic ''close of closed channel'')
               else Inr (p\<lparr>cursorInfos := AList.update cursor (info\<lparr>failClosed := True\<rparr>) (cursorInfos p)\<rparr>)))"

definition preprocessManager :: "(int64 \<Rightarrow> bool) \<Rightarrow> preprocessCursorManager cursorManager" where
  "preprocessManager pick =
     \<lparr>GetCursor = pre_GetCursor pick, SetCursor = pre_SetCursor, MarkFailed = pre_MarkFailed\<rparr>"

subsection \<open>The cache\<close>

text \<open>
  The cache of the package \<open>go-cache\<close>, of which the program uses three methods. Its entries may
  expire at any time, so the laws only say where an entry can come from.
\<close>

record ('c, 'v) gocache =
  cacheGet :: "'c \<Rightarrow> string \<Rightarrow> 'v option"
  cacheSet :: "'c \<Rightarrow> string \<Rightarrow> 'v \<Rightarrow> 'c"
  cacheDelete :: "'c \<Rightarrow> string \<Rightarrow> 'c"

definition cache_laws :: "('c, 'v) gocache \<Rightarrow> bool" where
  "cache_laws g \<longleftrightarrow>
     (\<forall>c k v k' w. cacheGet g (cacheSet g c k v) k' = Some w \<longrightarrow> (k' = k \<and> w = v) \<or> cacheGet g c k' = Some w) \<and>
     (\<forall>c k k' w. cacheGet g (cacheDelete g c k) k' = Some w \<longrightarrow> cacheGet g c k' = Some w)"

text \<open>\<open>cursorCache\<close>: the key of a cursor is its number in decimal.\<close>

definition cache_GetCursor :: "('c, int64) gocache \<Rightarrow> int64 \<Rightarrow> int \<Rightarrow> 'c \<Rightarrow> lookup \<times> 'c" where
  "cache_GetCursor g fileCursorID connectionNum c =
     ((case cacheGet g c (itoa (sint fileCursorID)) of None \<Rightarrow> Missing | Some value \<Rightarrow> Found value), c)"

definition cache_SetCursor :: "('c, int64) gocache \<Rightarrow> int64 \<Rightarrow> int64 \<Rightarrow> 'c \<Rightarrow> 'c" where
  "cache_SetCursor g fileCursorID newCursorID c = cacheSet g c (itoa (sint fileCursorID)) newCursorID"

definition cache_MarkFailed :: "RecordedOp \<Rightarrow> 'c \<Rightarrow> 'c res" where
  "cache_MarkFailed op c = Inr c"

definition cacheManager :: "('c, int64) gocache \<Rightarrow> 'c cursorManager" where
  "cacheManager g = \<lparr>GetCursor = cache_GetCursor g, SetCursor = cache_SetCursor g, MarkFailed = cache_MarkFailed\<rparr>"


subsection \<open>Both keep the contract\<close>

definition pre_provides :: "preprocessCursorManager \<Rightarrow> int64 \<Rightarrow> int64 \<Rightarrow> bool" where
  "pre_provides p f l \<longleftrightarrow>
     (\<exists>info. map_of (cursorInfos p) f = Some info \<and> successClosed info \<and> liveCursorID info = l)"

lemmas alist_simps = update_conv' delete_conv'

interpretation pre: cursor_manager "range preprocessManager" pre_provides
proof unfold_locales
  fix mgr f conn m l m'
  assume "mgr \<in> range preprocessManager" "GetCursor mgr f conn m = (Found l, m')"
  then show "pre_provides m f l"
    by (auto simp: preprocessManager_def pre_GetCursor_def pre_provides_def Let_def split: option.splits if_splits)
next
  fix mgr f conn m r m' f' l
  assume "mgr \<in> range preprocessManager" "GetCursor mgr f conn m = (r, m')" "pre_provides m' f' l"
  then show "pre_provides m f' l"
    by (auto simp: preprocessManager_def pre_GetCursor_def pre_provides_def Let_def alist_simps split: option.splits if_splits)
next
  fix mgr f l m f' l'
  assume "mgr \<in> range preprocessManager" "pre_provides (SetCursor mgr f l m) f' l'"
  then show "(f' = f \<and> l' = l) \<or> pre_provides m f' l'"
    by (auto simp: preprocessManager_def pre_SetCursor_def pre_provides_def alist_simps split: option.splits if_splits)
next
  fix mgr op m m' f l
  assume "mgr \<in> range preprocessManager" "MarkFailed mgr op m = Inr m'" "pre_provides m' f l"
  then show "pre_provides m f l"
    by (auto simp: preprocessManager_def pre_MarkFailed_def pre_provides_def alist_simps split: option.splits if_splits)
qed

text \<open>The cache, for every implementation of the package that keeps its laws.\<close>

lemma digit_inj: "char_of (48 + i) = (char_of (48 + j) :: char) \<Longrightarrow> i < 10 \<Longrightarrow> j < 10 \<Longrightarrow> i = (j :: nat)"
proof -
  assume a: "char_of (48 + i) = (char_of (48 + j) :: char)" and l: "i < 10" "j < 10"
  have "(of_char (char_of (48 + i) :: char) :: nat) = of_char (char_of (48 + j) :: char)" using a by simp
  then show ?thesis using l by (simp add: of_char_of)
qed

lemma nat_digits_inj: "nat_digits m = nat_digits n \<Longrightarrow> m = n"
proof (induction m arbitrary: n rule: less_induct)
  case (less m)
  have ne: "nat_digits k \<noteq> []" for k by (subst nat_digits.simps) simp
  show ?case
  proof (cases "m < 10 \<or> n < 10")
    case True
    then show ?thesis
      using less.prems ne ne [symmetric] digit_inj nat_digits.simps [of m] nat_digits.simps [of n]
      by (auto split: if_splits)
  next
    case False
    then have e: "nat_digits (m div 10) = nat_digits (n div 10)" "m mod 10 = n mod 10"
      using less.prems digit_inj [of "m mod 10" "n mod 10"] nat_digits.simps [of m] nat_digits.simps [of n]
      by auto
    have "m div 10 = n div 10" using False e(1) less.IH [of "m div 10"] by simp
    then show ?thesis using e(2) by (metis div_mult_mod_eq)
  qed
qed
lemma itoa_inj: "itoa i = itoa j \<Longrightarrow> i = j"
proof -
  have h: "nat_digits n \<noteq> CHR ''-'' # xs" for n xs
  proof (induction n arbitrary: xs rule: less_induct)
    case (less n)
    have c: "char_of (48 + k) \<noteq> CHR ''-''" if "k < 10" for k :: nat
    proof
      assume "char_of (48 + k) = CHR ''-''"
      then have "(of_char (char_of (48 + k) :: char) :: nat) = of_char (CHR ''-'')" by simp
      then show False using that by (simp add: of_char_of)
    qed
    have ne: "nat_digits k \<noteq> []" for k by (subst nat_digits.simps) simp
    show ?case
    proof (cases "n < 10")
      case True then show ?thesis using c by (subst nat_digits.simps) auto
    next
      case False
      then show ?thesis using less [of "n div 10"] ne [of "n div 10"]
        by (subst nat_digits.simps) (auto simp: append_eq_Cons_conv)
    qed
  qed
  assume "itoa i = itoa j"
  then show ?thesis using nat_digits_inj h h [symmetric]
    by (auto simp: itoa_def dest!: nat_digits_inj split: if_splits)
qed

definition cache_provides :: "('c, int64) gocache \<Rightarrow> 'c \<Rightarrow> int64 \<Rightarrow> int64 \<Rightarrow> bool" where
  "cache_provides g c f l \<longleftrightarrow> cacheGet g c (itoa (sint f)) = Some l"

lemma itoa_sint_inj: "itoa (sint f) = itoa (sint f') \<Longrightarrow> f = f'"
  by (drule itoa_inj) (rule signed_word_eqI)

lemma cache_set_origin:
  "cache_laws g \<Longrightarrow> cacheGet g (cacheSet g c k v) k' = Some w \<Longrightarrow> (k' = k \<and> w = v) \<or> cacheGet g c k' = Some w"
  unfolding cache_laws_def by blast

lemma cache_delete_origin: "cache_laws g \<Longrightarrow> cacheGet g (cacheDelete g c k) k' = Some w \<Longrightarrow> cacheGet g c k' = Some w"
  unfolding cache_laws_def by blast

lemma cache_contract: "cache_laws g \<Longrightarrow> cursor_manager {cacheManager g} (cache_provides g)"
proof unfold_locales
  fix mgr f l m f' l'
  assume "cache_laws g" "mgr \<in> {cacheManager g}" "cache_provides g (SetCursor mgr f l m) f' l'"
  then show "(f' = f \<and> l' = l) \<or> cache_provides g m f' l'"
    using cache_set_origin [of g m "itoa (sint f)" l "itoa (sint f')" l'] itoa_sint_inj [of f' f]
    by (simp add: cacheManager_def cache_SetCursor_def cache_provides_def) blast
qed (auto simp: cacheManager_def cache_GetCursor_def cache_MarkFailed_def cache_provides_def split: option.splits)

end
