(* ===== verification/Cursors_Correct.thy ===== *)
theory Cursors_Correct
  imports Cursors
begin

text \<open>
  What preprocessing a recording gives: the cursors that the manager knows are those that some
  reply of the recording hands out and some operation uses, each with its number of uses, and
  the manager hands the live cursor out that many times.
\<close>

subsection \<open>Uses of cursors in a recording\<close>

text \<open>
  The reference: the operation that preprocessing looks at, if any, the cursors that it uses and
  the one that it hands out.
\<close>

definition read_op :: "(bytes \<Rightarrow> bytes res) \<Rightarrow> RecordedOp \<Rightarrow> Op option" where
  "read_op decompress op =
     (let code = hOpCode (Header (rawOp op)) in
      if cursor_code code \<and> (code = OpCodeCommand \<longrightarrow> getCommandName_raw (rawOp op) \<in> {Inr ''getMore'', Inr ''getmore''})
      then (case Parse decompress (rawOp op) of Inr (parsed, _) \<Rightarrow> parsed | Inl _ \<Rightarrow> None)
      else None)"

definition uses_of :: "Op option \<Rightarrow> int64 list" where
  "uses_of parsed =
     (case parsed of
        Some p \<Rightarrow> (case fst (getCursorIDs p) of Inr ids \<Rightarrow> if cursorsRewriteable p then filter (\<lambda>c. c \<noteq> 0) ids else [] | _ \<Rightarrow> [])
      | None \<Rightarrow> [])"

definition gives_of :: "Op option \<Rightarrow> int64 list" where
  "gives_of parsed =
     (case parsed of
        Some p \<Rightarrow> (case fst (getCursorID p) of Inr c \<Rightarrow> if Replyable p \<and> c \<noteq> 0 then [c] else [] | _ \<Rightarrow> [])
      | None \<Rightarrow> [])"

definition uses_in :: "(bytes \<Rightarrow> bytes res) \<Rightarrow> RecordedOp list \<Rightarrow> int64 \<Rightarrow> int" where
  "uses_in decompress ops f = int (length (filter (\<lambda>c. c = f) (concat (map (\<lambda>op. uses_of (read_op decompress op)) ops))))"

definition replies_in :: "(bytes \<Rightarrow> bytes res) \<Rightarrow> RecordedOp list \<Rightarrow> int64 \<Rightarrow> int list" where
  "replies_in decompress ops f = map SeenConnectionNum (filter (\<lambda>op. f \<in> set (gives_of (read_op decompress op))) ops)"

subsection \<open>The counters\<close>

definition counted :: "cursorsSeenMap \<Rightarrow> int64 \<Rightarrow> int \<Rightarrow> int list \<Rightarrow> bool" where
  "counted c f k rs \<longleftrightarrow>
     (case map_of c f of
        None \<Rightarrow> k = 0 \<and> rs = []
      | Some v \<Rightarrow> usesSeen v = k \<and> replySeen v = (rs \<noteq> []) \<and> (rs \<noteq> [] \<longrightarrow> counterConn v = last rs))"

lemma trackSeen_counted: "counted c f k rs \<Longrightarrow> counted (trackSeen f' conn c) f (if f' = f then k + 1 else k) rs"
  by (auto simp: counted_def trackSeen_def alist_simps split: option.splits)

lemma trackReplied_counted:
  "counted c f k rs \<Longrightarrow> counted (trackReplied f' op c) f k (if f' = f then rs @ [SeenConnectionNum op] else rs)"
  by (auto simp: counted_def trackReplied_def alist_simps split: option.splits)

lemma tracks_counted:
  "counted c f k rs \<Longrightarrow>
    counted (fold (\<lambda>cursorID c. if cursorID = 0 then c else trackSeen cursorID conn c) ids c) f
      (k + int (length (filter (\<lambda>c. c = f) (filter (\<lambda>c. c \<noteq> 0) ids)))) rs"
proof (induction ids arbitrary: c k)
  case Nil
  then show ?case by simp
next
  case (Cons i ids)
  show ?case
    using Cons.IH [OF Cons.prems] Cons.IH [OF trackSeen_counted [OF Cons.prems, of i conn]]
    by (auto simp: algebra_simps)
qed

lemma fold_distinct:
  "(\<And>x c. distinct (map fst c) \<Longrightarrow> distinct (map fst (f x c))) \<Longrightarrow> distinct (map fst c) \<Longrightarrow> distinct (map fst (fold f xs c))"
  by (induction xs arbitrary: c) auto

lemma track_distinct: "track op parsed c = Inr c' \<Longrightarrow> distinct (map fst c) \<Longrightarrow> distinct (map fst c')"
  by (auto simp: track_def skip_errors_def trackSeen_def trackReplied_def distinct_update
      intro!: fold_distinct split: option.splits if_splits sum.splits fault.splits)

lemma preprocessOp_distinct: "preprocessOp decompress op c = Inr c' \<Longrightarrow> distinct (map fst c) \<Longrightarrow> distinct (map fst c')"
  by (auto simp: preprocessOp_def Let_def skip_errors_def split: if_splits sum.splits fault.splits prod.splits
      dest: track_distinct)

lemma preprocessOps_distinct: "preprocessOps decompress ops c = Inr c' \<Longrightarrow> distinct (map fst c) \<Longrightarrow> distinct (map fst c')"
  by (induction ops arbitrary: c) (auto simp: rbind_eq_Inr dest: preprocessOp_distinct)

lemma track_counted:
  assumes "track op parsed c = Inr c'" "counted c f k rs"
  shows "counted c' f (k + int (length (filter (\<lambda>c. c = f) (uses_of parsed))))
    (if f \<in> set (gives_of parsed) then rs @ [SeenConnectionNum op] else rs)"
proof (cases parsed)
  case None
  then show ?thesis using assms by (simp add: track_def uses_of_def gives_of_def)
next
  case (Some p)
  have x: "\<not> (cursorsRewriteable p \<and> Replyable p)" by (cases p) auto
  consider "cursorsRewriteable p" | "\<not> cursorsRewriteable p" "Replyable p" | "\<not> cursorsRewriteable p" "\<not> Replyable p" by blast
  then show ?thesis
  proof cases
    case 1
    then show ?thesis
      using assms Some x tracks_counted [OF assms(2), of "SeenConnectionNum op"]
      by (auto simp: track_def uses_of_def gives_of_def skip_errors_def split: prod.splits sum.splits fault.splits)
  next
    case 2
    have same: "counted (trackReplied f op c) f k (rs @ [SeenConnectionNum op])"
      and other: "x \<noteq> f \<Longrightarrow> counted (trackReplied x op c) f k rs" for x
      using trackReplied_counted [OF assms(2), of f op] trackReplied_counted [OF assms(2), of x op] by simp_all
    show ?thesis
      using 2 assms Some same other
      by (auto simp: track_def uses_of_def gives_of_def skip_errors_def split: sum.splits fault.splits if_splits)
  next
    case 3
    then show ?thesis using assms Some
      by (auto simp: track_def uses_of_def gives_of_def split: prod.splits sum.splits)
  qed
qed

lemma preprocessOp_counted:
  assumes "preprocessOp decompress op c = Inr c'" "counted c f k rs"
  shows "counted c' f (k + int (length (filter (\<lambda>c. c = f) (uses_of (read_op decompress op)))))
    (if f \<in> set (gives_of (read_op decompress op)) then rs @ [SeenConnectionNum op] else rs)"
proof (cases "read_op decompress op")
  case None
  have "c' = c"
    using assms(1) None
    by (auto simp: preprocessOp_def read_op_def Let_def skip_errors_def track_def split: sum.splits fault.splits if_splits prod.splits option.splits)
  then show ?thesis using assms(2) None by (simp add: uses_of_def gives_of_def)
next
  case (Some p)
  then have "track op (Some p) c = Inr c'"
    using assms(1)
    by (auto simp: preprocessOp_def read_op_def Let_def skip_errors_def split: sum.splits fault.splits if_splits prod.splits)
  then show ?thesis using track_counted [OF _ assms(2)] Some by metis
qed

lemma preprocessOps_counted:
  "preprocessOps decompress ops c = Inr c' \<Longrightarrow> counted c f k rs \<Longrightarrow>
    counted c' f (k + uses_in decompress ops f) (rs @ replies_in decompress ops f)"
proof (induction ops arbitrary: c k rs)
  case Nil
  then show ?case by (simp add: uses_in_def replies_in_def)
next
  case (Cons op ops)
  then obtain c1 where c1: "preprocessOp decompress op c = Inr c1" "preprocessOps decompress ops c1 = Inr c'"
    by (auto simp: rbind_eq_Inr)
  show ?case
    using Cons.IH [OF c1(2) preprocessOp_counted [OF c1(1) Cons.prems(2)]]
    by (simp add: uses_in_def replies_in_def algebra_simps split: if_splits)
qed

lemma map_of_useful:
  "distinct (map fst c) \<Longrightarrow> map_of (map (\<lambda>(cursorID, counter). (cursorID, newInfo counter)) (filter useful c)) f =
    (case map_of c f of None \<Rightarrow> None | Some v \<Rightarrow> if useful (f, v) then Some (newInfo v) else None)"
proof (induction c)
  case Nil
  then show ?case by simp
next
  case (Cons x c)
  obtain k v where x: "x = (k, v)" by force
  show ?case
  proof (cases "f = k")
    case True
    then have "map_of c f = None" using Cons.prems x by (auto simp: map_of_eq_None_iff)
    then show ?thesis using Cons True x by simp
  next
    case False
    then show ?thesis using Cons x by simp
  qed
qed

lemma preprocessed_info:
  assumes "newPreprocessCursorManager decompress ops = Inr p"
  shows "map_of (cursorInfos p) f =
    (if f \<noteq> 0 \<and> uses_in decompress ops f > 0 \<and> replies_in decompress ops f \<noteq> []
     then Some \<lparr>liveCursorID = 0, successClosed = False, failClosed = False,
       numUsesLeft = uses_in decompress ops f, replyConn = last (replies_in decompress ops f)\<rparr>
     else None)"
proof -
  obtain c where c: "preprocessOps decompress ops [] = Inr c"
    "cursorInfos p = map (\<lambda>(cursorID, counter). (cursorID, newInfo counter)) (filter useful c)"
    using assms by (auto simp: newPreprocessCursorManager_def rbind_eq_Inr Let_def)
  have "counted [] f 0 []" by (simp add: counted_def)
  then have n: "counted c f (uses_in decompress ops f) (replies_in decompress ops f)"
    using preprocessOps_counted [OF c(1)] by fastforce
  have m: "map_of (map (\<lambda>(cursorID, counter). (cursorID, newInfo counter)) (filter useful c)) f =
      (case map_of c f of None \<Rightarrow> None | Some v \<Rightarrow> if useful (f, v) then Some (newInfo v) else None)"
    using preprocessOps_distinct [OF c(1)] by (simp add: map_of_useful)
  show ?thesis
    using n unfolding c(2) m
    by (auto simp: counted_def useful_def newInfo_def split: option.splits)
qed



subsection \<open>Handing cursors out\<close>

fun gets :: "(int64 \<Rightarrow> bool) \<Rightarrow> int64 \<Rightarrow> int list \<Rightarrow> preprocessCursorManager \<Rightarrow> lookup list \<times> preprocessCursorManager" where
  "gets pick f [] p = ([], p)"
| "gets pick f (conn # conns) p =
     (case pre_GetCursor pick f conn p of (r, p) \<Rightarrow> map_prod ((#) r) id (gets pick f conns p))"

lemma gets_all:
  assumes "map_of (cursorInfos p) f = Some i" "successClosed i" "\<not> failClosed i" "numUsesLeft i = int n + 1"
    "length conns = n + 1"
  shows "fst (gets pick f conns p) = replicate (n + 1) (Found (liveCursorID i)) \<and>
    map_of (cursorInfos (snd (gets pick f conns p))) f = None"
  using assms
proof (induction n arbitrary: p i conns)
  case 0
  then show ?case by (cases conns) (auto simp: pre_GetCursor_def Let_def alist_simps)
next
  case (Suc n)
  obtain conn conns' where c: "conns = conn # conns'" using Suc.prems(5) by (cases conns) auto
  let ?i = "i\<lparr>numUsesLeft := numUsesLeft i - 1\<rparr>"
  let ?p = "p\<lparr>cursorInfos := AList.update f ?i (cursorInfos p)\<rparr>"
  have g: "pre_GetCursor pick f conn p = (Found (liveCursorID i), ?p)"
    using Suc.prems by (auto simp: pre_GetCursor_def Let_def)
  have "map_of (cursorInfos ?p) f = Some ?i" by (simp add: alist_simps)
  then show ?case using Suc.IH [of ?p ?i conns'] Suc.prems c g by simp
qed


text \<open>A recording with a reply that hands out the cursor 5, a getmore of it, and a getmore of another.\<close>

definition ex_op :: "int \<Rightarrow> int32 \<Rightarrow> int32 \<Rightarrow> OpCode \<Rightarrow> bytes \<Rightarrow> RecordedOp" where
  "ex_op conn req resp code b =
     zeroRecordedOp\<lparr>SrcEndpoint := ''c'', DstEndpoint := ''s'', SeenConnectionNum := conn,
       rawOp := \<lparr>Header = \<lparr>MessageLength = 36, RequestID = req, ResponseTo = resp, hOpCode = code\<rparr>,
         Body = replicate 16 0 @ b\<rparr>\<rparr>"

definition ex_reply :: RecordedOp where
  "ex_reply = (ex_op 1 0 7 OpCodeReply ([0, 0, 0, 0] @ [5, 0, 0, 0, 0, 0, 0, 0] @ [0, 0, 0, 0] @ [0, 0, 0, 0]))
     \<lparr>SrcEndpoint := ''s'', DstEndpoint := ''c''\<rparr>"

definition ex_getmore :: "byte \<Rightarrow> RecordedOp" where
  "ex_getmore c = ex_op 2 8 0 OpCodeGetMore ([0, 0, 0, 0, 97, 0, 0, 0, 0, 0] @ [c, 0, 0, 0, 0, 0, 0, 0])"

definition ex_ops :: "RecordedOp list" where
  "ex_ops = [ex_reply, ex_getmore 5, ex_getmore 6, ex_getmore 5]"

lemma ex_counts: "uses_in Inr ex_ops 5 = 2" "replies_in Inr ex_ops 5 = [1]"
  by code_simp+

lemma ex_preprocess: "newPreprocessCursorManager Inr ex_ops =
  Inr \<lparr>cursorInfos = [(5, \<lparr>liveCursorID = 0, successClosed = False, failClosed = False, numUsesLeft = 2, replyConn = 1\<rparr>)],
    opToCursors = [(reply_key ex_reply, 5)]\<rparr>"
  by code_simp



subsection \<open>Marking failures\<close>

text \<open>
  An operation that has failed, and whose cursor is still awaited, must not fail again: the
  second mark closes a closed channel and panics. The key of an operation does not hold its
  generation, so that this happens when a recording is played repeatedly.
\<close>

theorem MarkFailed_twice:
  assumes "pre_MarkFailed op p = Inr p'" "p' \<noteq> p"
  shows "pre_MarkFailed (op\<lparr>Generation := n\<rparr>) p' = Inl (Panic ''close of closed channel'')"
  using assms by (auto simp: pre_MarkFailed_def request_key_def alist_simps split: option.splits if_splits)

theorem MarkFailed_twice_witness:
  "\<exists>p p'. newPreprocessCursorManager Inr ex_ops = Inr p \<and> pre_MarkFailed (ex_op 1 7 0 OpCodeQuery []) p = Inr p' \<and>
    pre_MarkFailed (ex_op 1 7 0 OpCodeQuery []\<lparr>Generation := 1\<rparr>) p' = Inl (Panic ''close of closed channel'')"
proof -
  let ?p = "\<lparr>cursorInfos = [(5, \<lparr>liveCursorID = 0, successClosed = False, failClosed = False, numUsesLeft = 2, replyConn = 1\<rparr>)],
    opToCursors = [(reply_key ex_reply, 5)]\<rparr>"
  obtain p' where p': "pre_MarkFailed (ex_op 1 7 0 OpCodeQuery []) ?p = Inr p'" "p' \<noteq> ?p"
    by (simp add: pre_MarkFailed_def request_key_def reply_key_def ex_reply_def ex_op_def)
  show ?thesis using ex_preprocess p'(1) MarkFailed_twice [OF p', of 1] by blast
qed

end
