(* ===== verification/Execution.thy ===== *)
theory Execution
  imports Cursors Exec
begin

text \<open>
  The execution context of a playback (\<open>execute.go\<close>): recorded and live replies are paired by
  the key of the request that they answer, the pairs map recorded cursors to live ones, and the
  cursors of operations are rewritten before they are executed.
\<close>

subsection \<open>The context\<close>

text \<open>
  \<open>ReplyPair.ops\<close> by its two indices. \<open>contextLocked\<close> is whether a method has returned
  without unlocking the context. Entries of the cache of incomplete pairs may expire.
\<close>

record ReplyPair =
  fromWire :: "Op option"
  fromFile :: "Op option"

record ('c, 'm) ExecutionContext =
  IncompleteReplies :: 'c
  CompleteReplies :: "(string \<times> ReplyPair) list"
  CursorIDMap :: 'm
  contextLocked :: bool

datatype opSource = ReplyFromWire | ReplyFromFile

fun put_reply :: "opSource \<Rightarrow> Op \<Rightarrow> ReplyPair \<Rightarrow> ReplyPair" where
  "put_reply ReplyFromWire r rp = rp\<lparr>fromWire := Some r\<rparr>"
| "put_reply ReplyFromFile r rp = rp\<lparr>fromFile := Some r\<rparr>"

fun other_reply :: "opSource \<Rightarrow> ReplyPair \<Rightarrow> Op option" where
  "other_reply ReplyFromWire rp = fromFile rp"
| "other_reply ReplyFromFile rp = fromWire rp"

definition emptyPair :: ReplyPair where
  "emptyPair = \<lparr>fromWire = None, fromFile = None\<rparr>"

text \<open>
  \<open>completeReply\<close>. A pair in the cache is a pointer: one that stays incomplete is changed in
  place, which is written as setting its entry again.
\<close>

definition completeReply :: "('c, ReplyPair) gocache \<Rightarrow> string \<Rightarrow> Op \<Rightarrow> opSource \<Rightarrow>
    ('c, 'm) ExecutionContext \<Rightarrow> ('c, 'm) ExecutionContext res" where
  "completeReply g key rep opSource ctx =
     (if contextLocked ctx then Inl Hang
      else Inr
        (case cacheGet g (IncompleteReplies ctx) key of
           None \<Rightarrow> ctx\<lparr>IncompleteReplies := cacheSet g (IncompleteReplies ctx) key (put_reply opSource rep emptyPair)\<rparr>
         | Some rp \<Rightarrow>
             let rp = put_reply opSource rep rp in
             if other_reply opSource rp \<noteq> None
             then ctx\<lparr>CompleteReplies := AList.update key rp (CompleteReplies ctx),
                    IncompleteReplies := cacheDelete g (IncompleteReplies ctx) key\<rparr>
             else ctx\<lparr>IncompleteReplies := cacheSet g (IncompleteReplies ctx) key rp\<rparr>))"

text \<open>
  \<open>AddFromWire\<close> and \<open>AddFromFile\<close>: an error of \<open>getCursorID\<close> is ignored and comes with 0. The
  operation that a live reply answers gives its key, a recorded reply its own.
\<close>

definition addReply :: "('c, ReplyPair) gocache \<Rightarrow> opSource \<Rightarrow> string \<Rightarrow> Op \<Rightarrow>
    ('c, 'm) ExecutionContext \<Rightarrow> ('c, 'm) ExecutionContext res" where
  "addReply g opSource key rep ctx =
     (case getCursorID rep of
        (Inl (Error _), _) \<Rightarrow> Inr ctx
      | (Inl fault, _) \<Rightarrow> Inl fault
      | (Inr cursorID, rep) \<Rightarrow> if cursorID = 0 then Inr ctx else completeReply g key rep opSource ctx)"

definition AddFromWire :: "('c, ReplyPair) gocache \<Rightarrow> Op \<Rightarrow> RecordedOp \<Rightarrow> ('c, 'm) ExecutionContext \<Rightarrow>
    ('c, 'm) ExecutionContext res" where
  "AddFromWire g rep recordedOp = addReply g ReplyFromWire (cacheKey recordedOp False) rep"

definition AddFromFile :: "('c, ReplyPair) gocache \<Rightarrow> Op \<Rightarrow> RecordedOp \<Rightarrow> ('c, 'm) ExecutionContext \<Rightarrow>
    ('c, 'm) ExecutionContext res" where
  "AddFromFile g rep recordedOp = addReply g ReplyFromFile (cacheKey recordedOp True) rep"

subsection \<open>Rewriting cursors\<close>

text \<open>
  \<open>rewriteCursors\<close>: the ids that have a live cursor, in order. Waiting for a cursor in
  \<open>GetCursor\<close> is \<open>Hang\<close>, with the cursors before it already taken. The error of \<open>getCursorIDs\<close>
  is overwritten; it comes with no ids.
\<close>

fun liveCursors :: "'m cursorManager \<Rightarrow> int \<Rightarrow> int64 list \<Rightarrow> 'm \<Rightarrow> int64 list res \<times> 'm" where
  "liveCursors mgr conn [] m = (Inr [], m)"
| "liveCursors mgr conn (cursorID # ids) m =
     (case GetCursor mgr cursorID conn m of
        (Found l, m) \<Rightarrow> (case liveCursors mgr conn ids m of (r, m) \<Rightarrow> (rbind r (\<lambda>ls. Inr (l # ls)), m))
      | (Missing, m) \<Rightarrow> liveCursors mgr conn ids m
      | (Blocked, m) \<Rightarrow> (Inl Hang, m))"

definition rewriteCursors :: "'m cursorManager \<Rightarrow> Op \<Rightarrow> int \<Rightarrow> 'm \<Rightarrow> (bool \<times> Op) res \<times> 'm" where
  "rewriteCursors mgr rewriteable conn m =
     (case getCursorIDs rewriteable of
        (Inl (Panic s), _) \<Rightarrow> (Inl (Panic s), m)
      | (Inl Hang, _) \<Rightarrow> (Inl Hang, m)
      | (ids, rewriteable) \<Rightarrow>
          (case liveCursors mgr conn (case ids of Inl _ \<Rightarrow> [] | Inr ids \<Rightarrow> ids) m of
             (Inl f, m) \<Rightarrow> (Inl f, m)
           | (Inr newCursors, m) \<Rightarrow>
               (rbind (setCursorIDs newCursors rewriteable) (\<lambda>op. Inr (newCursors \<noteq> [], op)), m)))"

text \<open>
  \<open>handleCompletedReplies\<close>: on an error it returns with the context locked. The map is ranged
  over as its list.
\<close>

definition cursor_of :: "Op option \<Rightarrow> int64 res" where
  "cursor_of r =
     (case r of
        None \<Rightarrow> Inl (Panic ''runtime error: invalid memory address or nil pointer dereference'')
      | Some r \<Rightarrow> fst (getCursorID r))"

fun completed_loop :: "'m cursorManager \<Rightarrow> (string \<times> ReplyPair) list \<Rightarrow> 'm \<Rightarrow>
    unit res \<times> (string \<times> ReplyPair) list \<times> 'm" where
  "completed_loop mgr [] m = (Inr (), [], m)"
| "completed_loop mgr ((key, rp) # pairs) m =
     (case cursor_of (fromFile rp) of
        Inl f \<Rightarrow> (Inl f, (key, rp) # pairs, m)
      | Inr cursorFromFile \<Rightarrow>
          (case cursor_of (fromWire rp) of
             Inl f \<Rightarrow> (Inl f, (key, rp) # pairs, m)
           | Inr cursorFromWire \<Rightarrow>
               completed_loop mgr pairs
                 (if cursorFromFile \<noteq> 0 then SetCursor mgr cursorFromFile cursorFromWire m else m)))"

definition handleCompletedReplies :: "'m cursorManager \<Rightarrow> ('c, 'm) ExecutionContext \<Rightarrow>
    (err option \<times> ('c, 'm) ExecutionContext) res" where
  "handleCompletedReplies mgr ctx =
     (if contextLocked ctx then Inl Hang
      else
        (case completed_loop mgr (CompleteReplies ctx) (CursorIDMap ctx) of
           (Inr _, pairs, m) \<Rightarrow> Inr (None, ctx\<lparr>CompleteReplies := pairs, CursorIDMap := m\<rparr>)
         | (Inl (Error e), pairs, m) \<Rightarrow>
             Inr (Some e, ctx\<lparr>CompleteReplies := pairs, CursorIDMap := m, contextLocked := True\<rparr>)
         | (Inl fault, _, _) \<Rightarrow> Inl fault))"

subsection \<open>Executing a recorded operation\<close>

text \<open>
  \<open>Execute\<close>: the operation as it was executed, its reply, the error, the recorded operation
  (with the time it was played at) and the context. \<open>exec\<close> is \<open>Op.Execute\<close> on the
  connection, whose state it threads; \<open>now\<close> is the clock.
\<close>

type_synonym ('c, 'm, 's) executed =
  "((Op option \<times> Op option \<times> err option) \<times> RecordedOp \<times> ('c, 'm) ExecutionContext \<times> 's) res"

definition playOp :: "('c, ReplyPair) gocache \<Rightarrow> 'm cursorManager \<Rightarrow> gotime \<Rightarrow>
    ('s \<Rightarrow> Op \<Rightarrow> ((err + Op option) \<times> 's) res) \<Rightarrow> RecordedOp \<Rightarrow> Op \<Rightarrow>
    ('c, 'm) ExecutionContext \<Rightarrow> 's \<Rightarrow> ('c, 'm, 's) executed" where
  "playOp g mgr now exec op opToExec ctx s =
     (let opToExec = Preprocess opToExec; op = op\<lparr>PlayedAt := Some now\<rparr> in
      rbind (exec s opToExec) (\<lambda>(r, s).
        case r of
          Inl e \<Rightarrow>
            rbind (MarkFailed mgr op (CursorIDMap ctx)) (\<lambda>m.
              Inr ((Some opToExec, None, Some (Errorf ''error executing op: %v'' [])), op, ctx\<lparr>CursorIDMap := m\<rparr>, s))
        | Inr rep \<Rightarrow>
            rbind (case rep of None \<Rightarrow> Inr ctx | Some r \<Rightarrow> AddFromWire g r op ctx) (\<lambda>ctx.
            rbind (handleCompletedReplies mgr ctx) (\<lambda>(_, ctx).
              Inr ((Some opToExec, rep, None), op, ctx, s)))))"

definition rewriteOp :: "('c, ReplyPair) gocache \<Rightarrow> 'm cursorManager \<Rightarrow> gotime \<Rightarrow>
    ('s \<Rightarrow> Op \<Rightarrow> ((err + Op option) \<times> 's) res) \<Rightarrow> RecordedOp \<Rightarrow> Op \<Rightarrow>
    ('c, 'm) ExecutionContext \<Rightarrow> 's \<Rightarrow> ('c, 'm, 's) executed" where
  "rewriteOp g mgr now exec op opToExec ctx s =
     (case rewriteCursors mgr opToExec (SeenConnectionNum op) (CursorIDMap ctx) of
        (Inl (Error e), m) \<Rightarrow> Inr ((Some opToExec, None, Some e), op, ctx\<lparr>CursorIDMap := m\<rparr>, s)
      | (Inl fault, m) \<Rightarrow> Inl fault
      | (Inr (ok, opToExec), m) \<Rightarrow>
          let ctx = ctx\<lparr>CursorIDMap := m\<rparr> in
          if \<not> ok then Inr ((Some opToExec, None, None), op, ctx, s)
          else playOp g mgr now exec op opToExec ctx s)"

definition Execute :: "(bytes \<Rightarrow> bytes res) \<Rightarrow> ('c, ReplyPair) gocache \<Rightarrow> 'm cursorManager \<Rightarrow> bool \<Rightarrow> gotime \<Rightarrow>
    ('s \<Rightarrow> Op \<Rightarrow> ((err + Op option) \<times> 's) res) \<Rightarrow> RecordedOp \<Rightarrow>
    ('c, 'm) ExecutionContext \<Rightarrow> 's \<Rightarrow> ('c, 'm, 's) executed" where
  "Execute decompress g mgr driverOpsFiltered now exec op ctx s =
     (case Parse decompress (rawOp op) of
        Inl (Error e) \<Rightarrow> Inr ((None, None, Some (Errorf ''ParseOpRawError: %v'' [])), op, ctx, s)
      | Inl fault \<Rightarrow> Inl fault
      | Inr (None, rop) \<Rightarrow> Inr ((None, None, None), op\<lparr>rawOp := rop\<rparr>, ctx, s)
      | Inr (Some opToExec, rop) \<Rightarrow>
          let op = op\<lparr>rawOp := rop\<rparr> in
          if Replyable opToExec then
            rbind (AddFromFile g opToExec op ctx) (\<lambda>ctx.
            rbind (handleCompletedReplies mgr ctx) (\<lambda>(_, ctx).
              Inr ((Some opToExec, None, None), op, ctx, s)))
          else
            rbind (if driverOpsFiltered then Inr False else IsDriverOp opToExec) (\<lambda>driver.
              if driver then Inr ((Some opToExec, None, None), op, ctx, s)
              else if cursorsRewriteable opToExec then rewriteOp g mgr now exec op opToExec ctx s
              else playOp g mgr now exec op opToExec ctx s))"

end
