(* ===== verification/Execution_Correct.thy ===== *)
theory Execution_Correct
  imports Execution
begin

text \<open>
  What the rewriting of cursors promises, for every interleaving of the connections that share
  an execution context: each event below is one critical section of \<open>execute.go\<close> or
  \<open>cursors.go\<close>.
\<close>

subsection \<open>Replies in the context\<close>

lemma getCursorID_again: "getCursorID rep = (Inr c, rep') \<Longrightarrow> c \<noteq> 0 \<Longrightarrow> getCursorID rep' = (Inr c, rep')"
  by (cases rep)
    (auto simp: ReplyOp_getCursorID_def CommandReplyOp_getCursorID_def MsgOpReply_getCursorID_def Let_def
      split: if_splits option.splits list.splits sum.splits err.splits fault.splits)

datatype event =
    EvWire Op RecordedOp
  | EvFile Op RecordedOp
  | EvHandle
  | EvGet int64 int
  | EvFailed RecordedOp
  | EvExpire

text \<open>
  The steps of the context: the two additions of replies, the handling of the completed pairs
  (with whatever result), a lookup, a mark of failure, and the expiry of entries of the cache of incomplete pairs.
\<close>

inductive ctx_step :: "('c, ReplyPair) gocache \<Rightarrow> 'm cursorManager \<Rightarrow> event \<Rightarrow>
    ('c, 'm) ExecutionContext \<Rightarrow> ('c, 'm) ExecutionContext \<Rightarrow> bool"
  for g :: "('c, ReplyPair) gocache" and mgr :: "'m cursorManager" where
  live: "AddFromWire g rep op ctx = Inr ctx' \<Longrightarrow> ctx_step g mgr (EvWire rep op) ctx ctx'"
| recorded: "AddFromFile g rep op ctx = Inr ctx' \<Longrightarrow> ctx_step g mgr (EvFile rep op) ctx ctx'"
| handle: "handleCompletedReplies mgr ctx = Inr (e, ctx') \<Longrightarrow> ctx_step g mgr EvHandle ctx ctx'"
| get: "GetCursor mgr f conn (CursorIDMap ctx) = (r, m) \<Longrightarrow> ctx_step g mgr (EvGet f conn) ctx (ctx\<lparr>CursorIDMap := m\<rparr>)"
| failed: "MarkFailed mgr op (CursorIDMap ctx) = Inr m \<Longrightarrow> ctx_step g mgr (EvFailed op) ctx (ctx\<lparr>CursorIDMap := m\<rparr>)"
| expire: "(\<And>k rp. cacheGet g c k = Some rp \<Longrightarrow> cacheGet g (IncompleteReplies ctx) k = Some rp) \<Longrightarrow>
    ctx_step g mgr EvExpire ctx (ctx\<lparr>IncompleteReplies := c\<rparr>)"

inductive ctx_run :: "('c, ReplyPair) gocache \<Rightarrow> 'm cursorManager \<Rightarrow> ('c, 'm) ExecutionContext \<Rightarrow>
    event list \<Rightarrow> ('c, 'm) ExecutionContext \<Rightarrow> bool"
  for g :: "('c, ReplyPair) gocache" and mgr :: "'m cursorManager" and ctx0 :: "('c, 'm) ExecutionContext" where
  start: "ctx_run g mgr ctx0 [] ctx0"
| step: "ctx_run g mgr ctx0 evs ctx \<Longrightarrow> ctx_step g mgr ev ctx ctx' \<Longrightarrow> ctx_run g mgr ctx0 (evs @ [ev]) ctx'"

text \<open>A context as \<open>NewExecutionContext\<close> makes it.\<close>

definition fresh_context :: "('c, 'v) gocache \<Rightarrow> ('m \<Rightarrow> int64 \<Rightarrow> int64 \<Rightarrow> bool) \<Rightarrow> ('c, 'm) ExecutionContext \<Rightarrow> bool" where
  "fresh_context g provides ctx \<longleftrightarrow>
     (\<forall>k. cacheGet g (IncompleteReplies ctx) k = None) \<and> CompleteReplies ctx = [] \<and> \<not> contextLocked ctx \<and>
     (\<forall>f l. \<not> provides (CursorIDMap ctx) f l)"

definition replied_live :: "event list \<Rightarrow> string \<Rightarrow> int64 \<Rightarrow> bool" where
  "replied_live evs key c \<longleftrightarrow> c \<noteq> 0 \<and>
     (\<exists>rep op. EvWire rep op \<in> set evs \<and> cacheKey op False = key \<and> fst (getCursorID rep) = Inr c)"

definition replied_recorded :: "event list \<Rightarrow> string \<Rightarrow> int64 \<Rightarrow> bool" where
  "replied_recorded evs key c \<longleftrightarrow> c \<noteq> 0 \<and>
     (\<exists>rep op. EvFile rep op \<in> set evs \<and> cacheKey op True = key \<and> fst (getCursorID rep) = Inr c)"

text \<open>A pair under a key holds replies that came with that key.\<close>

definition half_ok :: "(int64 \<Rightarrow> bool) \<Rightarrow> Op option \<Rightarrow> bool" where
  "half_ok P r \<longleftrightarrow> (\<forall>rep. r = Some rep \<longrightarrow> (\<exists>c. getCursorID rep = (Inr c, rep) \<and> P c))"

definition pair_ok :: "event list \<Rightarrow> string \<Rightarrow> ReplyPair \<Rightarrow> bool" where
  "pair_ok evs key rp \<longleftrightarrow>
     half_ok (replied_live evs key) (fromWire rp) \<and> half_ok (replied_recorded evs key) (fromFile rp)"

definition replies_ok :: "('c, ReplyPair) gocache \<Rightarrow> event list \<Rightarrow> ('c, 'm) ExecutionContext \<Rightarrow> bool" where
  "replies_ok g evs ctx \<longleftrightarrow>
     \<not> contextLocked ctx \<and>
     (\<forall>key rp. cacheGet g (IncompleteReplies ctx) key = Some rp \<longrightarrow> pair_ok evs key rp) \<and>
     (\<forall>(key, rp)\<in>set (CompleteReplies ctx). pair_ok evs key rp \<and> fromWire rp \<noteq> None \<and> fromFile rp \<noteq> None)"

definition same_request :: "event list \<Rightarrow> int64 \<Rightarrow> int64 \<Rightarrow> bool" where
  "same_request evs f l \<longleftrightarrow> (\<exists>key. replied_recorded evs key f \<and> replied_live evs key l)"

lemma replied_mono:
  "replied_live evs k c \<Longrightarrow> replied_live (evs @ evs') k c"
  "replied_recorded evs k c \<Longrightarrow> replied_recorded (evs @ evs') k c"
  "same_request evs f l \<Longrightarrow> same_request (evs @ evs') f l"
  unfolding replied_live_def replied_recorded_def same_request_def by auto

lemma pair_ok_mono: "pair_ok evs k rp \<Longrightarrow> pair_ok (evs @ evs') k rp"
  unfolding pair_ok_def half_ok_def using replied_mono(1,2) by meson

lemma replies_ok_mono: "replies_ok g evs ctx \<Longrightarrow> replies_ok g (evs @ evs') ctx"
  unfolding replies_ok_def using pair_ok_mono by fast

lemma replies_ok_parts:
  "replies_ok g evs ctx \<Longrightarrow> replies_ok g evs (ctx\<lparr>CursorIDMap := m\<rparr>)"
  "replies_ok g evs ctx \<Longrightarrow> (\<And>k rp. cacheGet g c k = Some rp \<Longrightarrow> cacheGet g (IncompleteReplies ctx) k = Some rp) \<Longrightarrow>
     replies_ok g evs (ctx\<lparr>IncompleteReplies := c\<rparr>)"
  by (auto simp: replies_ok_def)

lemma set_update: "(a, b) \<in> set (AList.update k v xs) \<Longrightarrow> (a = k \<and> b = v) \<or> (a, b) \<in> set xs"
  by (induction xs) (auto split: if_splits)

lemma completeReply_ok:
  assumes "cache_laws g" "replies_ok g evs ctx" "completeReply g key rep src ctx = Inr ctx'"
    and p: "\<And>rp. pair_ok evs key rp \<Longrightarrow> pair_ok evs key (put_reply src rep rp)"
  shows "replies_ok g evs ctx'"
proof -
  have e: "pair_ok evs key (put_reply src rep emptyPair)"
    by (rule p) (simp add: pair_ok_def half_ok_def emptyPair_def)
  have l: "\<not> contextLocked ctx" using assms(2) by (simp add: replies_ok_def)
  have i: "cacheGet g (IncompleteReplies ctx) k = Some rp \<Longrightarrow> pair_ok evs k rp" for k rp
    using assms(2) by (simp add: replies_ok_def)
  have s: "replies_ok g evs (ctx\<lparr>IncompleteReplies := cacheSet g (IncompleteReplies ctx) key rp\<rparr>)"
    if "pair_ok evs key rp" for rp
    using assms(2) that cache_set_origin [OF assms(1)] unfolding replies_ok_def by fastforce
  show ?thesis
  proof (cases "cacheGet g (IncompleteReplies ctx) key")
    case None
    then show ?thesis using assms(3) l s [OF e] by (simp add: completeReply_def)
  next
    case (Some rp)
    have q: "pair_ok evs key (put_reply src rep rp)" by (rule p [OF i [OF Some]])
    show ?thesis
    proof (cases "other_reply src (put_reply src rep rp) = None")
      case True
      then show ?thesis using assms(3) l Some s [OF q] by (simp add: completeReply_def)
    next
      case False
      then have b: "fromWire (put_reply src rep rp) \<noteq> None \<and> fromFile (put_reply src rep rp) \<noteq> None"
        by (cases src) auto
      have c: "pair_ok evs k rp' \<and> fromWire rp' \<noteq> None \<and> fromFile rp' \<noteq> None"
        if "(k, rp') \<in> set (AList.update key (put_reply src rep rp) (CompleteReplies ctx))" for k rp'
        using set_update [OF that] assms(2) q b unfolding replies_ok_def by fast
      have "ctx' = ctx\<lparr>CompleteReplies := AList.update key (put_reply src rep rp) (CompleteReplies ctx),
          IncompleteReplies := cacheDelete g (IncompleteReplies ctx) key\<rparr>"
        using assms(3) l Some False by (simp add: completeReply_def)
      moreover have "pair_ok evs k rp'" if "cacheGet g (cacheDelete g (IncompleteReplies ctx) key) k = Some rp'" for k rp'
        by (rule i [OF cache_delete_origin [OF assms(1) that]])
      ultimately show ?thesis using c l unfolding replies_ok_def by auto
    qed
  qed
qed

lemma addReply_ok:
  assumes "cache_laws g" "replies_ok g evs ctx" "addReply g src key rep ctx = Inr ctx'"
    and "\<And>c rep'. getCursorID rep = (Inr c, rep') \<Longrightarrow> c \<noteq> 0 \<Longrightarrow>
      (case src of ReplyFromWire \<Rightarrow> replied_live evs key c | ReplyFromFile \<Rightarrow> replied_recorded evs key c)"
  shows "replies_ok g evs ctx'"
proof (cases "getCursorID rep")
  case (Pair r rep')
  show ?thesis
  proof (cases "\<exists>c. r = Inr c \<and> c \<noteq> 0")
    case True
    then obtain c where c: "getCursorID rep = (Inr c, rep')" "c \<noteq> 0" using Pair by auto
    have p: "pair_ok evs key (put_reply src rep' rp)" if "pair_ok evs key rp" for rp
      using that assms(4) [OF c] getCursorID_again [OF c] by (cases src) (auto simp: pair_ok_def half_ok_def)
    show ?thesis using completeReply_ok [OF assms(1,2) _ p] assms(3) c by (simp add: addReply_def)
  next
    case False
    then show ?thesis using assms(2,3) Pair by (auto simp: addReply_def split: sum.splits fault.splits)
  qed
qed


lemma completed_loop_ok:
  assumes "\<forall>(key, rp)\<in>set pairs. pair_ok evs key rp \<and> fromWire rp \<noteq> None \<and> fromFile rp \<noteq> None"
  shows "\<exists>fls. completed_loop mgr pairs m = (Inr (), [], fold (\<lambda>(f, l). SetCursor mgr f l) fls m) \<and>
    (\<forall>(f, l)\<in>set fls. same_request evs f l)"
  using assms
proof (induction pairs arbitrary: m)
  case Nil
  then show ?case by (intro exI [of _ "[]"]) simp
next
  case (Cons p pairs)
  obtain key rp where p: "p = (key, rp)" by force
  obtain w f where r: "fromWire rp = Some w" "fromFile rp = Some f" using Cons.prems p by auto
  obtain cw cf where c: "getCursorID w = (Inr cw, w)" "getCursorID f = (Inr cf, f)"
    "replied_live evs key cw" "replied_recorded evs key cf"
    using Cons.prems p r by (auto simp: pair_ok_def half_ok_def)
  have n: "cf \<noteq> 0" using c(4) by (simp add: replied_recorded_def)
  have s: "same_request evs cf cw" using c(3,4) unfolding same_request_def by blast
  obtain fls where l: "completed_loop mgr pairs (SetCursor mgr cf cw m) =
      (Inr (), [], fold (\<lambda>(f, l). SetCursor mgr f l) fls (SetCursor mgr cf cw m))"
    "\<forall>(f, l)\<in>set fls. same_request evs f l"
    using Cons.IH [of "SetCursor mgr cf cw m"] Cons.prems by auto
  show ?case
    by (rule exI [of _ "(cf, cw) # fls"]) (use l c(1,2) n r s in \<open>simp add: p cursor_of_def\<close>)
qed

lemma handle_ok:
  assumes "replies_ok g evs ctx"
  obtains fls where "handleCompletedReplies mgr ctx = Inr (None, ctx\<lparr>CompleteReplies := [],
      CursorIDMap := fold (\<lambda>(f, l). SetCursor mgr f l) fls (CursorIDMap ctx)\<rparr>)"
    "\<forall>(f, l)\<in>set fls. same_request evs f l"
proof -
  have p: "\<forall>(key, rp)\<in>set (CompleteReplies ctx). pair_ok evs key rp \<and> fromWire rp \<noteq> None \<and> fromFile rp \<noteq> None"
    using assms by (simp add: replies_ok_def)
  obtain fls where f: "completed_loop mgr (CompleteReplies ctx) (CursorIDMap ctx) =
      (Inr (), [], fold (\<lambda>(f, l). SetCursor mgr f l) fls (CursorIDMap ctx))"
    "\<forall>(f, l)\<in>set fls. same_request evs f l"
    using completed_loop_ok [OF p, of mgr "CursorIDMap ctx"] by blast
  show ?thesis
    by (rule that [OF _ f(2)]) (use f(1) assms in \<open>simp add: handleCompletedReplies_def replies_ok_def\<close>)
qed

lemma addReply_cursors: "addReply g src key rep ctx = Inr ctx' \<Longrightarrow> CursorIDMap ctx' = CursorIDMap ctx"
  by (auto simp: addReply_def completeReply_def Let_def split: prod.splits sum.splits fault.splits if_splits option.splits)

lemma addReply_live: "AddFromWire g rep op ctx = Inr ctx' \<Longrightarrow> cache_laws g \<Longrightarrow> replies_ok g evs ctx \<Longrightarrow>
    replies_ok g (evs @ [EvWire rep op]) ctx' \<and> CursorIDMap ctx' = CursorIDMap ctx"
  unfolding AddFromWire_def
  using addReply_ok [OF _ replies_ok_mono, of g evs ctx ReplyFromWire "cacheKey op False" rep ctx' "[EvWire rep op]"]
    addReply_cursors
  by (fastforce simp: replied_live_def)

lemma addReply_recorded: "AddFromFile g rep op ctx = Inr ctx' \<Longrightarrow> cache_laws g \<Longrightarrow> replies_ok g evs ctx \<Longrightarrow>
    replies_ok g (evs @ [EvFile rep op]) ctx' \<and> CursorIDMap ctx' = CursorIDMap ctx"
  unfolding AddFromFile_def
  using addReply_ok [OF _ replies_ok_mono, of g evs ctx ReplyFromFile "cacheKey op True" rep ctx' "[EvFile rep op]"]
    addReply_cursors
  by (fastforce simp: replied_recorded_def)

lemma newCursorID_of_single: "newCursorID_of ls = Inr c \<Longrightarrow> ls \<noteq> [] \<Longrightarrow> ls = [c]"
  by (cases ls) (auto simp: newCursorID_of_def split: if_splits)

text \<open>
  An operation as it is parsed: the cursor of an \<open>OP_MSG\<close> getmore is cached only once it has
  been read from a section.
\<close>

fun cursor_cached :: "Op \<Rightarrow> bool" where
  "cursor_cached (OpMsgGetMore op c) = (c \<noteq> None)"
| "cursor_cached _ = False"

lemma getCursorIDs_keeps_sections:
  "getCursorIDs (OpMsgGetMore op None) = (Inr fs, rop1) \<Longrightarrow> fs \<noteq> [] \<Longrightarrow>
    \<exists>c. rop1 = OpMsgGetMore op (Some c) \<and> fs = [c] \<and> mSections op \<noteq> []"
  by (auto split: if_splits sum.splits)

text \<open>
  The ids that a rewritten operation holds are those that it was given, or the single id 0 when
  the document of an \<open>OP_MSG\<close> getmore cannot be decoded.
\<close>

lemma setCursorIDs_ids:
  assumes "\<not> cursor_cached rop" "getCursorIDs rop = (Inr fs, rop1)" "setCursorIDs ls rop1 = Inr rop'"
    "ls \<noteq> []" "length ls \<le> length fs"
  shows "fst (getCursorIDs rop') \<in> {Inr ls, Inr [0]}"
proof (cases rop)
  case (OpGetMore op)
  then show ?thesis using assms newCursorID_of_single by (auto simp: rbind_eq_Inr)
next
  case (OpKillCursors op)
  then show ?thesis using assms by auto
next
  case (OpCommandGetMore op c)
  then obtain op' c' where r: "rop1 = OpCommandGetMore op' c'"
    using assms(2) by (auto split: option.splits sum.splits)
  show ?thesis using assms(3,4) newCursorID_of_single unfolding r
    by (auto simp: rbind_eq_Inr setCursorID_def)
next
  case (OpMsgGetMore op c)
  have f: "fs \<noteq> []" using assms(4,5) by auto
  have c: "c = None" using assms(1) OpMsgGetMore by simp
  obtain c' where r: "rop1 = OpMsgGetMore op (Some c')" "fs = [c']" "mSections op \<noteq> []"
    using getCursorIDs_keeps_sections [OF assms(2) [unfolded OpMsgGetMore c] f] by blast
  obtain l where l: "ls = [l]" using assms(4,5) r(2) by (cases ls) auto
  obtain doc newDoc k where d: "(case setCursorID doc ls of Inl (Error _) \<Rightarrow> Inr (GD [], 0) | r \<Rightarrow> r) = Inr (newDoc, k)"
    "fst (getCursorIDs rop') = Inr [k]"
    using assms(3) r by (auto simp: rbind_eq_Inr)
  have "k = l \<or> k = 0"
    using d(1) newCursorID_of_single l by (auto simp: setCursorID_def newCursorID_of_def rbind_eq_Inr split: sum.splits fault.splits)
  then show ?thesis using d(2) l by auto
qed (use assms in auto)

lemma liveCursors_length: "liveCursors mgr conn ids m = (Inr ls, m') \<Longrightarrow> length ls \<le> length ids"
  by (induction ids arbitrary: m ls)
    (fastforce split: lookup.splits prod.splits simp: rbind_eq_Inr dest: le_SucI)+

subsection \<open>Where a live cursor comes from\<close>

context cursor_manager begin

lemma sets_provide:
  "mgr \<in> mgrs \<Longrightarrow> provides (fold (\<lambda>(f, l). SetCursor mgr f l) fls m) f l \<Longrightarrow> (f, l) \<in> set fls \<or> provides m f l"
  by (induction fls arbitrary: m) (auto dest: set_provides)

lemma step_keeps:
  assumes laws: "cache_laws g" and mgr: "mgr \<in> mgrs"
    and ok: "replies_ok g evs ctx" and origin: "\<And>f l. provides (CursorIDMap ctx) f l \<Longrightarrow> same_request evs f l"
    and s: "ctx_step g mgr ev ctx ctx'"
  shows "replies_ok g (evs @ [ev]) ctx' \<and> (\<forall>f l. provides (CursorIDMap ctx') f l \<longrightarrow> same_request (evs @ [ev]) f l)"
  using s
proof cases
  case (live rep op)
  then show ?thesis using addReply_live [OF _ laws ok] origin replied_mono(3) by metis
next
  case (recorded rep op)
  then show ?thesis using addReply_recorded [OF _ laws ok] origin replied_mono(3) by metis
next
  case (handle e)
  obtain fls where f: "handleCompletedReplies mgr ctx = Inr (None, ctx\<lparr>CompleteReplies := [],
      CursorIDMap := fold (\<lambda>(f, l). SetCursor mgr f l) fls (CursorIDMap ctx)\<rparr>)"
    "\<forall>(f, l)\<in>set fls. same_request evs f l"
    using handle_ok [OF ok] by blast
  have "replies_ok g evs ctx'" using ok f(1) handle(2) by (simp add: replies_ok_def)
  moreover have "same_request evs f l" if "provides (CursorIDMap ctx') f l" for f l
  proof -
    have "CursorIDMap ctx' = fold (\<lambda>(f, l). SetCursor mgr f l) fls (CursorIDMap ctx)"
      using f(1) handle(2) by simp
    then have "(f, l) \<in> set fls \<or> provides (CursorIDMap ctx) f l" using sets_provide [OF mgr] that by simp
    then show ?thesis using f(2) origin by blast
  qed
  ultimately show ?thesis by (simp add: replies_ok_mono replied_mono(3))
next
  case (get f conn r m)
  then show ?thesis using replies_ok_mono [OF replies_ok_parts(1) [OF ok]] get_keeps [OF mgr get(3)] origin
    by (simp add: replied_mono(3))
next
  case (failed op m)
  then show ?thesis using replies_ok_mono [OF replies_ok_parts(1) [OF ok]] fail_keeps [OF mgr failed(3)] origin
    by (simp add: replied_mono(3))
next
  case (expire c)
  then show ?thesis using replies_ok_mono [OF replies_ok_parts(2) [OF ok]] origin by (simp add: replied_mono(3))
qed

lemma run_keeps:
  assumes "cache_laws g" "mgr \<in> mgrs" "fresh_context g provides ctx0"
  shows "ctx_run g mgr ctx0 evs ctx \<Longrightarrow>
    replies_ok g evs ctx \<and> (\<forall>f l. provides (CursorIDMap ctx) f l \<longrightarrow> same_request evs f l)"
proof (induction rule: ctx_run.induct)
  case start
  then show ?case using assms(3) by (simp add: fresh_context_def replies_ok_def)
next
  case (step evs ctx ev ctx')
  then show ?case using step_keeps [OF assms(1,2), of evs ctx ev ctx'] by blast
qed

lemma live_cursor_origin:
  assumes "cache_laws g" "mgr \<in> mgrs" "fresh_context g provides ctx0" "ctx_run g mgr ctx0 evs ctx"
    and "GetCursor mgr f conn (CursorIDMap ctx) = (Found l, m)"
  shows "same_request evs f l"
  using run_keeps [OF assms(1-4)] get_provides [OF assms(2,5)] by blast

lemma context_unlocked:
  assumes "cache_laws g" "mgr \<in> mgrs" "fresh_context g provides ctx0" "ctx_run g mgr ctx0 evs ctx"
  obtains m where "handleCompletedReplies mgr ctx = Inr (None, ctx\<lparr>CompleteReplies := [], CursorIDMap := m\<rparr>)"
    "\<not> contextLocked ctx"
proof -
  have "replies_ok g evs ctx" using run_keeps [OF assms] by blast
  then show ?thesis using handle_ok [of g evs ctx mgr thesis] that by (auto simp: replies_ok_def)
qed

lemma liveCursors_origin:
  assumes "mgr \<in> mgrs" "liveCursors mgr conn ids m = (Inr ls, m')"
  shows "\<forall>l\<in>set ls. \<exists>f\<in>set ids. provides m f l"
  using assms(2)
proof (induction ids arbitrary: m ls)
  case Nil
  then show ?case by simp
next
  case (Cons f ids)
  obtain r m1 where g: "GetCursor mgr f conn m = (r, m1)" by force
  have k: "provides m1 f' l \<Longrightarrow> provides m f' l" for f' l by (rule get_keeps [OF assms(1) g])
  obtain ls' where ls': "liveCursors mgr conn ids m1 = (Inr ls', m')"
    "ls = ls' \<or> (\<exists>l. r = Found l \<and> ls = l # ls')"
    using Cons.prems g by (auto split: lookup.splits prod.splits simp: rbind_eq_Inr)
  have "\<exists>f'\<in>set (f # ids). provides m f' l" if l: "l \<in> set ls" for l
  proof (cases "l \<in> set ls'")
    case True
    then show ?thesis using Cons.IH [OF ls'(1)] k by auto
  next
    case False
    then have "r = Found l" using ls'(2) l by auto
    then show ?thesis using get_provides [OF assms(1)] g by auto
  qed
  then show ?case by blast
qed

lemma rewriteCursors_origin:
  assumes "cache_laws g" "mgr \<in> mgrs" "fresh_context g provides ctx0" "ctx_run g mgr ctx0 evs ctx"
    and "rewriteCursors mgr rop conn (CursorIDMap ctx) = (Inr (True, rop'), m)" "\<not> cursor_cached rop"
  shows "\<exists>fs ls. fst (getCursorIDs rop) = Inr fs \<and> fst (getCursorIDs rop') = Inr ls \<and>
    (\<forall>l\<in>set ls. l = 0 \<or> (\<exists>f\<in>set fs. same_request evs f l))"
proof -
  obtain fs ls rop1 where g: "getCursorIDs rop = (Inr fs, rop1)"
    "liveCursors mgr conn fs (CursorIDMap ctx) = (Inr ls, m)" "setCursorIDs ls rop1 = Inr rop'" "ls \<noteq> []"
    using assms(5) by (auto simp: rewriteCursors_def rbind_eq_Inr split: prod.splits sum.splits fault.splits)
  have "fst (getCursorIDs rop') \<in> {Inr ls, Inr [0]}"
    by (rule setCursorIDs_ids [OF assms(6) g(1,3,4) liveCursors_length [OF g(2)]])
  moreover have "\<forall>l\<in>set ls. \<exists>f\<in>set fs. same_request evs f l"
    using liveCursors_origin [OF assms(2) g(2)] run_keeps [OF assms(1-4)] by blast
  ultimately show ?thesis using g(1) by auto
qed

end

subsection \<open>Every execution is a run of these steps\<close>

lemma ctx_run_append: "ctx_run g mgr ctx1 evs' ctx2 \<Longrightarrow> ctx_run g mgr ctx0 evs ctx1 \<Longrightarrow> ctx_run g mgr ctx0 (evs @ evs') ctx2"
  by (induction rule: ctx_run.induct) (auto intro: ctx_run.step simp flip: append_assoc)

lemma ctx_run_one: "ctx_step g mgr ev ctx ctx' \<Longrightarrow> ctx_run g mgr ctx [ev] ctx'"
  using ctx_run.step [OF ctx_run.start] by fastforce

lemma liveCursors_run:
  "liveCursors mgr conn ids (CursorIDMap ctx) = (r, m) \<Longrightarrow>
    ctx_run g mgr ctx (map (\<lambda>f. EvGet f conn) ids) (ctx\<lparr>CursorIDMap := m\<rparr>) \<or> r = Inl Hang"
proof (induction ids arbitrary: ctx r)
  case Nil
  then show ?case by (auto intro: ctx_run.start)
next
  case (Cons f ids)
  obtain a m1 where g: "GetCursor mgr f conn (CursorIDMap ctx) = (a, m1)" by force
  let ?c = "ctx\<lparr>CursorIDMap := m1\<rparr>"
  have s: "ctx_run g mgr ctx [EvGet f conn] ?c" by (rule ctx_run_one) (rule ctx_step.get [OF g])
  show ?case
  proof (cases "a = Blocked")
    case True
    then show ?thesis using Cons.prems g by simp
  next
    case False
    then obtain r' where r': "liveCursors mgr conn ids (CursorIDMap ?c) = (r', m)" "r' = Inl Hang \<Longrightarrow> r = Inl Hang"
      using Cons.prems g by (auto split: lookup.splits prod.splits)
    show ?thesis using Cons.IH [OF r'(1)] r'(2) ctx_run_append [OF _ s] by fastforce
  qed
qed

lemma reach_step: "ctx_run g mgr ctx evs ctx1 \<Longrightarrow> ctx_step g mgr ev ctx1 ctx2 \<Longrightarrow> \<exists>evs. ctx_run g mgr ctx evs ctx2"
  by (rule exI) (rule ctx_run.step)

lemma playOp_run:
  assumes "playOp g mgr now exec op opToExec ctx s = Inr (res, op', ctx', s')"
  shows "\<exists>evs. ctx_run g mgr ctx evs ctx'"
proof -
  obtain r s1 where e: "exec s (Preprocess opToExec) = Inr (r, s1)"
    using assms by (auto simp: playOp_def Let_def rbind_eq_Inr)
  show ?thesis
  proof (cases r)
    case (Inl x)
    then obtain m where "MarkFailed mgr (op\<lparr>PlayedAt := Some now\<rparr>) (CursorIDMap ctx) = Inr m" "ctx' = ctx\<lparr>CursorIDMap := m\<rparr>"
      using assms e by (auto simp: playOp_def Let_def rbind_eq_Inr)
    then show ?thesis using reach_step [OF ctx_run.start ctx_step.failed] by metis
  next
    case (Inr rep)
    then obtain ctx1 x where c: "(case rep of None \<Rightarrow> Inr ctx | Some r \<Rightarrow> AddFromWire g r (op\<lparr>PlayedAt := Some now\<rparr>) ctx) = Inr ctx1"
      "handleCompletedReplies mgr ctx1 = Inr (x, ctx')"
      using assms e by (auto simp: playOp_def Let_def rbind_eq_Inr)
    obtain evs where "ctx_run g mgr ctx evs ctx1"
      using c(1) ctx_run.start [of g mgr ctx] ctx_run_one [OF ctx_step.live, of g _ _ ctx ctx1 mgr] by (cases rep) auto
    then show ?thesis by (rule reach_step) (rule ctx_step.handle [OF c(2)])
  qed
qed

lemma Op_FromReader_uncached:
  "newOp h = Some y \<Longrightarrow> Op_FromReader y b = Inr (parsed, b') \<Longrightarrow> \<not> cursor_cached parsed"
  by (cases y) (auto simp: newOp_def rdbind_def rdret_def rbind_eq_Inr split: if_splits)

lemma maybeChange_uncached:
  "maybeChangeOpToGetMore y = Inr parsed \<Longrightarrow> \<not> cursor_cached y \<Longrightarrow> \<not> cursor_cached parsed"
  by (auto simp: maybeChangeOpToGetMore_def rbind_eq_Inr split: Op.splits if_splits)

lemma Parse_uncached:
  assumes "Parse decompress r = Inr (Some parsed, r')"
  shows "\<not> cursor_cached parsed"
proof -
  define f :: "RawOp \<Rightarrow> Op \<Rightarrow> (Op option \<times> RawOp) res" where "f rop q = (case q of
      OpMsg m \<Rightarrow>
        if ResponseTo (mHeader m) \<noteq> 0
        then Inr (Some (OpMsgReply \<lparr>mrOp = m\<lparr>mCommandName := ''reply''\<rparr>, mrLatency = 0,
               mrcursorID = None, mrDocs = []\<rparr>), rop)
        else Inr (Some q, rop)
    | _ \<Rightarrow> Inr (Some q, rop))" for rop q
  obtain rop where rop: "(case newOp (Header rop) of None \<Rightarrow> Inr (None, rop)
    | Some parsedOp \<Rightarrow>
        if length (Body rop) < 16 then Inl (Panic ''runtime error: slice bounds out of range'')
        else
          rbind (Op_FromReader parsedOp (drop 16 (Body rop))) (\<lambda>(parsedOp, _).
          rbind (maybeChangeOpToGetMore parsedOp) (f rop))) = Inr (Some parsed, r')"
    using assms unfolding f_def by (simp only: Parse_def rbind_eq_Inr) blast
  then obtain y p b' q where q: "newOp (Header rop) = Some y" "Op_FromReader y (drop 16 (Body rop)) = Inr (p, b')"
    "maybeChangeOpToGetMore p = Inr q" "f rop q = Inr (Some parsed, r')"
    by (cases "newOp (Header rop)") (auto simp: rbind_eq_Inr split: if_splits)
  have "\<not> cursor_cached q"
    using Op_FromReader_uncached [OF q(1,2)] maybeChange_uncached [OF q(3)] by blast
  then show ?thesis using q(4) by (cases q) (auto simp: f_def split: if_splits)
qed

lemma Preprocess_cursors [simp]:
  "cursorsRewriteable (Preprocess op) = cursorsRewriteable op"
  by (cases op) auto


lemma getCursorIDs_Preprocess:
  "fst (getCursorIDs rop) = Inr ids \<Longrightarrow> setCursorIDs ls rop1 = Inr rop \<Longrightarrow> fst (getCursorIDs (Preprocess rop)) = Inr ids"
  by (cases rop1) (auto simp: rbind_eq_Inr split: if_splits)


text \<open>A connection that notes the operations that it is given, and answers them in any way.\<close>

definition noting :: "(Op list \<Rightarrow> Op \<Rightarrow> err + Op option) \<Rightarrow> Op list \<Rightarrow> Op \<Rightarrow> ((err + Op option) \<times> Op list) res" where
  "noting answer sent op = Inr (answer sent op, sent @ [op])"

lemma playOp_sends:
  "playOp g mgr now (noting answer) op opToExec ctx sent = Inr (res, op', ctx', sent') \<Longrightarrow> sent' = sent @ [Preprocess opToExec]"
  by (auto simp: playOp_def noting_def Let_def rbind_eq_Inr split: sum.splits)

lemma Execute_cases:
  assumes "Execute decompress g mgr driverOpsFiltered now exec op ctx s = Inr (res, op', ctx', s')"
  obtains (skip) "s' = s" "ctx' = ctx"
  | (recorded) parsed rop ctx1 x where "s' = s" "Parse decompress (rawOp op) = Inr (Some parsed, rop)" "Replyable parsed"
      "AddFromFile g parsed (op\<lparr>rawOp := rop\<rparr>) ctx = Inr ctx1" "handleCompletedReplies mgr ctx1 = Inr (x, ctx')"
  | (rewritten) parsed rop where "Parse decompress (rawOp op) = Inr (Some parsed, rop)" "cursorsRewriteable parsed"
      "rewriteOp g mgr now exec (op\<lparr>rawOp := rop\<rparr>) parsed ctx s = Inr (res, op', ctx', s')"
  | (plain) parsed rop where "Parse decompress (rawOp op) = Inr (Some parsed, rop)" "\<not> cursorsRewriteable parsed"
      "playOp g mgr now exec (op\<lparr>rawOp := rop\<rparr>) parsed ctx s = Inr (res, op', ctx', s')"
proof (cases "\<exists>parsed rop. Parse decompress (rawOp op) = Inr (Some parsed, rop)")
  case False
  then show ?thesis using assms skip
    by (auto simp: Execute_def split: sum.splits option.splits prod.splits fault.splits)
next
  case True
  then obtain parsed rop where p: "Parse decompress (rawOp op) = Inr (Some parsed, rop)" by blast
  show ?thesis
  proof (cases "Replyable parsed")
    case True
    then obtain ctx1 x where "AddFromFile g parsed (op\<lparr>rawOp := rop\<rparr>) ctx = Inr ctx1"
      "handleCompletedReplies mgr ctx1 = Inr (x, ctx')" "s' = s"
      using assms by (simp add: Execute_def p Let_def) (auto simp: rbind_eq_Inr)
    then show ?thesis using recorded p True by blast
  next
    case False
    then show ?thesis using skip rewritten [OF p] plain [OF p] assms
      by (simp add: Execute_def p Let_def) (auto simp: rbind_eq_Inr split: if_splits)
  qed
qed

lemma rewriteOp_cases:
  assumes "rewriteOp g mgr now exec op parsed ctx s = Inr (res, op', ctx', s')"
  obtains (stop) r m where "rewriteCursors mgr parsed (SeenConnectionNum op) (CursorIDMap ctx) = (r, m)" "r \<noteq> Inl Hang"
    "s' = s" "ctx' = ctx\<lparr>CursorIDMap := m\<rparr>"
  | (play) opToExec m where
      "rewriteCursors mgr parsed (SeenConnectionNum op) (CursorIDMap ctx) = (Inr (True, opToExec), m)"
      "playOp g mgr now exec op opToExec (ctx\<lparr>CursorIDMap := m\<rparr>) s = Inr (res, op', ctx', s')"
  using assms
  by (auto simp: rewriteOp_def Let_def split: prod.splits sum.splits fault.splits if_splits)

lemma rewriteCursors_run:
  assumes "rewriteCursors mgr rop conn (CursorIDMap ctx) = (r, m)" "r \<noteq> Inl Hang"
  shows "\<exists>evs. ctx_run g mgr ctx evs (ctx\<lparr>CursorIDMap := m\<rparr>)"
proof -
  have s: "\<exists>evs. ctx_run g mgr ctx evs (ctx\<lparr>CursorIDMap := CursorIDMap ctx\<rparr>)"
    using ctx_run.start [of g mgr ctx] by auto
  have "m = CursorIDMap ctx \<or> (\<exists>fs q. liveCursors mgr conn fs (CursorIDMap ctx) = (q, m) \<and> q \<noteq> Inl Hang)"
    using assms by (auto simp: rewriteCursors_def split: prod.splits sum.splits fault.splits)
  then show ?thesis
  proof
    assume "m = CursorIDMap ctx"
    then show ?thesis using s by simp
  next
    assume "\<exists>fs q. liveCursors mgr conn fs (CursorIDMap ctx) = (q, m) \<and> q \<noteq> Inl Hang"
    then obtain fs q where "liveCursors mgr conn fs (CursorIDMap ctx) = (q, m)" "q \<noteq> Inl Hang" by blast
    then show ?thesis using liveCursors_run [of mgr conn fs ctx q m g] by fast
  qed
qed

lemma Execute_run:
  assumes "Execute decompress g mgr driverOpsFiltered now exec op ctx s = Inr (res, op', ctx', s')"
  shows "\<exists>evs. ctx_run g mgr ctx evs ctx'"
  using assms
proof (cases rule: Execute_cases)
  case skip
  then show ?thesis using ctx_run.start by blast
next
  case (recorded parsed rop ctx1 x)
  then show ?thesis using reach_step [OF ctx_run_one [OF ctx_step.recorded] ctx_step.handle] by blast
next
  case (rewritten parsed rop)
  from rewritten(3) show ?thesis
  proof (cases rule: rewriteOp_cases)
    case (stop r m)
    then show ?thesis using rewriteCursors_run [OF stop(1,2), of g] by simp
  next
    case (play opToExec m)
    then show ?thesis using rewriteCursors_run [OF play(1), of g] playOp_run [OF play(2)] ctx_run_append by blast
  qed
next
  case (plain parsed rop)
  then show ?thesis using playOp_run [OF plain(3)] by simp
qed

context cursor_manager begin

text \<open>What one execution sends, after any run of the context.\<close>

lemma Execute_origin:
  assumes "cache_laws g" "mgr \<in> mgrs" "fresh_context g provides ctx0" "ctx_run g mgr ctx0 evs ctx"
    and e: "Execute decompress g mgr filtered now (noting answer) op ctx sent = Inr (res, op', ctx', sent @ [o'])"
    and "cursorsRewriteable o'"
  shows "\<exists>parsed rop fs ls. Parse decompress (rawOp op) = Inr (Some parsed, rop) \<and>
    fst (getCursorIDs parsed) = Inr fs \<and> fst (getCursorIDs o') = Inr ls \<and>
    (\<forall>l\<in>set ls. l = 0 \<or> (\<exists>f\<in>set fs. same_request evs f l))"
  using e
proof (cases rule: Execute_cases)
  case (rewritten parsed rop)
  from rewritten(3) show ?thesis
  proof (cases rule: rewriteOp_cases)
    case (play opToExec m)
    have o: "o' = Preprocess opToExec" using playOp_sends [OF play(2)] by simp
    have w: "rewriteCursors mgr parsed (SeenConnectionNum op) (CursorIDMap ctx) = (Inr (True, opToExec), m)"
      using play(1) by simp
    obtain ls rop1 where s: "setCursorIDs ls rop1 = Inr opToExec"
      using w by (auto simp: rewriteCursors_def rbind_eq_Inr split: prod.splits sum.splits fault.splits)
    show ?thesis
      using rewriteCursors_origin [OF assms(1-4) w Parse_uncached [OF rewritten(1)]] rewritten(1)
        getCursorIDs_Preprocess [OF _ s] unfolding o by blast
  qed simp
next
  case (plain parsed rop)
  then show ?thesis using assms(6) playOp_sends by fastforce
qed simp_all

end


lemma cached_cursors_are_live:
  assumes "cache_laws g" "cache_laws g'" "fresh_context g (cache_provides g') ctx0" "ctx_run g (cacheManager g') ctx0 evs ctx"
    and "Execute decompress g (cacheManager g') filtered now (noting answer) op ctx sent =
      Inr (res, op', ctx', sent @ [o'])"
    and "cursorsRewriteable o'"
  shows "\<exists>parsed rop fs ls. Parse decompress (rawOp op) = Inr (Some parsed, rop) \<and>
    fst (getCursorIDs parsed) = Inr fs \<and> fst (getCursorIDs o') = Inr ls \<and>
    (\<forall>l\<in>set ls. l = 0 \<or> (\<exists>f\<in>set fs. same_request evs f l))"
  by (rule cursor_manager.Execute_origin [OF cache_contract [OF assms(2)] assms(1) singletonI assms(3-6)])

text \<open>A recorded and a live reply with the cursors 5 and 9, and a getmore of the recorded cursor.\<close>

definition alist_cache :: "((string \<times> 'v) list, 'v) gocache" where
  "alist_cache = \<lparr>cacheGet = map_of, cacheSet = (\<lambda>c k v. (k, v) # c), cacheDelete = (\<lambda>c k. filter (\<lambda>(k', _). k' \<noteq> k) c)\<rparr>"

lemma map_of_filter_key: "map_of (filter (\<lambda>(k', _). k' \<noteq> k) c) k' = (if k' = k then None else map_of c k')"
  by (induction c) auto

lemma alist_cache_laws: "cache_laws alist_cache"
  by (auto simp: cache_laws_def alist_cache_def map_of_filter_key split: if_splits)

definition wit_op :: "string \<Rightarrow> string \<Rightarrow> int32 \<Rightarrow> int32 \<Rightarrow> OpCode \<Rightarrow> bytes \<Rightarrow> RecordedOp" where
  "wit_op src dst req resp code b =
     zeroRecordedOp\<lparr>SrcEndpoint := src, DstEndpoint := dst, SeenConnectionNum := 2,
       rawOp := \<lparr>Header = \<lparr>MessageLength = 36, RequestID = req, ResponseTo = resp, hOpCode = code\<rparr>,
         Body = replicate 16 0 @ b\<rparr>\<rparr>"

definition wit_reply :: "int64 \<Rightarrow> Op" where
  "wit_reply c = OpReply \<lparr>rHeader = zeroHeader, rFlags = 0, rCursorId = c, rFirstDoc = 0,
     rReplyDocs = 0, rDocs = [], rLatency = 0, rcursorCached = False\<rparr>"

definition wit_events :: "event list" where
  "wit_events = [EvFile (wit_reply 5) (wit_op ''s'' ''c'' 0 7 OpCodeReply []),
     EvWire (wit_reply 9) (wit_op ''c'' ''s'' 7 0 OpCodeQuery []), EvHandle]"

definition wit_info :: cursorInfo where
  "wit_info = \<lparr>liveCursorID = 0, successClosed = False, failClosed = False, numUsesLeft = 1, replyConn = 1\<rparr>"

definition wit_ctx :: "(string \<times> ReplyPair) list \<Rightarrow> (string \<times> ReplyPair) list \<Rightarrow> cursorInfo \<Rightarrow>
    ((string \<times> ReplyPair) list, preprocessCursorManager) ExecutionContext" where
  "wit_ctx inc cmp info = \<lparr>IncompleteReplies = inc, CompleteReplies = cmp,
     CursorIDMap = \<lparr>cursorInfos = [(5, info)], opToCursors = []\<rparr>, contextLocked = False\<rparr>"

definition wit_live :: cursorInfo where
  "wit_live = wit_info\<lparr>liveCursorID := 9, successClosed := True\<rparr>"

lemma wit_key: "cacheKey (wit_op ''s'' ''c'' 0 7 OpCodeReply []) True = cacheKey (wit_op ''c'' ''s'' 7 0 OpCodeQuery []) False"
  by (simp add: cacheKey_def wit_op_def zeroRecordedOp_def)

lemma wit_run: "ctx_run alist_cache (preprocessManager (\<lambda>_. True)) (wit_ctx [] [] wit_info) wit_events (wit_ctx [] [] wit_live)"
proof -
  let ?k = "cacheKey (wit_op ''c'' ''s'' 7 0 OpCodeQuery []) False" and ?mgr = "preprocessManager (\<lambda>_. True)"
  let ?half = "\<lparr>fromWire = None, fromFile = Some (wit_reply 5)\<rparr>"
  let ?pair = "\<lparr>fromWire = Some (wit_reply 9), fromFile = Some (wit_reply 5)\<rparr>"
  have 1: "AddFromFile alist_cache (wit_reply 5) (wit_op ''s'' ''c'' 0 7 OpCodeReply []) (wit_ctx [] [] wit_info) =
      Inr (wit_ctx [(?k, ?half)] [] wit_info)"
    by (simp add: AddFromFile_def addReply_def wit_reply_def ReplyOp_getCursorID_def completeReply_def
        wit_ctx_def alist_cache_def wit_key emptyPair_def)
  have 2: "AddFromWire alist_cache (wit_reply 9) (wit_op ''c'' ''s'' 7 0 OpCodeQuery []) (wit_ctx [(?k, ?half)] [] wit_info) =
      Inr (wit_ctx [] [(?k, ?pair)] wit_info)"
    by (simp add: AddFromWire_def addReply_def wit_reply_def ReplyOp_getCursorID_def completeReply_def
        wit_ctx_def alist_cache_def)
  have 3: "handleCompletedReplies ?mgr (wit_ctx [] [(?k, ?pair)] wit_info) = Inr (None, wit_ctx [] [] wit_live)"
    by (simp add: handleCompletedReplies_def wit_ctx_def cursor_of_def wit_reply_def ReplyOp_getCursorID_def
        preprocessManager_def pre_SetCursor_def wit_info_def wit_live_def)
  show ?thesis
    using ctx_run.step [OF ctx_run.step [OF ctx_run_one [OF ctx_step.recorded [OF 1]] ctx_step.live [OF 2]] ctx_step.handle [OF 3]]
    by (simp add: wit_events_def)
qed

definition wit_getmore :: RecordedOp where
  "wit_getmore = wit_op ''c'' ''s'' 8 0 OpCodeGetMore ([0, 0, 0, 0, 97, 0, 0, 0, 0, 0] @ [5, 0, 0, 0, 0, 0, 0, 0])"

lemma wit_sends: "\<exists>res op' ctx'. Execute Inr alist_cache (preprocessManager (\<lambda>_. True)) False 3
    (noting (\<lambda>_ _. Inr None)) wit_getmore (wit_ctx [] [] wit_live) [] =
  Inr (res, op', ctx', [] @ [OpGetMore \<lparr>gHeader = Header (rawOp wit_getmore), gCollection = ''a'', gLimit = 0, gCursorId = 9\<rparr>])"
proof -
  have p: "Parse Inr (rawOp wit_getmore) = Inr (Some (OpGetMore \<lparr>gHeader = Header (rawOp wit_getmore), gCollection = ''a'',
      gLimit = 0, gCursorId = 5\<rparr>), rawOp wit_getmore)"
    by code_simp
  have w: "rewriteCursors (preprocessManager (\<lambda>_. True)) (OpGetMore \<lparr>gHeader = Header (rawOp wit_getmore),
        gCollection = ''a'', gLimit = 0, gCursorId = 5\<rparr>) (SeenConnectionNum wit_getmore) (CursorIDMap (wit_ctx [] [] wit_live)) =
      (Inr (True, OpGetMore \<lparr>gHeader = Header (rawOp wit_getmore), gCollection = ''a'', gLimit = 0, gCursorId = 9\<rparr>),
       \<lparr>cursorInfos = [], opToCursors = []\<rparr>)"
    by (simp add: rewriteCursors_def preprocessManager_def pre_GetCursor_def wit_ctx_def wit_live_def wit_info_def
        newCursorID_of_def)
  show ?thesis
    by (simp add: Execute_def p rewriteOp_def w IsDriverOp_def)
      (simp add: playOp_def noting_def handleCompletedReplies_def wit_ctx_def Let_def)
qed


end
