(* ===== verification/Playfile.thy ===== *)
theory Playfile
  imports Bson_Correct Recorded
begin

text \<open>
  Playback files: how recorded operations are written and read (\<open>bsonToWriter\<close> and
  \<open>bsonFromReader\<close> of \<open>util.go\<close>, \<open>playbackfile.go\<close>), and the pool of goroutines that
  decodes them in parallel (\<open>parallel_file_read_manager.go\<close>).
\<close>

subsection \<open>Documents of a playback file\<close>

text \<open>
  The fields of the structs with their names in BSON: \<open>RawOp\<close> is embedded, but not inlined, so
  that it is a document of its own.
\<close>

definition headerFields :: "(string \<times> bool \<times> gotype) list" where
  "headerFields = [(''messagelength'', False, TInt32), (''requestid'', False, TInt32),
     (''responseto'', False, TInt32), (''opcode'', False, TInt32)]"

definition rawOpFields :: "(string \<times> bool \<times> gotype) list" where
  "rawOpFields = [(''header'', False, TStruct headerFields), (''body'', False, TBytes)]"

definition recordedOpType :: gotype where
  "recordedOpType = TStruct
     [(''rawop'', False, TStruct rawOpFields), (''seen'', False, TPrecise), (''playat'', True, TPrecise),
      (''eof'', True, TBool), (''srcendpoint'', False, TString), (''dstendpoint'', False, TString),
      (''seenconnectionnum'', False, TInt64), (''playedconnectionnum'', False, TInt64),
      (''playedat'', True, TPrecise), (''generation'', False, TInt), (''order'', False, TInt64)]"

definition time_ptr :: "gotime option \<Rightarrow> goval" where
  "time_ptr t = (case t of None \<Rightarrow> GNil | Some t \<Rightarrow> GPrecise t)"

definition header_value :: "MsgHeader \<Rightarrow> goval" where
  "header_value h = GStruct [(''messagelength'', False, GInt32 (MessageLength h)), (''requestid'', False, GInt32 (RequestID h)),
     (''responseto'', False, GInt32 (ResponseTo h)), (''opcode'', False, GInt32 (hOpCode h))]"

definition recordedOp_value :: "RecordedOp \<Rightarrow> goval" where
  "recordedOp_value op = GStruct
     [(''rawop'', False, GStruct [(''header'', False, header_value (Header (rawOp op))), (''body'', False, GBytes (Body (rawOp op)))]),
      (''seen'', False, GPrecise (OpSeen op)), (''playat'', True, time_ptr (PlayAt op)),
      (''eof'', True, GBool (isEOF op)), (''srcendpoint'', False, GString (SrcEndpoint op)),
      (''dstendpoint'', False, GString (DstEndpoint op)),
      (''seenconnectionnum'', False, GInt64 (word_of_int (SeenConnectionNum op))),
      (''playedconnectionnum'', False, GInt64 (word_of_int (PlayedConnectionNum op))),
      (''playedat'', True, time_ptr (PlayedAt op)), (''generation'', False, GInt (word_of_int (Generation op))),
      (''order'', False, GInt64 (word_of_int (Order op)))]"

text \<open>Reading the fields back; a document without a time leaves the pointer \<open>Seen\<close> nil.\<close>

fun as_time :: "goval \<Rightarrow> gotime option" where
  "as_time (GPrecise t) = Some t"
| "as_time _ = None"

fun as_int32 :: "goval \<Rightarrow> int32" where
  "as_int32 (GInt32 w) = w"
| "as_int32 _ = 0"

fun as_int :: "goval \<Rightarrow> int" where
  "as_int (GInt w) = sint w"
| "as_int (GInt64 w) = sint w"
| "as_int _ = 0"

fun as_string :: "goval \<Rightarrow> string" where
  "as_string (GString s) = s"
| "as_string _ = []"

fun as_bytes :: "goval \<Rightarrow> bytes" where
  "as_bytes (GBytes b) = b"
| "as_bytes _ = []"

fun as_bool :: "goval \<Rightarrow> bool" where
  "as_bool (GBool b) = b"
| "as_bool _ = False"

fun field :: "string \<Rightarrow> goval \<Rightarrow> goval" where
  "field k (GStruct fs) = field_value k fs"
| "field k _ = GNil"

definition value_header :: "goval \<Rightarrow> MsgHeader" where
  "value_header v = \<lparr>MessageLength = as_int32 (field ''messagelength'' v), RequestID = as_int32 (field ''requestid'' v),
     ResponseTo = as_int32 (field ''responseto'' v), hOpCode = as_int32 (field ''opcode'' v)\<rparr>"

definition value_recordedOp :: "goval \<Rightarrow> gotime option \<times> RecordedOp" where
  "value_recordedOp v =
     (let seen = as_time (field ''seen'' v) in
      (seen,
       \<lparr>rawOp = \<lparr>Header = value_header (field ''header'' (field ''rawop'' v)),
           Body = as_bytes (field ''body'' (field ''rawop'' v))\<rparr>,
         OpSeen = (case seen of None \<Rightarrow> 0 | Some t \<Rightarrow> t), PlayAt = as_time (field ''playat'' v),
         isEOF = as_bool (field ''eof'' v), SrcEndpoint = as_string (field ''srcendpoint'' v),
         DstEndpoint = as_string (field ''dstendpoint'' v), SeenConnectionNum = as_int (field ''seenconnectionnum'' v),
         PlayedConnectionNum = as_int (field ''playedconnectionnum'' v), PlayedAt = as_time (field ''playedat'' v),
         Generation = as_int (field ''generation'' v), Order = as_int (field ''order'' v)\<rparr>))"

definition bsonToWriter :: "goval \<Rightarrow> bytes \<Rightarrow> bytes res" where
  "bsonToWriter v written = rbind (Marshal v) (\<lambda>bsonBytes. Inr (written @ bsonBytes))"

text \<open>
  \<open>bsonFromReader\<close> into a new variable of type \<open>t\<close>; a clean end of the file is the bare \<open>EOF\<close>.
\<close>

definition bsonFromReader :: "gotype \<Rightarrow> goval reader" where
  "bsonFromReader t r =
     rbind (ReadDocument r) (\<lambda>((buf, e), r).
       case e of
         Some e \<Rightarrow> Inl (Error (if e = EOF then EOF else Errorf ''ReadDocument Error: %v'' []))
       | None \<Rightarrow>
           rbind (case Unmarshal t (zero_of t) buf of
                    Inl (Error _) \<Rightarrow> Inl (Error (Errorf ''Unmarshal RecordedOp Error: %v'' []))
                  | u \<Rightarrow> u) (\<lambda>v. Inr (v, r)))"

record PlaybackFileMetadata =
  PlaybackFileVersion :: int
  DriverOpsFiltered :: bool

definition metadataType :: gotype where
  "metadataType = TStruct [(''playbackfileversion'', False, TInt), (''driveropsfiltered'', False, TBool)]"

definition metadata_value :: "PlaybackFileMetadata \<Rightarrow> goval" where
  "metadata_value m = GStruct [(''playbackfileversion'', False, GInt (word_of_int (PlaybackFileVersion m))),
     (''driveropsfiltered'', False, GBool (DriverOpsFiltered m))]"

text \<open>A new file, and a recording written to it.\<close>

definition NewPlaybackFileWriter :: "bool \<Rightarrow> bytes res" where
  "NewPlaybackFileWriter driverOpsFiltered =
     bsonToWriter (metadata_value \<lparr>PlaybackFileVersion = 1, DriverOpsFiltered = driverOpsFiltered\<rparr>) []"

fun writeOps :: "RecordedOp list \<Rightarrow> bytes \<Rightarrow> bytes res" where
  "writeOps [] file = Inr file"
| "writeOps (op # ops) file = rbind (bsonToWriter (recordedOp_value op) file) (writeOps ops)"

definition NewPlaybackFileReader :: "bytes \<Rightarrow> (PlaybackFileMetadata \<times> bytes) res" where
  "NewPlaybackFileReader file =
     (case bsonFromReader metadataType file of
        Inl (Error e) \<Rightarrow> Inl (Error (Errorf ''error reading metadata: %v'' []))
      | Inl f \<Rightarrow> Inl f
      | Inr (v, r) \<Rightarrow> Inr (\<lparr>PlaybackFileVersion = as_int (field ''playbackfileversion'' v),
          DriverOpsFiltered = as_bool (field ''driveropsfiltered'' v)\<rparr>, r))"

end
