(* ===== verification/Readpool.thy ===== *)
theory Readpool
  imports Playfile
begin

text \<open>
  The pool that reads a playback file (\<open>parallel_file_read_manager.go\<close>): one goroutine reads the
  documents, \<open>n\<close> workers decode them, and the caller of \<open>next\<close> takes the results. Each step
  below is one channel operation (or the reading of one document), and the goroutines interleave in any way.
\<close>

subsection \<open>The state\<close>

text \<open>
  The goroutine of \<open>runFileReader\<close>: about to read for a result manager, with a document that
  waits for the manager to be available, about to send the job, and at its end. A worker has
  no job, has a result, or has handed it over and must make its manager available. The caller
  is the loop of \<open>OpChan\<close>: it looks at \<open>err\<close>, waits in \<open>next\<close>, or has ended with an error or
  with the end of the file.
\<close>

datatype reader_state = Reading nat | Waiting bytes nat | Sending bytes nat | Returning | ReaderDone

datatype 'r worker = Idle | Holding "'r res" nat | Freeing nat | WorkerDone

datatype caller = Checking | InNext | Ended "fault option"

record 'r pool =
  fileInput :: bytes
  readerState :: reader_state
  parseJobs :: "(bytes \<times> nat) list"
  jobsClosed :: bool
  workers :: "'r worker list"
  available :: "bool list"
  resultsClosed :: bool
  stopped :: bool
  fileReadErr :: "err option"
  currentIndex :: nat
  callerState :: caller
  delivered :: "'r res list"

definition begin_pool :: "nat \<Rightarrow> bytes \<Rightarrow> 'r pool" where
  "begin_pool n input =
     \<lparr>fileInput = input, readerState = Reading 0, parseJobs = [], jobsClosed = False, workers = replicate n Idle,
      available = replicate n True, resultsClosed = False, stopped = False, fileReadErr = None,
      currentIndex = 0, callerState = Checking, delivered = []\<rparr>"

subsection \<open>The steps\<close>

inductive pool_step :: "nat \<Rightarrow> (bytes \<Rightarrow> 'r res) \<Rightarrow> 'r pool \<Rightarrow> 'r pool \<Rightarrow> bool"
  for n :: nat and parse :: "bytes \<Rightarrow> 'r res" where
  read_doc: "readerState s = Reading m \<Longrightarrow> ReadDocument (fileInput s) = Inr ((doc, None), r) \<Longrightarrow>
    pool_step n parse s (s\<lparr>readerState := Waiting doc m, fileInput := r\<rparr>)"
| read_eof: "readerState s = Reading m \<Longrightarrow> ReadDocument (fileInput s) = Inr ((doc, Some EOF), r) \<Longrightarrow>
    pool_step n parse s (s\<lparr>readerState := Returning, fileInput := r\<rparr>)"
| read_err: "readerState s = Reading m \<Longrightarrow> ReadDocument (fileInput s) = Inr ((doc, Some e), r) \<Longrightarrow> e \<noteq> EOF \<Longrightarrow>
    pool_step n parse s (s\<lparr>readerState := Returning, fileInput := r, fileReadErr := Some e, stopped := True\<rparr>)"
| close_jobs: "readerState s = Returning \<Longrightarrow>
    pool_step n parse s (s\<lparr>readerState := ReaderDone, jobsClosed := True\<rparr>)"
| take_token: "readerState s = Waiting doc m \<Longrightarrow> available s ! m \<Longrightarrow>
    pool_step n parse s (s\<lparr>readerState := Sending doc m, available := (available s)[m := False]\<rparr>)"
| send_job: "readerState s = Sending doc m \<Longrightarrow> length (parseJobs s) < n \<Longrightarrow>
    pool_step n parse s (s\<lparr>readerState := Reading ((m + 1) mod n), parseJobs := parseJobs s @ [(doc, m)]\<rparr>)"
| take_job: "i < n \<Longrightarrow> workers s ! i = Idle \<Longrightarrow> parseJobs s = (doc, m) # jobs \<Longrightarrow>
    pool_step n parse s (s\<lparr>workers := (workers s)[i := Holding (parse doc) m], parseJobs := jobs\<rparr>)"
| no_jobs: "i < n \<Longrightarrow> workers s ! i = Idle \<Longrightarrow> parseJobs s = [] \<Longrightarrow> jobsClosed s \<Longrightarrow>
    pool_step n parse s (s\<lparr>workers := (workers s)[i := WorkerDone]\<rparr>)"
| deliver: "i < n \<Longrightarrow> workers s ! i = Holding r m \<Longrightarrow> callerState s = InNext \<Longrightarrow> m = currentIndex s \<Longrightarrow>
    pool_step n parse s (s\<lparr>workers := (workers s)[i := Freeing m], currentIndex := (m + 1) mod n,
      delivered := delivered s @ [r], callerState := (case r of Inr _ \<Rightarrow> Checking | Inl f \<Rightarrow> Ended (Some f))\<rparr>)"
| make_available: "i < n \<Longrightarrow> workers s ! i = Freeing m \<Longrightarrow> \<not> available s ! m \<Longrightarrow>
    pool_step n parse s (s\<lparr>workers := (workers s)[i := Idle], available := (available s)[m := True]\<rparr>)"
| stop_worker: "i < n \<Longrightarrow> workers s ! i = Holding r m \<Longrightarrow> stopped s \<Longrightarrow>
    pool_step n parse s (s\<lparr>workers := (workers s)[i := WorkerDone]\<rparr>)"
| close_results: "\<forall>i<n. workers s ! i = WorkerDone \<Longrightarrow> \<not> resultsClosed s \<Longrightarrow>
    pool_step n parse s (s\<lparr>resultsClosed := True\<rparr>)"
| check: "callerState s = Checking \<Longrightarrow>
    pool_step n parse s (s\<lparr>callerState :=
      (case fileReadErr s of None \<Rightarrow> InNext | Some e \<Rightarrow> Ended (Some (Error e)))\<rparr>)"
| next_eof: "callerState s = InNext \<Longrightarrow> resultsClosed s \<Longrightarrow>
    pool_step n parse s (s\<lparr>callerState := Ended None\<rparr>)"

inductive pool_reaches :: "nat \<Rightarrow> (bytes \<Rightarrow> 'r res) \<Rightarrow> bytes \<Rightarrow> 'r pool \<Rightarrow> bool"
  for n :: nat and parse :: "bytes \<Rightarrow> 'r res" and input :: bytes where
  begin_reading: "pool_reaches n parse input (begin_pool n input)"
| one_step: "pool_reaches n parse input s \<Longrightarrow> pool_step n parse s s' \<Longrightarrow> pool_reaches n parse input s'"

text \<open>\<open>NextRecordedOp\<close> decodes into a new \<open>RecordedOp\<close>.\<close>

definition parseRecordedOp :: "bytes \<Rightarrow> (gotime option \<times> RecordedOp) res" where
  "parseRecordedOp rawDoc =
     rbind (Unmarshal recordedOpType (zero_of recordedOpType) rawDoc) (\<lambda>v. Inr (value_recordedOp v))"

subsection \<open>What the pool should do\<close>

text \<open>The documents of a file in order, and the error that ends them (\<open>EOF\<close> for a clean end).\<close>

lemma ReadDocument_progress: "ReadDocument r = Inr ((d, None), r') \<Longrightarrow> length r' < length r"
  using ReadDocument_Inr_None [of r d r'] by (auto simp: sized_doc_def)

function documents :: "bytes \<Rightarrow> bytes list \<times> err" where
  "documents r =
     (case ReadDocument r of
        Inr ((doc, None), r') \<Rightarrow> (case documents r' of (ds, e) \<Rightarrow> (doc # ds, e))
      | Inr ((_, Some e), _) \<Rightarrow> ([], e)
      | Inl _ \<Rightarrow> ([], EOF))"
  by pat_completeness auto
termination
  by (relation "measure length") (simp, metis in_measure ReadDocument_progress)

declare documents.simps [simp del]

lemma documents_step: "ReadDocument r = Inr ((doc, None), r') \<Longrightarrow> documents r = (doc # fst (documents r'), snd (documents r'))"
  by (subst documents.simps) (simp split: prod.splits)

lemma documents_end: "ReadDocument r = Inr ((doc, Some e), r') \<Longrightarrow> documents r = ([], e)"
  by (subst documents.simps) simp

end
