(* ===== verification/Readpool_Correct.thy ===== *)
theory Readpool_Correct
  imports Readpool "HOL-Library.Multiset"
begin

text \<open>
  However the goroutines of the pool interleave, the results come in the order of the file; the
  pool cannot get stuck, and every run of it ends.
\<close>

subsection \<open>What is under way\<close>

text \<open>
  The results still to be delivered, with their managers, and the managers that are free or
  about to be.
\<close>

fun reader_item :: "(bytes \<Rightarrow> 'r res) \<Rightarrow> reader_state \<Rightarrow> ('r res \<times> nat) multiset" where
  "reader_item parse (Sending doc m) = {#(parse doc, m)#}"
| "reader_item parse _ = {#}"

fun worker_item :: "'r worker \<Rightarrow> ('r res \<times> nat) multiset" where
  "worker_item (Holding r m) = {#(r, m)#}"
| "worker_item _ = {#}"

fun worker_free :: "'r worker \<Rightarrow> nat multiset" where
  "worker_free (Freeing m) = {#m#}"
| "worker_free _ = {#}"

definition job_items :: "(bytes \<Rightarrow> 'r res) \<Rightarrow> (bytes \<times> nat) list \<Rightarrow> ('r res \<times> nat) multiset" where
  "job_items parse jobs = mset (map (\<lambda>(doc, m). (parse doc, m)) jobs)"

definition items :: "(bytes \<Rightarrow> 'r res) \<Rightarrow> 'r pool \<Rightarrow> ('r res \<times> nat) multiset" where
  "items parse s = reader_item parse (readerState s) + job_items parse (parseJobs s) +
     sum_list (map worker_item (workers s))"

definition free_managers :: "bool list \<Rightarrow> nat multiset" where
  "free_managers av = mset (filter (\<lambda>m. av ! m) [0..<length av])"

definition frees :: "'r pool \<Rightarrow> nat multiset" where
  "frees s = free_managers (available s) + sum_list (map worker_free (workers s))"

definition tokens :: "(bytes \<Rightarrow> 'r res) \<Rightarrow> 'r pool \<Rightarrow> nat multiset" where
  "tokens parse s = image_mset snd (items parse s) + frees s"

definition managers :: "nat \<Rightarrow> nat multiset" where
  "managers n = mset [0..<n]"

lemma count_managers: "count (managers n) m = (if m < n then 1 else 0)"
  using distinct_count_atmost_1 [of "[0..<n]"] by (simp add: managers_def)

text \<open>The results of the documents from number \<open>d\<close> to number \<open>k\<close>.\<close>

definition jobs_between :: "nat \<Rightarrow> (bytes \<Rightarrow> 'r res) \<Rightarrow> bytes list \<Rightarrow> nat \<Rightarrow> nat \<Rightarrow> ('r res \<times> nat) multiset" where
  "jobs_between n parse docs d k = mset (map (\<lambda>j. (parse (docs ! j), j mod n)) [d..<k])"

lemma sum_list_update_mset:
  "i < length ws \<Longrightarrow> sum_list (map f (ws[i := w])) + f (ws ! i) = sum_list (map f ws) + (f w :: 'b multiset)"
proof (induction ws arbitrary: i)
  case (Cons a ws)
  then show ?case by (cases i) (simp_all add: ac_simps)
qed simp

lemma member_le_sum_list: "w \<in> set ws \<Longrightarrow> f w \<subseteq># (sum_list (map f ws) :: 'b multiset)"
proof (induction ws)
  case (Cons a ws)
  then show ?case by (auto intro: subset_mset.add_increasing)
qed simp

lemma worker_change:
  assumes "i < length ws" "ws ! i = w0"
  shows "sum_list (map f (ws[i := w])) = sum_list (map f ws) - f w0 + (f w :: 'b multiset)"
    and "f w0 \<subseteq># sum_list (map f ws)"
proof -
  have "w0 \<in> set ws" using assms by auto
  then show s: "f w0 \<subseteq># sum_list (map f ws)" by (rule member_le_sum_list)
  show "sum_list (map f (ws[i := w])) = sum_list (map f ws) - f w0 + f w"
    using sum_list_update_mset [OF assms(1), of f w] assms(2) s
    by (metis add_diff_cancel_right' subset_mset.diff_add_assoc2)
qed

lemma count_free: "count (free_managers av) m = (if m < length av \<and> av ! m then 1 else 0)"
  using distinct_count_atmost_1 [of "filter (\<lambda>m. av ! m) [0..<length av]"] by (simp add: free_managers_def)

lemma free_take: "m < length av \<Longrightarrow> av ! m \<Longrightarrow> free_managers av = add_mset m (free_managers (av[m := False]))"
  by (rule multiset_eqI) (auto simp: count_free nth_list_update)

lemma free_give: "m < length av \<Longrightarrow> \<not> av ! m \<Longrightarrow> free_managers (av[m := True]) = add_mset m (free_managers av)"
  by (rule multiset_eqI) (auto simp: count_free nth_list_update)

subsection \<open>The invariant\<close>

fun reader_ok :: "nat \<Rightarrow> bytes list \<Rightarrow> err \<Rightarrow> nat \<Rightarrow> 'r pool \<Rightarrow> reader_state \<Rightarrow> bool" where
  "reader_ok n docs e sent s (Reading m) \<longleftrightarrow>
     m = sent mod n \<and> documents (fileInput s) = (drop sent docs, e) \<and> \<not> stopped s \<and> \<not> jobsClosed s"
| "reader_ok n docs e sent s (Waiting doc m) \<longleftrightarrow>
     m = sent mod n \<and> sent < length docs \<and> doc = docs ! sent \<and> documents (fileInput s) = (drop (Suc sent) docs, e) \<and>
     \<not> stopped s \<and> \<not> jobsClosed s"
| "reader_ok n docs e sent s (Sending doc m) \<longleftrightarrow>
     (\<exists>k. sent = Suc k \<and> m = k mod n) \<and> documents (fileInput s) = (drop sent docs, e) \<and> \<not> stopped s \<and> \<not> jobsClosed s"
| "reader_ok n docs e sent s Returning \<longleftrightarrow> sent = length docs \<and> stopped s = (e \<noteq> EOF) \<and> \<not> jobsClosed s"
| "reader_ok n docs e sent s ReaderDone \<longleftrightarrow> sent = length docs \<and> stopped s = (e \<noteq> EOF) \<and> jobsClosed s"

text \<open>No document under way has a free manager.\<close>

definition apart :: "nat \<Rightarrow> nat \<Rightarrow> nat \<Rightarrow> nat multiset \<Rightarrow> bool" where
  "apart n d k fr \<longleftrightarrow> (\<forall>m. m \<in># fr \<longrightarrow> (\<forall>j. d \<le> j \<and> j < k \<longrightarrow> j mod n \<noteq> m))"

definition pool_inv :: "nat \<Rightarrow> (bytes \<Rightarrow> 'r res) \<Rightarrow> bytes list \<Rightarrow> err \<Rightarrow> nat \<Rightarrow> nat \<Rightarrow> 'r pool \<Rightarrow> bool" where
  "pool_inv n parse docs e d sent s \<longleftrightarrow>
     length (workers s) = n \<and> length (available s) = n \<and>
     d \<le> sent \<and> sent \<le> d + n \<and> sent \<le> length docs \<and>
     currentIndex s = d mod n \<and> delivered s = map parse (take d docs) \<and>
     reader_ok n docs e sent s (readerState s) \<and>
     fileReadErr s = (if stopped s then Some e else None) \<and>
     (WorkerDone \<in> set (workers s) \<longrightarrow> jobsClosed s \<and> parseJobs s = [] \<or> stopped s) \<and>
     (resultsClosed s \<longrightarrow> (\<forall>i<n. workers s ! i = WorkerDone)) \<and>
     (callerState s = Ended None \<longrightarrow> resultsClosed s) \<and>
     items parse s \<subseteq># jobs_between n parse docs d sent \<and>
     (\<not> stopped s \<longrightarrow> items parse s = jobs_between n parse docs d sent) \<and>
     tokens parse s \<subseteq># managers n \<and>
     (\<not> stopped s \<longrightarrow> tokens parse s = managers n) \<and>
     apart n d sent (frees s)"

lemma inv_begin:
  assumes "0 < n"
  shows "pool_inv n parse (fst (documents input)) (snd (documents input)) 0 0 (begin_pool n input)"
proof -
  have z: "sum_list (replicate k {#}) = ({#} :: 'b multiset)" for k by (induction k) auto
  have "free_managers (replicate n True) = managers n"
    by (rule multiset_eqI) (auto simp: count_free count_managers)
  then show ?thesis
    using assms by (auto simp: pool_inv_def apart_def begin_pool_def tokens_def items_def job_items_def frees_def z
        jobs_between_def map_replicate_const)
qed

lemma add_change: "b' = b - x + y \<Longrightarrow> x \<subseteq># b \<Longrightarrow> a + b' = a + b - x + (y :: 'b multiset)"
  by (metis add.assoc subset_mset.add_diff_assoc)

lemma items_worker:
  assumes "i < length (workers s)" "workers s ! i = w0"
  shows "items parse (s\<lparr>workers := (workers s)[i := w]\<rparr>) = items parse s - worker_item w0 + worker_item w"
    and "frees (s\<lparr>workers := (workers s)[i := w]\<rparr>) = frees s - worker_free w0 + worker_free w"
    and "worker_item w0 \<subseteq># items parse s" "worker_free w0 \<subseteq># frees s"
proof -
  note c = worker_change [OF assms, where f = worker_item] worker_change [OF assms, where f = worker_free]
  show "items parse (s\<lparr>workers := (workers s)[i := w]\<rparr>) = items parse s - worker_item w0 + worker_item w"
    unfolding items_def using add_change [OF c(1) [of w] c(2)] by simp
  show "frees (s\<lparr>workers := (workers s)[i := w]\<rparr>) = frees s - worker_free w0 + worker_free w"
    unfolding frees_def using add_change [OF c(3) [of w] c(4)] by simp
  show "worker_item w0 \<subseteq># items parse s" "worker_free w0 \<subseteq># frees s"
    using c(2,4) by (auto simp: items_def frees_def intro: subset_mset.add_increasing)
qed

lemma pool_fields [simp]:
  "items parse (s\<lparr>fileInput := x\<rparr>) = items parse s" "frees (s\<lparr>fileInput := x\<rparr>) = frees s"
  "items parse (s\<lparr>jobsClosed := b\<rparr>) = items parse s" "frees (s\<lparr>jobsClosed := b\<rparr>) = frees s"
  "items parse (s\<lparr>available := av\<rparr>) = items parse s" "frees (s\<lparr>parseJobs := js\<rparr>) = frees s"
  "items parse (s\<lparr>resultsClosed := b\<rparr>) = items parse s" "frees (s\<lparr>resultsClosed := b\<rparr>) = frees s"
  "items parse (s\<lparr>stopped := b\<rparr>) = items parse s" "frees (s\<lparr>stopped := b\<rparr>) = frees s"
  "items parse (s\<lparr>fileReadErr := fe\<rparr>) = items parse s" "frees (s\<lparr>fileReadErr := fe\<rparr>) = frees s"
  "items parse (s\<lparr>currentIndex := k\<rparr>) = items parse s" "frees (s\<lparr>currentIndex := k\<rparr>) = frees s"
  "items parse (s\<lparr>callerState := cs\<rparr>) = items parse s" "frees (s\<lparr>callerState := cs\<rparr>) = frees s"
  "items parse (s\<lparr>delivered := rs\<rparr>) = items parse s" "frees (s\<lparr>delivered := rs\<rparr>) = frees s"
  "frees (s\<lparr>readerState := rd\<rparr>) = frees s"
  by (simp_all add: items_def frees_def)

lemma tokens_fields [simp]:
  "tokens parse (s\<lparr>fileInput := x\<rparr>) = tokens parse s" "tokens parse (s\<lparr>jobsClosed := b\<rparr>) = tokens parse s"
  "tokens parse (s\<lparr>resultsClosed := b\<rparr>) = tokens parse s" "tokens parse (s\<lparr>stopped := b\<rparr>) = tokens parse s"
  "tokens parse (s\<lparr>fileReadErr := fe\<rparr>) = tokens parse s" "tokens parse (s\<lparr>currentIndex := k\<rparr>) = tokens parse s"
  "tokens parse (s\<lparr>callerState := cs\<rparr>) = tokens parse s" "tokens parse (s\<lparr>delivered := rs\<rparr>) = tokens parse s"
  by (simp_all add: tokens_def)

lemma tokens_same: "items parse s' = items parse s \<Longrightarrow> frees s' = frees s \<Longrightarrow> tokens parse s' = tokens parse s"
  by (simp add: tokens_def)

lemma items_reader: "items parse (s\<lparr>readerState := rd\<rparr>) = items parse s - reader_item parse (readerState s) + reader_item parse rd"
  by (simp add: items_def ac_simps)

lemma pool_invD:
  assumes "pool_inv n parse docs e d sent s"
  shows "length (workers s) = n" "length (available s) = n" "d \<le> sent" "sent \<le> d + n" "sent \<le> length docs"
    "currentIndex s = d mod n" "delivered s = map parse (take d docs)" "reader_ok n docs e sent s (readerState s)"
    "fileReadErr s = (if stopped s then Some e else None)"
    "WorkerDone \<in> set (workers s) \<Longrightarrow> jobsClosed s \<and> parseJobs s = [] \<or> stopped s"
    "resultsClosed s \<Longrightarrow> i < n \<Longrightarrow> workers s ! i = WorkerDone"
    "callerState s = Ended None \<Longrightarrow> resultsClosed s"
    "items parse s \<subseteq># jobs_between n parse docs d sent"
    "\<not> stopped s \<Longrightarrow> items parse s = jobs_between n parse docs d sent"
    "tokens parse s \<subseteq># managers n"
    "\<not> stopped s \<Longrightarrow> tokens parse s = managers n"
    "m \<in># frees s \<Longrightarrow> d \<le> j \<Longrightarrow> j < sent \<Longrightarrow> j mod n \<noteq> m"
  using assms unfolding pool_inv_def apart_def by auto

text \<open>A step that changes nothing that is under way.\<close>

lemma pool_inv_workers:
  assumes "pool_inv n parse docs e d sent s"
    and "length (workers s') = n" "length (available s') = n" "currentIndex s' = currentIndex s" "delivered s' = delivered s"
      "\<And>i. resultsClosed s' \<Longrightarrow> i < n \<Longrightarrow> workers s' ! i = WorkerDone" "callerState s' = Ended None \<Longrightarrow> resultsClosed s'"
      "items parse s' = items parse s" "frees s' = frees s" "\<not> stopped s' \<Longrightarrow> \<not> stopped s"
    and "reader_ok n docs e sent s' (readerState s')" "fileReadErr s' = (if stopped s' then Some e else None)"
      "WorkerDone \<in> set (workers s') \<Longrightarrow> jobsClosed s' \<and> parseJobs s' = [] \<or> stopped s'"
  shows "pool_inv n parse docs e d sent s'"
proof -
  have "tokens parse s' = tokens parse s" by (rule tokens_same [OF assms(8,9)])
  then show ?thesis
    using assms(1) assms(2-) unfolding pool_inv_def by simp
qed

text \<open>The steps of the reader.\<close>

lemma pool_inv_keep:
  assumes "pool_inv n parse docs e d sent s"
    and "workers s' = workers s" "available s' = available s" "currentIndex s' = currentIndex s" "delivered s' = delivered s"
      "resultsClosed s' = resultsClosed s" "callerState s' = Ended None \<Longrightarrow> resultsClosed s"
      "items parse s' = items parse s" "frees s' = frees s" "\<not> stopped s' \<Longrightarrow> \<not> stopped s"
    and "reader_ok n docs e sent s' (readerState s')" "fileReadErr s' = (if stopped s' then Some e else None)"
      "WorkerDone \<in> set (workers s) \<Longrightarrow> jobsClosed s' \<and> parseJobs s' = [] \<or> stopped s'"
  shows "pool_inv n parse docs e d sent s'"
  by (rule pool_inv_workers [OF assms(1)])
    (use assms(2-) pool_invD(1,2,11) [OF assms(1)] in simp_all)

lemma read_doc_inv:
  assumes "pool_inv n parse docs e d sent s" "readerState s = Reading m"
    "ReadDocument (fileInput s) = Inr ((doc, None), r)"
  shows "pool_inv n parse docs e d sent (s\<lparr>readerState := Waiting doc m, fileInput := r\<rparr>)"
proof -
  have d: "drop sent docs = doc # fst (documents r)" "e = snd (documents r)" and x: "m = sent mod n" "\<not> stopped s" "\<not> jobsClosed s"
    using pool_invD(8) [OF assms(1)] assms(2) documents_step [OF assms(3)] by auto
  have l: "sent < length docs" using d(1) by (metis drop_all leI list.distinct(1))
  have "drop sent docs = docs ! sent # drop (Suc sent) docs" by (rule Cons_nth_drop_Suc [OF l, symmetric])
  then have y: "docs ! sent = doc" "documents r = (drop (Suc sent) docs, e)" using d by (simp_all add: prod_eq_iff)
  note d = y
  show ?thesis
    by (rule pool_inv_keep [OF assms(1)])
      (use x l d assms(2) pool_invD(9,10,12) [OF assms(1)] in \<open>simp_all add: items_reader\<close>)
qed

lemma read_end:
  assumes "pool_inv n parse docs e d sent s" "readerState s = Reading m"
    "ReadDocument (fileInput s) = Inr ((doc, Some e'), r)"
  shows "e' = e \<and> sent = length docs \<and> \<not> stopped s \<and> \<not> jobsClosed s"
proof -
  have "drop sent docs = []" "e = e'" "\<not> stopped s" "\<not> jobsClosed s"
    using pool_invD(8) [OF assms(1)] assms(2) documents_end [OF assms(3)] by auto
  then show ?thesis using pool_invD(5) [OF assms(1)] by auto
qed

lemma read_eof_inv:
  assumes "pool_inv n parse docs e d sent s" "readerState s = Reading m"
    "ReadDocument (fileInput s) = Inr ((doc, Some EOF), r)"
  shows "pool_inv n parse docs e d sent (s\<lparr>readerState := Returning, fileInput := r\<rparr>)"
  by (rule pool_inv_keep [OF assms(1)])
    (use read_end [OF assms] assms(2) pool_invD(9,10,12) [OF assms(1)] in \<open>simp_all add: items_reader\<close>)

lemma read_err_inv:
  assumes "pool_inv n parse docs e d sent s" "readerState s = Reading m"
    "ReadDocument (fileInput s) = Inr ((doc, Some e'), r)" "e' \<noteq> EOF"
  shows "pool_inv n parse docs e d sent (s\<lparr>readerState := Returning, fileInput := r, fileReadErr := Some e', stopped := True\<rparr>)"
  by (rule pool_inv_keep [OF assms(1)])
    (use read_end [OF assms(1-3)] assms(2,4) pool_invD(12) [OF assms(1)] in \<open>simp_all add: items_reader\<close>)

lemma close_jobs_inv:
  assumes "pool_inv n parse docs e d sent s" "readerState s = Returning"
  shows "pool_inv n parse docs e d sent (s\<lparr>readerState := ReaderDone, jobsClosed := True\<rparr>)"
  by (rule pool_inv_keep [OF assms(1)])
    (use assms(2) pool_invD(8,9,10,12) [OF assms(1)] in \<open>auto simp: items_reader\<close>)

lemma send_job_inv:
  assumes "pool_inv n parse docs e d sent s" "readerState s = Sending doc m"
  shows "pool_inv n parse docs e d sent
    (s\<lparr>readerState := Reading ((m + 1) mod n), parseJobs := parseJobs s @ [(doc, m)]\<rparr>)"
  by (rule pool_inv_keep [OF assms(1)])
    (use assms(2) pool_invD(8,9,10,12) [OF assms(1)] in \<open>auto simp: items_def job_items_def mod_simps\<close>)

lemma jobs_between_Suc: "d \<le> k \<Longrightarrow> jobs_between n parse docs d (Suc k) = add_mset (parse (docs ! k), k mod n) (jobs_between n parse docs d k)"
  by (simp add: jobs_between_def)

lemma jobs_between_first: "d < k \<Longrightarrow> jobs_between n parse docs d k = add_mset (parse (docs ! d), d mod n) (jobs_between n parse docs (Suc d) k)"
  by (simp add: jobs_between_def upt_conv_Cons)

lemma token_once: "tokens parse s \<subseteq># managers n \<Longrightarrow> count (tokens parse s) m \<le> 1"
  using mset_subset_eq_count [of "tokens parse s" "managers n" m] by (simp add: count_managers split: if_splits)

lemma take_token_inv:
  assumes inv: "pool_inv n parse docs e d sent s" and r: "readerState s = Waiting doc m" "available s ! m" and n: "0 < n"
  shows "pool_inv n parse docs e d (Suc sent)
    (s\<lparr>readerState := Sending doc m, available := (available s)[m := False]\<rparr>)"
proof -
  note I = pool_invD [OF inv]
  have w: "m = sent mod n" "sent < length docs" "doc = docs ! sent" "documents (fileInput s) = (drop (Suc sent) docs, e)"
    "\<not> stopped s" "\<not> jobsClosed s"
    using I(8) r(1) by simp_all
  have m: "m < length (available s)" using w(1) n I(2) by simp
  let ?s = "s\<lparr>readerState := Sending doc m, available := (available s)[m := False]\<rparr>"
  have f: "frees s = add_mset m (frees ?s)" using free_take [OF m r(2)] by (simp add: frees_def)
  have i: "items parse ?s = add_mset (parse doc, m) (items parse s)" using r(1) by (simp add: items_reader)
  have b: "Suc sent \<le> d + n"
  proof (rule ccontr)
    assume "\<not> Suc sent \<le> d + n"
    then have "sent = d + n" using I(4) by simp
    then have "d mod n = m" "d < sent" using w(1) n by simp_all
    then show False using I(17) [of m d] f by simp
  qed
  have t: "tokens parse ?s = tokens parse s" unfolding tokens_def i f by simp
  have o: "m \<notin># frees ?s"
  proof
    assume "m \<in># frees ?s"
    then have "1 \<le> count (frees ?s) m" by simp
    moreover have "1 + count (frees ?s) m \<le> count (tokens parse s) m" unfolding tokens_def f by simp
    ultimately show False using token_once [OF I(15), of m] by linarith
  qed
  have "m' \<in># frees ?s \<Longrightarrow> d \<le> j \<Longrightarrow> j < Suc sent \<Longrightarrow> j mod n \<noteq> m'" for m' j
    using I(17) [of m' j] o w(1) f by (cases "j = sent") auto
  then have k: "apart n d (Suc sent) (frees ?s)" unfolding apart_def by blast
  have j: "items parse ?s = jobs_between n parse docs d (Suc sent)"
    unfolding i using I(14) [OF w(5)] I(3) w(1,3) by (simp add: jobs_between_Suc)
  have "WorkerDone \<notin> set (workers s)" using I(10) w(5,6) by auto
  then show ?thesis
    using inv w b k j t unfolding pool_inv_def by simp
qed

text \<open>The steps of the workers.\<close>

lemma reader_ok_fields [simp]:
  "reader_ok n docs e sent (s\<lparr>workers := ws\<rparr>) rd = reader_ok n docs e sent s rd"
  "reader_ok n docs e sent (s\<lparr>parseJobs := js\<rparr>) rd = reader_ok n docs e sent s rd"
  "reader_ok n docs e sent (s\<lparr>available := av\<rparr>) rd = reader_ok n docs e sent s rd"
  "reader_ok n docs e sent (s\<lparr>resultsClosed := b\<rparr>) rd = reader_ok n docs e sent s rd"
  "reader_ok n docs e sent (s\<lparr>callerState := cs\<rparr>) rd = reader_ok n docs e sent s rd"
  "reader_ok n docs e sent (s\<lparr>currentIndex := k\<rparr>) rd = reader_ok n docs e sent s rd"
  "reader_ok n docs e sent (s\<lparr>delivered := rs\<rparr>) rd = reader_ok n docs e sent s rd"
  by (cases rd; simp)+

lemma set_update_other: "x \<in> set (xs[i := y]) \<Longrightarrow> x \<noteq> y \<Longrightarrow> x \<in> set xs"
  using set_update_subset_insert [of xs i y] by auto

lemma take_job_inv:
  assumes inv: "pool_inv n parse docs e d sent s" and a: "i < n" "workers s ! i = Idle" "parseJobs s = (doc, m) # jobs"
  shows "pool_inv n parse docs e d sent (s\<lparr>workers := (workers s)[i := Holding (parse doc) m], parseJobs := jobs\<rparr>)"
proof -
  note I = pool_invD [OF inv]
  let ?t = "s\<lparr>workers := (workers s)[i := Holding (parse doc) m]\<rparr>"
  have l: "i < length (workers s)" using a(1) I(1) by simp
  note c = items_worker [OF l a(2)]
  have "items parse (?t\<lparr>parseJobs := jobs\<rparr>) = items parse s"
    using c(1) [of parse "Holding (parse doc) m"] a(3) by (simp add: items_def job_items_def)
  moreover have "frees (?t\<lparr>parseJobs := jobs\<rparr>) = frees s" using c(2) [of "Holding (parse doc) m"] by simp
  moreover have "\<not> resultsClosed s" using I(11) [of i] a(1,2) by auto
  ultimately show ?thesis
    using I(1,2,8,9,10,12) a(3)
    by (intro pool_inv_workers [OF inv]) (auto dest: set_update_other)
qed

lemma no_jobs_inv:
  assumes inv: "pool_inv n parse docs e d sent s" and a: "i < n" "workers s ! i = Idle" "parseJobs s = []" "jobsClosed s"
  shows "pool_inv n parse docs e d sent (s\<lparr>workers := (workers s)[i := WorkerDone]\<rparr>)"
proof -
  note I = pool_invD [OF inv]
  have l: "i < length (workers s)" using a(1) I(1) by simp
  note c = items_worker [OF l a(2)]
  have "\<not> resultsClosed s" using I(11) [of i] a(1,2) by auto
  then show ?thesis
    using I(1,2,8,9,10,12) a(3,4) c(1) [of parse WorkerDone] c(2) [of WorkerDone]
    by (intro pool_inv_workers [OF inv]) auto
qed

lemma make_available_inv:
  assumes inv: "pool_inv n parse docs e d sent s" and a: "i < n" "workers s ! i = Freeing m" "\<not> available s ! m"
  shows "pool_inv n parse docs e d sent (s\<lparr>workers := (workers s)[i := Idle], available := (available s)[m := True]\<rparr>)"
proof -
  note I = pool_invD [OF inv]
  let ?t = "s\<lparr>workers := (workers s)[i := Idle]\<rparr>"
  have l: "i < length (workers s)" using a(1) I(1) by simp
  note c = items_worker [OF l a(2)]
  have m: "m \<in># frees s" using c(4) by simp
  have "m \<in># tokens parse s" using m by (simp add: tokens_def)
  then have "m \<in># managers n" by (rule mset_subset_eqD [OF I(15)])
  then have "m < n" by (simp add: managers_def)
  then have g: "free_managers ((available s)[m := True]) = add_mset m (free_managers (available s))"
    using free_give [of m "available s"] a(3) I(2) by simp
  have "frees (?t\<lparr>available := (available s)[m := True]\<rparr>) = frees s"
    using c(2) [of Idle] c(4) by (simp add: frees_def g)
  moreover have "\<not> resultsClosed s" using I(11) [of i] a(1,2) by auto
  ultimately show ?thesis
    using I(1,2,8,9,10,12) c(1) [of parse Idle]
    by (intro pool_inv_workers [OF inv]) (auto dest: set_update_other)
qed

lemma caller_inv:
  assumes inv: "pool_inv n parse docs e d sent s" and "cs = Ended None \<Longrightarrow> resultsClosed s"
  shows "pool_inv n parse docs e d sent (s\<lparr>callerState := cs\<rparr>)"
  using assms(2) pool_invD(1,2,8,9,10,11,12) [OF inv]
  by (intro pool_inv_workers [OF inv]) auto

lemma close_results_inv:
  assumes inv: "pool_inv n parse docs e d sent s" and "\<forall>i<n. workers s ! i = WorkerDone"
  shows "pool_inv n parse docs e d sent (s\<lparr>resultsClosed := True\<rparr>)"
  using assms(2) pool_invD(1,2,8,9,10,11,12) [OF inv]
  by (intro pool_inv_workers [OF inv]) auto

lemma mod_window: "d \<le> j \<Longrightarrow> j < d + n \<Longrightarrow> j mod n = d mod n \<Longrightarrow> j = (d :: nat)"
  using mod_eq_dvd_iff_nat [of d j n] by (auto dest: dvd_imp_le)

lemma deliver_inv:
  assumes inv: "pool_inv n parse docs e d sent s"
    and a: "i < n" "workers s ! i = Holding r m" "callerState s = InNext" "m = currentIndex s"
  shows "r = parse (docs ! d)" "d < sent"
    "cs \<noteq> Ended None \<Longrightarrow> pool_inv n parse docs e (Suc d) sent (s\<lparr>workers := (workers s)[i := Freeing m],
       currentIndex := (m + 1) mod n, delivered := delivered s @ [r], callerState := cs\<rparr>)"
proof -
  note I = pool_invD [OF inv]
  have l: "i < length (workers s)" using a(1) I(1) by simp
  note c = items_worker [OF l a(2)]
  have rm: "(r, m) \<in># items parse s" using c(3) by simp
  then have "(r, m) \<in># jobs_between n parse docs d sent" by (rule mset_subset_eqD [OF I(13)])
  then obtain j where j: "d \<le> j" "j < sent" "r = parse (docs ! j)" "m = j mod n" by (auto simp: jobs_between_def)
  have "j = d" by (rule mod_window [OF j(1), of n]) (use j I(4,6) a(4) in auto)
  then show r: "r = parse (docs ! d)" and ds: "d < sent" using j by simp_all
  have m: "m = d mod n" using a(4) I(6) by simp
  assume cs: "cs \<noteq> Ended None"
  let ?s = "s\<lparr>workers := (workers s)[i := Freeing m], currentIndex := (m + 1) mod n, delivered := delivered s @ [r], callerState := cs\<rparr>"
  have i: "items parse ?s = items parse s - {#(r, m)#}" using c(1) [of parse "Freeing m"] by simp
  have f: "frees ?s = add_mset m (frees s)" using c(2) [of "Freeing m"] by simp
  have b: "jobs_between n parse docs d sent = add_mset (r, m) (jobs_between n parse docs (Suc d) sent)"
    using jobs_between_first [OF ds, of n parse docs] r m by simp
  have t: "tokens parse ?s = tokens parse s"
    using multi_member_split [OF rm] unfolding tokens_def i f by auto
  have ap: "apart n (Suc d) sent (frees ?s)"
  proof -
    have "j mod n \<noteq> m" if "Suc d \<le> j" "j < sent" for j
      using mod_window [of d j n] that I(4) m by auto
    then show ?thesis using I(17) unfolding apart_def f by auto
  qed
  have it: "items parse ?s \<subseteq># jobs_between n parse docs (Suc d) sent"
    "\<not> stopped s \<Longrightarrow> items parse ?s = jobs_between n parse docs (Suc d) sent"
    using I(13,14) unfolding i b by (auto simp: subset_eq_diff_conv)
  have dl: "delivered s @ [r] = map parse (take (Suc d) docs)"
    using I(5,7) ds r by (simp add: take_Suc_conv_app_nth)
  have rc: "\<not> resultsClosed s" using I(11) [of i] a(1,2) by auto
  have wd: "WorkerDone \<in> set (workers ?s) \<Longrightarrow> jobsClosed s \<and> parseJobs s = [] \<or> stopped s"
    using I(10) set_update_other [of WorkerDone "workers s" i "Freeing m"] by simp
  show "pool_inv n parse docs e (Suc d) sent ?s"
    using inv ds t ap it dl rc wd cs m unfolding pool_inv_def by (simp add: mod_simps)
qed

lemma stop_worker_inv:
  assumes inv: "pool_inv n parse docs e d sent s" and a: "i < n" "workers s ! i = Holding r m" "stopped s"
  shows "pool_inv n parse docs e d sent (s\<lparr>workers := (workers s)[i := WorkerDone]\<rparr>)"
proof -
  note I = pool_invD [OF inv]
  let ?s = "s\<lparr>workers := (workers s)[i := WorkerDone]\<rparr>"
  have l: "i < length (workers s)" using a(1) I(1) by simp
  note c = items_worker [OF l a(2)]
  have i: "items parse ?s = items parse s - {#(r, m)#}" using c(1) [of parse WorkerDone] by simp
  have f: "frees ?s = frees s" using c(2) [of WorkerDone] by simp
  have "tokens parse ?s \<subseteq># tokens parse s"
    unfolding tokens_def i f by (simp add: image_mset_subseteq_mono)
  then have t: "tokens parse ?s \<subseteq># managers n" using I(15) by (rule subset_mset.trans)
  have it: "items parse ?s \<subseteq># jobs_between n parse docs d sent"
    unfolding i using I(13) by (rule subset_mset.trans [OF diff_subset_eq_self])
  have rc: "\<not> resultsClosed s" using I(11) [of i] a(1,2) by auto
  show ?thesis
    using inv t it f rc a(3) unfolding pool_inv_def by simp
qed

theorem pool_step_inv:
  assumes "pool_step n parse s s'" "pool_inv n parse docs e d sent s" "0 < n"
  shows "\<exists>d' sent'. pool_inv n parse docs e d' sent' s'"
  using assms(1)
proof cases
  case (read_doc m doc r)
  then show ?thesis using read_doc_inv [OF assms(2)] by blast
next
  case (read_eof m doc r)
  then show ?thesis using read_eof_inv [OF assms(2)] by blast
next
  case (read_err m doc e r)
  then show ?thesis using read_err_inv [OF assms(2)] by blast
next
  case close_jobs
  then show ?thesis using close_jobs_inv [OF assms(2)] by blast
next
  case (take_token doc m)
  then show ?thesis using take_token_inv [OF assms(2) _ _ assms(3)] by blast
next
  case (send_job doc m)
  then show ?thesis using send_job_inv [OF assms(2)] by blast
next
  case (take_job i doc m jobs)
  then show ?thesis using take_job_inv [OF assms(2)] by blast
next
  case (no_jobs i)
  then show ?thesis using no_jobs_inv [OF assms(2)] by blast
next
  case (deliver i r m)
  have "(case r of Inr x \<Rightarrow> Checking | Inl f \<Rightarrow> Ended (Some f)) \<noteq> Ended None" by (cases r) auto
  then show ?thesis using deliver deliver_inv(3) [OF assms(2) deliver(2-5)] by blast
next
  case (make_available i m)
  then show ?thesis using make_available_inv [OF assms(2)] by blast
next
  case (stop_worker i r m)
  then show ?thesis using stop_worker_inv [OF assms(2)] by blast
next
  case close_results
  then show ?thesis using close_results_inv [OF assms(2)] by blast
next
  case check
  have "(case fileReadErr s of None \<Rightarrow> InNext | Some e \<Rightarrow> Ended (Some (Error e))) \<noteq> Ended None"
    by (cases "fileReadErr s") auto
  then show ?thesis using check caller_inv [OF assms(2)] by blast
next
  case next_eof
  then show ?thesis using caller_inv [OF assms(2), of "Ended None"] by blast
qed

lemma pool_reaches_inv:
  "pool_reaches n parse input s \<Longrightarrow> 0 < n \<Longrightarrow>
    \<exists>d sent. pool_inv n parse (fst (documents input)) (snd (documents input)) d sent s"
proof (induction rule: pool_reaches.induct)
  case begin_reading
  then show ?case using inv_begin by blast
next
  case (one_step s s')
  then show ?case using pool_step_inv by blast
qed

subsection \<open>The pool does not get stuck\<close>

lemma item_cases:
  assumes "x \<in># items parse s"
  obtains (reader) doc m where "readerState s = Sending doc m" "x = (parse doc, m)"
  | (job) "parseJobs s \<noteq> []"
  | (worker) i where "i < length (workers s)" "workers s ! i = Holding (fst x) (snd x)"
proof -
  have w: "\<exists>i<length ws. ws ! i = Holding (fst x) (snd x)" if "x \<in># sum_list (map worker_item ws)" for ws
    using that
  proof (induction ws)
    case (Cons a ws)
    then show ?case
    proof (cases "x \<in># worker_item a")
      case True
      then have "a = Holding (fst x) (snd x)" by (cases a) auto
      then show ?thesis by (intro exI [of _ 0]) simp
    next
      case False
      then obtain i where "i < length ws" "ws ! i = Holding (fst x) (snd x)" using Cons by auto
      then show ?thesis by (intro exI [of _ "Suc i"]) simp
    qed
  qed simp
  have "x \<in># reader_item parse (readerState s) \<or> parseJobs s \<noteq> [] \<or> x \<in># sum_list (map worker_item (workers s))"
    using assms by (auto simp: items_def job_items_def)
  then show ?thesis
  proof (elim disjE)
    assume "x \<in># reader_item parse (readerState s)"
    then show ?thesis by (cases "readerState s") (auto intro: reader)
  qed (use job worker w in blast)+
qed

lemma size_items: "size (reader_item parse (readerState s)) + length (parseJobs s) +
    size (sum_list (map worker_item (workers s))) = size (items parse s)"
  by (simp add: items_def job_items_def)

lemma size_bound:
  assumes "pool_inv n parse docs e d sent s"
  shows "size (items parse s) \<le> n"
proof -
  have "size (tokens parse s) \<le> size (managers n)"
    by (rule size_mset_mono [OF pool_invD(15) [OF assms]])
  then show ?thesis by (simp add: tokens_def managers_def)
qed

lemma all_holding:
  assumes inv: "pool_inv n parse docs e d sent s" and n: "0 < n" and h: "\<And>i. i < n \<Longrightarrow> \<exists>r m. workers s ! i = Holding r m"
  obtains i r where "i < n" "workers s ! i = Holding r (currentIndex s)" "parseJobs s = []" "\<And>doc m. readerState s \<noteq> Sending doc m"
proof -
  note I = pool_invD [OF inv]
  have "size (sum_list (map worker_item ws)) = length ws" if "\<And>w. w \<in> set ws \<Longrightarrow> \<exists>r m. w = Holding r m" for ws :: "'a worker list"
    using that by (induction ws) fastforce+
  from this [of "workers s"] have w: "size (sum_list (map worker_item (workers s))) = n"
    using h I(1) by (auto simp: in_set_conv_nth)
  then have z0: "size (reader_item parse (readerState s)) = 0" "length (parseJobs s) = 0"
    using size_items [of parse s] size_bound [OF inv] by linarith+
  then have z: "reader_item parse (readerState s) = {#}" "parseJobs s = []" by simp_all
  have "size (tokens parse s) \<le> n" using size_mset_mono [OF I(15)] by (simp add: managers_def)
  then have "size (items parse s) = n" "size (tokens parse s) = n"
    using w z size_items [of parse s] by (simp_all add: tokens_def)
  moreover have "image_mset snd (items parse s) \<subseteq># managers n"
    using I(15) mset_subset_eq_add_left subset_mset.trans unfolding tokens_def by blast
  ultimately have "image_mset snd (items parse s) = managers n"
    using mset_subset_size [of "image_mset snd (items parse s)" "managers n"]
    by (auto simp: subset_mset.less_le managers_def)
  then have "currentIndex s \<in># image_mset snd (items parse s)"
    using I(6) n by (simp add: managers_def)
  then obtain x where x: "x \<in># items parse s" "snd x = currentIndex s" by auto
  from x(1) show ?thesis
  proof (cases rule: item_cases)
    case (worker i)
    then show ?thesis using that [of i "fst x"] x(2) I(1) z by (cases "readerState s") auto
  qed (use z in auto)
qed

lemma free_workers: "m \<in># sum_list (map worker_free ws) \<Longrightarrow> \<exists>i<length ws. ws ! i = Freeing m"
proof (induction ws)
  case (Cons a ws)
  then show ?case
  proof (cases "m \<in># worker_free a")
    case True
    then have "a = Freeing m" by (cases a) auto
    then show ?thesis by (intro exI [of _ 0]) simp
  next
    case False
    then obtain i where "i < length ws" "ws ! i = Freeing m" using Cons by auto
    then show ?thesis by (intro exI [of _ "Suc i"]) simp
  qed
qed simp

lemma not_stuck:
  assumes inv: "pool_inv n parse docs e d sent s" and n: "0 < n" and c: "callerState s = InNext"
  shows "\<exists>s'. pool_step n parse s s'"
proof (rule ccontr)
  assume "\<not> (\<exists>s'. pool_step n parse s s')"
  then have no: "\<And>s'. \<not> pool_step n parse s s'" by blast
  note I = pool_invD [OF inv]
  have taken: "parseJobs s = []" "\<not> jobsClosed s" if i: "i < n" "workers s ! i = Idle" for i
  proof -
    show e: "parseJobs s = []"
      using no pool_step.take_job [OF i] by (metis list.exhaust surj_pair)
    show "\<not> jobsClosed s" using no pool_step.no_jobs [OF i e] by blast
  qed
  have free: "workers s ! i \<noteq> Freeing m" if i: "i < n" for i m
  proof
    assume f: "workers s ! i = Freeing m"
    have "available s ! m" using no pool_step.make_available [OF i f] by blast
    have "worker_free (Freeing m :: 'a worker) \<subseteq># sum_list (map worker_free (workers s))"
      using worker_change(2) [of i "workers s"] i I(1) f by metis
    then have w: "m \<in># sum_list (map worker_free (workers s))" by simp
    have "m \<in># tokens parse s" using w by (simp add: tokens_def frees_def)
    then have "m < n" using mset_subset_eqD [OF I(15)] by (fastforce simp: managers_def)
    then have "1 \<le> count (free_managers (available s)) m" using \<open>available s ! m\<close> I(2) by (simp add: count_free)
    moreover have "1 \<le> count (sum_list (map worker_free (workers s))) m" using w by simp
    moreover have "count (tokens parse s) m = count (image_mset snd (items parse s)) m +
        (count (free_managers (available s)) m + count (sum_list (map worker_free (workers s))) m)"
      unfolding tokens_def frees_def by simp
    ultimately show False using token_once [OF I(15), of m] by linarith
  qed
  have kept: "workers s ! i \<noteq> Holding r (currentIndex s)" if i: "i < n" for i r
    using no pool_step.deliver [OF i _ c refl] by blast
  have held: "\<not> (\<forall>i<n. \<exists>r m. workers s ! i = Holding r m)"
    using all_holding [OF inv n] kept by metis
  have active: "\<exists>i<n. workers s ! i \<noteq> WorkerDone"
  proof (rule ccontr)
    assume "\<not> (\<exists>i<n. workers s ! i \<noteq> WorkerDone)"
    then have a: "\<forall>i<n. workers s ! i = WorkerDone" by blast
    show False
      using no pool_step.close_results [OF a] pool_step.next_eof [OF c] by (cases "resultsClosed s") blast+
  qed
  have first: "\<not> stopped s \<Longrightarrow> items parse s \<noteq> {#} \<Longrightarrow> (parse (docs ! d), currentIndex s) \<in># items parse s"
    using I(6,14) jobs_between_first [of d sent n parse docs] by (cases "d < sent") (auto simp: jobs_between_def)
  have queued: "parseJobs s \<noteq> [] \<or> (\<exists>doc m. readerState s = Sending doc m)" if x: "\<not> stopped s" "items parse s \<noteq> {#}"
    using first [OF x]
  proof (cases rule: item_cases)
    case (worker i)
    then show ?thesis using kept I(1) by simp
  qed auto
  show False
  proof (cases "readerState s")
    case (Reading m)
    obtain doc e r where r: "ReadDocument (fileInput s) = Inr ((doc, e), r)" using ReadDocument_total by blast
    show False
      using no pool_step.read_doc [OF Reading] pool_step.read_eof [OF Reading] pool_step.read_err [OF Reading] r
      by (cases e) metis+
  next
    case Returning
    then show False using no pool_step.close_jobs by blast
  next
    case (Sending doc m)
    then have "n \<le> length (parseJobs s)" using no pool_step.send_job [OF Sending] by (meson not_le)
    then show False using size_items [of parse s] size_bound [OF inv] Sending by simp
  next
    case (Waiting doc m)
    then have w: "m = sent mod n" "\<not> stopped s" "\<not> jobsClosed s" using I(8) by simp_all
    have "\<not> available s ! m" using no pool_step.take_token [OF Waiting] by blast
    then have "m \<notin># free_managers (available s)" by (simp add: count_free flip: count_eq_zero_iff)
    moreover have "m \<notin># sum_list (map worker_free (workers s))"
      using free_workers [of m "workers s"] free I(1) by blast
    moreover have "m \<in># tokens parse s" using I(16) w n by (simp add: managers_def)
    ultimately have "items parse s \<noteq> {#}" by (auto simp: tokens_def frees_def)
    then have j: "parseJobs s \<noteq> []" using queued w(2) Waiting by auto
    have "\<exists>r m. workers s ! i = Holding r m" if i: "i < n" for i
      using taken(1) [OF i] j free [OF i] I(1,10) w(2,3) i by (cases "workers s ! i") (auto simp: in_set_conv_nth)
    then show False using held by blast
  next
    case ReaderDone
    then have jc: "jobsClosed s" using I(8) by simp
    obtain i where i: "i < n" "workers s ! i \<noteq> WorkerDone" using active by blast
    have "\<exists>r m. workers s ! i = Holding r m"
      using taken(2) [OF i(1)] jc free [OF i(1)] i(2) by (cases "workers s ! i") auto
    then obtain r m where h: "workers s ! i = Holding r m" by blast
    have ns: "\<not> stopped s" using no pool_step.stop_worker [OF i(1) h] by blast
    have "worker_item (Holding r m) \<subseteq># items parse s" using items_worker(3) [OF _ h] i(1) I(1) by simp
    then have "items parse s \<noteq> {#}" by auto
    then have j: "parseJobs s \<noteq> []" using queued ns ReaderDone by auto
    have "\<exists>r m. workers s ! k = Holding r m" if k: "k < n" for k
      using taken(1) [OF k] j free [OF k] I(1,10) ns k by (cases "workers s ! k") (auto simp: in_set_conv_nth)
    then show False using held by blast
  qed
qed

lemma ended_complete:
  assumes inv: "pool_inv n parse docs e d sent s" and n: "0 < n" and c: "callerState s = Ended None" "\<not> stopped s"
  shows "delivered s = map parse docs"
proof -
  note I = pool_invD [OF inv]
  have a: "\<And>i. i < n \<Longrightarrow> workers s ! i = WorkerDone" using I(11,12) c by blast
  then have "WorkerDone \<in> set (workers s)" using n I(1) by (metis nth_mem)
  then have j: "jobsClosed s" "parseJobs s = []" using I(10) c(2) by auto
  then have r: "readerState s = ReaderDone" "sent = length docs" using I(8) by (cases "readerState s"; simp)+
  have "x \<notin># items parse s" for x
  proof
    assume "x \<in># items parse s"
    then show False by (cases rule: item_cases) (use r j a I(1) in auto)
  qed
  then have "items parse s = {#}" by blast
  then have "size (jobs_between n parse docs d sent) = 0" using I(14) c(2) by simp
  then have "d = sent" using I(3) unfolding jobs_between_def by simp
  then show ?thesis using I(7) r by simp
qed

text \<open>The caller ends with an error only when it has seen it.\<close>

lemma caller_errors:
  assumes "pool_reaches n parse input s" "callerState s = Ended (Some f)"
  shows "Inl f \<in> set (delivered s) \<or> fileReadErr s \<noteq> None"
  using assms
proof (induction rule: pool_reaches.induct)
  case begin_reading
  then show ?case by (simp add: begin_pool_def)
next
  case (one_step s s')
  from one_step.hyps(2) show ?case
  proof cases
    case (deliver i r m)
    then show ?thesis using one_step.prems by (cases r) auto
  next
    case check
    then show ?thesis using one_step.prems by (cases "fileReadErr s") auto
  qed (use one_step in auto)
qed

subsection \<open>Every run ends\<close>

text \<open>The steps that are left, at most: each document takes seven.\<close>

definition unread :: "bytes \<Rightarrow> nat" where
  "unread r = length (fst (documents r))"

fun reader_weight :: "nat \<Rightarrow> reader_state \<Rightarrow> nat" where
  "reader_weight k (Reading m) = 7 * k + 2"
| "reader_weight k (Waiting doc m) = 7 * k + 8"
| "reader_weight k (Sending doc m) = 7 * k + 7"
| "reader_weight k Returning = 1"
| "reader_weight k ReaderDone = 0"

fun worker_weight :: "'r worker \<Rightarrow> nat" where
  "worker_weight Idle = 1"
| "worker_weight (Holding r m) = 4"
| "worker_weight (Freeing m) = 2"
| "worker_weight WorkerDone = 0"

fun caller_weight :: "caller \<Rightarrow> nat" where
  "caller_weight Checking = 2"
| "caller_weight InNext = 1"
| "caller_weight (Ended x) = 0"

definition pool_weight :: "'r pool \<Rightarrow> nat" where
  "pool_weight s = reader_weight (unread (fileInput s)) (readerState s) + 4 * length (parseJobs s) +
     sum_list (map worker_weight (workers s)) + (if resultsClosed s then 0 else 1) + caller_weight (callerState s)"

lemma weight_update: "i < length ws \<Longrightarrow> ws ! i = w0 \<Longrightarrow>
    sum_list (map worker_weight (ws[i := w])) + worker_weight w0 = sum_list (map worker_weight ws) + worker_weight w"
proof (induction ws arbitrary: i)
  case (Cons a ws)
  then show ?case by (cases i) auto
qed simp

lemma pool_step_weight:
  assumes "pool_step n parse s s'" "length (workers s) = n"
  shows "pool_weight s' < pool_weight s"
  using assms(1)
proof cases
  case (read_doc m doc r)
  then show ?thesis using documents_step [of "fileInput s" doc r] by (simp add: pool_weight_def unread_def)
next
  case (take_job i doc m jobs)
  then show ?thesis using weight_update [of i "workers s" Idle "Holding (parse doc) m"] assms(2) by (simp add: pool_weight_def)
next
  case (no_jobs i)
  then show ?thesis using weight_update [of i "workers s" Idle WorkerDone] assms(2) by (simp add: pool_weight_def)
next
  case (deliver i r m)
  then show ?thesis using weight_update [of i "workers s" "Holding r m" "Freeing m"] assms(2)
    by (simp add: pool_weight_def split: sum.split)
next
  case (make_available i m)
  then show ?thesis using weight_update [of i "workers s" "Freeing m" Idle] assms(2) by (simp add: pool_weight_def)
next
  case (stop_worker i r m)
  then show ?thesis using weight_update [of i "workers s" "Holding r m" WorkerDone] assms(2) by (simp add: pool_weight_def)
qed (simp_all add: pool_weight_def split: option.split)

subsection \<open>The properties\<close>

text \<open>
  C12. Whatever the interleaving of the reader, the \<open>n\<close> workers and the caller, the results that
  \<open>next\<close> has returned are those of the first documents of the file, in the order of the file:
  none is lost, doubled or overtaken, also when the reading is stopped by an error.
\<close>

theorem results_in_order:
  assumes "pool_reaches n parse input s" "0 < n"
  shows "\<exists>k\<le>length (fst (documents input)). delivered s = map parse (take k (fst (documents input)))"
proof -
  obtain d sent where "pool_inv n parse (fst (documents input)) (snd (documents input)) d sent s"
    using pool_reaches_inv [OF assms] by blast
  then show ?thesis using pool_invD(3,5,7) by (meson le_trans)
qed

lemma pool_done:
  assumes "pool_reaches n parse input s" "0 < n"
    and e: "callerState s = Ended x" "snd (documents input) = EOF" and p: "\<forall>doc\<in>set (fst (documents input)). \<exists>r. parse doc = Inr r"
  shows "delivered s = map parse (fst (documents input))"
proof -
  obtain d sent where inv: "pool_inv n parse (fst (documents input)) (snd (documents input)) d sent s"
    using pool_reaches_inv [OF assms(1,2)] by blast
  have "\<not> stopped s" using pool_invD(8) [OF inv] e(2) by (cases "readerState s") auto
  moreover have "Inl f \<notin> set (delivered s)" for f
  proof -
    have "x \<in> set (fst (documents input))" if "x \<in> set (take d (fst (documents input)))" for x
      using that by (rule in_set_takeD)
    then show ?thesis using pool_invD(7) [OF inv] p by force
  qed
  ultimately have "x = None"
    using caller_errors [OF assms(1)] e(1) pool_invD(9) [OF inv] by (cases x) auto
  then show ?thesis
    using ended_complete [OF inv assms(2)] e(1) \<open>\<not> stopped s\<close> by blast
qed

text \<open>
  C25. The pool neither deadlocks nor runs for ever: while the caller of \<open>next\<close> has not ended some
  step is possible, every step leaves fewer to come, and when the file ends cleanly and its documents decode, the
  caller that has ended has been given the result of every document.
\<close>

theorem pool_completes:
  assumes "pool_reaches n parse input s" "0 < n"
  shows "((\<exists>s'. pool_step n parse s s') \<or> (\<exists>x. callerState s = Ended x)) \<and>
    (\<forall>s'. pool_step n parse s s' \<longrightarrow> pool_weight s' < pool_weight s) \<and>
    ((\<exists>x. callerState s = Ended x) \<and> snd (documents input) = EOF \<and>
       (\<forall>doc\<in>set (fst (documents input)). \<exists>r. parse doc = Inr r) \<longrightarrow>
     delivered s = map parse (fst (documents input)))"
proof -
  obtain d sent where inv: "pool_inv n parse (fst (documents input)) (snd (documents input)) d sent s"
    using pool_reaches_inv [OF assms] by blast
  have "(\<exists>s'. pool_step n parse s s') \<or> (\<exists>x. callerState s = Ended x)"
  proof (cases "callerState s")
    case Checking
    then show ?thesis using pool_step.check by blast
  next
    case InNext
    then show ?thesis using not_stuck [OF inv assms(2)] by blast
  qed blast
  moreover have "\<forall>s'. pool_step n parse s s' \<longrightarrow> pool_weight s' < pool_weight s"
    using pool_step_weight pool_invD(1) [OF inv] by blast
  moreover have "callerState s = Ended x \<Longrightarrow> snd (documents input) = EOF \<Longrightarrow>
      \<forall>doc\<in>set (fst (documents input)). \<exists>r. parse doc = Inr r \<Longrightarrow> delivered s = map parse (fst (documents input))" for x
    by (rule pool_done [OF assms])
  ultimately show ?thesis by blast
qed

text \<open>A file of one empty document, read by two workers, up to its delivery and to the end.\<close>

definition one_doc :: bytes where
  "one_doc = [5, 0, 0, 0, 0]"

lemma one_doc_read: "ReadDocument one_doc = Inr ((one_doc, None), [])" "ReadDocument [] = Inr (([], Some EOF), [])"
  by code_simp+

definition ex_pool :: "reader_state \<Rightarrow> bytes \<Rightarrow> bool \<Rightarrow> bytes worker list \<Rightarrow> bool list \<Rightarrow> bool \<Rightarrow> nat \<Rightarrow> caller \<Rightarrow> bytes res list \<Rightarrow> bytes pool" where
  "ex_pool rd inp jc ws av rc cur cs dl =
     \<lparr>fileInput = inp, readerState = rd, parseJobs = [], jobsClosed = jc, workers = ws, available = av,
      resultsClosed = rc, stopped = False, fileReadErr = None, currentIndex = cur, callerState = cs, delivered = dl\<rparr>"

lemma ex_delivers: "pool_reaches 2 Inr one_doc
  (ex_pool (Reading 1) [] False [Freeing 0, Idle] [False, True] False 1 Checking [Inr one_doc])"
proof -
  let ?s = "begin_pool 2 one_doc :: bytes pool"
  have 1: "pool_reaches 2 Inr one_doc (?s\<lparr>callerState := InNext\<rparr>)"
    using pool_reaches.one_step [OF pool_reaches.begin_reading pool_step.check] by (simp add: begin_pool_def)
  have 2: "pool_reaches 2 Inr one_doc (?s\<lparr>callerState := InNext, readerState := Waiting one_doc 0, fileInput := []\<rparr>)"
    using pool_reaches.one_step [OF 1 pool_step.read_doc [where m = 0 and doc = one_doc and r = "[]"]] by (simp add: begin_pool_def one_doc_read)
  have 3: "pool_reaches 2 Inr one_doc (?s\<lparr>callerState := InNext, readerState := Sending one_doc 0, fileInput := [], available := [False, True]\<rparr>)"
    using pool_reaches.one_step [OF 2 pool_step.take_token] by (simp add: begin_pool_def numeral_2_eq_2)
  have 4: "pool_reaches 2 Inr one_doc (?s\<lparr>callerState := InNext, readerState := Reading 1, fileInput := [],
      available := [False, True], parseJobs := [(one_doc, 0)]\<rparr>)"
    using pool_reaches.one_step [OF 3 pool_step.send_job] by (simp add: begin_pool_def numeral_2_eq_2)
  have 5: "pool_reaches 2 Inr one_doc (?s\<lparr>callerState := InNext, readerState := Reading 1, fileInput := [],
      available := [False, True], workers := [Holding (Inr one_doc) 0, Idle]\<rparr>)"
    using pool_reaches.one_step [OF 4 pool_step.take_job [of 0]] by (simp add: begin_pool_def numeral_2_eq_2)
  show ?thesis
    using pool_reaches.one_step [OF 5 pool_step.deliver [where i = 0 and r = "Inr one_doc" and m = 0]] by (simp add: begin_pool_def ex_pool_def numeral_2_eq_2)
qed

theorem results_in_order_witness:
  "\<exists>k\<le>length (fst (documents one_doc)). [Inr one_doc] = map (Inr :: bytes \<Rightarrow> bytes res) (take k (fst (documents one_doc)))"
  using results_in_order [OF ex_delivers] by (simp add: ex_pool_def)

theorem pool_completes_witness:
  "\<exists>s'. pool_step 2 Inr (ex_pool (Reading 1) [] False [Freeing 0, Idle] [False, True] False 1 Checking [Inr one_doc]) s'"
  using pool_completes [OF ex_delivers] by (simp add: ex_pool_def)

subsection \<open>Errors of the file\<close>

text \<open>
  An error while the file is read may be lost: \<open>OpChan\<close> looks at \<open>err\<close> only before it calls
  \<open>next\<close>, and when the reader fails while \<open>next\<close> waits, the results are closed and \<open>next\<close>
  returns the plain end of the file. A file that is cut inside its first operation can be played as an empty one, with any number of workers.
\<close>

theorem cut_file_ends_cleanly:
  assumes "ReadDocument input = Inr ((doc, Some e), r)" "e \<noteq> EOF" "0 < n"
  shows "\<exists>s. pool_reaches n parse input s \<and> callerState s = Ended None \<and> fileReadErr s = Some e \<and> delivered s = []"
proof -
  let ?b = "begin_pool n input :: 'a pool"
  let ?s = "\<lambda>ws. ?b\<lparr>callerState := InNext, readerState := ReaderDone, fileInput := r, fileReadErr := Some e,
    stopped := True, jobsClosed := True, workers := ws\<rparr>"
  have 1: "pool_reaches n parse input (?b\<lparr>callerState := InNext\<rparr>)"
    using pool_reaches.one_step [OF pool_reaches.begin_reading pool_step.check] by (simp add: begin_pool_def)
  have 2: "pool_reaches n parse input
      (?b\<lparr>callerState := InNext, readerState := Returning, fileInput := r, fileReadErr := Some e, stopped := True\<rparr>)"
    using pool_reaches.one_step [OF 1 pool_step.read_err [where m = 0 and doc = doc and e = e and r = r]] assms(1,2)
    by (simp add: begin_pool_def)
  have 3: "pool_reaches n parse input (?s (replicate n Idle))"
    using pool_reaches.one_step [OF 2 pool_step.close_jobs] by (simp add: begin_pool_def)
  have "k \<le> n \<Longrightarrow> pool_reaches n parse input (?s (replicate k WorkerDone @ replicate (n - k) Idle))" for k
  proof (induction k)
    case 0
    then show ?case using 3 by simp
  next
    case (Suc k)
    have u: "(replicate k WorkerDone @ replicate (n - k) Idle)[k := WorkerDone] =
        replicate (Suc k) WorkerDone @ replicate (n - Suc k) (Idle :: 'a worker)"
      using Suc.prems by (intro nth_equalityI) (auto simp: nth_append nth_list_update less_Suc_eq simp del: replicate_Suc)
    show ?case
      using pool_reaches.one_step [OF Suc.IH pool_step.no_jobs [where i = k]] Suc.prems u
      by (simp add: begin_pool_def nth_append)
  qed
  from this [of n] have 4: "pool_reaches n parse input (?s (replicate n WorkerDone))" by simp
  have 5: "pool_reaches n parse input (?s (replicate n WorkerDone)\<lparr>resultsClosed := True\<rparr>)"
    using pool_reaches.one_step [OF 4 pool_step.close_results] by (simp add: begin_pool_def)
  have "pool_reaches n parse input (?s (replicate n WorkerDone)\<lparr>resultsClosed := True, callerState := Ended None\<rparr>)"
    using pool_reaches.one_step [OF 5 pool_step.next_eof] by (simp add: begin_pool_def)
  then show ?thesis by - (rule exI, rule conjI, assumption, simp add: begin_pool_def)
qed

theorem cut_file_ends_cleanly_witness:
  "\<exists>s. pool_reaches 4 (Inr :: bytes \<Rightarrow> bytes res) [9, 0, 0, 0, 1] s \<and> callerState s = Ended None \<and>
    fileReadErr s = Some UnexpectedEOF \<and> delivered s = []"
proof -
  have "ReadDocument [9, 0, 0, 0, 1] = Inr (([9, 0, 0, 0, 1, 0, 0, 0, 0], Some UnexpectedEOF), [])" by code_simp
  then show ?thesis by (rule cut_file_ends_cleanly) simp_all
qed

end
