(* ===== verification/Playfile_Correct.thy ===== *)
theory Playfile_Correct
  imports Readpool_Correct Ops_Correct
begin

text \<open>
  A recording that is written to a playback file is read back from it.
\<close>

definition int64_range :: "int \<Rightarrow> bool" where
  "int64_range i \<longleftrightarrow> - (2 ^ 63) \<le> i \<and> i < 2 ^ 63"

definition time_range :: "gotime \<Rightarrow> bool" where
  "time_range t \<longleftrightarrow> - (2 ^ 63) \<le> t div 10 ^ 9 \<and> t div 10 ^ 9 < 2 ^ 63"

definition op_fits :: "RecordedOp \<Rightarrow> bool" where
  "op_fits op \<longleftrightarrow> time_range (OpSeen op) \<and> (\<forall>t. PlayAt op = Some t \<longrightarrow> time_range t) \<and>
     (\<forall>t. PlayedAt op = Some t \<longrightarrow> time_range t) \<and> int64_range (SeenConnectionNum op) \<and>
     int64_range (PlayedConnectionNum op) \<and> int64_range (Generation op) \<and> int64_range (Order op)"

lemma sint_range: "int64_range i \<Longrightarrow> sint (word_of_int i :: int64) = i"
  by (simp add: int64_range_def sint_int64)

lemma nul_free_names: 
  "nul_free ''messagelength''" "nul_free ''requestid''" "nul_free ''responseto''" "nul_free ''opcode''"
  "nul_free ''header''" "nul_free ''body''" "nul_free ''rawop''" "nul_free ''seen''" "nul_free ''playat''"
  "nul_free ''eof''" "nul_free ''srcendpoint''" "nul_free ''dstendpoint''" "nul_free ''seenconnectionnum''"
  "nul_free ''playedconnectionnum''" "nul_free ''playedat''" "nul_free ''generation''" "nul_free ''order''"
  "nul_free ''playbackfileversion''" "nul_free ''driveropsfiltered''"
  by (simp_all add: nul_free_def raw_def)

lemma fits_header: "fits TM (TStruct headerFields) (header_value h)"
  unfolding header_value_def headerFields_def
  by (rule fits.intros) (auto simp: nul_free_names present_def intro: fits.intros)

lemma fits_rawOp: "fits TM (TStruct rawOpFields) (GStruct [(''header'', False, header_value h), (''body'', False, GBytes b)])"
  unfolding rawOpFields_def
  by (rule fits.intros) (auto simp: nul_free_names present_def intro: fits.intros fits_header)

lemma fits_time: "time_range t \<Longrightarrow> fits TM TPrecise (GPrecise t)"
  by (simp add: time_range_def fits.intros)

lemma fits_recordedOp: "op_fits op \<Longrightarrow> fits TM recordedOpType (recordedOp_value op)"
  unfolding recordedOpType_def recordedOp_value_def
  by (rule fits.intros)
    (auto simp: nul_free_names present_def op_fits_def time_ptr_def split: option.splits
      intro: fits.intros fits_rawOp fits_time)

lemma value_recordedOp_back: "op_fits op \<Longrightarrow> value_recordedOp (recordedOp_value op) = (Some (OpSeen op), op)"
  by (simp add: value_recordedOp_def recordedOp_value_def field_value_def value_header_def header_value_def
      time_ptr_def op_fits_def sint_range split: option.splits)

text \<open>The document of an operation on the wire.\<close>

definition op_document :: "RecordedOp \<Rightarrow> bytes \<Rightarrow> bool" where
  "op_document op b \<longleftrightarrow> Marshal (recordedOp_value op) = Inr b \<and> int (length b) \<le> maximumDocumentSize"

lemma Marshal_sized:
  assumes "fits TM t v" "t = TStruct gs" "Marshal v = Inr b" "int (length b) \<le> maximumDocumentSize"
  shows "sized_doc b" "Unmarshal t old b = Inr v"
proof -
  obtain fs where v: "v = GStruct fs" using assms(1) unfolding assms(2) by (cases rule: fits.cases) auto
  obtain b' where b': "b = docBytes b'"
    using assms(3) unfolding v
    by (auto simp: Marshal_def handleErr_def rbind_eq_Inr split: sum.splits fault.splits if_splits)
  show "sized_doc b"
    using assms(4) getInt32_sized [of "b' @ [0]"] by (simp add: sized_doc_def docBytes_def sized_def b')
  have "length b < 2 ^ 31" using assms(4) by (simp add: maximumDocumentSize_def)
  then show "Unmarshal t old b = Inr v"
    using Marshal_reads_back [OF assms(1), of old] assms(2,3) by auto
qed

lemma op_document_reads:
  assumes "op_fits op" "op_document op b"
  shows "sized_doc b" "parseRecordedOp b = Inr (Some (OpSeen op), op)"
  using Marshal_sized [OF fits_recordedOp [OF assms(1)] recordedOpType_def] assms
  by (auto simp: op_document_def parseRecordedOp_def value_recordedOp_back)

lemma fits_Marshals: "op_fits op \<Longrightarrow> \<exists>b. Marshal (recordedOp_value op) = Inr b"
  using Marshal_reads_back [OF fits_recordedOp] recordedOpType_def by blast

lemma documents_app: "\<forall>d\<in>set ds. sized_doc d \<Longrightarrow> documents (concat ds) = (ds, EOF)"
proof (induction ds)
  case Nil
  have "ReadDocument [] = Inr (([], Some EOF), [])" by code_simp
  then show ?case using documents_end by simp
next
  case (Cons d ds)
  then show ?case using documents_step [OF ReadDocument_sized, of d "concat ds"] by simp
qed

lemma writeOps_documents:
  "\<forall>op\<in>set ops. op_fits op \<Longrightarrow> writeOps ops written = Inr written' \<Longrightarrow>
    \<exists>bs. written' = written @ concat bs \<and> list_all2 (\<lambda>op b. Marshal (recordedOp_value op) = Inr b) ops bs"
proof (induction ops arbitrary: written)
  case Nil
  then show ?case by (intro exI [of _ "[]"]) simp
next
  case (Cons op ops)
  then obtain b where b: "Marshal (recordedOp_value op) = Inr b" "writeOps ops (written @ b) = Inr written'"
    by (auto simp: bsonToWriter_def rbind_eq_Inr)
  then obtain bs where "written' = (written @ b) @ concat bs" "list_all2 (\<lambda>op b. Marshal (recordedOp_value op) = Inr b) ops bs"
    using Cons.IH [of "written @ b"] Cons.prems(1) by auto
  then show ?case using b(1) by (intro exI [of _ "b # bs"]) simp
qed

lemma writeOps_total: "\<forall>op\<in>set ops. op_fits op \<Longrightarrow> \<exists>written'. writeOps ops written = Inr written'"
  by (induction ops arbitrary: written) (auto simp: bsonToWriter_def rbind_eq_Inr dest: fits_Marshals)

lemma fits_metadata: "fits TM metadataType (metadata_value m)"
  unfolding metadataType_def metadata_value_def
  by (rule fits.intros) (auto simp: nul_free_names present_def intro: fits.intros)

text \<open>The size of every operation of a recording, when it is written, is within the limit.\<close>

definition ops_fit :: "RecordedOp list \<Rightarrow> bool" where
  "ops_fit ops \<longleftrightarrow> (\<forall>op\<in>set ops. op_fits op \<and> (\<forall>b. Marshal (recordedOp_value op) = Inr b \<longrightarrow> int (length b) \<le> maximumDocumentSize))"

lemma list_all2_mono_set: "list_all2 P xs ys \<Longrightarrow> (\<And>x y. x \<in> set xs \<Longrightarrow> P x y \<Longrightarrow> Q x y) \<Longrightarrow> list_all2 Q xs ys"
  by (induction rule: list_all2_induct) auto

lemma metadata_length:
  assumes "Marshal (metadata_value \<lparr>PlaybackFileVersion = 1, DriverOpsFiltered = filtered\<rparr>) = Inr b"
  shows "int (length b) \<le> maximumDocumentSize"
proof -
  have "(case Marshal (metadata_value \<lparr>PlaybackFileVersion = 1, DriverOpsFiltered = f\<rparr>) of
      Inr b \<Rightarrow> int (length b) \<le> maximumDocumentSize | Inl _ \<Rightarrow> False)" for f
    by (cases f) (simp_all only:, code_simp+)
  then show ?thesis using assms by (metis sum.case(2))
qed

lemma file_reads:
  assumes "ops_fit ops" "NewPlaybackFileWriter filtered = Inr meta" "writeOps ops meta = Inr file"
  obtains rest where "NewPlaybackFileReader file = Inr (\<lparr>PlaybackFileVersion = 1, DriverOpsFiltered = filtered\<rparr>, rest)"
    "length (fst (documents rest)) = length ops" "snd (documents rest) = EOF"
    "map parseRecordedOp (fst (documents rest)) = map (\<lambda>op. Inr (Some (OpSeen op), op)) ops"
proof -
  let ?m = "metadata_value \<lparr>PlaybackFileVersion = 1, DriverOpsFiltered = filtered\<rparr>"
  have m: "Marshal ?m = Inr meta" using assms(2) by (simp add: NewPlaybackFileWriter_def bsonToWriter_def rbind_eq_Inr)
  have f: "\<forall>op\<in>set ops. op_fits op" using assms(1) by (simp add: ops_fit_def)
  obtain bs where bs: "file = meta @ concat bs" "list_all2 (\<lambda>op b. Marshal (recordedOp_value op) = Inr b) ops bs"
    using writeOps_documents [OF f assms(3)] by blast
  have d: "list_all2 (\<lambda>op b. op_fits op \<and> op_document op b) ops bs"
    by (rule list_all2_mono_set [OF bs(2)]) (use assms(1) in \<open>auto simp: ops_fit_def op_document_def\<close>)
  have s: "\<forall>b\<in>set bs. sized_doc b"
    using d op_document_reads(1) by (fastforce simp: list_all2_conv_all_nth in_set_conv_nth)
  note ms = Marshal_sized [OF fits_metadata metadataType_def m metadata_length [OF m]]
  have "NewPlaybackFileReader file = Inr (\<lparr>PlaybackFileVersion = 1, DriverOpsFiltered = filtered\<rparr>, concat bs)"
    by (simp add: NewPlaybackFileReader_def bsonFromReader_def bs(1) ReadDocument_sized [OF ms(1)] ms(2)
        metadata_value_def field_value_def)
  moreover have "map parseRecordedOp bs = map (\<lambda>op. Inr (Some (OpSeen op), op)) ops"
    using d op_document_reads(2) by (auto simp: list_all2_conv_all_nth intro!: nth_equalityI)
  moreover have "length bs = length ops" using d by (simp add: list_all2_lengthD)
  ultimately show ?thesis using that documents_app [OF s] by simp
qed

text \<open>
  C14. A recording that is written to a playback file is read back from it: the reader finds the
  metadata, and however the goroutines that decode the file interleave, a caller of \<open>next\<close>
  that has reached the end has been given exactly the operations of the recording, in order, with
  their times, end points and bytes.
\<close>

theorem playback_file_roundtrip:
  assumes "ops_fit ops" "NewPlaybackFileWriter filtered = Inr meta" "writeOps ops meta = Inr file" "0 < n"
  shows "\<exists>rest. NewPlaybackFileReader file = Inr (\<lparr>PlaybackFileVersion = 1, DriverOpsFiltered = filtered\<rparr>, rest) \<and>
    (\<forall>s x. pool_reaches n parseRecordedOp rest s \<and> callerState s = Ended x \<longrightarrow>
       delivered s = map (\<lambda>op. Inr (Some (OpSeen op), op)) ops)"
proof -
  obtain rest where r: "NewPlaybackFileReader file = Inr (\<lparr>PlaybackFileVersion = 1, DriverOpsFiltered = filtered\<rparr>, rest)"
    "snd (documents rest) = EOF"
    "map parseRecordedOp (fst (documents rest)) = map (\<lambda>op. Inr (Some (OpSeen op), op)) ops"
    by (rule file_reads [OF assms(1-3)]) blast
  have p: "\<forall>doc\<in>set (fst (documents rest)). \<exists>r. parseRecordedOp doc = Inr r"
  proof
    fix doc assume "doc \<in> set (fst (documents rest))"
    then have "parseRecordedOp doc \<in> set (map (\<lambda>op. Inr (Some (OpSeen op), op)) ops)" unfolding r(3) [symmetric] by simp
    then show "\<exists>r. parseRecordedOp doc = Inr r" by auto
  qed
  have "delivered s = map (\<lambda>op. Inr (Some (OpSeen op), op)) ops"
    if "pool_reaches n parseRecordedOp rest s" "callerState s = Ended x" for s x
    using pool_done [OF that(1) assms(4) that(2) r(2) p] r(3) by simp
  then show ?thesis using r(1) by blast
qed

definition ex_recorded :: RecordedOp where
  "ex_recorded = zeroRecordedOp\<lparr>SrcEndpoint := ''a:1'', OpSeen := 10 ^ 9, isEOF := True,
     rawOp := \<lparr>Header = zeroHeader, Body = [1, 2]\<rparr>\<rparr>"

lemma ex_recorded_fits: "ops_fit [ex_recorded]"
proof -
  have "case Marshal (recordedOp_value ex_recorded) of Inr b \<Rightarrow> int (length b) \<le> maximumDocumentSize | Inl _ \<Rightarrow> False"
    by code_simp
  then show ?thesis
    by (auto simp: ops_fit_def op_fits_def time_range_def int64_range_def ex_recorded_def zeroRecordedOp_def split: sum.splits)
qed

theorem playback_file_roundtrip_witness:
  "\<exists>meta file rest. NewPlaybackFileWriter True = Inr meta \<and> writeOps [ex_recorded] meta = Inr file \<and>
    NewPlaybackFileReader file = Inr (\<lparr>PlaybackFileVersion = 1, DriverOpsFiltered = True\<rparr>, rest) \<and>
    (\<forall>s x. pool_reaches 4 parseRecordedOp rest s \<and> callerState s = Ended x \<longrightarrow>
       delivered s = [Inr (Some (10 ^ 9), ex_recorded)])"
proof -
  obtain meta where m: "NewPlaybackFileWriter True = Inr meta"
    using Marshal_reads_back [OF fits_metadata, of _ GNil] metadataType_def
    by (fastforce simp: NewPlaybackFileWriter_def bsonToWriter_def rbind_eq_Inr)
  obtain pf where f: "writeOps [ex_recorded] meta = Inr pf"
    using writeOps_total [of "[ex_recorded]" meta] ex_recorded_fits by (auto simp: ops_fit_def)
  have "OpSeen ex_recorded = 10 ^ 9" by (simp add: ex_recorded_def)
  then show ?thesis using playback_file_roundtrip [OF ex_recorded_fits m f, of 4] m f by fastforce
qed

end
