(* ===== verification/Stats.thy ===== *)
theory Stats
  imports Replies "HOL-Library.AList" Cursors
begin

text \<open>
  Statistics about operations (\<open>stat_collector.go\<close>, \<open>monitor.go\<close>): what is kept of an operation
  and its reply, and the pairing of requests with replies that the monitor does.
\<close>

subsection \<open>Statistics of an operation\<close>

text \<open>A payload that is nil is \<open>None\<close>, as is the nil \<open>metaData\<close> of an operation.\<close>

record OpStat =
  stOrder :: int
  stOpType :: string
  stCommand :: string
  stNs :: string
  stRequestData :: "metaData option"
  stReplyData :: "metaData option"
  stNumReturned :: int
  stPlayedAt :: "gotime option"
  stPlayAt :: "gotime option"
  stPlaybackLagMicros :: int
  stConnectionNum :: int
  stLatencyMicros :: int
  stErrors :: "goval list"
  stMessage :: string
  stSeen :: gotime
  stRequestID :: int32

definition newStat :: "RecordedOp \<Rightarrow> OpMetadata \<Rightarrow> int \<Rightarrow> OpStat" where
  "newStat op m conn = \<lparr>stOrder = Order op, stOpType = mdOp m, stCommand = mdCommand m, stNs = mdNs m,
     stRequestData = None, stReplyData = None, stNumReturned = 0, stPlayedAt = None, stPlayAt = None,
     stPlaybackLagMicros = 0, stConnectionNum = conn, stLatencyMicros = 0, stErrors = [], stMessage = [],
     stSeen = OpSeen op, stRequestID = 0\<rparr>"

text \<open>An operation that is nil is no reply and no operation of a driver.\<close>

definition shouldCollectOp :: "Op option \<Rightarrow> bool \<Rightarrow> bool res" where
  "shouldCollectOp op driverOpsFiltered =
     (case op of
        None \<Rightarrow> Inr True
      | Some op \<Rightarrow>
          rbind (if driverOpsFiltered then Inr False else IsDriverOp op) (\<lambda>isDriverOp.
            Inr (\<not> Replyable op \<and> \<not> isDriverOp)))"

subsection \<open>Comparing a playback with its recording\<close>

definition times_of :: "RecordedOp \<Rightarrow> OpStat \<Rightarrow> OpStat" where
  "times_of op stat =
     (let playAt = (case PlayAt op of None \<Rightarrow> None | Some t \<Rightarrow> if t = 0 then None else Some t);
          playedAt = (case PlayedAt op of None \<Rightarrow> None | Some t \<Rightarrow> if t = 0 then None else Some t)
      in stat\<lparr>stPlayAt := playAt, stPlayedAt := playedAt,
           stPlaybackLagMicros := (case (playAt, playedAt) of
              (Some t, Some u) \<Rightarrow> go_div (timeSub u t) 1000 | _ \<Rightarrow> 0)\<rparr>)"

definition Comparative_GenerateOpStat :: "RecordedOp \<Rightarrow> Op option \<Rightarrow> Op option \<Rightarrow> string \<Rightarrow> OpStat option res" where
  "Comparative_GenerateOpStat op replayedOp rep msg =
     (case replayedOp of
        None \<Rightarrow> Inr None
      | Some replayed \<Rightarrow>
          rbind (Meta replayed) (\<lambda>opMeta.
            let stat = times_of op ((newStat op opMeta (PlayedConnectionNum op))
                  \<lparr>stRequestData := Some (mdData opMeta), stRequestID := RequestID (Header (rawOp op))\<rparr>) in
            (case rep of
               None \<Rightarrow> Inr (Some (stat\<lparr>stMessage := msg\<rparr>))
             | Some r \<Rightarrow>
                 rbind (getErrors r) (\<lambda>errs.
                 rbind (Meta r) (\<lambda>replyMeta.
                   Inr (Some (stat\<lparr>stNumReturned := getNumReturned r, stLatencyMicros := getLatencyMicros r,
                     stErrors := errs, stReplyData := Some (mdData replyMeta), stMessage := msg\<rparr>)))))))"

subsection \<open>Pairing requests with replies\<close>

record UnresolvedOpInfo =
  unStat :: OpStat
  unParsedOp :: Op
  unOp :: RecordedOp

record RegularStatGenerator =
  PairedMode :: bool
  UnresolvedOps :: "(opKey \<times> UnresolvedOpInfo) list"

text \<open>The keys are those of \<open>cursors.go\<close>: a request's own, and a reply's with the end points swapped.\<close>

definition AddUnresolvedOp :: "RecordedOp \<Rightarrow> Op \<Rightarrow> OpStat \<Rightarrow> RegularStatGenerator \<Rightarrow> RegularStatGenerator" where
  "AddUnresolvedOp op parsedOp requestStat gen =
     gen\<lparr>UnresolvedOps := AList.update (request_key op) \<lparr>unStat = requestStat, unParsedOp = parsedOp, unOp = op\<rparr> (UnresolvedOps gen)\<rparr>"

definition ResolveOp :: "RecordedOp \<Rightarrow> Op \<Rightarrow> OpStat \<Rightarrow> RegularStatGenerator \<Rightarrow> (OpStat \<times> RegularStatGenerator) res" where
  "ResolveOp recordedReply rep replyStat gen =
     (let key = reply_key recordedReply in
      case map_of (UnresolvedOps gen) key of
        None \<Rightarrow> Inr (replyStat, gen)
      | Some originalOpInfo \<Rightarrow>
          rbind (getErrors rep) (\<lambda>errs.
            let result = (if PairedMode gen then unStat originalOpInfo else replyStat) in
            Inr (result\<lparr>stErrors := errs, stNumReturned := getNumReturned rep, stReplyData := stReplyData replyStat,
                   stLatencyMicros := go_div (timeSub (stSeen replyStat) (stSeen (unStat originalOpInfo))) 1000\<rparr>,
                 gen\<lparr>UnresolvedOps := AList.delete key (UnresolvedOps gen)\<rparr>)))"

text \<open>
  \<open>GenerateOpStat\<close>: the switch is over the op code of the recorded operation, then over the type
  of the parsed one; an \<open>OP_MSG\<close> that is a getmore is of neither type that it names.
\<close>

definition addRequest :: "RecordedOp \<Rightarrow> Op \<Rightarrow> OpMetadata \<Rightarrow> OpStat \<Rightarrow> RegularStatGenerator \<Rightarrow> OpStat option \<times> RegularStatGenerator" where
  "addRequest recordedOp parsedOp m stat gen =
     (let stat = stat\<lparr>stRequestData := Some (mdData m), stRequestID := RequestID (Header (rawOp recordedOp))\<rparr>;
          gen = AddUnresolvedOp recordedOp parsedOp stat gen
      in (if PairedMode gen then None else Some stat, gen))"

definition addReplyStat :: "RecordedOp \<Rightarrow> Op \<Rightarrow> OpMetadata \<Rightarrow> OpStat \<Rightarrow> RegularStatGenerator \<Rightarrow> (OpStat option \<times> RegularStatGenerator) res" where
  "addReplyStat recordedOp parsedOp m stat gen =
     rbind (ResolveOp recordedOp parsedOp
         (stat\<lparr>stRequestID := ResponseTo (Header (rawOp recordedOp)), stReplyData := Some (mdData m)\<rparr>) gen) (\<lambda>(stat, gen).
       Inr (Some stat, gen))"

definition Regular_GenerateOpStat :: "RecordedOp \<Rightarrow> Op option \<Rightarrow> string \<Rightarrow> RegularStatGenerator \<Rightarrow>
    (OpStat option \<times> RegularStatGenerator) res" where
  "Regular_GenerateOpStat recordedOp parsedOp msg gen =
     (case parsedOp of
        None \<Rightarrow> Inr (None, gen)
      | Some parsed \<Rightarrow>
          rbind (Meta parsed) (\<lambda>m.
            let stat = (newStat recordedOp m (SeenConnectionNum recordedOp))\<lparr>stMessage := msg\<rparr>;
                code = hOpCode (Header (rawOp recordedOp))
            in if code \<in> {OpCodeQuery, OpCodeGetMore, OpCodeCommand} then Inr (addRequest recordedOp parsed m stat gen)
               else if code \<in> {OpCodeReply, OpCodeCommandReply} then
                 (case parsed of
                    OpCommandReply _ \<Rightarrow> addReplyStat recordedOp parsed m stat gen
                  | OpReply _ \<Rightarrow> addReplyStat recordedOp parsed m stat gen
                  | _ \<Rightarrow> Inr (Some (stat\<lparr>stRequestID := ResponseTo (Header (rawOp recordedOp)), stReplyData := Some (mdData m)\<rparr>), gen))
               else if code = OpCodeMessage then
                 (case parsed of
                    OpMsg _ \<Rightarrow> Inr (addRequest recordedOp parsed m stat gen)
                  | OpMsgReply _ \<Rightarrow> addReplyStat recordedOp parsed m stat gen
                  | _ \<Rightarrow> Inr (Some stat, gen))
               else Inr (Some (stat\<lparr>stRequestData := Some (mdData m)\<rparr>), gen)))"

text \<open>\<open>Finalize\<close> sends what is unresolved; Go ranges over the map in any order, here it is a list.\<close>

definition Regular_Finalize :: "RegularStatGenerator \<Rightarrow> OpStat list \<times> RegularStatGenerator" where
  "Regular_Finalize gen =
     (if PairedMode gen then map (\<lambda>(_, u). unStat u) (UnresolvedOps gen) else [], gen\<lparr>UnresolvedOps := []\<rparr>)"

subsection \<open>The collector\<close>

text \<open>
  The stream of statistics is a list of what has been sent, \<open>None\<close> as long as the channel has
  not been made; one goroutine records what is sent, in order.
\<close>

datatype statGenerator = ComparativeStatGenerator | RegularGenerator RegularStatGenerator

record StatCollector =
  statNoop :: bool
  statGen :: statGenerator
  statStream :: "OpStat list option"

definition newStatCollector :: "string \<Rightarrow> bool \<Rightarrow> bool \<Rightarrow> StatCollector" where
  "newStatCollector collectFormat isPairedMode isComparative =
     (if collectFormat = ''none'' then \<lparr>statNoop = True, statGen = ComparativeStatGenerator, statStream = None\<rparr>
      else \<lparr>statNoop = False,
        statGen = (if isComparative then ComparativeStatGenerator
          else RegularGenerator \<lparr>PairedMode = isPairedMode, UnresolvedOps = []\<rparr>), statStream = None\<rparr>)"

definition GenerateOpStat :: "RecordedOp \<Rightarrow> Op option \<Rightarrow> Op option \<Rightarrow> string \<Rightarrow> statGenerator \<Rightarrow> (OpStat option \<times> statGenerator) res" where
  "GenerateOpStat op replayedOp rep msg g =
     (case g of
        ComparativeStatGenerator \<Rightarrow> rbind (Comparative_GenerateOpStat op replayedOp rep msg) (\<lambda>s. Inr (s, g))
      | RegularGenerator gen \<Rightarrow> rbind (Regular_GenerateOpStat op replayedOp msg gen) (\<lambda>(s, gen). Inr (s, RegularGenerator gen)))"

definition stream_of :: "StatCollector \<Rightarrow> OpStat list" where
  "stream_of statColl = (case statStream statColl of None \<Rightarrow> [] | Some sent \<Rightarrow> sent)"

definition Collect :: "RecordedOp \<Rightarrow> Op option \<Rightarrow> Op option \<Rightarrow> string \<Rightarrow> StatCollector \<Rightarrow> StatCollector res" where
  "Collect op replayedOp rep msg statColl =
     (if statNoop statColl then Inr statColl
      else
        rbind (GenerateOpStat op replayedOp rep msg (statGen statColl)) (\<lambda>(stat, g).
          Inr (statColl\<lparr>statGen := g,
            statStream := Some (stream_of statColl @ (case stat of None \<Rightarrow> [] | Some s \<Rightarrow> [s]))\<rparr>)))"

text \<open>\<open>Close\<close>: what is recorded in the end. A collector that was never used has no channel to finish.\<close>

definition StatCollector_Close :: "StatCollector \<Rightarrow> OpStat list" where
  "StatCollector_Close statColl =
     (case statStream statColl of
        None \<Rightarrow> []
      | Some sent \<Rightarrow>
          (case statGen statColl of
             ComparativeStatGenerator \<Rightarrow> sent
           | RegularGenerator gen \<Rightarrow> sent @ fst (Regular_Finalize gen)))"

text \<open>The loop of the monitor: an operation that does not parse ends it (the collector is closed all the same).\<close>

fun monitorLoop :: "(bytes \<Rightarrow> bytes res) \<Rightarrow> RecordedOp list \<Rightarrow> StatCollector \<Rightarrow> (err option \<times> StatCollector) res" where
  "monitorLoop decompress [] statColl = Inr (None, statColl)"
| "monitorLoop decompress (op # ops) statColl =
     (case Parse decompress (rawOp op) of
        Inl (Error e) \<Rightarrow> Inr (Some e, statColl)
      | Inl fault \<Rightarrow> Inl fault
      | Inr (parsedOp, rop) \<Rightarrow>
          rbind (Collect (op\<lparr>rawOp := rop\<rparr>) parsedOp None [] statColl) (monitorLoop decompress ops))"

end
