(* ===== verification/Stats_Correct.thy ===== *)
theory Stats_Correct
  imports Stats "HOL-Library.Multiset"
begin

text \<open>
  The monitor in paired mode loses no operation: what it reports in the end is one line for
  each operation, except that a reply whose request is known shares the line of the request.
\<close>

definition is_request :: "RecordedOp \<Rightarrow> Op \<Rightarrow> bool" where
  "is_request op p \<longleftrightarrow>
     hOpCode (Header (rawOp op)) \<in> {OpCodeQuery, OpCodeGetMore, OpCodeCommand} \<or>
     hOpCode (Header (rawOp op)) = OpCodeMessage \<and> (case p of OpMsg _ \<Rightarrow> True | _ \<Rightarrow> False)"

definition is_reply :: "RecordedOp \<Rightarrow> Op \<Rightarrow> bool" where
  "is_reply op p \<longleftrightarrow>
     hOpCode (Header (rawOp op)) \<in> {OpCodeReply, OpCodeCommandReply} \<and> (case p of OpReply _ \<Rightarrow> True | OpCommandReply _ \<Rightarrow> True | _ \<Rightarrow> False) \<or>
     hOpCode (Header (rawOp op)) = OpCodeMessage \<and> (case p of OpMsgReply _ \<Rightarrow> True | _ \<Rightarrow> False)"

text \<open>The numbers of the replies that find their request, and whether a key is reused too early.\<close>

fun matched :: "opKey set \<Rightarrow> (RecordedOp \<times> Op) list \<Rightarrow> int list" where
  "matched pending [] = []"
| "matched pending ((op, p) # ops) =
     (if is_request op p then matched (insert (request_key op) pending) ops
      else if is_reply op p \<and> reply_key op \<in> pending then Order op # matched (pending - {reply_key op}) ops
      else matched pending ops)"

fun no_reuse :: "opKey set \<Rightarrow> (RecordedOp \<times> Op) list \<Rightarrow> bool" where
  "no_reuse pending [] = True"
| "no_reuse pending ((op, p) # ops) =
     (if is_request op p then request_key op \<notin> pending \<and> no_reuse (insert (request_key op) pending) ops
      else if is_reply op p then no_reuse (pending - {reply_key op}) ops
      else no_reuse pending ops)"

text \<open>The operations of a recording that have a type, parsed.\<close>

fun parsed_ops :: "(bytes \<Rightarrow> bytes res) \<Rightarrow> RecordedOp list \<Rightarrow> (RecordedOp \<times> Op) list" where
  "parsed_ops decompress [] = []"
| "parsed_ops decompress (op # ops) =
     (case Parse decompress (rawOp op) of
        Inr (Some p, rop) \<Rightarrow> (op\<lparr>rawOp := rop\<rparr>, p) # parsed_ops decompress ops
      | _ \<Rightarrow> parsed_ops decompress ops)"

definition orders :: "RegularStatGenerator \<Rightarrow> int multiset" where
  "orders gen = mset (map (\<lambda>(_, u). stOrder (unStat u)) (UnresolvedOps gen))"

definition keys_of :: "RegularStatGenerator \<Rightarrow> opKey set" where
  "keys_of gen = fst ` set (UnresolvedOps gen)"

definition emitted :: "OpStat option \<Rightarrow> int multiset" where
  "emitted s = (case s of None \<Rightarrow> {#} | Some s \<Rightarrow> {#stOrder s#})"

lemma update_new: "k \<notin> fst ` set xs \<Longrightarrow> AList.update k v xs = xs @ [(k, v)]"
  by (induction xs) auto

lemma delete_one: "distinct (map fst xs) \<Longrightarrow> map_of xs k = Some v \<Longrightarrow> mset xs = add_mset (k, v) (mset (AList.delete k xs))"
proof (induction xs)
  case (Cons a xs)
  show ?case
  proof (cases "fst a = k")
    case True
    then have "k \<notin> fst ` set xs" "a = (k, v)" using Cons.prems by (auto simp: prod_eq_iff)
    then have "AList.delete k xs = xs" by (force simp: AList.delete_eq filter_id_conv)
    then show ?thesis using \<open>a = (k, v)\<close> by (simp add: AList.delete_eq)
  next
    case False
    then show ?thesis using Cons by (auto simp: AList.delete_eq)
  qed
qed simp

lemma keys_delete: "fst ` set (AList.delete k xs) = fst ` set xs - {k}"
  by (force simp: AList.delete_eq)

lemma newStat_order: "stOrder (newStat op m conn) = Order op"
  by (simp add: newStat_def)

definition gen_ok :: "RegularStatGenerator \<Rightarrow> bool" where
  "gen_ok gen \<longleftrightarrow> PairedMode gen \<and> distinct (map fst (UnresolvedOps gen))"

lemma request_step:
  assumes "gen_ok gen" "request_key op \<notin> keys_of gen" "addRequest op p m stat gen = (s, gen')"
  shows "gen_ok gen'" "keys_of gen' = insert (request_key op) (keys_of gen)"
    "s = None" "orders gen' = add_mset (stOrder stat) (orders gen)"
  using assms by (auto simp: addRequest_def AddUnresolvedOp_def Let_def gen_ok_def keys_of_def orders_def update_new)

lemma reply_step:
  assumes "gen_ok gen" "addReplyStat op p m stat gen = Inr (s, gen')"
  shows "gen_ok gen'" "keys_of gen' = keys_of gen - {reply_key op}"
    "if reply_key op \<in> keys_of gen then emitted s + orders gen' = orders gen
     else emitted s = {#stOrder stat#} \<and> orders gen' = orders gen"
proof -
  let ?k = "reply_key op"
  have "gen_ok gen' \<and> keys_of gen' = keys_of gen - {?k} \<and>
    (if ?k \<in> keys_of gen then emitted s + orders gen' = orders gen
     else emitted s = {#stOrder stat#} \<and> orders gen' = orders gen)"
  proof (cases "map_of (UnresolvedOps gen) ?k")
    case None
    then have k: "?k \<notin> keys_of gen" by (simp add: map_of_eq_None_iff keys_of_def)
    then show ?thesis using assms None by (auto simp: addReplyStat_def ResolveOp_def Let_def emitted_def)
  next
    case (Some u)
    then have k: "?k \<in> keys_of gen" by (metis map_of_SomeD keys_of_def fst_conv imageI)
    obtain errs where e: "getErrors p = Inr errs" using assms(2) Some by (auto simp: addReplyStat_def ResolveOp_def Let_def rbind_eq_Inr)
    have g: "gen' = gen\<lparr>UnresolvedOps := AList.delete ?k (UnresolvedOps gen)\<rparr>" "emitted s = {#stOrder (unStat u)#}"
      using assms Some e by (auto simp: addReplyStat_def ResolveOp_def Let_def emitted_def gen_ok_def)
    have "mset (UnresolvedOps gen) = add_mset (?k, u) (mset (AList.delete ?k (UnresolvedOps gen)))"
      by (rule delete_one [OF _ Some]) (use assms(1) in \<open>simp add: gen_ok_def\<close>)
    then have "orders gen = add_mset (stOrder (unStat u)) (orders gen')" by (simp add: orders_def g(1))
    then show ?thesis
      using k g assms(1) by (auto simp: gen_ok_def keys_of_def distinct_delete keys_delete)
  qed
  then show "gen_ok gen'" "keys_of gen' = keys_of gen - {?k}"
    "if ?k \<in> keys_of gen then emitted s + orders gen' = orders gen
     else emitted s = {#stOrder stat#} \<and> orders gen' = orders gen" by blast+
qed

text \<open>One operation.\<close>

lemma codes_differ: "OpCodeReply \<noteq> OpCodeMessage" "OpCodeCommandReply \<noteq> OpCodeMessage"
  by (simp_all add: OpCodeReply_def OpCodeMessage_def OpCodeCommandReply_def)

lemma generate_step:
  assumes "gen_ok gen" "Regular_GenerateOpStat op (Some p) msg gen = Inr (s, gen')"
    and "is_request op p \<Longrightarrow> request_key op \<notin> keys_of gen"
  shows "gen_ok gen'"
    "keys_of gen' = (if is_request op p then insert (request_key op) (keys_of gen)
       else if is_reply op p then keys_of gen - {reply_key op} else keys_of gen)"
    "emitted s + orders gen' + (if \<not> is_request op p \<and> is_reply op p \<and> reply_key op \<in> keys_of gen then {#Order op#} else {#}) =
      add_mset (Order op) (orders gen)"
proof -
  obtain m where m: "Meta p = Inr m" using assms(2) by (auto simp: Regular_GenerateOpStat_def rbind_eq_Inr)
  let ?stat = "(newStat op m (SeenConnectionNum op))\<lparr>stMessage := msg\<rparr>"
  have o: "stOrder ?stat = Order op" by (simp add: newStat_order)
  consider (req) "is_request op p" "addRequest op p m ?stat gen = (s, gen')"
    | (rep) "\<not> is_request op p" "is_reply op p" "addReplyStat op p m ?stat gen = Inr (s, gen')"
    | (other) s' where "\<not> is_request op p" "\<not> is_reply op p" "s = Some s'" "stOrder s' = Order op" "gen' = gen"
    using assms(2) m o
    by (cases p) (auto simp: Regular_GenerateOpStat_def Let_def is_request_def is_reply_def newStat_order codes_differ simp del: Meta.simps split: if_splits)
  then have "gen_ok gen' \<and> keys_of gen' = (if is_request op p then insert (request_key op) (keys_of gen)
       else if is_reply op p then keys_of gen - {reply_key op} else keys_of gen) \<and>
    emitted s + orders gen' + (if \<not> is_request op p \<and> is_reply op p \<and> reply_key op \<in> keys_of gen then {#Order op#} else {#}) =
      add_mset (Order op) (orders gen)"
  proof cases
    case req
    then show ?thesis using request_step [OF assms(1) assms(3) [OF req(1)] req(2)] o by (simp add: emitted_def)
  next
    case rep
    then show ?thesis using reply_step [OF assms(1) rep(3)] o by (auto split: if_splits)
  next
    case other
    then show ?thesis using assms(1) by (simp add: emitted_def)
  qed
  then show "gen_ok gen'"
    "keys_of gen' = (if is_request op p then insert (request_key op) (keys_of gen)
       else if is_reply op p then keys_of gen - {reply_key op} else keys_of gen)"
    "emitted s + orders gen' + (if \<not> is_request op p \<and> is_reply op p \<and> reply_key op \<in> keys_of gen then {#Order op#} else {#}) =
      add_mset (Order op) (orders gen)" by blast+
qed

definition paired :: "StatCollector \<Rightarrow> RegularStatGenerator \<Rightarrow> bool" where
  "paired c gen \<longleftrightarrow> \<not> statNoop c \<and> statGen c = RegularGenerator gen \<and> gen_ok gen \<and>
     (statStream c = None \<longrightarrow> UnresolvedOps gen = [])"

definition reported :: "StatCollector \<Rightarrow> RegularStatGenerator \<Rightarrow> int multiset" where
  "reported c gen = mset (map stOrder (stream_of c)) + orders gen"

lemma close_reported: "paired c gen \<Longrightarrow> mset (map stOrder (StatCollector_Close c)) = reported c gen"
  by (auto simp: StatCollector_Close_def reported_def stream_of_def Regular_Finalize_def orders_def paired_def gen_ok_def
      multiset.map_comp o_def case_prod_unfold split: option.splits)

lemma monitor_conserves:
  "monitorLoop decompress ops c = Inr (None, c') \<Longrightarrow> paired c gen \<Longrightarrow> no_reuse (keys_of gen) (parsed_ops decompress ops) \<Longrightarrow>
    \<exists>gen'. paired c' gen' \<and>
      reported c' gen' + mset (matched (keys_of gen) (parsed_ops decompress ops)) =
      reported c gen + mset (map (\<lambda>(op, p). Order op) (parsed_ops decompress ops))"
proof (induction ops arbitrary: c gen)
  case Nil
  then show ?case by auto
next
  case (Cons op ops)
  obtain parsed rop where P: "Parse decompress (rawOp op) = Inr (parsed, rop)"
    using Cons.prems(1) by (auto split: sum.splits fault.splits)
  obtain c1 where c1: "Collect (op\<lparr>rawOp := rop\<rparr>) parsed None [] c = Inr c1" "monitorLoop decompress ops c1 = Inr (None, c')"
    using Cons.prems(1) P by (auto simp: rbind_eq_Inr)
  obtain s gen1 where s: "Regular_GenerateOpStat (op\<lparr>rawOp := rop\<rparr>) parsed [] gen = Inr (s, gen1)"
    "c1 = c\<lparr>statGen := RegularGenerator gen1, statStream := Some (stream_of c @ (case s of None \<Rightarrow> [] | Some s \<Rightarrow> [s]))\<rparr>"
    using c1(1) Cons.prems(2) by (auto simp: Collect_def paired_def GenerateOpStat_def rbind_eq_Inr)
  have st: "mset (map stOrder (stream_of c1)) = mset (map stOrder (stream_of c)) + emitted s"
    by (auto simp: s(2) stream_of_def emitted_def split: option.splits)
  show ?case
  proof (cases parsed)
    case None
    then have "s = None" "gen1 = gen" using s(1) by (simp_all add: Regular_GenerateOpStat_def)
    moreover have "paired c1 gen" using Cons.prems(2) s(2) calculation by (simp add: paired_def)
    ultimately show ?thesis
      using Cons.IH [OF c1(2), of gen] Cons.prems(3) P None st by (simp add: reported_def emitted_def)
  next
    case (Some p)
    let ?op = "op\<lparr>rawOp := rop\<rparr>"
    have ok: "gen_ok gen" using Cons.prems(2) by (simp add: paired_def)
    have nr: "is_request ?op p \<Longrightarrow> request_key ?op \<notin> keys_of gen" using Cons.prems(3) P Some by simp
    note g = generate_step [OF ok s(1) [unfolded Some] nr]
    have p1: "paired c1 gen1" using Cons.prems(2) g(1) s(2) by (simp add: paired_def)
    have n1: "no_reuse (keys_of gen1) (parsed_ops decompress ops)"
      using Cons.prems(3) P Some g(2) by (simp split: if_splits)
    obtain gen' where gen': "paired c' gen'"
      "reported c' gen' + mset (matched (keys_of gen1) (parsed_ops decompress ops)) =
        reported c1 gen1 + mset (map (\<lambda>(op, p). Order op) (parsed_ops decompress ops))"
      using Cons.IH [OF c1(2) p1 n1] by blast
    have r1: "reported c1 gen1 + (if \<not> is_request ?op p \<and> is_reply ?op p \<and> reply_key ?op \<in> keys_of gen then {#Order ?op#} else {#}) =
        add_mset (Order ?op) (reported c gen)"
      using g(3) st by (simp add: reported_def ac_simps)
    have mt: "mset (matched (keys_of gen) (parsed_ops decompress (op # ops))) =
        mset (matched (keys_of gen1) (parsed_ops decompress ops)) +
        (if \<not> is_request ?op p \<and> is_reply ?op p \<and> reply_key ?op \<in> keys_of gen then {#Order ?op#} else {#})"
      using P Some g(2) by (auto simp: insert_absorb)
    show ?thesis
      using gen' r1 P Some unfolding mt by (intro exI [of _ gen']) (auto simp: ac_simps split: if_splits)
  qed
qed


text \<open>A getmore, its reply, and a getmore that is never answered.\<close>

definition mon_op :: "string \<Rightarrow> string \<Rightarrow> int32 \<Rightarrow> int32 \<Rightarrow> OpCode \<Rightarrow> int \<Rightarrow> bytes \<Rightarrow> RecordedOp" where
  "mon_op src dst req resp code n b =
     zeroRecordedOp\<lparr>SrcEndpoint := src, DstEndpoint := dst, Order := n, OpSeen := n * 1000,
       rawOp := \<lparr>Header = \<lparr>MessageLength = 36, RequestID = req, ResponseTo = resp, hOpCode = code\<rparr>,
         Body = replicate 16 0 @ b\<rparr>\<rparr>"

definition mon_ops :: "RecordedOp list" where
  "mon_ops = [mon_op ''c'' ''s'' 7 0 OpCodeGetMore 0 ([0, 0, 0, 0, 97, 0, 0, 0, 0, 0] @ [5, 0, 0, 0, 0, 0, 0, 0]),
     mon_op ''s'' ''c'' 1 7 OpCodeReply 1 (replicate 20 0),
     mon_op ''c'' ''s'' 8 0 OpCodeGetMore 2 ([0, 0, 0, 0, 97, 0, 0, 0, 0, 0] @ [5, 0, 0, 0, 0, 0, 0, 0])]"

lemma mon_ops_facts: "no_reuse {} (parsed_ops Inr mon_ops)" "matched {} (parsed_ops Inr mon_ops) = [1]"
  "map (\<lambda>(op, p). Order op) (parsed_ops Inr mon_ops) = [0, 1, 2]"
  by code_simp+


end
