(* ===== verification/Filtering.thy ===== *)
theory Filtering
  imports Playfile Ops
begin

text \<open>
  The subcommand that filters a playback file and splits it by connections (\<open>filter.go\<close>).
\<close>

subsection \<open>Which operations are kept\<close>

record skipConfig =
  firstOpTime :: "gotime option"
  lastOpTime :: "gotime option"
  truncateDuration :: "duration option"
  removeDriverOps :: bool
  readOpsOnly :: bool
  writeOpsOnly :: bool

definition newSkipConfig :: "bool \<Rightarrow> gotime \<Rightarrow> duration \<Rightarrow> bool \<Rightarrow> bool \<Rightarrow> skipConfig" where
  "newSkipConfig removeDriver startTime truncateAfter writeOnly readOnly =
     \<lparr>firstOpTime = (if startTime = 0 then None else Some startTime), lastOpTime = None,
      truncateDuration = (if truncateAfter = 0 then None else Some truncateAfter),
      removeDriverOps = removeDriver \<or> writeOnly \<or> readOnly, readOpsOnly = readOnly, writeOpsOnly = writeOnly\<rparr>"

text \<open>
  The tests by kind parse the operation, which replaces a compressed one by its original in
  place; an operation of an unknown code is nil, and of no kind.
\<close>

definition test_kind :: "(bytes \<Rightarrow> bytes res) \<Rightarrow> (Op \<Rightarrow> bool res) \<Rightarrow> RawOp \<Rightarrow> (bool \<times> RawOp) res" where
  "test_kind decompress kind rop =
     rbind (Parse decompress rop) (\<lambda>(parsedOp, rop).
     rbind (case parsedOp of None \<Rightarrow> Inr False | Some p \<Rightarrow> kind p) (\<lambda>b. Inr (b, rop)))"

definition skipByKind :: "(bytes \<Rightarrow> bytes res) \<Rightarrow> skipConfig \<Rightarrow> RawOp \<Rightarrow> (bool \<times> RawOp) res" where
  "skipByKind decompress sc rop =
     rbind (if removeDriverOps sc then test_kind decompress IsDriverOp rop else Inr (False, rop)) (\<lambda>(driver, rop).
       if driver then Inr (True, rop)
       else if readOpsOnly sc then rbind (test_kind decompress IsReadOp rop) (\<lambda>(b, rop). Inr (\<not> b, rop))
       else if writeOpsOnly sc then rbind (test_kind decompress IsWriteOp rop) (\<lambda>(b, rop). Inr (\<not> b, rop))
       else Inr (False, rop))"

definition skipByTime :: "skipConfig \<Rightarrow> gotime \<Rightarrow> bool \<times> skipConfig" where
  "skipByTime sc seen =
     (if (case firstOpTime sc of None \<Rightarrow> False | Some t \<Rightarrow> seen < t) then (True, sc)
      else
        let sc = (case (lastOpTime sc, truncateDuration sc) of
                    (None, Some d) \<Rightarrow> sc\<lparr>lastOpTime := Some (seen + d)\<rparr> | _ \<Rightarrow> sc)
        in ((case lastOpTime sc of None \<Rightarrow> False | Some t \<Rightarrow> t < seen), sc))"

definition shouldFilterOp :: "(bytes \<Rightarrow> bytes res) \<Rightarrow> RecordedOp \<Rightarrow> skipConfig \<Rightarrow> (bool \<times> RecordedOp \<times> skipConfig) res" where
  "shouldFilterOp decompress op sc =
     (case skipByTime sc (OpSeen op) of
        (True, sc) \<Rightarrow> Inr (True, op, sc)
      | (False, sc) \<Rightarrow>
          rbind (skipByKind decompress sc (rawOp op)) (\<lambda>(skip, rop). Inr (skip, op\<lparr>rawOp := rop\<rparr>, sc)))"

subsection \<open>Writing the files\<close>

text \<open>
  The operations that are sent to each writer. The number of the file is a remainder of Go, so
  that a negative connection number would be an index out of range.
\<close>

fun filterLoop :: "(bytes \<Rightarrow> bytes res) \<Rightarrow> RecordedOp list \<Rightarrow> skipConfig \<Rightarrow> RecordedOp list list \<Rightarrow> RecordedOp list list res" where
  "filterLoop decompress [] sc writers = Inr writers"
| "filterLoop decompress (op # ops) sc writers =
     rbind (shouldFilterOp decompress op sc) (\<lambda>(shouldSkip, op, sc).
       if shouldSkip then filterLoop decompress ops sc writers
       else if length writers = 0 then Inl (Panic ''runtime error: integer divide by zero'')
       else
         let fileNum = go_rem (SeenConnectionNum op) (int (length writers)) in
         if fileNum < 0 then Inl (Panic ''runtime error: index out of range'')
         else filterLoop decompress ops sc (writers[nat fileNum := writers ! nat fileNum @ [op]]))"

text \<open>
  A writer gets the operations of its channel and writes them; a file that gets none is removed.
  \<open>diskFails\<close> says whether the operating system refuses a write (or the removal) of a file.
\<close>

datatype outFile = Written bytes | Removed

definition newParallelPlaybackWriter :: "bool \<Rightarrow> bytes \<Rightarrow> RecordedOp list \<Rightarrow> outFile res" where
  "newParallelPlaybackWriter diskFails header ops =
     (if diskFails then Inl (Error (Errorf ''write failed'' []))
      else if ops = [] then Inr Removed
      else rbind (writeOps ops header) (\<lambda>b. Inr (Written b)))"

fun collectWriters :: "outFile res list \<Rightarrow> outFile list res" where
  "collectWriters [] = Inr []"
| "collectWriters (Inr f # rs) = rbind (collectWriters rs) (\<lambda>fs. Inr (f # fs))"
| "collectWriters (Inl (Error e) # rs) = Inl Hang"
| "collectWriters (Inl fault # rs) = Inl fault"

text \<open>
  \<open>Filter\<close>. The channel of the writers' errors has no buffer and is read only after all writers
  are done: a writer with an error waits for ever to send it. (The loop may then wait too, for
  the full channel of that writer.) An error of \<open>shouldFilterOp\<close> is returned at once.
\<close>

definition Filter :: "(bytes \<Rightarrow> bytes res) \<Rightarrow> (nat \<Rightarrow> bool) \<Rightarrow> bytes \<Rightarrow> nat \<Rightarrow> RecordedOp list \<Rightarrow> skipConfig \<Rightarrow> outFile list res" where
  "Filter decompress diskFails header n ops sc =
     rbind (filterLoop decompress ops sc (replicate n [])) (\<lambda>writers.
       collectWriters (map (\<lambda>(i, ops). newParallelPlaybackWriter (diskFails i) header ops) (enumerate 0 writers)))"

subsection \<open>The parameters\<close>

record FilterCommand =
  OutFile :: string
  SplitFilePrefix :: string
  StartTime :: string
  fDuration :: string
  Split :: int
  ReadOpsOnly :: bool
  WriteOpsOnly :: bool
  startTime :: gotime
  fduration :: duration

text \<open>\<open>parseTime\<close> and \<open>parseDuration\<close> are \<open>time.Parse\<close> of RFC 3339 and \<open>time.ParseDuration\<close>.\<close>

definition Filter_ValidateParams :: "(string \<Rightarrow> gotime option) \<Rightarrow> (string \<Rightarrow> duration option) \<Rightarrow> FilterCommand \<Rightarrow> (err + FilterCommand)" where
  "Filter_ValidateParams parseTime parseDuration f =
     (if Split f < 1 then Inl (Errorf ''must be a positive number of files to split into'' [])
      else if Split f > 1 \<and> SplitFilePrefix f = [] then Inl (Errorf ''must specify a filename prefix when splitting traffic'' [])
      else if Split f > 1 \<and> OutFile f \<noteq> [] then Inl (Errorf ''must not specify an output file name when splitting trafficinstead only specify a file name prefix'' [])
      else if Split f = 1 \<and> OutFile f = [] then Inl (Errorf ''must specify an output file'' [])
      else if WriteOpsOnly f \<and> ReadOpsOnly f then Inl (Errorf ''can only specify writeOpsOnly OR readOpsOnly, not both'' [])
      else
        (case (if StartTime f = [] then Some (FilterCommand.startTime f) else parseTime (StartTime f)) of
           None \<Rightarrow> Inl (Errorf ''error parsing start time argument: %v'' [])
         | Some t \<Rightarrow>
             (case (if fDuration f = [] then Some (fduration f) else parseDuration (fDuration f)) of
                None \<Rightarrow> Inl (Errorf ''error parsing duration argument: %v'' [])
              | Some d \<Rightarrow> Inr (f\<lparr>startTime := t, fduration := d\<rparr>))))"

end
