(* ===== verification/Filtering_Correct.thy ===== *)
theory Filtering_Correct
  imports Filtering Playfile_Correct
begin

text \<open>
  A filtered recording holds the operations of its time window, and splitting it by connections
  neither loses nor reorders any of them.
\<close>

fun keptOps :: "(bytes \<Rightarrow> bytes res) \<Rightarrow> RecordedOp list \<Rightarrow> skipConfig \<Rightarrow> RecordedOp list res" where
  "keptOps decompress [] sc = Inr []"
| "keptOps decompress (op # ops) sc =
     rbind (shouldFilterOp decompress op sc) (\<lambda>(skip, op, sc).
     rbind (keptOps decompress ops sc) (\<lambda>kept. Inr (if skip then kept else op # kept)))"

definition conn_part :: "nat \<Rightarrow> nat \<Rightarrow> RecordedOp list \<Rightarrow> RecordedOp list" where
  "conn_part n k ops = filter (\<lambda>op. nat (SeenConnectionNum op) mod n = k) ops"

lemma shouldFilterOp_conn:
  "shouldFilterOp decompress op sc = Inr (skip, op', sc') \<Longrightarrow> SeenConnectionNum op' = SeenConnectionNum op"
  by (auto simp: shouldFilterOp_def rbind_eq_Inr split: prod.splits bool.splits)

lemma go_rem_index: "0 \<le> c \<Longrightarrow> 0 < n \<Longrightarrow> go_rem c (int n) = int (nat c mod n)"
  by (cases "c = 0") (auto simp: go_rem_def go_div_def sgn_if zmod_int minus_mult_div_eq_mod)

lemma filterLoop_split:
  assumes "filterLoop decompress ops sc ws = Inr ws'" "\<forall>op\<in>set ops. 0 \<le> SeenConnectionNum op" "ws \<noteq> []"
  shows "\<exists>kept. keptOps decompress ops sc = Inr kept \<and> length ws' = length ws \<and>
    (\<forall>k<length ws. ws' ! k = ws ! k @ conn_part (length ws) k kept)"
  using assms
proof (induction ops arbitrary: sc ws)
  case Nil
  then show ?case by (simp add: conn_part_def)
next
  case (Cons op ops)
  obtain skip op' sc' where s: "shouldFilterOp decompress op sc = Inr (skip, op', sc')"
    using Cons.prems(1) by (auto simp: rbind_eq_Inr)
  have c: "0 \<le> SeenConnectionNum op'" using shouldFilterOp_conn [OF s] Cons.prems(2) by simp
  show ?case
  proof (cases skip)
    case True
    then show ?thesis using Cons.IH [of sc' ws] Cons.prems s by (auto simp: rbind_eq_Inr)
  next
    case False
    let ?k = "nat (SeenConnectionNum op') mod length ws"
    have l: "?k < length ws" using Cons.prems(3) by simp
    have f: "filterLoop decompress ops sc' (ws[?k := ws ! ?k @ [op']]) = Inr ws'"
      using Cons.prems(1,3) s False go_rem_index [OF c, of "length ws"] by (simp add: Let_def)
    obtain kept where kept: "keptOps decompress ops sc' = Inr kept" "length ws' = length ws"
      "\<forall>k<length ws. ws' ! k = ws[?k := ws ! ?k @ [op']] ! k @ conn_part (length ws) k kept"
      using Cons.IH [OF f] Cons.prems(2,3) by auto
    have "ws' ! k = ws ! k @ conn_part (length ws) k (op' # kept)" if k: "k < length ws" for k
      using kept(3) k l by (cases "k = ?k") (auto simp: conn_part_def)
    then show ?thesis using kept s False by (intro exI [of _ "op' # kept"]) simp
  qed
qed

lemma collectWriters_Inr: "collectWriters rs = Inr fs \<longleftrightarrow> rs = map Inr fs"
proof (induction rs arbitrary: fs)
  case (Cons r rs)
  show ?case
  proof (cases r)
    case (Inl f)
    then show ?thesis by (cases f; cases fs) auto
  next
    case (Inr f)
    then show ?thesis using Cons by (cases fs) (auto simp: rbind_eq_Inr)
  qed
qed auto

lemma Filter_split:
  assumes "Filter decompress diskFails header n ops sc = Inr files" "0 < n" "\<forall>op\<in>set ops. 0 \<le> SeenConnectionNum op"
  shows "\<exists>kept. keptOps decompress ops sc = Inr kept \<and> length files = n \<and>
    (\<forall>k<n. if conn_part n k kept = [] then files ! k = Removed
       else \<exists>b. writeOps (conn_part n k kept) header = Inr b \<and> files ! k = Written b)"
proof -
  obtain ws where ws: "filterLoop decompress ops sc (replicate n []) = Inr ws"
    "map (\<lambda>(i, ops). newParallelPlaybackWriter (diskFails i) header ops) (enumerate 0 ws) = map Inr files"
    using assms(1) by (auto simp: Filter_def rbind_eq_Inr collectWriters_Inr)
  obtain kept where kept: "keptOps decompress ops sc = Inr kept" "length ws = n" "\<forall>k<n. ws ! k = conn_part n k kept"
    using filterLoop_split [OF ws(1) assms(3)] assms(2) by auto
  have l: "length files = n" using arg_cong [OF ws(2), of length] kept(2) by simp
  have w: "newParallelPlaybackWriter (diskFails k) header (ws ! k) = Inr (files ! k)" if k: "k < n" for k
    using arg_cong [OF ws(2), of "\<lambda>xs. xs ! k"] k l kept(2) by (simp add: nth_enumerate_eq)
  have "if conn_part n k kept = [] then files ! k = Removed
       else \<exists>b. writeOps (conn_part n k kept) header = Inr b \<and> files ! k = Written b" if k: "k < n" for k
    using w [OF k] kept(3) k by (auto simp: newParallelPlaybackWriter_def rbind_eq_Inr split: if_splits)
  then show ?thesis using kept(1) l by blast
qed

subsection \<open>The window\<close>

text \<open>Zero stands for no bound; the duration counts from the first operation that is not too early.\<close>

definition window :: "gotime \<Rightarrow> duration \<Rightarrow> RecordedOp list \<Rightarrow> RecordedOp list" where
  "window start dur ops =
     (let rest = filter (\<lambda>op. start \<noteq> 0 \<longrightarrow> start \<le> OpSeen op) ops in
      filter (\<lambda>op. dur \<noteq> 0 \<longrightarrow> OpSeen op \<le> OpSeen (hd rest) + dur) rest)"

definition only_time :: "skipConfig \<Rightarrow> bool" where
  "only_time sc \<longleftrightarrow> \<not> removeDriverOps sc \<and> \<not> readOpsOnly sc \<and> \<not> writeOpsOnly sc"

lemma op_rawOp_same: "op\<lparr>rawOp := rawOp op\<rparr> = op"
  by simp

lemma shouldFilterOp_time: "only_time sc \<Longrightarrow> shouldFilterOp decompress op sc =
    (case skipByTime sc (OpSeen op) of (b, sc) \<Rightarrow> Inr (b, op, sc))"
proof -
  assume o: "only_time sc"
  obtain b sc' where s: "skipByTime sc (OpSeen op) = (b, sc')" by force
  have "only_time sc'"
    using o s by (auto simp: skipByTime_def only_time_def Let_def split: option.splits if_splits)
  then show ?thesis
    using s by (cases b) (simp_all add: shouldFilterOp_def skipByKind_def only_time_def)
qed

definition early :: "skipConfig \<Rightarrow> RecordedOp \<Rightarrow> bool" where
  "early sc op \<longleftrightarrow> (case firstOpTime sc of None \<Rightarrow> False | Some t \<Rightarrow> OpSeen op < t)"

lemma kept_known:
  "only_time sc \<Longrightarrow> truncateDuration sc = None \<or> lastOpTime sc \<noteq> None \<Longrightarrow>
    keptOps decompress ops sc =
      Inr (filter (\<lambda>op. \<not> early sc op \<and> (case lastOpTime sc of None \<Rightarrow> True | Some t \<Rightarrow> OpSeen op \<le> t)) ops)"
proof (induction ops)
  case (Cons op ops)
  have "shouldFilterOp decompress op sc = Inr
      (early sc op \<or> (case lastOpTime sc of None \<Rightarrow> False | Some t \<Rightarrow> t < OpSeen op), op, sc)"
    using Cons.prems by (auto simp: shouldFilterOp_time skipByTime_def early_def split: option.splits)
  then show ?case using Cons by (auto split: option.splits)
qed simp

lemma kept_unknown:
  assumes "only_time sc" "truncateDuration sc = Some d" "0 \<le> d" "lastOpTime sc = None"
  shows "keptOps decompress ops sc =
    Inr (let rest = filter (\<lambda>op. \<not> early sc op) ops in filter (\<lambda>op. OpSeen op \<le> OpSeen (hd rest) + d) rest)"
proof (induction ops)
  case (Cons op ops)
  show ?case
  proof (cases "early sc op")
    case True
    then have "shouldFilterOp decompress op sc = Inr (True, op, sc)"
      using assms by (auto simp: shouldFilterOp_time skipByTime_def early_def split: option.splits)
    then show ?thesis using Cons True by simp
  next
    case False
    let ?sc = "sc\<lparr>lastOpTime := Some (OpSeen op + d)\<rparr>"
    have s: "shouldFilterOp decompress op sc = Inr (False, op, ?sc)"
      using assms False by (auto simp: shouldFilterOp_time skipByTime_def early_def split: option.splits)
    have e: "early ?sc = early sc" "only_time ?sc" using assms(1) by (auto simp: early_def only_time_def)
    have "keptOps decompress ops ?sc = Inr (filter (\<lambda>op'. \<not> early sc op' \<and> OpSeen op' \<le> OpSeen op + d) ops)"
      using kept_known [OF e(2), of decompress ops] e(1) by simp
    then show ?thesis using s False assms(3) by (simp add: conj_commute)
  qed
qed simp

lemma kept_window:
  assumes "0 \<le> dur"
  shows "keptOps decompress ops (newSkipConfig False start dur False False) = Inr (window start dur ops)"
proof -
  let ?sc = "newSkipConfig False start dur False False"
  have o: "only_time ?sc" "lastOpTime ?sc = None" by (simp_all add: only_time_def newSkipConfig_def)
  have e: "early ?sc = (\<lambda>op. \<not> (start \<noteq> 0 \<longrightarrow> start \<le> OpSeen op))" by (auto simp: early_def newSkipConfig_def)
  show ?thesis
  proof (cases "dur = 0")
    case True
    then have "truncateDuration ?sc = None" by (simp add: newSkipConfig_def)
    then show ?thesis using kept_known [OF o(1), of decompress ops] o(2) True e by (simp add: window_def imp_conv_disj)
  next
    case False
    then have "truncateDuration ?sc = Some dur" by (simp add: newSkipConfig_def)
    from kept_unknown [OF o(1) this assms o(2)] show ?thesis using False e by (simp add: window_def Let_def imp_conv_disj)
  qed
qed

subsection \<open>The property\<close>

text \<open>
  C22. Filtering by time and splitting into \<open>n\<close> files writes every operation of the window
  to exactly one file, that of its connection, in the order of the recording, behind the
  metadata; a file without operations is removed.
\<close>

theorem filter_splits_window:
  assumes "Filter decompress diskFails header n ops (newSkipConfig False start dur False False) = Inr files"
    "0 < n" "\<forall>op\<in>set ops. 0 \<le> SeenConnectionNum op" "0 \<le> dur"
  shows "length files = n \<and>
    (\<forall>k<n. if conn_part n k (window start dur ops) = [] then files ! k = Removed
       else \<exists>b. writeOps (conn_part n k (window start dur ops)) header = Inr b \<and> files ! k = Written b)"
  using Filter_split [OF assms(1-3)] kept_window [OF assms(4), of decompress ops start] by auto

definition win_op :: "int \<Rightarrow> gotime \<Rightarrow> RecordedOp" where
  "win_op conn t = zeroRecordedOp\<lparr>SeenConnectionNum := conn, OpSeen := t\<rparr>"

theorem filter_splits_window_witness:
  "\<exists>files. Filter Inr (\<lambda>_. False) [] 2 [win_op 1 10, win_op 2 20, win_op 3 25, win_op 1 40] (newSkipConfig False 15 10 False False) = Inr files \<and>
    files ! 0 = Written (case writeOps [win_op 2 20] [] of Inr b \<Rightarrow> b | Inl _ \<Rightarrow> []) \<and>
    files ! 1 = Written (case writeOps [win_op 3 25] [] of Inr b \<Rightarrow> b | Inl _ \<Rightarrow> [])"
proof -
  let ?ops = "[win_op 1 10, win_op 2 20, win_op 3 25, win_op 1 40]"
  have "case Filter Inr (\<lambda>_. False) [] 2 ?ops (newSkipConfig False 15 10 False False) of Inr _ \<Rightarrow> True | Inl _ \<Rightarrow> False"
    by code_simp
  then obtain files where f: "Filter Inr (\<lambda>_. False) [] 2 ?ops (newSkipConfig False 15 10 False False) = Inr files"
    by (auto split: sum.splits)
  have "conn_part 2 0 (window 15 10 ?ops) = [win_op 2 20]" "conn_part 2 1 (window 15 10 ?ops) = [win_op 3 25]"
    by (simp_all add: conn_part_def window_def win_op_def)
  then show ?thesis using filter_splits_window [OF f] f by (fastforce simp: win_op_def less_2_cases_iff)
qed

lemma filterLoop_length: "filterLoop decompress ops sc ws = Inr ws' \<Longrightarrow> length ws' = length ws"
  by (induction ops arbitrary: sc ws) (fastforce simp: rbind_eq_Inr Let_def split: if_splits)+

lemma collectWriters_hang:
  "(\<And>r. r \<in> set rs \<Longrightarrow> (\<exists>f. r = Inr f) \<or> (\<exists>e. r = Inl (Error e))) \<Longrightarrow> \<exists>e. Inl (Error e) \<in> set rs \<Longrightarrow>
    collectWriters rs = Inl Hang"
proof (induction rs)
  case (Cons r rs)
  then consider f where "r = Inr f" | e where "r = Inl (Error e)" by fastforce
  then show ?case
  proof cases
    case 1
    then show ?thesis using Cons by auto
  qed simp
qed simp

text \<open>
  When the disk refuses to write one of the files, the filter never returns: its writer
  waits to send its error, on a channel that is read only after all writers are done.
\<close>

theorem filter_hangs_on_write_error:
  assumes "filterLoop decompress ops sc (replicate n []) = Inr writers" "k < n" "diskFails k"
    "\<forall>op\<in>set (concat writers). op_fits op"
  shows "Filter decompress diskFails header n ops sc = Inl Hang"
proof -
  let ?rs = "map (\<lambda>(i, ops). newParallelPlaybackWriter (diskFails i) header ops) (enumerate 0 writers)"
  have l: "length writers = n" using filterLoop_length [OF assms(1)] by simp
  have "(\<exists>f. r = Inr f) \<or> (\<exists>e. r = Inl (Error e))" if r: "r \<in> set ?rs" for r
  proof -
    obtain i w where w: "w \<in> set writers" "r = newParallelPlaybackWriter (diskFails i) header w"
      using r by (auto simp: enumerate_eq_zip dest: set_zip_rightD)
    have "\<forall>op\<in>set w. op_fits op" using assms(4) w(1) by auto
    then obtain b where "writeOps w header = Inr b" using writeOps_total by blast
    then show ?thesis using w(2) by (auto simp: newParallelPlaybackWriter_def)
  qed
  moreover have "\<exists>e. Inl (Error e) \<in> set ?rs"
  proof -
    have "?rs ! k \<in> set ?rs" by (rule nth_mem) (use assms(2) l in simp)
    moreover have "?rs ! k = Inl (Error (Errorf ''write failed'' []))"
      using assms(2,3) l by (simp add: nth_enumerate_eq newParallelPlaybackWriter_def)
    ultimately show ?thesis by metis
  qed
  ultimately have "collectWriters ?rs = Inl Hang" by (rule collectWriters_hang)
  then show ?thesis using assms(1) by (simp add: Filter_def)
qed

theorem filter_hangs_on_write_error_witness:
  "Filter Inr (\<lambda>k. k = 1) [] 2 [win_op 1 10] (newSkipConfig False 0 0 False False) = Inl Hang"
proof -
  have "filterLoop Inr [win_op 1 10] (newSkipConfig False 0 0 False False) (replicate 2 []) = Inr [[], [win_op 1 10]]"
    by code_simp
  then show ?thesis
    by (rule filter_hangs_on_write_error [where k = 1])
      (simp_all add: op_fits_def win_op_def zeroRecordedOp_def time_range_def int64_range_def)
qed

end
