(* ===== verification/Playback.thy ===== *)
theory Playback
  imports Readpool Stats Execution
begin

text \<open>
  Playing a recording: the channel of operations that a playback file gives, as often as it is
  to be repeated (\<open>OpChan\<close> of \<open>playbackfile.go\<close>), the loop that hands them to connections
  (\<open>play.go\<close>), and what a connection does with them (\<open>execute.go\<close>).
\<close>

subsection \<open>The channel of operations\<close>

text \<open>
  What \<open>next\<close> gives in one generation: its results, and how they end. \<open>emitOps\<close> is the loop over
  them; it threads the time of the last and of the first operation. A nil \<open>Seen\<close> panics.
\<close>

type_synonym read_results = "(gotime option \<times> RecordedOp) res list \<times> fault option"

definition int64_wrap :: "int \<Rightarrow> int" where
  "int64_wrap i = sint (word_of_int i :: int64)"

fun emitOps :: "int \<Rightarrow> int \<Rightarrow> duration \<Rightarrow> (gotime option \<times> RecordedOp) res list \<Rightarrow> int \<Rightarrow> gotime \<Rightarrow> gotime \<Rightarrow>
    fault option \<times> RecordedOp list \<times> gotime \<times> gotime" where
  "emitOps repeat generation loopDelta [] order lastSeen firstSeen = (None, [], lastSeen, firstSeen)"
| "emitOps repeat generation loopDelta (Inl f # rs) order lastSeen firstSeen = (Some f, [], lastSeen, firstSeen)"
| "emitOps repeat generation loopDelta (Inr (None, op) # rs) order lastSeen firstSeen =
     (Some (Panic ''runtime error: invalid memory address or nil pointer dereference''), [], lastSeen, firstSeen)"
| "emitOps repeat generation loopDelta (Inr (Some seen, op) # rs) order lastSeen firstSeen =
     (let firstSeen = (if firstSeen = 0 then seen else firstSeen);
          op = op\<lparr>OpSeen := seen + loopDelta, Generation := generation, Order := order\<rparr>
      in (case emitOps repeat generation loopDelta rs (order + 1) seen firstSeen of
            (f, ops, l, b) \<Rightarrow> (f, (if \<not> isEOF op \<or> generation = repeat - 1 then op # ops else ops), l, b)))"

text \<open>
  One result of reading for each generation. The error that is sent in the end is \<open>EOF\<close> when all
  have been read.
\<close>

fun opChanFrom :: "int \<Rightarrow> int \<Rightarrow> duration \<Rightarrow> gotime \<Rightarrow> read_results list \<Rightarrow> RecordedOp list \<times> fault" where
  "opChanFrom repeat generation loopDelta lastSeen [] = ([], Error EOF)"
| "opChanFrom repeat generation loopDelta lastSeen ((rs, e) # reads) =
     (case emitOps repeat generation loopDelta rs 0 lastSeen 0 of
        (Some f, ops, _, _) \<Rightarrow> (ops, f)
      | (None, ops, lastSeen, firstSeen) \<Rightarrow>
          (case e of
             Some f \<Rightarrow> (ops, f)
           | None \<Rightarrow>
               (case opChanFrom repeat (generation + 1) (int64_wrap (loopDelta + timeSub lastSeen firstSeen)) lastSeen reads of
                  (ops', f) \<Rightarrow> (ops @ ops', f))))"

definition OpChan :: "read_results list \<Rightarrow> RecordedOp list \<times> fault" where
  "OpChan reads = opChanFrom (int (length reads)) 0 0 0 reads"

subsection \<open>Handing operations to connections\<close>

text \<open>
  What \<open>Play\<close> does, as a list: waiting until a time, starting a connection (with the time of its
  first operation), handing it an operation, closing its channel. \<open>scale\<close> is the division of a
  duration by the speed, in floating point; \<open>start\<close> is the clock when the first operation is seen.
\<close>

datatype playAction = SleepUntil gotime | OpenConn int gotime | SendOp int RecordedOp | CloseConn int

record playState =
  connectionChans :: "(int \<times> int) list"
  connectionID :: int
  opCounter :: int
  recordingStart :: gotime

definition queueGranularity :: int where
  "queueGranularity = 1000"

definition playOne :: "(duration \<Rightarrow> duration) \<Rightarrow> bool \<Rightarrow> int \<Rightarrow> gotime \<Rightarrow> RecordedOp \<Rightarrow> playState \<Rightarrow> playAction list \<times> playState" where
  "playOne scale fullSpeed queueTime start op st =
     (let st = st\<lparr>opCounter := opCounter st + 1\<rparr>;
          st = (if recordingStart st = 0 then st\<lparr>recordingStart := OpSeen op\<rparr> else st);
          opDelta = timeSub (OpSeen op) (recordingStart st);
          playAt = start + scale opDelta;
          op = op\<lparr>PlayAt := Some playAt\<rparr>;
          sleep = (if \<not> fullSpeed \<and> go_rem (opCounter st) queueGranularity = 0
            then [SleepUntil (playAt + int64_wrap (- queueTime * 10 ^ 9))] else []);
          (new, st) =
            (if map_of (connectionChans st) (SeenConnectionNum op) = None
             then let i = connectionID st + 1 in
               ([OpenConn i playAt], st\<lparr>connectionID := i, connectionChans := AList.update (SeenConnectionNum op) i (connectionChans st)\<rparr>)
             else ([], st));
          i = the (map_of (connectionChans st) (SeenConnectionNum op))
      in if isEOF op
         then (sleep @ new @ [CloseConn i], st\<lparr>connectionChans := AList.delete (SeenConnectionNum op) (connectionChans st)\<rparr>)
         else (sleep @ new @ [SendOp i op], st))"

fun playLoop :: "(duration \<Rightarrow> duration) \<Rightarrow> bool \<Rightarrow> int \<Rightarrow> gotime \<Rightarrow> RecordedOp list \<Rightarrow> playState \<Rightarrow> playAction list \<times> playState \<times> bool" where
  "playLoop scale fullSpeed queueTime start [] st = ([], st, True)"
| "playLoop scale fullSpeed queueTime start (op # ops) st =
     (if OpSeen op = 0 then ([], st, False)
      else
        (case playOne scale fullSpeed queueTime start op st of
           (as, st) \<Rightarrow>
             (case playLoop scale fullSpeed queueTime start ops st of (as', r) \<Rightarrow> (as @ as', r))))"

text \<open>
  \<open>Play\<close>: an operation without a time ends it with an error, with the connections left open;
  otherwise those that are left are closed (in any order in Go, here in that of the list).
\<close>

definition initialPlay :: playState where
  "initialPlay = \<lparr>connectionChans = [], connectionID = 0, opCounter = 0, recordingStart = 0\<rparr>"

definition Play :: "(duration \<Rightarrow> duration) \<Rightarrow> bool \<Rightarrow> int \<Rightarrow> gotime \<Rightarrow> RecordedOp list \<Rightarrow> err option \<times> playAction list" where
  "Play scale fullSpeed queueTime start ops =
     (case playLoop scale fullSpeed queueTime start ops initialPlay of
        (as, st, True) \<Rightarrow> (None, as @ map (\<lambda>(_, i). CloseConn i) (connectionChans st))
      | (as, st, False) \<Rightarrow> (Some (Errorf (''Can'' @ [CHR 0x27] @ ''t play operation found with zero-timestamp: %#v'') []), as))"

text \<open>\<open>PlayCommand.ValidateParams\<close>; the speed is a \<open>float64\<close>, of which only the sign is looked at.\<close>

definition quoted :: "string \<Rightarrow> string" where
  "quoted s = CHR 0x27 # s @ [CHR 0x27]"

definition Play_ValidateParams :: "string list \<Rightarrow> bool \<Rightarrow> int \<Rightarrow> err option" where
  "Play_ValidateParams args speedPositive repeat =
     (if args \<noteq> [] then Some (Errorf ''unknown argument: %s'' [])
      else if \<not> speedPositive then Some (Errorf (''Invalid setting for --speed: '' @ quoted ''%v'') [])
      else if repeat < 1 then Some (Errorf (''Invalid setting for --repeat: '' @ quoted ''%v'' @ '', value must be >=1'') [repeat])
      else None)"

subsection \<open>A connection\<close>

text \<open>
  The goroutine of \<open>newExecutionConnection\<close>: the operations of its channel in order. With a
  socket each is executed, otherwise it is only parsed; what should be collected is. An error of
  the execution is logged and the next operation taken. The clock gives one time per operation.
\<close>

type_synonym ('c, 'm, 's) connState = "('c, 'm) ExecutionContext \<times> 's \<times> StatCollector"

definition collectOp :: "bool \<Rightarrow> RecordedOp \<Rightarrow> Op option \<Rightarrow> Op option \<Rightarrow> string \<Rightarrow> StatCollector \<Rightarrow> StatCollector res" where
  "collectOp driverOpsFiltered recordedOp parsedOp rep msg statColl =
     rbind (shouldCollectOp parsedOp driverOpsFiltered) (\<lambda>should.
       if should then Collect recordedOp parsedOp rep msg statColl else Inr statColl)"

definition connectionOp :: "(bytes \<Rightarrow> bytes res) \<Rightarrow> ('c, ReplyPair) gocache \<Rightarrow> 'm cursorManager \<Rightarrow> bool \<Rightarrow>
    ('s \<Rightarrow> Op \<Rightarrow> ((err + Op option) \<times> 's) res) \<Rightarrow> bool \<Rightarrow> int \<Rightarrow> gotime \<Rightarrow> RecordedOp \<Rightarrow> ('c, 'm, 's) connState \<Rightarrow>
    ('c, 'm, 's) connState res" where
  "connectionOp decompress g mgr driverOpsFiltered exec connected connectionNum now recordedOp = (\<lambda>(ctx, s, statColl).
     if connected then
       rbind (Execute decompress g mgr driverOpsFiltered now exec (recordedOp\<lparr>PlayedConnectionNum := connectionNum\<rparr>) ctx s)
         (\<lambda>((parsedOp, rep, e), recordedOp, ctx, s).
         rbind (collectOp driverOpsFiltered recordedOp parsedOp rep [] statColl) (\<lambda>statColl. Inr (ctx, s, statColl)))
     else
       rbind (case Parse decompress (rawOp recordedOp) of
                Inl (Error e) \<Rightarrow> Inr (None, rawOp recordedOp)
              | r \<Rightarrow> r) (\<lambda>(parsedOp, rop).
       rbind (collectOp driverOpsFiltered (recordedOp\<lparr>rawOp := rop\<rparr>) parsedOp None
           (''Skipped on non-connected socket (Connection '' @ itoa connectionNum @ '')'') statColl) (\<lambda>statColl.
         Inr (ctx, s, statColl))))"

fun connectionLoop :: "(bytes \<Rightarrow> bytes res) \<Rightarrow> ('c, ReplyPair) gocache \<Rightarrow> 'm cursorManager \<Rightarrow> bool \<Rightarrow>
    ('s \<Rightarrow> Op \<Rightarrow> ((err + Op option) \<times> 's) res) \<Rightarrow> bool \<Rightarrow> int \<Rightarrow> (gotime \<times> RecordedOp) list \<Rightarrow> ('c, 'm, 's) connState \<Rightarrow>
    ('c, 'm, 's) connState res" where
  "connectionLoop decompress g mgr filtered exec connected connectionNum [] st = Inr st"
| "connectionLoop decompress g mgr filtered exec connected connectionNum ((now, op) # ops) st =
     rbind (connectionOp decompress g mgr filtered exec connected connectionNum now op st)
       (connectionLoop decompress g mgr filtered exec connected connectionNum ops)"

end
