(* ===== verification/Playback_Correct.thy ===== *)
theory Playback_Correct
  imports Playback
begin

text \<open>
  The channel of a repeated recording, and the order in which its operations reach the
  connections of a playback.
\<close>

subsection \<open>Generations\<close>

definition int64_range_of :: "int \<Rightarrow> bool" where
  "int64_range_of i \<longleftrightarrow> - (2 ^ 63) \<le> i \<and> i < 2 ^ 63"

definition in_generation :: "int \<Rightarrow> int \<Rightarrow> duration \<Rightarrow> RecordedOp list \<Rightarrow> RecordedOp list" where
  "in_generation repeat g delta ops =
     map (\<lambda>(i, op). op\<lparr>OpSeen := OpSeen op + delta, Generation := g, Order := int i\<rparr>)
       (filter (\<lambda>(i, op). \<not> isEOF op \<or> g = repeat - 1) (enumerate 0 ops))"

definition clean_read :: "RecordedOp list \<Rightarrow> read_results" where
  "clean_read ops = (map (\<lambda>op. Inr (Some (OpSeen op), op)) ops, None)"

definition recording_length :: "RecordedOp list \<Rightarrow> duration" where
  "recording_length ops = (if ops = [] then 0 else OpSeen (last ops) - OpSeen (hd ops))"

lemma int64_wrap_id: "int64_range_of i \<Longrightarrow> int64_wrap i = i"
  by (simp add: int64_wrap_def int64_range_of_def sint_int64)

lemma emitOps_map:
  "emitOps repeat g delta (map (\<lambda>op. Inr (Some (OpSeen op), op)) ops) (int k) l f =
    (None, map (\<lambda>(i, op). op\<lparr>OpSeen := OpSeen op + delta, Generation := g, Order := int i\<rparr>)
       (filter (\<lambda>(i, op). \<not> isEOF op \<or> g = repeat - 1) (enumerate k ops)),
     (if ops = [] then l else OpSeen (last ops)),
     fold (\<lambda>op f. if f = 0 then OpSeen op else f) ops f)"
proof (induction ops arbitrary: k l f)
  case (Cons op ops)
  have k: "int k + 1 = int (Suc k)" by simp
  show ?case by (simp add: Let_def k Cons.IH [of "Suc k"] del: of_nat_Suc)
qed simp

lemma first_kept: "f \<noteq> 0 \<Longrightarrow> fold (\<lambda>op f. if f = 0 then OpSeen op else f) ops f = f"
  by (induction ops) auto

lemma emitOps_generation:
  assumes "ops \<noteq> [] \<Longrightarrow> OpSeen (hd ops) \<noteq> 0"
  shows "emitOps repeat g delta (map (\<lambda>op. Inr (Some (OpSeen op), op)) ops) 0 l 0 =
    (None, in_generation repeat g delta ops, (if ops = [] then l else OpSeen (last ops)), (if ops = [] then 0 else OpSeen (hd ops)))"
  using emitOps_map [of repeat g delta ops 0 l 0] assms
  by (cases ops) (simp_all add: in_generation_def first_kept)

lemma opChanFrom_generations:
  assumes "ops \<noteq> [] \<Longrightarrow> OpSeen (hd ops) \<noteq> 0" "\<forall>k\<le>g + m. int64_range_of (int k * recording_length ops)"
    and "l = (if g = 0 \<or> ops = [] then 0 else OpSeen (last ops))"
  shows "opChanFrom repeat (int g) (int g * recording_length ops) l (replicate m (clean_read ops)) =
    (concat (map (\<lambda>k. in_generation repeat (int k) (int k * recording_length ops) ops) [g..<g + m]), Error EOF)"
  using assms(2,3)
proof (induction m arbitrary: g l)
  case (Suc m)
  let ?n = "recording_length ops"
  have g: "int g * ?n + ?n = int (Suc g) * ?n" by (simp add: algebra_simps)
  have w: "int64_wrap (int g * ?n + ?n) = int (Suc g) * ?n"
    using Suc.prems(1) [rule_format, of "Suc g"] unfolding g by (intro int64_wrap_id) simp
  have d: "int64_wrap (int g * ?n + (if ops = [] then timeSub l 0 else timeSub (OpSeen (last ops)) (OpSeen (hd ops)))) = int (Suc g) * ?n"
  proof (cases "ops = []")
    case True
    then show ?thesis using Suc.prems(2)
      by (simp add: recording_length_def timeSub_def maxDuration_def minDuration_def int64_wrap_def)
  next
    case False
    have "int64_range_of ?n" using Suc.prems(1) [rule_format, of 1] by simp
    then have "timeSub (OpSeen (last ops)) (OpSeen (hd ops)) = ?n"
      using False by (simp add: recording_length_def timeSub_def maxDuration_def minDuration_def int64_range_of_def)
    then show ?thesis using w False by simp
  qed
  have r: "opChanFrom repeat (int (Suc g)) (int (Suc g) * ?n) (if ops = [] then l else OpSeen (last ops)) (replicate m (clean_read ops)) =
    (concat (map (\<lambda>k. in_generation repeat (int k) (int k * ?n) ops) [Suc g..<Suc g + m]), Error EOF)"
    using Suc.IH [of "Suc g"] Suc.prems by auto
  have s: "int g + 1 = int (Suc g)" by simp
  have u: "[g..<g + Suc m] = g # [Suc g..<Suc g + m]" by (simp add: upt_conv_Cons)
  have em: "emitOps repeat (int g) (int g * ?n) (map (\<lambda>op. Inr (Some (OpSeen op), op)) ops) 0 l 0 =
    (None, in_generation repeat (int g) (int g * ?n) ops, (if ops = [] then l else OpSeen (last ops)), (if ops = [] then 0 else OpSeen (hd ops)))"
    using assms(1) by (rule emitOps_generation)
  have e: "opChanFrom repeat (int g) (int g * ?n) l (clean_read ops # replicate m (clean_read ops)) =
    (in_generation repeat (int g) (int g * ?n) ops @
      fst (opChanFrom repeat (int (Suc g)) (int (Suc g) * ?n) (if ops = [] then l else OpSeen (last ops)) (replicate m (clean_read ops))),
     snd (opChanFrom repeat (int (Suc g)) (int (Suc g) * ?n) (if ops = [] then l else OpSeen (last ops)) (replicate m (clean_read ops))))"
    using d unfolding clean_read_def opChanFrom.simps em s
    by (cases "ops = []") (simp_all add: in_generation_def del: of_nat_Suc split: prod.splits)
  show ?case unfolding replicate_Suc e r u by simp
qed simp

lemma in_generation_bounds:
  assumes "sorted (map OpSeen ops)" "op \<in> set (in_generation repeat g delta ops)"
  shows "OpSeen (hd ops) + delta \<le> OpSeen op \<and> OpSeen op \<le> OpSeen (last ops) + delta"
proof -
  obtain op' where op: "op' \<in> set ops" "OpSeen op = OpSeen op' + delta"
    using assms(2) by (auto simp: in_generation_def enumerate_eq_zip dest: set_zip_rightD)
  then obtain k where k: "k < length ops" "op' = ops ! k" by (auto simp: in_set_conv_nth)
  have m: "OpSeen (ops ! i) \<le> OpSeen (ops ! j)" if "i \<le> j" "j < length ops" for i j
    using sorted_nth_mono [OF assms(1), of i j] that by simp
  have "OpSeen (ops ! 0) \<le> OpSeen (ops ! k)" "OpSeen (ops ! k) \<le> OpSeen (ops ! (length ops - 1))"
    using k(1) by (auto intro: m)
  then show ?thesis using k op by (cases "ops = []") (auto simp: hd_conv_nth last_conv_nth)
qed

lemma sorted_shift: "sorted xs \<Longrightarrow> sorted (map (\<lambda>t. t + d) xs)" for d :: int
  by (induction xs) auto

lemma in_generation_sorted:
  assumes "sorted (map OpSeen ops)"
  shows "sorted (map OpSeen (in_generation repeat g delta ops))"
proof -
  have "map OpSeen (in_generation repeat g delta ops) =
      map (\<lambda>t. t + delta) (map (\<lambda>x. OpSeen (snd x)) (filter (\<lambda>(i, op). \<not> isEOF op \<or> g = repeat - 1) (enumerate 0 ops)))"
    by (auto simp: in_generation_def)
  moreover have "map (\<lambda>x. OpSeen (snd x)) (enumerate 0 ops) = map OpSeen (map snd (enumerate 0 ops))"
    by (simp only: map_map comp_def)
  then have "sorted (map (\<lambda>x. OpSeen (snd x)) (enumerate 0 ops))" using assms by (simp only: map_snd_enumerate)
  then have "sorted (map (\<lambda>x. OpSeen (snd x)) (filter (\<lambda>(i, op). \<not> isEOF op \<or> g = repeat - 1) (enumerate 0 ops)))"
    by (rule sorted_filter)
  ultimately show ?thesis using sorted_shift by metis
qed

lemma generations_sorted:
  assumes "sorted (map OpSeen ops)"
  shows "sorted (map OpSeen (concat (map (\<lambda>k. in_generation repeat (int k) (int k * recording_length ops) ops) [0..<n])))"
proof (induction n)
  case (Suc n)
  let ?g = "\<lambda>k. in_generation repeat (int k) (int k * recording_length ops) ops"
  have n: "0 \<le> recording_length ops"
    using assms sorted_nth_mono [OF assms, of 0 "length ops - 1"]
    by (cases "ops = []") (auto simp: recording_length_def hd_conv_nth last_conv_nth)
  have "OpSeen a \<le> OpSeen b" if a: "a \<in> set (?g k)" "k < n" and b: "b \<in> set (?g n)" for a b k
  proof -
    have ops: "ops \<noteq> []" using a(1) by (auto simp: in_generation_def)
    have "(int k + 1) * recording_length ops \<le> int n * recording_length ops"
      using a(2) n by (intro mult_right_mono) auto
    then show ?thesis
      using in_generation_bounds [OF assms a(1)] in_generation_bounds [OF assms b] ops
      by (simp add: recording_length_def algebra_simps)
  qed
  then show ?case using Suc in_generation_sorted [OF assms] by (auto simp: sorted_append)
qed simp

text \<open>
  C21. A recording repeated \<open>n\<close> times gives \<open>n\<close> generations of its operations and then
  \<open>EOF\<close>: each later by the length of the recording than the one before, numbered by generation
  and by position, the closing operations kept in the last generation only, so that connections
  stay open between generations. The times stay in order when those of the recording are.
\<close>

theorem OpChan_generations:
  assumes "ops \<noteq> [] \<longrightarrow> OpSeen (hd ops) \<noteq> 0" "\<forall>k\<le>n. int64_range_of (int k * recording_length ops)"
  shows "OpChan (replicate n (clean_read ops)) =
      (concat (map (\<lambda>k. in_generation (int n) (int k) (int k * recording_length ops) ops) [0..<n]), Error EOF) \<and>
    (sorted (map OpSeen ops) \<longrightarrow> sorted (map OpSeen (fst (OpChan (replicate n (clean_read ops))))))"
proof -
  have "opChanFrom (int n) (int 0) (int 0 * recording_length ops) 0 (replicate n (clean_read ops)) =
      (concat (map (\<lambda>k. in_generation (int n) (int k) (int k * recording_length ops) ops) [0..<0 + n]), Error EOF)"
    by (rule opChanFrom_generations) (use assms in auto)
  then have "OpChan (replicate n (clean_read ops)) =
      (concat (map (\<lambda>k. in_generation (int n) (int k) (int k * recording_length ops) ops) [0..<n]), Error EOF)"
    by (simp add: OpChan_def)
  then show ?thesis using generations_sorted by auto
qed

definition play_op :: "int \<Rightarrow> gotime \<Rightarrow> bool \<Rightarrow> RecordedOp" where
  "play_op conn t eof = zeroRecordedOp\<lparr>SeenConnectionNum := conn, OpSeen := t, isEOF := eof\<rparr>"

theorem OpChan_generations_witness:
  "map (\<lambda>op. (OpSeen op, Generation op, Order op)) (fst (OpChan (replicate 2 (clean_read [play_op 1 10 False, play_op 1 17 True])))) =
    [(10, 0, 0), (17, 1, 0), (24, 1, 1)]"
proof -
  let ?ops = "[play_op 1 10 False, play_op 1 17 True]"
  have "OpSeen (hd ?ops) \<noteq> 0" "\<forall>k\<le>2. int64_range_of (int k * recording_length ?ops)"
    by (auto simp: play_op_def recording_length_def int64_range_of_def)
  then show ?thesis using OpChan_generations [of ?ops 2]
    by (simp add: in_generation_def play_op_def zeroRecordedOp_def recording_length_def upt_rec numeral_2_eq_2)
qed

subsection \<open>Connections\<close>

fun action_conn :: "playAction \<Rightarrow> int option" where
  "action_conn (SleepUntil t) = None"
| "action_conn (OpenConn i t) = Some i"
| "action_conn (SendOp i op) = Some i"
| "action_conn (CloseConn i) = Some i"

definition actions_of :: "int \<Rightarrow> playAction list \<Rightarrow> playAction list" where
  "actions_of i as = filter (\<lambda>a. action_conn a = Some i) as"

fun sent_op :: "playAction \<Rightarrow> RecordedOp option" where
  "sent_op (SendOp i op) = Some op"
| "sent_op _ = None"

definition open_session :: "int \<Rightarrow> int \<Rightarrow> playAction list \<Rightarrow> bool" where
  "open_session c i as \<longleftrightarrow> (\<exists>t ops. actions_of i as = OpenConn i t # map (SendOp i) ops \<and> (\<forall>op\<in>set ops. SeenConnectionNum op = c))"

definition full_session :: "int \<Rightarrow> playAction list \<Rightarrow> bool" where
  "full_session i as \<longleftrightarrow> (\<exists>t ops c. actions_of i as = OpenConn i t # map (SendOp i) ops @ [CloseConn i] \<and>
     (\<forall>op\<in>set ops. SeenConnectionNum op = c))"

definition sessions :: "playAction list \<Rightarrow> (int \<rightharpoonup> int) \<Rightarrow> int \<Rightarrow> bool" where
  "sessions as m n \<longleftrightarrow>
     (\<forall>c d i. m c = Some i \<longrightarrow> m d = Some i \<longrightarrow> c = d) \<and>
     (\<forall>c i. m c = Some i \<longrightarrow> i \<le> n \<and> open_session c i as) \<and>
     (\<forall>i. (\<forall>c. m c \<noteq> Some i) \<longrightarrow> actions_of i as = [] \<or> (i \<le> n \<and> full_session i as))"

lemma sessionsD:
  assumes "sessions as m n"
  shows "m c = Some i \<Longrightarrow> m d = Some i \<Longrightarrow> c = d"
    and "m c = Some i \<Longrightarrow> i \<le> n"
    and "m c = Some i \<Longrightarrow> open_session c i as"
    and "(\<And>c. m c \<noteq> Some i) \<Longrightarrow> actions_of i as = [] \<or> (i \<le> n \<and> full_session i as)"
  using assms unfolding sessions_def by blast+

lemma sessionsI:
  assumes "\<And>c d i. m c = Some i \<Longrightarrow> m d = Some i \<Longrightarrow> c = d"
    "\<And>c i. m c = Some i \<Longrightarrow> i \<le> n" "\<And>c i. m c = Some i \<Longrightarrow> open_session c i as"
    "\<And>i. (\<And>c. m c \<noteq> Some i) \<Longrightarrow> actions_of i as = [] \<or> (i \<le> n \<and> full_session i as)"
  shows "sessions as m n"
  using assms unfolding sessions_def by blast

lemma actions_of_append [simp]: "actions_of i (as @ bs) = actions_of i as @ actions_of i bs"
  by (simp add: actions_of_def)

lemma actions_of_single: "actions_of i [a] = (if action_conn a = Some i then [a] else [])"
  by (simp add: actions_of_def)

lemma session_other: "actions_of i bs = [] \<Longrightarrow> open_session c i (as @ bs) = open_session c i as \<and> full_session i (as @ bs) = full_session i as"
  by (simp add: open_session_def full_session_def)

lemma sessions_sleep: "sessions as m n \<Longrightarrow> sessions (as @ [SleepUntil t]) m n"
  by (simp add: sessions_def actions_of_single session_other)

lemma open_session_open: "actions_of i as = [] \<Longrightarrow> open_session c i (as @ [OpenConn i t])"
  by (simp add: open_session_def actions_of_single)

lemma open_session_send: "open_session c i as \<Longrightarrow> SeenConnectionNum op = c \<Longrightarrow> open_session c i (as @ [SendOp i op])"
  unfolding open_session_def
  by (elim exE conjE, rename_tac t ops, rule_tac x = t in exI, rule_tac x = "ops @ [op]" in exI) (auto simp: actions_of_single)

lemma full_session_close: "open_session c i as \<Longrightarrow> full_session i (as @ [CloseConn i])"
  unfolding open_session_def full_session_def
  by (elim exE conjE, rename_tac t ops, rule_tac x = t in exI, rule_tac x = ops in exI) (auto simp: actions_of_single)

lemma sessions_open:
  assumes s: "sessions as m n" and c: "m c = None"
  shows "sessions (as @ [OpenConn (n + 1) t]) (m(c \<mapsto> n + 1)) (n + 1)"
proof (rule sessionsI)
  have fresh: "m d \<noteq> Some (n + 1)" for d using sessionsD(2) [OF s, of d "n + 1"] by auto
  have none: "actions_of (n + 1) as = []" using sessionsD(4) [OF s, of "n + 1"] fresh by auto
  have o: "actions_of i [OpenConn (n + 1) t] = []" if "i \<noteq> n + 1" for i using that by (simp add: actions_of_single)
  fix i
  show "d = e" if "(m(c \<mapsto> n + 1)) d = Some i" "(m(c \<mapsto> n + 1)) e = Some i" for d e
    using that sessionsD(1) [OF s] fresh by (auto split: if_splits)
  show "i \<le> n + 1" if "(m(c \<mapsto> n + 1)) d = Some i" for d
    using that sessionsD(2) [OF s, of d i] by (auto split: if_splits)
  show "open_session d i (as @ [OpenConn (n + 1) t])" if d: "(m(c \<mapsto> n + 1)) d = Some i" for d
  proof (cases "d = c")
    case True
    then show ?thesis using d none open_session_open by simp
  next
    case False
    then have "m d = Some i" using d by simp
    moreover from this have "i \<noteq> n + 1" using fresh [of d] by metis
    ultimately show ?thesis using sessionsD(3) [OF s] session_other [OF o] by simp
  qed
  show "actions_of i (as @ [OpenConn (n + 1) t]) = [] \<or> i \<le> n + 1 \<and> full_session i (as @ [OpenConn (n + 1) t])"
    if d: "\<And>d. (m(c \<mapsto> n + 1)) d \<noteq> Some i"
  proof -
    have i: "i \<noteq> n + 1" using d [of c] by simp
    have "m e \<noteq> Some i" for e using d [of e] c by (auto split: if_splits)
    then show ?thesis using sessionsD(4) [OF s] o [OF i] session_other [OF o [OF i]] by fastforce
  qed
qed

lemma sessions_send:
  assumes s: "sessions as m n" and c: "m (SeenConnectionNum op) = Some i"
  shows "sessions (as @ [SendOp i op]) m n"
proof (rule sessionsI)
  have o: "actions_of j [SendOp i op] = []" if "j \<noteq> i" for j using that by (simp add: actions_of_single)
  fix j
  show "d = e" if "m d = Some j" "m e = Some j" for d e using that by (rule sessionsD(1) [OF s])
  show "j \<le> n" if "m d = Some j" for d using that by (rule sessionsD(2) [OF s])
  show "open_session d j (as @ [SendOp i op])" if d: "m d = Some j" for d
  proof (cases "j = i")
    case True
    then have "SeenConnectionNum op = d" using sessionsD(1) [OF s] c d by blast
    then show ?thesis using open_session_send sessionsD(3) [OF s d] True by blast
  next
    case False
    then show ?thesis using session_other [OF o] sessionsD(3) [OF s d] by blast
  qed
  show "actions_of j (as @ [SendOp i op]) = [] \<or> j \<le> n \<and> full_session j (as @ [SendOp i op])"
    if j: "\<And>d. m d \<noteq> Some j"
  proof -
    have "j \<noteq> i" using j c by metis
    then show ?thesis using sessionsD(4) [OF s j] o session_other [OF o] by auto
  qed
qed

lemma sessions_close:
  assumes s: "sessions as m n" and c: "m c = Some i"
  shows "sessions (as @ [CloseConn i]) (m(c := None)) n"
proof (rule sessionsI)
  have o: "actions_of j [CloseConn i] = []" if "j \<noteq> i" for j using that by (simp add: actions_of_single)
  fix j
  show "d = e" if "(m(c := None)) d = Some j" "(m(c := None)) e = Some j" for d e
    using that sessionsD(1) [OF s] by (simp split: if_splits)
  show "j \<le> n" if "(m(c := None)) d = Some j" for d using that sessionsD(2) [OF s] by (simp split: if_splits)
  show "open_session d j (as @ [CloseConn i])" if d: "(m(c := None)) d = Some j" for d
  proof -
    have d: "m d = Some j" "d \<noteq> c" using d by (simp_all split: if_splits)
    then have "j \<noteq> i" using sessionsD(1) [OF s, of d i c] c by blast
    then show ?thesis using session_other [OF o] sessionsD(3) [OF s d(1)] by blast
  qed
  show "actions_of j (as @ [CloseConn i]) = [] \<or> j \<le> n \<and> full_session j (as @ [CloseConn i])"
    if j: "\<And>d. (m(c := None)) d \<noteq> Some j"
  proof (cases "j = i")
    case True
    then show ?thesis using sessionsD(2,3) [OF s c] full_session_close by blast
  next
    case False
    have "m d \<noteq> Some j" for d using j [of d] False c by (auto split: if_splits)
    then show ?thesis using sessionsD(4) [OF s] o [OF False] session_other [OF o [OF False]] by fastforce
  qed
qed

definition session_state :: "playAction list \<Rightarrow> playState \<Rightarrow> bool" where
  "session_state as st \<longleftrightarrow> sessions as (map_of (connectionChans st)) (connectionID st) \<and> distinct (map fst (connectionChans st))"

lemma map_of_AList: "map_of (AList.update c i xs) = (map_of xs)(c \<mapsto> i)" "map_of (AList.delete c xs) = (map_of xs)(c := None)"
  by (auto simp: update_conv' delete_conv')

lemma sessions_sleeps: "sessions as m n \<Longrightarrow> \<forall>b\<in>set bs. action_conn b = None \<Longrightarrow> sessions (as @ bs) m n"
proof (induction bs arbitrary: as)
  case (Cons b bs)
  then obtain t where "b = SleepUntil t" by (cases b) auto
  then show ?case using Cons.IH [of "as @ [b]"] Cons.prems sessions_sleep by simp
qed simp

definition play_time :: "(duration \<Rightarrow> duration) \<Rightarrow> gotime \<Rightarrow> gotime \<Rightarrow> RecordedOp \<Rightarrow> RecordedOp" where
  "play_time scale start begin op = op\<lparr>PlayAt := Some (start + scale (timeSub (OpSeen op) begin))\<rparr>"

lemma playOne_eq:
  assumes "playOne scale fullSpeed queueTime start op st = (bs, st')"
  defines "m \<equiv> map_of (connectionChans st) (SeenConnectionNum op)"
  defines "i \<equiv> (case m of None \<Rightarrow> connectionID st + 1 | Some i \<Rightarrow> i)"
  shows "recordingStart st' = (if recordingStart st = 0 then OpSeen op else recordingStart st)"
    and "connectionID st' = (if m = None then connectionID st + 1 else connectionID st)"
    and "connectionChans st' =
      (let xs = (if m = None then AList.update (SeenConnectionNum op) i (connectionChans st) else connectionChans st)
       in if isEOF op then AList.delete (SeenConnectionNum op) xs else xs)"
    and "\<exists>sl t. (\<forall>b\<in>set sl. action_conn b = None) \<and> List.map_filter sent_op sl = [] \<and>
      bs = sl @ (if m = None then [OpenConn i t] else []) @
        [if isEOF op then CloseConn i else SendOp i (play_time scale start (recordingStart st') op)]"
  using assms(1) unfolding m_def i_def
  by (auto simp: playOne_def Let_def map_of_AList play_time_def split: if_splits)

lemma playOne_session:
  assumes p: "playOne scale fullSpeed queueTime start op st = (bs, st')" and a: "session_state as st"
  shows "session_state (as @ bs) st' \<and> recordingStart st' = (if recordingStart st = 0 then OpSeen op else recordingStart st) \<and>
    List.map_filter sent_op bs = (if isEOF op then [] else [play_time scale start (recordingStart st') op])"
proof -
  let ?c = "SeenConnectionNum op"
  let ?m = "map_of (connectionChans st)"
  define i where "i = (case ?m ?c of None \<Rightarrow> connectionID st + 1 | Some i \<Rightarrow> i)"
  define op' where "op' = play_time scale start (recordingStart st') op"
  have c: "SeenConnectionNum op' = ?c" by (simp add: op'_def play_time_def)
  obtain sl t where b: "\<forall>b\<in>set sl. action_conn b = None" "List.map_filter sent_op sl = []"
    "bs = sl @ (if ?m ?c = None then [OpenConn i t] else []) @ [if isEOF op then CloseConn i else SendOp i op']"
    using playOne_eq(4) [OF p] unfolding i_def op'_def by blast
  define m' where "m' = (if ?m ?c = None then ?m(?c \<mapsto> i) else ?m)"
  let ?as = "as @ sl @ (if ?m ?c = None then [OpenConn i t] else [])"
  have s: "sessions (as @ sl) ?m (connectionID st)"
    using a sessions_sleeps [OF _ b(1)] by (auto simp: session_state_def)
  have s': "sessions ?as m' (connectionID st')"
    using s sessions_open [OF s, of ?c t] by (cases "?m ?c") (auto simp: m'_def i_def playOne_eq(2) [OF p])
  have i: "m' ?c = Some i" by (cases "?m ?c") (auto simp: m'_def i_def)
  have "sessions (?as @ [if isEOF op then CloseConn i else SendOp i op']) (if isEOF op then m'(?c := None) else m') (connectionID st')"
    using sessions_close [OF s' i] sessions_send [OF s', of op' i] i c by simp
  moreover have "map_of (connectionChans st') = (if isEOF op then m'(?c := None) else m')"
    by (auto simp: playOne_eq(3) [OF p] Let_def map_of_AList m'_def i_def)
  moreover have "distinct (map fst (connectionChans st'))"
    using a by (auto simp: session_state_def playOne_eq(3) [OF p] Let_def distinct_update distinct_delete)
  ultimately show ?thesis
    using b(2,3) playOne_eq(1) [OF p] by (auto simp: session_state_def op'_def List.map_filter_def)
qed

lemma playLoop_session:
  assumes "\<forall>op\<in>set ops. OpSeen op \<noteq> 0" "session_state as st"
    "playLoop scale fullSpeed queueTime start ops st = (bs, st', ok)"
    "begin = (if recordingStart st = 0 then OpSeen (hd ops) else recordingStart st)"
  shows "ok \<and> session_state (as @ bs) st' \<and>
    List.map_filter sent_op bs = map (play_time scale start begin) (filter (\<lambda>op. \<not> isEOF op) ops)"
  using assms
proof (induction ops arbitrary: as st bs)
  case (Cons op ops)
  obtain bs1 st1 where p: "playOne scale fullSpeed queueTime start op st = (bs1, st1)" by force
  obtain bs2 where l: "playLoop scale fullSpeed queueTime start ops st1 = (bs2, st', ok)" "bs = bs1 @ bs2"
    using Cons.prems(1,3) p by (auto split: prod.splits)
  have o: "session_state (as @ bs1) st1" "recordingStart st1 = begin"
    "List.map_filter sent_op bs1 = (if isEOF op then [] else [play_time scale start begin op])"
    using playOne_session [OF p Cons.prems(2)] Cons.prems(4) by auto
  have "begin \<noteq> 0" using Cons.prems(1,4) by (auto split: if_splits)
  then have "ok \<and> session_state ((as @ bs1) @ bs2) st' \<and>
      List.map_filter sent_op bs2 = map (play_time scale start begin) (filter (\<lambda>op. \<not> isEOF op) ops)"
    using Cons.IH [OF _ o(1) l(1)] Cons.prems(1) o(2) by simp
  then show ?case using o(3) l(2) by (auto simp: List.map_filter_def)
qed simp

lemma close_all: "sessions as (map_of xs) n \<Longrightarrow> distinct (map fst xs) \<Longrightarrow>
    sessions (as @ map (\<lambda>(_, i). CloseConn i) xs) Map.empty n"
proof (induction xs arbitrary: as)
  case (Cons x xs)
  obtain c i where x: "x = (c, i)" by force
  have e: "(map_of (x # xs))(c := None) = map_of xs" using Cons.prems(2) x by (simp add: fun_upd_idem map_of_eq_None_iff)
  then have "sessions (as @ [CloseConn i]) (map_of xs) n"
    using sessions_close [OF Cons.prems(1), of c i] x unfolding e by simp
  then show ?case using Cons.IH [of "as @ [CloseConn i]"] Cons.prems(2) x by simp
qed simp

text \<open>
  C13. When every operation has a time, playing succeeds. The operations are handed out in the
  order of the recording, each with the time at which it is due. Every connection that is used is
  opened once, then gets operations of one recorded connection only, and is closed once, after
  the last of them, also when the recording never closed it.
\<close>

theorem play_sessions:
  assumes "\<forall>op\<in>set ops. OpSeen op \<noteq> 0" "Play scale fullSpeed queueTime start ops = (e, as)"
  shows "e = None \<and>
    List.map_filter sent_op as = map (play_time scale start (OpSeen (hd ops))) (filter (\<lambda>op. \<not> isEOF op) ops) \<and>
    (\<forall>i. actions_of i as = [] \<or> full_session i as)"
proof -
  obtain bs st ok where l: "playLoop scale fullSpeed queueTime start ops initialPlay = (bs, st, ok)"
    using prod_cases3 by blast
  have "session_state [] initialPlay"
    by (simp add: session_state_def initialPlay_def sessions_def actions_of_def)
  from playLoop_session [OF assms(1) this l refl]
  have s: "ok" "session_state bs st"
    "List.map_filter sent_op bs = map (play_time scale start (OpSeen (hd ops))) (filter (\<lambda>op. \<not> isEOF op) ops)"
    by (auto simp: initialPlay_def)
  have as: "e = None" "as = bs @ map (\<lambda>(_, i). CloseConn i) (connectionChans st)"
    using assms(2) l s(1) by (auto simp: Play_def)
  have "sessions as Map.empty (connectionID st)"
    unfolding as by (rule close_all) (use s(2) in \<open>auto simp: session_state_def\<close>)
  moreover have "List.map_filter sent_op (map (\<lambda>(_, i). CloseConn i) xs) = []" for xs :: "(int \<times> int) list"
    by (induction xs) (auto simp: List.map_filter_def)
  ultimately show ?thesis using s(3) as by (auto simp: sessions_def List.map_filter_def)
qed

theorem play_sessions_witness:
  "\<exists>as. Play (\<lambda>d. d) True 0 100 [play_op 7 10 False, play_op 8 11 False, play_op 7 12 False, play_op 7 13 True, play_op 7 14 False] = (None, as) \<and>
    map PlayAt (List.map_filter sent_op as) = [Some 100, Some 101, Some 102, Some 104] \<and>
    actions_of 2 as \<noteq> [] \<and> full_session 2 as"
proof -
  let ?ops = "[play_op 7 10 False, play_op 8 11 False, play_op 7 12 False, play_op 7 13 True, play_op 7 14 False]"
  obtain e as where p: "Play (\<lambda>d. d) True 0 100 ?ops = (e, as)" by force
  have o: "\<forall>op\<in>set ?ops. OpSeen op \<noteq> 0" by (simp add: play_op_def)
  have "actions_of 2 (snd (Play (\<lambda>d. d) True 0 100 ?ops)) \<noteq> []" by code_simp
  moreover have "filter (\<lambda>op. \<not> isEOF op) ?ops = [play_op 7 10 False, play_op 8 11 False, play_op 7 12 False, play_op 7 14 False]"
    by (simp add: play_op_def)
  ultimately show ?thesis using play_sessions [OF o p] p
    by (auto simp: play_time_def play_op_def zeroRecordedOp_def timeSub_def maxDuration_def minDuration_def)
qed

end
