(* ===== verification/Recording.thy ===== *)
theory Recording
  imports OpStream Playfile Replies
begin

text \<open>
  Recording: the loop over the captured packets (\<open>packet_handler.go\<close>), which drives the
  assembler and through it the streams of operations, and the goroutine that writes the
  operations to a playback file (\<open>record.go\<close>).
\<close>

subsection \<open>The calls on the streams\<close>

text \<open>
  The assembler's calls on the factory and the stream objects, made on the streams of
  \<open>mongo_op_handler.go\<close>; the \<open>n\<close>-th stream of the assembler is the handle that the factory gave for it.
\<close>

type_synonym 'f openStreams = "(nat \<rightharpoonup> handle) \<times> 'f MongoOpStream"

fun streamCall :: "('f \<Rightarrow> 'f) \<Rightarrow> ('f \<Rightarrow> string) \<Rightarrow> ('f \<Rightarrow> string) \<Rightarrow> ('f \<times> 'f) call \<Rightarrow> 'f openStreams \<Rightarrow> 'f openStreams res" where
  "streamCall flip src dst (New k s) (hs, os) =
     (let (h, os) = OpStream_New flip (fst k) (snd k) os in Inr (hs(s \<mapsto> h), os))"
| "streamCall flip src dst (Reassembled s rs) (hs, os) =
     (case hs s of
        None \<Rightarrow> Inl nil_panic
      | Some h \<Rightarrow> rbind (OpStream_Reassembled src dst h rs os) (\<lambda>os. Inr (hs, os)))"
| "streamCall flip src dst (ReassemblyComplete s) (hs, os) =
     (case hs s of
        None \<Rightarrow> Inl nil_panic
      | Some h \<Rightarrow> rbind (OpStream_ReassemblyComplete h os) (\<lambda>os. Inr (hs, os)))"

fun streamCalls :: "('f \<Rightarrow> 'f) \<Rightarrow> ('f \<Rightarrow> string) \<Rightarrow> ('f \<Rightarrow> string) \<Rightarrow> ('f \<times> 'f) call list \<Rightarrow> 'f openStreams \<Rightarrow> 'f openStreams res" where
  "streamCalls flip src dst [] s = Inr s"
| "streamCalls flip src dst (c # cs) s = rbind (streamCall flip src dst c s) (streamCalls flip src dst cs)"

subsection \<open>The packet handler\<close>

text \<open>
  Of a packet the handler uses the transport flow and the TCP layer, if there is one, and the time
  of its capture; its network flow, the addresses of the hosts, is not looked at.
\<close>

record ('n, 'f) packet =
  networkFlow :: 'n
  tcpLayer :: "('f \<times> TCP) option"
  timestamp :: gotime

text \<open>What the loop of \<open>Handle\<close> waits for; the end of the capture is a nil packet.\<close>

datatype ('n, 'f) event = Captured "('n, 'f) packet" | EndOfCapture | Tick | Stop

record 'f handler =
  assembler :: "('f \<times> 'f) Assembler"
  handles :: "nat \<rightharpoonup> handle"
  opStream :: "'f MongoOpStream"
  lastPacket :: "gotime option"
  count :: int
  firstSeen :: gotime

definition drives :: "('f \<Rightarrow> 'f) \<Rightarrow> ('f \<Rightarrow> string) \<Rightarrow> ('f \<Rightarrow> string) \<Rightarrow> ('f \<times> 'f) Assembler \<Rightarrow> 'f handler \<Rightarrow> 'f handler res" where
  "drives flip src dst a' st =
     rbind (streamCalls flip src dst (drop (length (log (assembler st))) (log a')) (handles st, opStream st)) (\<lambda>(hs, os).
       Inr (st\<lparr>assembler := a', handles := hs, opStream := os\<rparr>))"

definition five_minutes :: duration where
  "five_minutes = 300 * 10 ^ 9"

text \<open>
  \<open>visit\<close> is the order in which Go walks the map of the connections. Before the first packet a
  tick does nothing.
\<close>

definition bookkeep :: "('f \<Rightarrow> 'f) \<Rightarrow> ('f \<Rightarrow> string) \<Rightarrow> ('f \<Rightarrow> string) \<Rightarrow> (('f \<times> 'f) Assembler \<Rightarrow> nat list) \<Rightarrow> 'f handler \<Rightarrow> 'f handler res" where
  "bookkeep flip src dst visit st =
     (case lastPacket st of
        None \<Rightarrow> Inr st
      | Some ts \<Rightarrow>
          rbind (FlushOlderThan (visit (assembler st)) (ts - five_minutes) (assembler st)) (\<lambda>(_, _, a).
            drives flip src dst a st))"

definition handlePacket :: "('f \<Rightarrow> 'f) \<Rightarrow> ('f \<Rightarrow> string) \<Rightarrow> ('f \<Rightarrow> string) \<Rightarrow> ('n, 'f) packet \<Rightarrow> 'f handler \<Rightarrow> 'f handler res" where
  "handlePacket flip src dst pkt st =
     (let st = st\<lparr>lastPacket := Some (timestamp pkt)\<rparr> in
      rbind (case tcpLayer pkt of
               None \<Rightarrow> Inr st
             | Some (flow, t) \<Rightarrow>
                 rbind (AssembleWithTimestamp (flow, flow) t (timestamp pkt) (assembler st)) (\<lambda>a.
                   drives flip src dst a st)) (\<lambda>st.
        let st = (if count st = 0 then st\<lparr>firstSeen := timestamp pkt\<rparr> else st)
        in Inr (st\<lparr>count := count st + 1\<rparr>)))"

text \<open>
  The loop. The \<open>break\<close> that should end it after \<open>numToHandle\<close> packets only ends the \<open>select\<close>: it
  skips a tick that may be pending, which comes as an event of its own. Without any further event it waits for ever.
\<close>

fun handleLoop :: "('f \<Rightarrow> 'f) \<Rightarrow> ('f \<Rightarrow> string) \<Rightarrow> ('f \<Rightarrow> string) \<Rightarrow> (('f \<times> 'f) Assembler \<Rightarrow> nat list) \<Rightarrow> int \<Rightarrow>
    ('n, 'f) event list \<Rightarrow> 'f handler \<Rightarrow> 'f handler res" where
  "handleLoop flip src dst visit numToHandle [] st = Inl Hang"
| "handleLoop flip src dst visit numToHandle (e # es) st =
     (case e of
        Captured pkt \<Rightarrow> rbind (handlePacket flip src dst pkt st) (handleLoop flip src dst visit numToHandle es)
      | EndOfCapture \<Rightarrow> Inr st
      | Tick \<Rightarrow> rbind (bookkeep flip src dst visit st) (handleLoop flip src dst visit numToHandle es)
      | Stop \<Rightarrow> Inr st)"

definition newHandler :: "int \<Rightarrow> 'f bidi \<Rightarrow> 'f handler" where
  "newHandler maxPages b0 = \<lparr>assembler = NewAssembler 0 maxPages, handles = Map.empty,
     opStream = NewMongoOpStream b0, lastPacket = None, count = 0, firstSeen = 0\<rparr>"

text \<open>\<open>Handle\<close>: when the loop ends the assembler is flushed, and the channel of operations closed.\<close>

definition Handle :: "('f \<Rightarrow> 'f) \<Rightarrow> ('f \<Rightarrow> string) \<Rightarrow> ('f \<Rightarrow> string) \<Rightarrow> (('f \<times> 'f) Assembler \<Rightarrow> nat list) \<Rightarrow> int \<Rightarrow>
    ('n, 'f) event list \<Rightarrow> 'f handler \<Rightarrow> 'f handler res" where
  "Handle flip src dst visit numToHandle events st =
     rbind (handleLoop flip src dst visit numToHandle events st) (\<lambda>st.
     rbind (FlushAll (visit (assembler st)) (assembler st)) (\<lambda>(_, a).
       drives flip src dst a st))"

subsection \<open>Writing the recording\<close>

text \<open>
  One operation: replies are shortened unless full replies are wanted, and left out when that
  fails; after a failed write nothing more is written. \<open>refuses\<close> says whether the operating system
  refuses to write behind what has been written.
\<close>

definition shortened :: "bool \<Rightarrow> RawOp \<Rightarrow> RawOp option res" where
  "shortened noShortenReply op =
     (if (hOpCode (Header op) = OpCodeReply \<or> hOpCode (Header op) = OpCodeCommandReply) \<and> \<not> noShortenReply
      then (case ShortenReply op of
              Inl (Error e) \<Rightarrow> Inr None
            | Inl fault \<Rightarrow> Inl fault
            | Inr op \<Rightarrow> Inr (Some op))
      else Inr (Some op))"

definition recordOp :: "(bytes \<Rightarrow> bool) \<Rightarrow> bool \<Rightarrow> RecordedOp \<Rightarrow> bytes \<times> err option \<Rightarrow> (bytes \<times> err option) res" where
  "recordOp refuses noShortenReply op = (\<lambda>(written, fail).
     if fail \<noteq> None then Inr (written, fail)
     else
       rbind (shortened noShortenReply (rawOp op)) (\<lambda>rop.
         case rop of
           None \<Rightarrow> Inr (written, None)
         | Some rop \<Rightarrow>
             (case (if refuses written then Inl (Error (Errorf ''write failed'' []))
                    else bsonToWriter (recordedOp_value (op\<lparr>rawOp := rop\<rparr>)) written) of
                Inl (Error e) \<Rightarrow> Inr (written, Some (Errorf ''error writing message: %v'' []))
              | Inl fault \<Rightarrow> Inl fault
              | Inr written \<Rightarrow> Inr (written, None))))"

fun recordOps :: "(bytes \<Rightarrow> bool) \<Rightarrow> bool \<Rightarrow> RecordedOp list \<Rightarrow> bytes \<times> err option \<Rightarrow> (bytes \<times> err option) res" where
  "recordOps refuses noShortenReply [] s = Inr s"
| "recordOps refuses noShortenReply (op # ops) s =
     rbind (recordOp refuses noShortenReply op s) (recordOps refuses noShortenReply ops)"

text \<open>
  \<open>Record\<close>: what has been written in the end, and the error it returns. \<open>stats\<close> is the number of
  dropped packets that the capture reports, if it does.
\<close>

definition Record :: "('f \<Rightarrow> 'f) \<Rightarrow> ('f \<Rightarrow> string) \<Rightarrow> ('f \<Rightarrow> string) \<Rightarrow> (('f \<times> 'f) Assembler \<Rightarrow> nat list) \<Rightarrow> (bytes \<Rightarrow> bool) \<Rightarrow>
    int option \<Rightarrow> bool \<Rightarrow> nat \<Rightarrow> ('n, 'f) event list \<Rightarrow> 'f handler \<Rightarrow> bytes \<Rightarrow> (bytes \<times> err option) res" where
  "Record flip src dst visit refuses stats noShortenReply heapBufSize events st header =
     rbind (Handle flip src dst visit (- 1) events st) (\<lambda>st.
     rbind (recordOps refuses noShortenReply (handleOps heapBufSize (unorderedOps (opStream st))) (header, None)) (\<lambda>(written, fail).
       Inr (written,
         (case (fail, stats) of
            (None, Some dropped) \<Rightarrow> if dropped \<noteq> 0 then Some (Errorf ''completed with %d packets dropped'' [dropped]) else None
          | _ \<Rightarrow> fail))))"

subsection \<open>The parameters\<close>

record OpStreamSettings =
  PcapFile :: string
  PacketBufSize :: int
  CaptureBufSize :: int
  Expression :: string
  NetworkInterface :: string
  MaxBufferedPages :: int

definition Record_ValidateParams :: "string list \<Rightarrow> OpStreamSettings \<Rightarrow> err + OpStreamSettings" where
  "Record_ValidateParams args s =
     (if args \<noteq> [] then Inl (Errorf ''unknown argument: %s'' [])
      else if PcapFile s \<noteq> [] \<and> NetworkInterface s \<noteq> [] then Inl (Errorf ''must only specify an interface or a pcap file'' [])
      else
        let s = (if PacketBufSize s = 0 then s\<lparr>PacketBufSize := 1000\<rparr> else s);
            s = (if CaptureBufSize s = 0 then s\<lparr>CaptureBufSize := 2 * 1024\<rparr> else s)
        in if MaxBufferedPages s < 0 then Inl (Errorf ''bufferedPagesMax cannot be less than 0'' [])
           else Inr s)"

text \<open>The monitor's, with its flag for gzip and the name of a playback file.\<close>

definition Monitor_ValidateParams :: "string list \<Rightarrow> bool \<Rightarrow> string \<Rightarrow> OpStreamSettings \<Rightarrow> err + OpStreamSettings" where
  "Monitor_ValidateParams args gzip playbackFile s =
     (let numInputTypes = (if PcapFile s \<noteq> [] then 1 else 0) + (if NetworkInterface s \<noteq> [] then 1 else 0) +
            (if playbackFile \<noteq> [] then 1 else 0 :: nat)
      in if PcapFile s \<noteq> [] \<and> gzip then Inl (Errorf ''incompatible options: pcap file and gzip'' [])
         else if NetworkInterface s \<noteq> [] \<and> gzip then Inl (Errorf ''incompatible options: network interface and gzip'' [])
         else if playbackFile \<noteq> [] \<and> Expression s \<noteq> [] then Inl (Errorf ''incompatible options: tape file with a filter expression'' [])
         else if args \<noteq> [] then Inl (Errorf ''unknown argument: %s'' [])
         else if numInputTypes < 1 then Inl (Errorf ''must specify one input source'' [])
         else if numInputTypes > 1 then Inl (Errorf ''must not specify more than one input'' [])
         else Inr (if PacketBufSize s = 0
                   then s\<lparr>PacketBufSize := (if NetworkInterface s \<noteq> [] then 1 else 1000)\<rparr> else s))"

end
