(* ===== verification/Recording_Correct.thy ===== *)
theory Recording_Correct
  imports Recording Assembly_Correct Playfile_Correct
begin

text \<open>
  From packets to a playback file: the assembler, the streams of operations, the merge and the
  writer together.
\<close>

subsection \<open>Beginnings of a connection\<close>

text \<open>
  The stream handler would panic at the second beginning of a connection that brings bytes. As
  long as no \<open>SYN\<close> carries data the assembler delivers no such thing: its pages never are
  beginnings.
\<close>

definition no_data_start :: "Reassembly \<Rightarrow> bool" where
  "no_data_start r \<longleftrightarrow> (Start r \<longrightarrow> Bytes r = [])"

definition quiet_asm :: "'k Assembler \<Rightarrow> bool" where
  "quiet_asm a \<longleftrightarrow> 0 < pcSize (pc a) \<and> (\<forall>p\<in>set (pc_free (pc a)). \<not> Start (rea p)) \<and> (\<forall>r\<in>set (ret a). no_data_start r) \<and>
     (\<forall>s rs. Reassembled s rs \<in> set (log a) \<longrightarrow> (\<forall>r\<in>set rs. no_data_start r))"

definition quiet_conn :: "'k connection \<Rightarrow> bool" where
  "quiet_conn conn \<longleftrightarrow> (\<forall>p\<in>set (queue conn). \<not> Start (rea p))"

definition keeps_quiet :: "'k Assembler \<Rightarrow> 'k connection \<Rightarrow> 'k Assembler \<Rightarrow> 'k connection \<Rightarrow> bool" where
  "keeps_quiet a conn a' conn' \<longleftrightarrow> (quiet_asm a \<longrightarrow> quiet_conn conn \<longrightarrow> quiet_asm a' \<and> quiet_conn conn') \<and>
     store (connPool a') = store (connPool a) \<and> (\<exists>l. log a' = log a @ l)"

lemma keeps_quiet_refl [simp]: "keeps_quiet a conn a conn"
  by (simp add: keeps_quiet_def)

lemma keeps_quiet_trans: "keeps_quiet a conn a1 conn1 \<Longrightarrow> keeps_quiet a1 conn1 a2 conn2 \<Longrightarrow> keeps_quiet a conn a2 conn2"
  unfolding keeps_quiet_def by (elim conjE exE) simp

lemma addNextFromConn_quiet: "addNextFromConn a conn = Inr (a', conn') \<Longrightarrow> keeps_quiet a conn a' conn'"
  by (auto simp: addNextFromConn_def keeps_quiet_def quiet_asm_def quiet_conn_def no_data_start_def pc_replace_def Let_def
      split: list.splits prod.splits if_splits)

lemma addContiguous_quiet: "addContiguous a conn = Inr (a', conn') \<Longrightarrow> keeps_quiet a conn a' conn'"
proof (induction a conn arbitrary: a' conn' rule: addContiguous.induct)
  case (1 a conn)
  show ?case
  proof (cases "queue conn \<noteq> [] \<and> Difference (nextSeq conn) (seq (hd (queue conn))) \<le> 0")
    case True
    with "1.prems" obtain a1 conn1 where s: "addNextFromConn a conn = Inr (a1, conn1)"
      "addContiguous a1 conn1 = Inr (a', conn')"
      by (subst (asm) addContiguous.simps) (auto simp: rbind_eq_Inr)
    from "1.IH" [OF True s(1) refl s(2)] addNextFromConn_quiet [OF s(1)] keeps_quiet_trans show ?thesis by blast
  next
    case False
    with "1.prems" show ?thesis by (simp add: addContiguous.simps)
  qed
qed

lemma fold_replace_free: "pc_free (fold pc_replace ps c) = pc_free c @ ps \<and> pcSize (fold pc_replace ps c) = pcSize c"
  by (induction ps arbitrary: c) (auto simp: pc_replace_def)

lemma closeConnection_quiet: "closeConnection c a conn = Inr (a', conn') \<Longrightarrow> keeps_quiet a conn a' conn'"
  by (auto simp: closeConnection_def keeps_quiet_def quiet_asm_def quiet_conn_def pool_remove_def fold_replace_free Let_def
      split: option.splits)

lemma sendToConnection_quiet: "sendToConnection c a conn = Inr (a', conn') \<Longrightarrow> keeps_quiet a conn a' conn'"
proof -
  assume s: "sendToConnection c a conn = Inr (a', conn')"
  then obtain a1 conn1 s where 1: "addContiguous a conn = Inr (a1, conn1)"
    "(let a = a1\<lparr>log := log a1 @ [Reassembled s (ret a1)]\<rparr> in
        if ret a = [] then Inl (Panic ''runtime error: index out of range'')
        else if End (last (ret a)) then closeConnection c a conn1 else Inr (a, conn1)) = Inr (a', conn')"
    by (auto simp: sendToConnection_def rbind_eq_Inr split: option.splits)
  let ?a = "a1\<lparr>log := log a1 @ [Reassembled s (ret a1)]\<rparr>"
  have "keeps_quiet a1 conn1 ?a conn1" by (auto simp: keeps_quiet_def quiet_asm_def)
  moreover have "keeps_quiet ?a conn1 a' conn'"
    using 1(2) closeConnection_quiet [of c ?a conn1] by (auto simp: Let_def split: if_splits)
  ultimately show ?thesis using addContiguous_quiet [OF 1(1)] keeps_quiet_trans by blast
qed

lemma skipFlush_quiet: "skipFlush c a conn = Inr (a', conn') \<Longrightarrow> keeps_quiet a conn a' conn'"
proof (cases "queue conn = []")
  case True
  then show "skipFlush c a conn = Inr (a', conn') \<Longrightarrow> ?thesis"
    by (simp add: skipFlush_def closeConnection_quiet)
next
  case False
  assume "skipFlush c a conn = Inr (a', conn')"
  with False obtain a1 conn1 a2 conn2 where 1: "addNextFromConn (a\<lparr>ret := []\<rparr>) conn = Inr (a1, conn1)"
    "addContiguous a1 conn1 = Inr (a2, conn2)" "sendToConnection c a2 conn2 = Inr (a', conn')"
    by (auto simp: skipFlush_def rbind_eq_Inr Let_def)
  have "keeps_quiet a conn (a\<lparr>ret := []\<rparr>) conn" by (auto simp: keeps_quiet_def quiet_asm_def)
  with addNextFromConn_quiet [OF 1(1)] addContiguous_quiet [OF 1(2)] sendToConnection_quiet [OF 1(3)]
  show ?thesis using keeps_quiet_trans by blast
qed

lemma pc_next_quiet:
  assumes "pc_next ts c = (p, c')" "\<forall>q\<in>set (pc_free c). \<not> Start (rea q)" "0 < pcSize c"
  shows "\<not> Start (rea p) \<and> (\<forall>q\<in>set (pc_free c'). \<not> Start (rea q)) \<and> 0 < pcSize c'"
proof -
  define d where "d = (if pc_free c = [] then pc_grow c else c)"
  have d: "\<forall>q\<in>set (pc_free d). \<not> Start (rea q)" "0 < pcSize d" "pc_free d \<noteq> []"
    using assms(2,3) by (auto simp: d_def pc_grow_def zeroPage_def zeroReassembly_def)
  have e: "p = (last (pc_free d))\<lparr>rea := (rea (last (pc_free d)))\<lparr>Seen := ts, Bytes := []\<rparr>\<rparr>"
    "pc_free c' = butlast (pc_free d)" "pcSize c' = pcSize d"
    using assms(1) unfolding pc_next_def d_def [symmetric] by (auto simp: Let_def)
  show ?thesis using d e last_in_set [OF d(3)] by (auto dest: in_set_butlastD)
qed

lemma pages_loop_quiet:
  assumes "pages_loop fin ts p s bs c = (ps, c')" "\<not> Start (rea p)" "\<forall>q\<in>set (pc_free c). \<not> Start (rea q)" "0 < pcSize c"
  shows "(\<forall>q\<in>set ps. \<not> Start (rea q)) \<and> (\<forall>q\<in>set (pc_free c'). \<not> Start (rea q)) \<and> 0 < pcSize c'"
  using assms
proof (induction fin ts p s bs c arbitrary: ps c' rule: pages_loop.induct)
  case (1 fin ts p s bs c)
  let ?n = "min (length bs) pageBytes"
  let ?p = "p\<lparr>rea := (rea p)\<lparr>Bytes := take ?n bs\<rparr>, seq := s\<rparr>"
  show ?case
  proof (cases "drop ?n bs = []")
    case True
    then show ?thesis using "1.prems" by (subst (asm) pages_loop.simps) (auto simp: Let_def)
  next
    case False
    obtain q d where n: "pc_next ts c = (q, d)" by force
    obtain qs e where l: "pages_loop fin ts q (Add s (int ?n)) (drop ?n bs) d = (qs, e)" by force
    have q: "\<not> Start (rea q)" "\<forall>q\<in>set (pc_free d). \<not> Start (rea q)" "0 < pcSize d"
      using pc_next_quiet [OF n "1.prems"(3,4)] by auto
    have "ps = ?p # qs" "c' = e"
      using "1.prems"(1) False n l by (subst (asm) pages_loop.simps, simp add: Let_def)+
    then show ?thesis
      using "1.IH" [OF refl refl refl False refl n [symmetric] refl l q] "1.prems"(2) by auto
  qed
qed

lemma insertIntoConn_quiet: "insertIntoConn t ts a conn = Inr (a', conn') \<Longrightarrow> keeps_quiet a conn a' conn'"
proof -
  assume i: "insertIntoConn t ts a conn = Inr (a', conn')"
  obtain p d where n: "pc_next ts (pc a) = (p, d)" by force
  obtain ps c where l: "pages_loop (RST t \<or> FIN t) ts p (Seq t) (Payload t) d = (ps, c)" by force
  have ps: "pagesFromTCP t ts (pc a) = (ps, c)" by (simp add: pagesFromTCP_def n l)
  obtain prevs nexts where tr: "traverseConn conn (Seq t) = (prevs, nexts)" by force
  let ?a = "a\<lparr>pc := c\<rparr>"
  let ?conn = "(pushBetween prevs nexts ps conn)\<lparr>pages := pages conn + int (length ps)\<rparr>"
  have q: "set (queue ?conn) = set (queue conn) \<union> set ps"
    using arg_cong [OF traverseConn_split [OF tr], of set] by (auto simp: pushBetween_def)
  have "keeps_quiet a conn ?a ?conn"
    unfolding keeps_quiet_def
  proof (intro conjI impI)
    assume a: "quiet_asm a" "quiet_conn conn"
    have f: "\<not> Start (rea p)" "\<forall>q\<in>set (pc_free d). \<not> Start (rea q)" "0 < pcSize d"
      using pc_next_quiet [OF n] a(1) by (simp_all add: quiet_asm_def)
    show "quiet_asm ?a" "quiet_conn ?conn"
      using pages_loop_quiet [OF l f] a q by (simp_all add: quiet_asm_def quiet_conn_def ball_Un)
  qed simp_all
  moreover have "(a', conn') = (?a, ?conn) \<or> addNextFromConn ?a ?conn = Inr (a', conn')"
    using i by (auto simp: insertIntoConn_def ps tr Let_def pushBetween_def split: if_splits)
  ultimately show ?thesis using addNextFromConn_quiet keeps_quiet_trans by blast
qed

lemma assembleConn_quiet:
  assumes "assembleConn t ts c a conn = Inr (a', conn')" "SYN t \<longrightarrow> Payload t = []"
  shows "keeps_quiet a conn a' conn'"
proof -
  let ?conn = "if lastSeen conn < ts then conn\<lparr>lastSeen := ts\<rparr> else conn"
  have c0: "keeps_quiet a conn a ?conn" by (simp add: keeps_quiet_def quiet_conn_def)
  have ret: "keeps_quiet a ?conn (a\<lparr>ret := ret a @ [r]\<rparr>) (?conn\<lparr>nextSeq := n\<rparr>)" if "no_data_start r" for r n
    using that by (auto simp: keeps_quiet_def quiet_asm_def quiet_conn_def)
  obtain a1 conn1 where 1: "keeps_quiet a ?conn a1 conn1"
    "(if ret a1 \<noteq> [] then sendToConnection c a1 conn1 else Inr (a1, conn1)) = Inr (a', conn')"
  proof (cases "nextSeq ?conn = invalidSequence")
    case True
    let ?r = "\<lparr>Bytes = Payload t, Skip = if \<not> SYN t then -1 else 0, Start = SYN t, End = False, Seen = ts\<rparr>"
    let ?n = "if \<not> SYN t then Add (Seq t) (int (length (Payload t))) else Add (Seq t) (int (length (Payload t)) + 1)"
    obtain a1 conn1 where i: "insertIntoConn t ts (a\<lparr>ret := ret a @ [?r]\<rparr>) (?conn\<lparr>nextSeq := ?n\<rparr>) = Inr (a1, conn1)"
      "(if ret a1 \<noteq> [] then sendToConnection c a1 conn1 else Inr (a1, conn1)) = Inr (a', conn')"
      using assms(1) True by (auto simp: assembleConn_def rbind_eq_Inr Let_def split: if_splits)
    have "no_data_start ?r" using assms(2) by (simp add: no_data_start_def)
    from keeps_quiet_trans [OF ret [OF this] insertIntoConn_quiet [OF i(1)]] i(2) that show ?thesis by blast
  next
    case False
    note n = this
    show ?thesis
    proof (cases "Difference (nextSeq ?conn) (Seq t) > 0")
      case True
      then obtain a1 conn1 where i: "insertIntoConn t ts a ?conn = Inr (a1, conn1)"
        "(if ret a1 \<noteq> [] then sendToConnection c a1 conn1 else Inr (a1, conn1)) = Inr (a', conn')"
        using assms(1) n by (auto simp: assembleConn_def rbind_eq_Inr Let_def split: if_splits)
      then show ?thesis using that insertIntoConn_quiet by blast
    next
      case False
      obtain bs nx where bs: "byteSpan (nextSeq ?conn) (Seq t) (Payload t) = (bs, nx)" by force
      let ?r = "\<lparr>Bytes = bs, Skip = 0, Start = False, End = RST t \<or> FIN t, Seen = ts\<rparr>"
      have "(if ret a @ [?r] \<noteq> [] then sendToConnection c (a\<lparr>ret := ret a @ [?r]\<rparr>) (?conn\<lparr>nextSeq := nx\<rparr>)
          else Inr (a\<lparr>ret := ret a @ [?r]\<rparr>, ?conn\<lparr>nextSeq := nx\<rparr>)) = Inr (a', conn')"
        using assms(1) n False bs by (simp add: assembleConn_def Let_def split: if_splits)
      then show ?thesis using that ret [of ?r nx] by (fastforce simp: no_data_start_def)
    qed
  qed
  have "keeps_quiet a1 conn1 a' conn'"
    using 1(2) sendToConnection_quiet by (fastforce split: if_splits)
  then show ?thesis using c0 1(1) keeps_quiet_trans by blast
qed

lemma flushOlder_loop_quiet: "flushOlder_loop c t fl a conn = Inr (a', conn', f, n) \<Longrightarrow> keeps_quiet a conn a' conn'"
proof (induction c t fl a conn arbitrary: a' conn' f n rule: flushOlder_loop.induct)
  case (1 c t fl a conn)
  show ?case
  proof (cases "queue conn \<noteq> [] \<and> Seen (rea (hd (queue conn))) < t")
    case True
    with "1.prems" obtain a1 conn1 where s: "skipFlush c a conn = Inr (a1, conn1)"
      "(if closed conn1 then Inr (a1, conn1, True, 1) else flushOlder_loop c t True a1 conn1) = Inr (a', conn', f, n)"
      by (subst (asm) flushOlder_loop.simps) (auto simp: rbind_eq_Inr)
    have "keeps_quiet a1 conn1 a' conn'"
      using s(2) "1.IH" [OF True s(1) refl] by (cases "closed conn1") auto
    then show ?thesis using skipFlush_quiet [OF s(1)] keeps_quiet_trans by blast
  next
    case False
    with "1.prems" show ?thesis by (simp add: flushOlder_loop.simps)
  qed
qed

lemma flushOlderConn_quiet: "flushOlderConn c t a conn = Inr (a', conn', f, n) \<Longrightarrow> keeps_quiet a conn a' conn'"
proof (cases "closed conn")
  case False
  assume "flushOlderConn c t a conn = Inr (a', conn', f, n)"
  with False obtain a1 conn1 f1 n1 where 1: "flushOlder_loop c t False a conn = Inr (a1, conn1, f1, n1)"
    "(if \<not> closed conn1 \<and> queue conn1 = [] \<and> lastSeen conn1 < t
      then rbind (closeConnection c a1 conn1) (\<lambda>(a, conn). Inr (a, conn, True, n1 + 1))
      else Inr (a1, conn1, f1, n1)) = Inr (a', conn', f, n)"
    by (auto simp: flushOlderConn_def rbind_eq_Inr)
  have "keeps_quiet a1 conn1 a' conn'"
    using 1(2) closeConnection_quiet by (fastforce simp: rbind_eq_Inr split: if_splits)
  then show ?thesis using flushOlder_loop_quiet [OF 1(1)] keeps_quiet_trans by blast
qed (simp add: flushOlderConn_def)

lemma flushAll_loop_quiet: "flushAll_loop c a conn = Inr (a', conn') \<Longrightarrow> keeps_quiet a conn a' conn'"
proof (induction c a conn arbitrary: a' conn' rule: flushAll_loop.induct)
  case (1 c a conn)
  show ?case
  proof (cases "closed conn")
    case False
    with "1.prems" obtain a1 conn1 where s: "skipFlush c a conn = Inr (a1, conn1)" "flushAll_loop c a1 conn1 = Inr (a', conn')"
      by (subst (asm) flushAll_loop.simps) (auto simp: rbind_eq_Inr)
    from "1.IH" [OF False s(1) refl s(2)] skipFlush_quiet [OF s(1)] keeps_quiet_trans show ?thesis by blast
  next
    case True
    with "1.prems" show ?thesis by (simp add: flushAll_loop.simps)
  qed
qed

text \<open>The whole assembler.\<close>

definition quiet :: "'k Assembler \<Rightarrow> bool" where
  "quiet a \<longleftrightarrow> quiet_asm a \<and> (\<forall>c. quiet_conn (store (connPool a) c))"

definition grows :: "'k Assembler \<Rightarrow> 'k Assembler \<Rightarrow> bool" where
  "grows a a' \<longleftrightarrow> (quiet a \<longrightarrow> quiet a') \<and> (\<exists>l. log a' = log a @ l)"

lemma grows_refl [simp]: "grows a a"
  by (simp add: grows_def)

lemma grows_trans: "grows a b \<Longrightarrow> grows b c \<Longrightarrow> grows a c"
  unfolding grows_def by (elim conjE exE) simp

lemma keeps_quiet_grows:
  assumes "keeps_quiet a (store (connPool a) c) a' conn'"
  shows "grows a (a'\<lparr>connPool := put c conn' (connPool a')\<rparr>)"
proof -
  let ?a = "a'\<lparr>connPool := put c conn' (connPool a')\<rparr>"
  have "quiet ?a" if q: "quiet a"
  proof -
    have "quiet_asm a'" "quiet_conn conn'" "store (connPool a') = store (connPool a)"
      using assms q by (auto simp: keeps_quiet_def quiet_def)
    then show ?thesis using q by (simp add: quiet_def quiet_asm_def put_def)
  qed
  then show ?thesis using assms by (auto simp: keeps_quiet_def grows_def)
qed

lemma getConnection_grows: "grows a (snd (getConnection k ended ts a))"
proof (cases "ended \<or> conns (connPool a) k \<noteq> None")
  case True
  then show ?thesis by (simp add: getConnection_def)
next
  case False
  define p where "p = (if p_free (connPool a) = [] then pool_grow (connPool a) else connPool a)"
  have st: "store p = store (connPool a)" by (simp add: p_def pool_grow_def)
  obtain c conn p' where n: "newConnection k (streams a) ts (connPool a) = (c, p')" "store p' = (store p)(c := conn)" "queue conn = []"
    by (auto simp: newConnection_def Let_def put_def reset_def simp flip: p_def)
  let ?a = "snd (getConnection k ended ts a)"
  have a: "pc ?a = pc a" "ret ?a = ret a" "log ?a = log a @ [New k (streams a)]" "store (connPool ?a) = (store p)(c := conn)"
    using False n by (auto simp: getConnection_def Let_def split: option.splits)
  show ?thesis
    unfolding grows_def quiet_def quiet_asm_def a st using n(3) by (auto simp: quiet_conn_def)
qed

lemma openConnection_grows:
  assumes "ainv a" "openConnection k ended ts a = Some (r, a')"
  shows "grows a a'"
proof -
  have "(r, a') = getConnection k ended ts a"
  proof (cases "conns (connPool a) k")
    case None
    show ?thesis
    proof (cases ended)
      case True
      then show ?thesis using None assms(2) by (simp add: openConnection.simps getConnection_def)
    next
      case False
      obtain c a1 where g: "getConnection k False ts a = (Some c, a1)" "ainv a1" "live a1 k c (streams a)"
        using getConnection_new [OF assms(1) None, of ts] by blast
      have "\<not> closed (store (connPool a1) c)"
        using ainvD(3) [OF g(2), of k c] g(3) by (simp add: live_def conn_at_def)
      then show ?thesis using False g(1) assms(2) by (simp add: openConnection.simps)
    qed
  next
    case (Some c)
    have "\<not> closed (store (connPool a) c)" using ainvD(3) [OF assms(1) Some] by (simp add: conn_at_def)
    then have "openConnection k ended ts a = Some (Some c, a)"
      using Some by (simp add: openConnection.simps getConnection_def)
    then show ?thesis using Some assms(2) by (simp add: getConnection_def)
  qed
  then show ?thesis using getConnection_grows [of a k ended ts] by (metis snd_conv)
qed

lemma AssembleWithTimestamp_grows:
  assumes "ainv a" "AssembleWithTimestamp k t ts a = Inr a'" "SYN t \<longrightarrow> Payload t = []"
  shows "grows a a'"
proof (cases "\<not> SYN t \<and> \<not> FIN t \<and> \<not> RST t \<and> Payload t = []")
  case True
  then show ?thesis using assms(2) by (simp add: AssembleWithTimestamp_def)
next
  case False
  let ?a = "a\<lparr>ret := []\<rparr>"
  have 0: "grows a ?a" by (auto simp: grows_def quiet_def quiet_asm_def)
  have inv: "ainv ?a" using assms(1) by simp
  obtain r a1 where o: "openConnection k (\<not> SYN t \<and> Payload t = []) ts ?a = Some (r, a1)"
    using assms(2) False by (auto simp: AssembleWithTimestamp_def Let_def split: option.splits)
  have 1: "grows a a1" using 0 openConnection_grows [OF inv o] grows_trans by blast
  show ?thesis
  proof (cases r)
    case None
    then show ?thesis using 1 assms(2) False o by (auto simp: AssembleWithTimestamp_def Let_def)
  next
    case (Some c)
    then obtain a2 conn where e: "assembleConn t ts c a1 (store (connPool a1) c) = Inr (a2, conn)"
      "a' = a2\<lparr>connPool := put c conn (connPool a2)\<rparr>"
      using assms(2) False o by (auto simp: AssembleWithTimestamp_def Let_def rbind_eq_Inr)
    show ?thesis using keeps_quiet_grows [OF assembleConn_quiet [OF e(1) assms(3)]] 1 e(2) grows_trans by blast
  qed
qed

lemma FlushOlderThan_grows: "FlushOlderThan cs t a = Inr (f, n, a') \<Longrightarrow> grows a a'"
proof (induction cs arbitrary: a f n)
  case (Cons c cs)
  then obtain a1 conn1 f1 n1 f2 n2 where 1: "flushOlderConn c t a (store (connPool a) c) = Inr (a1, conn1, f1, n1)"
    "FlushOlderThan cs t (a1\<lparr>connPool := put c conn1 (connPool a1)\<rparr>) = Inr (f2, n2, a')"
    by (auto simp: rbind_eq_Inr)
  show ?case using keeps_quiet_grows [OF flushOlderConn_quiet [OF 1(1)]] Cons.IH [OF 1(2)] grows_trans by blast
qed simp

lemma FlushAll_grows: "FlushAll cs a = Inr (n, a') \<Longrightarrow> grows a a'"
proof (induction cs arbitrary: a n)
  case (Cons c cs)
  then obtain a1 conn1 n1 where 1: "flushAll_loop c a (store (connPool a) c) = Inr (a1, conn1)"
    "FlushAll cs (a1\<lparr>connPool := put c conn1 (connPool a1)\<rparr>) = Inr (n1, a')"
    by (auto simp: rbind_eq_Inr)
  show ?case using keeps_quiet_grows [OF flushAll_loop_quiet [OF 1(1)]] Cons.IH [OF 1(2)] grows_trans by blast
qed simp

lemma quiet_new: "quiet (NewAssembler perConn maxTotal)"
  by (auto simp: quiet_def quiet_asm_def quiet_conn_def NewAssembler_def newPageCache_def pc_grow_def zeroPage_def zeroReassembly_def
      NewStreamPool_def zeroConnection_def initialAllocSize_def)

subsection \<open>The assembler drives the streams\<close>

text \<open>
  What the assembler promises about its calls is what the streams need: \<open>streamCalls\<close> succeeds on
  the log of an assembler, and the streams that are open are those whose calls have begun and not
  been completed.
\<close>

definition calls_shape :: "nat \<Rightarrow> 'k call list \<Rightarrow> bool" where
  "calls_shape s cs \<longleftrightarrow> cs = [] \<or>
     (\<exists>k rss fin. cs = New k s # map (Reassembled s) rss @ (if fin then [ReassemblyComplete s] else []))"

definition well_used :: "'k call list \<Rightarrow> bool" where
  "well_used l \<longleftrightarrow> (\<forall>s. calls_shape s (calls_of s l)) \<and>
     (\<forall>s rs. Reassembled s rs \<in> set l \<longrightarrow> (\<forall>r\<in>set rs. no_data_start r))"

definition open_in :: "nat \<Rightarrow> 'k call list \<Rightarrow> bool" where
  "open_in s l \<longleftrightarrow> calls_of s l \<noteq> [] \<and> ReassemblyComplete s \<notin> set (calls_of s l)"

lemma shape_snoc:
  assumes "calls_shape s (cs @ [c])"
  shows "(\<exists>k. c = New k s \<and> cs = []) \<or> (\<exists>k rss rs. c = Reassembled s rs \<and> cs = New k s # map (Reassembled s) rss) \<or>
    (\<exists>k rss. c = ReassemblyComplete s \<and> cs = New k s # map (Reassembled s) rss)"
proof -
  obtain k rss fin where e: "cs @ [c] = New k s # map (Reassembled s) rss @ (if fin then [ReassemblyComplete s] else [])"
    using assms by (auto simp: calls_shape_def)
  show ?thesis
  proof (cases fin)
    case True
    then have "cs @ [c] = (New k s # map (Reassembled s) rss) @ [ReassemblyComplete s]" using e by simp
    then show ?thesis by (metis append1_eq_conv)
  next
    case False
    show ?thesis
    proof (cases rss rule: rev_cases)
      case Nil
      then show ?thesis using e False by (cases cs) auto
    next
      case (snoc rss' rs)
      then have "cs @ [c] = (New k s # map (Reassembled s) rss') @ [Reassembled s rs]" using e False by simp
      then show ?thesis by (metis append1_eq_conv)
    qed
  qed
qed

lemma shape_butlast: "calls_shape s (cs @ [c]) \<Longrightarrow> calls_shape s cs"
proof (frule shape_snoc, elim disjE exE conjE)
  fix k rss assume "cs = New k s # map (Reassembled s) rss"
  then show "calls_shape s cs" unfolding calls_shape_def by (intro disjI2 exI [of _ k] exI [of _ rss] exI [of _ False]) simp
next
  fix k rss assume "cs = New k s # map (Reassembled s) rss"
  then show "calls_shape s cs" unfolding calls_shape_def by (intro disjI2 exI [of _ k] exI [of _ rss] exI [of _ False]) simp
qed (simp add: calls_shape_def)

lemma well_used_snoc: "well_used (l @ [c]) \<Longrightarrow> well_used l \<and> (about s c \<longrightarrow> calls_shape s (calls_of s l @ [c]))"
proof -
  assume w: "well_used (l @ [c])"
  have sh: "calls_shape s (calls_of s l @ (if about s c then [c] else []))" for s
    using w unfolding well_used_def calls_of_append by (simp only: calls_of_simps)
  then have "calls_shape s (calls_of s l)" for s
    using sh [of s] shape_butlast by (cases "about s c") auto
  then show ?thesis using w sh [of s] by (auto simp: well_used_def)
qed

lemma streamCalls_append:
  "streamCalls flip src dst (l @ l') s = rbind (streamCalls flip src dst l s) (streamCalls flip src dst l')"
proof (induction l arbitrary: s)
  case (Cons c l)
  have "streamCalls flip src dst (l @ l') = (\<lambda>s. rbind (streamCalls flip src dst l s) (streamCalls flip src dst l'))"
    using Cons.IH by blast
  then show ?case by (simp add: rbind_assoc)
qed simp

definition open_handles :: "(nat \<rightharpoonup> handle) \<Rightarrow> 'k call list \<Rightarrow> handle set" where
  "open_handles hs l = {h. \<exists>s. open_in s l \<and> hs s = Some h}"

definition streams_match :: "('f \<Rightarrow> 'f) \<Rightarrow> ('f \<Rightarrow> string) \<Rightarrow> ('f \<Rightarrow> string) \<Rightarrow> ('f \<times> 'f) call list \<Rightarrow> 'f openStreams \<Rightarrow> bool" where
  "streams_match flip src dst l st \<longleftrightarrow> osrun flip src dst (snd st) (open_handles (fst st) l) \<and>
     (\<forall>s. fst st s = None \<longleftrightarrow> calls_of s l = []) \<and>
     (\<forall>s s' h. open_in s l \<longrightarrow> open_in s' l \<longrightarrow> fst st s = Some h \<longrightarrow> fst st s' = Some h \<longrightarrow> s = s')"

lemma open_in_snoc: "open_in s (l @ [c]) = (if about s c then ReassemblyComplete s \<notin> set (calls_of s l) \<and> c \<noteq> ReassemblyComplete s else open_in s l)"
  by (auto simp: open_in_def)

lemma streamCall_ok:
  assumes w: "well_used (l @ [c])" and m: "streams_match flip src dst l (hs, os)"
  shows "\<exists>st. streamCall flip src dst c (hs, os) = Inr st \<and> streams_match flip src dst (l @ [c]) st"
proof -
  define H where "H = open_handles hs l"
  have r: "osrun flip src dst os H" and none: "\<And>s. hs s = None \<longleftrightarrow> calls_of s l = []"
    and inj: "\<And>s s' h. open_in s l \<Longrightarrow> open_in s' l \<Longrightarrow> hs s = Some h \<Longrightarrow> hs s' = Some h \<Longrightarrow> s = s'"
    using m unfolding streams_match_def H_def by auto
  note inv = osrun_inv [OF r]
  have old: "open_in s l" "hs s \<noteq> None" if "calls_of s l = New k s # map (Reassembled s) rss" for s k rss
    using that none [of s] by (auto simp: open_in_def)
  show ?thesis
  proof (cases c)
    case (New k s)
    have "calls_of s l = []" using well_used_snoc [OF w, of s] New shape_snoc by fastforce
    then have s: "hs s = None" "\<not> open_in s l" using none by (auto simp: open_in_def)
    obtain h os' where n: "OpStream_New flip (fst k) (snd k) os = (h, os')" by (metis prod.exhaust)
    have h: "h \<notin> H" using OpStream_New_inv [OF inv n] by simp
    have o: "open_in s' (l @ [c]) = (s' = s \<or> open_in s' l)" for s'
      using \<open>calls_of s l = []\<close> New by (auto simp: open_in_snoc open_in_def)
    have "open_handles (hs(s \<mapsto> h)) (l @ [c]) = insert h H"
      using s by (auto simp: open_handles_def H_def o)
    then have "osrun flip src dst os' (open_handles (hs(s \<mapsto> h)) (l @ [c]))"
      using osrun.new [OF r n] by simp
    moreover have "(hs(s \<mapsto> h)) s' = None \<longleftrightarrow> calls_of s' (l @ [c]) = []" for s'
      using none New by auto
    moreover have "s1 = s2" if "open_in s1 (l @ [c])" "open_in s2 (l @ [c])" "(hs(s \<mapsto> h)) s1 = Some h'" "(hs(s \<mapsto> h)) s2 = Some h'" for s1 s2 h'
    proof -
      have ne: False if "open_in s' l" "hs s' = Some h" for s' using h that by (auto simp: H_def open_handles_def)
      show ?thesis using that o inj ne by (auto split: if_splits)
    qed
    ultimately show ?thesis using n New by (auto simp: streams_match_def)
  next
    case (Reassembled s rs)
    obtain k rss where cs: "calls_of s l = New k s # map (Reassembled s) rss"
      using well_used_snoc [OF w, of s] Reassembled shape_snoc [of s "calls_of s l" c] by auto
    obtain h where h: "hs s = Some h" using old(2) [OF cs] by auto
    have hH: "h \<in> H" using h old(1) [OF cs] by (auto simp: H_def open_handles_def)
    have rs: "\<forall>r\<in>set rs. Start r \<longrightarrow> Bytes r = []"
      using w Reassembled by (simp add: well_used_def no_data_start_def)
    obtain os' where os': "OpStream_Reassembled src dst h rs os = Inr os'"
      using OpStream_Reassembled_inv [OF inv hH rs] by blast
    have o: "open_in s' (l @ [c]) = open_in s' l" for s'
      using Reassembled old(1) [OF cs] by (auto simp: open_in_snoc open_in_def)
    have "open_handles hs (l @ [c]) = H" by (simp add: open_handles_def H_def o)
    moreover have "hs s' = None \<longleftrightarrow> calls_of s' (l @ [c]) = []" for s'
      using none Reassembled cs by auto
    ultimately have "streams_match flip src dst (l @ [c]) (hs, os')"
      using osrun.data [OF r hH rs os'] inj o by (auto simp: streams_match_def)
    then show ?thesis using Reassembled h os' by simp
  next
    case (ReassemblyComplete s)
    obtain k rss where cs: "calls_of s l = New k s # map (Reassembled s) rss"
      using well_used_snoc [OF w, of s] ReassemblyComplete shape_snoc [of s "calls_of s l" c] by auto
    obtain h where h: "hs s = Some h" using old(2) [OF cs] by auto
    have hH: "h \<in> H" using h old(1) [OF cs] by (auto simp: H_def open_handles_def)
    obtain os' where os': "OpStream_ReassemblyComplete h os = Inr os'"
      using OpStream_ReassemblyComplete_inv [OF inv hH] by blast
    have o: "open_in s' (l @ [c]) = (s' \<noteq> s \<and> open_in s' l)" for s'
      using ReassemblyComplete by (auto simp: open_in_snoc)
    have "open_handles hs (l @ [c]) = H - {h}"
    proof (intro set_eqI iffI)
      fix h' assume "h' \<in> open_handles hs (l @ [c])"
      then obtain s' where "s' \<noteq> s" "open_in s' l" "hs s' = Some h'" by (auto simp: open_handles_def o)
      then show "h' \<in> H - {h}" using inj [of s' s h] h old(1) [OF cs] by (auto simp: H_def open_handles_def)
    next
      fix h' assume "h' \<in> H - {h}"
      then obtain s' where s': "open_in s' l" "hs s' = Some h'" "h' \<noteq> h" by (auto simp: open_handles_def H_def)
      then have "s' \<noteq> s" using h by auto
      then show "h' \<in> open_handles hs (l @ [c])" using s' by (auto simp: open_handles_def o simp del: split_paired_Ex)
    qed
    moreover have "hs s' = None \<longleftrightarrow> calls_of s' (l @ [c]) = []" for s'
      using none ReassemblyComplete cs by auto
    ultimately have "streams_match flip src dst (l @ [c]) (hs, os')"
      using osrun.complete [OF r hH os'] inj o by (auto simp: streams_match_def)
    then show ?thesis using ReassemblyComplete h os' by simp
  qed
qed

lemma streamCalls_ok:
  "well_used l \<Longrightarrow> \<exists>st. streamCalls flip src dst l (Map.empty, NewMongoOpStream b0) = Inr st \<and> streams_match flip src dst l st"
proof (induction l rule: rev_induct)
  case Nil
  then show ?case using osrun.init by (simp add: streams_match_def open_handles_def open_in_def)
next
  case (snoc c l)
  then obtain hs os where "streamCalls flip src dst l (Map.empty, NewMongoOpStream b0) = Inr (hs, os)" "streams_match flip src dst l (hs, os)"
    using well_used_snoc [OF snoc.prems] by auto
  then show ?case using streamCall_ok [OF snoc.prems] by (fastforce simp: streamCalls_append)
qed

lemma well_used_log: "ainv a \<Longrightarrow> quiet a \<Longrightarrow> well_used (log a)"
proof -
  assume a: "ainv a" "quiet a"
  have "calls_shape s (calls_of s (log a))" for s
  proof (cases "s < streams a")
    case True
    then consider k where "finished k s (log a)" | k c where "live a k c s" using a(1) by (auto simp: ainv_def)
    then show ?thesis
    proof cases
      case 1
      then obtain rss where "calls_of s (log a) = New k s # map (Reassembled s) rss @ [ReassemblyComplete s]"
        by (auto simp: finished_def)
      then show ?thesis unfolding calls_shape_def by (intro disjI2 exI [of _ k] exI [of _ rss] exI [of _ True]) simp
    next
      case 2
      then have "begun k s (log a)" using ainvD(6) [OF a(1), of k c] by (auto simp: live_def)
      then obtain rss where "calls_of s (log a) = New k s # map (Reassembled s) rss" by (auto simp: begun_def)
      then show ?thesis unfolding calls_shape_def by (intro disjI2 exI [of _ k] exI [of _ rss] exI [of _ False]) simp
    qed
  next
    case False
    then show ?thesis using a(1) by (simp add: ainv_def calls_shape_def)
  qed
  then show ?thesis using a(2) by (auto simp: well_used_def quiet_def quiet_asm_def)
qed

subsection \<open>The whole capture\<close>

definition quiet_packet :: "('n, 'f) event \<Rightarrow> bool" where
  "quiet_packet e \<longleftrightarrow> (case e of
     Captured pkt \<Rightarrow> (case tcpLayer pkt of None \<Rightarrow> True | Some (_, t) \<Rightarrow> SYN t \<longrightarrow> Payload t = []) | _ \<Rightarrow> True)"

text \<open>The order in which the map of connections is walked: each of its connections once.\<close>

definition visits :: "(('f \<times> 'f) Assembler \<Rightarrow> nat list) \<Rightarrow> bool" where
  "visits visit \<longleftrightarrow> (\<forall>a. finite (ran (conns (connPool a))) \<longrightarrow> distinct (visit a) \<and> set (visit a) = ran (conns (connPool a)))"

lemma visits_ainv: "visits visit \<Longrightarrow> ainv a \<Longrightarrow> distinct (visit a) \<and> set (visit a) = ran (conns (connPool a))"
proof -
  assume v: "visits visit" and a: "ainv a"
  have "ran (conns (connPool a)) \<subseteq> {..<allocated (connPool a)}" using ainvD(1) [OF a] by (auto simp: ran_def)
  then have "finite (ran (conns (connPool a)))" by (rule finite_subset) simp
  then show ?thesis using v by (simp add: visits_def)
qed

definition handler_ok :: "('f \<Rightarrow> 'f) \<Rightarrow> ('f \<Rightarrow> string) \<Rightarrow> ('f \<Rightarrow> string) \<Rightarrow> 'f bidi \<Rightarrow> 'f handler \<Rightarrow> bool" where
  "handler_ok flip src dst b0 st \<longleftrightarrow> ainv (assembler st) \<and> quiet (assembler st) \<and>
     streamCalls flip src dst (log (assembler st)) (Map.empty, NewMongoOpStream b0) = Inr (handles st, opStream st) \<and>
     streams_match flip src dst (log (assembler st)) (handles st, opStream st)"

lemma handler_ok_new: "handler_ok flip src dst b0 (newHandler maxPages b0)"
  using streamCalls_ok [of "[]" flip src dst b0] ainv_new [of 0 maxPages] quiet_new [of 0 maxPages]
  by (simp add: handler_ok_def newHandler_def NewAssembler_def well_used_def calls_shape_def)

lemma handler_ok_fields [simp]:
  "handler_ok flip src dst b0 (st\<lparr>lastPacket := t\<rparr>) = handler_ok flip src dst b0 st"
  "handler_ok flip src dst b0 (st\<lparr>count := n\<rparr>) = handler_ok flip src dst b0 st"
  "handler_ok flip src dst b0 (st\<lparr>firstSeen := u\<rparr>) = handler_ok flip src dst b0 st"
  by (simp_all add: handler_ok_def)

lemma drives_ok:
  assumes ok: "handler_ok flip src dst b0 st" and g: "grows (assembler st) a'" and inv: "ainv a'"
  shows "\<exists>hs os. drives flip src dst a' st = Inr (st\<lparr>assembler := a', handles := hs, opStream := os\<rparr>) \<and>
    handler_ok flip src dst b0 (st\<lparr>assembler := a', handles := hs, opStream := os\<rparr>)"
proof -
  obtain l where l: "log a' = log (assembler st) @ l" using g by (auto simp: grows_def)
  have q: "quiet a'" using g ok by (simp add: grows_def handler_ok_def)
  obtain hs os where s: "streamCalls flip src dst (log a') (Map.empty, NewMongoOpStream b0) = Inr (hs, os)"
    "streams_match flip src dst (log a') (hs, os)"
    using streamCalls_ok [OF well_used_log [OF inv q], of flip src dst b0] by auto
  have "streamCalls flip src dst l (handles st, opStream st) = Inr (hs, os)"
    using s(1) ok by (simp add: handler_ok_def l streamCalls_append)
  then have "drives flip src dst a' st = Inr (st\<lparr>assembler := a', handles := hs, opStream := os\<rparr>)"
    by (simp add: drives_def l)
  then show ?thesis using s inv q by (auto simp: handler_ok_def)
qed

lemma handlePacket_ok:
  assumes ok: "handler_ok flip src dst b0 st" and q: "quiet_packet (Captured pkt)"
  shows "\<exists>st'. handlePacket flip src dst pkt st = Inr st' \<and> handler_ok flip src dst b0 st'"
proof (cases "tcpLayer pkt")
  case None
  then show ?thesis using ok by (simp add: handlePacket_def Let_def)
next
  case (Some ft)
  obtain f t where ft: "ft = (f, t)" by force
  have st: "SYN t \<longrightarrow> Payload t = []" using q Some ft by (simp add: quiet_packet_def)
  have inv: "ainv (assembler st)" using ok by (simp add: handler_ok_def)
  obtain a' where a: "AssembleWithTimestamp (f, f) t (timestamp pkt) (assembler st) = Inr a'" "ainv a'"
    using AssembleWithTimestamp_ok [OF inv] by blast
  have "handler_ok flip src dst b0 (st\<lparr>lastPacket := Some (timestamp pkt)\<rparr>)" using ok by simp
  from drives_ok [OF this, of a'] AssembleWithTimestamp_grows [OF inv a(1) st] a(2)
  obtain st' where "drives flip src dst a' (st\<lparr>lastPacket := Some (timestamp pkt)\<rparr>) = Inr st'" "handler_ok flip src dst b0 st'"
    by auto
  then show ?thesis using Some ft a(1) by (simp add: handlePacket_def Let_def)
qed

lemma bookkeep_ok:
  assumes ok: "handler_ok flip src dst b0 st" and v: "visits visit"
  shows "\<exists>st'. bookkeep flip src dst visit st = Inr st' \<and> handler_ok flip src dst b0 st'"
proof (cases "lastPacket st")
  case None
  then show ?thesis using ok by (simp add: bookkeep_def)
next
  case (Some ts)
  have inv: "ainv (assembler st)" using ok by (simp add: handler_ok_def)
  obtain f n a' where a: "FlushOlderThan (visit (assembler st)) (ts - five_minutes) (assembler st) = Inr (f, n, a')" "ainv a'"
    using FlushOlderThan_ok [OF inv] visits_ainv [OF v inv] by blast
  show ?thesis using drives_ok [OF ok FlushOlderThan_grows [OF a(1)] a(2)] Some a(1) by (auto simp: bookkeep_def)
qed

lemma handleLoop_ok:
  "handler_ok flip src dst b0 st \<Longrightarrow> visits visit \<Longrightarrow> \<forall>e\<in>set es. quiet_packet e \<Longrightarrow> EndOfCapture \<in> set es \<or> Stop \<in> set es \<Longrightarrow>
    \<exists>st'. handleLoop flip src dst visit n es st = Inr st' \<and> handler_ok flip src dst b0 st'"
proof (induction es arbitrary: st)
  case (Cons e es)
  show ?case
  proof (cases e)
    case (Captured pkt)
    obtain st' where "handlePacket flip src dst pkt st = Inr st'" "handler_ok flip src dst b0 st'"
      using handlePacket_ok [OF Cons.prems(1)] Cons.prems(3) Captured by auto
    then show ?thesis using Cons.IH Cons.prems Captured by auto
  next
    case Tick
    obtain st' where "bookkeep flip src dst visit st = Inr st'" "handler_ok flip src dst b0 st'"
      using bookkeep_ok [OF Cons.prems(1,2)] by blast
    then show ?thesis using Cons.IH Cons.prems Tick by auto
  qed (use Cons.prems(1) in auto)
qed simp

lemma Handle_ok:
  assumes ok: "handler_ok flip src dst b0 st" and v: "visits visit" and q: "\<forall>e\<in>set es. quiet_packet e"
    and e: "EndOfCapture \<in> set es \<or> Stop \<in> set es"
  shows "\<exists>st'. Handle flip src dst visit n es st = Inr st' \<and> handler_ok flip src dst b0 st' \<and>
    conns (connPool (assembler st')) = Map.empty \<and> (\<forall>s. \<not> open_in s (log (assembler st')))"
proof -
  obtain st1 where 1: "handleLoop flip src dst visit n es st = Inr st1" "handler_ok flip src dst b0 st1"
    using handleLoop_ok [OF ok v q e] by blast
  have inv: "ainv (assembler st1)" using 1(2) by (simp add: handler_ok_def)
  let ?cs = "visit (assembler st1)"
  have v': "distinct ?cs" "set ?cs = ran (conns (connPool (assembler st1)))" using visits_ainv [OF v inv] by simp_all
  obtain a' where a: "FlushAll ?cs (assembler st1) = Inr (length ?cs, a')" "ainv a'"
    "\<And>k. conns (connPool a') k = (case conns (connPool (assembler st1)) k of
              None \<Rightarrow> None | Some c \<Rightarrow> if c \<in> set ?cs then None else Some c)"
    using FlushAll_ok [OF inv v'(1)] v'(2) by auto
  have e: "conns (connPool a') = Map.empty" using a(3) v'(2) by (auto simp: fun_eq_iff ranI split: option.splits)
  have "\<not> open_in s (log a')" for s
  proof (cases "s < streams a'")
    case True
    then obtain k where "finished k s (log a')" using a(2) e by (auto simp: ainv_def live_def)
    then show ?thesis by (auto simp: finished_def open_in_def simp del: calls_of_simps)
  next
    case False
    then show ?thesis using a(2) by (simp add: ainv_def open_in_def)
  qed
  moreover obtain st' where "drives flip src dst a' st1 = Inr st'" "handler_ok flip src dst b0 st'" "assembler st' = a'"
    using drives_ok [OF 1(2) FlushAll_grows [OF a(1)] a(2)] by fastforce
  ultimately show ?thesis using 1(1) a(1) e by (auto simp: Handle_def)
qed


text \<open>
  The run of the witness: the second half of a message is captured before its first half. The
  flows are \<open>True\<close> and \<open>False\<close>, one the reverse of the other.
\<close>

definition ex_body :: bytes where
  "ex_body = [26, 0, 0, 0, 3, 0, 0, 0, 0, 0, 0, 0, 212, 7, 0, 0, 1, 2, 3, 4, 5, 6, 7, 8, 9, 10]"

lemma ex_body: "Body (ex_message 26 [1, 2, 3, 4, 5, 6, 7, 8, 9, 10]) = ex_body"
  by (simp add: ex_message_def ex_body_def Let_def OpCodeQuery_def header_bytes_def enc32_def byte_of32_def)

definition ex_visit :: "'k Assembler \<Rightarrow> nat list" where
  "ex_visit a = sorted_list_of_set (ran (conns (connPool a)))"

lemma ex_visits: "visits ex_visit"
  by (simp add: visits_def ex_visit_def)

definition ex_events :: "(unit, bool) event list" where
  "ex_events =
     [Captured \<lparr>networkFlow = (), tcpLayer = Some (True, ex_syn), timestamp = 5\<rparr>,
      Captured \<lparr>networkFlow = (), tcpLayer = Some (True, ex_seg 120 (drop 20 ex_body)), timestamp = 6\<rparr>,
      Captured \<lparr>networkFlow = (), tcpLayer = Some (True, ex_seg 100 (take 20 ex_body)), timestamp = 7\<rparr>,
      EndOfCapture]"

definition ex_src :: "bool \<Rightarrow> string" where
  "ex_src f = (if f then ''a'' else ''b'')"

lemma ex_capture_log:
  "\<exists>a. rbind (AssembleWithTimestamp (True, True) ex_syn 5 (NewAssembler 0 0)) (\<lambda>a.
       rbind (AssembleWithTimestamp (True, True) (ex_seg 120 (drop 20 ex_body)) 6 a) (\<lambda>a.
       rbind (AssembleWithTimestamp (True, True) (ex_seg 100 (take 20 ex_body)) 7 a) (\<lambda>a.
         FlushAll (ex_visit a) a))) = Inr (1, a) \<and>
     (\<forall>k s. New k s \<in> set (log a) \<longleftrightarrow> k = (True, True) \<and> s = 0) \<and> Assembly_Correct.delivered 0 (log a) =
        [\<lparr>Bytes = [], Skip = 0, Start = True, End = False, Seen = 5\<rparr>,
          \<lparr>Bytes = [], Skip = 0, Start = False, End = False, Seen = 5\<rparr>,
         \<lparr>Bytes = take 20 ex_body, Skip = 0, Start = False, End = False, Seen = 7\<rparr>,
          \<lparr>Bytes = drop 20 ex_body, Skip = 0, Start = False, End = False, Seen = 6\<rparr>]"
  by (simp add: asm_eval ex_visit_def ex_body_def FlushAll.simps flushAll_loop.simps Assembly_Correct.delivered_def del: upt_rec_numeral)


end
