(* ===== verification/Capture_Correct.thy ===== *)
theory Capture_Correct
  imports Recording_Correct
begin

text \<open>
  A conversation that is captured without loss is recorded message by message.
\<close>

subsection \<open>Hosts\<close>

text \<open>
  The handler passes the flow of the ports where the assembler expects the flow of the addresses:
  packets with the same pair of ports are one conversation to it whatever hosts they are from.
\<close>

definition readdress :: "('n \<Rightarrow> 'n) \<Rightarrow> ('n, 'f) event \<Rightarrow> ('n, 'f) event" where
  "readdress g e = (case e of Captured pkt \<Rightarrow> Captured (pkt\<lparr>networkFlow := g (networkFlow pkt)\<rparr>) | _ \<Rightarrow> e)"

lemma handlePacket_hosts: "handlePacket flip src dst (pkt\<lparr>networkFlow := h\<rparr>) = handlePacket flip src dst pkt"
  by (simp add: handlePacket_def fun_eq_iff Let_def cong: if_cong option.case_cong prod.case_cong)

lemma handleLoop_hosts: "handleLoop flip src dst visit n (map (readdress g) es) st = handleLoop flip src dst visit n es st"
proof (induction es arbitrary: st)
  case (Cons e es)
  then have "handleLoop flip src dst visit n (map (readdress g) es) = handleLoop flip src dst visit n es" by blast
  then show ?case by (simp add: readdress_def [of g e] handlePacket_hosts split: event.split)
qed simp

theorem hosts_confused: "Handle flip src dst visit n (map (readdress g) es) st = Handle flip src dst visit n es st"
  by (simp add: Handle_def handleLoop_hosts)

subsection \<open>What one direction sends\<close>

text \<open>
  The operations of a stream carry its connection and its source; whether the other stream has
  begun has no influence on them.
\<close>

definition sent_as :: "('f \<Rightarrow> string) \<Rightarrow> int \<Rightarrow> 'f stream \<Rightarrow> RecordedOp \<Rightarrow> bool" where
  "sent_as src num st op \<longleftrightarrow> \<not> isEOF op \<and> SeenConnectionNum op = num \<and> SrcEndpoint op = src (netFlow st)"

lemma streamStep_sent: "streamStep src dst num saw st = Inr (s', st', ops) \<Longrightarrow> \<forall>op\<in>set ops. sent_as src num st op"
  by (cases "state st")
    (auto simp: streamStep_def handleStreamStateInMessage_def sent_as_def zeroRecordedOp_def rbind_eq_Inr Let_def split: if_splits)

lemma sent_as_flows: "same_flows st st' \<Longrightarrow> sent_as src num st' = sent_as src num st"
  by (simp add: same_flows_def sent_as_def fun_eq_iff)

lemma bytesLoop_sent: "bytesLoop src dst num saw st = Inr (s', st', ops) \<Longrightarrow> \<forall>op\<in>set ops. sent_as src num st op"
proof (induction src dst num saw st arbitrary: s' st' ops rule: bytesLoop.induct)
  case (1 src dst num saw st)
  show ?case
  proof (cases "Bytes (reassembly st) = []")
    case True
    with "1.prems" show ?thesis by (subst (asm) bytesLoop.simps) simp
  next
    case False
    with "1.prems" obtain s1 st1 ops1 ops2 where s: "streamStep src dst num saw st = Inr (s1, st1, ops1)"
      "bytesLoop src dst num s1 st1 = Inr (s', st', ops2)" "ops = ops1 @ ops2"
      by (subst (asm) bytesLoop.simps) (auto simp: rbind_eq_Inr)
    from "1.IH" [OF False s(1) refl refl s(2)] streamStep_sent [OF s(1)] s(3) sent_as_flows [OF streamStep_flows [OF s(1)]]
    show ?thesis by auto
  qed
qed

lemma sent_as_fields: "netFlow st' = netFlow st \<Longrightarrow> sent_as src num st' = sent_as src num st"
  by (simp add: sent_as_def fun_eq_iff)

lemma streamOps_sent: "streamOps src dst num rs saw st = Inr (s', st', ops) \<Longrightarrow> \<forall>op\<in>set ops. sent_as src num st op"
proof (induction rs arbitrary: saw st ops)
  case (Cons r rs)
  show ?case
  proof (cases "Skip r > 0")
    case True
    let ?st = "st\<lparr>reassembly := r, state := OutOfSync, sop := (sop st)\<lparr>Body := []\<rparr>\<rparr>"
    have "streamOps src dst num rs saw ?st = Inr (s', st', ops)" using Cons.prems True by (simp add: Let_def)
    from Cons.IH [OF this] sent_as_fields [of ?st st src num] show ?thesis by simp
  next
    case False
    let ?st = "if Skip r < 0 then st\<lparr>reassembly := r, state := OutOfSync\<rparr> else st\<lparr>reassembly := r\<rparr>"
    obtain s1 st1 ops1 ops2 where s: "bytesLoop src dst num saw ?st = Inr (s1, st1, ops1)"
      "streamOps src dst num rs s1 st1 = Inr (s', st', ops2)" "ops = ops1 @ ops2"
      using Cons.prems False by (auto simp: Let_def rbind_eq_Inr)
    have "sent_as src num ?st = sent_as src num st" "sent_as src num st1 = sent_as src num st"
      using bytesLoop_flows [OF s(1)] by (auto simp: sent_as_def same_flows_def fun_eq_iff)
    then show ?thesis using Cons.IH [OF s(2)] bytesLoop_sent [OF s(1)] s(3) by auto
  qed
qed simp

lemma bytesLoop_saw:
  assumes "bytesLoop src dst num saw st = Inr (s', st', ops)" "\<not> Start (reassembly st)"
  shows "\<exists>s2. bytesLoop src dst num saw2 st = Inr (s2, st', ops)"
  using assms
proof (induction src dst num saw st arbitrary: saw2 s' st' ops rule: bytesLoop.induct)
  case (1 src dst num saw st)
  show ?case
  proof (cases "Bytes (reassembly st) = []")
    case True
    with "1.prems" show ?thesis by (simp add: bytesLoop.simps)
  next
    case False
    with "1.prems" obtain s1 st1 ops1 ops2 where s: "streamStep src dst num saw st = Inr (s1, st1, ops1)"
      "bytesLoop src dst num s1 st1 = Inr (s', st', ops2)" "ops = ops1 @ ops2"
      by (subst (asm) bytesLoop.simps) (auto simp: rbind_eq_Inr)
    have "\<exists>s2. streamStep src dst num saw2 st = Inr (s2, st1, ops1) \<and> \<not> Start (reassembly st1)"
      using s(1) "1.prems"(2)
      by (cases "state st")
        (auto simp: streamStep_def handleStreamStateBeforeMessage_def handleStreamStateInMessage_def
          handleStreamStateOutOfSync_def dropBytes_def rbind_eq_Inr Let_def split: if_splits)
    then obtain s2 where s2: "streamStep src dst num saw2 st = Inr (s2, st1, ops1)" "\<not> Start (reassembly st1)" by blast
    obtain s3 where "bytesLoop src dst num s2 st1 = Inr (s3, st', ops2)"
      using "1.IH" [OF False s(1) refl refl s(2) s2(2)] by blast
    then show ?thesis using False s2(1) s(3) by (subst bytesLoop.simps) simp
  qed
qed

lemma streamOps_saw:
  assumes "streamOps src dst num rs saw st = Inr (s', st', ops)" "\<forall>r\<in>set rs. no_data_start r"
  shows "\<exists>s2. streamOps src dst num rs saw2 st = Inr (s2, st', ops)"
  using assms
proof (induction rs arbitrary: saw saw2 st ops)
  case (Cons r rs)
  show ?case
  proof (cases "Skip r > 0")
    case True
    then show ?thesis using Cons.IH Cons.prems by (simp add: Let_def)
  next
    case False
    let ?st = "if Skip r < 0 then st\<lparr>reassembly := r, state := OutOfSync\<rparr> else st\<lparr>reassembly := r\<rparr>"
    obtain s1 st1 ops1 ops2 where s: "bytesLoop src dst num saw ?st = Inr (s1, st1, ops1)"
      "streamOps src dst num rs s1 st1 = Inr (s', st', ops2)" "ops = ops1 @ ops2"
      using Cons.prems False by (auto simp: Let_def rbind_eq_Inr)
    obtain s2 where 2: "bytesLoop src dst num saw2 ?st = Inr (s2, st1, ops1)"
    proof (cases "Bytes r = []")
      case True
      then show ?thesis using s(1) that by (simp add: bytesLoop.simps split: if_splits)
    next
      case False
      then have "\<not> Start (reassembly ?st)" using Cons.prems(2) by (simp add: no_data_start_def)
      then show ?thesis using bytesLoop_saw [OF s(1)] that by blast
    qed
    obtain s3 where "streamOps src dst num rs s2 st1 = Inr (s3, st', ops2)"
      using Cons.IH [OF s(2)] Cons.prems(2) by auto
    then show ?thesis using False 2 s(3) by (simp add: Let_def split: if_splits)
  qed
qed simp

lemma streamOps_append:
  "streamOps src dst num rs saw st = Inr (s1, st1, ops1) \<Longrightarrow> streamOps src dst num rs' s1 st1 = Inr (s2, st2, ops2) \<Longrightarrow>
   streamOps src dst num (rs @ rs') saw st = Inr (s2, st2, ops1 @ ops2)"
proof (induction rs arbitrary: saw st ops1)
  case (Cons r rs)
  show ?case
  proof (cases "Skip r > 0")
    case True
    then show ?thesis using Cons by (simp add: Let_def)
  next
    case False
    let ?st = "if Skip r < 0 then st\<lparr>reassembly := r, state := OutOfSync\<rparr> else st\<lparr>reassembly := r\<rparr>"
    obtain s3 st3 ops3 ops4 where s: "bytesLoop src dst num saw ?st = Inr (s3, st3, ops3)"
      "streamOps src dst num rs s3 st3 = Inr (s1, st1, ops4)" "ops1 = ops3 @ ops4"
      using Cons.prems(1) False by (auto simp: Let_def rbind_eq_Inr)
    show ?thesis using Cons.IH [OF s(2) Cons.prems(2)] s(1,3) False by (simp add: Let_def split: if_splits)
  qed
qed simp

subsection \<open>What every stream has sent\<close>

definition stream_at :: "'f MongoOpStream \<Rightarrow> handle \<Rightarrow> 'f stream" where
  "stream_at os h = (if snd h then stream1 (bidis os (fst h)) else stream0 (bidis os (fst h)))"

definition sent_by :: "('f \<Rightarrow> string) \<Rightarrow> 'f MongoOpStream \<Rightarrow> handle \<Rightarrow> RecordedOp list" where
  "sent_by src os h = filter (sent_as src (int (fst h)) (stream_at os h)) (unorderedOps os)"

text \<open>What the assembler delivered to a stream (another theory has a \<open>delivered\<close> of its own).\<close>

abbreviation handed :: "nat \<Rightarrow> 'k call list \<Rightarrow> Reassembly list" where
  "handed \<equiv> Assembly_Correct.delivered"

text \<open>The state of a stream, and what it has sent, is that of \<open>streamOps\<close> on all that was delivered to it.\<close>

definition direction_ok :: "('f \<Rightarrow> string) \<Rightarrow> ('f \<Rightarrow> string) \<Rightarrow> ('f \<times> 'f) call list \<Rightarrow> (nat \<rightharpoonup> handle) \<Rightarrow> 'f MongoOpStream \<Rightarrow> handle \<Rightarrow> bool" where
  "direction_ok src dst l hs os h \<longleftrightarrow> (\<exists>rs saw saw' st0. state st0 = BeforeMessage \<and>
     streamOps src dst (int (fst h)) rs saw st0 = Inr (saw', stream_at os h, sent_by src os h) \<and>
     (\<forall>s. hs s = Some h \<longrightarrow> rs = handed s l) \<and> (h \<notin> ran hs \<longrightarrow> rs = []))"

definition bidi_flows :: "('f \<Rightarrow> string) \<Rightarrow> 'f MongoOpStream \<Rightarrow> nat \<Rightarrow> bool" where
  "bidi_flows src os n \<longleftrightarrow> connectionNumber (bidis os n) = int n \<and>
     src (netFlow (stream_at os (n, False))) \<noteq> src (netFlow (stream_at os (n, True)))"

definition handles_ok :: "(nat \<rightharpoonup> handle) \<Rightarrow> 'f MongoOpStream \<Rightarrow> bool" where
  "handles_ok hs os \<longleftrightarrow> (\<forall>s h. hs s = Some h \<longrightarrow> fst h < nbidis os) \<and>
     (\<forall>s s' h. hs s = Some h \<longrightarrow> hs s' = Some h \<longrightarrow> s = s') \<and>
     (\<forall>k n. bidiMap os k = Some n \<longrightarrow> (n, True) \<notin> ran hs)"

definition flows_ok :: "('f \<times> 'f) call list \<Rightarrow> (nat \<rightharpoonup> handle) \<Rightarrow> 'f MongoOpStream \<Rightarrow> bool" where
  "flows_ok l hs os \<longleftrightarrow> (\<forall>k s. New k s \<in> set l \<longrightarrow> (\<exists>h. hs s = Some h \<and> netFlow (stream_at os h) = fst k))"

definition ops_numbered :: "'f MongoOpStream \<Rightarrow> bool" where
  "ops_numbered os \<longleftrightarrow> (\<forall>op\<in>set (unorderedOps os). SeenConnectionNum op < int (nbidis os))"

definition records :: "('f \<Rightarrow> string) \<Rightarrow> ('f \<Rightarrow> string) \<Rightarrow> ('f \<times> 'f) call list \<Rightarrow> (nat \<rightharpoonup> handle) \<Rightarrow> 'f MongoOpStream \<Rightarrow> bool" where
  "records src dst l hs os \<longleftrightarrow> (\<forall>n<nbidis os. bidi_flows src os n) \<and> ops_numbered os \<and> handles_ok hs os \<and> flows_ok l hs os \<and>
     (\<forall>n<nbidis os. \<forall>d. direction_ok src dst l hs os (n, d))"

lemma recordsD:
  assumes "records src dst l hs os"
  shows "n < nbidis os \<Longrightarrow> bidi_flows src os n" "ops_numbered os" "handles_ok hs os" "flows_ok l hs os"
    "n < nbidis os \<Longrightarrow> direction_ok src dst l hs os (n, d)"
  using assms unfolding records_def by blast+

lemma handles_okD:
  assumes "handles_ok hs os"
  shows "hs s = Some h \<Longrightarrow> fst h < nbidis os" "hs s = Some h \<Longrightarrow> hs s' = Some h \<Longrightarrow> s = s'"
    "bidiMap os k = Some n \<Longrightarrow> (n, True) \<notin> ran hs"
  using assms unfolding handles_ok_def by blast+

lemma direction_okI:
  "state st0 = BeforeMessage \<Longrightarrow> streamOps src dst (int (fst h)) rs saw st0 = Inr (saw', stream_at os h, sent_by src os h) \<Longrightarrow>
   (\<And>s. hs s = Some h \<Longrightarrow> rs = handed s l) \<Longrightarrow> (h \<notin> ran hs \<Longrightarrow> rs = []) \<Longrightarrow> direction_ok src dst l hs os h"
  unfolding direction_ok_def by blast

lemma direction_ok_same:
  assumes "direction_ok src dst l hs os h" "stream_at os' h = stream_at os h" "sent_by src os' h = sent_by src os h"
    "\<And>s. hs' s = Some h \<longleftrightarrow> hs s = Some h" "\<And>s. hs s = Some h \<Longrightarrow> handed s l' = handed s l"
  shows "direction_ok src dst l' hs' os' h"
proof -
  have r: "h \<in> ran hs' \<longleftrightarrow> h \<in> ran hs" using assms(4) by (auto simp: ran_def)
  obtain rs saw saw' st0 where d: "state st0 = BeforeMessage"
    "streamOps src dst (int (fst h)) rs saw st0 = Inr (saw', stream_at os h, sent_by src os h)"
    "\<And>s. hs s = Some h \<Longrightarrow> rs = handed s l" "h \<notin> ran hs \<Longrightarrow> rs = []"
    using assms(1) unfolding direction_ok_def by blast
  show ?thesis by (rule direction_okI [OF d(1), of _ _ _ rs saw saw']) (use d assms(2-5) r in auto)
qed

lemma direction_ok_fresh:
  assumes "direction_ok src dst l hs os h" "h \<notin> ran hs" "stream_at os' h = stream_at os h" "sent_by src os' h = sent_by src os h"
    "\<And>s. hs' s = Some h \<Longrightarrow> handed s l' = []"
  shows "direction_ok src dst l' hs' os' h"
proof -
  obtain saw saw' st0 where d: "state st0 = BeforeMessage"
    "streamOps src dst (int (fst h)) [] saw st0 = Inr (saw', stream_at os h, sent_by src os h)"
    using assms(1,2) unfolding direction_ok_def by blast
  show ?thesis by (rule direction_okI [OF d(1), of _ _ _ "[]" saw saw']) (use d(2) assms(3-5) in auto)
qed

lemma delivered_snoc: "handed s (l @ [c]) = handed s l @ (if about s c then payload c else [])"
  by (simp add: Assembly_Correct.delivered_def)

lemma handed_one [simp]:
  "handed s [New k s'] = []" "handed s [ReassemblyComplete s'] = []" "handed s [Reassembled s' rs] = (if s' = s then rs else [])"
  by (simp_all add: Assembly_Correct.delivered_def)

lemma delivered_none: "calls_of s l = [] \<Longrightarrow> handed s l = []"
  by (simp add: Assembly_Correct.delivered_def)

lemma records_pair:
  assumes r: "records src dst l hs os" and m: "bidiMap os k = Some n" and n: "n < nbidis os" and f: "\<And>k' i. bidiMap os k' = Some i \<Longrightarrow> k' = flow_key (bidis os i)"
    and s: "hs s = None" "calls_of s l = []"
    and os': "os' = setBidi n ((bidis os n)\<lparr>openStreamCount := openStreamCount (bidis os n) + 1\<rparr>) os\<lparr>bidiMap := (bidiMap os)(k := None)\<rparr>"
  shows "records src dst (l @ [New k s]) (hs(s \<mapsto> (n, True))) os'"
proof -
  note h = handles_okD [OF recordsD(3) [OF r]]
  have st: "stream_at os' = stream_at os" "unorderedOps os' = unorderedOps os" "nbidis os' = nbidis os"
    by (auto simp: os' stream_at_def setBidi_def fun_eq_iff)
  have sent: "sent_by src os' = sent_by src os" by (simp add: fun_eq_iff sent_by_def st)
  have fresh: "(n, True) \<notin> ran hs" by (rule h(3) [OF m])
  have hs: "(hs(s \<mapsto> (n, True))) s' = Some h' \<longleftrightarrow> (s' = s \<and> h' = (n, True)) \<or> hs s' = Some h'" for s' h'
    using s(1) by auto
  show ?thesis
    unfolding records_def
  proof (intro conjI allI impI)
    show "bidi_flows src os' i" if "i < nbidis os'" for i
      using recordsD(1) [OF r, of i] that by (auto simp: bidi_flows_def st os' setBidi_def stream_at_def)
    show "ops_numbered os'" using recordsD(2) [OF r] by (simp add: ops_numbered_def st)
    show "handles_ok (hs(s \<mapsto> (n, True))) os'"
      unfolding handles_ok_def hs st(3)
    proof (intro conjI allI impI)
      show "fst h' < nbidis os" if "(s' = s \<and> h' = (n, True)) \<or> hs s' = Some h'" for s' h' using that n h(1) [of s' h'] by auto
      show "a = b" if "(a = s \<and> h' = (n, True)) \<or> hs a = Some h'" "(b = s \<and> h' = (n, True)) \<or> hs b = Some h'" for a b h'
        using that fresh h(2) [of a h' b] by (auto intro: ranI)
      fix k' i assume i: "bidiMap os' k' = Some i"
      then have k: "k' \<noteq> k" "bidiMap os k' = Some i" by (auto simp: os' setBidi_def split: if_splits)
      have "i \<noteq> n" using f [OF k(2)] f [OF m] k(1) by metis
      then show "(i, True) \<notin> ran (hs(s \<mapsto> (n, True)))" using h(3) [OF k(2)] s(1) by (auto simp: ran_def)
    qed
    show "flows_ok (l @ [New k s]) (hs(s \<mapsto> (n, True))) os'"
      unfolding flows_ok_def
    proof (intro allI impI)
      fix k' s' assume "New k' s' \<in> set (l @ [New k s])"
      then consider "k' = k" "s' = s" | "New k' s' \<in> set l" by auto
      then show "\<exists>h. (hs(s \<mapsto> (n, True))) s' = Some h \<and> netFlow (stream_at os' h) = fst k'"
      proof cases
        case 1
        have "fst (flow_key (bidis os n)) = netFlow (stream_at os' (n, True))" unfolding st stream_at_def flow_key_def by simp
        then have "netFlow (stream_at os' (n, True)) = fst k" unfolding f [OF m, symmetric] by (rule sym)
        then show ?thesis unfolding 1 by (intro exI [of _ "(n, True)"] conjI) simp_all
      next
        case 2
        then obtain h' where h': "hs s' = Some h'" "netFlow (stream_at os h') = fst k'"
          using recordsD(4) [OF r] unfolding flows_ok_def by blast
        then have "s' \<noteq> s" "netFlow (stream_at os' h') = fst k'" using s(1) unfolding st by auto
        then show ?thesis using h'(1) by (intro exI [of _ h'] conjI) simp_all
      qed
    qed
    fix i d assume i: "i < nbidis os'"
    have ok: "direction_ok src dst l hs os (i, d)" using recordsD(5) [OF r] i by (simp add: st)
    show "direction_ok src dst (l @ [New k s]) (hs(s \<mapsto> (n, True))) os' (i, d)"
    proof (cases "(i, d) = (n, True)")
      case True
      have "handed s' (l @ [New k s]) = []" if "(hs(s \<mapsto> (n, True))) s' = Some (i, d)" for s'
        using that fresh True delivered_none [OF s(2)] by (auto intro: ranI split: if_splits)
      then show ?thesis by (rule direction_ok_fresh [OF ok, rotated 3]) (use True fresh st sent in auto)
    next
      case False
      show ?thesis
        by (rule direction_ok_same [OF ok]) (use False st sent s(1) in \<open>auto simp: hs\<close>)
    qed
  qed
qed

lemma records_new:
  assumes r: "records src dst l hs os" and s: "hs s = None" "calls_of s l = []" and m: "bidiMap os k = None"
    and d: "src (flip (fst k)) \<noteq> src (fst k)" and n: "OpStream_New flip (fst k) (snd k) os = (h, os')"
  shows "records src dst (l @ [New k s]) (hs(s \<mapsto> h)) os'"
proof -
  let ?n = "nbidis os"
  let ?b = "newBidi flip (fst k) (snd k) (int ?n)\<lparr>openStreamCount := 1\<rparr>"
  have e: "h = (?n, False)" "os' = setBidi ?n ?b (os\<lparr>nbidis := ?n + 1, bidiMap := (bidiMap os)((flip (fst k), flip (snd k)) \<mapsto> ?n)\<rparr>)"
    using n m by (auto simp: OpStream_New_def Let_def newBidi_def)
  note o = handles_okD [OF recordsD(3) [OF r]]
  have st: "unorderedOps os' = unorderedOps os" "nbidis os' = ?n + 1" by (simp_all add: e setBidi_def)
  have old: "stream_at os' h' = stream_at os h'" "sent_by src os' h' = sent_by src os h'" if "fst h' < ?n" for h'
    using that by (auto simp: e stream_at_def setBidi_def sent_by_def)
  have none: "hs s' \<noteq> Some (?n, d)" for s' d using o(1) [of s' "(?n, d)"] by auto
  have hs: "(hs(s \<mapsto> h)) s' = Some h' \<longleftrightarrow> (s' = s \<and> h' = h) \<or> hs s' = Some h'" for s' h'
    using s(1) by auto
  have new: "stream_at os' (?n, False) = newStream (fst k) (snd k)" "stream_at os' (?n, True) = newStream (flip (fst k)) (flip (snd k))"
    by (simp_all add: e stream_at_def setBidi_def newBidi_def)
  have sent: "sent_by src os' (?n, d) = []" for d
    using recordsD(2) [OF r] by (auto simp: sent_by_def st ops_numbered_def sent_as_def filter_empty_conv)
  show ?thesis
    unfolding records_def
  proof (intro conjI allI impI)
    fix i assume i: "i < nbidis os'"
    show "bidi_flows src os' i"
    proof (cases "i = ?n")
      case True
      then show ?thesis using d new by (simp add: bidi_flows_def newStream_def) (simp add: e setBidi_def newBidi_def)
    next
      case False
      then show ?thesis using recordsD(1) [OF r, of i] i by (simp add: bidi_flows_def st old) (simp add: e setBidi_def)
    qed
    fix d
    show "direction_ok src dst (l @ [New k s]) (hs(s \<mapsto> h)) os' (i, d)"
    proof (cases "i = ?n")
      case True
      show ?thesis
      proof (rule direction_okI [of "stream_at os' (i, d)" _ _ _ "[]" False False])
        show "state (stream_at os' (i, d)) = BeforeMessage" using True new by (cases d) (simp_all add: newStream_def)
        show "streamOps src dst (int (fst (i, d))) [] False (stream_at os' (i, d)) = Inr (False, stream_at os' (i, d), sent_by src os' (i, d))"
          using True sent by simp
        show "[] = handed s' (l @ [New k s])" if "(hs(s \<mapsto> h)) s' = Some (i, d)" for s'
        proof -
          have "s' = s" using that none [of s' d] True by (auto split: if_splits)
          then show ?thesis using delivered_none [OF s(2)] by (simp add: Assembly_Correct.delivered_def)
        qed
      qed simp
    next
      case False
      then have lt: "i < ?n" using i st by simp
      show ?thesis
        by (rule direction_ok_same [OF recordsD(5) [OF r lt]]) (use False lt old e(1) s(1) in \<open>auto simp: hs\<close>)
    qed
  next
    show "ops_numbered os'" using recordsD(2) [OF r] by (auto simp: ops_numbered_def st)
    show "handles_ok (hs(s \<mapsto> h)) os'"
      unfolding handles_ok_def hs st(2)
    proof (intro conjI allI impI)
      show "fst h' < ?n + 1" if "(s' = s \<and> h' = h) \<or> hs s' = Some h'" for s' h'
        using that o(1) [of s' h'] e(1) by auto
      show "a = b" if "(a = s \<and> h' = h) \<or> hs a = Some h'" "(b = s \<and> h' = h) \<or> hs b = Some h'" for a b h'
        using that none e(1) o(2) [of a h' b] by auto
      fix k' i assume "bidiMap os' k' = Some i"
      then have "i = ?n \<or> bidiMap os k' = Some i" by (auto simp: e setBidi_def split: if_splits)
      then show "(i, True) \<notin> ran (hs(s \<mapsto> h))"
        using o(3) [of k' i] none e(1) s(1) by (auto simp: ran_def)
    qed
    show "flows_ok (l @ [New k s]) (hs(s \<mapsto> h)) os'"
      unfolding flows_ok_def
    proof (intro allI impI)
      fix k' s' assume "New k' s' \<in> set (l @ [New k s])"
      then consider "k' = k" "s' = s" | "New k' s' \<in> set l" by auto
      then show "\<exists>h'. (hs(s \<mapsto> h)) s' = Some h' \<and> netFlow (stream_at os' h') = fst k'"
      proof cases
        case 1
        then show ?thesis using e(1) new by (auto simp: newStream_def)
      next
        case 2
        then obtain h' where h': "hs s' = Some h'" "netFlow (stream_at os h') = fst k'"
          using recordsD(4) [OF r] unfolding flows_ok_def by blast
        then have "s' \<noteq> s" "netFlow (stream_at os' h') = fst k'" using s(1) old(1) [OF o(1) [OF h'(1)]] by auto
        then show ?thesis using h'(1) by (intro exI [of _ h'] conjI) simp_all
      qed
    qed
  qed
qed

lemma records_data:
  assumes r: "records src dst l hs os" and h: "hs s = Some h" and q: "\<forall>r\<in>set rs. no_data_start r"
    and e: "OpStream_Reassembled src dst h rs os = Inr os'"
  shows "records src dst (l @ [Reassembled s rs]) hs os'"
proof -
  obtain n d where nd: "h = (n, d)" by force
  note o = handles_okD [OF recordsD(3) [OF r]]
  have n: "n < nbidis os" using o(1) [OF h] nd by simp
  let ?b = "bidis os n"
  have num: "connectionNumber ?b = int n" using recordsD(1) [OF r n] by (simp add: bidi_flows_def)
  obtain saw st ops where s: "streamOps src dst (int n) rs (sawStart ?b) (stream_at os h) = Inr (saw, st, ops)"
    "os' = setBidi n (if d then ?b\<lparr>sawStart := saw, stream1 := st\<rparr> else ?b\<lparr>sawStart := saw, stream0 := st\<rparr>)
       (os\<lparr>unorderedOps := unorderedOps os @ ops\<rparr>)"
    using e by (cases d) (auto simp: OpStream_Reassembled_def nd num stream_at_def rbind_eq_Inr Let_def split: if_splits)
  have at: "stream_at os' h' = (if h' = h then st else stream_at os h')" for h'
    by (cases h') (auto simp: s(2) nd stream_at_def setBidi_def)
  have nf: "netFlow st = netFlow (stream_at os h)" using streamOps_flows [OF s(1)] by (simp add: same_flows_def)
  then have nfa: "netFlow (stream_at os' h') = netFlow (stream_at os h')" for h' by (simp add: at)
  have ops: "\<forall>op\<in>set ops. sent_as src (int n) (stream_at os h) op" by (rule streamOps_sent [OF s(1)])
  have u: "unorderedOps os' = unorderedOps os @ ops" "nbidis os' = nbidis os" "bidiMap os' = bidiMap os"
    by (simp_all add: s(2) setBidi_def)
  have sa: "sent_as src i (stream_at os' h') = sent_as src i (stream_at os h')" for i h'
    by (rule sent_as_fields [OF nfa])
  have mine: "sent_by src os' h = sent_by src os h @ ops"
    using ops by (simp add: sent_by_def u sa nd)
  have other: "sent_by src os' h' = sent_by src os h'" if "h' \<noteq> h" for h'
  proof -
    obtain i c where i: "h' = (i, c)" by force
    have "src (netFlow (stream_at os (n, False))) \<noteq> src (netFlow (stream_at os (n, True)))"
      using recordsD(1) [OF r n] by (simp add: bidi_flows_def)
    then have "\<forall>op\<in>set ops. \<not> sent_as src (int i) (stream_at os h') op"
      using ops that i nd by (cases c; cases d) (auto simp: sent_as_def)
    then show ?thesis using i by (simp add: sent_by_def u sa filter_empty_conv)
  qed
  show ?thesis
    unfolding records_def
  proof (intro conjI allI impI)
    fix i assume i: "i < nbidis os'"
    then have lt: "i < nbidis os" by (simp add: u)
    show "bidi_flows src os' i"
      using recordsD(1) [OF r lt] by (auto simp: bidi_flows_def nfa) (auto simp: s(2) setBidi_def)
    fix c
    show "direction_ok src dst (l @ [Reassembled s rs]) hs os' (i, c)"
    proof (cases "(i, c) = h")
      case True
      obtain rs0 saw0 saw1 st0 where ok: "state st0 = BeforeMessage"
        "streamOps src dst (int n) rs0 saw0 st0 = Inr (saw1, stream_at os h, sent_by src os h)" "\<And>s. hs s = Some h \<Longrightarrow> rs0 = handed s l"
        using recordsD(5) [OF r lt, of c] True nd unfolding direction_ok_def by auto
      obtain s2 where "streamOps src dst (int n) rs saw1 (stream_at os h) = Inr (s2, st, ops)"
        using streamOps_saw [OF s(1) q] by blast
      from streamOps_append [OF ok(2) this] have a: "streamOps src dst (int n) (rs0 @ rs) saw0 st0 = Inr (s2, st, sent_by src os h @ ops)" .
      show ?thesis
        unfolding True
      proof (rule direction_okI [OF ok(1), of _ _ _ "rs0 @ rs" saw0 s2])
        show "streamOps src dst (int (fst h)) (rs0 @ rs) saw0 st0 = Inr (s2, stream_at os' h, sent_by src os' h)"
          using a unfolding mine at by (simp add: nd)
        show "rs0 @ rs = handed s' (l @ [Reassembled s rs])" if "hs s' = Some h" for s'
          using ok(3) [OF that] o(2) [OF that h] by simp
        show "rs0 @ rs = []" if "h \<notin> ran hs" using that h by (auto simp: ran_def)
      qed
    next
      case False
      show ?thesis
        by (rule direction_ok_same [OF recordsD(5) [OF r lt, of c]])
          (use False h other at in \<open>auto simp: delivered_snoc\<close>)
    qed
  next
    show "ops_numbered os'"
      using recordsD(2) [OF r] ops n by (auto simp: ops_numbered_def u sent_as_def)
    show "handles_ok hs os'" using recordsD(3) [OF r] by (simp add: handles_ok_def u)
    show "flows_ok (l @ [Reassembled s rs]) hs os'" using recordsD(4) [OF r] by (simp add: flows_ok_def nfa)
  qed
qed

lemma records_complete:
  assumes r: "records src dst l hs os" and h: "hs s = Some h" and e: "OpStream_ReassemblyComplete h os = Inr os'"
  shows "records src dst (l @ [ReassemblyComplete s]) hs os'"
proof -
  obtain n d where nd: "h = (n, d)" by force
  note o = handles_okD [OF recordsD(3) [OF r]]
  have n: "n < nbidis os" using o(1) [OF h] nd by simp
  let ?b = "bidis os n"
  let ?b1 = "?b\<lparr>openStreamCount := openStreamCount ?b - 1\<rparr>"
  have c: "\<not> bclosed ?b" using e by (auto simp: OpStream_ReassemblyComplete_def nd Let_def split: if_splits)
  obtain b ops where s: "unorderedOps os' = unorderedOps os @ ops" "bidis os' = (bidis os)(n := b)" "nbidis os' = nbidis os"
    "stream0 b = stream0 ?b" "stream1 b = stream1 ?b" "connectionNumber b = connectionNumber ?b"
    "\<forall>op\<in>set ops. isEOF op \<and> SeenConnectionNum op = connectionNumber ?b"
    "\<And>k i. bidiMap os' k = Some i \<Longrightarrow> bidiMap os k = Some i"
  proof (cases "openStreamCount ?b - 1 = 0")
    case True
    show thesis
    proof (rule that [of "handleStreamCompleted ?b1" "?b1\<lparr>bclosed := True\<rparr>"])
      show "\<forall>op\<in>set (handleStreamCompleted ?b1). isEOF op \<and> SeenConnectionNum op = connectionNumber ?b"
        by (auto simp: handleStreamCompleted_def Let_def)
      show "bidiMap os k = Some i" if "bidiMap os' k = Some i" for k i
        using e that True c by (auto simp: OpStream_ReassemblyComplete_def nd bidi_close_def setBidi_def Let_def split: if_splits)
    qed (use e True c in \<open>auto simp: OpStream_ReassemblyComplete_def nd bidi_close_def setBidi_def Let_def\<close>)
  next
    case False
    show thesis
      by (rule that [of "[]" ?b1]) (use e False c in \<open>auto simp: OpStream_ReassemblyComplete_def nd setBidi_def Let_def split: if_splits\<close>)
  qed
  have at: "stream_at os' = stream_at os" by (auto simp: fun_eq_iff stream_at_def s)
  have sent: "sent_by src os' = sent_by src os"
    using s(7) by (auto simp: fun_eq_iff sent_by_def at s(1) sent_as_def filter_empty_conv)
  have num: "connectionNumber (bidis os n) = int n" using recordsD(1) [OF r n] by (simp add: bidi_flows_def)
  show ?thesis
    unfolding records_def s(3)
  proof (intro conjI allI impI)
    fix i assume i: "i < nbidis os"
    show "bidi_flows src os' i" using recordsD(1) [OF r i] num by (simp add: bidi_flows_def at s)
    fix c
    show "direction_ok src dst (l @ [ReassemblyComplete s]) hs os' (i, c)"
      by (rule direction_ok_same [OF recordsD(5) [OF r i, of c]]) (auto simp: at sent delivered_snoc)
  next
    show "ops_numbered os'" using recordsD(2) [OF r] s(7) n num by (auto simp: ops_numbered_def s(1,3))
    show "handles_ok hs os'" using recordsD(3) [OF r] s(8) unfolding handles_ok_def s(3) by blast
    show "flows_ok (l @ [ReassemblyComplete s]) hs os'" using recordsD(4) [OF r] by (simp add: flows_ok_def at)
  qed
qed

lemma delivered_in_ord: "arun (\<lambda>k t. packet_ok (sender k) t) a \<Longrightarrow> New k s \<in> set (log a) \<Longrightarrow> \<exists>p p'. in_order (sender k) p (handed s (log a)) p'"
  using arun_dinv [of _ a sender] by (auto simp: dinv_def)

lemma handed_in: "r \<in> set (handed s l) \<longleftrightarrow> (\<exists>rs. Reassembled s rs \<in> set l \<and> r \<in> set rs)"
proof (induction l)
  case (Cons c l)
  have "handed s (c # l) = handed s [c] @ handed s l" by (metis append_Cons append_Nil delivered_append)
  then show ?case using Cons by (cases c) auto
qed (simp add: Assembly_Correct.delivered_def)

subsection \<open>Every stream\<close>

lemma streamCall_records:
  assumes w: "well_used (l @ [c])" and m: "streams_match flip src dst l (hs, os)" and r: "records src dst l hs os"
    and d: "\<And>k s. c = New k s \<Longrightarrow> src (flip (fst k)) \<noteq> src (fst k)"
    and e: "streamCall flip src dst c (hs, os) = Inr (hs', os')"
  shows "records src dst (l @ [c]) hs' os'"
proof -
  have none: "\<And>s. hs s = None \<longleftrightarrow> calls_of s l = []" and inv: "osinv os (open_handles hs l)"
    using m osrun_inv unfolding streams_match_def by auto
  show ?thesis
  proof (cases c)
    case (New k s)
    obtain h os1 where n: "OpStream_New flip (fst k) (snd k) os = (h, os1)" by (metis prod.exhaust)
    then have e': "hs' = hs(s \<mapsto> h)" "os' = os1" using e New by auto
    have "calls_of s l = []" using well_used_snoc [OF w, of s] New shape_snoc by fastforce
    then have s: "hs s = None" "calls_of s l = []" using none by simp_all
    show ?thesis
    proof (cases "bidiMap os k")
      case None
      show ?thesis using records_new [OF r s None d [OF New] n] e' New by simp
    next
      case (Some m)
      have "h = (m, True)" "os1 = setBidi m ((bidis os m)\<lparr>openStreamCount := openStreamCount (bidis os m) + 1\<rparr>) os\<lparr>bidiMap := (bidiMap os)(k := None)\<rparr>"
        using n Some by (auto simp: OpStream_New_def Let_def setBidi_def)
      then show ?thesis
        using records_pair [OF r Some osinvD(1) [OF inv Some] osinvD(4) [OF inv] s refl] e' New by simp
    qed
  next
    case (Reassembled s rs)
    then obtain h where h: "hs s = Some h" "OpStream_Reassembled src dst h rs os = Inr os'" "hs' = hs"
      using e by (auto simp: rbind_eq_Inr split: option.splits)
    have "\<forall>r\<in>set rs. no_data_start r" using w Reassembled by (simp add: well_used_def)
    from records_data [OF r h(1) this h(2)] show ?thesis using h(3) Reassembled by simp
  next
    case (ReassemblyComplete s)
    then obtain h where h: "hs s = Some h" "OpStream_ReassemblyComplete h os = Inr os'" "hs' = hs"
      using e by (auto simp: rbind_eq_Inr split: option.splits)
    from records_complete [OF r h(1,2)] show ?thesis using h(3) ReassemblyComplete by simp
  qed
qed

lemma records_init: "records src dst [] Map.empty (NewMongoOpStream b0)"
  by (simp add: records_def ops_numbered_def handles_ok_def flows_ok_def NewMongoOpStream_def)

lemma streamCalls_records:
  "well_used l \<Longrightarrow> \<forall>k s. New k s \<in> set l \<longrightarrow> src (flip (fst k)) \<noteq> src (fst k) \<Longrightarrow>
   streamCalls flip src dst l (Map.empty, NewMongoOpStream b0) = Inr (hs, os) \<Longrightarrow> records src dst l hs os"
proof (induction l arbitrary: hs os rule: rev_induct)
  case Nil
  then have "hs = Map.empty" "os = NewMongoOpStream b0" by auto
  then show ?case by (simp only: records_init)
next
  case (snoc c l)
  have w: "well_used l" using well_used_snoc [OF snoc.prems(1)] by blast
  obtain hs1 os1 where 1: "streamCalls flip src dst l (Map.empty, NewMongoOpStream b0) = Inr (hs1, os1)"
    "streams_match flip src dst l (hs1, os1)" using streamCalls_ok [OF w, of flip src dst b0] by auto
  have r: "records src dst l hs1 os1" by (rule snoc.IH [OF w _ 1(1)]) (use snoc.prems(2) in auto)
  have e: "streamCall flip src dst c (hs1, os1) = Inr (hs, os)" using snoc.prems(3) 1(1) by (auto simp: streamCalls_append rbind_eq_Inr)
  show ?case by (rule streamCall_records [OF snoc.prems(1) 1(2) r _ e]) (use snoc.prems(2) in auto)
qed

subsection \<open>The runs of the assembler\<close>

lemma drives_assembler: "drives flip src dst a st = Inr st' \<Longrightarrow> assembler st' = a"
  by (auto simp: drives_def rbind_eq_Inr)

definition captured_ok :: "(('f \<times> 'f) \<Rightarrow> TCP \<Rightarrow> bool) \<Rightarrow> ('n, 'f) event \<Rightarrow> bool" where
  "captured_ok Q e \<longleftrightarrow> (\<forall>pkt f t. e = Captured pkt \<longrightarrow> tcpLayer pkt = Some (f, t) \<longrightarrow> Q (f, f) t)"

lemma handlePacket_arun:
  assumes "handlePacket flip src dst pkt st = Inr st'" "arun Q (assembler st)" "captured_ok Q (Captured pkt)"
  shows "arun Q (assembler st')"
proof (cases "tcpLayer pkt")
  case None
  then show ?thesis using assms by (auto simp: handlePacket_def Let_def)
next
  case (Some ft)
  obtain f t where ft: "ft = (f, t)" by force
  let ?st = "st\<lparr>lastPacket := Some (timestamp pkt)\<rparr>"
  obtain a st1 where a: "AssembleWithTimestamp (f, f) t (timestamp pkt) (assembler st) = Inr a"
    "drives flip src dst a ?st = Inr st1" "assembler st' = assembler st1"
    using assms(1) Some ft by (auto simp: handlePacket_def Let_def rbind_eq_Inr split: if_splits)
  have "Q (f, f) t" using assms(3) Some ft by (simp add: captured_ok_def)
  from arun.packet [OF assms(2) this a(1)] show ?thesis using drives_assembler [OF a(2)] a(3) by simp
qed

lemma bookkeep_arun:
  assumes "bookkeep flip src dst visit st = Inr st'" "arun Q (assembler st)" "visits visit"
  shows "arun Q (assembler st')"
proof (cases "lastPacket st")
  case None
  then show ?thesis using assms by (simp add: bookkeep_def)
next
  case (Some ts)
  then obtain f n a where a: "FlushOlderThan (visit (assembler st)) (ts - five_minutes) (assembler st) = Inr (f, n, a)"
    "drives flip src dst a st = Inr st'" using assms(1) by (auto simp: bookkeep_def rbind_eq_Inr)
  from arun.older [OF assms(2) _ _ a(1)] visits_ainv [OF assms(3) arun_ainv [OF assms(2)]] drives_assembler [OF a(2)]
  show ?thesis by simp
qed

lemma handleLoop_arun:
  "handleLoop flip src dst visit n es st = Inr st' \<Longrightarrow> arun Q (assembler st) \<Longrightarrow> visits visit \<Longrightarrow> \<forall>e\<in>set es. captured_ok Q e \<Longrightarrow>
    arun Q (assembler st')"
proof (induction es arbitrary: st)
  case (Cons e es)
  then show ?case
    by (cases e) (auto simp: rbind_eq_Inr intro: handlePacket_arun bookkeep_arun)
qed simp

lemma Handle_arun:
  assumes "Handle flip src dst visit n es st = Inr st'" "arun Q (assembler st)" "visits visit" "\<forall>e\<in>set es. captured_ok Q e"
  shows "arun Q (assembler st')"
proof -
  obtain st1 m a where s: "handleLoop flip src dst visit n es st = Inr st1"
    "FlushAll (visit (assembler st1)) (assembler st1) = Inr (m, a)" "drives flip src dst a st1 = Inr st'"
    using assms(1) by (auto simp: Handle_def rbind_eq_Inr)
  have r: "arun Q (assembler st1)" by (rule handleLoop_arun [OF s(1) assms(2-4)])
  from arun.flush [OF r _ _ s(2)] visits_ainv [OF assms(3) arun_ainv [OF r]] drives_assembler [OF s(3)]
  show ?thesis by simp
qed

lemma in_order_reads:
  "in_order src p rs p' \<Longrightarrow> \<forall>r\<in>set rs. Skip r = 0 \<Longrightarrow> reads src p (concat (map Bytes rs))"
proof (induction rs arbitrary: p)
  case (Cons r rs)
  then have "reads src p (Bytes r)" "reads src (p + int (length (Bytes r))) (concat (map Bytes rs))" by auto
  then show ?case by (auto simp: reads_def nth_append algebra_simps)
qed simp

subsection \<open>Conversations\<close>

text \<open>The operations recorded of what \<open>endpoint\<close> sent on a connection.\<close>

definition recorded_from :: "int \<Rightarrow> string \<Rightarrow> RecordedOp list \<Rightarrow> RecordedOp list" where
  "recorded_from num endpoint = filter (\<lambda>op. \<not> isEOF op \<and> SeenConnectionNum op = num \<and> SrcEndpoint op = endpoint)"

lemma sent_by_recorded: "sent_by src os h = recorded_from (int (fst h)) (src (netFlow (stream_at os h))) (unorderedOps os)"
  unfolding sent_by_def recorded_from_def by (intro filter_cong refl) (simp add: sent_as_def)


lemma ex_capture_assembler:
  assumes "Handle flip src dst ex_visit n ex_events (newHandler 0 b0) = Inr st"
  shows "rbind (AssembleWithTimestamp (True, True) ex_syn 5 (NewAssembler 0 0)) (\<lambda>a.
       rbind (AssembleWithTimestamp (True, True) (ex_seg 120 (drop 20 ex_body)) 6 a) (\<lambda>a.
       rbind (AssembleWithTimestamp (True, True) (ex_seg 100 (take 20 ex_body)) 7 a) (\<lambda>a.
         FlushAll (ex_visit a) a))) = Inr (m, a) \<Longrightarrow> assembler st = a"
  using assms
  by (auto simp: Handle_def ex_events_def handlePacket_def newHandler_def rbind_eq_Inr Let_def dest!: drives_assembler split: if_splits)

lemma ex_capture:
  assumes "Handle flip src dst ex_visit n ex_events (newHandler 0 b0) = Inr st"
  shows "(\<forall>k s. New k s \<in> set (log (assembler st)) \<longleftrightarrow> k = (True, True) \<and> s = 0) \<and> handed 0 (log (assembler st)) =
        [\<lparr>Bytes = [], Skip = 0, Start = True, End = False, Seen = 5\<rparr>,
          \<lparr>Bytes = [], Skip = 0, Start = False, End = False, Seen = 5\<rparr>,
         \<lparr>Bytes = take 20 ex_body, Skip = 0, Start = False, End = False, Seen = 7\<rparr>,
          \<lparr>Bytes = drop 20 ex_body, Skip = 0, Start = False, End = False, Seen = 6\<rparr>]"
  using ex_capture_log
  by (elim exE conjE) (drule ex_capture_assembler [OF assms], simp only: simp_thms)


end
