(* ===== verification/Server.thy ===== *)
theory Server
  imports Socket "HOL-Library.List_Lexorder" "HOL-Library.Char_ord"
begin

text \<open>
  A server as the driver sees it (\<open>internal/llmgo/server.go\<close>): its pool of sockets, with the
  steps in which goroutines share it, what the pings measure, and the sorted list of the
  servers with the choice of the best one. A socket is known by its number, in the
  order in which sockets are made.
\<close>

subsection \<open>The state\<close>

record mongoServerInfo =
  Master :: bool
  Mongos :: bool
  Tags :: "(string \<times> goval) list"
  MaxWireVersion :: int
  SetName :: string

definition defaultServerInfo :: mongoServerInfo where
  "defaultServerInfo = \<lparr>Master = False, Mongos = False, Tags = [], MaxWireVersion = 0, SetName = []\<rparr>"

record MongoServer =
  Addr :: string
  ResolvedAddr :: string
  unusedSockets :: "nat list"
  liveSockets :: "nat list"
  closed :: bool
  abended :: bool
  pingValue :: duration
  pingIndex :: nat
  pingCount :: uint32
  pingWindow :: "duration list"
  info :: mongoServerInfo

text \<open>\<open>newServer\<close> before its first ping.\<close>

definition newServer :: "string \<Rightarrow> string \<Rightarrow> MongoServer" where
  "newServer addr tcpaddr = \<lparr>Addr = addr, ResolvedAddr = tcpaddr, unusedSockets = [], liveSockets = [],
     closed = False, abended = False, pingValue = 3600 * 10 ^ 9, pingIndex = 0, pingCount = 0,
     pingWindow = replicate 6 0, info = defaultServerInfo\<rparr>"

definition errPoolLimit :: err where "errPoolLimit = Errorf ''per-server connection limit reached'' []"
definition errServerClosed :: err where "errServerClosed = Errorf ''server was closed'' []"

subsection \<open>The critical sections of the pool\<close>

text \<open>The first section of \<open>AcquireSocket\<close>, and what is left to do after it.\<close>

datatype acquired = Refused err | Cached nat | Dial

definition takeSocket :: "int \<Rightarrow> MongoServer \<Rightarrow> acquired \<times> MongoServer" where
  "takeSocket poolLimit sv =
     (if closed sv then (Refused errServerClosed, sv)
      else
        let n = length (unusedSockets sv) in
        if poolLimit > 0 \<and> int (length (liveSockets sv)) - int n \<ge> poolLimit then (Refused errPoolLimit, sv)
        else if n > 0 then (Cached (last (unusedSockets sv)), sv\<lparr>unusedSockets := butlast (unusedSockets sv)\<rparr>)
        else (Dial, sv))"

text \<open>The section after the connection was made: the socket is added, unless the server was closed meanwhile.\<close>

definition addSocket :: "nat \<Rightarrow> MongoServer \<Rightarrow> MongoServer option" where
  "addSocket s sv = (if closed sv then None else Some (sv\<lparr>liveSockets := liveSockets sv @ [s]\<rparr>))"

definition RecycleSocket :: "nat \<Rightarrow> MongoServer \<Rightarrow> MongoServer" where
  "RecycleSocket s sv = (if \<not> closed sv then sv\<lparr>unusedSockets := unusedSockets sv @ [s]\<rparr> else sv)"

fun removeSocket :: "nat list \<Rightarrow> nat \<Rightarrow> nat list" where
  "removeSocket [] socket = []"
| "removeSocket (s # sockets) socket = (if s = socket then sockets else s # removeSocket sockets socket)"

definition AbendSocket :: "nat \<Rightarrow> MongoServer \<Rightarrow> MongoServer" where
  "AbendSocket s sv =
     (let sv = sv\<lparr>abended := True\<rparr> in
      if closed sv then sv
      else sv\<lparr>liveSockets := removeSocket (liveSockets sv) s, unusedSockets := removeSocket (unusedSockets sv) s\<rparr>)"

text \<open>\<open>Close\<close> of a server; the sockets in the result are closed afterwards.\<close>

definition Server_Close :: "MongoServer \<Rightarrow> nat list \<times> MongoServer" where
  "Server_Close sv = (liveSockets sv, sv\<lparr>closed := True, liveSockets := [], unusedSockets := []\<rparr>)"

definition SetInfo :: "mongoServerInfo \<Rightarrow> MongoServer \<Rightarrow> MongoServer" where
  "SetInfo i sv = sv\<lparr>info := i\<rparr>"

definition NewSocket :: "mongoServerInfo \<Rightarrow> 'f MongoSocket" where
  "NewSocket i = NewDumbSocket\<lparr>references := 1, serverInfo := Some (Mongos i)\<rparr>"

subsection \<open>One goroutine\<close>

text \<open>The sockets, and how many have been made.\<close>

record 'f pool =
  server :: MongoServer
  sockets :: "nat \<Rightarrow> 'f MongoSocket"
  made :: nat

text \<open>
  \<open>AcquireSocket\<close> when no other goroutine comes between its sections: the socket or an error, and the flag. \<open>dial\<close> is the
  error of \<open>Connect\<close>.
\<close>

function AcquireSocket :: "err option \<Rightarrow> int \<Rightarrow> 'f pool \<Rightarrow> ((nat option \<times> bool \<times> err option) \<times> 'f pool) res" where
  "AcquireSocket dial poolLimit p =
     (let ab = abended (server p) in
      case takeSocket poolLimit (server p) of
        (Refused e, sv) \<Rightarrow> Inr ((None, ab \<and> closed sv, Some e), p)
      | (Cached s, sv) \<Rightarrow>
          rbind (InitialAcquire (Some (Mongos (info sv))) (sockets p s)) (\<lambda>(e, sock).
            if e = None then Inr ((Some s, ab, None), p\<lparr>server := sv, sockets := (sockets p)(s := sock)\<rparr>)
            else AcquireSocket dial poolLimit (p\<lparr>server := sv\<rparr>))
      | (Dial, sv) \<Rightarrow>
          (case dial of
             Some e \<Rightarrow> Inr ((None, ab, Some e), p)
           | None \<Rightarrow>
               let s = made p
               in Inr ((Some s, ab, None),
                    p\<lparr>server := sv\<lparr>liveSockets := liveSockets sv @ [s]\<rparr>, sockets := (sockets p)(s := NewSocket (info sv)), made := s + 1\<rparr>)))"
  by pat_completeness auto
termination
  by (relation "measure (\<lambda>(_, _, p). length (unusedSockets (server p)))")
    (auto simp: takeSocket_def Let_def split: if_splits)

declare AcquireSocket.simps [simp del]

definition ReleaseSocket :: "nat \<Rightarrow> 'f pool \<Rightarrow> 'f pool res" where
  "ReleaseSocket s p =
     rbind (Release (sockets p s)) (\<lambda>(bk, sock).
       Inr (p\<lparr>sockets := (sockets p)(s := sock), server := (if bk then RecycleSocket s (server p) else server p)\<rparr>))"

definition killSocket :: "err \<Rightarrow> bool \<Rightarrow> nat \<Rightarrow> 'f pool \<Rightarrow> 'f pool" where
  "killSocket e abend s p =
     (case kill e abend (sockets p s) of
        (sock, evs) \<Rightarrow>
          p\<lparr>sockets := (sockets p)(s := sock), server := (if Abended \<in> set evs then AbendSocket s (server p) else server p)\<rparr>)"

definition closeServer :: "'f pool \<Rightarrow> 'f pool" where
  "closeServer p =
     (case Server_Close (server p) of
        (ss, sv) \<Rightarrow> fold (killSocket (Errorf ''Closed explicitly'' []) False) ss (p\<lparr>server := sv\<rparr>))"

subsection \<open>Many goroutines\<close>

text \<open>
  The goroutines that are between two sections of a call: \<open>dialing\<close> counts those in \<open>Connect\<close>, the
  lists hold the sockets of those that took one from the cache and did not acquire it yet, that made
  one and did not add it yet, that released the last reference and did not recycle yet, and that killed one and did not report it yet.
\<close>

record 'f shared = "'f pool" +
  dialing :: nat
  popped :: "nat list"
  fresh :: "nat list"
  recycling :: "nat list"
  abending :: "nat list"

text \<open>A step is one critical section; \<open>limits\<close> are the limits that callers give. The read loop of a socket may
  kill it at any time.\<close>

inductive shared_step :: "int set \<Rightarrow> 'f shared \<Rightarrow> 'f shared \<Rightarrow> bool" for limits where
  take_cached: "limit \<in> limits \<Longrightarrow> takeSocket limit (server p) = (Cached s, sv) \<Longrightarrow> shared_step limits p (p\<lparr>server := sv, popped := s # popped p\<rparr>)"
| take_dial: "limit \<in> limits \<Longrightarrow> takeSocket limit (server p) = (Dial, sv) \<Longrightarrow> shared_step limits p (p\<lparr>dialing := dialing p + 1\<rparr>)"
| acquire_cached: "s \<in> set (popped p) \<Longrightarrow> InitialAcquire i (sockets p s) = Inr (e, sock) \<Longrightarrow>
    shared_step limits p (p\<lparr>popped := remove1 s (popped p), sockets := (sockets p)(s := sock)\<rparr>)"
| dial_fails: "0 < dialing p \<Longrightarrow> shared_step limits p (p\<lparr>dialing := dialing p - 1\<rparr>)"
| dial_done: "0 < dialing p \<Longrightarrow> shared_step limits p (p\<lparr>dialing := dialing p - 1, sockets := (sockets p)(made p := NewSocket (info (server p))),
    fresh := made p # fresh p, made := made p + 1\<rparr>)"
| add_fresh: "s \<in> set (fresh p) \<Longrightarrow> addSocket s (server p) = Some sv \<Longrightarrow> shared_step limits p (p\<lparr>server := sv, fresh := remove1 s (fresh p)\<rparr>)"
| drop_fresh: "s \<in> set (fresh p) \<Longrightarrow> addSocket s (server p) = None \<Longrightarrow> Release (sockets p s) = Inr (bk, sock) \<Longrightarrow>
    shared_step limits p (p\<lparr>fresh := remove1 s (fresh p), sockets := (sockets p)(s := sock),
      recycling := (if bk then s # recycling p else recycling p)\<rparr>)"
| more: "s < made p \<Longrightarrow> s \<notin> set (fresh p) \<Longrightarrow> Acquire (sockets p s) = Inr (i, sock) \<Longrightarrow> shared_step limits p (p\<lparr>sockets := (sockets p)(s := sock)\<rparr>)"
| release: "s < made p \<Longrightarrow> s \<notin> set (fresh p) \<Longrightarrow> Release (sockets p s) = Inr (bk, sock) \<Longrightarrow>
    shared_step limits p (p\<lparr>sockets := (sockets p)(s := sock), recycling := (if bk then s # recycling p else recycling p)\<rparr>)"
| recycle: "s \<in> set (recycling p) \<Longrightarrow>
    shared_step limits p (p\<lparr>server := RecycleSocket s (server p), recycling := remove1 s (recycling p)\<rparr>)"
| kill: "s < made p \<Longrightarrow> kill e abend (sockets p s) = (sock, evs) \<Longrightarrow>
    shared_step limits p (p\<lparr>sockets := (sockets p)(s := sock), abending := (if Abended \<in> set evs then s # abending p else abending p)\<rparr>)"
| abend: "s \<in> set (abending p) \<Longrightarrow>
    shared_step limits p (p\<lparr>server := AbendSocket s (server p), abending := remove1 s (abending p)\<rparr>)"
| close: "shared_step limits p (p\<lparr>server := snd (Server_Close (server p))\<rparr>)"
| set_info: "shared_step limits p (p\<lparr>server := SetInfo i (server p)\<rparr>)"

definition newPool :: "string \<Rightarrow> string \<Rightarrow> 'f shared" where
  "newPool addr tcpaddr = \<lparr>server = newServer addr tcpaddr, sockets = (\<lambda>_. NewDumbSocket), made = 0,
     dialing = 0, popped = [], fresh = [], recycling = [], abending = []\<rparr>"

subsection \<open>Tags\<close>

text \<open>
  Go's \<open>==\<close> on the values of a document: values of different types differ, and documents, slices and
  byte strings cannot be compared.
\<close>

definition float_nan :: "int64 \<Rightarrow> bool" where
  "float_nan b \<longleftrightarrow> take_bit 63 b > 0x7FF0000000000000"

definition float_eq :: "int64 \<Rightarrow> int64 \<Rightarrow> bool" where
  "float_eq a b \<longleftrightarrow> \<not> float_nan a \<and> \<not> float_nan b \<and> (a = b \<or> take_bit 63 a = 0 \<and> take_bit 63 b = 0)"

definition isDoc :: "goval \<Rightarrow> goval \<Rightarrow> bool" where
  "isDoc a b \<longleftrightarrow>
     (case a of
        GD _ \<Rightarrow> (case b of GD _ \<Rightarrow> True | _ \<Rightarrow> False)
      | GM _ \<Rightarrow> (case b of GM _ \<Rightarrow> True | _ \<Rightarrow> False)
      | GRawD _ \<Rightarrow> (case b of GRawD _ \<Rightarrow> True | _ \<Rightarrow> False)
      | GSlice _ \<Rightarrow> (case b of GSlice _ \<Rightarrow> True | _ \<Rightarrow> False)
      | GBytes _ \<Rightarrow> (case b of GBytes _ \<Rightarrow> True | _ \<Rightarrow> False)
      | GBinary _ _ \<Rightarrow> (case b of GBinary _ _ \<Rightarrow> True | _ \<Rightarrow> False)
      | GRaw _ _ \<Rightarrow> (case b of GRaw _ _ \<Rightarrow> True | _ \<Rightarrow> False)
      | _ \<Rightarrow> False)"

fun go_eq :: "goval \<Rightarrow> goval \<Rightarrow> bool res" where
  "go_eq (GFloat64 a) b = Inr (case b of GFloat64 b \<Rightarrow> float_eq a b | _ \<Rightarrow> False)"
| "go_eq (GJavaScript a (Some s)) b =
     (case b of GJavaScript b (Some t) \<Rightarrow> if a \<noteq> b then Inr False else go_eq s t | _ \<Rightarrow> Inr False)"
| "go_eq a b = (if isDoc a b then Inl (Panic ''runtime error: comparing uncomparable type'') else Inr (a = b))"

fun hasTag :: "string \<times> goval \<Rightarrow> (string \<times> goval) list \<Rightarrow> bool res" where
  "hasTag req [] = Inr False"
| "hasTag req ((name, val) # has) = (if fst req = name then go_eq (snd req) val else hasTag req has)"

fun hasAllTags :: "(string \<times> goval) list \<Rightarrow> (string \<times> goval) list \<Rightarrow> bool res" where
  "hasAllTags [] has = Inr True"
| "hasAllTags (req # tags) has = rbind (hasTag req has) (\<lambda>b. if b then hasAllTags tags has else Inr False)"

fun hasTags :: "(string \<times> goval) list list \<Rightarrow> MongoServer \<Rightarrow> bool res" where
  "hasTags [] sv = Inr False"
| "hasTags (tags # serverTags) sv =
     rbind (hasAllTags tags (Tags (info sv))) (\<lambda>b. if b then Inr True else hasTags serverTags sv)"

subsection \<open>Pings\<close>

definition recordPing :: "duration \<Rightarrow> MongoServer \<Rightarrow> duration \<times> MongoServer" where
  "recordPing delay sv =
     (let sv = sv\<lparr>pingWindow := (pingWindow sv)[pingIndex sv := delay],
            pingIndex := (pingIndex sv + 1) mod length (pingWindow sv), pingCount := pingCount sv + 1\<rparr>
      in (fold (\<lambda>i m. if unat (pingCount sv) > i \<and> pingWindow sv ! i > m then pingWindow sv ! i else m)
            [0..<length (pingWindow sv)] 0, sv))"

text \<open>
  The loop of \<open>pinger\<close>: for each round the error of connecting, if any. \<open>ask\<close> is \<open>SimpleQuery\<close> with the time that it takes;
  after the last round the loop sleeps on.
\<close>

fun pinger :: "(nat \<Rightarrow> 'f pool \<Rightarrow> (duration \<times> 'f pool) res) \<Rightarrow> bool \<Rightarrow> err option list \<Rightarrow> 'f pool \<Rightarrow> 'f pool res" where
  "pinger ask loop [] p = Inl Hang"
| "pinger ask loop (dial # rounds) p =
     rbind (AcquireSocket dial 0 p) (\<lambda>((socket, _, e), p).
       case socket of
         Some s \<Rightarrow>
           rbind (ask s p) (\<lambda>(delay, p).
             let (m, sv) = recordPing delay (server p) in
             rbind (ReleaseSocket s (p\<lparr>server := sv\<rparr>)) (\<lambda>p.
               let again = loop \<and> \<not> closed (server p);
                   p = p\<lparr>server := (server p)\<lparr>pingValue := m\<rparr>\<rparr>
               in if again then pinger ask loop rounds p else Inr p))
       | None \<Rightarrow> if e = Some errServerClosed \<or> \<not> loop then Inr p else pinger ask loop rounds p)"

subsection \<open>The servers of a cluster\<close>

text \<open>
  \<open>sort.Search\<close>: the least index with a property that, once it holds, holds on. \<open>sort.Sort\<close> puts
  servers of equal addresses in some order; the cluster never adds a second one.
\<close>

function sort_Search :: "(nat \<Rightarrow> bool) \<Rightarrow> nat \<Rightarrow> nat \<Rightarrow> nat" where
  "sort_Search f i j =
     (if i < j then let h = (i + j) div 2 in if \<not> f h then sort_Search f (h + 1) j else sort_Search f i h else i)"
  by pat_completeness auto
termination
  by (relation "measure (\<lambda>(_, i, j). j - i)") auto

declare sort_Search.simps [simp del]

type_synonym mongoServers = "MongoServer list"

definition slice_Search :: "mongoServers \<Rightarrow> string \<Rightarrow> nat \<times> bool" where
  "slice_Search s resolvedAddr =
     (let n = length s; i = sort_Search (\<lambda>i. ResolvedAddr (s ! i) \<ge> resolvedAddr) 0 n
      in (i, i \<noteq> n \<and> ResolvedAddr (s ! i) = resolvedAddr))"

definition servers_Search :: "mongoServers \<Rightarrow> string \<Rightarrow> MongoServer option" where
  "servers_Search s resolvedAddr = (case slice_Search s resolvedAddr of (i, ok) \<Rightarrow> if ok then Some (s ! i) else None)"

definition servers_Add :: "mongoServers \<Rightarrow> MongoServer \<Rightarrow> mongoServers" where
  "servers_Add s sv = sort_key ResolvedAddr (s @ [sv])"

definition servers_Remove :: "mongoServers \<Rightarrow> MongoServer \<Rightarrow> MongoServer option \<times> mongoServers" where
  "servers_Remove s other =
     (case slice_Search s (ResolvedAddr other) of
        (i, found) \<Rightarrow> if found then (Some (s ! i), take i s @ drop (i + 1) s) else (None, s))"

definition PrimaryPreferred :: int where "PrimaryPreferred = 3"
definition Nearest :: int where "Nearest = 6"

definition absDuration :: "duration \<Rightarrow> duration" where
  "absDuration d = (if d < 0 then - d else d)"

definition inUse :: "MongoServer \<Rightarrow> int" where
  "inUse sv = int (length (liveSockets sv)) - int (length (unusedSockets sv))"

definition lacksTags :: "(string \<times> goval) list list option \<Rightarrow> MongoServer \<Rightarrow> bool res" where
  "lacksTags serverTags sv =
     (case serverTags of
        Some tags \<Rightarrow> if \<not> Mongos (info sv) then rbind (hasTags tags sv) (\<lambda>b. Inr (\<not> b)) else Inr False
      | None \<Rightarrow> Inr False)"

fun BestFit_loop :: "int \<Rightarrow> (string \<times> goval) list list option \<Rightarrow> mongoServers \<Rightarrow> MongoServer option \<Rightarrow> MongoServer option res" where
  "BestFit_loop md serverTags [] best = Inr best"
| "BestFit_loop md serverTags (nxt # svs) best =
     rbind (lacksTags serverTags nxt) (\<lambda>lacks.
       BestFit_loop md serverTags svs
         (case best of
            None \<Rightarrow> if lacks then None else Some nxt
          | Some b \<Rightarrow>
              if (if lacks then False
                  else if Master (info nxt) \<noteq> Master (info b) \<and> md \<noteq> Nearest then (md = PrimaryPreferred) \<noteq> Master (info b)
                  else if absDuration (pingValue nxt - pingValue b) > 15 * 10 ^ 6 then pingValue nxt < pingValue b
                  else inUse nxt < inUse b)
              then Some nxt else Some b))"

definition BestFit :: "int \<Rightarrow> (string \<times> goval) list list option \<Rightarrow> mongoServers \<Rightarrow> MongoServer option res" where
  "BestFit md serverTags servers = BestFit_loop md serverTags servers None"

end
