(* ===== verification/Server_Correct.thy ===== *)
theory Server_Correct
  imports Server
begin

text \<open>
  The pool hands each socket to one caller at a time, however the goroutines interleave; a single
  goroutine keeps to the limit of the pool, several may not; and the list of servers is a map
  from which \<open>BestFit\<close> chooses well.
\<close>

subsection \<open>One holder for each socket\<close>

definition places :: "nat \<Rightarrow> 'f shared \<Rightarrow> nat" where
  "places s p = count_list (unusedSockets (server p)) s + count_list (popped p) s + count_list (recycling p) s +
     (if references (sockets p s) > 0 then 1 else 0)"

definition shared_inv :: "'f shared \<Rightarrow> bool" where
  "shared_inv p \<longleftrightarrow> (\<forall>s. 0 \<le> references (sockets p s) \<and> places s p \<le> 1 \<and> (made p \<le> s \<longrightarrow> places s p = 0)) \<and>
     (\<forall>s\<in>set (fresh p). s < made p \<and> references (sockets p s) = 1) \<and> distinct (fresh p) \<and>
     (closed (server p) \<longrightarrow> unusedSockets (server p) = [] \<and> liveSockets (server p) = [])"

lemma count_list_remove1: "count_list (remove1 x xs) y = (if x = y then count_list xs y - 1 else count_list xs y)"
  by (induction xs) (auto simp: count_list_0_iff)

lemma removeSocket_remove1 [simp]: "removeSocket ss s = remove1 s ss"
  by (induction ss) auto

lemma count_list_last: "xs \<noteq> [] \<Longrightarrow> count_list xs y = count_list (butlast xs) y + (if last xs = y then 1 else 0)"
  by (induction xs rule: rev_induct) auto

lemma distinct_count_list: "\<forall>x\<in>set xs. count_list xs x \<le> 1 \<Longrightarrow> distinct xs"
  by (induction xs) (auto simp: count_list_0_iff split: if_splits)

lemma takeSocket_cached:
  "takeSocket l sv = (Cached s, sv') \<Longrightarrow> \<not> closed sv \<and> unusedSockets sv \<noteq> [] \<and> s = last (unusedSockets sv) \<and>
     sv' = sv\<lparr>unusedSockets := butlast (unusedSockets sv)\<rparr>"
  by (auto simp: takeSocket_def Let_def split: if_splits)

lemma count_pos: "s \<in> set xs \<Longrightarrow> 0 < count_list xs s"
  by (metis count_list_0_iff gr0I)

lemma Release_eq:
  "Release s = Inr (bk, s') \<Longrightarrow> references s \<noteq> 0 \<and> references s' = references s - 1 \<and> (bk \<longrightarrow> references s' = 0)"
  by (auto simp: Release_def LogoutAll_def Let_def split: if_splits)

lemma kill_eq: "kill e ab s = (s', evs) \<Longrightarrow> references s' = references s"
  by (auto simp: kill_def split: if_splits)

lemma Acquire_eq: "Acquire s = Inr (i, s') \<Longrightarrow> references s \<noteq> 0 \<and> references s' = references s + 1"
  by (auto simp: Acquire_def split: if_splits)

lemma InitialAcquire_eq:
  "InitialAcquire i s = Inr (e, s') \<Longrightarrow> references s \<le> 0 \<and> references s' = (if e = None then references s + 1 else references s)"
  by (cases e) (auto simp: InitialAcquire_def split: if_splits)

lemma shared_invD:
  assumes "shared_inv p"
  shows "0 \<le> references (sockets p s)" "places s p \<le> 1" "made p \<le> s \<Longrightarrow> places s p = 0"
    "s \<in> set (fresh p) \<Longrightarrow> s < made p \<and> references (sockets p s) = 1" "distinct (fresh p)"
    "closed (server p) \<Longrightarrow> unusedSockets (server p) = [] \<and> liveSockets (server p) = []"
  using assms unfolding shared_inv_def by blast+

lemma shared_inv_le:
  assumes "shared_inv p" "\<And>t. 0 \<le> references (sockets p' t)" "\<And>t. places t p' \<le> places t p" "made p' = made p"
    and "set (fresh p') \<subseteq> set (fresh p)" "distinct (fresh p')" "\<And>t. t \<in> set (fresh p') \<Longrightarrow> references (sockets p' t) = 1"
    and "closed (server p') \<Longrightarrow> unusedSockets (server p') = [] \<and> liveSockets (server p') = []"
  shows "shared_inv p'"
  using assms(2-8) shared_invD [OF assms(1)] unfolding shared_inv_def by (metis le_zero_eq order_trans subsetD)

lemma shared_step_inv: "shared_step ls p p' \<Longrightarrow> shared_inv p \<Longrightarrow> shared_inv p'"
proof (induction rule: shared_step.induct)
  case (take_cached limit p s sv)
  note h = shared_invD [OF take_cached.prems] and t = takeSocket_cached [OF take_cached.hyps(2)]
  have "places t (p\<lparr>server := sv, popped := s # popped p\<rparr>) \<le> places t p" for t
    using t count_list_last [of "unusedSockets (server p)" t] by (auto simp: places_def)
  then show ?case by (intro shared_inv_le [OF take_cached.prems]) (use h t in auto)
next
  case (acquire_cached s p i e sock)
  note h = shared_invD [OF acquire_cached.prems] and a = InitialAcquire_eq [OF acquire_cached.hyps(2)]
  let ?p = "p\<lparr>popped := remove1 s (popped p), sockets := (sockets p)(s := sock)\<rparr>"
  have r: "references (sockets p s) = 0" using a h(1) [of s] by auto
  have "places t ?p \<le> places t p" for t
    using a r count_pos [OF acquire_cached.hyps(1)] by (auto simp: places_def count_list_remove1)
  then show ?case by (intro shared_inv_le [OF acquire_cached.prems]) (use h r a in auto)
next
  case (dial_done p)
  note h = shared_invD [OF dial_done.prems]
  have z: "places (made p) p = 0" by (rule h(3)) simp
  have f: "t < Suc (made p)" "t \<noteq> made p" "references (sockets p t) = 1" if "t \<in> set (fresh p)" for t using h(4) [OF that] by auto
  show ?case
    unfolding shared_inv_def
  proof (intro conjI allI ballI impI)
    fix t
    let ?p = "p\<lparr>dialing := dialing p - 1, sockets := (sockets p)(made p := NewSocket (info (server p))), fresh := made p # fresh p, made := made p + 1\<rparr>"
    show "0 \<le> references (sockets ?p t)" using h(1) by (simp add: NewSocket_def NewDumbSocket_def)
    show "places t ?p \<le> 1" using z h(2) [of t] by (auto simp: places_def NewSocket_def NewDumbSocket_def)
    show "places t ?p = 0" if "made ?p \<le> t" using h(3) [of t] that by (simp add: places_def)
  qed (use h(5,6) f in \<open>auto simp: NewSocket_def NewDumbSocket_def\<close>)
next
  case (add_fresh s p sv)
  note h = shared_invD [OF add_fresh.prems]
  have sv: "\<not> closed (server p)" "sv = (server p)\<lparr>liveSockets := liveSockets (server p) @ [s]\<rparr>"
    using add_fresh.hyps(2) by (auto simp: addSocket_def split: if_splits)
  show ?case
    by (intro shared_inv_le [OF add_fresh.prems]) (use h sv in \<open>auto simp: places_def dest: notin_set_remove1\<close>)
next
  case (drop_fresh s p bk sock)
  note h = shared_invD [OF drop_fresh.prems] and r = Release_eq [OF drop_fresh.hyps(3)]
  let ?p = "p\<lparr>fresh := remove1 s (fresh p), sockets := (sockets p)(s := sock), recycling := (if bk then s # recycling p else recycling p)\<rparr>"
  have s: "references (sockets p s) = 1" "s \<notin> set (remove1 s (fresh p))" using h(4,5) drop_fresh.hyps(1) by auto
  have "places t ?p \<le> places t p" for t using r s by (auto simp: places_def)
  then show ?case by (intro shared_inv_le [OF drop_fresh.prems]) (use h r s in \<open>auto dest: notin_set_remove1\<close>)
next
  case (more s p i sock)
  note h = shared_invD [OF more.prems] and a = Acquire_eq [OF more.hyps(3)]
  have r: "0 < references (sockets p s)" using a h(1) [of s] by linarith
  show ?case
    by (intro shared_inv_le [OF more.prems]) (use h r a more.hyps(2) in \<open>auto simp: places_def\<close>)
next
  case (release s p bk sock)
  note h = shared_invD [OF release.prems] and r = Release_eq [OF release.hyps(3)]
  have q: "0 < references (sockets p s)" using r h(1) [of s] by linarith
  let ?p = "p\<lparr>sockets := (sockets p)(s := sock), recycling := (if bk then s # recycling p else recycling p)\<rparr>"
  have "places t ?p \<le> places t p" for t using r h(1) [of s] by (auto simp: places_def)
  then show ?case by (intro shared_inv_le [OF release.prems]) (use h r q release.hyps(2) in auto)
next
  case (recycle s p)
  note h = shared_invD [OF recycle.prems]
  have "places t (p\<lparr>server := RecycleSocket s (server p), recycling := remove1 s (recycling p)\<rparr>) \<le> places t p" for t
    using count_pos [OF recycle.hyps] by (auto simp: places_def RecycleSocket_def count_list_remove1)
  then show ?case by (intro shared_inv_le [OF recycle.prems]) (use h in \<open>auto simp: RecycleSocket_def split: if_splits\<close>)
next
  case (kill s p e abend sock evs)
  note h = shared_invD [OF kill.prems] and k = kill_eq [OF kill.hyps(2)]
  show ?case by (intro shared_inv_le [OF kill.prems]) (use h k in \<open>auto simp: places_def\<close>)
next
  case (abend s p)
  note h = shared_invD [OF abend.prems]
  show ?case
    by (intro shared_inv_le [OF abend.prems]) (use h in \<open>auto simp: places_def AbendSocket_def Let_def count_list_remove1\<close>)
next
  case (close p)
  note h = shared_invD [OF close]
  show ?case by (intro shared_inv_le [OF close]) (use h in \<open>auto simp: places_def Server_Close_def\<close>)
next
  case (set_info p i)
  note h = shared_invD [OF set_info]
  show ?case by (intro shared_inv_le [OF set_info]) (use h in \<open>auto simp: places_def SetInfo_def\<close>)
next
  case (take_dial limit p sv)
  note h = shared_invD [OF take_dial.prems]
  show ?case by (intro shared_inv_le [OF take_dial.prems]) (use h in \<open>auto simp: places_def\<close>)
next
  case (dial_fails p)
  note h = shared_invD [OF dial_fails.prems]
  show ?case by (intro shared_inv_le [OF dial_fails.prems]) (use h in \<open>auto simp: places_def\<close>)
qed

lemma shared_inv_new: "shared_inv (newPool addr tcpaddr)"
  by (simp add: shared_inv_def places_def newPool_def newServer_def NewDumbSocket_def)

lemma shared_run_inv: "(shared_step ls)\<^sup>*\<^sup>* (newPool addr tcpaddr) p \<Longrightarrow> shared_inv p"
  by (induction rule: rtranclp_induct) (auto intro: shared_inv_new shared_step_inv)

lemma shared_trans: "(shared_step L)\<^sup>*\<^sup>* p q \<Longrightarrow> shared_step L q r \<Longrightarrow> r = r' \<Longrightarrow> (shared_step L)\<^sup>*\<^sup>* p r'"
  by (auto intro: rtranclp.rtrancl_into_rtrancl)

text \<open>A socket is made, added and released.\<close>

abbreviation ex_sockets :: "'f MongoSocket \<Rightarrow> nat \<Rightarrow> 'f MongoSocket" where
  "ex_sockets s \<equiv> (\<lambda>_. NewDumbSocket)(0 := s)"

lemma ex_released:
  "(shared_step {1})\<^sup>*\<^sup>* (newPool [] []) (newPool [] []\<lparr>made := 1, sockets := ex_sockets (NewSocket defaultServerInfo\<lparr>references := 0\<rparr>),
     server := newServer [] []\<lparr>liveSockets := [0]\<rparr>, recycling := [0]\<rparr>)"
proof -
  let ?sv = "newServer [] []" and ?p = "newPool [] []" and ?s = "NewSocket defaultServerInfo"
  have "(shared_step {1})\<^sup>*\<^sup>* ?p (?p\<lparr>dialing := 1\<rparr>)"
    by (rule shared_trans [OF rtranclp.rtrancl_refl take_dial [of 1]]) (auto simp: takeSocket_def newPool_def newServer_def)
  then have "(shared_step {1})\<^sup>*\<^sup>* ?p (?p\<lparr>made := 1, sockets := ex_sockets ?s, fresh := [0]\<rparr>)"
    by (rule shared_trans [OF _ dial_done]) (auto simp: newPool_def newServer_def)
  then have "(shared_step {1})\<^sup>*\<^sup>* ?p (?p\<lparr>made := 1, sockets := ex_sockets ?s, server := ?sv\<lparr>liveSockets := [0]\<rparr>\<rparr>)"
    by (rule shared_trans [OF _ add_fresh [of 0]]) (auto simp: newPool_def newServer_def addSocket_def)
  then show ?thesis
    by (rule shared_trans [OF _ shared_step.release [where s = 0 and bk = True and sock = "?s\<lparr>references := 0\<rparr>"]])
      (auto simp: newPool_def newServer_def Release_def LogoutAll_def NewSocket_def NewDumbSocket_def)
qed

text \<open>
  C17. However callers, read loops and the pinger interleave, a socket that was taken from the cache has no
  holder: \<open>InitialAcquire\<close> does not panic, and the caller that gets the socket is its only
  holder; a new socket belongs to the caller that made it; and a closed server holds no sockets.
\<close>

theorem sockets_exclusive:
  assumes "(shared_step limits)\<^sup>*\<^sup>* (newPool addr tcpaddr) p"
  shows "(\<forall>s\<in>set (popped p). \<exists>e sock. InitialAcquire i (sockets p s) = Inr (e, sock) \<and> (e = None \<longrightarrow> references sock = 1)) \<and>
    distinct (popped p) \<and> set (popped p) \<inter> set (unusedSockets (server p)) = {} \<and>
    (\<forall>s\<in>set (fresh p). references (sockets p s) = 1) \<and>
    (closed (server p) \<longrightarrow> unusedSockets (server p) = [] \<and> liveSockets (server p) = [])"
proof -
  note h = shared_invD [OF shared_run_inv [OF assms]]
  have r: "references (sockets p s) = 0 \<and> count_list (popped p) s = 1 \<and> count_list (unusedSockets (server p)) s = 0"
    if "s \<in> set (popped p)" for s
    using h(1,2) [of s] count_pos [OF that] by (auto simp: places_def split: if_splits)
  have "distinct (popped p)" by (rule distinct_count_list) (use r in simp)
  moreover have "set (popped p) \<inter> set (unusedSockets (server p)) = {}" using r by (auto simp: count_list_0_iff)
  ultimately show ?thesis using r h(4,6) by (auto simp: InitialAcquire_def)
qed

theorem sockets_exclusive_witness:
  "\<exists>p. (shared_step {1})\<^sup>*\<^sup>* (newPool [] []) p \<and> popped p = [0] \<and>
     (\<exists>e sock. InitialAcquire (Some False) (sockets (p :: unit shared) 0) = Inr (e, sock) \<and> (e = None \<longrightarrow> references sock = 1))"
proof -
  let ?p = "newPool [] []\<lparr>made := 1, sockets := ex_sockets (NewSocket defaultServerInfo\<lparr>references := 0\<rparr>),
     server := newServer [] []\<lparr>liveSockets := [0]\<rparr>, popped := [0]\<rparr> :: unit shared"
  note ex_released
  then have "(shared_step {1})\<^sup>*\<^sup>* (newPool [] []) (newPool [] []\<lparr>made := 1, sockets := ex_sockets (NewSocket defaultServerInfo\<lparr>references := 0\<rparr>),
     server := newServer [] []\<lparr>liveSockets := [0], unusedSockets := [0]\<rparr>\<rparr> :: unit shared)"
    by (rule shared_trans [OF _ recycle [of 0]]) (auto simp: newPool_def newServer_def RecycleSocket_def)
  then have r: "(shared_step {1})\<^sup>*\<^sup>* (newPool [] []) ?p"
    by (rule shared_trans [OF _ take_cached [of 1]]) (auto simp: newPool_def newServer_def takeSocket_def)
  then show ?thesis using sockets_exclusive [OF r, of "Some False"] by (intro exI [of _ ?p] conjI) simp_all
qed


subsection \<open>The limit of the pool\<close>

text \<open>The steps of a single goroutine that always gives the limit \<open>L\<close>.\<close>

inductive pool_run :: "int \<Rightarrow> 'f pool \<Rightarrow> bool" for L where
  new: "pool_run L \<lparr>server = newServer addr tcpaddr, sockets = (\<lambda>_. NewDumbSocket), made = 0\<rparr>"
| acquire: "pool_run L p \<Longrightarrow> AcquireSocket dial L p = Inr (r, p') \<Longrightarrow> pool_run L p'"
| release: "pool_run L p \<Longrightarrow> s < made p \<Longrightarrow> ReleaseSocket s p = Inr p' \<Longrightarrow> pool_run L p'"
| more: "pool_run L p \<Longrightarrow> s < made p \<Longrightarrow> Acquire (sockets p s) = Inr (i, sock) \<Longrightarrow> pool_run L (p\<lparr>sockets := (sockets p)(s := sock)\<rparr>)"
| kill: "pool_run L p \<Longrightarrow> s < made p \<Longrightarrow> pool_run L (killSocket e abend s p)"
| close: "pool_run L p \<Longrightarrow> pool_run L (closeServer p)"

definition held :: "'f pool \<Rightarrow> nat set" where
  "held p = {s. s < made p \<and> 0 < references (sockets p s) \<and> dead (sockets p s) = None}"

definition limit_inv :: "int \<Rightarrow> 'f pool \<Rightarrow> bool" where
  "limit_inv L p \<longleftrightarrow> (\<forall>s. 0 \<le> references (sockets p s)) \<and> int (card (held p)) \<le> L \<and>
     (\<not> closed (server p) \<longrightarrow> distinct (liveSockets (server p)) \<and> distinct (unusedSockets (server p)) \<and>
        set (unusedSockets (server p)) \<subseteq> set (liveSockets (server p)) \<and> set (liveSockets (server p)) \<subseteq> {..<made p} \<and>
        (\<forall>s\<in>set (unusedSockets (server p)). references (sockets p s) = 0) \<and> held p \<subseteq> set (liveSockets (server p)))"

lemma limit_invD:
  assumes "limit_inv L p"
  shows "0 \<le> references (sockets p s)" "int (card (held p)) \<le> L"
    "\<not> closed (server p) \<Longrightarrow> distinct (liveSockets (server p)) \<and> distinct (unusedSockets (server p))"
    "\<not> closed (server p) \<Longrightarrow> set (unusedSockets (server p)) \<subseteq> set (liveSockets (server p))"
    "\<not> closed (server p) \<Longrightarrow> set (liveSockets (server p)) \<subseteq> {..<made p}"
    "\<not> closed (server p) \<Longrightarrow> s \<in> set (unusedSockets (server p)) \<Longrightarrow> references (sockets p s) = 0"
    "\<not> closed (server p) \<Longrightarrow> held p \<subseteq> set (liveSockets (server p))"
  using assms unfolding limit_inv_def by blast+

lemma finite_held [simp]: "finite (held p)"
  by (simp add: held_def)

text \<open>The sockets that the server counts are those held, and dead ones.\<close>

lemma held_counted:
  assumes "limit_inv L p" "\<not> closed (server p)"
  shows "int (card (held p)) \<le> inUse (server p)"
proof -
  note h = limit_invD [OF assms(1)]
  have "held p \<subseteq> set (liveSockets (server p)) - set (unusedSockets (server p))"
    using h(6,7) [OF assms(2)] by (auto simp: held_def)
  then have "card (held p) \<le> card (set (liveSockets (server p)) - set (unusedSockets (server p)))" by (rule card_mono [rotated]) simp
  also have "\<dots> = card (set (liveSockets (server p))) - card (set (unusedSockets (server p)))"
    by (rule card_Diff_subset) (use h(4) assms(2) in auto)
  also have "\<dots> = length (liveSockets (server p)) - length (unusedSockets (server p))"
    using h(3) [OF assms(2)] by (simp add: distinct_card)
  finally show ?thesis
    using card_mono [OF _ h(4) [OF assms(2)]] h(3) [OF assms(2)] by (simp add: inUse_def distinct_card)
qed

lemma butlast_distinct: "distinct xs \<Longrightarrow> xs \<noteq> [] \<Longrightarrow> x = last xs \<Longrightarrow> set (butlast xs) \<subseteq> set xs - {x}"
  by (induction xs rule: rev_induct) auto

lemma takeSocket_room:
  "takeSocket L sv = (Cached s, sv') \<or> takeSocket L sv = (Dial, sv') \<Longrightarrow> 0 < L \<Longrightarrow> \<not> closed sv \<and> inUse sv < L"
  by (auto simp: takeSocket_def inUse_def Let_def split: if_splits)

lemma limit_inv_acquire:
  "AcquireSocket dial L p = Inr (r, p') \<Longrightarrow> 0 < L \<Longrightarrow> limit_inv L p \<Longrightarrow> limit_inv L p'"
proof (induction dial L p rule: AcquireSocket.induct)
  case (1 dial L p)
  note h = limit_invD [OF "1.prems"(3)]
  show ?case
  proof (cases "takeSocket L (server p)")
    case (Pair a sv)
    show ?thesis
    proof (cases a)
      case (Refused e)
      then show ?thesis using "1.prems"(1,3) Pair by (subst (asm) AcquireSocket.simps) (simp add: Let_def)
    next
      case (Cached s)
      note t = takeSocket_cached [OF Pair [unfolded Cached]]
      have s: "s \<in> set (unusedSockets (server p))" "references (sockets p s) = 0" using t h(6) by auto
      have sl: "s \<in> set (liveSockets (server p))" "s < made p" using h(4,5) t s(1) by blast+
      have b: "set (butlast (unusedSockets (server p))) \<subseteq> set (unusedSockets (server p)) - {s}"
        by (rule butlast_distinct) (use h(3) t in simp_all)
      show ?thesis
      proof (cases "dead (sockets p s)")
        case None
        let ?sock = "sockets p s\<lparr>references := 1, serverInfo := Some (Mongos (info sv))\<rparr>"
        have p': "p' = p\<lparr>server := sv, sockets := (sockets p)(s := ?sock)\<rparr>"
          using "1.prems"(1) Pair Cached None s(2) by (subst (asm) AcquireSocket.simps) (simp add: Let_def InitialAcquire_def)
        have hp: "held p' = insert s (held p)" using None sl by (auto simp: held_def p')
        have "int (card (held p)) < L" using held_counted [OF "1.prems"(3)] takeSocket_room [of L "server p" s sv] t Pair Cached "1.prems"(2) by auto
        then have "int (card (held p')) \<le> L" using hp by (simp add: card_insert_if)
        then show ?thesis
          unfolding limit_inv_def hp using h t b sl distinct_butlast by (auto simp: p')
      next
        case (Some e)
        have "AcquireSocket dial L (p\<lparr>server := sv\<rparr>) = Inr (r, p')"
          using "1.prems"(1) Pair Cached Some s(2) by (subst (asm) AcquireSocket.simps) (simp add: Let_def InitialAcquire_def)
        moreover have "limit_inv L (p\<lparr>server := sv\<rparr>)"
          using "1.prems"(3) t b distinct_butlast unfolding limit_inv_def held_def by auto
        ultimately show ?thesis
          using "1.IH" [OF refl Pair [symmetric] Cached, of "(Some e, sockets p s)" "Some e" "sockets p s"] Some s(2) "1.prems"(2)
          by (simp add: InitialAcquire_def)
      qed
    next
      case Dial
      then have sv: "sv = server p" "\<not> closed (server p)" "unusedSockets (server p) = []" using Pair by (auto simp: takeSocket_def Let_def split: if_splits)
      show ?thesis
      proof (cases dial)
        case (Some e)
        then show ?thesis using "1.prems"(1,3) Pair Dial by (subst (asm) AcquireSocket.simps) (simp add: Let_def)
      next
        case None
        have p': "p' = p\<lparr>server := (server p)\<lparr>liveSockets := liveSockets (server p) @ [made p]\<rparr>,
            sockets := (sockets p)(made p := NewSocket (info sv)), made := made p + 1\<rparr>"
          using "1.prems"(1) Pair Dial None sv by (subst (asm) AcquireSocket.simps) (simp add: Let_def)
        have hp: "held p' = insert (made p) (held p)" by (auto simp: held_def p' NewSocket_def NewDumbSocket_def less_Suc_eq)
        have "int (card (held p)) < L" using held_counted [OF "1.prems"(3)] takeSocket_room [of L "server p" undefined sv] Pair Dial "1.prems"(2) by auto
        then have "int (card (held p')) \<le> L" using hp by (simp add: card_insert_if)
        then show ?thesis
          unfolding limit_inv_def hp using h(1,3,4,5,7) sv(2,3) by (fastforce simp: p' NewSocket_def NewDumbSocket_def)
      qed
    qed
  qed
qed


lemma limit_inv_kill: "limit_inv L p \<Longrightarrow> limit_inv L (killSocket e abend s p)"
proof -
  assume inv: "limit_inv L p"
  note h = limit_invD [OF inv]
  obtain sock evs where k: "kill e abend (sockets p s) = (sock, evs)" by force
  have r: "references sock = references (sockets p s)" "dead sock = None \<Longrightarrow> False"
    using k by (auto simp: kill_def split: if_splits)
  have hp: "held (killSocket e abend s p) = held p - {s}" using r k by (auto simp: held_def killSocket_def)
  have "int (card (held p - {s})) \<le> L" using h(2) card_mono [of "held p" "held p - {s}"] by simp
  then show ?thesis
    unfolding limit_inv_def hp using h(1,3-7) r(1)
    by (auto simp: killSocket_def k AbendSocket_def Let_def distinct_remove1 dest: notin_set_remove1)
qed

lemma limit_inv_release:
  assumes inv: "limit_inv L p" and s: "s < made p" "ReleaseSocket s p = Inr p'"
  shows "limit_inv L p'"
proof -
  note h = limit_invD [OF inv]
  obtain bk sock where r: "Release (sockets p s) = Inr (bk, sock)"
    "p' = p\<lparr>sockets := (sockets p)(s := sock), server := (if bk then RecycleSocket s (server p) else server p)\<rparr>"
    using s(2) by (auto simp: ReleaseSocket_def rbind_eq_Inr)
  have d: "dead sock = dead (sockets p s)" "bk \<longrightarrow> dead sock = None" "0 < references (sockets p s)"
    using r(1) h(1) [of s] by (auto simp: Release_def LogoutAll_def Let_def split: if_splits)
  note e = Release_eq [OF r(1)]
  have hp: "held p' \<subseteq> held p" using d e r(2) by (auto simp: held_def split: if_splits)
  have c: "int (card (held p')) \<le> L" using card_mono [OF _ hp] h(2) by simp
  have hs: "s \<in> held p" if bk using d that s(1) by (simp add: held_def)
  have un: "s \<notin> set (unusedSockets (server p))" if "\<not> closed (server p)" using h(6) [OF that, of s] d(3) by auto
  have cl: "closed (server p') = closed (server p)" "liveSockets (server p') = liveSockets (server p)" "made p' = made p"
    using r(2) by (simp_all add: RecycleSocket_def)
  have us: "unusedSockets (server p') = unusedSockets (server p) @ (if bk then [s] else [])" if "\<not> closed (server p)"
    using r(2) that by (simp add: RecycleSocket_def)
  show ?thesis
    unfolding limit_inv_def
  proof (intro conjI allI impI)
    show "0 \<le> references (sockets p' t)" for t using h(1) [of t] d(3) e r(2) by auto
    show "int (card (held p')) \<le> L" by (rule c)
  next
    assume "\<not> closed (server p')"
    then have o: "\<not> closed (server p)" using cl by simp
    show "distinct (liveSockets (server p'))" "set (liveSockets (server p')) \<subseteq> {..<made p'}" "held p' \<subseteq> set (liveSockets (server p'))"
      using h(3,5,7) [OF o] hp cl by auto
    show "distinct (unusedSockets (server p'))" using h(3) [OF o] un [OF o] us [OF o] by simp
    show "set (unusedSockets (server p')) \<subseteq> set (liveSockets (server p'))"
      using h(4,7) [OF o] hs us [OF o] cl by auto
    show "\<forall>t\<in>set (unusedSockets (server p')). references (sockets p' t) = 0"
      using h(6) [OF o] us [OF o] e r(2) by (auto split: if_splits)
  qed
qed


lemma limit_inv_more:
  assumes "limit_inv L p" "Acquire (sockets p s) = Inr (i, sock)"
  shows "limit_inv L (p\<lparr>sockets := (sockets p)(s := sock)\<rparr>)"
proof -
  note h = limit_invD [OF assms(1)] and a = Acquire_eq [OF assms(2)]
  have d: "dead sock = dead (sockets p s)" using assms(2) by (auto simp: Acquire_def split: if_splits)
  have q: "0 < references (sockets p s)" using a h(1) [of s] by linarith
  have hp: "held (p\<lparr>sockets := (sockets p)(s := sock)\<rparr>) = held p" using a d q by (auto simp: held_def)
  show ?thesis unfolding limit_inv_def hp using h a q by auto
qed

lemma limit_inv_close: "limit_inv L p \<Longrightarrow> limit_inv L (closeServer p)"
proof -
  assume inv: "limit_inv L p"
  have "limit_inv L (p\<lparr>server := (server p)\<lparr>closed := True, liveSockets := [], unusedSockets := []\<rparr>\<rparr>)"
    using inv by (simp add: limit_inv_def held_def)
  then have "limit_inv L (fold (killSocket e abend) ss (p\<lparr>server := (server p)\<lparr>closed := True, liveSockets := [], unusedSockets := []\<rparr>\<rparr>))" for ss e abend
    by (induction ss arbitrary: p rule: rev_induct) (simp_all add: limit_inv_kill)
  then show ?thesis by (simp add: closeServer_def Server_Close_def)
qed

lemma pool_run_inv: "pool_run L p \<Longrightarrow> 0 < L \<Longrightarrow> limit_inv L p"
proof (induction rule: pool_run.induct)
  case (new addr tcpaddr)
  then show ?case by (simp add: limit_inv_def held_def newServer_def NewDumbSocket_def)
qed (auto intro: limit_inv_acquire limit_inv_release limit_inv_more limit_inv_kill limit_inv_close)

text \<open>
  C30. When one goroutine uses the server at a time and always gives the limit \<open>L\<close>, never more than \<open>L\<close> of its
  sockets are alive and held, through any sequence of acquiring, releasing, dying sockets and closing the server.
\<close>

theorem pool_limit_kept:
  assumes "pool_run L p" "0 < L"
  shows "int (card (held p)) \<le> L"
  using limit_invD(2) [OF pool_run_inv [OF assms]] .

theorem pool_limit_kept_witness:
  "\<exists>p. pool_run 1 (p :: unit pool) \<and> held p = {0} \<and> int (card (held p)) \<le> 1 \<and>
     AcquireSocket None 1 p = Inr ((None, False, Some errPoolLimit), p)"
proof -
  let ?p = "\<lparr>server = newServer [] [], sockets = (\<lambda>_. NewDumbSocket), made = 0\<rparr> :: unit pool"
  let ?q = "?p\<lparr>server := newServer [] []\<lparr>liveSockets := [0]\<rparr>, sockets := (\<lambda>_. NewDumbSocket)(0 := NewSocket defaultServerInfo), made := 1\<rparr>"
  have "AcquireSocket None 1 ?p = Inr ((Some 0, False, None), ?q)"
    by (subst AcquireSocket.simps) (simp add: takeSocket_def newServer_def Let_def)
  then have r: "pool_run 1 ?q" by (rule pool_run.acquire [OF pool_run.new])
  moreover have "held ?q = {0}" by (auto simp: held_def NewSocket_def NewDumbSocket_def)
  moreover have "AcquireSocket None 1 ?q = Inr ((None, False, Some errPoolLimit), ?q)"
    by (subst AcquireSocket.simps) (simp add: takeSocket_def newServer_def Let_def)
  ultimately show ?thesis using pool_limit_kept [OF r] by (intro exI [of _ ?q] conjI) simp_all
qed

text \<open>
  Several goroutines exceed the limit: the check and the adding are two sections. And a socket that dies
  between its release and its recycling is put back although it is not counted any more.
\<close>

theorem pool_limit_race:
  "\<exists>p. (shared_step {1})\<^sup>*\<^sup>* (newPool [] []) p \<and> liveSockets (server p) = [0, 1] \<and>
     references (sockets p 0) = 1 \<and> references (sockets p 1) = 1 \<and> dead (sockets p 0) = None \<and> dead (sockets p 1) = None"
proof -
  let ?sv = "newServer [] []" and ?p = "newPool [] []"
  let ?so = "(\<lambda>_. NewDumbSocket)(0 := NewSocket defaultServerInfo, 1 := NewSocket defaultServerInfo)"
  have "(shared_step {1})\<^sup>*\<^sup>* ?p (?p\<lparr>dialing := 1\<rparr>)"
    by (rule shared_trans [OF rtranclp.rtrancl_refl take_dial [of 1]]) (auto simp: takeSocket_def newPool_def newServer_def)
  then have "(shared_step {1})\<^sup>*\<^sup>* ?p (?p\<lparr>dialing := 2\<rparr>)"
    by (rule shared_trans [OF _ take_dial [of 1]]) (auto simp: takeSocket_def newPool_def newServer_def)
  then have "(shared_step {1})\<^sup>*\<^sup>* ?p (?p\<lparr>dialing := 1, made := 1, sockets := (\<lambda>_. NewDumbSocket)(0 := NewSocket defaultServerInfo), fresh := [0]\<rparr>)"
    by (rule shared_trans [OF _ dial_done]) (auto simp: newPool_def newServer_def)
  then have "(shared_step {1})\<^sup>*\<^sup>* ?p (?p\<lparr>made := 2, sockets := ?so, fresh := [1, 0]\<rparr>)"
    by (rule shared_trans [OF _ dial_done]) (auto simp: newPool_def newServer_def)
  then have "(shared_step {1})\<^sup>*\<^sup>* ?p (?p\<lparr>made := 2, sockets := ?so, fresh := [1], server := ?sv\<lparr>liveSockets := [0]\<rparr>\<rparr>)"
    by (rule shared_trans [OF _ add_fresh [of 0]]) (auto simp: newPool_def newServer_def addSocket_def)
  then have r: "(shared_step {1})\<^sup>*\<^sup>* ?p (?p\<lparr>made := 2, sockets := ?so, fresh := [], server := ?sv\<lparr>liveSockets := [0, 1]\<rparr>\<rparr>)"
    by (rule shared_trans [OF _ add_fresh [of 1]]) (auto simp: newPool_def newServer_def addSocket_def)
  show ?thesis by (intro exI conjI, rule r) (simp_all add: NewSocket_def NewDumbSocket_def)
qed

theorem dead_recycled:
  "\<exists>p. (shared_step {1})\<^sup>*\<^sup>* (newPool [] []) p \<and> unusedSockets (server p) = [0] \<and> dead (sockets p 0) \<noteq> None \<and> inUse (server p) = -1"
proof -
  let ?sv = "newServer [] []" and ?p = "newPool [] []" and ?s = "NewSocket defaultServerInfo"
  note ex_released
  then have "(shared_step {1})\<^sup>*\<^sup>* ?p (?p\<lparr>made := 1, sockets := ex_sockets (?s\<lparr>references := 0, dead := Some EOF\<rparr>), server := ?sv\<lparr>liveSockets := [0]\<rparr>,
      recycling := [0], abending := [0]\<rparr>)"
    by (rule shared_trans [OF _ shared_step.kill [where s = 0 and e = EOF and abend = True and sock = "?s\<lparr>references := 0, dead := Some EOF\<rparr>" and evs = "[ConnClosed, Abended]"]])
      (auto simp: newPool_def newServer_def Socket.kill_def NewSocket_def NewDumbSocket_def)
  then have "(shared_step {1})\<^sup>*\<^sup>* ?p (?p\<lparr>made := 1, sockets := ex_sockets (?s\<lparr>references := 0, dead := Some EOF\<rparr>), server := ?sv\<lparr>abended := True\<rparr>, recycling := [0]\<rparr>)"
    by (rule shared_trans [OF _ abend [of 0]]) (auto simp: newPool_def newServer_def AbendSocket_def Let_def)
  then have r: "(shared_step {1})\<^sup>*\<^sup>* ?p (?p\<lparr>made := 1, sockets := ex_sockets (?s\<lparr>references := 0, dead := Some EOF\<rparr>), server := ?sv\<lparr>abended := True, unusedSockets := [0]\<rparr>\<rparr>)"
    by (rule shared_trans [OF _ recycle [of 0]]) (auto simp: newPool_def newServer_def RecycleSocket_def)
  show ?thesis by (intro exI conjI, rule r) (simp_all add: inUse_def newServer_def)
qed

subsection \<open>The list of servers\<close>

lemma sort_Search_ok:
  "i \<le> j \<Longrightarrow> (\<And>k l. i \<le> k \<Longrightarrow> k \<le> l \<Longrightarrow> l < j \<Longrightarrow> f k \<Longrightarrow> f l) \<Longrightarrow>
   i \<le> sort_Search f i j \<and> sort_Search f i j \<le> j \<and> (\<forall>k. i \<le> k \<longrightarrow> k < sort_Search f i j \<longrightarrow> \<not> f k) \<and>
   (sort_Search f i j < j \<longrightarrow> f (sort_Search f i j))"
proof (induction f i j rule: sort_Search.induct)
  case (1 f i j)
  show ?case
  proof (cases "i < j")
    case False
    then show ?thesis using "1.prems"(1) by (subst (1 2 3 4 5) sort_Search.simps) simp
  next
    case True
    define h where "h = (i + j) div 2"
    have h: "i \<le> h" "h < j" using True by (auto simp: h_def)
    show ?thesis
    proof (cases "f h")
      case True
      have e: "sort_Search f i j = sort_Search f i h" using \<open>i < j\<close> True by (subst sort_Search.simps) (simp add: h_def Let_def)
      have "i \<le> sort_Search f i h \<and> sort_Search f i h \<le> h \<and> (\<forall>k. i \<le> k \<longrightarrow> k < sort_Search f i h \<longrightarrow> \<not> f k) \<and>
          (sort_Search f i h < h \<longrightarrow> f (sort_Search f i h))"
      proof (rule "1.IH"(2) [OF \<open>i < j\<close> h_def])
        show "\<not> \<not> f h" "i \<le> h" using True h by simp_all
        show "f l" if "i \<le> k" "k \<le> l" "l < h" "f k" for k l using "1.prems"(2) [OF that(1,2) _ that(4)] that(3) h(2) by simp
      qed
      then have r: "i \<le> sort_Search f i h" "sort_Search f i h \<le> h" "\<forall>k. i \<le> k \<longrightarrow> k < sort_Search f i h \<longrightarrow> \<not> f k" "f (sort_Search f i h)"
        using True by (metis le_neq_implies_less)+
      show ?thesis unfolding e using r(1,2) h(2) by (intro conjI impI r) simp_all
    next
      case False
      have e: "sort_Search f i j = sort_Search f (h + 1) j" using \<open>i < j\<close> False by (subst sort_Search.simps) (simp add: h_def Let_def)
      have "h + 1 \<le> sort_Search f (h + 1) j \<and> sort_Search f (h + 1) j \<le> j \<and> (\<forall>k. h + 1 \<le> k \<longrightarrow> k < sort_Search f (h + 1) j \<longrightarrow> \<not> f k) \<and>
          (sort_Search f (h + 1) j < j \<longrightarrow> f (sort_Search f (h + 1) j))"
      proof (rule "1.IH"(1) [OF \<open>i < j\<close> h_def])
        show "\<not> f h" "h + 1 \<le> j" using False h by simp_all
        show "f l" if "h + 1 \<le> k" "k \<le> l" "l < j" "f k" for k l using "1.prems"(2) [OF _ that(2-4)] that(1) h(1) by simp
      qed
      moreover have n: "\<not> f k" if "i \<le> k" "k \<le> h" for k using False "1.prems"(2) [of k h] that h by blast
      moreover have "\<not> f k" if "i \<le> k" "k < sort_Search f (h + 1) j" for k
        using calculation(1) n that by (cases "k \<le> h") auto
      ultimately show ?thesis unfolding e using h by auto
    qed
  qed
qed


definition servers_ok :: "mongoServers \<Rightarrow> bool" where
  "servers_ok s \<longleftrightarrow> sorted (map ResolvedAddr s) \<and> distinct (map ResolvedAddr s)"

definition servers_map :: "mongoServers \<Rightarrow> string \<rightharpoonup> MongoServer" where
  "servers_map s = map_of (map (\<lambda>sv. (ResolvedAddr sv, sv)) s)"

lemma servers_map_iff: "servers_ok s \<Longrightarrow> servers_map s a = Some sv \<longleftrightarrow> sv \<in> set s \<and> ResolvedAddr sv = a"
  by (auto simp: servers_map_def servers_ok_def comp_def map_of_eq_Some_iff)

lemma servers_map_eqI: "servers_ok s \<Longrightarrow> (\<And>a sv. m a = Some sv \<longleftrightarrow> sv \<in> set s \<and> ResolvedAddr sv = a) \<Longrightarrow> servers_map s = m"
  by (rule ext, rule option.expand) (metis servers_map_iff option.exhaust_sel option.discI option.sel)+

lemma servers_map_None: "servers_ok s \<Longrightarrow> servers_map s a = None \<longleftrightarrow> a \<notin> ResolvedAddr ` set s"
  using servers_map_iff [of s a] by (metis imageE image_eqI not_Some_eq)

lemma slice_Search_ok:
  assumes "servers_ok s" "slice_Search s a = (i, ok)"
  shows "ok \<longleftrightarrow> a \<in> ResolvedAddr ` set s" "ok \<Longrightarrow> i < length s \<and> ResolvedAddr (s ! i) = a"
proof -
  let ?f = "\<lambda>i. ResolvedAddr (s ! i) \<ge> a"
  have m: "ResolvedAddr (s ! k) \<le> ResolvedAddr (s ! l)" if "k \<le> l" "l < length s" for k l
    using assms(1) sorted_nth_mono [of "map ResolvedAddr s" k l] that by (simp add: servers_ok_def)
  have i: "i = sort_Search ?f 0 (length s)" "ok \<longleftrightarrow> i \<noteq> length s \<and> ResolvedAddr (s ! i) = a"
    using assms(2) by (auto simp: slice_Search_def Let_def)
  have "0 \<le> sort_Search ?f 0 (length s) \<and> sort_Search ?f 0 (length s) \<le> length s \<and>
      (\<forall>k. 0 \<le> k \<longrightarrow> k < sort_Search ?f 0 (length s) \<longrightarrow> \<not> ?f k) \<and> (sort_Search ?f 0 (length s) < length s \<longrightarrow> ?f (sort_Search ?f 0 (length s)))"
    by (rule sort_Search_ok) (use m order_trans in blast)+
  then have b: "i \<le> length s" "\<And>k. k < i \<Longrightarrow> \<not> ?f k" "i < length s \<Longrightarrow> ?f i" unfolding i(1) by simp_all
  show "ok \<Longrightarrow> i < length s \<and> ResolvedAddr (s ! i) = a" using i(2) b(1) by simp
  show "ok \<longleftrightarrow> a \<in> ResolvedAddr ` set s"
  proof
    show "ok \<Longrightarrow> a \<in> ResolvedAddr ` set s" using i(2) b(1) by auto
    assume "a \<in> ResolvedAddr ` set s"
    then obtain k where k: "k < length s" "ResolvedAddr (s ! k) = a" by (metis imageE in_set_conv_nth)
    then have "i \<le> k" using b(2) [of k] by (metis not_le order_refl)
    then have "ResolvedAddr (s ! i) = a" using m [of i k] b(3) k by auto
    then show ok using i(2) \<open>i \<le> k\<close> k(1) by simp
  qed
qed

lemma servers_Search_map: "servers_ok s \<Longrightarrow> servers_Search s a = servers_map s a"
proof -
  assume s: "servers_ok s"
  obtain i ok where i: "slice_Search s a = (i, ok)" by force
  show ?thesis
  proof (cases ok)
    case True
    then have "servers_map s a = Some (s ! i)" using servers_map_iff [OF s] slice_Search_ok(2) [OF s i] by auto
    then show ?thesis using True i by (simp add: servers_Search_def)
  next
    case False
    then have "servers_map s a = None" using slice_Search_ok(1) [OF s i] servers_map_None [OF s] by simp
    then show ?thesis using False i by (simp add: servers_Search_def)
  qed
qed

lemma servers_Add_map:
  assumes s: "servers_ok s" "servers_map s (ResolvedAddr sv) = None"
  shows "servers_ok (servers_Add s sv) \<and> servers_map (servers_Add s sv) = (servers_map s)(ResolvedAddr sv \<mapsto> sv)"
proof -
  have n: "ResolvedAddr sv \<notin> ResolvedAddr ` set s" using s servers_map_None by blast
  have "distinct (map ResolvedAddr (s @ [sv]))" using s(1) n by (auto simp: servers_ok_def)
  then have "distinct (map ResolvedAddr (servers_Add s sv))"
    unfolding servers_Add_def by (metis distinct_map distinct_sort set_sort)
  then have ok: "servers_ok (servers_Add s sv)" by (simp add: servers_ok_def servers_Add_def)
  have "\<forall>x\<in>set s. ResolvedAddr x \<noteq> ResolvedAddr sv" using n by (metis image_eqI)
  then have "servers_map (servers_Add s sv) = (servers_map s)(ResolvedAddr sv \<mapsto> sv)"
    by (intro servers_map_eqI [OF ok]) (auto simp: servers_Add_def servers_map_iff [OF s(1)])
  then show ?thesis using ok by blast
qed

lemma servers_Remove_map:
  assumes s: "servers_ok s"
  shows "\<exists>s'. servers_Remove s sv = (servers_map s (ResolvedAddr sv), s') \<and> servers_ok s' \<and>
    servers_map s' = (servers_map s)(ResolvedAddr sv := None)"
proof -
  obtain i ok where i: "slice_Search s (ResolvedAddr sv) = (i, ok)" by force
  show ?thesis
  proof (cases ok)
    case False
    then have "servers_map s (ResolvedAddr sv) = None" using slice_Search_ok(1) [OF s i] servers_map_None [OF s] by simp
    then show ?thesis using s i False by (simp add: servers_Remove_def fun_upd_idem)
  next
    case True
    then have k: "i < length s" "ResolvedAddr (s ! i) = ResolvedAddr sv" using slice_Search_ok(2) [OF s i] by auto
    let ?s = "take i s @ drop (i + 1) s"
    have e: "s = take i s @ s ! i # drop (i + 1) s" using id_take_nth_drop [OF k(1)] by simp
    have ok: "servers_ok ?s"
      using s unfolding servers_ok_def by (subst (asm) (1 2) e) (auto simp: sorted_append)
    have "distinct (map ResolvedAddr (take i s @ s ! i # drop (i + 1) s))" using s e by (simp add: servers_ok_def)
    then have "ResolvedAddr sv \<notin> ResolvedAddr ` set ?s" using k(2) by auto
    then have "\<forall>x\<in>set ?s. ResolvedAddr x \<noteq> ResolvedAddr sv" by (metis image_eqI)
    moreover have "set s = insert (s ! i) (set ?s)" using arg_cong [OF e, of set] by auto
    ultimately have "sv' \<in> set ?s \<longleftrightarrow> sv' \<in> set s \<and> ResolvedAddr sv' \<noteq> ResolvedAddr sv" for sv'
      using k(2) by auto
    then have "servers_map ?s = (servers_map s)(ResolvedAddr sv := None)"
      by (intro servers_map_eqI [OF ok]) (auto simp: servers_map_iff [OF s])
    moreover have "servers_map s (ResolvedAddr sv) = Some (s ! i)" using k servers_map_iff [OF s] by auto
    ultimately show ?thesis using ok i True by (simp add: servers_Remove_def)
  qed
qed

text \<open>
  C31. The sorted slice with its binary search is a map from addresses to servers: \<open>Search\<close> looks up, \<open>Add\<close> of
  a new address inserts, and \<open>Remove\<close> gives the server of the address, if there is one, and deletes it.
\<close>

theorem servers_refine_map:
  assumes "servers_ok s"
  shows "servers_Search s a = servers_map s a \<and>
    (servers_Search s (ResolvedAddr sv) = None \<longrightarrow>
      servers_ok (servers_Add s sv) \<and> servers_map (servers_Add s sv) = (servers_map s)(ResolvedAddr sv \<mapsto> sv)) \<and>
    (\<exists>s'. servers_Remove s sv = (servers_map s (ResolvedAddr sv), s') \<and> servers_ok s' \<and>
      servers_map s' = (servers_map s)(ResolvedAddr sv := None))"
  using servers_Search_map [OF assms] servers_Add_map [OF assms] servers_Remove_map [OF assms] by auto

theorem servers_refine_map_witness:
  "let s = [newServer ''a'' ''1'', newServer ''c'' ''3'']; sv = newServer ''b'' ''2''
   in servers_Search s ''3'' = Some (newServer ''c'' ''3'') \<and>
     servers_map (servers_Add s sv) ''2'' = Some sv"
proof -
  let ?s = "[newServer ''a'' ''1'', newServer ''c'' ''3'']" and ?v = "newServer ''b'' ''2''"
  have ok: "servers_ok ?s" by (simp add: servers_ok_def newServer_def less_eq_list_code less_char_def)
  have m: "servers_map ?s ''3'' = Some (newServer ''c'' ''3'')" "servers_map ?s ''2'' = None"
    by (simp_all add: servers_map_def newServer_def)
  have a: "ResolvedAddr ?v = ''2''" by (simp add: newServer_def)
  show ?thesis
    using servers_refine_map [OF ok, of "''3''" ?v] servers_refine_map [OF ok, of "''2''" ?v] m unfolding a Let_def by simp
qed

subsection \<open>The best server\<close>

definition preferred :: "int \<Rightarrow> MongoServer \<Rightarrow> bool" where
  "preferred md sv \<longleftrightarrow> Master (info sv) = (md = PrimaryPreferred)"

lemma BestFit_loop_ok:
  assumes "\<forall>sv\<in>set svs. lacksTags tags sv = Inr (lacks sv)" "\<forall>b. best = Some b \<longrightarrow> \<not> lacks b"
  shows "\<exists>r. BestFit_loop md tags svs best = Inr r \<and> (r = None \<longleftrightarrow> best = None \<and> (\<forall>sv\<in>set svs. lacks sv)) \<and>
    (\<forall>b. r = Some b \<longrightarrow> (b \<in> set svs \<or> best = Some b) \<and> \<not> lacks b \<and>
       (md \<noteq> Nearest \<longrightarrow> (\<exists>sv. (sv \<in> set svs \<or> best = Some sv) \<and> \<not> lacks sv \<and> preferred md sv) \<longrightarrow> preferred md b))"
  using assms
proof (induction svs arbitrary: best)
  case (Cons nxt svs)
  define best' where "best' = (case best of
            None \<Rightarrow> if lacks nxt then None else Some nxt
          | Some b \<Rightarrow>
              if (if lacks nxt then False
                  else if Master (info nxt) \<noteq> Master (info b) \<and> md \<noteq> Nearest then (md = PrimaryPreferred) \<noteq> Master (info b)
                  else if absDuration (pingValue nxt - pingValue b) > 15 * 10 ^ 6 then pingValue nxt < pingValue b
                  else inUse nxt < inUse b)
              then Some nxt else Some b)"
  have e: "BestFit_loop md tags (nxt # svs) best = BestFit_loop md tags svs best'"
    using Cons.prems(1) by (simp add: best'_def)
  have b: "\<forall>b. best' = Some b \<longrightarrow> \<not> lacks b" "best' = None \<longleftrightarrow> best = None \<and> lacks nxt"
    "\<forall>b. best' = Some b \<longrightarrow> b = nxt \<or> best = Some b"
    using Cons.prems(2) by (auto simp: best'_def split: option.splits if_splits)
  have p: "\<exists>b. best' = Some b \<and> preferred md b"
    if "md \<noteq> Nearest" "sv = nxt \<or> best = Some sv" "\<not> lacks sv" "preferred md sv" for sv
    using that by (cases best) (auto simp: best'_def preferred_def split: if_splits)
  obtain r where r: "BestFit_loop md tags svs best' = Inr r" "r = None \<longleftrightarrow> best' = None \<and> (\<forall>sv\<in>set svs. lacks sv)"
    "\<forall>b. r = Some b \<longrightarrow> (b \<in> set svs \<or> best' = Some b) \<and> \<not> lacks b \<and>
       (md \<noteq> Nearest \<longrightarrow> (\<exists>sv. (sv \<in> set svs \<or> best' = Some sv) \<and> \<not> lacks sv \<and> preferred md sv) \<longrightarrow> preferred md b)"
  proof -
    have "\<forall>sv\<in>set svs. lacksTags tags sv = Inr (lacks sv)" using Cons.prems(1) by simp
    from Cons.IH [OF this b(1)] that show thesis by blast
  qed
  have "preferred md c" if "r = Some c" "md \<noteq> Nearest" "sv \<in> set (nxt # svs) \<or> best = Some sv" "\<not> lacks sv" "preferred md sv" for c sv
    using r(3) that p [OF that(2) _ that(4,5)] b(1) by auto
  then show ?case unfolding e using r b(2,3) by (intro exI [of _ r] conjI) auto
qed auto



end
