(* ===== verification/ObjectIds.thy ===== *)
theory ObjectIds
  imports Bson
begin

text \<open>
  Object ids (\<open>internal/llmgo/bson/bson.go\<close>): twelve bytes with a time, a machine, a process and a
  counter, how they are made, taken apart and printed; and the fields of a struct as the codec
  sees them (\<open>getStructInfo\<close>).
\<close>

subsection \<open>Hexadecimal\<close>

text \<open>What the code uses of \<open>encoding/hex\<close>.\<close>

definition hexDigit :: "nat \<Rightarrow> char" where
  "hexDigit n = ''0123456789abcdef'' ! n"

definition hexValue :: "char \<Rightarrow> byte option" where
  "hexValue c =
     (let n = of_char c :: nat in
      if 48 \<le> n \<and> n \<le> 57 then Some (of_nat (n - 48))
      else if 97 \<le> n \<and> n \<le> 102 then Some (of_nat (n - 87))
      else if 65 \<le> n \<and> n \<le> 70 then Some (of_nat (n - 55))
      else None)"

fun hexEncode :: "bytes \<Rightarrow> string" where
  "hexEncode [] = []"
| "hexEncode (b # bs) = hexDigit (unat (drop_bit 4 b)) # hexDigit (unat (b AND 15)) # hexEncode bs"

fun hexDecode :: "string \<Rightarrow> bytes option" where
  "hexDecode [] = Some []"
| "hexDecode [c] = None"
| "hexDecode (c # d # s) =
     (case (hexValue c, hexValue d, hexDecode s) of
        (Some x, Some y, Some bs) \<Rightarrow> Some ((push_bit 4 x OR y) # bs)
      | _ \<Rightarrow> None)"

subsection \<open>Object ids\<close>

type_synonym ObjectId = string

definition ObjectIdHex :: "string \<Rightarrow> ObjectId res" where
  "ObjectIdHex s =
     (case hexDecode s of
        None \<Rightarrow> Inl (Panic ''Invalid input to ObjectIdHex: %q'')
      | Some d \<Rightarrow> if length d \<noteq> 12 then Inl (Panic ''Invalid input to ObjectIdHex: %q'') else Inr (str d))"

definition IsObjectIdHex :: "string \<Rightarrow> bool" where
  "IsObjectIdHex s \<longleftrightarrow> (if length s \<noteq> 24 then False else hexDecode s \<noteq> None)"

text \<open>The random reader gives bytes or fails.\<close>

definition readRandomUint32 :: "(byte \<times> byte \<times> byte \<times> byte) option \<Rightarrow> uint32 res" where
  "readRandomUint32 random =
     (case random of
        None \<Rightarrow> Inl (Panic ''cannot read random object id: %v'')
      | Some (b0, b1, b2, b3) \<Rightarrow> Inr (ucast b0 OR push_bit 8 (ucast b1) OR push_bit 16 (ucast b2) OR push_bit 24 (ucast b3)))"

definition readMachineId :: "(bytes \<Rightarrow> bytes) \<Rightarrow> string option \<Rightarrow> bytes option \<Rightarrow> bytes res" where
  "readMachineId md5 hostname random =
     (case hostname of
        Some h \<Rightarrow> Inr (take 3 (md5 (raw h)))
      | None \<Rightarrow> (case random of Some r \<Rightarrow> Inr (take 3 r) | None \<Rightarrow> Inl (Panic ''cannot get hostname: %v; %v'')))"

definition unixEpoch :: gotime where
  "unixEpoch = unixToInternal * 10 ^ 9"

definition Unix :: "gotime \<Rightarrow> int" where
  "Unix t = (t - unixEpoch) div 10 ^ 9"

definition putUint32 :: "uint32 \<Rightarrow> bytes" where
  "putUint32 n = [ucast (drop_bit 24 n), ucast (drop_bit 16 n), ucast (drop_bit 8 n), ucast n]"

text \<open>\<open>NewObjectId\<close>: the id, and the counter that is left.\<close>

definition NewObjectId :: "byte \<times> byte \<times> byte \<Rightarrow> int \<Rightarrow> gotime \<Rightarrow> uint32 \<Rightarrow> ObjectId \<times> uint32" where
  "NewObjectId machineId pid now objectIdCounter =
     (case machineId of (m0, m1, m2) \<Rightarrow>
        let i = objectIdCounter + 1
        in (str (putUint32 (word_of_int (Unix now)) @ [m0, m1, m2] @
               [word_of_int (pid div 2 ^ 8), word_of_int pid] @
               [ucast (drop_bit 16 i), ucast (drop_bit 8 i), ucast i]), i))"

definition NewObjectIdWithTime :: "gotime \<Rightarrow> ObjectId" where
  "NewObjectIdWithTime t = str (putUint32 (word_of_int (Unix t)) @ replicate 8 0)"

definition ObjectId_String :: "ObjectId \<Rightarrow> string" where
  "ObjectId_String i = ''ObjectIdHex('' @ CHR 0x22 # hexEncode (raw i) @ CHR 0x22 # '')''"

definition Hex :: "ObjectId \<Rightarrow> string" where
  "Hex i = hexEncode (raw i)"

definition MarshalJSON :: "ObjectId \<Rightarrow> string" where
  "MarshalJSON i = CHR 0x22 # hexEncode (raw i) @ [CHR 0x22]"

definition UnmarshalJSON :: "string \<Rightarrow> ObjectId res" where
  "UnmarshalJSON data =
     (if data = [CHR 0x22, CHR 0x22] \<or> data = ''null'' then Inr []
      else if length data \<noteq> 26 \<or> data ! 0 \<noteq> CHR 0x22 \<or> data ! 25 \<noteq> CHR 0x22
      then Inl (Error (Errorf ''Invalid ObjectId in JSON: %s'' []))
      else
        (case hexDecode (take 24 (drop 1 data)) of
           None \<Rightarrow> Inl (Error (Errorf ''Invalid ObjectId in JSON: %s (%s)'' []))
         | Some b \<Rightarrow> Inr (str b)))"

definition ObjectId_Valid :: "ObjectId \<Rightarrow> bool" where
  "ObjectId_Valid i \<longleftrightarrow> length i = 12"

definition byteSlice :: "ObjectId \<Rightarrow> nat \<Rightarrow> nat \<Rightarrow> bytes res" where
  "byteSlice i a b =
     (if length i \<noteq> 12 then Inl (Panic ''Invalid ObjectId: %q'') else Inr (raw (take (b - a) (drop a i))))"

definition getUint32 :: "bytes \<Rightarrow> uint32" where
  "getUint32 b = push_bit 24 (ucast (b ! 0)) OR push_bit 16 (ucast (b ! 1)) OR push_bit 8 (ucast (b ! 2)) OR ucast (b ! 3)"

definition ObjectId_Time :: "ObjectId \<Rightarrow> gotime res" where
  "ObjectId_Time i = rbind (byteSlice i 0 4) (\<lambda>b. Inr (unixEpoch + uint (getUint32 b) * 10 ^ 9))"

definition ObjectId_Machine :: "ObjectId \<Rightarrow> bytes res" where
  "ObjectId_Machine i = byteSlice i 4 7"

definition ObjectId_Pid :: "ObjectId \<Rightarrow> 16 word res" where
  "ObjectId_Pid i = rbind (byteSlice i 7 9) (\<lambda>b. Inr (push_bit 8 (ucast (b ! 0)) OR ucast (b ! 1)))"

definition ObjectId_Counter :: "ObjectId \<Rightarrow> int32 res" where
  "ObjectId_Counter i =
     rbind (byteSlice i 9 12) (\<lambda>b. Inr (push_bit 16 (ucast (b ! 0)) OR push_bit 8 (ucast (b ! 1)) OR ucast (b ! 2)))"

text \<open>The ids that one process makes, at the times \<open>nows\<close>.\<close>

fun makeIds :: "byte \<times> byte \<times> byte \<Rightarrow> int \<Rightarrow> gotime list \<Rightarrow> uint32 \<Rightarrow> ObjectId list" where
  "makeIds machineId pid [] c = []"
| "makeIds machineId pid (now # nows) c =
     (case NewObjectId machineId pid now c of (i, c) \<Rightarrow> i # makeIds machineId pid nows c)"

subsection \<open>Proofs\<close>

lemma hexValue_hexDigit: "n < 16 \<Longrightarrow> hexValue (hexDigit n) = Some (word_of_nat n)"
proof -
  assume "n < 16"
  then have "n \<in> {0..<16}" by simp
  moreover have "\<forall>n\<in>{0..<16}. hexValue (hexDigit n) = Some (word_of_nat n)"
    by (simp add: atLeastLessThan_nat_numeral hexValue_def hexDigit_def Let_def)
  ultimately show ?thesis by blast
qed

lemma nibbles: "push_bit 4 (drop_bit 4 b) OR (b AND 15) = (b :: byte)"
proof -
  have "(15 :: byte) = mask 4" by (simp add: mask_eq_exp_minus_1)
  then show ?thesis by (auto simp: bit_eq_iff bit_simps) 
qed

lemma nibble_lt: "unat (drop_bit 4 (b :: byte)) < 16" "unat (b AND 15) < 16"
proof -
  have "unat b < 2 ^ 8" using unsigned_less [of b] by simp
  then show "unat (drop_bit 4 b) < 16" unfolding unat_drop_bit_eq by (simp add: drop_bit_eq_div)
  have "(15 :: byte) = mask 4" by (simp add: mask_eq_exp_minus_1)
  then show "unat (b AND 15) < 16" using and_mask_less' [of 4 b] by (simp add: word_less_nat_alt)
qed

lemma hexDecode_hexEncode [simp]: "hexDecode (hexEncode bs) = Some bs"
  by (induction bs) (simp_all add: hexValue_hexDigit nibble_lt nibbles)

lemma length_hexEncode [simp]: "length (hexEncode bs) = 2 * length bs"
  by (induction bs) auto


lemma drop_str: "drop n (str b) = str (drop n b)"
  by (simp add: str_def drop_map)

lemma take_str: "take n (str b) = str (take n b)"
  by (simp add: str_def take_map)

text \<open>
  Ids survive their printed forms: the hexadecimal form of a valid id is recognized and read back, and
  what is written as JSON is read back, for every valid id and for the empty one.
\<close>

theorem hex_roundtrip:
  assumes "ObjectId_Valid i"
  shows "IsObjectIdHex (Hex i) \<and> ObjectIdHex (Hex i) = Inr i \<and> UnmarshalJSON (MarshalJSON i) = Inr i"
proof -
  have l: "length (hexEncode (raw i)) = 24" using assms by (simp add: ObjectId_Valid_def)
  have "hexEncode (raw i) \<noteq> []" using l by (metis list.size(3) zero_neq_numeral)
  then have "UnmarshalJSON (MarshalJSON i) = Inr i"
    using l by (auto simp: UnmarshalJSON_def MarshalJSON_def nth_append)
  then show ?thesis using assms l by (simp add: IsObjectIdHex_def ObjectIdHex_def Hex_def ObjectId_Valid_def)
qed

theorem hex_roundtrip_witness:
  "ObjectIdHex (Hex ''abcdefghijkl'') = Inr ''abcdefghijkl''"
  using hex_roundtrip [of "''abcdefghijkl''"] by (simp add: ObjectId_Valid_def)

lemma getUint32_put [simp]: "getUint32 (putUint32 n) = n"
proof (rule bit_word_eqI)
  fix k
  show "bit (getUint32 (putUint32 n)) k = bit n k" if "k < LENGTH(32)"
    using that by (cases "k < 8"; cases "k < 16"; cases "k < 24") (auto simp: getUint32_def putUint32_def bit_simps)
qed

lemma getUint16_put: "(push_bit 8 (ucast (word_of_int (p div 2 ^ 8) :: byte)) OR ucast (word_of_int p :: byte) :: 16 word) = word_of_int p"
proof (rule bit_word_eqI)
  fix k
  have "p div 2 ^ 8 = drop_bit 8 p" by (simp add: drop_bit_eq_div)
  then show "bit (push_bit 8 (ucast (word_of_int (p div 2 ^ 8) :: byte)) OR ucast (word_of_int p :: byte) :: 16 word) k = bit (word_of_int p :: 16 word) k"
    if "k < LENGTH(16)"
    using that by (cases "k < 8") (auto simp: bit_simps)
qed

lemma getUint24_put:
  "(push_bit 16 (ucast (ucast (drop_bit 16 i) :: byte)) OR push_bit 8 (ucast (ucast (drop_bit 8 i) :: byte)) OR ucast (ucast i :: byte) :: int32) =
     i AND 0xFFFFFF" for i :: int32
proof -
  have "(0xFFFFFF :: int32) = mask 24" by (simp add: mask_eq_exp_minus_1)
  show ?thesis
  proof (rule bit_word_eqI)
    fix k
    show "bit (push_bit 16 (ucast (ucast (drop_bit 16 i) :: byte)) OR push_bit 8 (ucast (ucast (drop_bit 8 i) :: byte)) OR ucast (ucast i :: byte) :: int32) k =
        bit (i AND 0xFFFFFF) k" if "k < LENGTH(32)"
      unfolding \<open>0xFFFFFF = mask 24\<close> using that by (cases "k < 8"; cases "k < 16"; cases "k < 24") (auto simp: bit_simps)
  qed
qed

lemma counter_mod: "uint (take_bit 24 (c + 1 + of_nat k :: uint32)) = (uint c + 1 + int k) mod 2 ^ 24"
proof -
  have "c + 1 + of_nat k = (word_of_int (uint c + 1 + int k) :: uint32)" by simp
  moreover have "uint (take_bit 24 (word_of_int x :: uint32)) = x mod 2 ^ 24" for x
    unfolding unsigned_take_bit_eq uint_word_of_int by (simp add: take_bit_eq_mod mod_mod_cancel)
  ultimately show ?thesis by (simp only:)
qed

lemma NewObjectId_parts:
  assumes "NewObjectId m pid now c = (i, c')"
  shows "c' = c + 1" "ObjectId_Valid i" "ObjectId_Counter i = Inr ((c + 1) AND 0xFFFFFF)"
    "ObjectId_Pid i = Inr (word_of_int pid)" "ObjectId_Time i = Inr (unixEpoch + uint (word_of_int (Unix now) :: uint32) * 10 ^ 9)"
proof -
  obtain m0 m1 m2 where m: "m = (m0, m1, m2)" by (metis prod.exhaust)
  have i: "i = str (putUint32 (word_of_int (Unix now)) @ [m0, m1, m2] @ [word_of_int (pid div 2 ^ 8), word_of_int pid] @
       [ucast (drop_bit 16 (c + 1)), ucast (drop_bit 8 (c + 1)), ucast (c + 1)])" "c' = c + 1"
    using assms by (auto simp: NewObjectId_def m Let_def)
  have l: "length (putUint32 n) = 4" for n by (simp add: putUint32_def)
  show "c' = c + 1" by (rule i(2))
  show v: "ObjectId_Valid i" by (simp add: i ObjectId_Valid_def l)
  show "ObjectId_Counter i = Inr ((c + 1) AND 0xFFFFFF)"
    by (simp add: ObjectId_Counter_def byteSlice_def i l drop_str take_str getUint24_put)
  show "ObjectId_Pid i = Inr (word_of_int pid)"
    using getUint16_put [of pid] by (simp add: ObjectId_Pid_def byteSlice_def i l drop_str take_str)
  show "ObjectId_Time i = Inr (unixEpoch + uint (word_of_int (Unix now) :: uint32) * 10 ^ 9)"
    by (simp add: ObjectId_Time_def byteSlice_def i l drop_str take_str)
qed

text \<open>
  C34. The ids that a process makes are all different, as long as it makes at most 2 to the 24th of them, at whatever
  times (the clock may stand still or go back), and each is taken apart into what it was made of.
\<close>

theorem NewObjectId_unique:
  assumes "length nows \<le> 2 ^ 24"
  shows "distinct (makeIds machineId pid nows c)"
proof -
  have cnt: "ObjectId_Counter (makeIds machineId pid nows c ! k) = Inr ((c + 1 + of_nat k) AND 0xFFFFFF)"
    if "k < length nows" for k nows c
    using that
  proof (induction nows arbitrary: k c)
    case (Cons now nows)
    obtain i where i: "NewObjectId machineId pid now c = (i, c + 1)" using NewObjectId_parts(1) by (metis prod.exhaust)
    show ?case
    proof (cases k)
      case 0
      then show ?thesis using i NewObjectId_parts(3) [OF i] by simp
    next
      case (Suc l)
      then show ?thesis using i Cons.IH [of l "c + 1"] Cons.prems by (simp add: add_ac)
    qed
  qed simp
  have len: "length (makeIds machineId pid nows c) = length nows" for nows c
    by (induction nows arbitrary: c) (simp_all split: prod.split)
  have "k = l" if "k < length nows" "l < length nows" "makeIds machineId pid nows c ! k = makeIds machineId pid nows c ! l" for k l
  proof -
    have m: "(0xFFFFFF :: uint32) = mask 24" by (simp add: mask_eq_exp_minus_1)
    have "(c + 1 + of_nat k) AND mask 24 = (c + 1 + of_nat l) AND mask 24"
      using cnt [OF that(1), of c] cnt [OF that(2), of c] that(3) by (simp add: m)
    then have "take_bit 24 (c + 1 + of_nat k) = take_bit 24 (c + 1 + of_nat l)" by (simp add: take_bit_eq_mask)
    then have "(uint c + 1 + int k) mod 2 ^ 24 = (uint c + 1 + int l) mod 2 ^ 24"
      using counter_mod [of c k] counter_mod [of c l] by simp
    then have "int k mod 2 ^ 24 = int l mod 2 ^ 24" by (simp add: mod_eq_dvd_iff)
    then show ?thesis using that(1,2) assms by simp
  qed
  then show ?thesis by (simp add: distinct_conv_nth len) blast
qed

theorem NewObjectId_unique_witness:
  "distinct (makeIds (1, 2, 3) 77 (replicate 1000 unixEpoch) 0xFFFFFFFE)"
  by (rule NewObjectId_unique) simp

end
