(* ===== verification/Structs.thy ===== *)
theory Structs
  imports ObjectIds
begin

text \<open>
  The fields of a struct as the codec sees them (\<open>getStructInfo\<close> of \<open>internal/llmgo/bson/bson.go\<close>):
  keys and flags from tags, fields of inlined structs with the path to them, and the map that takes the rest.
\<close>

subsection \<open>The types\<close>

text \<open>
  A field has its name, the package path of an unexported name, its tag, what \<open>Tag.Get("bson")\<close> gives for the tag,
  and of its type what is looked at. The flag of a map says whether its keys are strings.
\<close>

datatype 'field fieldType = MapField bool | StructField "'field list" | OtherField

datatype structField =
  Field (fName: string) (fPkgPath: string) (fTag: string) (fBson: string) (fType: "structField fieldType")

text \<open>\<open>Inline\<close> is the path to a field of an inlined struct, and empty (nil) for a field of the struct itself.\<close>

record fieldInfo =
  Key :: string
  Num :: nat
  OmitEmpty :: bool
  MinSize :: bool
  Inline :: "nat list"

record structInfo =
  FieldsMap :: "string \<rightharpoonup> fieldInfo"
  FieldsList :: "fieldInfo list"
  InlineMap :: int

subsection \<open>Tags\<close>

fun split_comma :: "string \<Rightarrow> string list" where
  "split_comma [] = [[]]"
| "split_comma (c # s) =
     (if c = CHR 0x2C then [] # split_comma s
      else case split_comma s of [] \<Rightarrow> [[c]] | w # ws \<Rightarrow> (c # w) # ws)"

definition fieldTag :: "structField \<Rightarrow> string" where
  "fieldTag f = (if fBson f = [] \<and> CHR 0x3A \<notin> set (fTag f) then fTag f else fBson f)"

text \<open>The flags \<open>omitempty\<close>, \<open>minsize\<close> and \<open>inline\<close>.\<close>

fun tagFlags :: "string list \<Rightarrow> bool \<times> bool \<times> bool \<Rightarrow> (bool \<times> bool \<times> bool) res" where
  "tagFlags [] flags = Inr flags"
| "tagFlags (flag # flagWords) (oe, ms, inl) =
     (if flag = ''omitempty'' then tagFlags flagWords (True, ms, inl)
      else if flag = ''minsize'' then tagFlags flagWords (oe, True, inl)
      else if flag = ''inline'' then tagFlags flagWords (oe, ms, True)
      else Inl (Panic ''Unsupported flag %q in tag %q of type %s''))"

text \<open>What a tag says: the key, if any, and the flags. The old form of tags is refused.\<close>

definition readTag :: "string \<Rightarrow> (string \<times> bool \<times> bool \<times> bool) res" where
  "readTag tag =
     (if CHR 0x2F \<in> set tag
      then Inl (Panic (if set (tl (dropWhile (\<lambda>c. c \<noteq> CHR 0x2F) tag)) \<subseteq> {CHR ''c'', CHR ''s''}
                       then ''Replace tag %q in field %s of type %s by %q''
                       else ''Unsupported flag %q in tag %q of type %s''))
      else
        let flagWords = split_comma tag
        in rbind (tagFlags (tl flagWords) (False, False, False)) (\<lambda>flags. Inr (hd flagWords, flags)))"

text \<open>\<open>strings.ToLower\<close> of the letters that names are made of.\<close>

definition toLower :: "string \<Rightarrow> string" where
  "toLower = map (\<lambda>c. let n = of_char c :: nat in if 65 \<le> n \<and> n \<le> 90 then char_of (n + 32) else c)"

definition fieldKey :: "string \<Rightarrow> structField \<Rightarrow> string" where
  "fieldKey tag f = (if tag \<noteq> [] then tag else toLower (fName f))"

subsection \<open>The fields\<close>

fun addInlined :: "nat \<Rightarrow> fieldInfo list \<Rightarrow> (string \<rightharpoonup> fieldInfo) \<times> fieldInfo list \<Rightarrow> ((string \<rightharpoonup> fieldInfo) \<times> fieldInfo list) res" where
  "addInlined i [] acc = Inr acc"
| "addInlined i (finfo # fs) (fieldsMap, fieldsList) =
     (if fieldsMap (Key finfo) \<noteq> None then Inl (Error (Errorf ''Duplicated key %s in struct %s'' []))
      else
        let finfo = finfo\<lparr>Inline := (if Inline finfo = [] then [i, Num finfo] else i # Inline finfo)\<rparr>
        in addInlined i fs (fieldsMap(Key finfo \<mapsto> finfo), fieldsList @ [finfo]))"

lemma size_inlined [termination_simp]: "fType f = StructField gs \<Longrightarrow> size_list size gs < Suc (size f + n)"
  by (cases f) simp

fun fieldsLoop :: "nat \<Rightarrow> structField list \<Rightarrow> (string \<rightharpoonup> fieldInfo) \<times> fieldInfo list \<times> int \<Rightarrow>
    ((string \<rightharpoonup> fieldInfo) \<times> fieldInfo list \<times> int) res" where
  "fieldsLoop i [] acc = Inr acc"
| "fieldsLoop i (f # fs) (fieldsMap, fieldsList, inlineMap) =
     (if fPkgPath f \<noteq> [] \<or> fieldTag f = ''-'' then fieldsLoop (i + 1) fs (fieldsMap, fieldsList, inlineMap)
      else
        rbind (readTag (fieldTag f)) (\<lambda>(tag, oe, ms, inl).
          if inl then
            (case fType f of
               MapField stringKeys \<Rightarrow>
                 if inlineMap \<ge> 0 then Inl (Error (Errorf ''Multiple ,inline maps in struct %s'' []))
                 else if \<not> stringKeys then Inl (Error (Errorf ''Option ,inline needs a map with string keys in struct %s'' []))
                 else fieldsLoop (i + 1) fs (fieldsMap, fieldsList, int i)
             | StructField gs \<Rightarrow>
                 rbind (fieldsLoop 0 gs (Map.empty, [], -1)) (\<lambda>(_, infos, _).
                 rbind (addInlined i infos (fieldsMap, fieldsList)) (\<lambda>(fieldsMap, fieldsList).
                   fieldsLoop (i + 1) fs (fieldsMap, fieldsList, inlineMap)))
             | OtherField \<Rightarrow> Inl (Panic ''Option ,inline needs a struct value or map field''))
          else
            let key = fieldKey tag f;
                finfo = \<lparr>Key = key, Num = i, OmitEmpty = oe, MinSize = ms, Inline = []\<rparr>
            in if fieldsMap key \<noteq> None then Inl (Error (Errorf ''Duplicated key %s in struct %s'' []))
               else fieldsLoop (i + 1) fs (fieldsMap(key \<mapsto> finfo), fieldsList @ [finfo], inlineMap)))"

definition getStructInfo :: "structField list \<Rightarrow> structInfo res" where
  "getStructInfo st =
     rbind (fieldsLoop 0 st (Map.empty, [], -1)) (\<lambda>(fieldsMap, fieldsList, inlineMap).
       Inr \<lparr>FieldsMap = fieldsMap, FieldsList = fieldsList, InlineMap = inlineMap\<rparr>)"

subsection \<open>Paths\<close>

text \<open>The field at a path of indices, as \<open>FieldByIndex\<close> finds it.\<close>

fun fieldAt :: "structField list \<Rightarrow> nat list \<Rightarrow> structField option" where
  "fieldAt fs [] = None"
| "fieldAt fs [i] = (if i < length fs then Some (fs ! i) else None)"
| "fieldAt fs (i # j # is) =
     (if i < length fs then (case fType (fs ! i) of StructField gs \<Rightarrow> fieldAt gs (j # is) | _ \<Rightarrow> None) else None)"

definition path :: "fieldInfo \<Rightarrow> nat list" where
  "path info = (if Inline info = [] then [Num info] else Inline info)"

text \<open>A field with a key of its own, and what its tag says.\<close>

definition plain :: "structField \<Rightarrow> string \<times> bool \<times> bool \<Rightarrow> bool" where
  "plain f k \<longleftrightarrow> fPkgPath f = [] \<and> fieldTag f \<noteq> ''-'' \<and>
     (\<exists>tag. readTag (fieldTag f) = Inr (tag, fst (snd k), snd (snd k), False) \<and> fst k = fieldKey tag f)"

definition leads :: "structField list \<Rightarrow> fieldInfo \<Rightarrow> bool" where
  "leads fs info \<longleftrightarrow> (\<exists>f. fieldAt fs (path info) = Some f \<and> plain f (Key info, OmitEmpty info, MinSize info))"

definition infos_ok :: "structField list \<Rightarrow> (string \<rightharpoonup> fieldInfo) \<times> fieldInfo list \<times> int \<Rightarrow> bool" where
  "infos_ok fs = (\<lambda>(m, l, im).
     distinct (map Key l) \<and> m = map_of (map (\<lambda>info. (Key info, info)) l) \<and> (\<forall>info\<in>set l. leads fs info) \<and>
     (\<forall>i k. i < length fs \<longrightarrow> plain (fs ! i) k \<longrightarrow> (\<exists>info\<in>set l. path info = [i] \<and> Key info = fst k)) \<and>
     (im \<noteq> -1 \<longrightarrow> 0 \<le> im \<and> im < int (length fs) \<and> fType (fs ! nat im) = MapField True))"


lemma fieldAt_append [simp]: "fieldAt fs is = Some f \<Longrightarrow> fieldAt (fs @ gs) is = Some f"
  by (induction fs "is" rule: fieldAt.induct) (auto simp: nth_append split: if_splits)

lemma leads_append: "leads fs info \<Longrightarrow> leads (fs @ gs) info"
  using fieldAt_append unfolding leads_def by blast

lemma infos_okI:
  assumes "distinct (map Key l)" "m = map_of (map (\<lambda>info. (Key info, info)) l)" "\<And>info. info \<in> set l \<Longrightarrow> leads fs info"
    and "\<And>i k. i < length fs \<Longrightarrow> plain (fs ! i) k \<Longrightarrow> \<exists>info\<in>set l. path info = [i] \<and> Key info = fst k"
    and "im \<noteq> -1 \<Longrightarrow> 0 \<le> im \<and> im < int (length fs) \<and> fType (fs ! nat im) = MapField True"
  shows "infos_ok fs (m, l, im)"
  using assms unfolding infos_ok_def prod.case by blast

lemma infos_okD:
  assumes "infos_ok fs (m, l, im)"
  shows "distinct (map Key l)" "m = map_of (map (\<lambda>info. (Key info, info)) l)" "info \<in> set l \<Longrightarrow> leads fs info"
    "i < length fs \<Longrightarrow> plain (fs ! i) k \<Longrightarrow> \<exists>info\<in>set l. path info = [i] \<and> Key info = fst k"
    "im \<noteq> -1 \<Longrightarrow> 0 \<le> im \<and> im < int (length fs) \<and> fType (fs ! nat im) = MapField True"
  using assms unfolding infos_ok_def prod.case by blast+

text \<open>One more field, with no key of its own or with one.\<close>

lemma infos_ok_skip:
  assumes "infos_ok fs (m, l, im)" "\<And>k. \<not> plain f k"
  shows "infos_ok (fs @ [f]) (m, l, im)"
proof (rule infos_okI)
  note h = infos_okD [OF assms(1)]
  show "distinct (map Key l)" "m = map_of (map (\<lambda>info. (Key info, info)) l)" by (fact h)+
  show "leads (fs @ [f]) info" if "info \<in> set l" for info using h(3) that leads_append by blast
  show "\<exists>info\<in>set l. path info = [i] \<and> Key info = fst k" if "i < length (fs @ [f])" "plain ((fs @ [f]) ! i) k" for i k
    using that h(4) [of i k] assms(2) by (cases "i < length fs") (auto simp: nth_append less_Suc_eq)
  show "0 \<le> im \<and> im < int (length (fs @ [f])) \<and> fType ((fs @ [f]) ! nat im) = MapField True" if "im \<noteq> -1"
    using h(5) [OF that] by (auto simp: nth_append)
qed

lemma map_of_keys_None: "map_of (map (\<lambda>info. (Key info, info)) l) k = None \<longleftrightarrow> k \<notin> Key ` set l"
  by (induction l) auto

lemma map_of_snoc:
  "k \<notin> Key ` set l \<Longrightarrow> k = Key info \<Longrightarrow>
   map_of (map (\<lambda>info. (Key info, info)) (l @ [info])) = (map_of (map (\<lambda>info. (Key info, info)) l))(k \<mapsto> info)"
  by (induction l) (auto simp: fun_upd_twist)

lemma infos_ok_plain:
  assumes "infos_ok fs (m, l, im)" "plain f (Key info, OmitEmpty info, MinSize info)" "m (Key info) = None" "Num info = length fs" "Inline info = []"
  shows "infos_ok (fs @ [f]) (m(Key info \<mapsto> info), l @ [info], im)"
proof (rule infos_okI)
  note h = infos_okD [OF assms(1)]
  have n: "Key info \<notin> Key ` set l" using assms(3) h(2) map_of_keys_None by metis
  have p: "path info = [length fs]" using assms(4,5) by (simp add: path_def)
  have u: "fst k = Key info" if "plain f k" for k
    using that assms(2) unfolding plain_def by auto
  show "distinct (map Key (l @ [info]))" using h(1) n by simp
  show "m(Key info \<mapsto> info) = map_of (map (\<lambda>info. (Key info, info)) (l @ [info]))" using map_of_snoc [OF n refl] h(2) by simp
  show "leads (fs @ [f]) i" if "i \<in> set (l @ [info])" for i
    using that h(3) leads_append assms(2) p by (auto simp: leads_def [of _ info])
  show "\<exists>i\<in>set (l @ [info]). path i = [j] \<and> Key i = fst k" if "j < length (fs @ [f])" "plain ((fs @ [f]) ! j) k" for j k
    using that h(4) [of j k] p u by (cases "j < length fs") (auto simp: nth_append less_Suc_eq)
  show "0 \<le> im \<and> im < int (length (fs @ [f])) \<and> fType ((fs @ [f]) ! nat im) = MapField True" if "im \<noteq> -1"
    using h(5) [OF that] by (auto simp: nth_append)
qed

lemma addInlined_ok:
  assumes "addInlined (length fs) infos (m, l) = Inr (m', l')" "infos_ok (fs @ [f]) (m, l, im)" "fType f = StructField gs"
    "\<forall>info\<in>set infos. leads gs info"
  shows "infos_ok (fs @ [f]) (m', l', im)"
  using assms
proof (induction infos arbitrary: m l)
  case (Cons finfo infos)
  let ?g = "finfo\<lparr>Inline := (if Inline finfo = [] then [length fs, Num finfo] else length fs # Inline finfo)\<rparr>"
  note h = infos_okD [OF Cons.prems(2)]
  have n: "m (Key finfo) = None" and r: "addInlined (length fs) infos (m(Key finfo \<mapsto> ?g), l @ [?g]) = Inr (m', l')"
    using Cons.prems(1) by (auto simp: Let_def split: if_splits)
  have k: "Key finfo \<notin> Key ` set l" using n h(2) map_of_keys_None by metis
  have p: "path ?g = length fs # path finfo" by (simp add: path_def)
  have ne: "path finfo \<noteq> []" by (simp add: path_def)
  have "leads (fs @ [f]) ?g"
    using Cons.prems(3,4) p ne by (cases "path finfo") (auto simp: leads_def nth_append)
  then have ld: "leads (fs @ [f]) info" if "info \<in> set (l @ [?g])" for info using that h(3) by auto
  have "infos_ok (fs @ [f]) (m(Key finfo \<mapsto> ?g), l @ [?g], im)"
  proof (rule infos_okI [OF _ _ ld])
    show "distinct (map Key (l @ [?g]))" using h(1) k by simp
    show "m(Key finfo \<mapsto> ?g) = map_of (map (\<lambda>info. (Key info, info)) (l @ [?g]))" using map_of_snoc [OF k, of ?g] h(2) by simp
    show "\<exists>info\<in>set (l @ [?g]). path info = [j] \<and> Key info = fst k" if "j < length (fs @ [f])" "plain ((fs @ [f]) ! j) k" for j k
      using h(4) [OF that] by auto
  qed (use h(5) in blast)+
  from Cons.IH [OF r this Cons.prems(3)] Cons.prems(4) show ?case by simp
qed simp

lemma fieldsLoop_ok:
  "fieldsLoop i fs acc = Inr acc' \<Longrightarrow> i = length pre \<Longrightarrow> infos_ok pre acc \<Longrightarrow> infos_ok (pre @ fs) acc'"
proof (induction i fs acc arbitrary: pre acc' rule: fieldsLoop.induct)
  case (2 i f fs m l im)
  have step: "infos_ok (pre @ f # fs) acc'" if "infos_ok ((pre @ [f]) @ fs) acc'" using that by simp
  show ?case
  proof (cases "fPkgPath f \<noteq> [] \<or> fieldTag f = ''-''")
    case True
    then have "\<And>k. \<not> plain f k" by (auto simp: plain_def)
    from "2.IH"(1) [OF True _ _ infos_ok_skip [OF "2.prems"(3) this]] True "2.prems" step show ?thesis by simp
  next
    case False
    then obtain tag oe ms inl where t: "readTag (fieldTag f) = Inr (tag, oe, ms, inl)"
      using "2.prems"(1) by (auto simp: rbind_eq_Inr)
    show ?thesis
    proof (cases inl)
      case True
      then have np: "\<And>k. \<not> plain f k" using t by (auto simp: plain_def)
      show ?thesis
      proof (cases "fType f")
        case (MapField b)
        then have e: "b" "im < 0" "fieldsLoop (i + 1) fs (m, l, int i) = Inr acc'"
          using "2.prems"(1) False t True by (auto split: if_splits)
        have "infos_ok (pre @ [f]) (m, l, int i)"
          using infos_okD [OF infos_ok_skip [OF "2.prems"(3) np]] "2.prems"(2) MapField e(1) by (intro infos_okI) auto
        then show ?thesis
          using "2.IH"(2) [OF False t refl refl refl True MapField _ _ e(3), of "pre @ [f]"] e "2.prems"(2) step by simp
      next
        case (StructField gs)
        then obtain m1 infos im1 m2 l2 where e: "fieldsLoop 0 gs (Map.empty, [], -1) = Inr (m1, infos, im1)"
          "addInlined i infos (m, l) = Inr (m2, l2)" "fieldsLoop (i + 1) fs (m2, l2, im) = Inr acc'"
          using "2.prems"(1) False t True by (auto simp: rbind_eq_Inr)
        have z: "infos_ok [] (Map.empty, [], -1)" by (rule infos_okI) auto
        have "infos_ok gs (m1, infos, im1)"
          using "2.IH"(3) [OF False t refl refl refl True StructField e(1), of "[]"] z by simp
        then have g: "\<forall>info\<in>set infos. leads gs info" using infos_okD(3) by blast
        have "infos_ok (pre @ [f]) (m2, l2, im)"
          using addInlined_ok [OF _ infos_ok_skip [OF "2.prems"(3) np] StructField g] e(2) "2.prems"(2) by simp
        then show ?thesis
          using "2.IH"(4) [OF False t refl refl refl True StructField e(1) refl refl e(2) refl e(3), of "pre @ [f]"] "2.prems"(2) step by simp
      next
        case OtherField
        then show ?thesis using "2.prems"(1) False t True by simp
      qed
    next
      case inl: False
      define info where "info = \<lparr>Key = fieldKey tag f, Num = i, OmitEmpty = oe, MinSize = ms, Inline = []\<rparr>"
      have e: "m (fieldKey tag f) = None" "fieldsLoop (i + 1) fs (m(fieldKey tag f \<mapsto> info), l @ [info], im) = Inr acc'"
        using "2.prems"(1) False t inl by (auto simp: info_def Let_def split: if_splits)
      have "plain f (Key info, OmitEmpty info, MinSize info)" using False t inl by (simp add: plain_def info_def)
      then have "infos_ok (pre @ [f]) (m(fieldKey tag f \<mapsto> info), l @ [info], im)"
        using infos_ok_plain [OF "2.prems"(3), of f info] e(1) "2.prems"(2) by (simp add: info_def)
      then show ?thesis
        using "2.IH"(5) [OF False t refl refl refl inl refl info_def _ e(2), of "pre @ [f]"] e(1) "2.prems"(2) step by simp
    qed
  qed
qed simp


definition ex_struct :: "structField list" where
  "ex_struct =
     [Field ''Id'' [] ''_id,omitempty'' [] OtherField,
      Field ''mu'' ''pkg'' [] [] OtherField,
      Field ''Base'' [] ''bson'' '',inline'' (StructField [Field ''Name'' [] ''name'' [] OtherField]),
      Field ''Rest'' [] ''bson'' '',inline'' (MapField True)]"


end
