(* ===== verification/Scanner.thy ===== *)
theory Scanner
  imports Wire "HOL-Library.Char_ord"
begin

text \<open>
  The state machine that recognizes the JSON of the tools (\<open>internal/legacy/json\<close>): \<open>scanner.go\<close>, with the
  states of the extended values from the other files of the package, and what uses it to check, split, compact and
  indent a text (\<open>scanner.go\<close>, \<open>indent.go\<close>).

  A state of the machine is a value of \<open>scanState\<close>, named like the function that the code
  stores in \<open>step\<close>; \<open>runState\<close> is the call of that function. The stack \<open>parseState\<close> has its top in front.
\<close>

subsection \<open>The machine\<close>

text \<open>What a step returns, in the order of the codes.\<close>

datatype scanCode =
    scanContinue | scanBeginLiteral | scanBeginObject | scanObjectKey | scanObjectValue | scanEndObject
  | scanBeginArray | scanArrayValue | scanEndArray | scanBeginCtor | scanCtorArg | scanEndCtor
  | scanRegexpPattern | scanRegexpOptions | scanSkipSpace | scanEnd | scanError

datatype parseState = parseObjectKey | parseObjectValue | parseArrayValue | parseCtorArg

text \<open>
  The states, grouped by what they are in the middle of: a string or regular expression, a number, one of the words
  \<open>true\<close>, \<open>false\<close>, \<open>null\<close> and \<open>new\<close>, and one of the words of the extended syntax. \<open>Generate name x accept\<close> is
  what \<open>generateState\<close> makes of a word that goes on with \<open>x\<close>.
\<close>

datatype textState =
    InString | InStringEsc | InStringEscU | InStringEscU1 | InStringEscU12 | InStringEscU123
   | InSingleQuotedString | InSingleQuotedStringEsc | InSingleQuotedStringEscU | InSingleQuotedStringEscU1
   | InSingleQuotedStringEscU12 | InSingleQuotedStringEscU123 | InUnquotedString | InRegexpPattern
   | InRegexpPatternEsc | InRegexpPatternEscU | InRegexpPatternEscU1 | InRegexpPatternEscU12
   | InRegexpPatternEscU123 | InRegexpOptions

datatype numState =
    Sign | Int1 | Int0 | Dot | Dot0 | Exp | ExpSign | Exp0 | Hexa

datatype wordState =
    LitT | LitTr | LitTru | LitF | LitFa | LitFal | LitFals | LitN | LitNu | LitNul | LitNe | LitNew

datatype extState =
    NumberUpperN | LitB | LitBi | LitBo | LitD | LitDa | LitDat | LitDB | LitDBR | LitDBP | LitDb | LitI
   | LitIS | LitISO | LitIn | LitM | UpperMa | UpperMi | LitU | UpperN | UpperNa | UpperNu | UpperNumber
   | LitOb | LitR | UpperT

datatype scanState =
    BeginValueOrEmpty | BeginValue | BeginStringOrEmpty | BeginString | EndValue | EndTop
  | Txt textState | Num numState | Wrd wordState | Ext extState | BeginObjectValue
  | Constructor | BeginCtorOrEmpty | OptionalConstructor | InParen
  | Generate string string scanState
  | Redo | Failed

text \<open>
  A syntax error: the parts that its message is made of (the character that \<open>quoteChar\<close> formats, if there is one, and
  the context), and the offset.
\<close>

record syntaxError =
  badChar :: "char option"
  context_ :: string
  Offset :: int

record scanner =
  step :: scanState
  endTop :: bool
  parse :: "parseState list"
  serr :: "syntaxError option"
  redo :: bool
  redoCode :: scanCode
  redoState :: scanState
  sbytes :: int

type_synonym stepResult = "(scanCode \<times> scanner) res"

definition scan_reset :: "scanner \<Rightarrow> scanner" where
  "scan_reset s = s\<lparr>step := BeginValue, parse := [], serr := None, redo := False, endTop := False\<rparr>"

definition zeroScanner :: scanner where
  "zeroScanner = \<lparr>step = BeginValue, endTop = False, parse = [], serr = None, redo = False,
     redoCode = scanContinue, redoState = BeginValue, sbytes = 0\<rparr>"

definition pushParseState :: "parseState \<Rightarrow> scanner \<Rightarrow> scanner" where
  "pushParseState p s = s\<lparr>parse := p # parse s\<rparr>"

definition popParseState :: "scanner \<Rightarrow> scanner res" where
  "popParseState s =
     (case parse s of
        [] \<Rightarrow> Inl (Panic ''slice bounds out of range'')
      | _ # ps \<Rightarrow>
          let s = s\<lparr>parse := ps, redo := False\<rparr>
          in Inr (if ps = [] then s\<lparr>step := EndTop, endTop := True\<rparr> else s\<lparr>step := EndValue\<rparr>))"

definition isSpace :: "char \<Rightarrow> bool" where
  "isSpace c \<longleftrightarrow> c = CHR '' '' \<or> c = CHR 0x09 \<or> c = CHR 0x0D \<or> c = CHR 0x0A"

definition isDigit :: "char \<Rightarrow> bool" where
  "isDigit c \<longleftrightarrow> CHR ''0'' \<le> c \<and> c \<le> CHR ''9''"

definition isDigit1 :: "char \<Rightarrow> bool" where
  "isDigit1 c \<longleftrightarrow> CHR ''1'' \<le> c \<and> c \<le> CHR ''9''"

definition isHex :: "char \<Rightarrow> bool" where
  "isHex c \<longleftrightarrow> CHR ''0'' \<le> c \<and> c \<le> CHR ''9'' \<or> CHR ''a'' \<le> c \<and> c \<le> CHR ''f'' \<or> CHR ''A'' \<le> c \<and> c \<le> CHR ''F''"

definition isControl :: "char \<Rightarrow> bool" where
  "isControl c \<longleftrightarrow> of_char c < (0x20 :: nat)"

text \<open>A backquote in the text of an error stands for the quote of the source.\<close>

definition withQuotes :: "string \<Rightarrow> string" where
  "withQuotes s = map (\<lambda>c. if c = CHR 0x60 then CHR 0x27 else c) s"

text \<open>\<open>error\<close>, and a step that only goes to another state.\<close>

definition scan_fail :: "char \<Rightarrow> string \<Rightarrow> scanner \<Rightarrow> stepResult" where
  "scan_fail c ctx s =
     Inr (scanError, s\<lparr>step := Failed, serr := Some \<lparr>badChar = Some c, context_ = ctx, Offset = sbytes s\<rparr>\<rparr>)"

abbreviation goto :: "scanState \<Rightarrow> scanCode \<Rightarrow> scanner \<Rightarrow> stepResult" where
  "goto q v s \<equiv> Inr (v, s\<lparr>step := q\<rparr>)"

definition generateState :: "string \<Rightarrow> string \<Rightarrow> scanState \<Rightarrow> scanState" where
  "generateState name x accept = (if x = [] then accept else Generate name x accept)"

definition isBeginUnquotedString :: "char \<Rightarrow> bool" where
  "isBeginUnquotedString c \<longleftrightarrow> c = CHR ''$'' \<or> c = CHR ''_'' \<or> c \<ge> CHR ''a'' \<and> c \<le> CHR ''z'' \<or> c \<ge> CHR ''A'' \<and> c \<le> CHR ''Z''"

definition isInUnquotedString :: "char \<Rightarrow> bool" where
  "isInUnquotedString c \<longleftrightarrow> isBeginUnquotedString c \<or> isDigit c"

subsection \<open>After a value\<close>

definition stateEndTop :: "char \<Rightarrow> scanner \<Rightarrow> stepResult" where
  "stateEndTop c s =
     (if \<not> isSpace c then rbind (scan_fail c ''after top-level value'' s) (\<lambda>(_, s). Inr (scanEnd, s))
      else Inr (scanEnd, s))"

definition stateEndValue :: "char \<Rightarrow> scanner \<Rightarrow> stepResult" where
  "stateEndValue c s =
     (case parse s of
        [] \<Rightarrow> stateEndTop c (s\<lparr>step := EndTop, endTop := True\<rparr>)
      | p # ps \<Rightarrow>
          if isSpace c then goto EndValue scanSkipSpace s
          else (case p of
              parseObjectKey \<Rightarrow>
                if c = CHR '':'' then goto BeginValue scanObjectKey (s\<lparr>parse := parseObjectValue # ps\<rparr>)
                else scan_fail c ''after object key'' s
            | parseObjectValue \<Rightarrow>
                if c = CHR '','' then goto BeginString scanObjectValue (s\<lparr>parse := parseObjectKey # ps\<rparr>)
                else if c = CHR ''}'' then rbind (popParseState s) (\<lambda>s. Inr (scanEndObject, s))
                else scan_fail c ''after object key:value pair'' s
            | parseArrayValue \<Rightarrow>
                if c = CHR '','' then goto BeginValue scanArrayValue s
                else if c = CHR '']'' then rbind (popParseState s) (\<lambda>s. Inr (scanEndArray, s))
                else scan_fail c ''after array element'' s
            | parseCtorArg \<Rightarrow>
                if c = CHR '','' then goto BeginValue scanCtorArg s
                else if c = CHR '')'' then rbind (popParseState s) (\<lambda>s. Inr (scanEndCtor, s))
                else scan_fail c ''after constructor argument'' s))"

subsection \<open>The beginning of a value\<close>

definition stateBeginExtendedValue :: "char \<Rightarrow> scanner \<Rightarrow> stepResult" where
  "stateBeginExtendedValue c s =
     (if c = CHR ''u'' then goto (Ext LitU) scanBeginLiteral s
      else if c = CHR ''B'' then goto (Ext LitB) scanBeginLiteral s
      else if c = CHR ''D'' then goto (Ext LitD) scanBeginLiteral s
      else if c = CHR ''I'' then goto (Ext LitI) scanBeginLiteral s
      else if c = CHR ''M'' then goto (Ext LitM) scanBeginLiteral s
      else if c = CHR ''N'' then goto (Ext UpperN) scanBeginLiteral s
      else if c = CHR ''O'' then goto (Ext LitOb) scanBeginLiteral s
      else if c = CHR ''R'' then goto (Ext LitR) scanBeginLiteral s
      else if c = CHR ''T'' then goto (Ext UpperT) scanBeginLiteral s
      else if c = CHR ''/'' then goto (Txt InRegexpPattern) scanBeginLiteral s
      else scan_fail c ''looking for beginning of value'' s)"

definition stateBeginValue :: "char \<Rightarrow> scanner \<Rightarrow> stepResult" where
  "stateBeginValue c s =
     (if isSpace c then Inr (scanSkipSpace, s)
      else if c = CHR ''{'' then goto BeginStringOrEmpty scanBeginObject (pushParseState parseObjectKey s)
      else if c = CHR ''['' then goto BeginValueOrEmpty scanBeginArray (pushParseState parseArrayValue s)
      else if c = CHR 0x22 then goto (Txt InString) scanBeginLiteral s
      else if c = CHR 0x27 then goto (Txt InSingleQuotedString) scanBeginLiteral s
      else if c = CHR ''+'' \<or> c = CHR ''-'' then goto (Num Sign) scanBeginLiteral s
      else if c = CHR ''0'' then goto (Num Int0) scanBeginLiteral s
      else if c = CHR ''.'' then goto (Num Dot) scanBeginLiteral s
      else if c = CHR ''t'' then goto (Wrd LitT) scanBeginLiteral s
      else if c = CHR ''f'' then goto (Wrd LitF) scanBeginLiteral s
      else if c = CHR ''n'' then goto (Wrd LitN) scanBeginLiteral s
      else if isDigit1 c then goto (Num Int1) scanBeginLiteral s
      else stateBeginExtendedValue c s)"

definition stateBeginValueOrEmpty :: "char \<Rightarrow> scanner \<Rightarrow> stepResult" where
  "stateBeginValueOrEmpty c s =
     (if isSpace c then Inr (scanSkipSpace, s)
      else if c = CHR '']'' then stateEndValue c s
      else stateBeginValue c s)"

definition stateBeginString :: "char \<Rightarrow> scanner \<Rightarrow> stepResult" where
  "stateBeginString c s =
     (if isSpace c then Inr (scanSkipSpace, s)
      else if c = CHR 0x22 then goto (Txt InString) scanBeginLiteral s
      else if c = CHR 0x27 then goto (Txt InSingleQuotedString) scanBeginLiteral s
      else if isBeginUnquotedString c then goto (Txt InUnquotedString) scanBeginLiteral s
      else scan_fail c ''looking for beginning of object key string'' s)"

definition stateBeginStringOrEmpty :: "char \<Rightarrow> scanner \<Rightarrow> stepResult" where
  "stateBeginStringOrEmpty c s =
     (if isSpace c then Inr (scanSkipSpace, s)
      else if c = CHR ''}'' then
        (case parse s of
           [] \<Rightarrow> Inl index_panic
         | _ # ps \<Rightarrow> stateEndValue c (s\<lparr>parse := parseObjectValue # ps\<rparr>))
      else stateBeginString c s)"

subsection \<open>Strings\<close>

definition stateInString :: "char \<Rightarrow> scanner \<Rightarrow> stepResult" where
  "stateInString c s =
     (if c = CHR 0x22 then goto EndValue scanContinue s
      else if c = CHR 0x5C then goto (Txt InStringEsc) scanContinue s
      else if isControl c then scan_fail c ''in string literal'' s
      else Inr (scanContinue, s))"

definition stateInStringEsc :: "char \<Rightarrow> scanner \<Rightarrow> stepResult" where
  "stateInStringEsc c s =
     (if c = CHR ''b'' \<or> c = CHR ''f'' \<or> c = CHR ''n'' \<or> c = CHR ''r'' \<or> c = CHR ''t'' \<or> c = CHR 0x5C \<or> c = CHR ''/'' \<or> c = CHR 0x22
      then goto (Txt InString) scanContinue s
      else if c = CHR ''u'' then goto (Txt InStringEscU) scanContinue s
      else scan_fail c ''in string escape code'' s)"

definition stateInStringEscU :: "char \<Rightarrow> scanner \<Rightarrow> stepResult" where
  "stateInStringEscU c s =
     (if isHex c then goto (Txt InStringEscU1) scanContinue s
      else scan_fail c (''in '' @ CHR 0x5C # ''u hexadecimal character escape'') s)"

definition stateInStringEscU1 :: "char \<Rightarrow> scanner \<Rightarrow> stepResult" where
  "stateInStringEscU1 c s =
     (if isHex c then goto (Txt InStringEscU12) scanContinue s
      else scan_fail c (''in '' @ CHR 0x5C # ''u hexadecimal character escape'') s)"

definition stateInStringEscU12 :: "char \<Rightarrow> scanner \<Rightarrow> stepResult" where
  "stateInStringEscU12 c s =
     (if isHex c then goto (Txt InStringEscU123) scanContinue s
      else scan_fail c (''in '' @ CHR 0x5C # ''u hexadecimal character escape'') s)"

definition stateInStringEscU123 :: "char \<Rightarrow> scanner \<Rightarrow> stepResult" where
  "stateInStringEscU123 c s =
     (if isHex c then goto (Txt InString) scanContinue s
      else scan_fail c (''in '' @ CHR 0x5C # ''u hexadecimal character escape'') s)"

definition stateInSingleQuotedString :: "char \<Rightarrow> scanner \<Rightarrow> stepResult" where
  "stateInSingleQuotedString c s =
     (if c = CHR 0x27 then goto EndValue scanContinue s
      else if c = CHR 0x5C then goto (Txt InSingleQuotedStringEsc) scanContinue s
      else if isControl c then scan_fail c ''in string literal'' s
      else Inr (scanContinue, s))"

definition stateInSingleQuotedStringEsc :: "char \<Rightarrow> scanner \<Rightarrow> stepResult" where
  "stateInSingleQuotedStringEsc c s =
     (if c = CHR ''b'' \<or> c = CHR ''f'' \<or> c = CHR ''n'' \<or> c = CHR ''r'' \<or> c = CHR ''t'' \<or> c = CHR 0x5C \<or> c = CHR ''/'' \<or> c = CHR 0x27
      then goto (Txt InSingleQuotedString) scanContinue s
      else if c = CHR ''u'' then goto (Txt InSingleQuotedStringEscU) scanContinue s
      else scan_fail c ''in string escape code'' s)"

definition stateInSingleQuotedStringEscU :: "char \<Rightarrow> scanner \<Rightarrow> stepResult" where
  "stateInSingleQuotedStringEscU c s =
     (if isHex c then goto (Txt InSingleQuotedStringEscU1) scanContinue s
      else scan_fail c (''in '' @ CHR 0x5C # ''u hexadecimal character escape'') s)"

definition stateInSingleQuotedStringEscU1 :: "char \<Rightarrow> scanner \<Rightarrow> stepResult" where
  "stateInSingleQuotedStringEscU1 c s =
     (if isHex c then goto (Txt InSingleQuotedStringEscU12) scanContinue s
      else scan_fail c (''in '' @ CHR 0x5C # ''u hexadecimal character escape'') s)"

definition stateInSingleQuotedStringEscU12 :: "char \<Rightarrow> scanner \<Rightarrow> stepResult" where
  "stateInSingleQuotedStringEscU12 c s =
     (if isHex c then goto (Txt InSingleQuotedStringEscU123) scanContinue s
      else scan_fail c (''in '' @ CHR 0x5C # ''u hexadecimal character escape'') s)"

definition stateInSingleQuotedStringEscU123 :: "char \<Rightarrow> scanner \<Rightarrow> stepResult" where
  "stateInSingleQuotedStringEscU123 c s =
     (if isHex c then goto (Txt InSingleQuotedString) scanContinue s
      else scan_fail c (''in '' @ CHR 0x5C # ''u hexadecimal character escape'') s)"

definition stateInUnquotedString :: "char \<Rightarrow> scanner \<Rightarrow> stepResult" where
  "stateInUnquotedString c s =
     (if isInUnquotedString c then Inr (scanContinue, s) else stateEndValue c s)"

definition stateInRegexpPattern :: "char \<Rightarrow> scanner \<Rightarrow> stepResult" where
  "stateInRegexpPattern c s =
     (if c = CHR ''/'' then goto (Txt InRegexpOptions) scanRegexpOptions s
      else if c = CHR 0x5C then goto (Txt InRegexpPatternEsc) scanRegexpPattern s
      else if isControl c then scan_fail c ''in regular expression literal'' s
      else Inr (scanRegexpPattern, s))"

definition stateInRegexpPatternEsc :: "char \<Rightarrow> scanner \<Rightarrow> stepResult" where
  "stateInRegexpPatternEsc c s =
     (if c = CHR ''b'' \<or> c = CHR ''f'' \<or> c = CHR ''n'' \<or> c = CHR ''r'' \<or> c = CHR ''t'' \<or> c = CHR 0x5C \<or> c = CHR ''/'' \<or> c = CHR 0x27
      then goto (Txt InRegexpPattern) scanRegexpPattern s
      else if c = CHR ''u'' then goto (Txt InRegexpPatternEscU) scanRegexpPattern s
      else scan_fail c ''in string escape code'' s)"

definition stateInRegexpPatternEscU :: "char \<Rightarrow> scanner \<Rightarrow> stepResult" where
  "stateInRegexpPatternEscU c s =
     (if isHex c then goto (Txt InRegexpPatternEscU1) scanRegexpPattern s
      else scan_fail c (''in '' @ CHR 0x5C # ''u hexadecimal character escape'') s)"

definition stateInRegexpPatternEscU1 :: "char \<Rightarrow> scanner \<Rightarrow> stepResult" where
  "stateInRegexpPatternEscU1 c s =
     (if isHex c then goto (Txt InRegexpPatternEscU12) scanRegexpPattern s
      else scan_fail c (''in '' @ CHR 0x5C # ''u hexadecimal character escape'') s)"

definition stateInRegexpPatternEscU12 :: "char \<Rightarrow> scanner \<Rightarrow> stepResult" where
  "stateInRegexpPatternEscU12 c s =
     (if isHex c then goto (Txt InRegexpPatternEscU123) scanRegexpPattern s
      else scan_fail c (''in '' @ CHR 0x5C # ''u hexadecimal character escape'') s)"

definition stateInRegexpPatternEscU123 :: "char \<Rightarrow> scanner \<Rightarrow> stepResult" where
  "stateInRegexpPatternEscU123 c s =
     (if isHex c then goto (Txt InRegexpPattern) scanRegexpPattern s
      else scan_fail c (''in '' @ CHR 0x5C # ''u hexadecimal character escape'') s)"

definition stateInRegexpOptions :: "char \<Rightarrow> scanner \<Rightarrow> stepResult" where
  "stateInRegexpOptions c s =
     (if c = CHR ''g'' \<or> c = CHR ''i'' \<or> c = CHR ''m'' \<or> c = CHR ''s'' then Inr (scanRegexpOptions, s)
      else stateEndValue c s)"

subsection \<open>Numbers\<close>

definition stateSign :: "char \<Rightarrow> scanner \<Rightarrow> stepResult" where
  "stateSign c s =
     (if c = CHR ''0'' then goto (Num Int0) scanContinue s
      else if c = CHR ''.'' then goto (Num Dot) scanContinue s
      else if isDigit1 c then goto (Num Int1) scanContinue s
      else if c = CHR ''I'' then goto (Ext LitI) scanContinue s
      else scan_fail c ''in numeric literal'' s)"

definition state0 :: "char \<Rightarrow> scanner \<Rightarrow> stepResult" where
  "state0 c s =
     (if c = CHR ''.'' then goto (Num Dot) scanContinue s
      else if c = CHR ''e'' \<or> c = CHR ''E'' then goto (Num Exp) scanContinue s
      else if c = CHR ''x'' \<or> c = CHR ''X'' then goto (Num Hexa) scanContinue s
      else stateEndValue c s)"

definition state1 :: "char \<Rightarrow> scanner \<Rightarrow> stepResult" where
  "state1 c s =
     (if isDigit c then goto (Num Int1) scanContinue s else state0 c s)"

definition stateDot :: "char \<Rightarrow> scanner \<Rightarrow> stepResult" where
  "stateDot c s =
     (if isDigit c then goto (Num Dot0) scanContinue s
      else scan_fail c ''after decimal point in numeric literal'' s)"

definition stateDot0 :: "char \<Rightarrow> scanner \<Rightarrow> stepResult" where
  "stateDot0 c s =
     (if isDigit c then goto (Num Dot0) scanContinue s
      else if c = CHR ''e'' \<or> c = CHR ''E'' then goto (Num Exp) scanContinue s
      else stateEndValue c s)"

definition stateESign :: "char \<Rightarrow> scanner \<Rightarrow> stepResult" where
  "stateESign c s =
     (if isDigit c then goto (Num Exp0) scanContinue s
      else scan_fail c ''in exponent of numeric literal'' s)"

definition stateE :: "char \<Rightarrow> scanner \<Rightarrow> stepResult" where
  "stateE c s =
     (if c = CHR ''+'' then goto (Num ExpSign) scanContinue s
      else if c = CHR ''-'' then goto (Num ExpSign) scanContinue s
      else stateESign c s)"

definition stateE0 :: "char \<Rightarrow> scanner \<Rightarrow> stepResult" where
  "stateE0 c s =
     (if isDigit c then goto (Num Exp0) scanContinue s else stateEndValue c s)"

definition stateHex :: "char \<Rightarrow> scanner \<Rightarrow> stepResult" where
  "stateHex c s =
     (if isHex c then goto (Num Hexa) scanContinue s else stateEndValue c s)"

subsection \<open>Literals\<close>

definition stateT :: "char \<Rightarrow> scanner \<Rightarrow> stepResult" where
  "stateT c s =
     (if c = CHR ''r'' then goto (Wrd LitTr) scanContinue s
      else scan_fail c (withQuotes ''in literal true (expecting `r`)'') s)"

definition stateTr :: "char \<Rightarrow> scanner \<Rightarrow> stepResult" where
  "stateTr c s =
     (if c = CHR ''u'' then goto (Wrd LitTru) scanContinue s
      else scan_fail c (withQuotes ''in literal true (expecting `u`)'') s)"

definition stateTru :: "char \<Rightarrow> scanner \<Rightarrow> stepResult" where
  "stateTru c s =
     (if c = CHR ''e'' then goto EndValue scanContinue s
      else scan_fail c (withQuotes ''in literal true (expecting `e`)'') s)"

definition stateF :: "char \<Rightarrow> scanner \<Rightarrow> stepResult" where
  "stateF c s =
     (if c = CHR ''a'' then goto (Wrd LitFa) scanContinue s
      else scan_fail c (withQuotes ''in literal false (expecting `a`)'') s)"

definition stateFa :: "char \<Rightarrow> scanner \<Rightarrow> stepResult" where
  "stateFa c s =
     (if c = CHR ''l'' then goto (Wrd LitFal) scanContinue s
      else scan_fail c (withQuotes ''in literal false (expecting `l`)'') s)"

definition stateFal :: "char \<Rightarrow> scanner \<Rightarrow> stepResult" where
  "stateFal c s =
     (if c = CHR ''s'' then goto (Wrd LitFals) scanContinue s
      else scan_fail c (withQuotes ''in literal false (expecting `s`)'') s)"

definition stateFals :: "char \<Rightarrow> scanner \<Rightarrow> stepResult" where
  "stateFals c s =
     (if c = CHR ''e'' then goto EndValue scanContinue s
      else scan_fail c (withQuotes ''in literal false (expecting `e`)'') s)"

definition stateN :: "char \<Rightarrow> scanner \<Rightarrow> stepResult" where
  "stateN c s =
     (if c = CHR ''e'' then goto (Wrd LitNe) scanContinue s
      else if c = CHR ''u'' then goto (Wrd LitNu) scanContinue s
      else scan_fail c (withQuotes ''in literal new or null (expecting `e` or `u`)'') s)"

definition stateNu :: "char \<Rightarrow> scanner \<Rightarrow> stepResult" where
  "stateNu c s =
     (if c = CHR ''l'' then goto (Wrd LitNul) scanContinue s
      else scan_fail c (withQuotes ''in literal null (expecting `l`)'') s)"

definition stateNul :: "char \<Rightarrow> scanner \<Rightarrow> stepResult" where
  "stateNul c s =
     (if c = CHR ''l'' then goto EndValue scanContinue s
      else scan_fail c (withQuotes ''in literal null (expecting `l`)'') s)"

definition stateNe :: "char \<Rightarrow> scanner \<Rightarrow> stepResult" where
  "stateNe c s =
     (if c = CHR ''w'' then goto (Wrd LitNew) scanContinue s
      else scan_fail c (withQuotes ''in literal new (expecting `w`)'') s)"

definition stateB :: "char \<Rightarrow> scanner \<Rightarrow> stepResult" where
  "stateB c s =
     (if c = CHR ''i'' then goto (Ext LitBi) scanContinue s
      else if c = CHR ''o'' then goto (Ext LitBo) scanContinue s
      else scan_fail c (withQuotes ''in literal BinData or Boolean (expecting `i` or `o`)'') s)"

definition stateBi :: "char \<Rightarrow> scanner \<Rightarrow> stepResult" where
  "stateBi c s =
     (if c = CHR ''n'' then goto (generateState ''BinData'' ''Data'' Constructor) scanContinue s
      else scan_fail c (withQuotes ''in literal BinData (expecting `n`)'') s)"

definition stateBo :: "char \<Rightarrow> scanner \<Rightarrow> stepResult" where
  "stateBo c s =
     (if c = CHR ''o'' then goto (generateState ''Boolean'' ''lean'' Constructor) scanContinue s
      else scan_fail c (withQuotes ''in literal Boolean (expecting `o`)'') s)"

definition stateD :: "char \<Rightarrow> scanner \<Rightarrow> stepResult" where
  "stateD c s =
     (if c = CHR ''a'' then goto (Ext LitDa) scanContinue s
      else if c = CHR ''B'' then goto (Ext LitDB) scanContinue s
      else if c = CHR ''b'' then goto (Ext LitDb) scanContinue s
      else scan_fail c (withQuotes ''in literal Date or DBRef (expecting `a` or `B`)'') s)"

definition stateDa :: "char \<Rightarrow> scanner \<Rightarrow> stepResult" where
  "stateDa c s =
     (if c = CHR ''t'' then goto (Ext LitDat) scanContinue s
      else scan_fail c (withQuotes ''in literal Date (expecting `t`)'') s)"

definition stateDat :: "char \<Rightarrow> scanner \<Rightarrow> stepResult" where
  "stateDat c s =
     (if c = CHR ''e'' then goto Constructor scanContinue s
      else scan_fail c (withQuotes ''in literal Date (expecting `e`)'') s)"

definition stateDB :: "char \<Rightarrow> scanner \<Rightarrow> stepResult" where
  "stateDB c s =
     (if c = CHR ''R'' then goto (Ext LitDBR) scanContinue s
      else if c = CHR ''P'' then goto (Ext LitDBP) scanContinue s
      else scan_fail c (withQuotes ''in state DB (expecting `R or P`)'') s)"

definition stateDBR :: "char \<Rightarrow> scanner \<Rightarrow> stepResult" where
  "stateDBR c s =
     (if c = CHR ''e'' then goto (generateState ''DBRef'' ''f'' Constructor) scanContinue s
      else scan_fail c (withQuotes ''in literal DBRef (expecting `e`)'') s)"

definition stateDBP :: "char \<Rightarrow> scanner \<Rightarrow> stepResult" where
  "stateDBP c s =
     (if c = CHR ''o'' then goto (generateState ''DBPointer'' ''inter'' Constructor) scanContinue s
      else scan_fail c (withQuotes ''in literal DBPointer (expecting `o`)'') s)"

definition stateDb :: "char \<Rightarrow> scanner \<Rightarrow> stepResult" where
  "stateDb c s =
     (if c = CHR ''r'' then goto (generateState ''Dbref'' ''ef'' Constructor) scanContinue s
      else scan_fail c (withQuotes ''in literal Dbref (expecting `r`)'') s)"

definition stateI :: "char \<Rightarrow> scanner \<Rightarrow> stepResult" where
  "stateI c s =
     (if c = CHR ''n'' then goto (Ext LitIn) scanContinue s
      else if c = CHR ''S'' then goto (Ext LitIS) scanContinue s
      else scan_fail c (withQuotes ''in literal Infinity or ISO (expecting `n` or `S`)'') s)"

definition stateIS :: "char \<Rightarrow> scanner \<Rightarrow> stepResult" where
  "stateIS c s =
     (if c = CHR ''O'' then goto (Ext LitISO) scanContinue s
      else scan_fail c (withQuotes ''in literal ISODate (expecting `O`)'') s)"

definition stateISO :: "char \<Rightarrow> scanner \<Rightarrow> stepResult" where
  "stateISO c s =
     (if c = CHR ''D'' then goto (Ext LitD) scanContinue s
      else scan_fail c (withQuotes ''in literal ISODate (expecting `D`)'') s)"

definition stateIn :: "char \<Rightarrow> scanner \<Rightarrow> stepResult" where
  "stateIn c s =
     (if c = CHR ''f'' then goto (generateState ''Infinity'' ''inity'' EndValue) scanContinue s
      else scan_fail c (withQuotes ''in literal Infinity (expecting `f`)'') s)"

definition stateM :: "char \<Rightarrow> scanner \<Rightarrow> stepResult" where
  "stateM c s =
     (if c = CHR ''a'' then goto (Ext UpperMa) scanContinue s
      else if c = CHR ''i'' then goto (Ext UpperMi) scanContinue s
      else scan_fail c (withQuotes ''in literal MaxKey or MinKey (expecting `a` or `i`)'') s)"

definition stateUpperMa :: "char \<Rightarrow> scanner \<Rightarrow> stepResult" where
  "stateUpperMa c s =
     (if c = CHR ''x'' then goto (generateState ''MaxKey'' ''Key'' OptionalConstructor) scanContinue s
      else scan_fail c (withQuotes ''in literal MaxKey (expecting `x`)'') s)"

definition stateUpperMi :: "char \<Rightarrow> scanner \<Rightarrow> stepResult" where
  "stateUpperMi c s =
     (if c = CHR ''n'' then goto (generateState ''MinKey'' ''Key'' OptionalConstructor) scanContinue s
      else scan_fail c (withQuotes ''in literal MinKey (expecting `n`)'') s)"

definition stateU :: "char \<Rightarrow> scanner \<Rightarrow> stepResult" where
  "stateU c s =
     (if c = CHR ''n'' then goto (generateState ''undefined'' ''defined'' EndValue) scanContinue s
      else scan_fail c (withQuotes ''in literal undefined (expecting `n`)'') s)"

definition stateUpperN :: "char \<Rightarrow> scanner \<Rightarrow> stepResult" where
  "stateUpperN c s =
     (if c = CHR ''a'' then goto (Ext UpperNa) scanContinue s
      else if c = CHR ''u'' then goto (Ext UpperNu) scanContinue s
      else scan_fail c (withQuotes ''in literal NaN or Number (expecting `a` or `u`)'') s)"

definition stateUpperNa :: "char \<Rightarrow> scanner \<Rightarrow> stepResult" where
  "stateUpperNa c s =
     (if c = CHR ''N'' then goto EndValue scanContinue s
      else scan_fail c (withQuotes ''in literal NaN (expecting `N`)'') s)"

definition stateUpperNu :: "char \<Rightarrow> scanner \<Rightarrow> stepResult" where
  "stateUpperNu c s =
     (if c = CHR ''m'' then goto (generateState ''Number'' ''ber'' (Ext UpperNumber)) scanContinue s
      else scan_fail c (withQuotes ''in literal Number (expecting `m`)'') s)"

definition stateUpperNumber :: "char \<Rightarrow> scanner \<Rightarrow> stepResult" where
  "stateUpperNumber c s =
     (if c = CHR ''I'' then goto (generateState ''NumberInt'' ''nt'' Constructor) scanContinue s
      else if c = CHR ''L'' then goto (generateState ''NumberLong'' ''ong'' Constructor) scanContinue s
      else scan_fail c (withQuotes ''in literal NumberInt or NumberLong (expecting `I` or `L`)'') s)"

definition stateNumberUpperN :: "char \<Rightarrow> scanner \<Rightarrow> stepResult" where
  "stateNumberUpperN c s =
     (if c = CHR ''u'' then goto (Ext UpperNu) scanContinue s
      else scan_fail c (withQuotes ''in literal NumberInt or NumberLong (expecting `u`)'') s)"

definition stateO :: "char \<Rightarrow> scanner \<Rightarrow> stepResult" where
  "stateO c s =
     (if c = CHR ''b'' then goto (generateState ''ObjectId'' ''jectId'' Constructor) scanContinue s
      else scan_fail c (withQuotes ''in literal ObjectId (expecting `b`)'') s)"

definition stateR :: "char \<Rightarrow> scanner \<Rightarrow> stepResult" where
  "stateR c s =
     (if c = CHR ''e'' then goto (generateState ''RegExp'' ''gExp'' Constructor) scanContinue s
      else scan_fail c (withQuotes ''in literal RegExp (expecting `e`)'') s)"

definition stateUpperT :: "char \<Rightarrow> scanner \<Rightarrow> stepResult" where
  "stateUpperT c s =
     (if c = CHR ''i'' then goto (generateState ''Timestamp'' ''mestamp'' Constructor) scanContinue s
      else scan_fail c (withQuotes ''in literal Timestamp (expecting `i`)'') s)"

definition stateNew :: "char \<Rightarrow> scanner \<Rightarrow> stepResult" where
  "stateNew c s =
     (if isSpace c then goto BeginObjectValue scanContinue s
      else scan_fail c ''expected space after new keyword'' s)"

definition stateBeginObjectValue :: "char \<Rightarrow> scanner \<Rightarrow> stepResult" where
  "stateBeginObjectValue c s =
     (if isSpace c then Inr (scanSkipSpace, s)
      else if c = CHR ''B'' then goto (Ext LitB) scanBeginLiteral s
      else if c = CHR ''D'' then goto (Ext LitD) scanBeginLiteral s
      else if c = CHR ''N'' then goto (Ext NumberUpperN) scanBeginLiteral s
      else if c = CHR ''O'' then goto (Ext LitOb) scanBeginLiteral s
      else if c = CHR ''R'' then goto (Ext LitR) scanBeginLiteral s
      else if c = CHR ''T'' then goto (Ext UpperT) scanBeginLiteral s
      else scan_fail c ''looking for beginning of value'' s)"

definition stateGenerated :: "string \<Rightarrow> string \<Rightarrow> scanState \<Rightarrow> char \<Rightarrow> scanner \<Rightarrow> stepResult" where
  "stateGenerated name x accept c s =
     (case x of
        [] \<Rightarrow> Inl index_panic
      | d # y \<Rightarrow>
          if c = d then goto (generateState name y accept) scanContinue s
          else scan_fail c (''in literal '' @ name @ '' (expecting '' @ [CHR 0x27, d, CHR 0x27] @ '')'') s)"

subsection \<open>Constructors\<close>

definition stateConstructor :: "char \<Rightarrow> scanner \<Rightarrow> stepResult" where
  "stateConstructor c s =
     (if isSpace c then Inr (scanSkipSpace, s)
      else if c = CHR ''('' then goto BeginCtorOrEmpty scanBeginCtor (pushParseState parseCtorArg s)
      else scan_fail c (withQuotes ''expected `(`'') s)"

definition stateBeginCtorOrEmpty :: "char \<Rightarrow> scanner \<Rightarrow> stepResult" where
  "stateBeginCtorOrEmpty c s =
     (if isSpace c then Inr (scanSkipSpace, s)
      else if c = CHR '')'' then stateEndValue c s
      else stateBeginValue c s)"

definition stateOptionalConstructor :: "char \<Rightarrow> scanner \<Rightarrow> stepResult" where
  "stateOptionalConstructor c s =
     (if isSpace c then Inr (scanContinue, s)
      else if c = CHR ''('' then goto InParen scanContinue s
      else stateEndValue c s)"

definition stateInParen :: "char \<Rightarrow> scanner \<Rightarrow> stepResult" where
  "stateInParen c s =
     (if isSpace c then Inr (scanContinue, s)
      else if c = CHR '')'' then goto EndValue scanContinue s
      else scan_fail c (withQuotes ''expecting `)` as next character'') s)"

definition stateRedo :: "char \<Rightarrow> scanner \<Rightarrow> stepResult" where
  "stateRedo c s = Inr (redoCode s, s\<lparr>redo := False, step := redoState s\<rparr>)"

definition undo :: "scanCode \<Rightarrow> scanner \<Rightarrow> scanner res" where
  "undo v s =
     (if redo s then Inl (Panic ''json: invalid use of scanner'')
      else Inr (s\<lparr>redoCode := v, redoState := step s, step := Redo, redo := True\<rparr>))"

text \<open>The call of \<open>step\<close>.\<close>

fun runState :: "scanState \<Rightarrow> char \<Rightarrow> scanner \<Rightarrow> stepResult" where
  "runState BeginValueOrEmpty = stateBeginValueOrEmpty"
| "runState BeginValue = stateBeginValue"
| "runState BeginStringOrEmpty = stateBeginStringOrEmpty"
| "runState BeginString = stateBeginString"
| "runState EndValue = stateEndValue"
| "runState EndTop = stateEndTop"
| "runState (Txt InString) = stateInString"
| "runState (Txt InStringEsc) = stateInStringEsc"
| "runState (Txt InStringEscU) = stateInStringEscU"
| "runState (Txt InStringEscU1) = stateInStringEscU1"
| "runState (Txt InStringEscU12) = stateInStringEscU12"
| "runState (Txt InStringEscU123) = stateInStringEscU123"
| "runState (Txt InSingleQuotedString) = stateInSingleQuotedString"
| "runState (Txt InSingleQuotedStringEsc) = stateInSingleQuotedStringEsc"
| "runState (Txt InSingleQuotedStringEscU) = stateInSingleQuotedStringEscU"
| "runState (Txt InSingleQuotedStringEscU1) = stateInSingleQuotedStringEscU1"
| "runState (Txt InSingleQuotedStringEscU12) = stateInSingleQuotedStringEscU12"
| "runState (Txt InSingleQuotedStringEscU123) = stateInSingleQuotedStringEscU123"
| "runState (Txt InUnquotedString) = stateInUnquotedString"
| "runState (Txt InRegexpPattern) = stateInRegexpPattern"
| "runState (Txt InRegexpPatternEsc) = stateInRegexpPatternEsc"
| "runState (Txt InRegexpPatternEscU) = stateInRegexpPatternEscU"
| "runState (Txt InRegexpPatternEscU1) = stateInRegexpPatternEscU1"
| "runState (Txt InRegexpPatternEscU12) = stateInRegexpPatternEscU12"
| "runState (Txt InRegexpPatternEscU123) = stateInRegexpPatternEscU123"
| "runState (Txt InRegexpOptions) = stateInRegexpOptions"
| "runState (Num Sign) = stateSign"
| "runState (Num Int1) = state1"
| "runState (Num Int0) = state0"
| "runState (Num Dot) = stateDot"
| "runState (Num Dot0) = stateDot0"
| "runState (Num Exp) = stateE"
| "runState (Num ExpSign) = stateESign"
| "runState (Num Exp0) = stateE0"
| "runState (Num Hexa) = stateHex"
| "runState (Wrd LitT) = stateT"
| "runState (Wrd LitTr) = stateTr"
| "runState (Wrd LitTru) = stateTru"
| "runState (Wrd LitF) = stateF"
| "runState (Wrd LitFa) = stateFa"
| "runState (Wrd LitFal) = stateFal"
| "runState (Wrd LitFals) = stateFals"
| "runState (Wrd LitN) = stateN"
| "runState (Wrd LitNu) = stateNu"
| "runState (Wrd LitNul) = stateNul"
| "runState (Wrd LitNe) = stateNe"
| "runState (Wrd LitNew) = stateNew"
| "runState BeginObjectValue = stateBeginObjectValue"
| "runState (Ext NumberUpperN) = stateNumberUpperN"
| "runState (Ext LitB) = stateB"
| "runState (Ext LitBi) = stateBi"
| "runState (Ext LitBo) = stateBo"
| "runState (Ext LitD) = stateD"
| "runState (Ext LitDa) = stateDa"
| "runState (Ext LitDat) = stateDat"
| "runState (Ext LitDB) = stateDB"
| "runState (Ext LitDBR) = stateDBR"
| "runState (Ext LitDBP) = stateDBP"
| "runState (Ext LitDb) = stateDb"
| "runState (Ext LitI) = stateI"
| "runState (Ext LitIS) = stateIS"
| "runState (Ext LitISO) = stateISO"
| "runState (Ext LitIn) = stateIn"
| "runState (Ext LitM) = stateM"
| "runState (Ext UpperMa) = stateUpperMa"
| "runState (Ext UpperMi) = stateUpperMi"
| "runState (Ext LitU) = stateU"
| "runState (Ext UpperN) = stateUpperN"
| "runState (Ext UpperNa) = stateUpperNa"
| "runState (Ext UpperNu) = stateUpperNu"
| "runState (Ext UpperNumber) = stateUpperNumber"
| "runState (Ext LitOb) = stateO"
| "runState (Ext LitR) = stateR"
| "runState (Ext UpperT) = stateUpperT"
| "runState Constructor = stateConstructor"
| "runState BeginCtorOrEmpty = stateBeginCtorOrEmpty"
| "runState OptionalConstructor = stateOptionalConstructor"
| "runState InParen = stateInParen"
| "runState (Generate name x accept) = stateGenerated name x accept"
| "runState Redo = stateRedo"
| "runState Failed = (\<lambda>c s. Inr (scanError, s))"

definition scan_step :: "char \<Rightarrow> scanner \<Rightarrow> stepResult" where
  "scan_step c s = runState (step s) c s"

subsection \<open>Checking and splitting\<close>

definition scan_eof :: "scanner \<Rightarrow> stepResult" where
  "scan_eof s =
     (if serr s \<noteq> None then Inr (scanError, s)
      else if endTop s then Inr (scanEnd, s)
      else
        rbind (scan_step (CHR '' '') s) (\<lambda>(_, s).
          if endTop s then Inr (scanEnd, s)
          else
            Inr (scanError,
              if serr s = None
              then s\<lparr>serr := Some \<lparr>badChar = None, context_ = ''unexpected end of JSON input'', Offset = sbytes s\<rparr>\<rparr> else s)))"

fun checkValid_loop :: "string \<Rightarrow> scanner \<Rightarrow> syntaxError option res" where
  "checkValid_loop [] s = rbind (scan_eof s) (\<lambda>(v, s). Inr (if v = scanError then serr s else None))"
| "checkValid_loop (c # data) s =
     rbind (scan_step c (s\<lparr>sbytes := sbytes s + 1\<rparr>)) (\<lambda>(v, s).
       if v = scanError then Inr (serr s) else checkValid_loop data s)"

definition checkValid :: "string \<Rightarrow> scanner \<Rightarrow> syntaxError option res" where
  "checkValid data s = checkValid_loop data (scan_reset s)"

text \<open>\<open>nextValue\<close>: the value and the rest, or the error.\<close>

fun nextValue_loop :: "string \<Rightarrow> string \<Rightarrow> scanner \<Rightarrow> (syntaxError option + string \<times> string) res" where
  "nextValue_loop value [] s =
     rbind (scan_eof s) (\<lambda>(v, s). Inr (if v = scanError then Inl (serr s) else Inr (value, [])))"
| "nextValue_loop value (c # data) s =
     rbind (scan_step c s) (\<lambda>(v, s).
       if v = scanError then Inr (Inl (serr s))
       else if v = scanEnd then Inr (Inr (value, c # data))
       else nextValue_loop (value @ [c]) data s)"

definition nextValue :: "string \<Rightarrow> scanner \<Rightarrow> (syntaxError option + string \<times> string) res" where
  "nextValue data s = nextValue_loop [] data (scan_reset s)"

end
