(* ===== verification/JsonText.thy ===== *)
theory JsonText
  imports Scanner
begin

text \<open>
  What the package makes of texts with the scanner (\<open>internal/legacy/json/indent.go\<close>): \<open>Compact\<close> and \<open>Indent\<close>. A
  \<open>bytes.Buffer\<close> is its contents, and the results are the contents afterwards and the error, if any.
\<close>

subsection \<open>Compact\<close>

definition hexChar :: "nat \<Rightarrow> char" where
  "hexChar n = ''0123456789abcdef'' ! n"

text \<open>The write of \<open>src[start:i]\<close>, if there is anything to write.\<close>

definition flush :: "string \<Rightarrow> nat \<Rightarrow> nat \<Rightarrow> string \<Rightarrow> string" where
  "flush src start i dst = (if start < i then dst @ take (i - start) (drop start src) else dst)"

definition isHtml :: "char \<Rightarrow> bool" where
  "isHtml c \<longleftrightarrow> c = CHR ''<'' \<or> c = CHR ''>'' \<or> c = CHR ''&''"

definition htmlEscape :: "char \<Rightarrow> string" where
  "htmlEscape c = CHR 0x5C # ''u00'' @ [hexChar (of_char c div 16), hexChar (of_char c mod 16)]"

text \<open>U+2028 and U+2029 are the bytes E2 80 A8 and E2 80 A9.\<close>

definition isSeparator :: "string \<Rightarrow> nat \<Rightarrow> bool" where
  "isSeparator src i \<longleftrightarrow>
     src ! i = CHR 0xE2 \<and> i + 2 < length src \<and> src ! (i + 1) = CHR 0x80 \<and>
     (src ! (i + 2) = CHR 0xA8 \<or> src ! (i + 2) = CHR 0xA9)"

definition separatorEscape :: "char \<Rightarrow> string" where
  "separatorEscape c = CHR 0x5C # ''u202'' @ [hexChar (of_char c mod 16)]"

text \<open>The escapes at position \<open>i\<close>: what is written, and the new \<open>start\<close>.\<close>

definition escapeAt :: "bool \<Rightarrow> string \<Rightarrow> nat \<Rightarrow> nat \<Rightarrow> string \<Rightarrow> string \<times> nat" where
  "escapeAt escape src i start dst =
     (let (dst, start) =
            (if escape \<and> isHtml (src ! i) then (flush src start i dst @ htmlEscape (src ! i), i + 1) else (dst, start))
      in if isSeparator src i then (flush src start i dst @ separatorEscape (src ! (i + 2)), i + 3) else (dst, start))"

text \<open>The loop, over the bytes that are left; the result is the buffer, \<open>start\<close> and the scanner.\<close>

fun compact_loop :: "bool \<Rightarrow> string \<Rightarrow> string \<Rightarrow> nat \<Rightarrow> nat \<Rightarrow> string \<Rightarrow> scanner \<Rightarrow> (string \<times> nat \<times> scanner) res" where
  "compact_loop escape src [] i start dst s = Inr (dst, start, s)"
| "compact_loop escape src (c # rest) i start dst s =
     (let (dst, start) = escapeAt escape src i start dst in
      rbind (scan_step c s) (\<lambda>(v, s).
        if v = scanError then Inr (dst, start, s)
        else if v = scanSkipSpace \<or> v = scanEnd
        then compact_loop escape src rest (i + 1) (i + 1) (flush src start i dst) s
        else compact_loop escape src rest (i + 1) start dst s))"

definition compact :: "bool \<Rightarrow> string \<Rightarrow> string \<Rightarrow> (string \<times> syntaxError option) res" where
  "compact escape dst src =
     rbind (compact_loop escape src src 0 0 dst (scan_reset zeroScanner)) (\<lambda>(dst', start, s).
     rbind (scan_eof s) (\<lambda>(v, s).
       if v = scanError then Inr (take (length dst) dst', serr s)
       else Inr (flush src start (length src) dst', None)))"

definition Compact :: "string \<Rightarrow> string \<Rightarrow> (string \<times> syntaxError option) res" where
  "Compact dst src = compact False dst src"

subsection \<open>Indent\<close>

definition newline :: "string \<Rightarrow> string \<Rightarrow> int \<Rightarrow> string" where
  "newline prefix indent depth = CHR 0x0A # prefix @ concat (replicate (nat depth) indent)"

text \<open>What is written for a byte that is not in the middle of a literal, with the new \<open>needIndent\<close> and depth.\<close>

definition punctuation :: "string \<Rightarrow> string \<Rightarrow> char \<Rightarrow> bool \<Rightarrow> int \<Rightarrow> string \<times> bool \<times> int" where
  "punctuation prefix indent c needIndent depth =
     (if c = CHR ''{'' \<or> c = CHR ''['' then ([c], True, depth)
      else if c = CHR '','' then (c # newline prefix indent depth, needIndent, depth)
      else if c = CHR '':'' then ([c, CHR '' ''], needIndent, depth)
      else if c = CHR ''}'' \<or> c = CHR '']'' then
        if needIndent then ([c], False, depth)
        else (newline prefix indent (depth - 1) @ [c], False, depth - 1)
      else ([c], needIndent, depth))"

fun Indent_loop :: "string \<Rightarrow> string \<Rightarrow> string \<Rightarrow> bool \<Rightarrow> int \<Rightarrow> string \<Rightarrow> scanner \<Rightarrow> (string \<times> scanner) res" where
  "Indent_loop prefix indent [] needIndent depth dst s = Inr (dst, s)"
| "Indent_loop prefix indent (c # rest) needIndent depth dst s =
     rbind (scan_step c (s\<lparr>sbytes := sbytes s + 1\<rparr>)) (\<lambda>(v, s).
       if v = scanSkipSpace then Indent_loop prefix indent rest needIndent depth dst s
       else if v = scanError then Inr (dst, s)
       else
         let (dst, needIndent, depth) =
               (if needIndent \<and> v \<noteq> scanEndObject \<and> v \<noteq> scanEndArray
                then (dst @ newline prefix indent (depth + 1), False, depth + 1) else (dst, needIndent, depth))
         in if v = scanContinue then Indent_loop prefix indent rest needIndent depth (dst @ [c]) s
            else
              let (out, needIndent, depth) = punctuation prefix indent c needIndent depth
              in Indent_loop prefix indent rest needIndent depth (dst @ out) s)"

definition Indent :: "string \<Rightarrow> string \<Rightarrow> string \<Rightarrow> string \<Rightarrow> (string \<times> syntaxError option) res" where
  "Indent dst src prefix indent =
     rbind (Indent_loop prefix indent src False 0 dst (scan_reset zeroScanner)) (\<lambda>(dst', s).
     rbind (scan_eof s) (\<lambda>(v, s).
       if v = scanError then Inr (take (length dst) dst', serr s) else Inr (dst', None)))"

subsection \<open>A reference: the texts of the syntax\<close>

text \<open>
  The tokens of a text: blanks, brackets, commas and colons, and literals. \<open>text\<close> writes a list of tokens.
\<close>

datatype token = Blank char | Punct char | Literal string

fun token_text :: "token \<Rightarrow> string" where
  "token_text (Blank c) = [c]"
| "token_text (Punct c) = [c]"
| "token_text (Literal l) = l"

definition written :: "token list \<Rightarrow> string" where
  "written ts = concat (map token_text ts)"

text \<open>The inside of a string up to the quote that ends it, and numbers, as RFC 8259 has them.\<close>

inductive string_rest :: "char \<Rightarrow> string \<Rightarrow> bool" for q where
  string_end: "string_rest q [q]"
| string_char: "string_rest q l \<Longrightarrow> c \<noteq> q \<Longrightarrow> c \<noteq> CHR 0x5C \<Longrightarrow> 0x20 \<le> (of_char c :: nat) \<Longrightarrow> string_rest q (c # l)"
| string_escape: "string_rest q l \<Longrightarrow> c \<in> set (q # CHR 0x5C # ''/bfnrt'') \<Longrightarrow> string_rest q (CHR 0x5C # c # l)"
| string_unicode: "string_rest q l \<Longrightarrow> isHex a \<Longrightarrow> isHex b \<Longrightarrow> isHex c \<Longrightarrow> isHex d \<Longrightarrow>
    string_rest q (CHR 0x5C # CHR ''u'' # a # b # c # d # l)"

definition digits :: "string \<Rightarrow> bool" where
  "digits ds \<longleftrightarrow> ds \<noteq> [] \<and> list_all isDigit ds"

definition int_part :: "string \<Rightarrow> bool" where
  "int_part ip \<longleftrightarrow> ip = ''0'' \<or> (\<exists>d ds. ip = d # ds \<and> isDigit1 d \<and> list_all isDigit ds)"

definition frac_part :: "string \<Rightarrow> bool" where
  "frac_part fp \<longleftrightarrow> fp = [] \<or> (\<exists>ds. fp = CHR ''.'' # ds \<and> digits ds)"

definition exp_part :: "string \<Rightarrow> bool" where
  "exp_part ep \<longleftrightarrow> ep = [] \<or>
     (\<exists>e sg ds. ep = e # sg @ ds \<and> (e = CHR ''e'' \<or> e = CHR ''E'') \<and> (sg = [] \<or> sg = ''+'' \<or> sg = ''-'') \<and> digits ds)"

definition number_text :: "string \<Rightarrow> bool" where
  "number_text l \<longleftrightarrow> (\<exists>sg ip fp ep. l = sg @ ip @ fp @ ep \<and> (sg = [] \<or> sg = ''-'') \<and> int_part ip \<and> frac_part fp \<and> exp_part ep)"

definition string_text :: "string \<Rightarrow> bool" where
  "string_text l \<longleftrightarrow> (\<exists>r. l = CHR 0x22 # r \<and> string_rest (CHR 0x22) r) \<or> (\<exists>r. l = CHR 0x27 # r \<and> string_rest (CHR 0x27) r)"

definition literal_text :: "string \<Rightarrow> bool" where
  "literal_text l \<longleftrightarrow> string_text l \<or> number_text l \<or> l \<in> {''true'', ''false'', ''null'', ''undefined'', ''NaN'', ''Infinity''}"

text \<open>A key is quoted or a name; a constructor is one of the types of the database.\<close>

definition key_text :: "string \<Rightarrow> bool" where
  "key_text l \<longleftrightarrow> string_text l \<or> (\<exists>c cs. l = c # cs \<and> isBeginUnquotedString c \<and> list_all isInUnquotedString cs)"

definition ctor_text :: "string \<Rightarrow> bool" where
  "ctor_text l \<longleftrightarrow> l \<in> {''BinData'', ''Boolean'', ''Date'', ''DBRef'', ''DBPointer'', ''Dbref'', ''ISODate'',
     ''NumberInt'', ''NumberLong'', ''ObjectId'', ''RegExp'', ''Timestamp''}"

text \<open>The values, and how a value is written: blanks may stand around every value, key, comma and colon.\<close>

datatype json = JLit string | JArr "json list" | JObj "(string \<times> json) list" | JCtor string "json list"

definition blanks :: "token list \<Rightarrow> bool" where
  "blanks ts \<longleftrightarrow> (\<forall>t\<in>set ts. \<exists>c. t = Blank c \<and> isSpace c)"

inductive value_tokens :: "json \<Rightarrow> token list \<Rightarrow> bool"
  and list_tokens :: "json list \<Rightarrow> token list \<Rightarrow> bool"
  and member_tokens :: "(string \<times> json) list \<Rightarrow> token list \<Rightarrow> bool"
where
  lit: "literal_text l \<Longrightarrow> value_tokens (JLit l) [Literal l]"
| arr_empty: "blanks b \<Longrightarrow> value_tokens (JArr []) (Punct (CHR ''['') # b @ [Punct (CHR '']'')])"
| arr: "list_tokens (x # xs) ts \<Longrightarrow> value_tokens (JArr (x # xs)) (Punct (CHR ''['') # ts @ [Punct (CHR '']'')])"
| obj_empty: "blanks b \<Longrightarrow> value_tokens (JObj []) (Punct (CHR ''{'') # b @ [Punct (CHR ''}'')])"
| obj: "member_tokens (m # ms) ts \<Longrightarrow> value_tokens (JObj (m # ms)) (Punct (CHR ''{'') # ts @ [Punct (CHR ''}'')])"
| ctor_empty: "ctor_text n \<Longrightarrow> blanks a \<Longrightarrow> blanks b \<Longrightarrow>
    value_tokens (JCtor n []) (Literal n # a @ Punct (CHR ''('') # b @ [Punct (CHR '')'')])"
| ctor: "ctor_text n \<Longrightarrow> blanks a \<Longrightarrow> list_tokens (x # xs) ts \<Longrightarrow>
    value_tokens (JCtor n (x # xs)) (Literal n # a @ Punct (CHR ''('') # ts @ [Punct (CHR '')'')])"
| one: "blanks a \<Longrightarrow> value_tokens x ts \<Longrightarrow> blanks b \<Longrightarrow> list_tokens [x] (a @ ts @ b)"
| more: "blanks a \<Longrightarrow> value_tokens x ts \<Longrightarrow> blanks b \<Longrightarrow> list_tokens (y # ys) us \<Longrightarrow>
    list_tokens (x # y # ys) (a @ ts @ b @ Punct (CHR '','') # us)"
| one_member: "blanks a \<Longrightarrow> key_text k \<Longrightarrow> blanks b \<Longrightarrow> blanks c \<Longrightarrow> value_tokens x ts \<Longrightarrow> blanks d \<Longrightarrow>
    member_tokens [(k, x)] (a @ Literal k # b @ Punct (CHR '':'') # c @ ts @ d)"
| more_members: "blanks a \<Longrightarrow> key_text k \<Longrightarrow> blanks b \<Longrightarrow> blanks c \<Longrightarrow> value_tokens x ts \<Longrightarrow> blanks d \<Longrightarrow>
    member_tokens (m # ms) us \<Longrightarrow>
    member_tokens ((k, x) # m # ms) (a @ Literal k # b @ Punct (CHR '':'') # c @ ts @ d @ Punct (CHR '','') # us)"

text \<open>The document: a value between blanks.\<close>

definition document :: "json \<Rightarrow> token list \<Rightarrow> bool" where
  "document j ts \<longleftrightarrow> (\<exists>a us. ts = a @ us \<and> blanks a \<and> value_tokens j us)"

text \<open>What \<open>compact\<close> makes of a literal, and of a value.\<close>

fun escaped :: "bool \<Rightarrow> string \<Rightarrow> string" where
  "escaped e [] = []"
| "escaped e (c # cs) =
     (if e \<and> isHtml c then htmlEscape c @ escaped e cs
      else
        case cs of
          a # b # ds \<Rightarrow>
            if c = CHR 0xE2 \<and> a = CHR 0x80 \<and> (b = CHR 0xA8 \<or> b = CHR 0xA9)
            then separatorEscape b @ escaped e ds else c # escaped e cs
        | _ \<Rightarrow> c # escaped e cs)"

fun joined :: "string \<Rightarrow> string list \<Rightarrow> string" where
  "joined sep [] = []"
| "joined sep [x] = x"
| "joined sep (x # y # ys) = x @ sep @ joined sep (y # ys)"

fun minimal :: "bool \<Rightarrow> json \<Rightarrow> string" where
  "minimal e (JLit l) = escaped e l"
| "minimal e (JArr xs) = ''['' @ joined '','' (map (minimal e) xs) @ '']''"
| "minimal e (JObj ms) = ''{'' @ joined '','' (map (\<lambda>(k, x). escaped e k @ '':'' @ minimal e x) ms) @ ''}''"
| "minimal e (JCtor n xs) = n @ ''('' @ joined '','' (map (minimal e) xs) @ '')''"

text \<open>
  What \<open>Indent\<close> makes of a value at a depth: the elements of arrays and objects are on lines of their own one
  level deeper, unless there is none; the arguments of a constructor after the first are on lines of the same depth.
\<close>

fun pretty :: "string \<Rightarrow> string \<Rightarrow> int \<Rightarrow> json \<Rightarrow> string" where
  "pretty p t d (JLit l) = l"
| "pretty p t d (JArr xs) =
     (if xs = [] then ''[]''
      else ''['' @ newline p t (d + 1) @ joined ('','' @ newline p t (d + 1)) (map (pretty p t (d + 1)) xs) @ newline p t d @ '']'')"
| "pretty p t d (JObj ms) =
     (if ms = [] then ''{}''
      else ''{'' @ newline p t (d + 1) @
        joined ('','' @ newline p t (d + 1)) (map (\<lambda>(k, x). k @ '': '' @ pretty p t (d + 1) x) ms) @ newline p t d @ ''}'')"
| "pretty p t d (JCtor n xs) = n @ ''('' @ joined ('','' @ newline p t d) (map (pretty p t d) xs) @ '')''"

end
