(* ===== verification/Scanner_Correct.thy ===== *)
theory Scanner_Correct
  imports Scanner
begin

subsection \<open>Every step keeps the machine in order\<close>

fun state_ok :: "scanState \<Rightarrow> bool" where
  "state_ok (Generate name x accept) \<longleftrightarrow>
     x \<noteq> [] \<and> accept \<in> {EndValue, Constructor, OptionalConstructor, Ext UpperNumber}"
| "state_ok Redo \<longleftrightarrow> False"
| "state_ok _ \<longleftrightarrow> True"

text \<open>
  What holds of a machine between steps: a state that needs the stack finds one, the end of the text is only
  reported when every bracket is closed, and an error leads to the state that only fails.
\<close>

definition scanner_ok :: "scanner \<Rightarrow> bool" where
  "scanner_ok s \<longleftrightarrow>
     state_ok (step s) \<and> (step s = BeginStringOrEmpty \<longrightarrow> parse s \<noteq> [])
   \<and> (endTop s \<longrightarrow> parse s = [] \<and> step s \<in> {EndTop, Failed})
   \<and> (step s = EndTop \<longrightarrow> endTop s) \<and> (serr s \<noteq> None \<longleftrightarrow> step s = Failed)"

definition step_ok :: "stepResult \<Rightarrow> bool" where
  "step_ok r \<longleftrightarrow> (case r of Inl _ \<Rightarrow> False | Inr (v, s) \<Rightarrow> scanner_ok s \<and> (v = scanError \<longrightarrow> serr s \<noteq> None))"

named_theorems scan_simps

lemma step_ok_if [scan_simps]: "step_ok (if b then x else y) \<longleftrightarrow> (b \<longrightarrow> step_ok x) \<and> (\<not> b \<longrightarrow> step_ok y)"
  by simp

lemma step_ok_goto [scan_simps]:
  "step_ok (Inr (v, s)) \<longleftrightarrow> scanner_ok s \<and> (v = scanError \<longrightarrow> serr s \<noteq> None)"
  by (simp add: step_ok_def)

lemma step_ok_fail [scan_simps]: "step_ok (scan_fail c ctx s) \<longleftrightarrow> (endTop s \<longrightarrow> parse s = [])"
  by (simp add: step_ok_def scan_fail_def scanner_ok_def)

lemma generateState_simps [scan_simps]:
  "generateState name [] a = a" "generateState name (x # xs) a = Generate name (x # xs) a"
  by (simp_all add: generateState_def)

text \<open>A machine in the middle of a text.\<close>

definition amid :: "scanner \<Rightarrow> bool" where
  "amid s \<longleftrightarrow> \<not> endTop s \<and> serr s = None"

lemma amid_goto: "amid s \<Longrightarrow> scanner_ok (s\<lparr>step := q\<rparr>) \<longleftrightarrow>
    state_ok q \<and> (q = BeginStringOrEmpty \<longrightarrow> parse s \<noteq> []) \<and> q \<noteq> EndTop \<and> q \<noteq> Failed"
  by (auto simp: amid_def scanner_ok_def)

lemma amid_parse [simp]: "amid (s\<lparr>parse := ps\<rparr>) = amid s" "amid (s\<lparr>step := q\<rparr>) = amid s"
  by (simp_all add: amid_def)

lemma amid_endTop: "amid s \<Longrightarrow> \<not> endTop s"
  by (simp add: amid_def)

lemma EndTop_ok: "serr s = None \<Longrightarrow> step s = EndTop \<Longrightarrow> endTop s \<Longrightarrow> parse s = [] \<Longrightarrow> step_ok (stateEndTop c s)"
  by (simp add: stateEndTop_def scan_fail_def step_ok_def scanner_ok_def)

lemma pop_ok:
  assumes "amid s" "parse s = p # ps"
  shows "step_ok (rbind (popParseState s) (\<lambda>s. Inr (v, s))) \<longleftrightarrow> v \<noteq> scanError"
  using assms by (simp add: popParseState_def Let_def step_ok_def scanner_ok_def amid_def)

lemma EndValue_ok:
  assumes "amid s"
  shows "step_ok (stateEndValue c s)"
proof (cases "parse s")
  case Nil
  with assms show ?thesis
    by (simp add: stateEndValue_def EndTop_ok amid_def)
next
  case (Cons p ps)
  with assms show ?thesis
    by (cases p) (simp_all add: stateEndValue_def scan_simps amid_goto amid_endTop pop_ok[OF assms Cons])
qed

lemmas value_defs = stateBeginExtendedValue_def stateBeginValue_def stateBeginValueOrEmpty_def stateBeginString_def
  stateBeginStringOrEmpty_def pushParseState_def

lemma BeginValue_ok:
  assumes "amid s" "state_ok (step s)" "step s \<noteq> EndTop" "step s \<noteq> Failed" "step s = BeginStringOrEmpty \<longrightarrow> parse s \<noteq> []"
  shows "step_ok (stateBeginValue c s)" "step_ok (stateBeginValueOrEmpty c s)" "step_ok (stateBeginString c s)"
    "parse s \<noteq> [] \<Longrightarrow> step_ok (stateBeginStringOrEmpty c s)"
proof -
  have "scanner_ok s"
    using assms by (auto simp: scanner_ok_def amid_def)
  then show "step_ok (stateBeginValue c s)" "step_ok (stateBeginValueOrEmpty c s)" "step_ok (stateBeginString c s)"
    "parse s \<noteq> [] \<Longrightarrow> step_ok (stateBeginStringOrEmpty c s)"
    using assms by (auto simp: value_defs scan_simps amid_goto amid_endTop EndValue_ok split: list.split)
qed

lemmas text_defs = stateInString_def stateInStringEsc_def stateInStringEscU_def stateInStringEscU1_def
  stateInStringEscU12_def stateInStringEscU123_def stateInSingleQuotedString_def stateInSingleQuotedStringEsc_def
  stateInSingleQuotedStringEscU_def stateInSingleQuotedStringEscU1_def stateInSingleQuotedStringEscU12_def
  stateInSingleQuotedStringEscU123_def stateInUnquotedString_def stateInRegexpPattern_def stateInRegexpPatternEsc_def
  stateInRegexpPatternEscU_def stateInRegexpPatternEscU1_def stateInRegexpPatternEscU12_def
  stateInRegexpPatternEscU123_def stateInRegexpOptions_def

lemmas number_defs = stateSign_def state1_def state0_def stateDot_def stateDot0_def stateESign_def stateE_def
  stateE0_def stateHex_def

lemmas word_defs = stateT_def stateTr_def stateTru_def stateF_def stateFa_def stateFal_def stateFals_def stateN_def
  stateNu_def stateNul_def stateNe_def stateNew_def

lemmas ext_defs = stateB_def stateBi_def stateBo_def stateD_def stateDa_def stateDat_def stateDB_def stateDBR_def
  stateDBP_def stateDb_def stateI_def stateIS_def stateISO_def stateIn_def stateM_def stateUpperMa_def
  stateUpperMi_def stateU_def stateUpperN_def stateUpperNa_def stateUpperNu_def stateUpperNumber_def
  stateNumberUpperN_def stateO_def stateR_def stateUpperT_def

lemmas ctor_defs = stateBeginObjectValue_def stateConstructor_def stateBeginCtorOrEmpty_def
  stateOptionalConstructor_def stateInParen_def pushParseState_def

lemma amid_ok: "amid s \<Longrightarrow> step s = q \<Longrightarrow> scanner_ok s \<longleftrightarrow>
    state_ok q \<and> (q = BeginStringOrEmpty \<longrightarrow> parse s \<noteq> []) \<and> q \<noteq> EndTop \<and> q \<noteq> Failed"
  by (auto simp: amid_def scanner_ok_def)

lemma text_ok: "amid s \<Longrightarrow> step s = Txt q \<Longrightarrow> step_ok (runState (Txt q) c s)"
  by (cases q) (simp_all add: text_defs scan_simps amid_goto amid_ok amid_endTop EndValue_ok)

lemma number_ok: "amid s \<Longrightarrow> step_ok (runState (Num q) c s)"
  by (cases q) (simp_all add: number_defs scan_simps amid_goto amid_endTop EndValue_ok)

lemma word_ok: "amid s \<Longrightarrow> step_ok (runState (Wrd q) c s)"
  by (cases q) (simp_all add: word_defs scan_simps amid_goto amid_endTop EndValue_ok)

lemma ext_ok: "amid s \<Longrightarrow> step_ok (runState (Ext q) c s)"
  by (cases q) (simp_all add: ext_defs scan_simps amid_goto amid_endTop EndValue_ok)

lemma generated_ok:
  assumes "amid s" "state_ok (Generate name x accept)"
  shows "step_ok (stateGenerated name x accept c s)"
proof -
  obtain d y where x: "x = d # y"
    using assms(2) by (cases x) auto
  show ?thesis
    using assms by (cases y) (auto simp: x stateGenerated_def scan_simps amid_goto amid_endTop)
qed

lemma scan_step_ok: "scanner_ok s \<Longrightarrow> step_ok (scan_step c s)"
proof (cases "step s = EndTop \<or> step s = Failed")
  case True
  assume ok: "scanner_ok s"
  from True show ?thesis
  proof
    assume "step s = EndTop"
    with ok show ?thesis
      by (simp add: scan_step_def EndTop_ok scanner_ok_def)
  next
    assume "step s = Failed"
    with ok show ?thesis
      by (simp add: scan_step_def scan_simps scanner_ok_def)
  qed
next
  case False
  assume ok: "scanner_ok s"
  with False have am: "amid s"
    by (auto simp: scanner_ok_def amid_def)
  have st: "state_ok (step s)" "step s = BeginStringOrEmpty \<longrightarrow> parse s \<noteq> []"
    using ok by (simp_all add: scanner_ok_def)
  note bv = BeginValue_ok[OF am st(1) _ _ st(2)]
  show ?thesis
    using am st False
    by (cases "step s")
       (simp_all add: scan_step_def bv EndValue_ok text_ok number_ok word_ok ext_ok generated_ok
         ctor_defs scan_simps amid_goto amid_ok amid_endTop del: runState.simps(7-47,49-74))
qed

end
