(* ===== verification/Json_Literals.thy ===== *)
theory Json_Literals
  imports JsonText Scanner_Correct
begin

text \<open>
  Every literal, key and constructor name of the syntax takes the scanner from the beginning of a value to a state that the
  next blank, comma, colon or bracket ends.
\<close>

subsection \<open>Literals\<close>

definition steps_to :: "scanState \<Rightarrow> char \<Rightarrow> scanState \<Rightarrow> bool" where
  "steps_to q c q' \<longleftrightarrow> (\<forall>s. step s = q \<longrightarrow> runState q c s = Inr (scanContinue, s\<lparr>step := q'\<rparr>))"

inductive conts :: "scanState \<Rightarrow> string \<Rightarrow> scanState \<Rightarrow> bool" where
  conts_Nil: "conts q [] q"
| conts_Cons: "steps_to q c q1 \<Longrightarrow> conts q1 cs q' \<Longrightarrow> conts q (c # cs) q'"

lemma conts_append: "conts q xs q1 \<Longrightarrow> conts q1 ys q' \<Longrightarrow> conts q (xs @ ys) q'"
  by (induction rule: conts.induct) (auto intro: conts.intros)

lemma same_step [simp]: "step s = q \<Longrightarrow> s\<lparr>step := q\<rparr> = s"
  by auto

definition starts :: "scanState set" where
  "starts = {BeginValue, BeginValueOrEmpty, BeginCtorOrEmpty}"

definition begins :: "char \<Rightarrow> scanState \<Rightarrow> bool" where
  "begins c q \<longleftrightarrow> (\<forall>s. step s \<in> starts \<longrightarrow> runState (step s) c s = Inr (scanBeginLiteral, s\<lparr>step := q\<rparr>))"

definition ending :: "scanState set" where
  "ending = {EndValue, Txt InUnquotedString, Num Int1, Num Int0, Num Dot0, Num Exp0}"

abbreviation ascii :: "char \<Rightarrow> bool" where
  "ascii c \<equiv> of_char c < (128 :: nat)"

lemma char_le_code: "c \<le> d \<longleftrightarrow> (of_char c :: nat) \<le> of_char d"
  by (simp add: less_eq_char_def)

lemmas char_codes = isSpace_def isDigit_def isDigit1_def isHex_def isControl_def isBeginUnquotedString_def
  isInUnquotedString_def char_le_code

lemma code_inject: "c = d \<longleftrightarrow> (of_char c :: nat) = of_char d"
  by simp

lemma digit_facts:
  assumes "isDigit c"
  shows "c \<notin> set (CHR 0x22 # CHR 0x27 # ''.eExX{}[](),:+-tfn'') \<and> \<not> isSpace c \<and> ascii c"
  using assms by (auto simp: char_codes)

lemma conts_stay:
  assumes "list_all P ds" "\<And>c. P c \<Longrightarrow> steps_to q c q"
  shows "conts q ds q"
  using assms(1) by (induction ds) (auto intro: conts.intros assms(2))

lemma conts_digits: "list_all isDigit ds \<Longrightarrow> q \<in> {Int1, Dot0, Exp0} \<Longrightarrow> conts (Num q) ds (Num q)"
  by (erule conts_stay) (auto simp: steps_to_def state1_def stateDot0_def stateE0_def)

lemma digits_cases: "digits ds \<Longrightarrow> (\<And>d es. ds = d # es \<Longrightarrow> isDigit d \<Longrightarrow> list_all isDigit es \<Longrightarrow> thesis) \<Longrightarrow> thesis"
  by (cases ds) (auto simp: digits_def)

lemma exp_conts:
  assumes "exp_part ep" "q \<in> {Int0, Int1, Dot0}"
  shows "\<exists>q'. conts (Num q) ep (Num q') \<and> q' \<in> {q, Exp0}"
proof (cases "ep = []")
  case True
  then show ?thesis by (auto intro: conts.intros)
next
  case False
  then obtain e sg ds where ep: "ep = e # sg @ ds" "e = CHR ''e'' \<or> e = CHR ''E''" "sg = [] \<or> sg = ''+'' \<or> sg = ''-''" "digits ds"
    using assms(1) by (auto simp: exp_part_def)
  obtain d es where ds: "ds = d # es" "isDigit d" "list_all isDigit es"
    using ep(4) by (rule digits_cases)
  have e: "steps_to (Num q) e (Num Exp)"
    using assms(2) ep(2) by (auto simp: steps_to_def state1_def state0_def stateDot0_def char_codes)
  have d: "steps_to (Num Exp) d (Num Exp0)" "steps_to (Num ExpSign) d (Num Exp0)"
    using digit_facts[OF ds(2)] ds(2) by (simp_all add: steps_to_def stateE_def stateESign_def)
  have sg: "steps_to (Num Exp) (CHR ''+'') (Num ExpSign)" "steps_to (Num Exp) (CHR ''-'') (Num ExpSign)"
    by (simp_all add: steps_to_def stateE_def)
  have "conts (Num Exp) (sg @ ds) (Num Exp0)"
    using ep(3) ds(1) d sg conts_digits[OF ds(3), of Exp0] by (auto intro!: conts_Cons)
  then show ?thesis
    using e ep(1) by (auto intro: conts.intros)
qed

lemma frac_exp_conts:
  assumes "frac_part fp" "exp_part ep" "q \<in> {Int0, Int1}"
  shows "\<exists>q'. conts (Num q) (fp @ ep) (Num q') \<and> Num q' \<in> ending"
proof (cases "fp = []")
  case True
  then show ?thesis
    using exp_conts[OF assms(2), of q] assms(3) by (auto simp: ending_def)
next
  case False
  then obtain ds where fp: "fp = CHR ''.'' # ds" "digits ds"
    using assms(1) by (auto simp: frac_part_def)
  obtain d es where ds: "ds = d # es" "isDigit d" "list_all isDigit es"
    using fp(2) by (rule digits_cases)
  have "steps_to (Num q) (CHR ''.'') (Num Dot)"
    using assms(3) by (auto simp: steps_to_def state1_def state0_def char_codes)
  moreover have "steps_to (Num Dot) d (Num Dot0)"
    using ds(2) by (simp add: steps_to_def stateDot_def)
  moreover obtain q' where "conts (Num Dot0) ep (Num q')" "q' \<in> {Dot0, Exp0}"
    using exp_conts[OF assms(2), of Dot0] by auto
  ultimately show ?thesis
    using fp(1) ds conts_digits[OF ds(3), of Dot0]
    by (auto simp: ending_def intro!: conts_Cons intro: conts_append)
qed

text \<open>The bytes that can stand at the beginning and at the end of a literal.\<close>

definition literal_ends :: "string \<Rightarrow> bool" where
  "literal_ends l \<longleftrightarrow> l \<noteq> [] \<and> hd l \<notin> set ''{}[](),:'' \<and> \<not> isSpace (hd l) \<and> ascii (last l)"

definition scans :: "string \<Rightarrow> bool" where
  "scans l \<longleftrightarrow> literal_ends l \<and> (\<exists>q q'. begins (hd l) q \<and> conts q (tl l) q' \<and> q' \<in> ending)"

lemma scansI:
  "literal_ends (c # cs) \<Longrightarrow> begins c q \<Longrightarrow> conts q cs q' \<Longrightarrow> q' \<in> ending \<Longrightarrow> scans (c # cs)"
  by (auto simp: scans_def)

lemma beginsI:
  assumes "\<And>s. stateBeginValue c s = Inr (scanBeginLiteral, s\<lparr>step := q\<rparr>)" "c \<noteq> CHR '']''" "c \<noteq> CHR '')''" "\<not> isSpace c"
  shows "begins c q"
  using assms by (auto simp: begins_def starts_def stateBeginValueOrEmpty_def stateBeginCtorOrEmpty_def)

lemma begins_simps:
  "begins (CHR 0x22) (Txt InString)" "begins (CHR 0x27) (Txt InSingleQuotedString)" "begins (CHR ''-'') (Num Sign)"
  "begins (CHR ''0'') (Num Int0)" "begins (CHR ''t'') (Wrd LitT)" "begins (CHR ''f'') (Wrd LitF)" "begins (CHR ''n'') (Wrd LitN)"
  "begins (CHR ''u'') (Ext LitU)" "begins (CHR ''N'') (Ext UpperN)" "begins (CHR ''I'') (Ext LitI)" "begins (CHR ''B'') (Ext LitB)"
  "begins (CHR ''D'') (Ext LitD)" "begins (CHR ''O'') (Ext LitOb)" "begins (CHR ''R'') (Ext LitR)" "begins (CHR ''T'') (Ext UpperT)"
  by (rule beginsI; simp add: stateBeginValue_def stateBeginExtendedValue_def char_codes)+

lemma digit1_digit: "isDigit1 c \<Longrightarrow> isDigit c"
  by (simp add: char_codes)

lemma begins_digit:
  assumes "isDigit1 c"
  shows "begins c (Num Int1)"
proof -
  have "c \<noteq> CHR ''0''"
    using assms by (auto simp: char_codes)
  with assms digit_facts[OF digit1_digit[OF assms]] show ?thesis
    by (intro beginsI) (simp_all add: stateBeginValue_def)
qed


lemma ascii_last: "l \<noteq> [] \<Longrightarrow> list_all ascii l \<Longrightarrow> ascii (last l)"
  by (induction l) auto

lemma digits_ascii: "list_all isDigit ds \<Longrightarrow> list_all ascii ds"
  using digit_facts by (auto simp: list_all_iff)

lemma number_parts_ascii:
  "int_part ip \<Longrightarrow> list_all ascii ip \<and> ip \<noteq> []" "frac_part fp \<Longrightarrow> list_all ascii fp" "exp_part ep \<Longrightarrow> list_all ascii ep"
  by (auto simp: int_part_def frac_part_def exp_part_def digits_def dest!: digits_ascii digit1_digit dest: digit_facts)

lemma number_scans:
  assumes "number_text l"
  shows "scans l"
proof -
  obtain sg ip fp ep where l: "l = sg @ ip @ fp @ ep" "sg = [] \<or> sg = ''-''" "int_part ip" "frac_part fp" "exp_part ep"
    using assms by (auto simp: number_text_def)
  obtain d ds q where ip: "ip = d # ds" "begins d (Num q)" "steps_to (Num Sign) d (Num q)" "q \<in> {Int0, Int1}"
    "conts (Num q) ds (Num q)" "d \<notin> set ''{}[](),:''" "\<not> isSpace d"
  proof -
    consider "ip = ''0''" | d ds where "ip = d # ds" "isDigit1 d" "list_all isDigit ds"
      using l(3) by (auto simp: int_part_def)
    then show ?thesis
    proof cases
      case 1
      then show ?thesis
        using that[of "CHR ''0''" "[]" Int0] by (auto simp: begins_simps steps_to_def stateSign_def isSpace_def intro: conts.intros)
    next
      case 2
      have "d \<noteq> CHR ''0''"
        using 2(2) by (auto simp: char_codes)
      with 2 digit_facts[OF digit1_digit[OF 2(2)]] show ?thesis
        using that[of d ds Int1] begins_digit[OF 2(2)] conts_digits[of ds Int1]
        by (simp add: steps_to_def stateSign_def)
    qed
  qed
  obtain q' where q': "conts (Num q) (fp @ ep) (Num q')" "Num q' \<in> ending"
    using frac_exp_conts[OF l(4,5) ip(4)] by blast
  have c: "conts (Num q) (ds @ fp @ ep) (Num q')"
    using ip(5) q'(1) by (rule conts_append)
  have "list_all ascii l \<and> l \<noteq> []"
    using l number_parts_ascii by auto
  then have "ascii (last l)"
    using ascii_last by blast
  show ?thesis
  proof (cases "sg = []")
    case True
    with l(1) ip(1) have "l = d # ds @ fp @ ep"
      by simp
    with \<open>ascii (last l)\<close> show ?thesis
      using scansI[OF _ ip(2) c q'(2)] ip(6,7) by (simp add: literal_ends_def)
  next
    case False
    with l(1,2) ip(1) have "l = CHR ''-'' # d # ds @ fp @ ep"
      by simp
    with \<open>ascii (last l)\<close> show ?thesis
      using scansI[OF _ begins_simps(3) conts_Cons[OF ip(3) c] q'(2)] by (simp add: literal_ends_def isSpace_def)
  qed
qed

text \<open>The states inside a string that is quoted by \<open>q\<close>.\<close>

definition inside :: "char \<Rightarrow> nat \<Rightarrow> scanState" where
  "inside q i = Txt
     (if q = CHR 0x22
      then [InString, InStringEsc, InStringEscU, InStringEscU1, InStringEscU12, InStringEscU123] ! i
      else [InSingleQuotedString, InSingleQuotedStringEsc, InSingleQuotedStringEscU, InSingleQuotedStringEscU1,
            InSingleQuotedStringEscU12, InSingleQuotedStringEscU123] ! i)"

lemmas string_defs = stateInString_def stateInStringEsc_def stateInStringEscU_def stateInStringEscU1_def
  stateInStringEscU12_def stateInStringEscU123_def stateInSingleQuotedString_def stateInSingleQuotedStringEsc_def
  stateInSingleQuotedStringEscU_def stateInSingleQuotedStringEscU1_def stateInSingleQuotedStringEscU12_def
  stateInSingleQuotedStringEscU123_def

lemma string_steps:
  assumes "q \<in> {CHR 0x22, CHR 0x27}"
  shows "steps_to (inside q 0) q EndValue"
    "c \<noteq> q \<Longrightarrow> c \<noteq> CHR 0x5C \<Longrightarrow> 0x20 \<le> (of_char c :: nat) \<Longrightarrow> steps_to (inside q 0) c (inside q 0)"
    "steps_to (inside q 0) (CHR 0x5C) (inside q 1)"
    "c \<in> set (q # CHR 0x5C # ''/bfnrt'') \<Longrightarrow> steps_to (inside q 1) c (inside q 0)"
    "steps_to (inside q 1) (CHR ''u'') (inside q 2)"
    "isHex c \<Longrightarrow> steps_to (inside q 2) c (inside q 3)" "isHex c \<Longrightarrow> steps_to (inside q 3) c (inside q 4)"
    "isHex c \<Longrightarrow> steps_to (inside q 4) c (inside q 5)" "isHex c \<Longrightarrow> steps_to (inside q 5) c (inside q 0)"
  using assms by (auto simp: inside_def steps_to_def string_defs isControl_def)

lemma string_conts:
  assumes "string_rest q r" "q \<in> {CHR 0x22, CHR 0x27}"
  shows "conts (inside q 0) r EndValue \<and> r \<noteq> [] \<and> ascii (last r)"
  using assms(1)
proof induction
  note step = string_steps[OF assms(2)]
  case string_end
  show ?case
    using assms(2) step(1) by (auto intro: conts.intros)
next
  note step = string_steps[OF assms(2)]
  case (string_char l c)
  then show ?case
    using step(2)[of c] by (auto intro: conts.intros)
next
  note step = string_steps[OF assms(2)]
  case (string_escape l c)
  then show ?case
    using step(3) step(4)[of c] by (auto intro!: conts_Cons)
next
  note step = string_steps[OF assms(2)]
  case (string_unicode l a b c d)
  then show ?case
    using step(3,5) step(6)[of a] step(7)[of b] step(8)[of c] step(9)[of d] by (auto intro!: conts_Cons)
qed

lemma string_scans:
  assumes "string_text l"
  shows "scans l"
proof -
  obtain q r where l: "l = q # r" "string_rest q r" "q \<in> {CHR 0x22, CHR 0x27}"
    using assms unfolding string_text_def by blast
  have "begins q (inside q 0)"
    using begins_simps(1,2) l(3) by (auto simp: inside_def)
  then show ?thesis
    using string_conts[OF l(2,3)] l(1,3)
    by (auto simp: literal_ends_def isSpace_def ending_def intro!: scansI)
qed

lemma generated_word_step:
  "steps_to (Generate n (c # d # x) a) c (Generate n (d # x) a)" "steps_to (Generate n [c] a) c a"
  by (simp_all add: steps_to_def stateGenerated_def generateState_def)

lemma generate_conts: "x \<noteq> [] \<Longrightarrow> conts (Generate n x a) x a"
  by (induction x rule: induct_list012) (simp_all add: generated_word_step conts_Nil conts_Cons[OF generated_word_step(2)] conts_Cons[OF generated_word_step(1)])

lemma word_steps:
  "steps_to (Wrd LitT) (CHR ''r'') (Wrd LitTr)" "steps_to (Wrd LitTr) (CHR ''u'') (Wrd LitTru)" "steps_to (Wrd LitTru) (CHR ''e'') EndValue"
  "steps_to (Wrd LitF) (CHR ''a'') (Wrd LitFa)" "steps_to (Wrd LitFa) (CHR ''l'') (Wrd LitFal)"
  "steps_to (Wrd LitFal) (CHR ''s'') (Wrd LitFals)" "steps_to (Wrd LitFals) (CHR ''e'') EndValue"
  "steps_to (Wrd LitN) (CHR ''u'') (Wrd LitNu)" "steps_to (Wrd LitNu) (CHR ''l'') (Wrd LitNul)" "steps_to (Wrd LitNul) (CHR ''l'') EndValue"
  by (simp_all add: steps_to_def word_defs)

lemma ext_steps:
  "steps_to (Ext LitB) (CHR ''i'') (Ext LitBi)" "steps_to (Ext LitB) (CHR ''o'') (Ext LitBo)"
  "steps_to (Ext LitD) (CHR ''a'') (Ext LitDa)" "steps_to (Ext LitDa) (CHR ''t'') (Ext LitDat)" "steps_to (Ext LitDat) (CHR ''e'') Constructor"
  "steps_to (Ext LitD) (CHR ''B'') (Ext LitDB)" "steps_to (Ext LitD) (CHR ''b'') (Ext LitDb)"
  "steps_to (Ext LitDB) (CHR ''R'') (Ext LitDBR)" "steps_to (Ext LitDB) (CHR ''P'') (Ext LitDBP)"
  "steps_to (Ext LitI) (CHR ''n'') (Ext LitIn)" "steps_to (Ext LitI) (CHR ''S'') (Ext LitIS)"
  "steps_to (Ext LitIS) (CHR ''O'') (Ext LitISO)" "steps_to (Ext LitISO) (CHR ''D'') (Ext LitD)"
  "steps_to (Ext UpperN) (CHR ''a'') (Ext UpperNa)" "steps_to (Ext UpperNa) (CHR ''N'') EndValue" "steps_to (Ext UpperN) (CHR ''u'') (Ext UpperNu)"
  by (simp_all add: steps_to_def ext_defs)

lemma generated_steps:
  "steps_to (Ext LitBi) (CHR ''n'') (Generate ''BinData'' ''Data'' Constructor)"
  "steps_to (Ext LitBo) (CHR ''o'') (Generate ''Boolean'' ''lean'' Constructor)"
  "steps_to (Ext LitDBR) (CHR ''e'') (Generate ''DBRef'' ''f'' Constructor)"
  "steps_to (Ext LitDBP) (CHR ''o'') (Generate ''DBPointer'' ''inter'' Constructor)"
  "steps_to (Ext LitDb) (CHR ''r'') (Generate ''Dbref'' ''ef'' Constructor)"
  "steps_to (Ext LitIn) (CHR ''f'') (Generate ''Infinity'' ''inity'' EndValue)"
  "steps_to (Ext LitU) (CHR ''n'') (Generate ''undefined'' ''defined'' EndValue)"
  "steps_to (Ext UpperNu) (CHR ''m'') (Generate ''Number'' ''ber'' (Ext UpperNumber))"
  "steps_to (Ext UpperNumber) (CHR ''I'') (Generate ''NumberInt'' ''nt'' Constructor)"
  "steps_to (Ext UpperNumber) (CHR ''L'') (Generate ''NumberLong'' ''ong'' Constructor)"
  "steps_to (Ext LitOb) (CHR ''b'') (Generate ''ObjectId'' ''jectId'' Constructor)"
  "steps_to (Ext LitR) (CHR ''e'') (Generate ''RegExp'' ''gExp'' Constructor)"
  "steps_to (Ext UpperT) (CHR ''i'') (Generate ''Timestamp'' ''mestamp'' Constructor)"
  by (simp_all add: steps_to_def ext_defs generateState_def)

lemmas conts_step = word_steps[THEN conts_Cons] ext_steps[THEN conts_Cons] generated_steps[THEN conts_Cons]

lemma name_conts:
  "conts (Ext LitB) ''inData'' Constructor" "conts (Ext LitB) ''oolean'' Constructor" "conts (Ext LitD) ''ate'' Constructor"
  "conts (Ext LitD) ''BRef'' Constructor" "conts (Ext LitD) ''BPointer'' Constructor" "conts (Ext LitD) ''bref'' Constructor"
  "conts (Ext LitI) ''SODate'' Constructor" "conts (Ext LitOb) ''bjectId'' Constructor" "conts (Ext LitR) ''egExp'' Constructor"
  "conts (Ext UpperT) ''imestamp'' Constructor" "conts (Ext UpperN) ''aN'' EndValue" "conts (Ext LitI) ''nfinity'' EndValue"
  "conts (Ext LitU) ''ndefined'' EndValue" "conts (Wrd LitT) ''rue'' EndValue" "conts (Wrd LitF) ''alse'' EndValue"
  "conts (Wrd LitN) ''ull'' EndValue"
  by (rule conts_step generate_conts conts_Nil list.distinct)+

lemma number_name_conts: "conts (Ext UpperN) ''umberInt'' Constructor" "conts (Ext UpperN) ''umberLong'' Constructor"
proof -
  have a: "conts (Ext UpperN) (''um'' @ ''ber'') (Ext UpperNumber)"
    by (simp, rule conts_step, rule conts_step, rule generate_conts) simp
  have "conts (Ext UpperNumber) ''Int'' Constructor" "conts (Ext UpperNumber) ''Long'' Constructor"
    by (rule conts_step generate_conts conts_Nil list.distinct)+
  with conts_append[OF a] show "conts (Ext UpperN) ''umberInt'' Constructor" "conts (Ext UpperN) ''umberLong'' Constructor"
    by fastforce+
qed

lemma word_scans: "l \<in> {''true'', ''false'', ''null'', ''undefined'', ''NaN'', ''Infinity''} \<Longrightarrow> scans l"
  unfolding insert_iff empty_iff
  by (elim disjE FalseE; hypsubst; rule scansI, simp add: literal_ends_def isSpace_def, rule begins_simps, rule name_conts,
      simp add: ending_def)

lemma literal_scans: "literal_text l \<Longrightarrow> scans l"
  unfolding literal_text_def by (elim disjE) (fact string_scans number_scans word_scans)+

lemma ctor_scans: "ctor_text n \<Longrightarrow> literal_ends n \<and> (\<exists>q. begins (hd n) q \<and> conts q (tl n) Constructor)"
  unfolding ctor_text_def insert_iff empty_iff
  by (elim disjE FalseE; hypsubst; rule conjI, simp add: literal_ends_def isSpace_def, unfold list.sel, rule exI, rule conjI,
      rule begins_simps, rule name_conts number_name_conts)

end
