(* ===== verification/Json_Runs.thy ===== *)
theory Json_Runs
  imports Json_Literals
begin

text \<open>
  The scanner over the tokens of a value: every blank, comma, colon and bracket is reported with its code, every
  literal from its first to its last byte, and the stack is at the end as it was at the beginning (\<open>tokens_run\<close>).
\<close>

subsection \<open>Runs of the scanner over tokens\<close>

text \<open>Some users of the scanner count the bytes before each step (\<open>k\<close> is 1), others do not (0).\<close>

definition tick :: "int \<Rightarrow> scanner \<Rightarrow> scanner" where
  "tick k s = s\<lparr>sbytes := sbytes s + k\<rparr>"

lemma tick_simps [simp]:
  "step (tick k s) = step s" "parse (tick k s) = parse s" "endTop (tick k s) = endTop s" "serr (tick k s) = serr s"
  "tick 0 s = s"
  by (simp_all add: tick_def)

primrec cont :: "int \<Rightarrow> string \<Rightarrow> scanner \<Rightarrow> scanner \<Rightarrow> bool" where
  "cont k [] s s' \<longleftrightarrow> s = s'"
| "cont k (c # cs) s s' \<longleftrightarrow> (\<exists>s1. scan_step c (tick k s) = Inr (scanContinue, s1) \<and> cont k cs s1 s')"

definition punct_code :: "scanCode \<Rightarrow> char \<Rightarrow> bool" where
  "punct_code v c \<longleftrightarrow>
     (v, c) \<in> {(scanBeginObject, CHR ''{''), (scanObjectKey, CHR '':''), (scanObjectValue, CHR '',''), (scanEndObject, CHR ''}''),
       (scanBeginArray, CHR ''[''), (scanArrayValue, CHR '',''), (scanEndArray, CHR '']''),
       (scanBeginCtor, CHR ''(''), (scanCtorArg, CHR '',''), (scanEndCtor, CHR '')'')}"

fun token_run :: "int \<Rightarrow> token \<Rightarrow> scanner \<Rightarrow> scanner \<Rightarrow> bool" where
  "token_run k (Blank c) s s' \<longleftrightarrow> scan_step c (tick k s) = Inr (scanSkipSpace, s') \<and> isSpace c"
| "token_run k (Punct c) s s' \<longleftrightarrow> (\<exists>v. scan_step c (tick k s) = Inr (v, s') \<and> punct_code v c)"
| "token_run k (Literal l) s s' \<longleftrightarrow>
     (\<exists>s1. literal_ends l \<and> scan_step (hd l) (tick k s) = Inr (scanBeginLiteral, s1) \<and> cont k (tl l) s1 s')"

primrec run :: "int \<Rightarrow> token list \<Rightarrow> scanner \<Rightarrow> scanner \<Rightarrow> bool" where
  "run k [] s s' \<longleftrightarrow> s = s'"
| "run k (t # ts) s s' \<longleftrightarrow> (\<exists>s1. token_run k t s s1 \<and> run k ts s1 s')"

lemma run_append [simp]: "run k (ts @ us) s s' \<longleftrightarrow> (\<exists>s1. run k ts s s1 \<and> run k us s1 s')"
  by (induction ts arbitrary: s) auto

text \<open>\<open>leads_to P ts Q\<close>: from a state of \<open>P\<close> the tokens lead to a state of \<open>Q\<close>.\<close>

definition leads_to :: "int \<Rightarrow> (scanner \<Rightarrow> bool) \<Rightarrow> token list \<Rightarrow> (scanner \<Rightarrow> bool) \<Rightarrow> bool" where
  "leads_to k P ts Q \<longleftrightarrow> (\<forall>s. P s \<longrightarrow> (\<exists>s'. run k ts s s' \<and> Q s'))"

lemma leads_to_Nil: "leads_to k P [] P"
  by (simp add: leads_to_def)

lemma leads_to_append: "leads_to k P ts Q \<Longrightarrow> leads_to k Q us R \<Longrightarrow> leads_to k P (ts @ us) R"
  unfolding leads_to_def run_append by blast

lemma leads_to_Cons: "leads_to k P [t] Q \<Longrightarrow> leads_to k Q us R \<Longrightarrow> leads_to k P (t # us) R"
  using leads_to_append[of k P "[t]" Q us R] by simp

lemma leads_to_weaken: "leads_to k P ts Q \<Longrightarrow> (\<And>s. P' s \<Longrightarrow> P s) \<Longrightarrow> (\<And>s. Q s \<Longrightarrow> Q' s) \<Longrightarrow> leads_to k P' ts Q'"
  unfolding leads_to_def by blast

lemma leads_to_punct:
  assumes "\<And>s. P s \<Longrightarrow> \<exists>s'. scan_step c s = Inr (v, s') \<and> Q s'" "\<And>s. P s \<Longrightarrow> P (tick k s)" "punct_code v c"
  shows "leads_to k P [Punct c] Q"
  using assms unfolding leads_to_def by fastforce

lemma leads_to_blanks:
  assumes "blanks b" "\<And>c s. P s \<Longrightarrow> isSpace c \<Longrightarrow> \<exists>s'. scan_step c s = Inr (scanSkipSpace, s') \<and> P s'"
    "\<And>s. P s \<Longrightarrow> P (tick k s)"
  shows "leads_to k P b P"
  using assms(1)
proof (induction b)
  case (Cons t b)
  then obtain c where t: "t = Blank c" "isSpace c"
    by (auto simp: blanks_def)
  have "leads_to k P [t] P"
    using assms(2,3) t unfolding leads_to_def by fastforce
  with Cons show ?case
    by (auto simp: blanks_def intro: leads_to_Cons)
qed (rule leads_to_Nil)

text \<open>Between tokens.\<close>

definition mid :: "scanState set \<Rightarrow> parseState list \<Rightarrow> scanner \<Rightarrow> bool" where
  "mid qs ps s \<longleftrightarrow> step s \<in> qs \<and> parse s = ps \<and> \<not> endTop s \<and> serr s = None"

definition after :: "parseState list \<Rightarrow> scanner \<Rightarrow> bool" where
  "after ps s \<longleftrightarrow> mid ending ps s \<or> ps = [] \<and> parse s = [] \<and> step s = EndTop \<and> endTop s \<and> serr s = None"

abbreviation before :: "parseState list \<Rightarrow> scanner \<Rightarrow> bool" where
  "before ps \<equiv> mid starts ps"

abbreviation before_key :: "parseState list \<Rightarrow> scanner \<Rightarrow> bool" where
  "before_key ps \<equiv> mid {BeginString, BeginStringOrEmpty} (parseObjectKey # ps)"

lemma mid_tick [simp]: "mid qs ps (tick k s) = mid qs ps s"
  by (simp add: mid_def)

lemma after_tick [simp]: "after ps (tick k s) = after ps s"
  by (simp add: after_def)

definition delim :: "char \<Rightarrow> bool" where
  "delim c \<longleftrightarrow> isSpace c \<or> c \<in> set '',:}])''"

lemma ending_step: "step s \<in> ending \<Longrightarrow> delim c \<Longrightarrow> scan_step c s = stateEndValue c s"
  by (auto simp: ending_def delim_def scan_step_def char_codes stateInUnquotedString_def state1_def state0_def
      stateDot0_def stateE0_def)

lemma after_nested: "after (p # ps) s \<longleftrightarrow> mid ending (p # ps) s"
  by (simp add: after_def)

lemma after_step: "after (p # ps) s \<Longrightarrow> delim c \<Longrightarrow> scan_step c s = stateEndValue c s \<and> mid ending (p # ps) s"
  by (auto simp: after_nested ending_step mid_def)

subsection \<open>Blanks and punctuation\<close>

lemma blanks_before: "blanks b \<Longrightarrow> qs \<subseteq> starts \<Longrightarrow> leads_to k (mid qs ps) b (mid qs ps)"
  by (erule leads_to_blanks)
     (auto simp: mid_def starts_def scan_step_def stateBeginValue_def stateBeginValueOrEmpty_def stateBeginCtorOrEmpty_def)

lemma blanks_key: "blanks b \<Longrightarrow> qs \<subseteq> {BeginString, BeginStringOrEmpty} \<Longrightarrow> leads_to k (mid qs ps) b (mid qs ps)"
  by (erule leads_to_blanks)
     (auto simp: mid_def scan_step_def stateBeginString_def stateBeginStringOrEmpty_def)

lemma blanks_ctor: "blanks b \<Longrightarrow> leads_to k (mid {Constructor} ps) b (mid {Constructor} ps)"
  by (erule leads_to_blanks) (auto simp: mid_def scan_step_def stateConstructor_def)

lemma blanks_after: "blanks b \<Longrightarrow> leads_to k (after (p # ps)) b (after (p # ps))"
proof (erule leads_to_blanks)
  fix c s assume "after (p # ps) s" "isSpace c"
  then show "\<exists>s'. scan_step c s = Inr (scanSkipSpace, s') \<and> after (p # ps) s'"
    using after_step[of p ps s c]
    by (auto simp: delim_def stateEndValue_def mid_def after_nested ending_def)
qed simp

lemma pop_after:
  "mid qs (p # ps) s \<Longrightarrow> \<exists>s'. rbind (popParseState s) (\<lambda>s. Inr (v, s)) = Inr (v, s') \<and> after ps s'"
  by (auto simp: popParseState_def Let_def mid_def after_def ending_def)

lemma open_bracket:
  "leads_to k (before ps) [Punct (CHR ''['')] (mid {BeginValueOrEmpty} (parseArrayValue # ps))"
  "leads_to k (before ps) [Punct (CHR ''{'')] (mid {BeginStringOrEmpty} (parseObjectKey # ps))"
  "leads_to k (mid {Constructor} ps) [Punct (CHR ''('')] (mid {BeginCtorOrEmpty} (parseCtorArg # ps))"
    apply (rule leads_to_punct[where v=scanBeginArray])
      apply (auto simp: mid_def starts_def scan_step_def stateBeginValueOrEmpty_def stateBeginCtorOrEmpty_def
        stateBeginValue_def pushParseState_def isSpace_def punct_code_def)[3]
   apply (rule leads_to_punct[where v=scanBeginObject])
     apply (auto simp: mid_def starts_def scan_step_def stateBeginValueOrEmpty_def stateBeginCtorOrEmpty_def
      stateBeginValue_def pushParseState_def isSpace_def punct_code_def)[3]
  apply (rule leads_to_punct[where v=scanBeginCtor])
    apply (auto simp: mid_def scan_step_def stateConstructor_def pushParseState_def isSpace_def punct_code_def)
  done

lemma separators:
  "leads_to k (after (parseArrayValue # ps)) [Punct (CHR '','')] (mid {BeginValue} (parseArrayValue # ps))"
  "leads_to k (after (parseCtorArg # ps)) [Punct (CHR '','')] (mid {BeginValue} (parseCtorArg # ps))"
  "leads_to k (after (parseObjectValue # ps)) [Punct (CHR '','')] (mid {BeginString} (parseObjectKey # ps))"
  "leads_to k (after (parseObjectKey # ps)) [Punct (CHR '':'')] (mid {BeginValue} (parseObjectValue # ps))"
     apply (rule leads_to_punct[where v=scanArrayValue], drule after_step[where c="CHR '',''"])
        apply (auto simp: delim_def stateEndValue_def mid_def isSpace_def punct_code_def)[4]
    apply (rule leads_to_punct[where v=scanCtorArg], drule after_step[where c="CHR '',''"])
       apply (auto simp: delim_def stateEndValue_def mid_def isSpace_def punct_code_def)[4]
   apply (rule leads_to_punct[where v=scanObjectValue], drule after_step[where c="CHR '',''"])
      apply (auto simp: delim_def stateEndValue_def mid_def isSpace_def punct_code_def)[4]
  apply (rule leads_to_punct[where v=scanObjectKey], drule after_step[where c="CHR '':''"])
     apply (auto simp: delim_def stateEndValue_def mid_def isSpace_def punct_code_def)
  done

text \<open>What closes a bracket, after the last element or at once.\<close>

definition closes :: "parseState \<Rightarrow> char \<Rightarrow> scanCode \<Rightarrow> bool" where
  "closes p c v \<longleftrightarrow> (p, c, v) \<in> {(parseArrayValue, CHR '']'', scanEndArray), (parseObjectValue, CHR ''}'', scanEndObject),
     (parseCtorArg, CHR '')'', scanEndCtor)}"

lemma EndValue_closes:
  assumes "closes p c v" "mid qs (p # ps) s"
  shows "\<exists>s'. stateEndValue c s = Inr (v, s') \<and> after ps s'"
  using pop_after[OF assms(2), of v] assms by (auto simp: closes_def stateEndValue_def mid_def isSpace_def)

lemma closes_delim: "closes p c v \<Longrightarrow> delim c \<and> punct_code v c"
  by (auto simp: closes_def delim_def punct_code_def)

lemma close_bracket:
  assumes "closes p c v"
  shows "leads_to k (after (p # ps)) [Punct c] (after ps)"
  using closes_delim[OF assms] after_step EndValue_closes[OF assms]
  by (intro leads_to_punct[where v=v]) (metis, simp_all)

lemma close_empty:
  "leads_to k (mid {BeginValueOrEmpty} (parseArrayValue # ps)) [Punct (CHR '']'')] (after ps)"
  "leads_to k (mid {BeginCtorOrEmpty} (parseCtorArg # ps)) [Punct (CHR '')'')] (after ps)"
  "leads_to k (mid {BeginStringOrEmpty} (parseObjectKey # ps)) [Punct (CHR ''}'')] (after ps)"
proof -
  have a: "\<exists>s'. scan_step (CHR '']'') s = Inr (scanEndArray, s') \<and> after ps s'"
    if "mid {BeginValueOrEmpty} (parseArrayValue # ps) s" for s
    using EndValue_closes[OF _ that, of "CHR '']''" scanEndArray] that
    by (simp add: closes_def scan_step_def mid_def stateBeginValueOrEmpty_def isSpace_def)
  have c: "\<exists>s'. scan_step (CHR '')'') s = Inr (scanEndCtor, s') \<and> after ps s'"
    if "mid {BeginCtorOrEmpty} (parseCtorArg # ps) s" for s
    using EndValue_closes[OF _ that, of "CHR '')''" scanEndCtor] that
    by (simp add: closes_def scan_step_def mid_def stateBeginCtorOrEmpty_def isSpace_def)
  have o: "\<exists>s'. scan_step (CHR ''}'') s = Inr (scanEndObject, s') \<and> after ps s'"
    if "mid {BeginStringOrEmpty} (parseObjectKey # ps) s" for s
  proof -
    have "mid {BeginStringOrEmpty} (parseObjectValue # ps) (s\<lparr>parse := parseObjectValue # ps\<rparr>)"
      using that by (simp add: mid_def)
    from EndValue_closes[OF _ this, of "CHR ''}''" scanEndObject] show ?thesis
      using that by (simp add: closes_def scan_step_def mid_def stateBeginStringOrEmpty_def isSpace_def)
  qed
  show "leads_to k (mid {BeginValueOrEmpty} (parseArrayValue # ps)) [Punct (CHR '']'')] (after ps)"
    using a by (rule leads_to_punct) (simp_all add: punct_code_def)
  show "leads_to k (mid {BeginCtorOrEmpty} (parseCtorArg # ps)) [Punct (CHR '')'')] (after ps)"
    using c by (rule leads_to_punct) (simp_all add: punct_code_def)
  show "leads_to k (mid {BeginStringOrEmpty} (parseObjectKey # ps)) [Punct (CHR ''}'')] (after ps)"
    using o by (rule leads_to_punct) (simp_all add: punct_code_def)
qed

subsection \<open>Literals, keys and names\<close>

lemma conts_cont: "conts q cs q' \<Longrightarrow> mid {q} ps s \<Longrightarrow> \<exists>s'. cont k cs s s' \<and> mid {q'} ps s'"
proof (induction arbitrary: s rule: conts.induct)
  case (conts_Cons q c q1 cs q')
  have "scan_step c (tick k s) = Inr (scanContinue, (tick k s)\<lparr>step := q1\<rparr>)"
    using conts_Cons(1,4) by (simp add: scan_step_def steps_to_def mid_def)
  moreover have "mid {q1} ps ((tick k s)\<lparr>step := q1\<rparr>)"
    using conts_Cons(4) by (simp add: mid_def)
  ultimately show ?case
    using conts_Cons.IH by fastforce
qed auto

lemma literal_leads:
  assumes "literal_ends l" "conts q (tl l) q'"
    and "\<And>s. step s \<in> qs \<Longrightarrow> runState (step s) (hd l) s = Inr (scanBeginLiteral, s\<lparr>step := q\<rparr>)"
  shows "leads_to k (mid qs ps) [Literal l] (mid {q'} ps)"
  unfolding leads_to_def
proof (intro allI impI)
  fix s assume s: "mid qs ps s"
  let ?s = "(tick k s)\<lparr>step := q\<rparr>"
  have "scan_step (hd l) (tick k s) = Inr (scanBeginLiteral, ?s)"
    using assms(3)[of "tick k s"] s by (simp add: scan_step_def mid_def)
  moreover have "mid {q} ps ?s"
    using s by (simp add: mid_def)
  ultimately show "\<exists>s'. run k [Literal l] s s' \<and> mid {q'} ps s'"
    using conts_cont[OF assms(2), of ps ?s k] assms(1) by auto
qed

lemma literal_run: "literal_text l \<Longrightarrow> leads_to k (before ps) [Literal l] (after ps)"
  using literal_scans[of l] literal_leads[of l _ _ starts k ps]
  by (fastforce simp: scans_def begins_def after_def mid_def intro: leads_to_weaken)

lemma ctor_run: "ctor_text l \<Longrightarrow> leads_to k (before ps) [Literal l] (mid {Constructor} ps)"
  using ctor_scans[of l] literal_leads[of l _ _ starts k ps] by (fastforce simp: begins_def)

lemma name_begin:
  assumes "isBeginUnquotedString c"
  shows "c \<notin> set (CHR 0x22 # CHR 0x27 # ''{}[](),:'')" "\<not> isSpace c" "ascii c"
  using assms unfolding isBeginUnquotedString_def by (elim disjE; force simp: isSpace_def char_le_code)+

lemma name_scans:
  assumes "isBeginUnquotedString c" "list_all isInUnquotedString cs"
  shows "literal_ends (c # cs)" "conts (Txt InUnquotedString) cs (Txt InUnquotedString)"
proof -
  have "ascii x" if "isInUnquotedString x" for x
    using that name_begin(3) digit_facts by (auto simp: isInUnquotedString_def)
  then have "list_all ascii (c # cs)"
    using assms name_begin(3) by (simp add: list_all_iff)
  then have "ascii (last (c # cs))"
    using ascii_last by blast
  with name_begin(1,2)[OF assms(1)] show "literal_ends (c # cs)"
    by (simp add: literal_ends_def)
  show "conts (Txt InUnquotedString) cs (Txt InUnquotedString)"
    using assms(2) by (rule conts_stay) (simp add: steps_to_def stateInUnquotedString_def)
qed

lemma key_run:
  assumes "key_text l"
  shows "leads_to k (before_key ps) [Literal l] (after (parseObjectKey # ps))"
proof -
  let ?Q = "\<lambda>q. \<forall>s. step s \<in> {BeginString, BeginStringOrEmpty} \<longrightarrow> runState (step s) (hd l) s = Inr (scanBeginLiteral, s\<lparr>step := q\<rparr>)"
  obtain q q' where q: "literal_ends l" "conts q (tl l) q'" "q' \<in> ending" "?Q q"
  proof (cases "string_text l")
    case True
    then obtain c r where l: "l = c # r" "string_rest c r" "c \<in> {CHR 0x22, CHR 0x27}"
      unfolding string_text_def by blast
    have "?Q (inside c 0)"
      using l by (auto simp: inside_def stateBeginString_def stateBeginStringOrEmpty_def isSpace_def)
    moreover have "literal_ends l"
      using string_scans[OF True] by (simp add: scans_def)
    ultimately show ?thesis
      using string_conts[OF l(2,3)] l(1) that[of "inside c 0" EndValue] by (simp add: ending_def)
  next
    case False
    then obtain c cs where l: "l = c # cs" "isBeginUnquotedString c" "list_all isInUnquotedString cs"
      using assms by (auto simp: key_text_def)
    have "?Q (Txt InUnquotedString)"
      using l(1,2) name_begin[OF l(2)] by (auto simp: stateBeginString_def stateBeginStringOrEmpty_def)
    then show ?thesis
      using name_scans[OF l(2,3)] l(1) that[of "Txt InUnquotedString" "Txt InUnquotedString"] by (simp add: ending_def)
  qed
  have "leads_to k (before_key ps) [Literal l] (mid {q'} (parseObjectKey # ps))"
    by (rule literal_leads[OF q(1,2)]) (use q(4) in blast)
  then show ?thesis
    by (rule leads_to_weaken) (use q(3) in \<open>auto simp: after_nested mid_def\<close>)
qed

subsection \<open>Values\<close>

lemma before_sub: "qs \<subseteq> starts \<Longrightarrow> mid qs ps s \<Longrightarrow> before ps s"
  by (auto simp: mid_def)

lemma starts_sub: "{BeginValue} \<subseteq> starts" "{BeginValueOrEmpty} \<subseteq> starts" "{BeginCtorOrEmpty} \<subseteq> starts" "starts \<subseteq> starts"
  by (simp_all add: starts_def)

lemma from_start: "leads_to k (before ps) ts Q \<Longrightarrow> qs \<subseteq> starts \<Longrightarrow> leads_to k (mid qs ps) ts Q"
  by (erule leads_to_weaken) (simp_all add: before_sub)

lemma from_key: "leads_to k (before_key ps) ts Q \<Longrightarrow> q \<in> {BeginString, BeginStringOrEmpty} \<Longrightarrow> leads_to k (mid {q} (parseObjectKey # ps)) ts Q"
  by (erule leads_to_weaken) (auto simp: mid_def)

lemma tokens_run:
  "value_tokens j ts \<Longrightarrow> (\<forall>ps. leads_to k (before ps) ts (after ps))"
  "list_tokens js ts \<Longrightarrow> (\<forall>ps p. p \<in> {parseArrayValue, parseCtorArg} \<longrightarrow> leads_to k (before (p # ps)) ts (after (p # ps)))"
  "member_tokens ms ts \<Longrightarrow> (\<forall>ps. leads_to k (before_key ps) ts (after (parseObjectValue # ps)))"
proof (induction rule: value_tokens_list_tokens_member_tokens.inducts)
  case (lit l)
  then show ?case by (simp add: literal_run)
next
  case (arr_empty b)
  show ?case
    by (intro allI leads_to_Cons[OF open_bracket(1)] leads_to_append[OF blanks_before[OF arr_empty] close_empty(1)])
      (simp add: starts_def)
next
  case (arr x xs ts)
  then show ?case
    by (intro allI leads_to_Cons[OF open_bracket(1)] leads_to_append[OF from_start close_bracket])
      (auto simp: starts_def closes_def)
next
  case (obj_empty b)
  show ?case
    by (intro allI leads_to_Cons[OF open_bracket(2)] leads_to_append[OF blanks_key[OF obj_empty] close_empty(3)]) simp
next
  case (obj m ms ts)
  then show ?case
    by (intro allI leads_to_Cons[OF open_bracket(2)] leads_to_append[OF from_key close_bracket]) (auto simp: closes_def)
next
  case (ctor_empty n a b)
  show ?case
    by (intro allI leads_to_Cons[OF ctor_run[OF ctor_empty(1)]] leads_to_append[OF blanks_ctor[OF ctor_empty(2)]]
        leads_to_Cons[OF open_bracket(3)] leads_to_append[OF blanks_before[OF ctor_empty(3)] close_empty(2)])
      (simp add: starts_def)
next
  case (ctor n a x xs ts)
  then show ?case
    by (intro allI leads_to_Cons[OF ctor_run[OF ctor(1)]] leads_to_append[OF blanks_ctor[OF ctor(2)]]
        leads_to_Cons[OF open_bracket(3)] leads_to_append[OF from_start close_bracket])
      (auto simp: starts_def closes_def)
next
  case (one a x ts b)
  then show ?case
    by (intro allI impI leads_to_append[OF blanks_before[OF one(1) starts_sub(4)]] leads_to_append[OF _ blanks_after[OF one(3)]])
      simp
next
  case (more a x ts b y ys us)
  show ?case
  proof (intro allI impI)
    fix ps p assume p: "p \<in> {parseArrayValue, parseCtorArg}"
    then have "leads_to k (after (p # ps)) [Punct (CHR '','')] (mid {BeginValue} (p # ps))"
      using separators(1,2) by auto
    then show "leads_to k (before (p # ps)) (a @ ts @ b @ Punct (CHR '','') # us) (after (p # ps))"
      using more p
      by (intro leads_to_append[OF blanks_before[OF more(1) starts_sub(4)]] leads_to_append[OF _ leads_to_append[OF blanks_after[OF more(3)] leads_to_Cons]])
        (auto intro: from_start simp: starts_def)
  qed
next
  case (one_member a k' b c x ts d)
  then show ?case
    by (intro allI leads_to_append[OF blanks_key[OF one_member(1)]] leads_to_Cons[OF key_run[OF one_member(2)]]
        leads_to_append[OF blanks_after[OF one_member(3)]] leads_to_Cons[OF separators(4)]
        leads_to_append[OF blanks_before[OF one_member(4) starts_sub(1)]] leads_to_append[OF from_start blanks_after[OF one_member(6)]])
      (simp_all add: starts_def)
next
  case (more_members a k' b c x ts d m ms us)
  then show ?case
    by (intro allI leads_to_append[OF blanks_key[OF more_members(1)]] leads_to_Cons[OF key_run[OF more_members(2)]]
        leads_to_append[OF blanks_after[OF more_members(3)]] leads_to_Cons[OF separators(4)]
        leads_to_append[OF blanks_before[OF more_members(4) starts_sub(1)]]
        leads_to_append[OF from_start leads_to_append[OF blanks_after[OF more_members(6)] leads_to_Cons[OF separators(3) from_key]]])
      (auto simp: starts_def)
qed

end
