(* ===== verification/JsonText_Correct.thy ===== *)
theory JsonText_Correct
  imports Json_Runs
begin

text \<open>
  The users of the scanner on the texts of the reference: checking accepts them and splitting finds their end,
  \<open>Indent\<close> and \<open>Compact\<close> write the value in the form that the reference gives. On any bytes whatever none of them panics.
\<close>

subsection \<open>The end of the text\<close>

lemma after_end:
  assumes "after [] s" "isSpace c"
  shows "\<exists>s'. scan_step c (tick k s) = Inr (scanEnd, s') \<and> after [] s'"
proof -
  let ?s = "tick k s"
  have d: "delim c"
    using assms(2) by (simp add: delim_def)
  consider "mid ending [] ?s" | "step ?s = EndTop" "parse ?s = []" "endTop ?s" "serr ?s = None"
    using assms(1) by (auto simp: after_def)
  then show ?thesis
  proof cases
    case 1
    then have "scan_step c ?s = stateEndValue c ?s"
      using ending_step d by (auto simp: mid_def)
    with 1 assms(2) show ?thesis
      by (auto simp: stateEndValue_def stateEndTop_def mid_def after_def simp del: tick_simps)
  next
    case 2
    with assms(2) show ?thesis
      by (auto simp: scan_step_def stateEndTop_def after_def simp del: tick_simps)
  qed
qed

lemma after_eof: "after [] s \<Longrightarrow> \<exists>s'. scan_eof s = Inr (scanEnd, s')"
proof -
  assume a: "after [] s"
  have e: "isSpace (CHR '' '')"
    by (simp add: isSpace_def)
  show ?thesis
  proof (cases "endTop s")
    case True
    with a show ?thesis by (auto simp: scan_eof_def after_def mid_def)
  next
    case False
    then have m: "mid ending [] s"
      using a by (auto simp: after_def)
    then have "scan_step (CHR '' '') s = stateEndValue (CHR '' '') s"
      using ending_step e by (auto simp: mid_def delim_def)
    with m e False show ?thesis
      by (auto simp: scan_eof_def stateEndValue_def stateEndTop_def mid_def)
  qed
qed

lemma written_simps [simp]:
  "written [] = []" "written (t # ts) = token_text t @ written ts" "written (ts @ us) = written ts @ written us"
  by (simp_all add: written_def)

lemma literal_split: "literal_ends l \<Longrightarrow> l = hd l # tl l"
  by (cases l) (simp_all add: literal_ends_def)

lemma document_run:
  assumes "document j ts" "mid {BeginValue} [] s"
  shows "\<exists>s'. run k ts s s' \<and> after [] s'"
proof -
  obtain a us where ts: "ts = a @ us" "blanks a" "value_tokens j us"
    using assms(1) by (auto simp: document_def)
  have "leads_to k (before []) (a @ us) (after [])"
    by (rule leads_to_append[OF blanks_before[OF ts(2) starts_sub(4)]]) (use tokens_run(1)[OF ts(3)] in blast)
  with assms(2) ts(1) show ?thesis
    using before_sub[OF starts_sub(1)] unfolding leads_to_def by blast
qed

lemma reset_before: "mid {BeginValue} [] (scan_reset s)"
  by (simp add: mid_def scan_reset_def)

subsection \<open>Checking and splitting\<close>

lemma checkValid_cont: "cont 1 cs s s' \<Longrightarrow> checkValid_loop (cs @ r) s = checkValid_loop r s'"
  by (induction cs arbitrary: s) (auto simp: tick_def)

lemma checkValid_run: "run 1 ts s s' \<Longrightarrow> checkValid_loop (written ts @ r) s = checkValid_loop r s'"
proof (induction ts arbitrary: s)
  case (Cons t ts)
  then obtain s1 where t: "token_run 1 t s s1" "run 1 ts s1 s'"
    by auto
  have "checkValid_loop (token_text t @ u) s = checkValid_loop u s1" for u
  proof (cases t)
    case (Literal l)
    with t(1) obtain s2 where l: "literal_ends l" "scan_step (hd l) (tick 1 s) = Inr (scanBeginLiteral, s2)" "cont 1 (tl l) s2 s1"
      by auto
    from l(2) have "checkValid_loop (hd l # tl l @ u) s = checkValid_loop (tl l @ u) s2"
      by (simp add: tick_def)
    with checkValid_cont[OF l(3), of u] literal_split[OF l(1)] Literal show ?thesis
      by (metis append_Cons token_text.simps(3))
  qed (use t(1) in \<open>auto simp: tick_def punct_code_def\<close>)
  with Cons.IH[OF t(2)] show ?case
    by simp
qed simp

lemma checkValid_blanks: "blanks b \<Longrightarrow> after [] s \<Longrightarrow> checkValid_loop (written b) s = Inr None"
proof (induction b arbitrary: s)
  case Nil
  then show ?case using after_eof by fastforce
next
  case (Cons t b)
  then obtain c where t: "t = Blank c" "isSpace c" "blanks b"
    by (auto simp: blanks_def)
  obtain s' where s': "scan_step c (tick 1 s) = Inr (scanEnd, s')" "after [] s'"
    using after_end[OF Cons.prems(2) t(2)] by blast
  with Cons.IH[OF t(3) s'(2)] t(1) show ?case
    by (simp add: tick_def)
qed

lemma nextValue_cont: "cont 0 cs s s' \<Longrightarrow> nextValue_loop v (cs @ r) s = nextValue_loop (v @ cs) r s'"
  by (induction cs arbitrary: s v) auto

lemma nextValue_run: "run 0 ts s s' \<Longrightarrow> nextValue_loop v (written ts @ r) s = nextValue_loop (v @ written ts) r s'"
proof (induction ts arbitrary: s v)
  case (Cons t ts)
  then obtain s1 where t: "token_run 0 t s s1" "run 0 ts s1 s'"
    by auto
  have "nextValue_loop v (token_text t @ u) s = nextValue_loop (v @ token_text t) u s1" for u
  proof (cases t)
    case (Literal l)
    with t(1) obtain s2 where l: "literal_ends l" "scan_step (hd l) s = Inr (scanBeginLiteral, s2)" "cont 0 (tl l) s2 s1"
      by auto
    from l(2) have "nextValue_loop v (hd l # tl l @ u) s = nextValue_loop (v @ [hd l]) (tl l @ u) s2"
      by simp
    with nextValue_cont[OF l(3), of "v @ [hd l]" u] literal_split[OF l(1)] Literal show ?thesis
      by (metis append.assoc append_Cons append_Nil token_text.simps(3))
  qed (use t(1) in \<open>auto simp: punct_code_def\<close>)
  with Cons.IH[OF t(2)] show ?case
    by simp
qed simp

lemma nextValue_end:
  assumes "after [] s" "r = [] \<or> delim (hd r)"
  shows "nextValue_loop v r s = Inr (Inr (v, r))"
proof (cases r)
  case Nil
  with after_eof[OF assms(1)] show ?thesis by auto
next
  case (Cons c cs)
  consider "mid ending [] s" | "step s = EndTop" "parse s = []" "endTop s" "serr s = None"
    using assms(1) by (auto simp: after_def)
  then have "\<exists>s'. scan_step c s = Inr (scanEnd, s')"
  proof cases
    case 1
    then have "scan_step c s = stateEndValue c s"
      using ending_step assms(2) Cons by (auto simp: mid_def)
    with 1 show ?thesis
      by (auto simp: stateEndValue_def stateEndTop_def scan_fail_def mid_def)
  next
    case 2
    then show ?thesis
      by (auto simp: scan_step_def stateEndTop_def scan_fail_def)
  qed
  with Cons show ?thesis
    by auto
qed

theorem document_accepted:
  assumes "document j ts" "blanks b" "r = [] \<or> delim (hd r)"
  shows "checkValid (written (ts @ b)) s = Inr None \<and> nextValue (written ts @ r) s = Inr (Inr (written ts, r))"
proof -
  obtain s1 s2 where s: "run 1 ts (scan_reset s) s1" "after [] s1" "run 0 ts (scan_reset s) s2" "after [] s2"
    using document_run[OF assms(1) reset_before] by blast
  show ?thesis
    using checkValid_run[OF s(1), of "written b"] checkValid_blanks[OF assms(2) s(2)]
      nextValue_run[OF s(3), of "[]" r] nextValue_end[OF s(4) assms(3)]
    by (simp add: checkValid_def nextValue_def)
qed

subsection \<open>An example\<close>

text \<open>The text \<open>{ a: [1.5e3, "x<"],'t':NumberLong(2) }\<close>.\<close>

definition ex_text :: "token list" where
  "ex_text =
     [Punct (CHR ''{''), Blank (CHR '' ''), Literal ''a'', Punct (CHR '':''), Blank (CHR '' ''),
      Punct (CHR ''[''), Literal ''1.5e3'', Punct (CHR '',''), Blank (CHR '' ''), Literal [CHR 0x22, CHR ''x'', CHR ''<'', CHR 0x22],
      Punct (CHR '']''), Punct (CHR '',''), Literal [CHR 0x27, CHR ''t'', CHR 0x27], Punct (CHR '':''),
      Literal ''NumberLong'', Punct (CHR ''(''), Literal ''2'', Punct (CHR '')''), Blank (CHR '' ''), Punct (CHR ''}'')]"

definition ex_json :: json where
  "ex_json = JObj [(''a'', JArr [JLit ''1.5e3'', JLit [CHR 0x22, CHR ''x'', CHR ''<'', CHR 0x22]]),
     ([CHR 0x27, CHR ''t'', CHR 0x27], JCtor ''NumberLong'' [JLit ''2''])]"

lemma blanks_simps [simp]: "blanks []" "blanks (Blank c # b) \<longleftrightarrow> isSpace c \<and> blanks b"
  by (auto simp: blanks_def)

lemma ex_literals:
  "literal_text ''1.5e3''" "literal_text [CHR 0x22, CHR ''x'', CHR ''<'', CHR 0x22]" "literal_text ''2''"
  "key_text ''a''" "key_text [CHR 0x27, CHR ''t'', CHR 0x27]" "ctor_text ''NumberLong''"
proof -
  have e: "exp_part ''e3''"
    unfolding exp_part_def by (rule disjI2, rule exI[of _ "CHR ''e''"], rule exI[of _ "[]"], rule exI[of _ "''3''"]) (simp add: digits_def isDigit_def char_le_code)
  have "number_text (''1'' @ ''.5'' @ ''e3'')"
    unfolding number_text_def
    by (rule exI[of _ "[]"], rule exI[of _ "''1''"], rule exI[of _ "''.5''"], rule exI[of _ "''e3''"])
      (simp add: e int_part_def frac_part_def digits_def isDigit_def isDigit1_def char_le_code)
  then show "literal_text ''1.5e3''" by (simp add: literal_text_def)
  have "number_text (''2'' @ [] @ [])"
    unfolding number_text_def int_part_def frac_part_def exp_part_def digits_def
    by (rule exI[of _ "[]"], rule exI[of _ "''2''"], rule exI[of _ "[]"], rule exI[of _ "[]"]) (simp add: isDigit_def isDigit1_def char_le_code)
  then show "literal_text ''2''" by (simp add: literal_text_def)
  have "string_rest (CHR 0x22) [CHR ''x'', CHR ''<'', CHR 0x22]"
    by (intro string_rest.intros) simp_all
  then show "literal_text [CHR 0x22, CHR ''x'', CHR ''<'', CHR 0x22]"
    by (simp add: literal_text_def string_text_def)
  have "string_rest (CHR 0x27) [CHR ''t'', CHR 0x27]"
    by (intro string_rest.intros) simp_all
  then show "key_text [CHR 0x27, CHR ''t'', CHR 0x27]"
    by (simp add: key_text_def string_text_def)
  show "key_text ''a''" "ctor_text ''NumberLong''"
    by (simp_all add: key_text_def isBeginUnquotedString_def char_le_code ctor_text_def)
qed

lemma ex_document: "document ex_json ex_text"
proof -
  let ?s = "[Blank (CHR '' '')]"
  note v = ex_literals(1-3)[THEN lit]
  have sp: "isSpace (CHR '' '')" by (simp add: isSpace_def)
  have l: "list_tokens [JLit ''1.5e3'', JLit [CHR 0x22, CHR ''x'', CHR ''<'', CHR 0x22]]
      ([] @ [Literal ''1.5e3''] @ [] @ Punct (CHR '','') # (?s @ [Literal [CHR 0x22, CHR ''x'', CHR ''<'', CHR 0x22]] @ []))"
    by (intro more one v) (simp_all add: sp)
  have c: "value_tokens (JCtor ''NumberLong'' [JLit ''2''])
      (Literal ''NumberLong'' # [] @ Punct (CHR ''('') # ([] @ [Literal ''2''] @ []) @ [Punct (CHR '')'')])"
    by (intro ctor one v ex_literals) simp_all
  have m: "member_tokens [([CHR 0x27, CHR ''t'', CHR 0x27], JCtor ''NumberLong'' [JLit ''2''])]
      ([] @ Literal [CHR 0x27, CHR ''t'', CHR 0x27] # [] @ Punct (CHR '':'') # [] @
       (Literal ''NumberLong'' # [] @ Punct (CHR ''('') # ([] @ [Literal ''2''] @ []) @ [Punct (CHR '')'')]) @ ?s)"
    by (intro one_member c ex_literals) (simp_all add: sp)
  have "value_tokens ex_json ex_text"
    using obj[OF more_members[OF _ ex_literals(4) _ _ arr[OF l] _ m, of ?s "[]" ?s "[]"]]
    by (simp add: ex_json_def ex_text_def sp)
  then have "ex_text = [] @ ex_text \<and> blanks [] \<and> value_tokens ex_json ex_text"
    by simp
  then show ?thesis
    unfolding document_def by blast
qed

subsection \<open>Indent\<close>


text \<open>What \<open>Indent\<close> writes for tokens, with \<open>needIndent\<close> and the depth before and after.\<close>

definition lead :: "string \<Rightarrow> string \<Rightarrow> bool \<Rightarrow> int \<Rightarrow> string" where
  "lead p t need d = (if need then newline p t (d + 1) else [])"

definition level :: "bool \<Rightarrow> int \<Rightarrow> int" where
  "level need d = (if need then d + 1 else d)"

fun token_indent :: "string \<Rightarrow> string \<Rightarrow> token \<Rightarrow> bool \<Rightarrow> int \<Rightarrow> string \<times> bool \<times> int" where
  "token_indent p t (Blank c) need d = ([], need, d)"
| "token_indent p t (Punct c) need d =
     (if c = CHR ''}'' \<or> c = CHR '']'' then punctuation p t c need d
      else case punctuation p t c False (level need d) of (out, r) \<Rightarrow> (lead p t need d @ out, r))"
| "token_indent p t (Literal l) need d = (lead p t need d @ l, False, level need d)"

primrec indents :: "string \<Rightarrow> string \<Rightarrow> token list \<Rightarrow> bool \<Rightarrow> int \<Rightarrow> string \<times> bool \<times> int" where
  "indents p t [] need d = ([], need, d)"
| "indents p t (x # ts) need d =
     (case token_indent p t x need d of (out, need, d) \<Rightarrow>
      case indents p t ts need d of (out', r) \<Rightarrow> (out @ out', r))"

lemma Indent_cont: "cont 1 cs s s' \<Longrightarrow> Indent_loop p t (cs @ r) False d dst s = Indent_loop p t r False d (dst @ cs) s'"
  by (induction cs arbitrary: s dst) (auto simp: tick_def)

lemma Indent_token:
  assumes "token_run 1 x s s1" "token_indent p t x need d = (out, need', d')"
  shows "Indent_loop p t (token_text x @ u) need d dst s = Indent_loop p t u need' d' (dst @ out) s1"
proof (cases x)
  case (Blank c)
  with assms show ?thesis
    by (simp add: tick_def)
next
  case (Punct c)
  then obtain v where v: "scan_step c (s\<lparr>sbytes := sbytes s + 1\<rparr>) = Inr (v, s1)" "punct_code v c"
    using assms(1) by (auto simp: tick_def)
  then have e: "v = scanEndObject \<or> v = scanEndArray \<longleftrightarrow> c = CHR ''}'' \<or> c = CHR '']''"
    "v \<noteq> scanSkipSpace" "v \<noteq> scanError" "v \<noteq> scanContinue"
    by (auto simp: punct_code_def)
  show ?thesis
  proof (cases "c = CHR ''}'' \<or> c = CHR '']''")
    case True
    with e(1) have "v = scanEndObject \<or> v = scanEndArray" by simp
    with True v(1) e(2-4) assms(2) Punct show ?thesis
      by (auto split: prod.splits)
  next
    case False
    with e(1) have "v \<noteq> scanEndObject" "v \<noteq> scanEndArray" by simp_all
    with False v(1) e(2-4) assms(2) Punct show ?thesis
      by (cases need) (auto simp: lead_def level_def split: prod.splits)
  qed
next
  case (Literal l)
  then obtain s2 where l: "literal_ends l" "scan_step (hd l) (s\<lparr>sbytes := sbytes s + 1\<rparr>) = Inr (scanBeginLiteral, s2)"
    "cont 1 (tl l) s2 s1"
    using assms(1) by (auto simp: tick_def)
  from l(1) have "punctuation p t (hd l) False d = ([hd l], False, d)" for d
    by (simp add: literal_ends_def punctuation_def)
  with l(2) have "Indent_loop p t (hd l # tl l @ u) need d dst s =
      Indent_loop p t (tl l @ u) False (level need d) (dst @ lead p t need d @ [hd l]) s2"
    by (cases need) (simp_all add: lead_def level_def)
  with Indent_cont[OF l(3), of p t u "level need d" "dst @ lead p t need d @ [hd l]"] literal_split[OF l(1)] Literal assms(2)
  show ?thesis
    by (metis append.assoc append_Cons append_Nil prod.inject token_indent.simps(3) token_text.simps(3))
qed

lemma Indent_run:
  assumes "run 1 ts s s'" "indents p t ts need d = (out, need', d')"
  shows "Indent_loop p t (written ts @ r) need d dst s = Indent_loop p t r need' d' (dst @ out) s'"
  using assms
proof (induction ts arbitrary: s need d dst out)
  case (Cons x ts)
  then obtain s1 where x: "token_run 1 x s s1" "run 1 ts s1 s'"
    by auto
  obtain o1 n1 d1 where 1: "token_indent p t x need d = (o1, n1, d1)"
    by (cases "token_indent p t x need d") auto
  with Cons.prems(2) obtain o2 where 2: "indents p t ts n1 d1 = (o2, need', d')" "out = o1 @ o2"
    by (auto split: prod.splits)
  show ?case
    using Indent_token[OF x(1) 1, of "written ts @ r" dst] Cons.IH[OF x(2) 2(1), of "dst @ o1"] 2(2) by simp
qed simp

lemma indents_append [simp]:
  "indents p t (ts @ us) need d =
     (case indents p t ts need d of (out, need, d) \<Rightarrow> case indents p t us need d of (out', r) \<Rightarrow> (out @ out', r))"
  by (induction ts arbitrary: need d) (auto split: prod.splits)

lemma indents_blanks [simp]: "blanks b \<Longrightarrow> indents p t b need d = ([], need, d)"
  by (induction b) (auto simp: blanks_def)

lemma indents_tokens:
  "value_tokens j ts \<Longrightarrow> (\<forall>need d. indents p t ts need d = (lead p t need d @ pretty p t (level need d) j, False, level need d))"
  "list_tokens js ts \<Longrightarrow> (\<forall>need d. indents p t ts need d =
     (lead p t need d @ joined ('','' @ newline p t (level need d)) (map (pretty p t (level need d)) js), False, level need d))"
  "member_tokens ms ts \<Longrightarrow> (\<forall>need d. indents p t ts need d =
     (lead p t need d @ joined ('','' @ newline p t (level need d))
        (map (\<lambda>(k, x). k @ '': '' @ pretty p t (level need d) x) ms), False, level need d))"
  by (induction rule: value_tokens_list_tokens_member_tokens.inducts)
     (auto simp: punctuation_def lead_def level_def)

lemma Indent_blanks:
  "blanks b \<Longrightarrow> after [] s \<Longrightarrow> \<exists>s'. Indent_loop p t (written b) False d dst s = Inr (dst @ written b, s') \<and> after [] s'"
proof (induction b arbitrary: s dst)
  case (Cons x b)
  then obtain c where x: "x = Blank c" "isSpace c" "blanks b"
    by (auto simp: blanks_def)
  obtain s1 where s1: "scan_step c (tick 1 s) = Inr (scanEnd, s1)" "after [] s1"
    using after_end[OF Cons.prems(2) x(2)] by blast
  have "punctuation p t c False d = ([c], False, d)"
    using x(2) by (auto simp: punctuation_def isSpace_def)
  with s1(1) x(1) Cons.IH[OF x(3) s1(2), of "dst @ [c]"] show ?case
    by (simp add: tick_def)
qed simp



subsection \<open>Compact\<close>

text \<open>
  The loop between two tokens: what is in the buffer and what is still to be copied make \<open>out\<close>.
\<close>

definition pending :: "string \<Rightarrow> nat \<Rightarrow> nat \<Rightarrow> string \<Rightarrow> string \<Rightarrow> bool" where
  "pending src i start dst out \<longleftrightarrow> start \<le> i \<and> flush src start i dst = out"

lemma pending_copy:
  assumes "pending src i start dst out" "drop i src = c # rest"
  shows "pending src (i + 1) start dst (out @ [c])"
proof -
  have i: "i < length src" "src ! i = c"
    using assms(2) by (metis drop_eq_Nil leI list.distinct(1), metis assms(2) nth_via_drop)
  have "take (Suc i - start) (drop start src) = take (i - start) (drop start src) @ [c]" if "start \<le> i"
    using that i by (simp add: Suc_diff_le take_Suc_conv_app_nth)
  with assms(1) show ?thesis
    by (auto simp: pending_def flush_def)
qed

lemma flush_self [simp]: "flush src i i dst = dst" "start > i \<Longrightarrow> flush src start i dst = dst"
  by (simp_all add: flush_def)

lemma pending_start: "pending src i i out out"
  by (simp add: pending_def)

text \<open>A run over bytes whose codes do not end a copy.\<close>

primrec quiet :: "string \<Rightarrow> scanner \<Rightarrow> scanner \<Rightarrow> bool" where
  "quiet [] s s' \<longleftrightarrow> s = s'"
| "quiet (c # cs) s s' \<longleftrightarrow>
     (\<exists>v s1. scan_step c s = Inr (v, s1) \<and> v \<notin> {scanSkipSpace, scanEnd, scanError} \<and> quiet cs s1 s')"

lemma cont_quiet: "cont 0 cs s s' \<Longrightarrow> quiet cs s s'"
  by (induction cs arbitrary: s) auto

lemma drop_cons: "drop i src = c # rest \<Longrightarrow> src ! i = c \<and> i < length src \<and> drop (Suc i) src = rest"
  by (metis Cons_nth_drop_Suc drop_eq_Nil leI list.distinct(1) list.inject)

lemma escapeAt_plain:
  assumes "drop i src = c # rest" "\<not> (e \<and> isHtml c)" "\<And>a b ds. rest = a # b # ds \<Longrightarrow> c = CHR 0xE2 \<Longrightarrow> a = CHR 0x80 \<Longrightarrow> b \<notin> {CHR 0xA8, CHR 0xA9}"
  shows "escapeAt e src i start dst = (dst, start)"
proof -
  note d = drop_cons[OF assms(1)]
  have "\<not> isSeparator src i"
  proof
    assume s: "isSeparator src i"
    then have l: "i + 2 < length src"
      by (simp add: isSeparator_def)
    obtain a b ds where r: "rest = a # b # ds"
      using d l by (metis Cons_nth_drop_Suc Suc_1 Suc_lessD add_2_eq_Suc')
    with d have "src ! (i + 1) = a" "src ! (i + 2) = b"
      using drop_cons[of "Suc i" src a "b # ds"] drop_cons[of "Suc (Suc i)" src b ds] by auto
    with s d r assms(3) show False
      by (auto simp: isSeparator_def)
  qed
  with d assms(2) show ?thesis
    by (auto simp: escapeAt_def)
qed

lemma compact_step:
  assumes "scan_step c s = Inr (v, s1)" "v \<notin> {scanSkipSpace, scanEnd, scanError}" "escapeAt e src i start dst = (dst', start')"
  shows "compact_loop e src (c # rest) i start dst s = compact_loop e src rest (i + 1) start' dst' s1"
  using assms by simp

text \<open>Over quiet bytes that end with an ASCII character the loop writes their escaped form.\<close>

lemma escaped_copy:
  "\<not> (e \<and> isHtml c) \<Longrightarrow> (\<And>a b ds. cs = a # b # ds \<Longrightarrow> c = CHR 0xE2 \<Longrightarrow> a = CHR 0x80 \<Longrightarrow> b \<notin> {CHR 0xA8, CHR 0xA9}) \<Longrightarrow>
   escaped e (c # cs) = c # escaped e cs"
  by (subst escaped.simps) (auto split: list.split simp del: escaped.simps)

lemma escaped_separator:
  "\<not> (e \<and> isHtml (CHR 0xE2)) \<Longrightarrow> b = CHR 0xA8 \<or> b = CHR 0xA9 \<Longrightarrow>
   escaped e (CHR 0xE2 # CHR 0x80 # b # ds) = separatorEscape b @ escaped e ds"
  by (subst escaped.simps) (auto simp del: escaped.simps)

lemma compact_quiet:
  "drop i src = l @ rest \<Longrightarrow> l = [] \<or> ascii (last l) \<Longrightarrow> quiet l s s' \<Longrightarrow> pending src i start dst out \<Longrightarrow>
   \<exists>start' dst'. compact_loop e src (l @ rest) i start dst s = compact_loop e src rest (i + length l) start' dst' s' \<and>
     pending src (i + length l) start' dst' (out @ escaped e l)"
proof (induction l arbitrary: i s start dst out rule: length_induct)
  case (1 l)
  show ?case
  proof (cases l)
    case Nil
    with "1.prems" show ?thesis by auto
  next
    case (Cons c cs)
    note d = drop_cons[OF "1.prems"(1)[unfolded Cons append_Cons]]
    obtain v s1 where st: "scan_step c s = Inr (v, s1)" "v \<notin> {scanSkipSpace, scanEnd, scanError}" "quiet cs s1 s'"
      using "1.prems"(3) Cons by auto
    have la: "cs = [] \<or> ascii (last cs)"
      using "1.prems"(2) Cons by (cases cs) auto
    have dr: "drop (i + 1) src = cs @ rest"
      using d by simp
    note IH = "1.IH"[rule_format, OF _ dr la st(3)]
    consider (html) "e \<and> isHtml c"
      | (sep) a b ds where "\<not> (e \<and> isHtml c)" "cs = a # b # ds" "c = CHR 0xE2" "a = CHR 0x80" "b = CHR 0xA8 \<or> b = CHR 0xA9"
      | (plain) "\<not> (e \<and> isHtml c)" "\<And>a b ds. cs = a # b # ds \<Longrightarrow> c = CHR 0xE2 \<Longrightarrow> a = CHR 0x80 \<Longrightarrow> b \<notin> {CHR 0xA8, CHR 0xA9}"
      by blast
    then show ?thesis
    proof cases
      case html
      have "c \<noteq> CHR 0xE2"
        using html by (auto simp: isHtml_def)
      then have es: "escapeAt e src i start dst = (out @ htmlEscape c, i + 1)"
        using d html "1.prems"(4) by (simp add: escapeAt_def isSeparator_def pending_def)
      obtain start' dst' where r: "compact_loop e src (cs @ rest) (i + 1) (i + 1) (out @ htmlEscape c) s1 =
          compact_loop e src rest (i + 1 + length cs) start' dst' s'"
        "pending src (i + 1 + length cs) start' dst' ((out @ htmlEscape c) @ escaped e cs)"
        using IH[OF _ pending_start[of src "i + 1" "out @ htmlEscape c"]] Cons by auto
      show ?thesis
        using compact_step[OF st(1,2) es, of "cs @ rest"] r html Cons by auto
    next
      case sep
      note da = drop_cons[OF dr[unfolded sep(2) append_Cons]]
      then have db: "src ! (i + 2) = b" "i + 2 < length src" "drop (i + 3) src = ds @ rest"
        using drop_cons[of "i + 2" src b "ds @ rest"] by (simp_all add: numeral_3_eq_3)
      have es: "escapeAt e src i start dst = (out @ separatorEscape b, i + 3)"
        using d da db sep "1.prems"(4) by (auto simp: escapeAt_def isSeparator_def pending_def)
      have na: "\<not> isHtml a" "\<not> isHtml b" "a \<noteq> CHR 0xE2" "b \<noteq> CHR 0xE2"
        using sep(4,5) by (auto simp: isHtml_def)
      have ea: "escapeAt e src (i + 1) (i + 3) x = (x, i + 3)" for x
        using na da by (simp add: escapeAt_def isSeparator_def)
      have eb: "escapeAt e src (i + 2) (i + 3) x = (x, i + 3)" for x
        using na db by (simp add: escapeAt_def isSeparator_def)
      obtain v2 s2 v3 s3 where st2: "scan_step a s1 = Inr (v2, s2)" "v2 \<notin> {scanSkipSpace, scanEnd, scanError}"
        "scan_step b s2 = Inr (v3, s3)" "v3 \<notin> {scanSkipSpace, scanEnd, scanError}" "quiet ds s3 s'"
        using st(3) sep(2) by auto
      have lds: "ds = [] \<or> ascii (last ds)"
        using la sep(2) by (cases ds) auto
      let ?o = "out @ separatorEscape b"
      obtain start' dst' where r: "compact_loop e src (ds @ rest) (i + 3) (i + 3) ?o s3 =
          compact_loop e src rest (i + 3 + length ds) start' dst' s'"
        "pending src (i + 3 + length ds) start' dst' (?o @ escaped e ds)"
        using "1.IH"[rule_format, OF _ db(3) lds st2(5) pending_start[of src "i + 3" ?o]] Cons sep(2) by auto
      have "compact_loop e src (l @ rest) i start dst s = compact_loop e src (ds @ rest) (i + 3) (i + 3) ?o s3"
        using compact_step[OF st(1,2) es, of "a # b # ds @ rest"] compact_step[OF st2(1,2) ea, of "b # ds @ rest" ?o]
          compact_step[OF st2(3,4) eb, of "ds @ rest" ?o] Cons sep(2)
        by (simp add: numeral_3_eq_3 del: compact_loop.simps)
      moreover have "escaped e l = separatorEscape b @ escaped e ds" "i + length l = i + 3 + length ds"
        using escaped_separator[of e b ds] sep Cons by (simp_all del: escaped.simps)
      ultimately show ?thesis
        using r by (metis append.assoc)
    next
      case plain
      have "escapeAt e src i start dst = (dst, start)"
      proof (rule escapeAt_plain)
        show "drop i src = c # cs @ rest" using "1.prems"(1) Cons by simp
        show "\<not> (e \<and> isHtml c)" by (fact plain)
        show "b \<notin> {CHR 0xA8, CHR 0xA9}" if "cs @ rest = a # b # ds" "c = CHR 0xE2" "a = CHR 0x80" for a b ds
        proof (cases "\<exists>ds'. cs = a # b # ds'")
          case True
          with plain(2) that show ?thesis by blast
        next
          case False
          with that(1) have "cs = [] \<or> cs = [a]"
            by (auto simp: append_eq_Cons_conv)
          with la that "1.prems"(2) Cons show ?thesis
            by auto
        qed
      qed
      note cstep = compact_step[OF st(1,2) this, of "cs @ rest"]
      have "pending src (i + 1) start dst (out @ [c])"
        using pending_copy[OF "1.prems"(4)] "1.prems"(1) Cons by simp
      then obtain start' dst' where r: "compact_loop e src (cs @ rest) (i + 1) start dst s1 =
          compact_loop e src rest (i + 1 + length cs) start' dst' s'"
        "pending src (i + 1 + length cs) start' dst' ((out @ [c]) @ escaped e cs)"
        using IH[of start dst "out @ [c]"] Cons by auto
      with cstep escaped_copy[OF plain] Cons show ?thesis
        by (auto simp del: compact_loop.simps escaped.simps)
    qed
  qed
qed

lemma compact_skip:
  assumes "scan_step c s = Inr (v, s1)" "v = scanSkipSpace \<or> v = scanEnd" "isSpace c" "drop i src = c # rest"
    "pending src i start dst out"
  shows "compact_loop e src (c # rest) i start dst s = compact_loop e src rest (i + 1) (i + 1) out s1"
proof -
  have "escapeAt e src i start dst = (dst, start)"
    using assms(3) by (intro escapeAt_plain[OF assms(4)]) (auto simp: isSpace_def isHtml_def)
  with assms show ?thesis
    by (auto simp: pending_def)
qed

fun token_compact :: "bool \<Rightarrow> token \<Rightarrow> string" where
  "token_compact e (Blank c) = []"
| "token_compact e (Punct c) = [c]"
| "token_compact e (Literal l) = escaped e l"

lemma compact_run:
  "run 0 ts s s' \<Longrightarrow> drop i src = written ts @ rest \<Longrightarrow> pending src i start dst out \<Longrightarrow>
   \<exists>start' dst'. compact_loop e src (written ts @ rest) i start dst s =
       compact_loop e src rest (i + length (written ts)) start' dst' s' \<and>
     pending src (i + length (written ts)) start' dst' (out @ concat (map (token_compact e) ts))"
proof (induction ts arbitrary: s i start dst out)
  case (Cons x ts)
  then obtain s1 where x: "token_run 0 x s s1" "run 0 ts s1 s'"
    by auto
  let ?r = "written ts @ rest"
  have dr: "drop i src = token_text x @ ?r"
    using Cons.prems(2) by simp
  have "\<exists>start1 dst1. compact_loop e src (token_text x @ ?r) i start dst s =
      compact_loop e src ?r (i + length (token_text x)) start1 dst1 s1 \<and>
      pending src (i + length (token_text x)) start1 dst1 (out @ token_compact e x)"
  proof (cases x)
    case (Blank c)
    with compact_skip[of c s scanSkipSpace s1 i src ?r start dst out e] x(1) dr Cons.prems(3) show ?thesis
      by (intro exI[of _ "i + 1"] exI[of _ out]) (simp add: pending_start del: compact_loop.simps)
  next
    case (Punct c)
    then have "quiet [c] s s1" "ascii c" "\<not> isHtml c"
      using x(1) by (auto simp: punct_code_def isHtml_def)
    with compact_quiet[of i src "[c]" ?r s s1 start dst out e] dr Punct Cons.prems(3) show ?thesis
      by (auto simp del: compact_loop.simps)
  next
    case (Literal l)
    then obtain s2 where l: "literal_ends l" "scan_step (hd l) s = Inr (scanBeginLiteral, s2)" "cont 0 (tl l) s2 s1"
      using x(1) by auto
    have "quiet (hd l # tl l) s s1"
      unfolding quiet.simps using l(2) cont_quiet[OF l(3)] by (intro exI[of _ scanBeginLiteral] exI[of _ s2]) simp
    then have "quiet l s s1" "l = [] \<or> ascii (last l)"
      using literal_split[OF l(1)] l(1) by (simp_all add: literal_ends_def)
    with compact_quiet[of i src l ?r s s1 start dst out e] dr Literal Cons.prems(3) show ?thesis
      by (auto simp del: compact_loop.simps)
  qed
  then obtain start1 dst1 where 1: "compact_loop e src (token_text x @ ?r) i start dst s =
      compact_loop e src ?r (i + length (token_text x)) start1 dst1 s1"
    "pending src (i + length (token_text x)) start1 dst1 (out @ token_compact e x)"
    by blast
  have "drop (i + length (token_text x)) src = ?r"
    using dr by (metis append_eq_conv_conj drop_drop add.commute)
  from Cons.IH[OF x(2) this 1(2)] 1(1) show ?case
    by (auto simp: ac_simps simp del: compact_loop.simps)
qed auto

lemma escaped_ascii: "list_all ascii l \<Longrightarrow> \<not> e \<or> list_all (\<lambda>c. \<not> isHtml c) l \<Longrightarrow> escaped e l = l"
proof (induction l)
  case (Cons c l)
  have "escaped e (c # l) = c # escaped e l"
    using Cons.prems by (intro escaped_copy) auto
  with Cons show ?case by (simp del: escaped.simps)
qed simp

lemma escaped_ctor: "ctor_text n \<Longrightarrow> escaped e n = n"
  by (rule escaped_ascii) (auto simp: ctor_text_def isHtml_def)

lemma compact_blanks [simp]: "blanks b \<Longrightarrow> concat (map (token_compact e) b) = []"
  by (induction b) (auto simp: blanks_def)

lemma compact_tokens:
  "value_tokens j ts \<Longrightarrow> concat (map (token_compact e) ts) = minimal e j"
  "list_tokens js ts \<Longrightarrow> concat (map (token_compact e) ts) = joined '','' (map (minimal e) js)"
  "member_tokens ms ts \<Longrightarrow> concat (map (token_compact e) ts) = joined '','' (map (\<lambda>(k, x). escaped e k @ '':'' @ minimal e x) ms)"
  by (induction rule: value_tokens_list_tokens_member_tokens.inducts)
     (simp_all add: escaped_ctor)

lemma compact_end_blanks:
  "blanks b \<Longrightarrow> after [] s \<Longrightarrow> drop i src = written b \<Longrightarrow> pending src i start dst out \<Longrightarrow>
   \<exists>start' dst' s'. compact_loop e src (written b) i start dst s = Inr (dst', start', s') \<and>
     pending src (i + length (written b)) start' dst' out \<and> after [] s'"
proof (induction b arbitrary: s i start dst)
  case (Cons x b)
  then obtain c where x: "x = Blank c" "isSpace c" "blanks b"
    by (auto simp: blanks_def)
  obtain s1 where s1: "scan_step c s = Inr (scanEnd, s1)" "after [] s1"
    using after_end[OF Cons.prems(2) x(2), of 0] by auto
  have dr: "drop i src = c # written b"
    using Cons.prems(3) x(1) by simp
  then have dr': "drop (i + 1) src = written b"
    using drop_cons[OF dr] by simp
  note sk = compact_skip[OF s1(1) _ x(2) dr Cons.prems(4), of e]
  obtain start' dst' s' where "compact_loop e src (written b) (i + 1) (i + 1) out s1 = Inr (dst', start', s')"
    "pending src (i + 1 + length (written b)) start' dst' out" "after [] s'"
    using Cons.IH[OF x(3) s1(2) dr' pending_start] by blast
  with sk x(1) show ?case
    by (auto simp del: compact_loop.simps)
qed auto



end
