(* ===== verification/JsonText_Total.thy ===== *)
theory JsonText_Total
  imports JsonText_Correct
begin

text \<open>
  The users of the scanner on any bytes whatever: each returns, none panics, a failure leaves the buffer as it was, and
  all accept the same texts. At the end, three texts that are not treated as they should.
\<close>

subsection \<open>Who runs the scanner\<close>

text \<open>The count of bytes, and the offset in an error, decide nothing.\<close>

definition erase :: "scanner \<Rightarrow> scanner" where
  "erase s = s\<lparr>sbytes := 0, serr := map_option (\<lambda>e. e\<lparr>Offset := 0\<rparr>) (serr s)\<rparr>"

lemma erase_simps [simp]:
  "step (erase s) = step s" "parse (erase s) = parse s" "endTop (erase s) = endTop s" "serr (erase s) = None \<longleftrightarrow> serr s = None"
  "redoCode (erase s) = redoCode s" "redoState (erase s) = redoState s" "erase (erase s) = erase s"
  "erase (s\<lparr>step := q\<rparr>) = (erase s)\<lparr>step := q\<rparr>" "erase (s\<lparr>parse := ps\<rparr>) = (erase s)\<lparr>parse := ps\<rparr>"
  "erase (s\<lparr>redo := r\<rparr>) = (erase s)\<lparr>redo := r\<rparr>" "erase (s\<lparr>endTop := r\<rparr>) = (erase s)\<lparr>endTop := r\<rparr>"
  "erase (s\<lparr>sbytes := n\<rparr>) = erase s" "erase (tick k s) = erase s"
  by (simp_all add: erase_def tick_def option.map_comp comp_def)

definition er :: "stepResult \<Rightarrow> stepResult" where
  "er r = (case r of Inl e \<Rightarrow> Inl e | Inr (v, s) \<Rightarrow> Inr (v, erase s))"

lemma er_simps [simp]:
  "er (Inr (v, s)) = Inr (v, erase s)" "er (Inl e) = Inl e" "er (if b then x else y) = (if b then er x else er y)"
  by (simp_all add: er_def)

lemma er_fail [simp]: "er (scan_fail c ctx (erase s)) = er (scan_fail c ctx s)"
  by (simp add: scan_fail_def erase_def)

lemma er_pop [simp]: "er (rbind (popParseState (erase s)) (\<lambda>s. Inr (v, s))) = er (rbind (popParseState s) (\<lambda>s. Inr (v, s)))"
  by (simp add: popParseState_def Let_def split: list.split)

lemma er_EndTop: "er (stateEndTop c (erase s)) = er (stateEndTop c s)"
  by (simp add: stateEndTop_def scan_fail_def erase_def option.map_comp comp_def)

lemma er_EndTop_upd [simp]: "er (stateEndTop c ((erase s)\<lparr>step := q, endTop := b\<rparr>)) = er (stateEndTop c (s\<lparr>step := q, endTop := b\<rparr>))"
  using er_EndTop[of c "s\<lparr>step := q, endTop := b\<rparr>"] by simp

lemma er_EndValue [simp]: "er (stateEndValue c (erase s)) = er (stateEndValue c s)"
  by (cases "parse s"; cases "hd (parse s)") (simp_all add: stateEndValue_def)

lemma er_EndValue_upd [simp]: "er (stateEndValue c ((erase s)\<lparr>parse := ps\<rparr>)) = er (stateEndValue c (s\<lparr>parse := ps\<rparr>))"
  using er_EndValue[of c "s\<lparr>parse := ps\<rparr>"] by simp

lemma er_BeginValue [simp]:
  "er (stateBeginValue c (erase s)) = er (stateBeginValue c s)"
  "er (stateBeginString c (erase s)) = er (stateBeginString c s)"
  by (simp_all add: value_defs)

lemma er_generated [simp]: "er (stateGenerated n x a c (erase s)) = er (stateGenerated n x a c s)"
  by (simp add: stateGenerated_def split: list.split)

lemma er_text [simp]: "er (runState (Txt q) c (erase s)) = er (runState (Txt q) c s)"
  by (cases q) (simp_all add: text_defs)

lemma er_number [simp]: "er (runState (Num q) c (erase s)) = er (runState (Num q) c s)"
  by (cases q) (simp_all add: number_defs)

lemma er_word [simp]: "er (runState (Wrd q) c (erase s)) = er (runState (Wrd q) c s)"
  by (cases q) (simp_all add: word_defs)

lemma er_ext [simp]: "er (runState (Ext q) c (erase s)) = er (runState (Ext q) c s)"
  by (cases q) (simp_all add: ext_defs)

lemma er_run: "er (runState q c (erase s)) = er (runState q c s)"
  by (cases q; cases "parse s")
     (simp_all add: er_EndTop stateBeginValueOrEmpty_def stateBeginStringOrEmpty_def stateRedo_def ctor_defs del: runState.simps(7-47,49-74))

lemma erase_step: "erase s = erase s' \<Longrightarrow> er (scan_step c s) = er (scan_step c s')"
  using er_run[of "step s" c s] er_run[of "step s'" c s'] unfolding scan_step_def
  by (metis erase_simps(1))

lemma step_total:
  assumes "scanner_ok s"
  obtains v s1 where "scan_step c s = Inr (v, s1)" "scanner_ok s1" "v = scanError \<Longrightarrow> serr s1 \<noteq> None"
  using scan_step_ok[OF assms, of c] by (auto simp: step_ok_def split: sum.splits)

lemma tick_ok [simp]: "scanner_ok (tick k s) = scanner_ok s"
  by (simp add: scanner_ok_def)

text \<open>What the scanner accepts, whoever runs it.\<close>

primrec accepts :: "string \<Rightarrow> scanner \<Rightarrow> bool" where
  "accepts [] s \<longleftrightarrow> (\<exists>s'. scan_eof s = Inr (scanEnd, s'))"
| "accepts (c # cs) s \<longleftrightarrow> (\<exists>v s'. scan_step c s = Inr (v, s') \<and> v \<noteq> scanError \<and> accepts cs s')"

lemma eof_total:
  assumes "scanner_ok s"
  shows "\<exists>v s1. scan_eof s = Inr (v, s1) \<and> (v = scanEnd \<or> v = scanError \<and> serr s1 \<noteq> None)"
proof (cases "serr s = None \<and> \<not> endTop s")
  case True
  obtain v s1 where "scan_step (CHR '' '') s = Inr (v, s1)"
    using step_total[OF assms] by blast
  with True show ?thesis
    by (cases "endTop s1") (simp_all add: scan_eof_def)
next
  case False
  then show ?thesis
    by (auto simp: scan_eof_def)
qed

lemma accepts_end:
  "accepts [] s \<longleftrightarrow> serr s = None \<and> (endTop s \<or> (\<exists>v s1. scan_step (CHR '' '') s = Inr (v, s1) \<and> endTop s1))"
  by (cases "scan_step (CHR '' '') s") (auto simp: scan_eof_def split: if_splits)

lemma er_step_tick: "er (scan_step c (tick k s)) = er (scan_step c s)"
  by (rule erase_step) simp

lemma accepts_end_erase:
  assumes e: "erase s = erase s'" and a: "accepts [] s"
  shows "accepts [] s'"
proof -
  have st: "endTop s = endTop s'" "(serr s = None) = (serr s' = None)"
    using e by (metis erase_simps(3), metis erase_simps(4))
  have t: "\<exists>v s2. scan_step (CHR '' '') s' = Inr (v, s2) \<and> endTop s2"
    if 1: "scan_step (CHR '' '') s = Inr (v, s1)" "endTop s1" for v s1
  proof -
    have "er (scan_step (CHR '' '') s') = Inr (v, erase s1)"
      using erase_step[OF e, of "CHR '' ''"] 1(1) by simp
    then obtain s2 where "scan_step (CHR '' '') s' = Inr (v, s2)" "erase s2 = erase s1"
      by (auto simp: er_def split: sum.splits)
    moreover from this 1(2) have "endTop s2" by (metis erase_simps(3))
    ultimately show ?thesis by blast
  qed
  have n: "serr s' = None" and d: "endTop s \<or> (\<exists>v s1. scan_step (CHR '' '') s = Inr (v, s1) \<and> endTop s1)"
    using a[unfolded accepts_end] st(2) by simp_all
  from d have "endTop s' \<or> (\<exists>v s2. scan_step (CHR '' '') s' = Inr (v, s2) \<and> endTop s2)"
  proof (elim disjE exE conjE)
    assume "endTop s"
    with st(1) show ?thesis by simp
  next
    fix v s1 assume "scan_step (CHR '' '') s = Inr (v, s1)" "endTop s1"
    from t[OF this] show ?thesis by (rule disjI2)
  qed
  with n show ?thesis
    unfolding accepts_end by (rule conjI)
qed

lemma accepts_erase: "erase s = erase s' \<Longrightarrow> accepts cs s = accepts cs s'"
proof (induction cs arbitrary: s s')
  case Nil
  have a: "accepts [] s'" if "accepts [] s"
    by (rule accepts_end_erase[OF Nil that])
  have b: "accepts [] s" if "accepts [] s'"
    by (rule accepts_end_erase[OF Nil[symmetric] that])
  show ?case
    by (rule iffI) (erule a, erule b)
next
  case (Cons c cs)
  have e: "er (scan_step c s) = er (scan_step c s')"
    using erase_step[OF Cons.prems] .
  have r: "accepts cs s1 = accepts cs s2" if "scan_step c s = Inr (v, s1)" "scan_step c s' = Inr (v', s2)" for v v' s1 s2
  proof (rule Cons.IH)
    show "erase s1 = erase s2" using e unfolding that by simp
  qed
  show ?case
  proof
    assume "accepts (c # cs) s"
    then obtain v s1 where 1: "scan_step c s = Inr (v, s1)" "v \<noteq> scanError" "accepts cs s1" by auto
    with e obtain s2 where "scan_step c s' = Inr (v, s2)" by (auto simp: er_def split: sum.splits)
    with 1 r show "accepts (c # cs) s'" by auto
  next
    assume "accepts (c # cs) s'"
    then obtain v s2 where 1: "scan_step c s' = Inr (v, s2)" "v \<noteq> scanError" "accepts cs s2" by auto
    with e obtain s1 where "scan_step c s = Inr (v, s1)" by (auto simp: er_def split: sum.splits)
    with 1 r show "accepts (c # cs) s" by auto
  qed
qed


lemma accepts_tick [simp]: "accepts cs (tick k s) = accepts cs s"
  by (rule accepts_erase) simp

lemma accepts_step: "scan_step c (tick k s) = Inr (v, s1) \<Longrightarrow> accepts (c # cs) s \<longleftrightarrow> v \<noteq> scanError \<and> accepts cs s1"
  using accepts_tick[of "c # cs" k s, symmetric] by (simp del: accepts_tick)

lemma checkValid_total: "scanner_ok s \<Longrightarrow> \<exists>e. checkValid_loop cs s = Inr e \<and> (e = None \<longleftrightarrow> accepts cs s)"
proof (induction cs arbitrary: s)
  case Nil
  then show ?case
    using eof_total[OF Nil] by auto
next
  case (Cons c cs)
  obtain v s1 where st: "scan_step c (tick 1 s) = Inr (v, s1)" "scanner_ok s1" "v = scanError \<Longrightarrow> serr s1 \<noteq> None"
    using step_total[of "tick 1 s" c] Cons.prems by auto
  then show ?case
    using Cons.IH[OF st(2)] accepts_step[OF st(1), of cs] by (auto simp: tick_def simp del: accepts.simps)
qed

lemma nextValue_total:
  "scanner_ok s \<Longrightarrow> \<exists>r. nextValue_loop v0 cs s = Inr r \<and>
     (case r of Inl e \<Rightarrow> e \<noteq> None \<and> \<not> accepts cs s | Inr (v, rest) \<Rightarrow> v @ rest = v0 @ cs)"
proof (induction cs arbitrary: s v0)
  case Nil
  then show ?case
    using eof_total[OF Nil] by auto
next
  case (Cons c cs)
  obtain v s1 where st: "scan_step c s = Inr (v, s1)" "scanner_ok s1" "v = scanError \<Longrightarrow> serr s1 \<noteq> None"
    using step_total[OF Cons.prems, of c] by auto
  have ac: "accepts (c # cs) s \<longleftrightarrow> v \<noteq> scanError \<and> accepts cs s1"
    using accepts_step[of c 0 s v s1 cs] st(1) by simp
  show ?case
  proof (cases "v = scanError \<or> v = scanEnd")
    case True
    with st(1,3) ac show ?thesis by (auto simp del: accepts.simps)
  next
    case False
    with st(1) have "nextValue_loop v0 (c # cs) s = nextValue_loop (v0 @ [c]) cs s1" by simp
    with Cons.IH[OF st(2), of "v0 @ [c]"] False ac show ?thesis
      by (auto simp del: accepts.simps nextValue_loop.simps split: sum.splits)
  qed
qed

lemma Indent_total:
  "scanner_ok s \<Longrightarrow> \<exists>out s1. Indent_loop p t cs need d dst s = Inr (dst @ out, s1) \<and> scanner_ok s1 \<and>
     (accepts cs s \<longleftrightarrow> accepts [] s1)"
proof (induction cs arbitrary: need d dst s)
  case (Cons c cs)
  obtain v s1 where st: "scan_step c (tick 1 s) = Inr (v, s1)" "scanner_ok s1" "v = scanError \<Longrightarrow> serr s1 \<noteq> None"
    using step_total[of "tick 1 s" c] Cons.prems by auto
  note ac = accepts_step[OF st(1), of cs]
  show ?case
  proof (cases "v = scanError")
    case True
    with st(1,3) ac show ?thesis
      using st(2) by (auto simp: tick_def accepts_end simp del: accepts.simps)
  next
    case False
    let ?n = "need \<and> v \<noteq> scanEndObject \<and> v \<noteq> scanEndArray"
    obtain out1 need1 d1 where n: "(if ?n then (dst @ newline p t (d + 1), False, d + 1) else (dst, need, d)) = (dst @ out1, need1, d1)"
      by (cases ?n) auto
    obtain out2 need2 d2 where pc: "punctuation p t c need1 d1 = (out2, need2, d2)"
      by (cases "punctuation p t c need1 d1") auto
    consider "v = scanSkipSpace" | "v = scanContinue" | "v \<noteq> scanSkipSpace" "v \<noteq> scanContinue" by blast
    then obtain out' need' d' where
      "Indent_loop p t (c # cs) need d dst s = Indent_loop p t cs need' d' (dst @ out') s1"
    proof cases
      case 1
      with st(1) that[of need d "[]"] show ?thesis by (simp add: tick_def)
    next
      case 2
      with st(1) n that[of need1 d1 "out1 @ [c]"] show ?thesis by (simp add: tick_def)
    next
      case 3
      with False st(1) n pc that[of need2 d2 "out1 @ out2"] show ?thesis by (simp add: tick_def)
    qed
    with Cons.IH[OF st(2), of need' d' "dst @ out'"] ac False show ?thesis
      by (auto simp del: accepts.simps Indent_loop.simps)
  qed
qed auto

lemma flush_prefix: "\<exists>out. flush src start i dst = dst @ out"
  by (simp add: flush_def)

lemma escapeAt_prefix: "\<exists>out start'. escapeAt e src i start dst = (dst @ out, start')"
  by (auto simp: escapeAt_def flush_def)

lemma compact_total:
  "scanner_ok s \<Longrightarrow> \<exists>out start' s1. compact_loop e src cs i start dst s = Inr (dst @ out, start', s1) \<and> scanner_ok s1 \<and>
     (accepts cs s \<longleftrightarrow> accepts [] s1)"
proof (induction cs arbitrary: i start dst s)
  case (Cons c cs)
  obtain v s1 where st: "scan_step c s = Inr (v, s1)" "scanner_ok s1" "v = scanError \<Longrightarrow> serr s1 \<noteq> None"
    using step_total[OF Cons.prems, of c] by auto
  have ac: "accepts (c # cs) s \<longleftrightarrow> v \<noteq> scanError \<and> accepts cs s1"
    using accepts_step[of c 0 s v s1 cs] st(1) by simp
  obtain out1 start1 where es: "escapeAt e src i start dst = (dst @ out1, start1)"
    using escapeAt_prefix by blast
  obtain out2 where fl: "flush src start1 i (dst @ out1) = dst @ out1 @ out2"
    using flush_prefix[of src start1 i "dst @ out1"] by auto
  show ?case
  proof (cases "v = scanError")
    case True
    with st es ac show ?thesis
      by (auto simp: accepts_end simp del: accepts.simps)
  next
    case False
    then obtain out' start' where
      "compact_loop e src (c # cs) i start dst s = compact_loop e src cs (i + 1) start' (dst @ out') s1"
      using st(1) es fl by (cases "v = scanSkipSpace \<or> v = scanEnd") auto
    with Cons.IH[OF st(2), of "i + 1" start' "dst @ out'"] ac False show ?thesis
      by (auto simp del: accepts.simps compact_loop.simps)
  qed
qed auto


lemma reset_ok: "scanner_ok (scan_reset s)"
  by (simp add: scanner_ok_def scan_reset_def)

lemma loop_end:
  assumes "scanner_ok s1"
  shows "\<exists>v s2. scan_eof s1 = Inr (v, s2) \<and> (v = scanError \<longleftrightarrow> \<not> accepts [] s1) \<and> (v = scanError \<longrightarrow> serr s2 \<noteq> None)"
  using eof_total[OF assms] by auto

text \<open>
  C29. Whatever the bytes: \<open>checkValid\<close> returns; \<open>nextValue\<close> returns an error or splits the bytes in two; \<open>compact\<close> and \<open>Indent\<close>
  return, only append to the buffer, leave it as it was when they fail, and fail exactly on the bytes that
  \<open>checkValid\<close> refuses. No index and no slice of the stack of brackets is ever out of range.
\<close>

theorem scanning_total:
  "(\<exists>e. checkValid src s = Inr e) \<and>
   (\<exists>r. nextValue src s = Inr r \<and> (case r of Inl e \<Rightarrow> e \<noteq> None | Inr (v, rest) \<Rightarrow> v @ rest = src)) \<and>
   (\<exists>out e. compact escape dst src = Inr (if e = None then dst @ out else dst, e) \<and>
      (e = None \<longleftrightarrow> checkValid src zeroScanner = Inr None)) \<and>
   (\<exists>out e. Indent dst src p t = Inr (if e = None then dst @ out else dst, e) \<and>
      (e = None \<longleftrightarrow> checkValid src zeroScanner = Inr None))"
proof (intro conjI)
  let ?z = "scan_reset zeroScanner"
  show "\<exists>e. checkValid src s = Inr e"
    using checkValid_total[OF reset_ok] by (auto simp: checkValid_def)
  show "\<exists>r. nextValue src s = Inr r \<and> (case r of Inl e \<Rightarrow> e \<noteq> None | Inr (v, rest) \<Rightarrow> v @ rest = src)"
    using nextValue_total[OF reset_ok, of "[]" src s] by (auto simp: nextValue_def split: sum.splits)
  have ac: "checkValid src zeroScanner = Inr None \<longleftrightarrow> accepts src ?z"
    using checkValid_total[OF reset_ok, of src zeroScanner] by (auto simp: checkValid_def)
  show "\<exists>out e. compact escape dst src = Inr (if e = None then dst @ out else dst, e) \<and> (e = None \<longleftrightarrow> checkValid src zeroScanner = Inr None)"
  proof -
    obtain out start' s1 where 1: "compact_loop escape src src 0 0 dst ?z = Inr (dst @ out, start', s1)" "scanner_ok s1"
      "accepts src ?z \<longleftrightarrow> accepts [] s1"
      using compact_total[OF reset_ok] by blast
    obtain v s2 where 2: "scan_eof s1 = Inr (v, s2)" "v = scanError \<longleftrightarrow> \<not> accepts [] s1" "v = scanError \<longrightarrow> serr s2 \<noteq> None"
      using loop_end[OF 1(2)] by blast
    obtain out2 where fl: "flush src start' (length src) (dst @ out) = dst @ out @ out2"
      using flush_prefix[of src start' "length src" "dst @ out"] by auto
    show ?thesis
      unfolding ac 1(3) using 1(1) 2 fl by (cases "v = scanError") (auto simp: compact_def simp del: accepts.simps compact_loop.simps)
  qed
  show "\<exists>out e. Indent dst src p t = Inr (if e = None then dst @ out else dst, e) \<and> (e = None \<longleftrightarrow> checkValid src zeroScanner = Inr None)"
  proof -
    obtain out s1 where 1: "Indent_loop p t src False 0 dst ?z = Inr (dst @ out, s1)" "scanner_ok s1" "accepts src ?z \<longleftrightarrow> accepts [] s1"
      using Indent_total[OF reset_ok] by blast
    obtain v s2 where 2: "scan_eof s1 = Inr (v, s2)" "v = scanError \<longleftrightarrow> \<not> accepts [] s1" "v = scanError \<longrightarrow> serr s2 \<noteq> None"
      using loop_end[OF 1(2)] by blast
    show ?thesis
      unfolding ac 1(3) using 1(1) 2 by (cases "v = scanError") (auto simp: Indent_def simp del: accepts.simps Indent_loop.simps)
  qed
qed

subsection \<open>What the machine gets wrong\<close>

lemmas step_eval = scan_step_def scan_reset_def zeroScanner_def value_defs text_defs number_defs word_defs ext_defs ctor_defs
  stateGenerated_def generateState_def stateEndValue_def stateEndTop_def popParseState_def scan_fail_def isSpace_def
  char_codes scan_eof_def

text \<open>
  After \<open>MaxKey\<close> and \<open>MinKey\<close> a blank does not end the value, so that the end of the text is not found: a text that is one
  of these keys is refused.
\<close>

theorem MaxKey_refused: "checkValid ''MaxKey'' zeroScanner \<noteq> Inr None"
  by (simp add: checkValid_def step_eval Let_def)

text \<open>\<open>ISODBRef\<close>, which is no type, is accepted: \<open>stateISO\<close> goes on with the names that begin with D.\<close>

theorem ISODBRef_accepted: "checkValid ''ISODBRef()'' zeroScanner = Inr None"
  by (simp add: checkValid_def step_eval Let_def)

text \<open>\<open>Indent\<close> only knows the codes of strings as the inside of a literal, and puts a blank into a regular expression.\<close>

theorem Indent_breaks_regexp: "Indent [] ''/a:b/'' [] [] = Inr (''/a: b/'', None)"
  by (simp add: Indent_def punctuation_def step_eval Let_def)

end
