(* ===== verification/Spec2Isabelle.thy ===== *)
theory Spec2Isabelle
  imports Prelude Wire Queue Assembly_Correct Recorded OpStream Bson_Correct Exec_Correct Compress Cursors_Correct Execution_Correct Playfile_Correct Readpool_Correct Stats_Correct Filtering_Correct Playback_Correct Capture_Correct Server_Correct Structs JsonText_Total
begin

text \<open>
  Mongoreplay records the traffic between MongoDB clients and servers from captured network
  packets, and plays recordings back against another server. This development models the logic of
  the program (\<open>mongoreplay/mongoreplay\<close> in \<open>src\<close>) and of the parts of its fork of a MongoDB driver that the
  logic rests on (\<open>mongoreplay/internal/llmgo\<close>, below \<open>llmgo\<close>).

  \<^bold>\<open>The program.\<close> It has three pipelines over one kind of value, the recorded operation: a wire message with
  the time it was seen, its connection and its end points.

  \<^item> Recording: packets \<open>\<rightarrow>\<close> TCP reassembly \<open>\<rightarrow>\<close> framing of messages, pairing of the two directions of a
    connection \<open>\<rightarrow>\<close> merge in the order of time \<open>\<rightarrow>\<close> playback file.
  \<^item> Filtering: playback file \<open>\<rightarrow>\<close> operations of a time window, possibly split by connections \<open>\<rightarrow>\<close> playback
    files.
  \<^item> Playing: playback file, read by a pool of goroutines \<open>\<rightarrow>\<close> generations of the recording \<open>\<rightarrow>\<close> one goroutine for
    each connection, which rewrites the cursors of its operations, sends them, and pairs the replies with the recorded ones \<open>\<rightarrow>\<close>
    statistics. The monitor uses the statistics on live or recorded traffic.

  \<^bold>\<open>Theories.\<close> A theory \<open>X\<close> holds the definitions of a component, in the order of the code and with its names, and
  \<open>X_Correct\<close> what is proved of them (small components have one theory for both).

  \<^item> \<open>Prelude\<close>: results (an error value, a panic or a call that never returns, or a value), readers, bytes, Go's fixed-width integers,
    and the lemma collections the other theories compute with.
  \<^item> \<open>Wire\<close> (\<open>opcode.go\<close>, \<open>message.go\<close>, \<open>util.go\<close>, \<open>llmgo/socket.go\<close>): op codes, message headers, integers, strings and documents on
    the wire; reading what was written.
  \<^item> \<open>Queue\<close> (\<open>llmgo/queue.go\<close>): the ring buffer of a session; it is a first-in first-out list (locale \<open>fifo\<close>).
  \<^item> \<open>Assembly\<close>, \<open>Assembly_Correct\<close> (\<open>assembly.go\<close>): reassembly of TCP streams with its pages, pool of connections, limits and
    flushes. An invariant over all sequences of packets and flushes gives: no panic and no endless
    loop, the protocol of calls each stream object sees, and that what it is handed are consecutive pieces of what was sent.
  \<^item> \<open>Recorded\<close> (\<open>raw_op.go\<close>, \<open>recorded_op.go\<close>, \<open>handleOps\<close> of \<open>mongo_op_handler.go\<close>): the merge of all connections through a heap
    (locale \<open>min_queue\<close>): it loses nothing, and sorts if the heap covers the disorder.
  \<^item> \<open>OpStream\<close> (\<open>mongo_op_handler.go\<close>): the state machine that cuts bytes into messages, and the pairs of streams with their
    life cycle; messages come out as they went in, however their bytes are cut.
  \<^item> \<open>Recording\<close>, \<open>Recording_Correct\<close>, \<open>Capture_Correct\<close> (\<open>packet_handler.go\<close>, \<open>record.go\<close>): the loop over the packets, which composes
    the assembler with the streams, and the writer. A capture always ends cleanly; a conversation without losses is
    recorded message by message.
  \<^item> \<open>Bson\<close>, \<open>Bson_Correct\<close>, \<open>Bson_Fields\<close> (\<open>llmgo/bson\<close>): the decoder into Go values of given types, the encoder; decoding is
    safe on all bytes, and reads back what was encoded.
  \<^item> \<open>Ops\<close>, \<open>Send\<close>, \<open>Ops_Correct\<close> (the \<open>*_op.go\<close> files, \<open>llmgo/socket.go\<close>): reading and writing every operation of the wire protocol; \<open>Parse\<close>
    inverts the driver's writer; on broken input only the listed failures occur.
  \<^item> \<open>Compress\<close> (\<open>llmgo/compress.go\<close>): compressed messages and the registry of compressors (locale \<open>message_compressor\<close>).
  \<^item> \<open>Socket\<close>, \<open>Socket_Correct\<close> (\<open>llmgo/socket.go\<close>): a connection with its waiting requests, the writer \<open>Query\<close>, the loop that reads
    replies, and its end: every answer reaches the request it answers.
  \<^item> \<open>Replies\<close>, \<open>Replies_Correct\<close> (the \<open>*_op.go\<close> files, \<open>util.go\<close>, \<open>raw_op.go\<close>): cursors, errors, counts and metadata of operations; rewriting
    a cursor changes nothing else.
  \<^item> \<open>Exec\<close>, \<open>Exec_Correct\<close> (\<open>llmgo/session.go\<close>, the \<open>Execute\<close> methods): one operation is sent and its reply collected.
  \<^item> \<open>Cursors\<close>, \<open>Cursors_Correct\<close> (\<open>cursors.go\<close>): which live cursor stands for a recorded one (locale \<open>cursor_manager\<close>);
    preprocessing knows each cursor with the number of its uses.
  \<^item> \<open>Execution\<close>, \<open>Execution_Correct\<close> (\<open>execute.go\<close>): pairing of replies and rewriting of cursors, for every interleaving of the
    connections (a step relation): what is sent has live cursors only.
  \<^item> \<open>Playfile\<close>, \<open>Playfile_Correct\<close> (\<open>playbackfile.go\<close>, \<open>util.go\<close>): the files; what is written is read back.
  \<^item> \<open>Readpool\<close>, \<open>Readpool_Correct\<close> (\<open>parallel_file_read_manager.go\<close>): the pool of goroutines that decodes a file, as a step
    relation: results in order, no deadlock, and every run ends.
  \<^item> \<open>Stats\<close>, \<open>Stats_Correct\<close> (\<open>stat_collector.go\<close>, \<open>stat_format.go\<close>, \<open>monitor.go\<close>): statistics, and the pairing the monitor does.
  \<^item> \<open>Filtering\<close>, \<open>Filtering_Correct\<close> (\<open>filter.go\<close>): the time window and the split.
  \<^item> \<open>Playback\<close>, \<open>Playback_Correct\<close> (\<open>playbackfile.go\<close>, \<open>play.go\<close>, \<open>execute.go\<close>): generations of a recording, and the order and the
    times at which operations reach the sessions.
  \<^item> \<open>Server\<close>, \<open>Server_Correct\<close> (\<open>llmgo/server.go\<close>): the pool of sockets as a step relation of the goroutines that take and
    release them (no socket has two users, the limit is kept by one goroutine at a time), pings, and the choice of a server.
  \<^item> \<open>ObjectIds\<close>, \<open>Structs\<close> (\<open>llmgo/bson/bson.go\<close>): object ids, which never repeat, and what the codec reads off a struct type.
  \<^item> \<open>Scanner\<close>, \<open>JsonText\<close>, \<open>Scanner_Correct\<close>, \<open>Json_Literals\<close>, \<open>Json_Runs\<close>, \<open>JsonText_Correct\<close>, \<open>JsonText_Total\<close>
    (\<open>internal/legacy/json\<close>): the state machine of the extended JSON, byte by byte, and checking, splitting, compacting and indenting a
    text with it; on the texts of a reference syntax they do what the syntax says, on any bytes they return.

  \<^bold>\<open>Conventions.\<close> Go's \<open>int\<close> is \<open>int\<close>; \<open>int32\<close>, \<open>int64\<close> and \<open>uint32\<close> values whose wrap-around matters are
  words, read with \<open>sint\<close> or \<open>uint\<close>. Errors and panics are values of the sum type \<open>res\<close>; a formatted error keeps its format and its integer
  arguments. Times are nanoseconds since the year 1. A struct behind a pointer is a record that is passed on and given
  back; where several goroutines share one, the steps that a lock or a channel makes atomic are the rules of an inductive step relation.
  Maps that Go iterates over are association lists, or the order of the visit is an argument.

  \<^bold>\<open>Loops.\<close> Recursion is structural, or has its termination proved by a measure, or runs on fuel: \<open>Hang\<close> is the result when it
  is used up. A loop that reads bytes gets one round more than there are bytes, and takes a byte at least in each; so do
  the loops of \<open>Ops\<close> and \<open>Socket\<close> (that it is enough is proved with the faults of \<open>FromReader\<close> and the end of the read loop). The documents of the BSON decoder nest, no deeper than the
  input is long: \<open>unmarshal_fuel\<close> is enough for all inputs, as \<open>Bson_Correct\<close> shows. The one loop that can really run for ever, over the documents
  of an \<open>OP_COMMAND\<close>, does so by \<open>CommandOp_truncated\<close>. Loops that wait for events consume a list of events; the end of the list
  without a last event is the result \<open>Hang\<close>.

  \<^bold>\<open>Parameters.\<close> The snappy and zlib packages (\<open>compressLib\<close>), the flows of the packet library (\<open>src\<close>, \<open>dst\<close>,
  \<open>flip\<close>), the order in which maps are visited, failures of the disk and of the connection, the clock, and the scaling of
  times by the speed of a playback (floating point) are arguments; what is assumed of them is a hypothesis of the theorem that needs it.

  \<^bold>\<open>Not modelled.\<close> Opening captures, files and connections, gzip, signals, options of the command line and logging are input and output
  without logic of their own. Of the driver, the discovery of servers (\<open>cluster.go\<close>), the high-level interface of sessions,
  collections, bulk writes and GridFS, transactions (\<open>txn\<close>) and the log-in exchanges are not what a playback
  exercises. Of \<open>legacy\<close>, shared code of the tools, the decoding of JSON into Go values and their encoding (reflection), options and
  logging are left out, and so is the quoting of a byte for an error message (\<open>quoteChar\<close>). Renderings of operations for logs and terminals are left out. The other directories of the repository are scripts
  in other languages.
\<close>

end
